(* ===== verification/Prelude.thy ===== *)
theory Prelude
  imports Main "HOL-Library.AList" "HOL-Library.Word" "HOL-Library.Sublist"
begin

text \<open>
  What every component theory shares: the model's conventions for JavaScript values
  (results of code that may throw, strings as UTF-16 code units, slices, hexadecimal
  printing, insertion-ordered maps), the fact collections the component proofs use, and
  generic lemmas on lists and association lists.

  \<^item> A function that may throw returns a sum: \<open>Inl\<close> the thrown error, \<open>Inr\<close> the value.
  \<^item> A JavaScript \<^verbatim>\<open>Map\<close> or object used as a dictionary is an association list kept
    by \<open>AList.update\<close> (an existing key keeps its place, a new key goes to the end, which
    is the language's iteration order) and \<open>AList.delete\<close>; lookup is \<open>map_of\<close>.
  \<^item> A JavaScript number that counts characters, revisions or milliseconds is an \<open>int\<close>
    (the code's values stay far below 2^53, where doubles are exact on integers).
\<close>

section \<open>Fact collections\<close>

named_theorems doc_simps \<open>equations that evaluate the collaborative-editing model\<close>
named_theorems doc_intros \<open>introduction rules for well-formed operations\<close>
named_theorems life_simps \<open>equations that evaluate the lifecycle model\<close>
named_theorems tree_simps \<open>equations that evaluate the split-tree model\<close>

section \<open>Results of code that may throw\<close>

fun rbind :: "'e + 'a \<Rightarrow> ('a \<Rightarrow> 'e + 'b) \<Rightarrow> 'e + 'b" where
  "rbind (Inl e) f = Inl e"
| "rbind (Inr x) f = f x"

lemma rbind_eq_Inr [simp]: "rbind r f = Inr y \<longleftrightarrow> (\<exists>x. r = Inr x \<and> f x = Inr y)"
  by (cases r) auto

lemma rbind_assoc: "rbind (rbind r f) g = rbind r (\<lambda>x. rbind (f x) g)"
  by (cases r) auto

section \<open>Lists and slices\<close>

text \<open>
  \<open>js_slice xs i j\<close> is \<^verbatim>\<open>xs.slice(i, j)\<close>: a negative bound counts from the end, both
  bounds are clamped into the list, and an empty range gives the empty list.
\<close>

definition js_clamp :: "int \<Rightarrow> int \<Rightarrow> int" where
  "js_clamp len i = (if i < 0 then max (len + i) 0 else min i len)"

definition js_slice :: "'a list \<Rightarrow> int \<Rightarrow> int \<Rightarrow> 'a list" where
  "js_slice xs i j =
     (let s = js_clamp (int (length xs)) i; e = js_clamp (int (length xs)) j
      in take (nat (e - s)) (drop (nat s) xs))"

lemma js_slice_in_range:
  assumes "0 \<le> i" "0 \<le> n" "i + n \<le> int (length xs)"
  shows "js_slice xs i (i + n) = take (nat n) (drop (nat i) xs)"
  using assms by (simp add: js_slice_def js_clamp_def)

lemma length_js_slice_le: "length (js_slice xs i j) \<le> length xs"
  by (simp add: js_slice_def Let_def)

lemma js_slice_prefix:
  assumes "0 \<le> n"
  shows "js_slice xs 0 n = take (nat n) xs"
proof (cases "n \<le> int (length xs)")
  case True
  with assms show ?thesis using js_slice_in_range [of 0 n xs] by simp
next
  case False
  with assms show ?thesis by (simp add: js_slice_def js_clamp_def)
qed

section \<open>Association lists as insertion-ordered maps\<close>

lemma keys_alist_delete [simp]: "fst ` set (AList.delete k m) = fst ` set m - {k}"
  by (simp add: AList.delete_eq) force

lemma distinct_keys_update [intro]:
  "distinct (map fst m) \<Longrightarrow> distinct (map fst (AList.update k v m))"
  by (rule distinct_update)

lemma distinct_keys_delete [intro]:
  "distinct (map fst m) \<Longrightarrow> distinct (map fst (AList.delete k m))"
  by (rule distinct_delete)

lemma map_of_alist_update: "map_of (AList.update k v m) k' = (if k' = k then Some v else map_of m k')"
  by (simp add: update_conv')

lemma map_of_alist_delete: "map_of (AList.delete k m) k' = (if k' = k then None else map_of m k')"
  by (simp add: delete_conv')

lemma length_alist_delete: "length (AList.delete k xs) \<le> length xs"
  by (simp add: AList.delete_eq)

lemma set_alist_delete: "set (AList.delete k xs) = {e \<in> set xs. fst e \<noteq> k}"
  by (auto simp: AList.delete_eq)

lemma set_alist_update: "set (AList.update k v xs) \<subseteq> insert (k, v) (set xs)"
  by (induction xs) auto

lemma length_alist_update: "length (AList.update k v xs) = (if k \<in> fst ` set xs then length xs else Suc (length xs))"
  by (induction xs) auto

lemma delete_absent: "map_of xs k = None \<Longrightarrow> AList.delete k xs = xs"
  by (force simp: map_of_eq_None_iff AList.delete_eq intro!: filter_True)

lemma update_new: "map_of xs k = None \<Longrightarrow> AList.update k v xs = xs @ [(k, v)]"
  by (induction xs) (auto split: if_splits)

section \<open>Hexadecimal printing\<close>

text \<open>
  \<open>js_hex n\<close> is \<^verbatim>\<open>n.toString(16)\<close> of a non-negative integer: lower-case digits, no
  padding. \<open>pad_start2\<close> is \<^verbatim>\<open>padStart(2, "0")\<close>.
\<close>

definition hex_digit :: "nat \<Rightarrow> char" where
  "hex_digit n = ''0123456789abcdef'' ! n"

fun js_hex :: "nat \<Rightarrow> string" where
  "js_hex n = (if n < 16 then [hex_digit n] else js_hex (n div 16) @ [hex_digit (n mod 16)])"

declare js_hex.simps [simp del]

definition pad_start2 :: "string \<Rightarrow> string" where
  "pad_start2 s = replicate (2 - length s) CHR ''0'' @ s"

lemma hex_digit_inj: "n < 16 \<Longrightarrow> m < 16 \<Longrightarrow> hex_digit n = hex_digit m \<longleftrightarrow> n = m"
  unfolding hex_digit_def by (rule nth_eq_iff_index_eq) simp_all

lemma js_hex_small: "n < 16 \<Longrightarrow> js_hex n = [hex_digit n]"
  by (subst js_hex.simps) simp

lemma js_hex_big: "\<not> n < 16 \<Longrightarrow> js_hex n = js_hex (n div 16) @ [hex_digit (n mod 16)]"
  by (subst js_hex.simps) simp

lemma js_hex_nonempty [simp]: "js_hex n \<noteq> []"
  by (cases "n < 16") (simp_all add: js_hex_small js_hex_big)

lemma Nil_neq_js_hex [simp]: "[] \<noteq> js_hex n"
  using js_hex_nonempty [of n] by metis

lemma js_hex_inj: "js_hex n = js_hex m \<longleftrightarrow> n = m"
proof (induction n arbitrary: m rule: js_hex.induct)
  case (1 n)
  show ?case
  proof (cases "n < 16")
    case True
    then show ?thesis
      by (cases "m < 16") (auto simp: js_hex_small js_hex_big hex_digit_inj)
  next
    case n: False
    show ?thesis
    proof (cases "m < 16")
      case True
      with n show ?thesis by (auto simp: js_hex_small js_hex_big)
    next
      case False
      have "js_hex n = js_hex m \<longleftrightarrow> n div 16 = m div 16 \<and> n mod 16 = m mod 16"
        using n False "1.IH" [OF n, of "m div 16"]
        by (simp add: js_hex_big hex_digit_inj)
      also have "\<dots> \<longleftrightarrow> n = m"
        by (metis div_mult_mod_eq)
      finally show ?thesis .
    qed
  qed
qed

section \<open>Strings as UTF-16 code units\<close>

type_synonym js_string = "16 word list"

definition js :: "string \<Rightarrow> js_string" where
  "js s = map (\<lambda>c. word_of_nat (of_char c)) s"

text \<open>The code points that \<^verbatim>\<open>trim\<close> removes: the language's white space and line terminators.\<close>

definition js_space :: "16 word \<Rightarrow> bool" where
  "js_space c \<longleftrightarrow> c \<in> {9, 10, 11, 12, 13, 32, 160, 0x1680, 0x2028, 0x2029, 0x202f, 0x205f, 0x3000, 0xfeff}
     \<or> 0x2000 \<le> c \<and> c \<le> 0x200a"

definition js_trim :: "js_string \<Rightarrow> js_string" where
  "js_trim s = rev (dropWhile js_space (rev (dropWhile js_space s)))"

lemma set_js_trim: "set (js_trim s) \<subseteq> set s"
proof -
  have "set (js_trim s) \<subseteq> set (dropWhile js_space s)"
    unfolding js_trim_def set_rev using set_dropWhileD by fastforce
  then show ?thesis using set_dropWhileD by fastforce
qed

end
