(* ===== verification/JsText.thy ===== *)
theory JsText
  imports Prelude
begin

text \<open>
  What several parts of the program do to strings: the case of ASCII letters, substrings, one line of text, clipping, joining,
  decimal numbers and the length in UTF-8.
\<close>

section \<open>Case and substrings\<close>

text \<open>
  \<^verbatim>\<open>toLowerCase\<close> as far as an ASCII pattern can see it: the ASCII capitals, and the two other
  characters whose lower case contains an ASCII letter (the Kelvin sign and the dotted capital I).
  Every other character stays outside ASCII and is left as it is.
\<close>

definition js_lower :: "js_string \<Rightarrow> js_string" where
  "js_lower s =
     concat (map (\<lambda>c. if 0x41 \<le> c \<and> c \<le> 0x5a then [c + 0x20] else if c = 0x212a then [0x6b]
       else if c = 0x130 then [0x69, 0x307] else [c]) s)"

fun js_includes :: "'a list \<Rightarrow> 'a list \<Rightarrow> bool" where
  "js_includes p [] \<longleftrightarrow> p = []"
| "js_includes p (c # t) \<longleftrightarrow> take (length p) (c # t) = p \<or> js_includes p t"

definition fold_case :: "16 word \<Rightarrow> 16 word" where
  "fold_case c = (if 65 \<le> c \<and> c \<le> 90 then c + 32 else c)"

section \<open>One line, clipped\<close>

fun squeeze :: "bool \<Rightarrow> js_string \<Rightarrow> js_string" where
  "squeeze b [] = []"
| "squeeze b (c # cs) = (if js_space c then (if b then squeeze True cs else 32 # squeeze True cs) else c # squeeze False cs)"

definition oneLine :: "js_string \<Rightarrow> js_string" where
  "oneLine s = js_trim (squeeze False s)"

definition clip_js :: "js_string \<Rightarrow> nat \<Rightarrow> js_string" where
  "clip_js s n = (if length s > n then take (n - 1) s @ [0x2026] else s)"

section \<open>Joining, numbers, bytes\<close>

fun joined :: "js_string \<Rightarrow> js_string list \<Rightarrow> js_string" where
  "joined sep [] = []"
| "joined sep [x] = x"
| "joined sep (x # y # ys) = x @ sep @ joined sep (y # ys)"

definition dec_digit :: "nat \<Rightarrow> char" where
  "dec_digit n = ''0123456789'' ! n"

fun show_nat :: "nat \<Rightarrow> string" where
  "show_nat n = (if n < 10 then [dec_digit n] else show_nat (n div 10) @ [dec_digit (n mod 10)])"

declare show_nat.simps [simp del]

fun split_js :: "16 word \<Rightarrow> js_string \<Rightarrow> js_string list" where
  "split_js c [] = [[]]"
| "split_js c (x # xs) = (if x = c then [] # split_js c xs else (x # hd (split_js c xs)) # tl (split_js c xs))"

fun utf8_bytes :: "js_string \<Rightarrow> nat" where
  "utf8_bytes [] = 0"
| "utf8_bytes (code # rest) =
     (if code < 0x80 then 1 + utf8_bytes rest
      else if code < 0x800 then 2 + utf8_bytes rest
      else if 0xd800 \<le> code \<and> code \<le> 0xdbff then
        (case rest of
           [] \<Rightarrow> 3
         | next # rest' \<Rightarrow> (if 0xdc00 \<le> next \<and> next \<le> 0xdfff then 4 + utf8_bytes rest' else 3 + utf8_bytes rest))
      else 3 + utf8_bytes rest)"

section \<open>What they keep\<close>

lemma squeeze_append: "squeeze b (x @ y) = squeeze b x @ squeeze (if x = [] then b else js_space (last x)) y"
  by (induction b x rule: squeeze.induct) auto

lemma squeeze_word: "list_all (\<lambda>c. \<not> js_space c) x \<Longrightarrow> squeeze b x = x"
  by (induction b x rule: squeeze.induct) auto

lemma squeeze_units: "c \<in> set (squeeze b x) \<Longrightarrow> js_space c \<Longrightarrow> c = 32"
  by (induction b x rule: squeeze.induct) (auto split: if_splits)

lemma oneLine_units: "c \<in> set (oneLine s) \<Longrightarrow> js_space c \<Longrightarrow> c = 32"
  using squeeze_units set_js_trim unfolding oneLine_def by blast

lemma js_trim_keeps:
  assumes "\<not> js_space (hd (x @ [c]))" "\<not> js_space c"
  shows "\<exists>z. js_trim (x @ c # y) = x @ c # z"
proof -
  have d: "dropWhile js_space (x @ c # y) = x @ c # y" using assms by (cases x) auto
  have "dropWhile js_space (rev y @ c # rev x) = dropWhile js_space (rev y) @ c # rev x"
    using assms(2) by (induction "rev y") (auto simp: dropWhile_append)
  then show ?thesis by (auto simp: js_trim_def d)
qed

lemma split_js_nonempty [simp]: "split_js c s \<noteq> []"
  by (cases s) simp_all

lemma joined_Cons: "joined sep (x # xs) = (if xs = [] then x else x @ sep @ joined sep xs)"
  by (cases xs) simp_all

lemma joined_split_js: "joined [c] (split_js c s) = s"
proof (induction s)
  case (Cons x xs)
  then show ?case by (cases "split_js c xs") (auto simp: joined_Cons split: if_splits)
qed simp

lemma split_js_word: "c \<notin> set p \<Longrightarrow> split_js c p = [p]"
  by (induction p) auto

lemma split_js_append: "c \<notin> set p \<Longrightarrow> split_js c (p @ c # s) = p # split_js c s"
  by (induction p) auto

lemma split_js_joined: "ps \<noteq> [] \<Longrightarrow> \<forall>p \<in> set ps. c \<notin> set p \<Longrightarrow> split_js c (joined [c] ps) = ps"
  by (induction ps) (auto simp: joined_Cons split_js_word split_js_append)

lemma split_js_clean: "p \<in> set (split_js c s) \<Longrightarrow> c \<notin> set p"
proof (induction s arbitrary: p)
  case (Cons x xs)
  then show ?case by (cases "split_js c xs") (auto split: if_splits)
qed simp

end
