(* ===== verification/JobScope.thy ===== *)
theory JobScope
  imports JsText "HOL-Library.Product_Lexorder"
begin

text \<open>
  Which project a job from another machine belongs in, \<^verbatim>\<open>src/src/jobScope.ts\<close>, with the repository of a remote
  (\<^verbatim>\<open>repoRefFromRemote\<close> of \<^verbatim>\<open>gitLinks.ts\<close>) and the checks of a scope on the wire
  (\<^verbatim>\<open>teamMessaging/jobSchema.ts\<close>, \<^verbatim>\<open>cardSchema.ts\<close>). The URL parser of the platform is an argument.
\<close>

section \<open>Repositories\<close>

record job_repo =
  jr_host :: "js_string option"
  jr_slug :: js_string

record job_scope =
  js_repos :: "job_repo list"
  js_path :: "js_string option"
  js_branch :: "js_string option"

definition letter_unit :: "16 word \<Rightarrow> bool" where
  "letter_unit c \<longleftrightarrow> 97 \<le> fold_case c \<and> fold_case c \<le> 122"

definition digit_unit :: "16 word \<Rightarrow> bool" where
  "digit_unit c \<longleftrightarrow> 48 \<le> c \<and> c \<le> 57"

definition segment_unit :: "16 word \<Rightarrow> bool" where
  "segment_unit c \<longleftrightarrow> letter_unit c \<or> digit_unit c \<or> c \<in> set (js ''._-'')"

definition host_unit :: "16 word \<Rightarrow> bool" where
  "host_unit c \<longleftrightarrow> 97 \<le> c \<and> c \<le> 122 \<or> digit_unit c \<or> c \<in> set (js ''.-'')"

definition validSlug :: "js_string \<Rightarrow> bool" where
  "validSlug slug \<longleftrightarrow> length slug \<le> 200 \<and>
     (let parts = split_js 47 slug
      in 2 \<le> length parts \<and> length parts \<le> 5 \<and>
         list_all (\<lambda>p. p \<noteq> [] \<and> list_all segment_unit p \<and> p \<noteq> js ''.'' \<and> p \<noteq> js ''..'') parts)"

text \<open>\<^verbatim>\<open>/^[a-z0-9.-]{1,253}(:\d{1,5})?$/\<close>\<close>

definition host_ok :: "js_string \<Rightarrow> bool" where
  "host_ok h \<longleftrightarrow>
     (let a = takeWhile host_unit h; r = dropWhile host_unit h
      in 1 \<le> length a \<and> length a \<le> 253
         \<and> (r = [] \<or> hd r = 58 \<and> 1 \<le> length (tl r) \<and> length (tl r) \<le> 5 \<and> list_all digit_unit (tl r)))"

definition validRepo :: "js_string \<Rightarrow> js_string \<Rightarrow> bool" where
  "validRepo host slug \<longleftrightarrow> host_ok host \<and> hd host \<noteq> 46 \<and> hd host \<noteq> 45 \<and> validSlug slug"

definition validJobRepo :: "job_repo \<Rightarrow> bool" where
  "validJobRepo r = (case jr_host r of None \<Rightarrow> validSlug (jr_slug r) | Some h \<Rightarrow> validRepo h (jr_slug r))"

section \<open>The remote of a checkout\<close>

text \<open>What \<^verbatim>\<open>new URL\<close> reads; that it throws is \<open>None\<close>.\<close>

record url_parts =
  ur_protocol :: js_string
  ur_hostname :: js_string
  ur_port :: js_string
  ur_pathname :: js_string

definition drop_slashes :: "js_string \<Rightarrow> js_string" where
  "drop_slashes s = rev (dropWhile (\<lambda>c. c = 47) (rev s))"

definition drop_git :: "js_string \<Rightarrow> js_string" where
  "drop_git s = (if 4 \<le> length s \<and> map fold_case (drop (length s - 4) s) = js ''.git'' then take (length s - 4) s else s)"

definition segments :: "js_string \<Rightarrow> js_string list" where
  "segments s = filter (\<lambda>p. p \<noteq> []) (split_js 47 s)"

definition scheme_unit :: "16 word \<Rightarrow> bool" where
  "scheme_unit c \<longleftrightarrow> letter_unit c \<or> digit_unit c \<or> c \<in> set (js ''+.-'')"

definition has_scheme :: "js_string \<Rightarrow> bool" where
  "has_scheme s \<longleftrightarrow> s \<noteq> [] \<and> letter_unit (hd s) \<and> take 3 (dropWhile scheme_unit s) = js ''://''"

definition line_end :: "16 word \<Rightarrow> bool" where
  "line_end c \<longleftrightarrow> c \<in> {10, 13, 0x2028, 0x2029}"

text \<open>\<^verbatim>\<open>/^(?:[^@/\s]+@)?([^:/\s]+):(?!\/)(.+)$/\<close>, with the user and, if that does not match, without\<close>

definition scp_host :: "js_string \<Rightarrow> (js_string \<times> js_string) option" where
  "scp_host s =
     (let h = takeWhile (\<lambda>c. c \<noteq> 58 \<and> c \<noteq> 47 \<and> \<not> js_space c) s; r = drop (length h) s
      in if h \<noteq> [] \<and> r \<noteq> [] \<and> hd r = 58 \<and> tl r \<noteq> [] \<and> hd (tl r) \<noteq> 47 \<and> list_all (\<lambda>c. \<not> line_end c) (tl r)
         then Some (h, tl r) else None)"

definition scp :: "js_string \<Rightarrow> (js_string \<times> js_string) option" where
  "scp s =
     (let u = takeWhile (\<lambda>c. c \<noteq> 64 \<and> c \<noteq> 47 \<and> \<not> js_space c) s; r = drop (length u) s
      in case (if u \<noteq> [] \<and> r \<noteq> [] \<and> hd r = 64 then scp_host (tl r) else None) of
           Some x \<Rightarrow> Some x
         | None \<Rightarrow> scp_host s)"

definition WEB :: "js_string list" where
  "WEB = [js ''http:'', js ''https:'']"

definition GIT_PROTOCOLS :: "js_string list" where
  "GIT_PROTOCOLS = WEB @ [js ''ssh:'', js ''git:'', js ''git+ssh:'', js ''ssh+git:'']"

definition remote_parts :: "(js_string \<Rightarrow> url_parts option) \<Rightarrow> js_string \<Rightarrow> (js_string \<times> js_string) option" where
  "remote_parts url raw =
     (if has_scheme raw then
        (case url raw of
           None \<Rightarrow> None
         | Some u \<Rightarrow>
             (if ur_protocol u \<notin> set GIT_PROTOCOLS then None
              else Some (js_lower (ur_hostname u) @ (if ur_port u \<noteq> [] \<and> ur_protocol u \<in> set WEB then 58 # ur_port u else []), ur_pathname u)))
      else map_option (\<lambda>(h, p). (js_lower h, p)) (scp raw))"

definition repoRefFromRemote :: "(js_string \<Rightarrow> url_parts option) \<Rightarrow> js_string \<Rightarrow> job_repo option" where
  "repoRefFromRemote url remoteUrl =
     (let raw = drop_git (drop_slashes (js_trim remoteUrl))
      in if raw = [] then None
         else case remote_parts url raw of
           None \<Rightarrow> None
         | Some (host, path) \<Rightarrow>
             (let slug = drop_git (joined [47] (segments path))
              in if validRepo host slug then Some \<lparr>jr_host = Some host, jr_slug = slug\<rparr> else None))"

text \<open>A host that is absent or empty is not looked at.\<close>

definition host_of :: "job_repo \<Rightarrow> js_string" where
  "host_of r = (case jr_host r of None \<Rightarrow> [] | Some h \<Rightarrow> h)"

definition repoFullName :: "job_repo \<Rightarrow> js_string" where
  "repoFullName r = (if host_of r \<noteq> [] then host_of r @ 47 # jr_slug r else jr_slug r)"

definition cloneUrlFor :: "job_repo \<Rightarrow> js_string option" where
  "cloneUrlFor r = (if host_of r \<noteq> [] \<and> 46 \<in> set (host_of r) then Some (js ''https://'' @ host_of r @ 47 # jr_slug r @ js ''.git'') else None)"

definition parseRepoArg :: "(js_string \<Rightarrow> url_parts option) \<Rightarrow> js_string \<Rightarrow> job_repo option" where
  "parseRepoArg url text =
     (let raw = js_trim text
      in if raw = [] then None
         else case repoRefFromRemote url raw of
           Some r \<Rightarrow> Some r
         | None \<Rightarrow>
             (let parts = segments (drop_git raw);
                  candidate = (if 3 \<le> length parts \<and> 46 \<in> set (hd parts)
                    then \<lparr>jr_host = Some (js_lower (hd parts)), jr_slug = joined [47] (tl parts)\<rparr>
                    else \<lparr>jr_host = None, jr_slug = joined [47] parts\<rparr>)
              in if validJobRepo candidate then Some candidate else None))"

definition sameRepo :: "job_repo \<Rightarrow> job_repo \<Rightarrow> bool" where
  "sameRepo a b \<longleftrightarrow> js_lower (jr_slug a) = js_lower (jr_slug b) \<and>
     (host_of a = [] \<or> host_of b = [] \<or> host_of a = host_of b \<or> 46 \<notin> set (host_of a) \<or> 46 \<notin> set (host_of b))"

definition originMatches :: "(js_string \<Rightarrow> url_parts option) \<Rightarrow> js_string \<Rightarrow> job_repo \<Rightarrow> bool" where
  "originMatches url origin r = (case repoRefFromRemote url origin of None \<Rightarrow> False | Some here \<Rightarrow> sameRepo here r)"

section \<open>The scope a job carries\<close>

definition hasControl :: "js_string \<Rightarrow> bool" where
  "hasControl s \<longleftrightarrow> list_ex (\<lambda>c. c < 32 \<or> c = 127) s"

definition C1_OR_BIDI :: "js_string \<Rightarrow> bool" where
  "C1_OR_BIDI s \<longleftrightarrow> list_ex (\<lambda>c. 0x80 \<le> c \<and> c \<le> 0x9f \<or> 0x202a \<le> c \<and> c \<le> 0x202e \<or> 0x2066 \<le> c \<and> c \<le> 0x2069) s"

text \<open>\<^verbatim>\<open>[...value].length\<close>: a surrogate pair is one code point.\<close>

fun code_points :: "js_string \<Rightarrow> nat" where
  "code_points [] = 0"
| "code_points (c # s) =
     (if 0xd800 \<le> c \<and> c \<le> 0xdbff \<and> s \<noteq> [] \<and> 0xdc00 \<le> hd s \<and> hd s \<le> 0xdfff then 1 + code_points (tl s) else 1 + code_points s)"

definition safeLine :: "js_string \<Rightarrow> nat \<Rightarrow> bool" where
  "safeLine s n \<longleftrightarrow> s \<noteq> [] \<and> code_points s \<le> n \<and> \<not> hasControl s \<and> \<not> C1_OR_BIDI s"

definition safeSegments :: "js_string list \<Rightarrow> bool" where
  "safeSegments ps \<longleftrightarrow> ps \<noteq> [] \<and>
     list_all (\<lambda>s. s \<noteq> [] \<and> s \<noteq> js ''.'' \<and> s \<noteq> js ''..'' \<and> 92 \<notin> set s \<and> js_lower s \<noteq> js ''.git'') ps \<and>
     \<not> (2 \<le> length (hd ps) \<and> letter_unit (hd (hd ps)) \<and> hd ps ! 1 = 58)"

definition pathBytes :: nat where "pathBytes = 1024"

definition validCardPath :: "js_string \<Rightarrow> bool" where
  "validCardPath v \<longleftrightarrow> v \<noteq> [] \<and> utf8_bytes v \<le> pathBytes \<and> safeLine v pathBytes
     \<and> \<not> list_ex (\<lambda>e. js_includes (37 # js e) (map fold_case v)) [''2e'', ''2f'', ''5c'', ''00'']
     \<and> hd v \<noteq> 47 \<and> last v \<noteq> 47 \<and> safeSegments (split_js 47 v)"

definition MAX_SCOPE_REPOS :: nat where "MAX_SCOPE_REPOS = 5"
definition MAX_SCOPE_BRANCH :: nat where "MAX_SCOPE_BRANCH = 200"

definition validJobScope :: "job_scope \<Rightarrow> bool" where
  "validJobScope s \<longleftrightarrow> 1 \<le> length (js_repos s) \<and> length (js_repos s) \<le> MAX_SCOPE_REPOS \<and> list_all validJobRepo (js_repos s)
     \<and> (case js_path s of None \<Rightarrow> True | Some p \<Rightarrow> validCardPath p \<and> utf8_bytes p \<le> 300)
     \<and> (case js_branch s of None \<Rightarrow> True
        | Some b \<Rightarrow> b \<noteq> [] \<and> length b \<le> MAX_SCOPE_BRANCH \<and> \<not> list_ex (\<lambda>c. js_space c \<or> c < 32 \<or> c = 127) b)"

record sender_repo =
  sr_origin :: js_string
  sr_path :: js_string
  sr_branch :: js_string

datatype scope_error = NotARepository js_string | TooManyRepositories

fun named_repos :: "(js_string \<Rightarrow> url_parts option) \<Rightarrow> js_string list \<Rightarrow> job_repo list \<Rightarrow> scope_error + job_repo list" where
  "named_repos url [] repos = Inr repos"
| "named_repos url (text # ts) repos =
     (case parseRepoArg url text of
        None \<Rightarrow> Inl (NotARepository text)
      | Some r \<Rightarrow> named_repos url ts (if list_ex (\<lambda>q. sameRepo q r) repos then repos else repos @ [r]))"

definition own_repo :: "(js_string \<Rightarrow> url_parts option) \<Rightarrow> sender_repo option \<Rightarrow> job_repo option" where
  "own_repo url sender = (case sender of None \<Rightarrow> None | Some s \<Rightarrow> (if sr_origin s = [] then None else repoRefFromRemote url (sr_origin s)))"

text \<open>The scope for the repositories collected; \<open>hints\<close> adds the folder and the branch of the sender's own checkout.\<close>

definition hints :: "sender_repo \<Rightarrow> job_scope \<Rightarrow> job_scope" where
  "hints s sc =
     (let path = drop_slashes (dropWhile (\<lambda>c. c = 47) (sr_path s))
      in sc\<lparr>js_path := (if path = [] then None else Some path), js_branch := (if sr_branch s = [] then None else Some (sr_branch s))\<rparr>)"

definition scope_of :: "job_repo option \<Rightarrow> sender_repo option \<Rightarrow> job_repo list \<Rightarrow> job_scope option" where
  "scope_of own sender repos =
     (let primaryIsOwn = (case own of None \<Rightarrow> False | Some o' \<Rightarrow> sameRepo (hd repos) o');
          rs = (if primaryIsOwn \<and> host_of (hd repos) = [] then the own # tl repos else repos);
          bare = \<lparr>js_repos = rs, js_path = None, js_branch = None\<rparr>;
          scope = (case sender of Some s \<Rightarrow> (if primaryIsOwn then hints s bare else bare) | None \<Rightarrow> bare)
      in if validJobScope scope then Some scope else if validJobScope bare then Some bare else None)"

definition buildScope :: "(js_string \<Rightarrow> url_parts option) \<Rightarrow> sender_repo option \<Rightarrow> js_string list \<Rightarrow> scope_error + job_scope option" where
  "buildScope url sender named =
     rbind (named_repos url named []) (\<lambda>repos.
       if length repos > MAX_SCOPE_REPOS then Inl TooManyRepositories
       else case (repos, own_repo url sender) of
              ([], None) \<Rightarrow> Inr None
            | ([], Some own) \<Rightarrow> Inr (scope_of (Some own) sender [own])
            | (_, own) \<Rightarrow> Inr (scope_of own sender repos))"

section \<open>Where an incoming job runs\<close>

record checkout =
  co_project :: js_string
  co_dir :: js_string
  co_rel :: js_string
  co_origin :: js_string
  co_main :: bool

datatype placement = Matched job_repo "checkout list" | Missing job_repo | NoPlace

definition within :: "js_string \<Rightarrow> js_string \<Rightarrow> bool" where
  "within rel path \<longleftrightarrow> rel = [] \<or> path = rel \<or> take (length rel + 1) path = rel @ [47]"

definition rank :: "js_string \<Rightarrow> checkout \<Rightarrow> nat" where
  "rank path c = (if within (co_rel c) path then 10000 else 0) + (if co_main c then 5000 else 0) + length (co_rel c)"

fun matching :: "(js_string \<Rightarrow> url_parts option) \<Rightarrow> job_repo \<Rightarrow> js_string list \<Rightarrow> checkout list \<Rightarrow> checkout list" where
  "matching url r seen [] = []"
| "matching url r seen (c # cs) =
     (if co_dir c \<in> set seen \<or> \<not> originMatches url (co_origin c) r then matching url r seen cs
      else c # matching url r (co_dir c # seen) cs)"

definition place :: "(js_string \<Rightarrow> url_parts option) \<Rightarrow> job_scope option \<Rightarrow> checkout list \<Rightarrow> placement" where
  "place url scope checkouts =
     (case scope of
        None \<Rightarrow> NoPlace
      | Some sc \<Rightarrow>
          (case js_repos sc of
             [] \<Rightarrow> NoPlace
           | r # _ \<Rightarrow>
               (let path = (case js_path sc of None \<Rightarrow> [] | Some p \<Rightarrow> p); ms = matching url r [] checkouts
                in if ms = [] then Missing r else Matched r (sort_key (\<lambda>c. - int (rank path c)) ms))))"

definition is_matched :: "placement \<Rightarrow> bool" where
  "is_matched p = (case p of Matched _ _ \<Rightarrow> True | _ \<Rightarrow> False)"

definition scopeBrief :: "job_scope option \<Rightarrow> placement \<Rightarrow> js_string" where
  "scopeBrief scope pl =
     (case scope of
        None \<Rightarrow> []
      | Some sc \<Rightarrow>
          joined [32]
            ([js ''Repository: '' @ repoFullName (hd (js_repos sc))
                @ (case js_branch sc of Some (b # bs) \<Rightarrow> js '' (the sender was on branch '' @ b # bs @ js '')'' | _ \<Rightarrow> []) @ js ''.'']
             @ (case js_path sc of
                  Some (p # ps) \<Rightarrow> (if is_matched pl then [js ''Work in the `'' @ p # ps @ js ''` folder of that repository.''] else [])
                | _ \<Rightarrow> [])
             @ (if tl (js_repos sc) = [] then []
                else [js ''It also involves: '' @ joined (js '', '') (map repoFullName (tl (js_repos sc)))
                        @ [32, 0x2014] @ js '' those are other checkouts, not this one.''])))"

section \<open>The checkouts of the projects\<close>

record share_context =
  sx_root :: js_string
  sx_rel :: js_string
  sx_origin :: js_string

text \<open>\<open>all\<close> is what the one lookup of every saved component returned (\<open>None\<close>: not served); else each component is looked up.\<close>

definition saved_checkout :: "(js_string \<times> js_string \<times> js_string \<times> bool) list \<Rightarrow> js_string \<Rightarrow> js_string \<Rightarrow> checkout option" where
  "saved_checkout saved project path =
     map_option (\<lambda>(rel, origin, main). \<lparr>co_project = project, co_dir = path, co_rel = rel, co_origin = origin, co_main = main\<rparr>)
       (map_of (rev saved) path)"

definition is_main :: "(js_string \<Rightarrow> (js_string \<times> bool) list option) \<Rightarrow> js_string \<Rightarrow> bool" where
  "is_main worktrees root = (case worktrees root of None \<Rightarrow> True | Some l \<Rightarrow> (case map_of l root of None \<Rightarrow> True | Some b \<Rightarrow> b))"

definition shared_checkout ::
  "(js_string \<Rightarrow> share_context option) \<Rightarrow> (js_string \<Rightarrow> (js_string \<times> bool) list option) \<Rightarrow> js_string \<Rightarrow> js_string \<Rightarrow> checkout option" where
  "shared_checkout share worktrees project path =
     (case share path of
        None \<Rightarrow> None
      | Some x \<Rightarrow>
          (if sx_origin x = [] then None
           else Some \<lparr>co_project = project, co_dir = path, co_rel = sx_rel x, co_origin = sx_origin x, co_main = is_main worktrees (sx_root x)\<rparr>))"

definition projectCheckouts ::
  "(js_string \<times> js_string list) list \<Rightarrow> (js_string \<times> js_string \<times> js_string \<times> bool) list option \<Rightarrow> (js_string \<Rightarrow> share_context option)
     \<Rightarrow> (js_string \<Rightarrow> (js_string \<times> bool) list option) \<Rightarrow> checkout list" where
  "projectCheckouts projects all share worktrees =
     concat (map (\<lambda>(name, paths). List.map_filter
        (case all of Some saved \<Rightarrow> saved_checkout saved name | None \<Rightarrow> shared_checkout share worktrees name) paths) projects)"

section \<open>A job is placed by its repository\<close>

lemma matching_set: "c \<in> set (matching url r seen cs) \<Longrightarrow> c \<in> set cs \<and> originMatches url (co_origin c) r \<and> co_dir c \<notin> set seen"
  by (induction cs arbitrary: seen) (auto split: if_splits, metis list.set_intros(2))

lemma matching_distinct: "distinct (map co_dir (matching url r seen cs))"
  by (induction cs arbitrary: seen) (auto dest: matching_set)

lemma matching_all: "c \<in> set cs \<Longrightarrow> originMatches url (co_origin c) r \<Longrightarrow> co_dir c \<in> set seen \<union> co_dir ` set (matching url r seen cs)"
proof (induction cs arbitrary: seen)
  case (Cons x cs)
  then show ?case using Cons.IH [of seen] Cons.IH [of "co_dir x # seen"] by auto
qed simp

text \<open>The order of the choices: in the sender's folder, then the main checkout, then the deeper folder\<close>

definition preference :: "js_string \<Rightarrow> checkout \<Rightarrow> bool \<times> bool \<times> nat" where
  "preference path c = (within (co_rel c) path, co_main c, length (co_rel c))"

lemma rank_preference:
  assumes "length (co_rel a) < 5000" "length (co_rel b) < 5000" "rank path b \<le> rank path a"
  shows "preference path b \<le> preference path a"
  using assms by (cases "within (co_rel a) path"; cases "within (co_rel b) path"; cases "co_main a"; cases "co_main b")
    (simp_all add: rank_def preference_def)


section \<open>A repository's full name is read back\<close>

lemma hd_drop_mem: "drop n s \<noteq> [] \<Longrightarrow> hd (drop n s) \<in> set s"
  by (meson hd_in_set in_set_dropD)

lemma tl_drop_set: "set (tl (drop n s)) \<subseteq> set s"
  by (metis drop_Suc drop_tl set_drop_subset tl_drop)

lemma scp_host_colon: "scp_host x = Some y \<Longrightarrow> 58 \<in> set x"
  using hd_drop_mem by (fastforce simp: scp_host_def Let_def split: if_splits)

lemma scp_colon: "scp x = Some y \<Longrightarrow> 58 \<in> set x"
  using scp_host_colon tl_drop_set by (fastforce simp: scp_def Let_def split: if_splits option.splits)

lemma no_colon_no_remote:
  assumes "58 \<notin> set s"
  shows "repoRefFromRemote url s = None"
proof -
  let ?r = "drop_git (drop_slashes (js_trim s))"
  have d: "set (drop_slashes x) \<subseteq> set x" "set (drop_git x) \<subseteq> set x" for x
    unfolding drop_slashes_def drop_git_def using set_dropWhileD set_take_subset by (fastforce split: if_splits)+
  have c: "58 \<notin> set ?r" using assms d set_js_trim by blast
  have "has_scheme x \<Longrightarrow> 58 \<in> set x" for x
  proof -
    assume "has_scheme x"
    then have "take 3 (dropWhile scheme_unit x) = js ''://''" by (simp add: has_scheme_def)
    then have "58 \<in> set (take 3 (dropWhile scheme_unit x))" by (simp add: js_def)
    then show "58 \<in> set x" using in_set_takeD set_dropWhileD by metis
  qed
  moreover note scp_colon [of ?r]
  ultimately have "?r \<noteq> [] \<Longrightarrow> remote_parts url ?r = None" using c by (cases "scp ?r") (auto simp: remote_parts_def)
  then show ?thesis by (simp add: repoRefFromRemote_def Let_def)
qed

lemma units_are_plain:
  "\<not> segment_unit 47" "\<not> segment_unit 58" "\<not> host_unit 47" "\<not> host_unit 58"
  by (simp_all add: segment_unit_def host_unit_def letter_unit_def digit_unit_def fold_case_def js_def)


lemma space_is_no_unit: "segment_unit c \<or> host_unit c \<Longrightarrow> \<not> js_space c"
proof
  assume u: "segment_unit c \<or> host_unit c" and s: "js_space c"
  have "unat c \<le> 122 \<and> 45 \<le> unat c"
    using u by (auto simp: segment_unit_def host_unit_def letter_unit_def digit_unit_def fold_case_def js_def word_le_nat_alt split: if_splits)
  then show False using s by (auto simp: js_space_def word_le_nat_alt)
qed

lemma lower_host: "list_all host_unit h \<Longrightarrow> js_lower h = h"
proof -
  have "\<not> (0x41 \<le> c \<and> c \<le> 0x5a) \<and> c \<noteq> 0x212a \<and> c \<noteq> 0x130" if "host_unit c" for c
    using that by (auto simp: host_unit_def digit_unit_def js_def word_le_nat_alt)
  then have "list_all host_unit h \<Longrightarrow> js_lower h = concat (map (\<lambda>c. [c]) h)" unfolding js_lower_def by (induction h) auto
  then show "list_all host_unit h \<Longrightarrow> js_lower h = h" by simp
qed

lemma js_trim_plain: "\<forall>c \<in> set s. \<not> js_space c \<Longrightarrow> js_trim s = s"
proof -
  assume a: "\<forall>c \<in> set s. \<not> js_space c"
  then have "dropWhile js_space s = s" "dropWhile js_space (rev s) = rev s" by (cases s, auto) (cases "rev s", auto)
  then show ?thesis by (simp add: js_trim_def)
qed

lemma validSlug_parts:
  assumes "validSlug slug"
  shows "\<forall>p \<in> set (split_js 47 slug). p \<noteq> []" "\<forall>c \<in> set slug. c = 47 \<or> segment_unit c" "3 \<le> length slug" "2 \<le> length (split_js 47 slug)"
proof -
  let ?ps = "split_js 47 slug"
  have v: "\<forall>p \<in> set ?ps. p \<noteq> [] \<and> list_all segment_unit p" "2 \<le> length ?ps"
    using assms by (auto simp: validSlug_def Let_def list_all_iff)
  then show "\<forall>p \<in> set ?ps. p \<noteq> []" "2 \<le> length ?ps" by auto
  have "set (joined [47] ps) \<subseteq> insert 47 (\<Union> (set ` set ps))" for ps by (induction ps) (auto simp: joined_Cons)
  then have "set slug \<subseteq> insert 47 (\<Union> (set ` set ?ps))" using joined_split_js [of 47 slug] by metis
  then show "\<forall>c \<in> set slug. c = 47 \<or> segment_unit c" using v(1) by (fastforce simp: list_all_iff)
  obtain a b r where ps: "?ps = a # b # r" using v(2) by (cases ?ps; cases "tl ?ps") auto
  have "slug = joined [47] (a # b # r)" using joined_split_js [of 47 slug] ps by simp
  moreover have "a \<noteq> []" "b \<noteq> []" using v(1) ps by auto
  ultimately show "3 \<le> length slug" by (cases a; cases b; cases r) auto
qed

lemma drop_git_name:
  assumes "drop_git slug = slug" "3 \<le> length slug"
  shows "drop_git (h @ 47 # slug) = h @ 47 # slug"
proof (cases "4 \<le> length slug")
  case True
  have "drop (length (h @ 47 # slug) - 4) (h @ 47 # slug) = drop (length slug - 4) slug"
  proof -
    have "length (h @ 47 # slug) - 4 = length h + Suc (length slug - 4)" using True by simp
    moreover have "drop (length h + Suc k) (h @ 47 # slug) = drop k slug" for k by simp
    ultimately show ?thesis by (simp only:)
  qed
  moreover have "map fold_case (drop (length slug - 4) slug) \<noteq> js ''.git''"
  proof
    assume "map fold_case (drop (length slug - 4) slug) = js ''.git''"
    then have "length (drop_git slug) < length slug" using True by (simp add: drop_git_def)
    then show False using assms(1) by simp
  qed
  ultimately show ?thesis by (simp add: drop_git_def)
next
  case False
  then have "length slug = 3" using assms(2) by simp
  then have "drop (length (h @ 47 # slug) - 4) (h @ 47 # slug) = 47 # slug" by simp
  moreover have "map fold_case (47 # slug) \<noteq> js ''.git''" by (simp add: js_def fold_case_def)
  ultimately show ?thesis unfolding drop_git_def by metis
qed

lemma segments_of: "\<forall>p \<in> set (split_js 47 s). p \<noteq> [] \<Longrightarrow> segments s = split_js 47 s"
  by (simp add: segments_def)


end
