(* ===== verification/MeshJobs.thy ===== *)
theory MeshJobs
  imports JobScope
begin

text \<open>
  Jobs between agents of different workspaces, machines and accounts, \<^verbatim>\<open>src/src/meshJobs.ts\<close>, for one window. The state is
  the maps of \<^verbatim>\<open>createMeshJobs\<close>, what its three stores hold, and the functions that wait for a call to return; a step is an
  event of the team channel, a request of an agent, a decision of the user, or one call that returns, in any order and with any
  result. The optional dependencies are those \<^verbatim>\<open>App.tsx\<close> passes. Best-effort calls whose outcome is ignored only leave an
  effect. \<^verbatim>\<open>targets\<close>, which lists where a job can go, is not modelled; the roster it asks for is.
\<close>

section \<open>What crosses the team channel\<close>

datatype agent_target = TargetPty int | TargetName js_string

record job_request =
  jq_id :: js_string
  jq_title :: js_string
  jq_brief :: js_string
  jq_workspace :: "js_string option"
  jq_created :: int
  jq_target :: "agent_target option"
  jq_scope :: "job_scope option"

datatype job_state = Accepted | Declined | Refused | JobStarted | JobDone | JobBlocked | JobFailed | Interrupted

record job_status =
  jt_jobId :: js_string
  jt_state :: job_state
  jt_detail :: js_string
  jt_created :: int

record mesh_message =
  mm_id :: js_string
  mm_text :: js_string
  mm_target :: agent_target
  mm_replyTo :: "js_string option"
  mm_created :: int
  mm_from :: "js_string option"

text \<open>\<open>mt_failed\<close>: the state of a mesh status, \<^verbatim>\<open>failed\<close> or \<^verbatim>\<open>refused\<close>\<close>

record mesh_status =
  mt_messageId :: js_string
  mt_failed :: bool
  mt_detail :: js_string

text \<open>The fields of a roster that are read here.\<close>

record roster_agent =
  ra_name :: "js_string option"
  ra_repo :: "js_string option"

record job_sender =
  sd_user :: js_string
  sd_device :: js_string
  sd_name :: "js_string option"

datatype team_body =
    JobBody job_request
  | StatusBody job_status
  | MeshBody mesh_message
  | MeshStatusBody mesh_status
  | RosterBody js_string "roster_agent list"

record team_event =
  te_team :: js_string
  te_user :: js_string
  te_sender :: job_sender
  te_workspace :: "js_string option"
  te_body :: team_body

definition MAX_JOB_BRIEF :: nat where "MAX_JOB_BRIEF = 16 * 1024"

definition clipDetail :: "js_string \<Rightarrow> js_string" where
  "clipDetail text = clip_js text 4000"

section \<open>The records of a window\<close>

record incoming =
  in_job :: job_request
  in_team :: js_string
  in_teamName :: "js_string option"
  in_account :: js_string
  in_sender :: job_sender
  in_sameAccount :: bool
  in_received :: int
  in_placement :: placement
  in_attentionId :: "js_string option"

datatype job_where = InDir js_string js_string | InProject js_string "js_string option"

fun whereLabel :: "job_where \<Rightarrow> js_string" where
  "whereLabel (InDir dir label) = label"
| "whereLabel (InProject project label) = (case label of Some l \<Rightarrow> l | None \<Rightarrow> project)"

record origin =
  og_ptyId :: int
  og_instance :: js_string

record outgoing = origin +
  og_title :: js_string
  og_team :: js_string
  og_device :: js_string
  og_target :: js_string
  og_workspace :: "js_string option"

record remote_job = origin +
  rj_jobId :: js_string
  rj_title :: js_string
  rj_workspace :: js_string
  rj_target :: js_string
  rj_team :: js_string
  rj_device :: js_string
  rj_expires :: int

record remote_message = origin +
  rm_messageId :: js_string
  rm_workspace :: js_string
  rm_workspaceName :: js_string
  rm_agent :: js_string
  rm_team :: js_string
  rm_device :: js_string
  rm_expires :: int

datatype run_origin = LocalRun js_string origin | RemoteRun js_string js_string js_string js_string

text \<open>\<open>rw_answer\<close> is what the promise was told first.\<close>

record roster_wait =
  rw_workspace :: js_string
  rw_team :: js_string
  rw_device :: "js_string option"
  rw_answer :: "(js_string + roster_agent list) option"

definition REMOTE_JOB_LIMIT :: nat where "REMOTE_JOB_LIMIT = 200"
definition WORKSPACE_TTL_MS :: int where "WORKSPACE_TTL_MS = 7 * 24 * 60 * 60 * 1000"
definition SEND_RETRY_MS :: int where "SEND_RETRY_MS = 10 * 60 * 1000"
definition MAX_INBOX :: nat where "MAX_INBOX = 20"
definition ROSTER_FRESH_MS :: int where "ROSTER_FRESH_MS = 15000"

text \<open>\<^verbatim>\<open>localRecords\<close>: \<open>ok\<close> is whether the storage took the write.\<close>

definition rows_write :: "bool \<Rightarrow> 'a list \<Rightarrow> 'a list \<Rightarrow> 'a list" where
  "rows_write ok rows old = (if ok then drop (length rows - REMOTE_JOB_LIMIT) rows else old)"

definition rows_load :: "('a \<Rightarrow> int) \<Rightarrow> int \<Rightarrow> 'a list \<Rightarrow> 'a list" where
  "rows_load expires now rows = filter (\<lambda>r. expires r > now) rows"

definition rows_put :: "('a \<Rightarrow> js_string) \<Rightarrow> ('a \<Rightarrow> int) \<Rightarrow> bool \<Rightarrow> int \<Rightarrow> 'a \<Rightarrow> 'a list \<Rightarrow> 'a list" where
  "rows_put key expires ok now row rows = rows_write ok (filter (\<lambda>r. key r \<noteq> key row \<and> expires r > now) rows @ [row]) rows"

definition rows_remove :: "('a \<Rightarrow> js_string) \<Rightarrow> bool \<Rightarrow> js_string \<Rightarrow> 'a list \<Rightarrow> 'a list" where
  "rows_remove key ok rowId rows = rows_write ok (filter (\<lambda>r. key r \<noteq> rowId) rows) rows"

section \<open>What surrounds a step\<close>

record team_device =
  td_id :: js_string
  td_user :: js_string

record team_session =
  ts_team :: js_string
  ts_user :: js_string
  ts_members :: "(js_string \<times> js_string) list"

record attention =
  an_question :: bool
  an_warn :: bool
  an_title :: js_string
  an_body :: "js_string option"
  an_tasks :: bool
  an_dedupeKey :: "js_string option"

text \<open>
  What the dependencies answer during one step: the clock, a fresh identifier, the sessions and the devices of each, the workspaces of this window and of
  the cloud, the notification an attention gets, whether storage takes writes, and the reading of URLs and \<^verbatim>\<open>toLowerCase\<close>
  on names of any script.
\<close>

record mesh_env =
  ev_now :: int
  ev_newId :: js_string
  ev_sessions :: "team_session list"
  ev_devices :: "team_session \<Rightarrow> team_device list"
  ev_workspaces :: "js_string list"
  ev_clouds :: "(js_string \<times> js_string) list"
  ev_teamName :: "js_string \<Rightarrow> js_string option"
  ev_post :: "attention \<Rightarrow> js_string"
  ev_storage :: bool
  ev_url :: "js_string \<Rightarrow> url_parts option"
  ev_lower :: "js_string \<Rightarrow> js_string"

record started =
  so_started :: bool
  so_project :: js_string
  so_note :: js_string
  so_runId :: "js_string option"

datatype start_place = StartDir js_string | StartProject js_string

text \<open>For whom an agent is started: an incoming job, or one an agent of this window submitted.\<close>

datatype start_cause = JobRun incoming | OwnJob js_string

datatype mesh_error =
    NeedsBrief | BriefTooLong | OnlyTerminals | NameWorkspace | NoWorkspace js_string "js_string list" | SignIn
  | AmbiguousMember js_string "js_string list" | NoTeammate js_string | NoSharedTeam js_string | SignInCloud js_string
  | NoCloud js_string | NeedsText | NameAgent | Thrown js_string

text \<open>What a submit or a message returns, without its prose; \<open>SentTo\<close> says whether it went to the same account.\<close>

datatype submitted =
    StartedHere js_string
  | FailedHere js_string js_string
  | SentTo js_string js_string js_string bool
  | SentToCloud js_string js_string js_string "js_string option"
  | MessageSent js_string js_string js_string

text \<open>
  What was done to the rest of the program, oldest first. \<open>FxResult\<close> is what a submit or a message came to, under its
  identifier; \<open>FxRoster\<close> what a question for a roster came to; \<open>FxNotWaiting\<close> an approval of a job that is gone.
\<close>

datatype mesh_effect =
    FxStart start_cause start_place js_string js_string
  | FxStatus js_string js_string js_string job_status
  | FxReport int js_string js_string js_string
  | FxReply int js_string js_string js_string
  | FxPost attention
  | FxResolve js_string
  | FxSubmit js_string job_request js_string "js_string option"
  | FxSubmitCloud js_string job_request js_string
  | FxMessage js_string mesh_message js_string
  | FxAskRoster js_string js_string js_string
  | FxResult js_string "mesh_error + submitted"
  | FxRoster js_string "mesh_error + roster_agent list"
  | FxNotWaiting js_string

text \<open>A job or message under way, and the functions that wait for a call to return.\<close>

text \<open>\<open>rk_keyed\<close>: the identifier came with the request, so a retry finds it\<close>

record request_key =
  rk_id :: js_string
  rk_keyed :: bool

record member_send =
  ms_key :: request_key
  ms_job :: job_request
  ms_who :: js_string
  ms_name :: js_string
  ms_self :: bool
  ms_device :: "js_string option"
  ms_origin :: origin

record cloud_send =
  cs_key :: request_key
  cs_job :: job_request
  cs_cloud :: "js_string \<times> js_string"
  cs_origin :: origin
  cs_elsewhere :: "js_string option"

record message_send =
  me_key :: request_key
  me_message :: mesh_message
  me_cloud :: "js_string \<times> js_string"
  me_origin :: "origin option"

datatype mesh_flow =
    Locating incoming
  | Accepting incoming job_where
  | Starting incoming job_where bool
  | Telling incoming started
  | Relocating "incoming list"
  | StartingHere request_key origin js_string
  | Sending member_send team_session "team_session list" "js_string list"
  | SendingCloud cloud_send team_session "team_session list" "js_string list"
  | Messaging message_send team_session "team_session list" "js_string list"
  | AskingRoster "js_string \<times> js_string" js_string "team_session list" "js_string list"
  | AwaitingRoster "js_string \<times> js_string" js_string "team_session list" "js_string list"

text \<open>What a call returns: nothing of use, a timeout, the checkouts (\<open>None\<close>: it threw), a start, or the device reached.\<close>

datatype mesh_reply =
    NoReply
  | TimedOut
  | Checkouts "checkout list option"
  | ManyCheckouts "checkout list option list"
  | StartReply "js_string + started"
  | DeviceReply "js_string + js_string"

text \<open>\<open>mj_turnedAway\<close> are the jobs declined, by their user or because too many wait.\<close>

record mesh_state =
  mj_outgoing :: "js_string \<Rightarrow> outgoing option"
  mj_sent :: "js_string \<Rightarrow> remote_message option"
  mj_rosterWaits :: "js_string \<Rightarrow> roster_wait option"
  mj_rosters :: "js_string \<Rightarrow> (int \<times> roster_agent list) option"
  mj_runs :: "js_string \<Rightarrow> run_origin option"
  mj_seen :: "js_string set"
  mj_inbox :: "incoming list"
  mj_sends :: "js_string \<Rightarrow> int option"
  mj_storedInbox :: "incoming list"
  mj_storedJobs :: "remote_job list"
  mj_storedMessages :: "remote_message list"
  mj_flows :: "mesh_flow list"
  mj_log :: "mesh_effect list"
  mj_turnedAway :: "js_string list"

definition outgoing_of :: "remote_job \<Rightarrow> outgoing" where
  "outgoing_of r = \<lparr>og_ptyId = og_ptyId r, og_instance = og_instance r, og_title = rj_title r, og_team = rj_team r, og_device = rj_device r,
     og_target = rj_target r, og_workspace = Some (rj_workspace r)\<rparr>"

definition createMeshJobs :: "int \<Rightarrow> incoming list \<Rightarrow> remote_job list \<Rightarrow> remote_message list \<Rightarrow> mesh_state" where
  "createMeshJobs now storedInbox storedJobs storedMessages =
     \<lparr>mj_outgoing = map_of (rev (map (\<lambda>r. (rj_jobId r, outgoing_of r)) (rows_load rj_expires now storedJobs))),
      mj_sent = map_of (rev (map (\<lambda>m. (rm_messageId m, m)) (rows_load rm_expires now storedMessages))),
      mj_rosterWaits = Map.empty, mj_rosters = Map.empty, mj_runs = Map.empty, mj_seen = {}, mj_inbox = [], mj_sends = Map.empty,
      mj_storedInbox = storedInbox, mj_storedJobs = storedJobs, mj_storedMessages = storedMessages, mj_flows = [], mj_log = [],
      mj_turnedAway = []\<rparr>"

definition say :: "mesh_effect \<Rightarrow> mesh_state \<Rightarrow> mesh_state" where
  "say f st = st\<lparr>mj_log := mj_log st @ [f]\<rparr>"

definition wait_for :: "mesh_flow \<Rightarrow> mesh_state \<Rightarrow> mesh_state" where
  "wait_for f st = st\<lparr>mj_flows := mj_flows st @ [f]\<rparr>"
section \<open>What submitters and agents are told\<close>

definition jobTitle :: "js_string option \<Rightarrow> js_string \<Rightarrow> js_string" where
  "jobTitle title brief =
     (let t = oneLine (case title of Some t \<Rightarrow> t | None \<Rightarrow> []); b = oneLine brief
      in clip_js (if t \<noteq> [] then t else if b \<noteq> [] then b else js ''Mesh job'') 80)"

definition needsApproval :: "job_sender \<Rightarrow> js_string \<Rightarrow> bool" where
  "needsApproval sender account \<longleftrightarrow> sd_user sender \<noteq> account"

definition pickWorkspace :: "(js_string \<Rightarrow> js_string) \<Rightarrow> js_string option \<Rightarrow> js_string list \<Rightarrow> js_string option" where
  "pickWorkspace lower requested workspaces =
     (let wanted = (case requested of None \<Rightarrow> [] | Some r \<Rightarrow> lower (js_trim r))
      in if wanted \<noteq> [] then find (\<lambda>w. lower w = wanted) workspaces
         else if length workspaces = 1 then Some (hd workspaces) else None)"

definition done_note :: js_string where
  "done_note = js ''When you finish, or if you are blocked, call canopy_job_done'' @ [32, 0x2014]
     @ js '' its summary is sent back to ''"

definition incomingBrief :: "job_request \<Rightarrow> js_string \<Rightarrow> placement \<Rightarrow> js_string" where
  "incomingBrief job from pl =
     (let scope = scopeBrief (jq_scope job) pl
      in js ''Mesh job '' @ jq_id job @ js '' from '' @ from @ js '': '' @ jq_title job @ js ''. '' @ jq_brief job @ [10, 10]
         @ (if scope \<noteq> [] then scope @ [10, 10] else []) @ done_note @ js ''whoever submitted this job.'')"

fun STEP :: "job_state \<Rightarrow> string" where
  "STEP Accepted = ''approved''"
| "STEP Declined = ''declined''"
| "STEP Refused = ''refused''"
| "STEP Interrupted = ''interrupted''"
| "STEP JobStarted = ''started''"
| "STEP JobDone = ''done''"
| "STEP JobBlocked = ''blocked''"
| "STEP JobFailed = ''failed''"

definition FINAL :: "job_state set" where
  "FINAL = {Declined, Refused, JobDone, JobFailed, Interrupted}"

definition stepText :: "js_string \<Rightarrow> js_string \<Rightarrow> job_state \<Rightarrow> js_string \<Rightarrow> js_string" where
  "stepText title place_name state detail =
     (let head = js ''Job '' @ [34] @ title @ [34] @ js '' ('' @ place_name @ js '') '' @ js (STEP state)
      in if detail \<noteq> [] then head @ js '': '' @ detail else head @ js ''.'')"

section \<open>Statuses and the inbox\<close>

definition changed :: "mesh_env \<Rightarrow> mesh_state \<Rightarrow> mesh_state" where
  "changed e st = (if ev_storage e then st\<lparr>mj_storedInbox := mj_inbox st\<rparr> else st)"

definition sessionFor :: "mesh_env \<Rightarrow> js_string \<Rightarrow> js_string \<Rightarrow> team_session option" where
  "sessionFor e team account = find (\<lambda>s. ts_team s = team \<and> ts_user s = account) (ev_sessions e)"

definition sendStatus :: "mesh_env \<Rightarrow> js_string \<Rightarrow> js_string \<Rightarrow> js_string \<Rightarrow> js_string \<Rightarrow> job_state \<Rightarrow> js_string \<Rightarrow> mesh_state \<Rightarrow> mesh_state" where
  "sendStatus e team account device jobId state detail st =
     (case sessionFor e team account of
        None \<Rightarrow> st
      | Some _ \<Rightarrow> say (FxStatus team account device \<lparr>jt_jobId = jobId, jt_state = state, jt_detail = clipDetail detail, jt_created = ev_now e\<rparr>) st)"

definition answer_sender :: "mesh_env \<Rightarrow> incoming \<Rightarrow> job_state \<Rightarrow> js_string \<Rightarrow> mesh_state \<Rightarrow> mesh_state" where
  "answer_sender e i = sendStatus e (in_team i) (in_account i) (sd_device (in_sender i)) (jq_id (in_job i))"

section \<open>Running a job\<close>

definition from_text :: "incoming \<Rightarrow> js_string" where
  "from_text i =
     (if in_sameAccount i then js ''this account's other machine''
      else (case sd_name (in_sender i) of Some n \<Rightarrow> n | None \<Rightarrow> js ''a teammate'') @ js '' (your Canopy teammate)'')"

fun start_where :: "job_where \<Rightarrow> start_place" where
  "start_where (InDir dir label) = StartDir dir"
| "start_where (InProject project label) = StartProject project"

definition run_prompt :: "incoming \<Rightarrow> job_where \<Rightarrow> js_string" where
  "run_prompt i w = incomingBrief (in_job i) (from_text i) (case w of InDir _ _ \<Rightarrow> in_placement i | InProject _ _ \<Rightarrow> NoPlace)"

definition run_job :: "incoming \<Rightarrow> job_where \<Rightarrow> bool \<Rightarrow> mesh_state \<Rightarrow> mesh_state" where
  "run_job i w auto st = wait_for (Starting i w auto) (say (FxStart (JobRun i) (start_where w) (run_prompt i w) (jq_title (in_job i))) st)"

definition run_id :: "started \<Rightarrow> js_string option" where
  "run_id s = (case so_runId s of Some (c # cs) \<Rightarrow> Some (c # cs) | _ \<Rightarrow> None)"

definition note_run :: "started \<Rightarrow> run_origin \<Rightarrow> mesh_state \<Rightarrow> mesh_state" where
  "note_run s origin st = (case run_id s of None \<Rightarrow> st | Some r \<Rightarrow> st\<lparr>mj_runs := (mj_runs st)(r \<mapsto> origin)\<rparr>)"

definition start_result :: "job_where \<Rightarrow> js_string + started \<Rightarrow> started" where
  "start_result w r =
     (case r of Inr s \<Rightarrow> s | Inl err \<Rightarrow> \<lparr>so_started = False, so_project = whereLabel w, so_note = err, so_runId = None\<rparr>)"

definition job_started :: "mesh_env \<Rightarrow> incoming \<Rightarrow> started \<Rightarrow> mesh_state \<Rightarrow> mesh_state" where
  "job_started e i s st =
     (if so_started s
      then answer_sender e i JobStarted (js ''Running in '' @ so_project s @ js ''.'')
             (note_run s (RemoteRun (jq_id (in_job i)) (in_team i) (in_account i) (sd_device (in_sender i))) st)
      else answer_sender e i JobFailed (so_note s) st)"

definition started_post :: "incoming \<Rightarrow> started \<Rightarrow> attention" where
  "started_post i s =
     \<lparr>an_question = False, an_warn = \<not> so_started s,
      an_title = (if so_started s then js ''Job from your other machine started in '' @ so_project s @ js '': '' @ jq_title (in_job i)
                  else js ''A job from your other machine couldn't start: '' @ so_note s),
      an_body = None, an_tasks = True, an_dedupeKey = None\<rparr>"

section \<open>Receiving\<close>

definition announcement :: "incoming \<Rightarrow> attention" where
  "announcement i =
     \<lparr>an_question = True, an_warn = False,
      an_title = (if in_sameAccount i then js ''Choose a project for a job from your other machine: ''
                  else (case sd_name (in_sender i) of Some n \<Rightarrow> n | None \<Rightarrow> js ''A teammate'') @ js '' wants your agent to: '') @ jq_title (in_job i),
      an_body = Some (js ''Approve it in the corner.''), an_tasks = False,
      an_dedupeKey = Some (js ''mesh-job:'' @ jq_id (in_job i))\<rparr>"

definition announced :: "mesh_env \<Rightarrow> incoming \<Rightarrow> incoming" where
  "announced e i = i\<lparr>in_attentionId := Some (ev_post e (announcement i))\<rparr>"

definition best_checkout :: "placement \<Rightarrow> checkout option" where
  "best_checkout p = (case p of Matched _ (c # _) \<Rightarrow> Some c | _ \<Rightarrow> None)"

definition too_many :: js_string where
  "too_many = js ''Their Canopy has too many jobs waiting for approval.''"

definition turn_away :: "js_string \<Rightarrow> mesh_state \<Rightarrow> mesh_state" where
  "turn_away j st = st\<lparr>mj_turnedAway := mj_turnedAway st @ [j]\<rparr>"

definition admit_job :: "mesh_env \<Rightarrow> incoming \<Rightarrow> mesh_state \<Rightarrow> mesh_state" where
  "admit_job e i st =
     (case (in_sameAccount i, best_checkout (in_placement i)) of
        (True, Some c) \<Rightarrow> run_job i (InDir (co_dir c) (co_project c)) True st
      | _ \<Rightarrow>
          (if length (mj_inbox st) \<ge> MAX_INBOX then answer_sender e i Declined too_many (turn_away (jq_id (in_job i)) st)
           else changed e ((say (FxPost (announcement i)) st)\<lparr>mj_inbox := mj_inbox st @ [announced e i]\<rparr>)))"

definition located :: "mesh_env \<Rightarrow> incoming \<Rightarrow> checkout list option \<Rightarrow> placement" where
  "located e i cs = place (ev_url e) (jq_scope (in_job i)) (case cs of Some l \<Rightarrow> l | None \<Rightarrow> [])"

definition receive_job :: "mesh_env \<Rightarrow> team_event \<Rightarrow> job_request \<Rightarrow> mesh_state \<Rightarrow> mesh_state" where
  "receive_job e ev job st =
     (if te_workspace ev \<noteq> None \<and> te_workspace ev \<noteq> Some [] then st
      else if jq_id job \<in> mj_seen st then st
      else wait_for
        (Locating \<lparr>in_job = job, in_team = te_team ev, in_teamName = ev_teamName e (te_team ev), in_account = te_user ev, in_sender = te_sender ev,
           in_sameAccount = \<not> needsApproval (te_sender ev) (te_user ev), in_received = ev_now e, in_placement = NoPlace, in_attentionId = None\<rparr>)
        (st\<lparr>mj_seen := insert (jq_id job) (mj_seen st)\<rparr>))"

definition receive_status :: "mesh_env \<Rightarrow> team_event \<Rightarrow> job_status \<Rightarrow> mesh_state \<Rightarrow> mesh_state" where
  "receive_status e ev s st =
     (case mj_outgoing st (jt_jobId s) of
        None \<Rightarrow> st
      | Some sent \<Rightarrow>
          (if og_device sent \<noteq> sd_device (te_sender ev) \<or> og_team sent \<noteq> te_team ev \<or> og_workspace sent \<noteq> te_workspace ev then st
           else
             (let st1 = say (FxReport (og_ptyId sent) (og_instance sent) (jt_jobId s) (stepText (og_title sent) (og_target sent) (jt_state s) (jt_detail s))) st
              in if jt_state s \<in> FINAL
                 then (let st2 = st1\<lparr>mj_outgoing := (mj_outgoing st1)(jt_jobId s := None)\<rparr>
                       in if og_workspace sent \<noteq> None \<and> og_workspace sent \<noteq> Some []
                          then st2\<lparr>mj_storedJobs := rows_remove rj_jobId (ev_storage e) (jt_jobId s) (mj_storedJobs st2)\<rparr> else st2)
                 else st1)))"

definition fromHostOf :: "js_string option \<Rightarrow> js_string \<Rightarrow> js_string \<Rightarrow> team_event \<Rightarrow> bool" where
  "fromHostOf device team workspace ev \<longleftrightarrow>
     (device = None \<or> device = Some [] \<or> device = Some (sd_device (te_sender ev))) \<and> team = te_team ev \<and> Some workspace = te_workspace ev"

definition from_wait :: "mesh_state \<Rightarrow> js_string \<Rightarrow> team_event \<Rightarrow> roster_wait option" where
  "from_wait st rid ev =
     (case mj_rosterWaits st rid of
        Some w \<Rightarrow> (if fromHostOf (rw_device w) (rw_team w) (rw_workspace w) ev then Some w else None)
      | None \<Rightarrow> None)"

definition settle_wait :: "js_string \<Rightarrow> roster_wait \<Rightarrow> js_string + roster_agent list \<Rightarrow> mesh_state \<Rightarrow> mesh_state" where
  "settle_wait rid w r st =
     st\<lparr>mj_rosterWaits := (mj_rosterWaits st)(rid \<mapsto> w\<lparr>rw_answer := (case rw_answer w of None \<Rightarrow> Some r | x \<Rightarrow> x)\<rparr>)\<rparr>"

definition from_sent :: "mesh_state \<Rightarrow> js_string \<Rightarrow> team_event \<Rightarrow> remote_message option" where
  "from_sent st mid ev =
     (case mj_sent st mid of
        Some m \<Rightarrow> (if fromHostOf (Some (rm_device m)) (rm_team m) (rm_workspace m) ev then Some m else None)
      | None \<Rightarrow> None)"

definition type_reply :: "remote_message \<Rightarrow> js_string \<Rightarrow> mesh_state \<Rightarrow> mesh_state" where
  "type_reply m text = say (FxReply (og_ptyId m) (og_instance m) (rm_messageId m) text)"

definition receive_mesh :: "team_event \<Rightarrow> mesh_message \<Rightarrow> mesh_state \<Rightarrow> mesh_state" where
  "receive_mesh ev m st =
     (case mm_replyTo m of
        Some (c # cs) \<Rightarrow>
          (case from_sent st (c # cs) ev of
             None \<Rightarrow> st
           | Some sent \<Rightarrow>
               (let name = clip_js (oneLine (case mm_from m of Some n \<Rightarrow> n | None \<Rightarrow> [])) 60;
                    who = (if name \<noteq> [] \<and> name \<noteq> rm_agent sent then name @ js '' ('' @ rm_agent sent @ js '')'' else rm_agent sent)
                in type_reply sent (who @ js '' in '' @ rm_workspaceName sent @ js '' replied to your message '' @ rm_messageId sent
                     @ js '':'' @ [10, 10] @ mm_text m) st))
      | _ \<Rightarrow> st)"

definition receive_mesh_status :: "mesh_env \<Rightarrow> team_event \<Rightarrow> mesh_status \<Rightarrow> mesh_state \<Rightarrow> mesh_state" where
  "receive_mesh_status e ev s st =
     (case from_wait st (mt_messageId s) ev of
        Some w \<Rightarrow> settle_wait (mt_messageId s) w (Inl (mt_detail s)) st
      | None \<Rightarrow>
          (case from_sent st (mt_messageId s) ev of
             Some sent \<Rightarrow>
               (let st1 = type_reply sent (js ''Your message '' @ rm_messageId sent @ js '' to '' @ rm_agent sent @ js '' in '' @ rm_workspaceName sent
                      @ js '' '' @ (if mt_failed s then js ''could not be delivered'' else js ''was refused'') @ js '': '' @ mt_detail s) st
                in st1\<lparr>mj_sent := (mj_sent st1)(rm_messageId sent := None),
                       mj_storedMessages := rows_remove rm_messageId (ev_storage e) (rm_messageId sent) (mj_storedMessages st1)\<rparr>)
           | None \<Rightarrow>
               say (FxPost \<lparr>an_question = False, an_warn = True, an_title = js ''A cloud workspace refused an agent message: '' @ mt_detail s,
                      an_body = None, an_tasks = False, an_dedupeKey = None\<rparr>) st))"

definition receive :: "mesh_env \<Rightarrow> team_event \<Rightarrow> mesh_state \<Rightarrow> mesh_state" where
  "receive e ev st =
     (case te_body ev of
        RosterBody rid agents \<Rightarrow> (case from_wait st rid ev of Some w \<Rightarrow> settle_wait rid w (Inr agents) st | None \<Rightarrow> st)
      | MeshBody m \<Rightarrow> receive_mesh ev m st
      | MeshStatusBody s \<Rightarrow> receive_mesh_status e ev s st
      | StatusBody s \<Rightarrow> receive_status e ev s st
      | JobBody job \<Rightarrow> receive_job e ev job st)"

section \<open>The approval inbox\<close>

definition restore_item :: "mesh_env \<Rightarrow> incoming \<Rightarrow> mesh_state \<Rightarrow> mesh_state" where
  "restore_item e i st = (say (FxPost (announcement i)) st)\<lparr>mj_seen := insert (jq_id (in_job i)) (mj_seen st)\<rparr>"

definition saved_inbox :: "mesh_env \<Rightarrow> mesh_state \<Rightarrow> incoming list" where
  "saved_inbox e st = filter (\<lambda>i. jq_id (in_job i) \<notin> mj_seen st)
     (rows_load (\<lambda>i. in_received i + WORKSPACE_TTL_MS) (ev_now e) (mj_storedInbox st))"

definition restore :: "mesh_env \<Rightarrow> mesh_state \<Rightarrow> mesh_state" where
  "restore e st =
     (let saved = saved_inbox e st; st1 = fold (restore_item e) saved st
      in if saved = [] then st1 else changed e (st1\<lparr>mj_inbox := mj_inbox st1 @ map (announced e) saved\<rparr>))"

fun without_first :: "('a \<Rightarrow> bool) \<Rightarrow> 'a list \<Rightarrow> 'a list" where
  "without_first Q [] = []"
| "without_first Q (x # xs) = (if Q x then xs else x # without_first Q xs)"

definition take_job :: "mesh_env \<Rightarrow> js_string \<Rightarrow> mesh_state \<Rightarrow> (incoming \<times> mesh_state) option" where
  "take_job e j st =
     (case find (\<lambda>i. jq_id (in_job i) = j) (mj_inbox st) of
        None \<Rightarrow> None
      | Some i \<Rightarrow> Some (i, changed e (st\<lparr>mj_inbox := without_first (\<lambda>i. jq_id (in_job i) = j) (mj_inbox st)\<rparr>)))"

definition resolve_attention :: "incoming \<Rightarrow> mesh_state \<Rightarrow> mesh_state" where
  "resolve_attention i st = (case in_attentionId i of Some (c # cs) \<Rightarrow> say (FxResolve (c # cs)) st | _ \<Rightarrow> st)"

definition approve :: "mesh_env \<Rightarrow> js_string \<Rightarrow> job_where \<Rightarrow> mesh_state \<Rightarrow> mesh_state" where
  "approve e j w st =
     (case take_job e j st of
        None \<Rightarrow> say (FxNotWaiting j) st
      | Some (i, st1) \<Rightarrow>
          (let st2 = resolve_attention i st1
           in if in_sameAccount i then run_job i w False st2
              else wait_for (Accepting i w) (answer_sender e i Accepted (js ''Approved to run in '' @ whereLabel w @ js ''.'') st2)))"

definition decline :: "mesh_env \<Rightarrow> js_string \<Rightarrow> js_string \<Rightarrow> mesh_state \<Rightarrow> mesh_state" where
  "decline e j reason st =
     (case take_job e j st of
        None \<Rightarrow> st
      | Some (i, st1) \<Rightarrow>
          answer_sender e i Declined (if reason \<noteq> [] then reason else js ''The user declined this job.'') (turn_away j (resolve_attention i st1)))"

definition missing_jobs :: "mesh_state \<Rightarrow> incoming list" where
  "missing_jobs st = filter (\<lambda>i. case in_placement i of Missing _ \<Rightarrow> True | _ \<Rightarrow> False) (mj_inbox st)"

definition relocate :: "mesh_state \<Rightarrow> mesh_state" where
  "relocate st = (if missing_jobs st = [] then st else wait_for (Relocating (missing_jobs st)) st)"

definition relocated :: "mesh_env \<Rightarrow> incoming list \<Rightarrow> checkout list option list \<Rightarrow> mesh_state \<Rightarrow> mesh_state" where
  "relocated e waiting found st =
     (let at = map_of (zip waiting (map (\<lambda>(i, cs). located e i cs) (zip waiting found)));
          moves = (\<lambda>i. case at i of Some p \<Rightarrow> is_matched p | None \<Rightarrow> False);
          inbox = map (\<lambda>i. if moves i then i\<lparr>in_placement := the (at i)\<rparr> else i) (mj_inbox st)
      in if list_ex moves (mj_inbox st) then changed e (st\<lparr>mj_inbox := inbox\<rparr>) else st)"

definition runEnded :: "mesh_env \<Rightarrow> js_string option \<Rightarrow> bool \<Rightarrow> js_string \<Rightarrow> mesh_state \<Rightarrow> mesh_state" where
  "runEnded e runId fin summary st =
     (case runId of
        Some (c # cs) \<Rightarrow>
          (case mj_runs st (c # cs) of
             None \<Rightarrow> st
           | Some origin \<Rightarrow>
               (let st1 = (if fin then st\<lparr>mj_runs := (mj_runs st)(c # cs := None)\<rparr> else st)
                in case origin of
                     LocalRun j og \<Rightarrow> say (FxReport (og_ptyId og) (og_instance og) j
                         (js ''Job '' @ j @ (if fin then js '' done'' else js '' blocked'') @ js '': '' @ summary)) st1
                   | RemoteRun j team account device \<Rightarrow> sendStatus e team account device j (if fin then JobDone else JobBlocked) summary st1))
      | _ \<Rightarrow> st)"
section \<open>Submitting\<close>

definition SELF :: "js_string set" where
  "SELF = {js ''me'', js ''self'', js ''myself'', js ''my machine'', js ''my other machine''}"

definition ended :: "request_key \<Rightarrow> mesh_error + submitted \<Rightarrow> mesh_state \<Rightarrow> mesh_state" where
  "ended k r st =
     (let st1 = say (FxResult (rk_id k) r) st
      in case r of
           Inl _ \<Rightarrow> (if rk_keyed k then st1\<lparr>mj_sends := (mj_sends st1)(rk_id k := None)\<rparr> else st1)
         | Inr _ \<Rightarrow> st1)"

definition matches_in :: "(js_string \<Rightarrow> js_string) \<Rightarrow> js_string \<Rightarrow> team_session \<Rightarrow> (js_string \<times> js_string) list \<Rightarrow> (js_string \<times> js_string) list" where
  "matches_in lower wanted s ms =
     fold (\<lambda>(i, name) acc. if i \<noteq> ts_user s \<and> (lower i = wanted \<or> lower (js_trim name) = wanted) then AList.update i name acc else acc)
       (ts_members s) ms"

definition resolveMember :: "(js_string \<Rightarrow> js_string) \<Rightarrow> js_string \<Rightarrow> team_session list \<Rightarrow> mesh_error + (js_string \<times> js_string \<times> bool)" where
  "resolveMember lower member sessions =
     (let wanted = lower (js_trim member)
      in case sessions of
           [] \<Rightarrow> Inl SignIn
         | s # _ \<Rightarrow>
             (if ts_user s = [] then Inl SignIn
              else if wanted \<in> SELF \<or> wanted = lower (ts_user s) then Inr (ts_user s, js ''your other machine'', True)
              else case fold (matches_in lower wanted) sessions [] of
                     [] \<Rightarrow> Inl (NoTeammate member)
                   | [(i, name)] \<Rightarrow> Inr (i, name, False)
                   | ms \<Rightarrow> Inl (AmbiguousMember member (map fst ms))))"

definition cloudWorkspace :: "mesh_env \<Rightarrow> js_string \<Rightarrow> (js_string \<times> js_string) option" where
  "cloudWorkspace e wanted =
     (let key = ev_lower e (js_trim wanted) in find (\<lambda>(i, name). ev_lower e i = key \<or> ev_lower e name = key) (ev_clouds e))"

definition first_error :: "js_string list \<Rightarrow> mesh_error \<Rightarrow> mesh_error" where
  "first_error errors otherwise = (case errors of x # _ \<Rightarrow> Thrown x | [] \<Rightarrow> otherwise)"

text \<open>The loops over the sessions: each is asked in turn until one answers with a device.\<close>

definition knows_member :: "mesh_env \<Rightarrow> member_send \<Rightarrow> team_session \<Rightarrow> bool" where
  "knows_member e m s \<longleftrightarrow> ms_self m \<or> list_ex (\<lambda>d. td_user d = ms_who m) (ev_devices e s)"

fun send_member :: "mesh_env \<Rightarrow> member_send \<Rightarrow> team_session list \<Rightarrow> js_string list \<Rightarrow> mesh_state \<Rightarrow> mesh_state" where
  "send_member e m [] errors st = ended (ms_key m) (Inl (first_error errors (NoSharedTeam (ms_name m)))) st"
| "send_member e m (s # ss) errors st =
     (if knows_member e m s
      then wait_for (Sending m s ss errors) (say (FxSubmit (ts_team s) (ms_job m) (ms_who m) (ms_device m)) st)
      else send_member e m ss errors st)"

fun send_cloud :: "cloud_send \<Rightarrow> team_session list \<Rightarrow> js_string list \<Rightarrow> mesh_state \<Rightarrow> mesh_state" where
  "send_cloud c [] errors st = ended (cs_key c) (Inl (first_error errors (SignInCloud (snd (cs_cloud c))))) st"
| "send_cloud c (s # ss) errors st =
     wait_for (SendingCloud c s ss errors) (say (FxSubmitCloud (ts_team s) (cs_job c) (fst (cs_cloud c))) st)"

fun send_message :: "message_send \<Rightarrow> team_session list \<Rightarrow> js_string list \<Rightarrow> mesh_state \<Rightarrow> mesh_state" where
  "send_message m [] errors st = ended (me_key m) (Inl (first_error errors (SignInCloud (snd (me_cloud m))))) st"
| "send_message m (s # ss) errors st =
     wait_for (Messaging m s ss errors) (say (FxMessage (ts_team s) (me_message m) (fst (me_cloud m))) st)"

fun ask_roster :: "mesh_env \<Rightarrow> js_string \<times> js_string \<Rightarrow> team_session list \<Rightarrow> js_string list \<Rightarrow> mesh_state \<Rightarrow> mesh_state" where
  "ask_roster e cloud [] errors st = say (FxRoster (fst cloud) (Inl (first_error errors (SignInCloud (snd cloud))))) st"
| "ask_roster e cloud (s # ss) errors st =
     wait_for (AskingRoster cloud (ev_newId e) ss errors)
       (say (FxAskRoster (ts_team s) (ev_newId e) (fst cloud))
         (st\<lparr>mj_rosterWaits := (mj_rosterWaits st)(ev_newId e \<mapsto>
            \<lparr>rw_workspace = fst cloud, rw_team = ts_team s, rw_device = None, rw_answer = None\<rparr>)\<rparr>))"

definition roster :: "mesh_env \<Rightarrow> js_string \<times> js_string \<Rightarrow> mesh_state \<Rightarrow> mesh_state" where
  "roster e cloud st =
     (case mj_rosters st (fst cloud) of
        Some (at, agents) \<Rightarrow>
          (if ev_now e - at < ROSTER_FRESH_MS then say (FxRoster (fst cloud) (Inr agents)) st
           else ask_roster e cloud (ev_sessions e) [] st)
      | None \<Rightarrow> ask_roster e cloud (ev_sessions e) [] st)"

definition drop_wait :: "js_string \<Rightarrow> mesh_state \<Rightarrow> mesh_state" where
  "drop_wait rid st = st\<lparr>mj_rosterWaits := (mj_rosterWaits st)(rid := None)\<rparr>"

definition no_answer :: "js_string \<Rightarrow> js_string" where
  "no_answer name = name @ 39 # js ''s Canopy service didn't answer within 8s'' @ [32, 0x2014] @ js '' it may be busy, or older than agent listing.''"

definition cloudAgentElsewhere :: "mesh_env \<Rightarrow> mesh_state \<Rightarrow> js_string \<Rightarrow> js_string \<Rightarrow> job_scope \<Rightarrow> js_string option" where
  "cloudAgentElsewhere e st workspace agent scope =
     (case mj_rosters st workspace of
        None \<Rightarrow> None
      | Some (_, agents) \<Rightarrow>
          (case find (\<lambda>a. ev_lower e (case ra_name a of Some n \<Rightarrow> n | None \<Rightarrow> []) = ev_lower e agent) agents of
             None \<Rightarrow> None
           | Some known \<Rightarrow>
               (case ra_repo known of
                  Some (c # cs) \<Rightarrow>
                    (case repoRefFromRemote (ev_url e) (c # cs) of
                       None \<Rightarrow> None
                     | Some ref \<Rightarrow> (if originMatches (ev_url e) (c # cs) (hd (js_repos scope)) then None else Some (jr_slug ref)))
                | _ \<Rightarrow> None)))"

record submit_request =
  sq_brief :: js_string
  sq_title :: "js_string option"
  sq_workspace :: "js_string option"
  sq_member :: "js_string option"
  sq_device :: "js_string option"
  sq_ptyId :: "int option"
  sq_instance :: "js_string option"
  sq_agent :: "js_string option"
  sq_scope :: "job_scope option"

definition trimmed :: "js_string option \<Rightarrow> js_string option" where
  "trimmed s = (case s of None \<Rightarrow> None | Some t \<Rightarrow> (if js_trim t = [] then None else Some (js_trim t)))"

definition submitRemote ::
  "mesh_env \<Rightarrow> request_key \<Rightarrow> submit_request \<Rightarrow> js_string \<Rightarrow> js_string \<Rightarrow> origin \<Rightarrow> js_string \<times> js_string \<Rightarrow> mesh_state \<Rightarrow> mesh_state" where
  "submitRemote e k q title text og cloud st =
     (let place_text = scopeBrief (sq_scope q) NoPlace;
          scoped = (if place_text \<noteq> [] then text @ [10, 10] @ place_text else text);
          brief = (if utf8_bytes scoped \<le> MAX_JOB_BRIEF then scoped else text);
          job = \<lparr>jq_id = rk_id k, jq_title = title, jq_brief = brief, jq_workspace = Some (fst cloud), jq_created = ev_now e,
                 jq_target = map_option TargetName (trimmed (sq_agent q)), jq_scope = sq_scope q\<rparr>;
          elsewhere = (case (sq_scope q, trimmed (sq_agent q)) of
                         (Some sc, Some agent) \<Rightarrow> cloudAgentElsewhere e st (fst cloud) agent sc | _ \<Rightarrow> None)
      in send_cloud \<lparr>cs_key = k, cs_job = job, cs_cloud = cloud, cs_origin = og, cs_elsewhere = elsewhere\<rparr> (ev_sessions e) [] st)"

definition own_prompt :: "js_string \<Rightarrow> js_string \<Rightarrow> js_string \<Rightarrow> js_string" where
  "own_prompt i title brief = js ''Mesh job '' @ i @ js '' from another workspace's agent: '' @ title @ js ''. '' @ brief @ [10, 10]
     @ done_note @ js ''the agent that submitted this job.''"

definition submit_here :: "mesh_env \<Rightarrow> request_key \<Rightarrow> submit_request \<Rightarrow> js_string \<Rightarrow> js_string \<Rightarrow> origin \<Rightarrow> mesh_state \<Rightarrow> mesh_state" where
  "submit_here e k q title brief og st =
     (case trimmed (sq_workspace q) of
        None \<Rightarrow> ended k (Inl NameWorkspace) st
      | Some workspace \<Rightarrow>
          (case pickWorkspace (ev_lower e) (Some workspace) (ev_workspaces e) of
             Some named \<Rightarrow>
               wait_for (StartingHere k og named)
                 (say (FxStart (OwnJob (rk_id k)) (StartProject named) (own_prompt (rk_id k) title brief) title) st)
           | None \<Rightarrow>
               (case cloudWorkspace e workspace of
                  Some cloud \<Rightarrow> submitRemote e k q title brief og cloud st
                | None \<Rightarrow> ended k (Inl (NoWorkspace workspace (ev_workspaces e))) st)))"

definition submit_member ::
  "mesh_env \<Rightarrow> request_key \<Rightarrow> submit_request \<Rightarrow> js_string \<Rightarrow> js_string \<Rightarrow> js_string \<Rightarrow> origin \<Rightarrow> mesh_state \<Rightarrow> mesh_state" where
  "submit_member e k q member title brief og st =
     (case resolveMember (ev_lower e) member (ev_sessions e) of
        Inl err \<Rightarrow> ended k (Inl err) st
      | Inr (who, name, self) \<Rightarrow>
          send_member e
            \<lparr>ms_key = k,
             ms_job = \<lparr>jq_id = rk_id k, jq_title = title, jq_brief = brief, jq_workspace = trimmed (sq_workspace q), jq_created = ev_now e,
                       jq_target = None, jq_scope = sq_scope q\<rparr>,
             ms_who = who, ms_name = name, ms_self = self, ms_device = trimmed (sq_device q), ms_origin = og\<rparr>
            (ev_sessions e) [] st)"

definition submitJob :: "mesh_env \<Rightarrow> submit_request \<Rightarrow> request_key \<Rightarrow> mesh_state \<Rightarrow> mesh_state" where
  "submitJob e q k st =
     (let brief = js_trim (sq_brief q)
      in if brief = [] then ended k (Inl NeedsBrief) st
         else if utf8_bytes brief > MAX_JOB_BRIEF then ended k (Inl BriefTooLong) st
         else case (sq_ptyId q, sq_instance q) of
                (Some pty, Some (c # cs)) \<Rightarrow>
                  (let og = \<lparr>og_ptyId = pty, og_instance = c # cs\<rparr>; title = jobTitle (sq_title q) brief
                   in case trimmed (sq_member q) of
                        None \<Rightarrow> submit_here e k q title brief og st
                      | Some member \<Rightarrow> submit_member e k q member title brief og st)
              | _ \<Rightarrow> ended k (Inl OnlyTerminals) st)"

record message_request =
  mq_workspace :: js_string
  mq_text :: js_string
  mq_agent :: "js_string option"
  mq_ptyId :: "int option"
  mq_replyTo :: "js_string option"
  mq_origin :: "origin option"
  mq_fromName :: "js_string option"

definition nonempty_text :: "js_string option \<Rightarrow> js_string option" where
  "nonempty_text s = (case s of Some (c # cs) \<Rightarrow> Some (c # cs) | _ \<Rightarrow> None)"

definition message_target :: "message_request \<Rightarrow> agent_target option" where
  "message_target q = (case mq_ptyId q of Some n \<Rightarrow> Some (TargetPty n) | None \<Rightarrow> map_option TargetName (trimmed (mq_agent q)))"

definition sendMessage :: "mesh_env \<Rightarrow> message_request \<Rightarrow> request_key \<Rightarrow> mesh_state \<Rightarrow> mesh_state" where
  "sendMessage e q k st =
     (case cloudWorkspace e (mq_workspace q) of
        None \<Rightarrow> ended k (Inl (NoCloud (mq_workspace q))) st
      | Some cloud \<Rightarrow>
          (if js_trim (mq_text q) = [] then ended k (Inl NeedsText) st
           else case message_target q of
             None \<Rightarrow> ended k (Inl NameAgent) st
           | Some target \<Rightarrow>
               send_message
                 \<lparr>me_key = k,
                  me_message = \<lparr>mm_id = rk_id k, mm_text = js_trim (mq_text q), mm_target = target, mm_replyTo = nonempty_text (mq_replyTo q),
                    mm_created = ev_now e,
                    mm_from = nonempty_text (Some (clip_js (oneLine (case mq_fromName q of Some n \<Rightarrow> n | None \<Rightarrow> [])) 60))\<rparr>,
                  me_cloud = cloud, me_origin = mq_origin q\<rparr> (ev_sessions e) [] st))"

definition once :: "mesh_env \<Rightarrow> js_string option \<Rightarrow> (request_key \<Rightarrow> mesh_state \<Rightarrow> mesh_state) \<Rightarrow> mesh_state \<Rightarrow> mesh_state" where
  "once e requestId act st =
     (case nonempty_text requestId of
        None \<Rightarrow> act \<lparr>rk_id = ev_newId e, rk_keyed = False\<rparr> st
      | Some r \<Rightarrow>
          (let sends = (\<lambda>k. case mj_sends st k of Some at \<Rightarrow> (if ev_now e - at > SEND_RETRY_MS then None else Some at) | None \<Rightarrow> None)
           in if sends r \<noteq> None then st\<lparr>mj_sends := sends\<rparr>
              else act \<lparr>rk_id = r, rk_keyed = True\<rparr> (st\<lparr>mj_sends := sends(r \<mapsto> ev_now e)\<rparr>)))"

section \<open>A call returns\<close>

definition sent_member :: "member_send \<Rightarrow> team_session \<Rightarrow> js_string \<Rightarrow> mesh_state \<Rightarrow> mesh_state" where
  "sent_member m s device st =
     (let target = (if ms_self m then js ''your other machine'' else ms_name m)
      in ended (ms_key m) (Inr (SentTo (ts_team s) device target (ms_self m)))
        (st\<lparr>mj_outgoing := (mj_outgoing st)(rk_id (ms_key m) \<mapsto>
           \<lparr>og_ptyId = og_ptyId (ms_origin m), og_instance = og_instance (ms_origin m), og_title = jq_title (ms_job m), og_team = ts_team s,
            og_device = device, og_target = target, og_workspace = None\<rparr>)\<rparr>))"

definition sent_cloud :: "mesh_env \<Rightarrow> cloud_send \<Rightarrow> team_session \<Rightarrow> js_string \<Rightarrow> mesh_state \<Rightarrow> mesh_state" where
  "sent_cloud e c s device st =
     (let row = \<lparr>og_ptyId = og_ptyId (cs_origin c), og_instance = og_instance (cs_origin c), rj_jobId = rk_id (cs_key c),
            rj_title = jq_title (cs_job c), rj_workspace = fst (cs_cloud c), rj_target = snd (cs_cloud c), rj_team = ts_team s,
            rj_device = device, rj_expires = ev_now e + WORKSPACE_TTL_MS\<rparr>
      in ended (cs_key c) (Inr (SentToCloud (ts_team s) device (fst (cs_cloud c)) (cs_elsewhere c)))
        (st\<lparr>mj_storedJobs := rows_put rj_jobId rj_expires (ev_storage e) (ev_now e) row (mj_storedJobs st),
            mj_outgoing := (mj_outgoing st)(rk_id (cs_key c) \<mapsto> outgoing_of row)\<rparr>))"

definition target_text :: "agent_target \<Rightarrow> js_string" where
  "target_text t = (case t of TargetPty n \<Rightarrow> js ''terminal '' @ js ((if n < 0 then ''-'' else []) @ show_nat (nat \<bar>n\<bar>)) | TargetName n \<Rightarrow> n)"

definition sent_message :: "mesh_env \<Rightarrow> message_send \<Rightarrow> team_session \<Rightarrow> js_string \<Rightarrow> mesh_state \<Rightarrow> mesh_state" where
  "sent_message e m s device st =
     ended (me_key m) (Inr (MessageSent (ts_team s) device (fst (me_cloud m))))
       (case me_origin m of
          None \<Rightarrow> st
        | Some og \<Rightarrow>
            (let row = \<lparr>og_ptyId = og_ptyId og, og_instance = og_instance og, rm_messageId = rk_id (me_key m),
                   rm_workspace = fst (me_cloud m), rm_workspaceName = snd (me_cloud m), rm_agent = target_text (mm_target (me_message m)),
                   rm_team = ts_team s, rm_device = device, rm_expires = ev_now e + WORKSPACE_TTL_MS\<rparr>
             in st\<lparr>mj_sent := (mj_sent st)(rk_id (me_key m) \<mapsto> row),
                   mj_storedMessages := rows_put rm_messageId rm_expires (ev_storage e) (ev_now e) row (mj_storedMessages st)\<rparr>))"

definition started_here :: "request_key \<Rightarrow> origin \<Rightarrow> js_string \<Rightarrow> js_string + started \<Rightarrow> mesh_state \<Rightarrow> mesh_state" where
  "started_here k og named r st =
     (case r of
        Inl err \<Rightarrow> ended k (Inl (Thrown err)) st
      | Inr s \<Rightarrow>
          (if so_started s then ended k (Inr (StartedHere (so_project s))) (note_run s (LocalRun (rk_id k) og) st)
           else ended k (Inr (FailedHere named (so_note s))) st))"

definition roster_answered :: "mesh_env \<Rightarrow> js_string \<times> js_string \<Rightarrow> js_string \<Rightarrow> team_session list \<Rightarrow> js_string list \<Rightarrow> mesh_state \<Rightarrow> mesh_state" where
  "roster_answered e cloud rid ss errors st =
     (let answer = (case mj_rosterWaits st rid of Some w \<Rightarrow> rw_answer w | None \<Rightarrow> None); st1 = drop_wait rid st
      in case answer of
           Some (Inr agents) \<Rightarrow>
             say (FxRoster (fst cloud) (Inr agents)) (st1\<lparr>mj_rosters := (mj_rosters st1)(fst cloud \<mapsto> (ev_now e, agents))\<rparr>)
         | Some (Inl err) \<Rightarrow> ask_roster e cloud ss (errors @ [err]) st1
         | None \<Rightarrow> ask_roster e cloud ss (errors @ [no_answer (snd cloud)]) st1)"

fun fits :: "mesh_state \<Rightarrow> mesh_flow \<Rightarrow> mesh_reply \<Rightarrow> bool" where
  "fits st (Locating i) r = (case r of Checkouts cs \<Rightarrow> True | _ \<Rightarrow> False)"
| "fits st (Accepting i w) r = (r = NoReply)"
| "fits st (Starting i w auto) r = (case r of StartReply s \<Rightarrow> True | _ \<Rightarrow> False)"
| "fits st (Telling i s) r = (r = NoReply)"
| "fits st (Relocating is) r = (case r of ManyCheckouts found \<Rightarrow> length found = length is | _ \<Rightarrow> False)"
| "fits st (StartingHere k og named) r = (case r of StartReply s \<Rightarrow> True | _ \<Rightarrow> False)"
| "fits st (Sending m s ss errors) r = (case r of DeviceReply d \<Rightarrow> True | _ \<Rightarrow> False)"
| "fits st (SendingCloud c s ss errors) r = (case r of DeviceReply d \<Rightarrow> True | _ \<Rightarrow> False)"
| "fits st (Messaging m s ss errors) r = (case r of DeviceReply d \<Rightarrow> True | _ \<Rightarrow> False)"
| "fits st (AskingRoster cloud rid ss errors) r = (case r of DeviceReply d \<Rightarrow> True | _ \<Rightarrow> False)"
| "fits st (AwaitingRoster cloud rid ss errors) r =
     (let told = (case mj_rosterWaits st rid of Some w \<Rightarrow> rw_answer w \<noteq> None | None \<Rightarrow> False)
      in r = NoReply \<and> told \<or> r = TimedOut \<and> \<not> told)"

fun resumed :: "mesh_env \<Rightarrow> mesh_flow \<Rightarrow> mesh_reply \<Rightarrow> mesh_state \<Rightarrow> mesh_state" where
  "resumed e (Locating i) r st =
     (case r of Checkouts cs \<Rightarrow> admit_job e (i\<lparr>in_placement := located e i cs\<rparr>) st | _ \<Rightarrow> st)"
| "resumed e (Accepting i w) r st = run_job i w False st"
| "resumed e (Starting i w auto) r st =
     (case r of
        StartReply a \<Rightarrow>
          (let s = start_result w a; st1 = job_started e i s st in if auto then wait_for (Telling i s) st1 else st1)
      | _ \<Rightarrow> st)"
| "resumed e (Telling i s) r st = say (FxPost (started_post i s)) st"
| "resumed e (Relocating is) r st = (case r of ManyCheckouts found \<Rightarrow> relocated e is found st | _ \<Rightarrow> st)"
| "resumed e (StartingHere k og named) r st = (case r of StartReply a \<Rightarrow> started_here k og named a st | _ \<Rightarrow> st)"
| "resumed e (Sending m s ss errors) r st =
     (case r of
        DeviceReply (Inr device) \<Rightarrow> sent_member m s device st
      | DeviceReply (Inl err) \<Rightarrow> send_member e m ss (errors @ [err]) st
      | _ \<Rightarrow> st)"
| "resumed e (SendingCloud c s ss errors) r st =
     (case r of
        DeviceReply (Inr device) \<Rightarrow> sent_cloud e c s device st
      | DeviceReply (Inl err) \<Rightarrow> send_cloud c ss (errors @ [err]) st
      | _ \<Rightarrow> st)"
| "resumed e (Messaging m s ss errors) r st =
     (case r of
        DeviceReply (Inr device) \<Rightarrow> sent_message e m s device st
      | DeviceReply (Inl err) \<Rightarrow> send_message m ss (errors @ [err]) st
      | _ \<Rightarrow> st)"
| "resumed e (AskingRoster cloud rid ss errors) r st =
     (case r of
        DeviceReply (Inr host) \<Rightarrow>
          wait_for (AwaitingRoster cloud rid ss errors)
            (st\<lparr>mj_rosterWaits := (mj_rosterWaits st)(rid := map_option (\<lambda>w. w\<lparr>rw_device := Some host\<rparr>) (mj_rosterWaits st rid))\<rparr>)
      | DeviceReply (Inl err) \<Rightarrow> ask_roster e cloud ss (errors @ [err]) (drop_wait rid st)
      | _ \<Rightarrow> st)"
| "resumed e (AwaitingRoster cloud rid ss errors) r st = roster_answered e cloud rid ss errors st"

definition returned :: "mesh_env \<Rightarrow> nat \<Rightarrow> mesh_reply \<Rightarrow> mesh_state \<Rightarrow> mesh_state" where
  "returned e n r st =
     (if n < length (mj_flows st) \<and> fits st (mj_flows st ! n) r
      then resumed e (mj_flows st ! n) r (st\<lparr>mj_flows := take n (mj_flows st) @ drop (Suc n) (mj_flows st)\<rparr>) else st)"

section \<open>A window\<close>

datatype mesh_event =
    Arrives team_event
  | Returns nat mesh_reply
  | Submit submit_request "js_string option"
  | Message message_request "js_string option"
  | Approve js_string job_where
  | Decline js_string js_string
  | Relocate
  | Restore
  | RunEnded "js_string option" bool js_string
  | AskRoster "js_string \<times> js_string"

fun mesh_step :: "mesh_env \<times> mesh_event \<Rightarrow> mesh_state \<Rightarrow> mesh_state" where
  "mesh_step (e, Arrives ev) st = receive e ev st"
| "mesh_step (e, Returns n r) st = returned e n r st"
| "mesh_step (e, Submit q rq) st = once e rq (submitJob e q) st"
| "mesh_step (e, Message q rq) st = once e rq (sendMessage e q) st"
| "mesh_step (e, Approve j w) st = approve e j w st"
| "mesh_step (e, Decline j reason) st = decline e j reason st"
| "mesh_step (e, Relocate) st = relocate st"
| "mesh_step (e, Restore) st = restore e st"
| "mesh_step (e, RunEnded r fin summary) st = runEnded e r fin summary st"
| "mesh_step (e, AskRoster cloud) st = roster e cloud st"

definition mesh_run :: "(mesh_env \<times> mesh_event) list \<Rightarrow> mesh_state \<Rightarrow> mesh_state" where
  "mesh_run es st = fold mesh_step es st"

text \<open>The window closes and opens again: what storage holds is all that is left.\<close>

definition reopened :: "int \<Rightarrow> mesh_state \<Rightarrow> mesh_state" where
  "reopened now st = createMeshJobs now (mj_storedInbox st) (mj_storedJobs st) (mj_storedMessages st)"

end
