(* ===== verification/MeshSafety.thy ===== *)
theory MeshSafety
  imports MeshJobs "HOL-Library.Multiset"
begin

text \<open>
  Where the jobs of others run: every job that arrives is accounted for, an agent is started for one only where that is allowed,
  and the jobs that wait for the user outlive the window. The locale \<open>bystander\<close> is what the operations that only tell
  something share; each invariant interprets it.
\<close>

section \<open>What a step leaves alone\<close>

text \<open>
  Most operations only tell the rest of the program something, or ask for a roster. What is kept by such effects and such flows is
  kept by these operations: \<open>P\<close> is what is kept, \<open>calm\<close> the effects and \<open>idle\<close> the flows that keep it.
\<close>

locale bystander =
  fixes P :: "mesh_state \<Rightarrow> bool" and calm :: "mesh_effect \<Rightarrow> bool" and idle :: "mesh_flow \<Rightarrow> bool"
  assumes say: "P st \<Longrightarrow> calm f \<Longrightarrow> P (say f st)"
    and wait: "P st \<Longrightarrow> idle g \<Longrightarrow> P (wait_for g st)"
    and calm: "calm (FxStatus a b c s)" "calm (FxReply n a b c)" "calm (FxPost at)" "calm (FxResolve a)" "calm (FxAskRoster a b c)" "calm (FxRoster a r)"
    and idle: "idle (AskingRoster cloud b ss errors)" "idle (AwaitingRoster cloud b ss errors)"
    and fields: "P st \<Longrightarrow> P (st\<lparr>mj_sent := s'\<rparr>)" "P st \<Longrightarrow> P (st\<lparr>mj_rosterWaits := w'\<rparr>)" "P st \<Longrightarrow> P (st\<lparr>mj_rosters := r'\<rparr>)"
      "P st \<Longrightarrow> P (st\<lparr>mj_storedMessages := m'\<rparr>)"
begin

lemma sendStatus: "P st \<Longrightarrow> P (sendStatus e team account device j state detail st)"
  by (simp add: sendStatus_def say calm split: option.split)

lemma answer: "P st \<Longrightarrow> P (answer_sender e i state detail st)"
  by (simp add: answer_sender_def sendStatus)

lemma resolve: "P st \<Longrightarrow> P (resolve_attention i st)"
  by (simp add: resolve_attention_def say calm split: option.split list.split)

lemma settle_wait: "P st \<Longrightarrow> P (settle_wait rid w r st)"
  by (simp add: settle_wait_def fields)

lemma drop_wait: "P st \<Longrightarrow> P (drop_wait rid st)"
  by (simp add: drop_wait_def fields)

lemma type_reply: "P st \<Longrightarrow> P (type_reply m text st)"
  by (simp add: type_reply_def say calm)

lemma receive_mesh: "P st \<Longrightarrow> P (receive_mesh ev m st)"
  by (simp add: receive_mesh_def Let_def type_reply split: option.split list.split)

lemma receive_mesh_status: "P st \<Longrightarrow> P (receive_mesh_status e ev s st)"
  by (simp add: receive_mesh_status_def Let_def type_reply settle_wait say calm fields split: option.split)

lemma ask_roster: "P st \<Longrightarrow> P (ask_roster e cloud ss errors st)"
  by (cases ss) (simp_all add: say wait calm idle fields)

lemma roster: "P st \<Longrightarrow> P (roster e cloud st)"
  by (simp add: roster_def ask_roster say calm split: option.split)

lemma roster_asked:
  "P st \<Longrightarrow> P (resumed e (AskingRoster cloud rid ss errors) r st)" "P st \<Longrightarrow> P (roster_answered e cloud rid ss errors st)"
  by (simp_all add: roster_answered_def Let_def ask_roster drop_wait say wait calm idle fields split: mesh_reply.split sum.split option.split)

lemmas kept_by_bystanders = sendStatus answer resolve settle_wait drop_wait type_reply receive_mesh receive_mesh_status ask_roster roster roster_asked

end

section \<open>The jobs of others\<close>

text \<open>Those being placed, those started, and the inbox. \<open>quiet\<close> steps leave all of them as they were.\<close>

definition placing :: "mesh_flow list \<Rightarrow> mesh_flow list" where
  "placing fs = filter (\<lambda>f. case f of Locating _ \<Rightarrow> True | Accepting _ _ \<Rightarrow> True | _ \<Rightarrow> False) fs"

definition job_starts :: "mesh_effect list \<Rightarrow> (incoming \<times> start_place) list" where
  "job_starts fs = List.map_filter (\<lambda>f. case f of FxStart (JobRun i) w _ _ \<Rightarrow> Some (i, w) | _ \<Rightarrow> None) fs"

lemma placing_append [simp]: "placing (fs @ gs) = placing fs @ placing gs"
  by (simp add: placing_def)

lemma placing_simps [simp]:
  "placing [] = []" "placing [Locating i] = [Locating i]" "placing [Accepting i w] = [Accepting i w]" "placing [Starting i w auto] = []"
  "placing [Telling i sd] = []" "placing [Relocating is] = []" "placing [StartingHere k og named] = []" "placing [Sending m s ss errors] = []"
  "placing [SendingCloud c s ss errors] = []" "placing [Messaging me s ss errors] = []" "placing [AskingRoster cloud rid ss errors] = []"
  "placing [AwaitingRoster cloud rid ss errors] = []"
  by (simp_all add: placing_def)

lemma job_starts_append [simp]: "job_starts (fs @ gs) = job_starts fs @ job_starts gs"
  by (simp add: job_starts_def List.map_filter_def)

lemma job_starts_simps [simp]:
  "job_starts [] = []" "job_starts [FxStart (JobRun i) w p t] = [(i, w)]" "job_starts [FxStart (OwnJob j) w p t] = []"
  "job_starts [FxStatus a b c s] = []" "job_starts [FxReport n a b c] = []" "job_starts [FxReply n a b c] = []" "job_starts [FxPost at] = []"
  "job_starts [FxResolve a] = []" "job_starts [FxSubmit a jq b d] = []" "job_starts [FxSubmitCloud a jq b] = []" "job_starts [FxMessage a mm b] = []"
  "job_starts [FxAskRoster a b c] = []" "job_starts [FxResult a r] = []" "job_starts [FxRoster a rr] = []" "job_starts [FxNotWaiting a] = []"
  by (simp_all add: job_starts_def List.map_filter_def)

definition quiet :: "mesh_state \<Rightarrow> mesh_state \<Rightarrow> bool" where
  "quiet st st' \<longleftrightarrow> placing (mj_flows st') = placing (mj_flows st) \<and> job_starts (mj_log st') = job_starts (mj_log st)
     \<and> mj_inbox st' = mj_inbox st \<and> mj_storedInbox st' = mj_storedInbox st \<and> mj_seen st' = mj_seen st \<and> mj_turnedAway st' = mj_turnedAway st
     \<and> set (mj_log st) \<subseteq> set (mj_log st')"

lemma quiet_refl [intro, simp]: "quiet st st"
  by (simp add: quiet_def)

lemma quiet_trans [trans]: "quiet st st1 \<Longrightarrow> quiet st1 st2 \<Longrightarrow> quiet st st2"
  by (auto simp: quiet_def)

lemma quiet_say: "job_starts [f] = [] \<Longrightarrow> quiet st (say f st)"
  by (auto simp: quiet_def say_def)

lemma quiet_wait: "placing [f] = [] \<Longrightarrow> quiet st (wait_for f st)"
  by (auto simp: quiet_def wait_for_def)

named_theorems quiet_intros \<open>operations that leave the jobs of others alone\<close>

lemma quiet_fields [simp]:
  "quiet st (st'\<lparr>mj_sends := a\<rparr>) = quiet st st'" "quiet st (st'\<lparr>mj_outgoing := b\<rparr>) = quiet st st'" "quiet st (st'\<lparr>mj_sent := c\<rparr>) = quiet st st'"
  "quiet st (st'\<lparr>mj_rosterWaits := d\<rparr>) = quiet st st'" "quiet st (st'\<lparr>mj_rosters := r\<rparr>) = quiet st st'" "quiet st (st'\<lparr>mj_runs := f\<rparr>) = quiet st st'"
  "quiet st (st'\<lparr>mj_storedJobs := g\<rparr>) = quiet st st'" "quiet st (st'\<lparr>mj_storedMessages := h\<rparr>) = quiet st st'"
  by (simp_all add: quiet_def)

lemma quiet_sayI [quiet_intros]: "quiet st st' \<Longrightarrow> job_starts [f] = [] \<Longrightarrow> quiet st (say f st')"
  using quiet_say quiet_trans by blast

lemma quiet_waitI [quiet_intros]: "quiet st st' \<Longrightarrow> placing [f] = [] \<Longrightarrow> quiet st (wait_for f st')"
  using quiet_wait quiet_trans by blast


interpretation quiet: bystander "quiet st" "\<lambda>f. job_starts [f] = []" "\<lambda>f. placing [f] = []" for st
  by unfold_locales (auto intro: quiet_intros)

lemmas [quiet_intros] = quiet.kept_by_bystanders

lemma quiet_ended [quiet_intros]: "quiet st st' \<Longrightarrow> quiet st (ended k r st')"
  by (auto simp: ended_def Let_def intro: quiet_intros split: sum.split)

lemma quiet_note_run [quiet_intros]: "quiet st st' \<Longrightarrow> quiet st (note_run s og st')"
  by (auto simp: note_run_def split: option.split)

lemma quiet_job_started [quiet_intros]: "quiet st st' \<Longrightarrow> quiet st (job_started e i s st')"
  by (auto simp: job_started_def intro: quiet_intros)

lemma quiet_send_member [quiet_intros]: "quiet st st' \<Longrightarrow> quiet st (send_member e m ss errors st')"
  by (induction e m ss errors st' rule: send_member.induct) (auto intro!: quiet_intros)

lemma quiet_send_cloud [quiet_intros]: "quiet st st' \<Longrightarrow> quiet st (send_cloud c ss errors st')"
  by (cases ss) (auto intro!: quiet_intros)

lemma quiet_send_message [quiet_intros]: "quiet st st' \<Longrightarrow> quiet st (send_message m ss errors st')"
  by (cases ss) (auto intro!: quiet_intros)

lemma quiet_receive_status: "quiet st (receive_status e ev s st)"
  by (auto simp: receive_status_def Let_def intro!: quiet_intros split: option.split)

lemma quiet_runEnded: "quiet st (runEnded e r fin summary st)"
  by (auto simp: runEnded_def Let_def intro!: quiet_intros split: option.split list.split run_origin.split)

lemma quiet_submitRemote [quiet_intros]: "quiet st st' \<Longrightarrow> quiet st (submitRemote e k q title text og cloud st')"
  by (auto simp: submitRemote_def Let_def intro!: quiet_intros)

lemma quiet_submit_here [quiet_intros]: "quiet st st' \<Longrightarrow> quiet st (submit_here e k q title brief og st')"
  by (auto simp: submit_here_def intro!: quiet_intros split: option.split)

lemma quiet_submit_member [quiet_intros]: "quiet st st' \<Longrightarrow> quiet st (submit_member e k q member title brief og st')"
  by (auto simp: submit_member_def intro!: quiet_intros split: sum.split)

lemma quiet_submitJob [quiet_intros]: "quiet st st' \<Longrightarrow> quiet st (submitJob e q k st')"
  by (auto simp: submitJob_def Let_def intro!: quiet_intros split: option.split list.split)

lemma quiet_sendMessage [quiet_intros]: "quiet st st' \<Longrightarrow> quiet st (sendMessage e q k st')"
  by (auto simp: sendMessage_def Let_def intro!: quiet_intros split: option.split)

lemma quiet_once:
  assumes "\<And>k st'. quiet st st' \<Longrightarrow> quiet st (act k st')"
  shows "quiet st (once e rq act st)"
  by (auto simp: once_def Let_def intro!: assms split: option.split)

lemma quiet_sent_member: "quiet st (sent_member m s device st)"
  by (auto simp: sent_member_def Let_def intro!: quiet_intros)

lemma quiet_sent_cloud: "quiet st (sent_cloud e c s device st)"
  by (auto simp: sent_cloud_def Let_def intro!: quiet_intros)

lemma quiet_sent_message: "quiet st (sent_message e m s device st)"
  by (auto simp: sent_message_def Let_def intro!: quiet_intros split: option.split)

lemma quiet_started_here: "quiet st (started_here k og named r st)"
  by (auto simp: started_here_def Let_def intro!: quiet_intros split: sum.split)

lemma quiet_resumed:
  assumes "placing [f] = []" "\<And>is. f \<noteq> Relocating is"
  shows "quiet st (resumed e f r st)"
proof (cases f)
  case (Starting i w auto)
  then show ?thesis by (auto simp: Let_def intro!: quiet_intros split: mesh_reply.split)
next
  case (AskingRoster cloud rid ss errors)
  then show ?thesis by (auto simp: intro!: quiet_intros split: mesh_reply.split sum.split)
qed (use assms in \<open>auto intro!: quiet_intros quiet_started_here quiet_sent_member quiet_sent_cloud quiet_sent_message
       split: mesh_reply.split sum.split\<close>)

section \<open>Every job that arrives is accounted for\<close>

definition job_of :: "incoming \<Rightarrow> js_string" where
  "job_of i = jq_id (in_job i)"

definition placed_job :: "mesh_flow \<Rightarrow> js_string" where
  "placed_job f = (case f of Locating i \<Rightarrow> job_of i | Accepting i w \<Rightarrow> job_of i | _ \<Rightarrow> [])"

text \<open>The jobs on the inbox, being placed, started and turned away, with repetitions\<close>

definition accounts :: "mesh_state \<Rightarrow> js_string multiset" where
  "accounts st = mset (map job_of (mj_inbox st)) + mset (map placed_job (placing (mj_flows st)))
     + mset (map (job_of \<circ> fst) (job_starts (mj_log st))) + mset (mj_turnedAway st)"

definition accounted :: "mesh_state \<Rightarrow> bool" where
  "accounted st \<longleftrightarrow> finite (mj_seen st) \<and> accounts st = mset_set (mj_seen st) \<and> distinct (map job_of (mj_storedInbox st))"

lemma job_of_updates [simp]:
  "job_of (i\<lparr>in_placement := p\<rparr>) = job_of i" "job_of (i\<lparr>in_attentionId := a\<rparr>) = job_of i" "job_of (announced e i) = job_of i"
  by (simp_all add: job_of_def announced_def)

lemma quiet_accounted: "quiet st st' \<Longrightarrow> accounted st \<Longrightarrow> accounted st'"
  by (simp add: quiet_def accounted_def accounts_def)

lemma distinct_mset_set: "mset xs \<subseteq># mset_set A \<Longrightarrow> distinct xs"
proof -
  assume a: "mset xs \<subseteq># mset_set A"
  have "count (mset xs) x = (if x \<in> set xs then 1 else 0)" for x
  proof (cases "x \<in> set xs")
    case True
    have "count (mset_set A) x \<le> 1" by (simp add: count_mset_set')
    then have "count (mset xs) x \<le> 1" using mset_subset_eq_count [OF a, of x] by linarith
    moreover have "0 < count (mset xs) x" using True by (simp add: count_greater_zero_iff del: count_mset_0_iff)
    ultimately have "count (mset xs) x = 1" by linarith
    then show ?thesis using True by simp
  qed (simp add: not_in_iff)
  then show "distinct xs" unfolding distinct_count_atmost_1 by blast
qed

lemma accounts_prims [simp]:
  "accounts (st\<lparr>mj_seen := s\<rparr>) = accounts st" "accounts (st\<lparr>mj_storedInbox := i\<rparr>) = accounts st"
  "accounts (wait_for f st) = accounts st + mset (map placed_job (placing [f]))"
  "accounts (say x st) = accounts st + mset (map (job_of \<circ> fst) (job_starts [x]))"
  "accounts (turn_away j st) = accounts st + {#j#}"
  "accounts (changed e st) = accounts st"
  by (simp_all add: accounts_def wait_for_def say_def turn_away_def changed_def)

lemma seen_prims [simp]:
  "mj_seen (wait_for f st) = mj_seen st" "mj_seen (say x st) = mj_seen st" "mj_seen (turn_away j st) = mj_seen st"
  "mj_seen (changed e st) = mj_seen st" "mj_seen (run_job i w auto st) = mj_seen st"
  "mj_storedInbox (wait_for f st) = mj_storedInbox st" "mj_storedInbox (say x st) = mj_storedInbox st"
  "mj_storedInbox (turn_away j st) = mj_storedInbox st" "mj_storedInbox (run_job i w auto st) = mj_storedInbox st"
  "mj_inbox (wait_for f st) = mj_inbox st" "mj_inbox (say x st) = mj_inbox st" "mj_inbox (turn_away j st) = mj_inbox st"
  "mj_inbox (changed e st) = mj_inbox st" "mj_inbox (run_job i w auto st) = mj_inbox st"
  by (simp_all add: wait_for_def say_def turn_away_def changed_def run_job_def)

lemma changed_stored: "mj_storedInbox (changed e st) = (if ev_storage e then mj_inbox st else mj_storedInbox st)"
  by (simp add: changed_def)

lemma accounts_inbox: "mj_inbox st = is \<Longrightarrow> accounts (st\<lparr>mj_inbox := is @ ks\<rparr>) = accounts st + mset (map job_of ks)"
  by (simp add: accounts_def)

lemma accounts_run [simp]: "accounts (run_job i w auto st) = accounts st + {#job_of i#}"
  by (simp add: run_job_def)

lemma quiet_keeps:
  assumes "quiet st st'"
  shows "accounts st' = accounts st" "mj_seen st' = mj_seen st" "mj_storedInbox st' = mj_storedInbox st" "mj_inbox st' = mj_inbox st"
  using assms by (simp_all add: quiet_def accounts_def)

lemmas quiet_answer_keeps [simp] = quiet_keeps [OF quiet.answer [OF quiet_refl]]
lemmas quiet_resolve_keeps [simp] = quiet_keeps [OF quiet.resolve [OF quiet_refl]]

lemma accounts_answer [simp]: "accounts (answer_sender e i state detail st) = accounts st"
  by (rule quiet_keeps(1) [OF quiet.answer [OF quiet_refl]])

lemma admit_accounts:
  "accounts (admit_job e i st) = accounts st + {#job_of i#}" "mj_seen (admit_job e i st) = mj_seen st"
  "mj_storedInbox (admit_job e i st) = mj_storedInbox st \<or> mj_storedInbox (admit_job e i st) = mj_inbox (admit_job e i st)"
proof -
  have n: "jq_id (in_job i) = job_of i" by (simp add: job_of_def)
  show "accounts (admit_job e i st) = accounts st + {#job_of i#}"
    by (simp add: admit_job_def n accounts_inbox split: option.split bool.split)
  show "mj_seen (admit_job e i st) = mj_seen st"
    by (simp add: admit_job_def split: option.split bool.split)
  show "mj_storedInbox (admit_job e i st) = mj_storedInbox st \<or> mj_storedInbox (admit_job e i st) = mj_inbox (admit_job e i st)"
    by (simp add: admit_job_def changed_stored split: option.split bool.split)
qed

lemma accounts_distinct:
  assumes "accounts st = mset_set A"
  shows "distinct (map job_of (mj_inbox st))"
proof (rule distinct_mset_set)
  have "mset (map job_of (mj_inbox st)) \<subseteq># accounts st" unfolding accounts_def by simp
  then show "mset (map job_of (mj_inbox st)) \<subseteq># mset_set A" unfolding assms .
qed

lemma accountedI:
  assumes "finite (mj_seen st)" "accounts st = mset_set (mj_seen st)"
    "mj_storedInbox st = mj_inbox st \<or> distinct (map job_of (mj_storedInbox st))"
  shows "accounted st"
  using assms accounts_distinct [OF assms(2)] unfolding accounted_def by auto

lemma accounted_admitted:
  assumes "finite (mj_seen st)" "accounts st + {#job_of i#} = mset_set (mj_seen st)" "distinct (map job_of (mj_storedInbox st))"
  shows "accounted (admit_job e i st)"
proof (rule accountedI)
  show "mj_storedInbox (admit_job e i st) = mj_inbox (admit_job e i st) \<or> distinct (map job_of (mj_storedInbox (admit_job e i st)))"
    using assms(3) admit_accounts(3) [of e i st] by auto
qed (use assms(1,2) in \<open>simp_all add: admit_accounts\<close>)


lemma split_at_nth: "n < length xs \<Longrightarrow> xs = take n xs @ xs ! n # drop (Suc n) xs"
  by (simp add: id_take_nth_drop)

lemma accounts_returned:
  assumes "n < length (mj_flows st)"
  shows "accounts st = accounts (st\<lparr>mj_flows := take n (mj_flows st) @ drop (Suc n) (mj_flows st)\<rparr>) + mset (map placed_job (placing [mj_flows st ! n]))"
proof -
  have "placing (mj_flows st) = placing (take n (mj_flows st)) @ placing [mj_flows st ! n] @ placing (drop (Suc n) (mj_flows st))"
    by (subst split_at_nth [OF assms]) (simp only: placing_append [symmetric] append_Cons append_Nil)
  then show ?thesis by (simp add: accounts_def)
qed

lemma relocated_keeps:
  "map job_of (mj_inbox (relocated e is found st)) = map job_of (mj_inbox st)" "mj_seen (relocated e is found st) = mj_seen st"
  "placing (mj_flows (relocated e is found st)) = placing (mj_flows st)" "mj_log (relocated e is found st) = mj_log st"
  "mj_turnedAway (relocated e is found st) = mj_turnedAway st"
  "mj_storedInbox (relocated e is found st) = mj_storedInbox st \<or> mj_storedInbox (relocated e is found st) = mj_inbox (relocated e is found st)"
  by (auto simp: relocated_def Let_def changed_def)

lemma accounted_relocated: "accounted st \<Longrightarrow> accounted (relocated e is found st)"
proof (rule accountedI)
  assume a: "accounted st"
  note k = relocated_keeps [of e "is" found st]
  have "mset (map job_of (mj_inbox (relocated e is found st))) = mset (map job_of (mj_inbox st))" by (simp only: k(1))
  then show "accounts (relocated e is found st) = mset_set (mj_seen (relocated e is found st))"
    using a by (simp add: accounts_def accounted_def k)
  show "mj_storedInbox (relocated e is found st) = mj_inbox (relocated e is found st) \<or> distinct (map job_of (mj_storedInbox (relocated e is found st)))"
    using a k(6) by (auto simp: accounted_def)
qed (simp add: relocated_keeps accounted_def)

lemma without_first_find:
  "find Q xs = Some x \<Longrightarrow> mset xs = mset (without_first Q xs) + {#x#} \<and> x \<in> set xs \<and> Q x"
  by (induction xs) (auto split: if_splits)

lemma take_job_Some:
  assumes "take_job e j st = Some (i, st1)"
  shows "accounts st = accounts st1 + {#job_of i#}" "mj_seen st1 = mj_seen st" "job_of i = j" "i \<in> set (mj_inbox st)"
    "mj_storedInbox st1 = mj_storedInbox st \<or> mj_storedInbox st1 = mj_inbox st1"
    "placing (mj_flows st1) = placing (mj_flows st)" "mj_log st1 = mj_log st" "set (mj_inbox st1) \<subseteq> set (mj_inbox st)"
proof -
  let ?Q = "\<lambda>i. jq_id (in_job i) = j"
  obtain f: "find ?Q (mj_inbox st) = Some i" and st1: "st1 = changed e (st\<lparr>mj_inbox := without_first ?Q (mj_inbox st)\<rparr>)"
    using assms by (auto simp: take_job_def split: option.splits)
  note w = without_first_find [OF f]
  have "mset (map job_of (mj_inbox st)) = mset (map job_of (without_first ?Q (mj_inbox st))) + {#job_of i#}" using w by simp
  then show "accounts st = accounts st1 + {#job_of i#}" unfolding st1 by (simp add: accounts_def changed_def)
  show "mj_seen st1 = mj_seen st" "placing (mj_flows st1) = placing (mj_flows st)" "mj_log st1 = mj_log st" unfolding st1 by (simp_all add: changed_def)
  show "job_of i = j" "i \<in> set (mj_inbox st)" using w by (simp_all add: job_of_def)
  show "mj_storedInbox st1 = mj_storedInbox st \<or> mj_storedInbox st1 = mj_inbox st1" unfolding st1 by (simp add: changed_def)
  have "set (without_first ?Q xs) \<subseteq> set xs" for xs by (induction xs) auto
  then show "set (mj_inbox st1) \<subseteq> set (mj_inbox st)" unfolding st1 by (simp add: changed_def)
qed

lemma accounted_take:
  assumes "accounted st" "take_job e j st = Some (i, st1)" "accounts st2 = accounts st1 + {#job_of i#}" "mj_seen st2 = mj_seen st1"
    "mj_storedInbox st2 = mj_storedInbox st1" "mj_inbox st2 = mj_inbox st1"
  shows "accounted st2"
proof (rule accountedI)
  note t = take_job_Some [OF assms(2)]
  show "finite (mj_seen st2)" "accounts st2 = mset_set (mj_seen st2)" using assms t(1,2) by (simp_all add: accounted_def)
  show "mj_storedInbox st2 = mj_inbox st2 \<or> distinct (map job_of (mj_storedInbox st2))" using assms t(5) by (auto simp: accounted_def)
qed

lemma accounted_approve:
  assumes "accounted st"
  shows "accounted (approve e j w st)"
proof (cases "take_job e j st")
  case None
  then show ?thesis using quiet_accounted [OF quiet_say assms, of "FxNotWaiting j"] by (simp add: approve_def)
next
  case (Some p)
  obtain i st1 where p: "p = (i, st1)" by (cases p)
  show ?thesis using accounted_take [OF assms Some [unfolded p]] unfolding approve_def Some p
    by (cases "in_sameAccount i") (simp_all add: placed_job_def job_of_def Let_def)
qed

lemma accounted_decline:
  assumes "accounted st"
  shows "accounted (decline e j reason st)"
proof (cases "take_job e j st")
  case None
  then show ?thesis using assms by (simp add: decline_def)
next
  case (Some p)
  obtain i st1 where p: "p = (i, st1)" by (cases p)
  show ?thesis using accounted_take [OF assms Some [unfolded p]] take_job_Some(3) [OF Some [unfolded p]] unfolding decline_def Some p
    by simp
qed

lemma restored_items:
  "mj_seen (fold (restore_item e) saved st) = mj_seen st \<union> set (map job_of saved)"
  "accounts (fold (restore_item e) saved st) = accounts st" "mj_inbox (fold (restore_item e) saved st) = mj_inbox st"
  "mj_storedInbox (fold (restore_item e) saved st) = mj_storedInbox st" "mj_flows (fold (restore_item e) saved st) = mj_flows st"
  "mj_log (fold (restore_item e) saved st) = mj_log st @ map (\<lambda>i. FxPost (announcement i)) saved"
  by (induction saved arbitrary: st) (auto simp: restore_item_def job_of_def, simp_all add: say_def)

lemma mset_set_union_list:
  assumes "finite A" "distinct xs" "set xs \<inter> A = {}"
  shows "mset_set (A \<union> set xs) = mset_set A + mset xs"
  using assms by (simp add: mset_set_Union mset_set_set Int_commute)

lemma accounted_restore:
  assumes "accounted st"
  shows "accounted (restore e st)"
proof (cases "saved_inbox e st = []")
  case True
  then show ?thesis using assms by (simp add: restore_def)
next
  case False
  let ?s = "saved_inbox e st"
  have d: "distinct (map job_of ?s)"
    using assms unfolding accounted_def saved_inbox_def rows_load_def by (auto intro!: distinct_map_filter)
  have n: "set (map job_of ?s) \<inter> mj_seen st = {}" by (auto simp: saved_inbox_def job_of_def)
  show ?thesis
  proof (rule accountedI)
    show "accounts (restore e st) = mset_set (mj_seen (restore e st))"
      using assms False mset_set_union_list [OF _ d n] by (simp add: restore_def Let_def restored_items accounts_inbox accounted_def comp_def)
    show "mj_storedInbox (restore e st) = mj_inbox (restore e st) \<or> distinct (map job_of (mj_storedInbox (restore e st)))"
      using assms False by (simp add: restore_def Let_def changed_stored restored_items accounted_def)
  qed (use assms False in \<open>simp add: restore_def Let_def restored_items accounted_def\<close>)
qed

lemma accounted_receive: "accounted st \<Longrightarrow> accounted (receive e ev st)"
proof (cases "te_body ev")
  case (JobBody job)
  assume a: "accounted st"
  show ?thesis
    by (rule accountedI) (use a in \<open>auto simp: receive_def JobBody receive_job_def accounted_def placed_job_def job_of_def\<close>)
next
  case (RosterBody rid agents)
  assume "accounted st"
  then show ?thesis using quiet_accounted [OF quiet.settle_wait [OF quiet_refl]] by (simp add: receive_def RosterBody split: option.split)
qed (auto simp: receive_def intro: quiet_accounted quiet.receive_mesh [OF quiet_refl] quiet.receive_mesh_status [OF quiet_refl] quiet_receive_status)

lemma accounted_returned:
  assumes "accounted st"
  shows "accounted (returned e n r st)"
proof (cases "n < length (mj_flows st) \<and> fits st (mj_flows st ! n) r")
  case True
  let ?f = "mj_flows st ! n" and ?st = "st\<lparr>mj_flows := take n (mj_flows st) @ drop (Suc n) (mj_flows st)\<rparr>"
  have acc: "accounts st = accounts ?st + mset (map placed_job (placing [?f]))" using accounts_returned True by blast
  have ok: "finite (mj_seen ?st)" "distinct (map job_of (mj_storedInbox ?st))" using assms by (simp_all add: accounted_def)
  have r: "returned e n r st = resumed e ?f r ?st" using True by (simp add: returned_def)
  show ?thesis
  proof (cases "placing [?f] = []")
    case quiet: True
    then have a: "accounted ?st" using assms acc by (simp add: accounted_def)
    show ?thesis
    proof (cases "\<exists>is. ?f = Relocating is")
      case True
      then show ?thesis using a accounted_relocated [OF a] unfolding r by (auto split: mesh_reply.split)
    next
      case False
      then show ?thesis using quiet_accounted [OF quiet_resumed a] quiet unfolding r by blast
    qed
  next
    case False
    then consider i where "?f = Locating i" | i w where "?f = Accepting i w" by (cases ?f) auto
    then show ?thesis
    proof cases
      case (1 i)
      then obtain cs where cs: "r = Checkouts cs" using True by (cases r) auto
      have "accounted (admit_job e (i\<lparr>in_placement := located e i cs\<rparr>) ?st)"
        by (rule accounted_admitted) (use acc assms ok 1 in \<open>simp_all add: placed_job_def accounted_def\<close>)
      then show ?thesis unfolding r 1 by (simp add: cs)
    next
      case (2 i w)
      show ?thesis unfolding r 2 using acc assms by (auto simp: 2 placed_job_def accounted_def intro!: accountedI)
    qed
  qed
next
  case False
  then have "returned e n r st = st" unfolding returned_def by (rule if_not_P)
  then show ?thesis using assms by simp
qed

lemma accounted_step: "accounted st \<Longrightarrow> accounted (mesh_step x st)"
proof (cases x)
  case (Pair e ev)
  assume a: "accounted st"
  show ?thesis unfolding Pair
  proof (cases ev)
    case (Relocate)
    then show "accounted (mesh_step (e, ev) st)" using a quiet_accounted [OF quiet_wait] by (simp add: relocate_def)
  qed (use a in \<open>auto intro: accounted_receive accounted_returned accounted_approve accounted_decline accounted_restore
         quiet_accounted [OF quiet_once] quiet_accounted [OF quiet_runEnded] quiet_accounted [OF quiet.roster [OF quiet_refl]] quiet_intros\<close>)
qed

lemma accounted_run:
  assumes "distinct (map job_of inbox)"
  shows "accounted (mesh_run es (createMeshJobs now inbox jobs messages))"
proof -
  have "accounted st \<Longrightarrow> accounted (fold mesh_step es st)" for st by (induction es arbitrary: st) (simp_all add: accounted_step)
  moreover have "accounted (createMeshJobs now inbox jobs messages)"
    using assms by (simp add: accounted_def createMeshJobs_def accounts_def)
  ultimately show ?thesis by (simp add: mesh_run_def)
qed


lemma seen_grows: "mj_seen st \<subseteq> mj_seen (mesh_step x st)"
proof (cases x)
  case (Pair e ev)
  have q: "quiet st st' \<Longrightarrow> mj_seen st \<subseteq> mj_seen st'" for st st' by (simp add: quiet_def)
  show ?thesis unfolding Pair
  proof (cases ev)
    case (Returns n r)
    have "mj_seen (resumed e f r s) = mj_seen s" for f s
    proof (cases "placing [f] = [] \<and> (\<forall>is. f \<noteq> Relocating is)")
      case True
      then show ?thesis using quiet_resumed by (simp add: quiet_def)
    next
      case False
      then show ?thesis by (cases f) (auto simp: admit_accounts relocated_keeps split: mesh_reply.split)
    qed
    then show "mj_seen st \<subseteq> mj_seen (mesh_step (e, ev) st)" by (auto simp: Returns returned_def)
  next
    case (Arrives tev)
    then show "mj_seen st \<subseteq> mj_seen (mesh_step (e, ev) st)"
      using q quiet.receive_mesh [OF quiet_refl] quiet.receive_mesh_status [OF quiet_refl] quiet_receive_status
      by (auto simp: receive_def receive_job_def settle_wait_def split: team_body.split option.split)
  next
    case (Submit sq rq)
    show "mj_seen st \<subseteq> mj_seen (mesh_step (e, ev) st)" unfolding Submit mesh_step.simps by (rule q [OF quiet_once]) (rule quiet_submitJob)
  next
    case (Message mq rq)
    show "mj_seen st \<subseteq> mj_seen (mesh_step (e, ev) st)" unfolding Message mesh_step.simps by (rule q [OF quiet_once]) (rule quiet_sendMessage)
  next
    case (Approve j w)
    then show "mj_seen st \<subseteq> mj_seen (mesh_step (e, ev) st)"
      by (auto simp: approve_def Let_def take_job_Some(2) split: option.split)
  next
    case (Decline j reason)
    then show "mj_seen st \<subseteq> mj_seen (mesh_step (e, ev) st)" by (auto simp: decline_def take_job_Some(2) split: option.split)
  next
    case Relocate
    then show "mj_seen st \<subseteq> mj_seen (mesh_step (e, ev) st)" by (simp add: relocate_def)
  next
    case Restore
    then show "mj_seen st \<subseteq> mj_seen (mesh_step (e, ev) st)" by (auto simp: restore_def Let_def restored_items)
  next
    case (RunEnded r fin summary)
    then show "mj_seen st \<subseteq> mj_seen (mesh_step (e, ev) st)" using q [OF quiet_runEnded] by simp
  next
    case (AskRoster cloud)
    then show "mj_seen st \<subseteq> mj_seen (mesh_step (e, ev) st)" using q [OF quiet.roster [OF quiet_refl]] by simp
  qed
qed

lemma seen_grows_run: "mj_seen st \<subseteq> mj_seen (fold mesh_step es st)"
  by (induction es arbitrary: st) (auto dest: subsetD [OF seen_grows])

text \<open>C6: A job that arrives from a person's device is, after any history, in exactly one place: its repository is being looked
  up or its approval told, it is on the inbox, its agent was started once, or it was turned away.\<close>

theorem received_job_is_accounted_for:
  assumes "distinct (map job_of inbox)" "(e, Arrives ev) \<in> set es" "te_body ev = JobBody job" "te_workspace ev = None"
  shows "let st = mesh_run es (createMeshJobs now inbox jobs messages); j = jq_id job in
     count_list (map placed_job (placing (mj_flows st))) j + count_list (map job_of (mj_inbox st)) j
       + count_list (map (job_of \<circ> fst) (job_starts (mj_log st))) j + count_list (mj_turnedAway st) j = 1"
proof -
  let ?st = "mesh_run es (createMeshJobs now inbox jobs messages)"
  obtain es1 es2 where es: "es = es1 @ (e, Arrives ev) # es2" using assms(2) by (meson split_list)
  have "jq_id job \<in> mj_seen (mesh_step (e, Arrives ev) st)" for st
    using assms(3,4) by (simp add: receive_def receive_job_def)
  then have "jq_id job \<in> mj_seen ?st" using seen_grows_run unfolding es mesh_run_def fold_append fold.simps comp_def by blast
  then have "count (accounts ?st) (jq_id job) = 1" using accounted_run [OF assms(1)] by (simp add: accounted_def)
  then show ?thesis by (simp add: accounts_def Let_def count_mset [symmetric] add.commute add.left_commute flip: count_mset)
qed

section \<open>An agent is started for a job only where that is allowed\<close>

definition job_repo_of :: "job_request \<Rightarrow> job_repo option" where
  "job_repo_of job = (case jq_scope job of None \<Rightarrow> None | Some sc \<Rightarrow> (case js_repos sc of [] \<Rightarrow> None | r # _ \<Rightarrow> Some r))"

text \<open>The job came from the account of this window, as the channel proved it, and is started in a checkout of its repository.\<close>

definition own_matched :: "(mesh_env \<times> mesh_event) list \<Rightarrow> incoming \<Rightarrow> start_place \<Rightarrow> bool" where
  "own_matched es i w \<longleftrightarrow>
     (\<exists>e ev. (e, Arrives ev) \<in> set es \<and> te_body ev = JobBody (in_job i) \<and> te_workspace ev \<in> {None, Some []}
        \<and> te_sender ev = in_sender i \<and> sd_user (te_sender ev) = te_user ev \<and> te_user ev = in_account i)
     \<and> (\<exists>e n cs c r. (e, Returns n (Checkouts (Some cs))) \<in> set es \<and> c \<in> set cs \<and> job_repo_of (in_job i) = Some r
          \<and> originMatches (ev_url e) (co_origin c) r \<and> w = StartDir (co_dir c))"

text \<open>The user was shown the job and said where it runs.\<close>

definition user_chose :: "(mesh_env \<times> mesh_event) list \<Rightarrow> mesh_effect list \<Rightarrow> incoming \<Rightarrow> start_place \<Rightarrow> bool" where
  "user_chose es log i w \<longleftrightarrow> FxPost (announcement i) \<in> set log \<and> (\<exists>e v. (e, Approve (job_of i) v) \<in> set es \<and> w = start_where v)"

definition arrived :: "(mesh_env \<times> mesh_event) list \<Rightarrow> incoming \<Rightarrow> bool" where
  "arrived es i \<longleftrightarrow>
     (\<exists>e ev. (e, Arrives ev) \<in> set es \<and> te_body ev = JobBody (in_job i) \<and> te_workspace ev \<in> {None, Some []}
        \<and> te_sender ev = in_sender i \<and> te_user ev = in_account i \<and> in_sameAccount i = (sd_user (te_sender ev) = te_user ev))"

definition allowed_flow :: "(mesh_env \<times> mesh_event) list \<Rightarrow> mesh_effect list \<Rightarrow> mesh_flow \<Rightarrow> bool" where
  "allowed_flow es log f = (case f of Locating i \<Rightarrow> arrived es i | Accepting i v \<Rightarrow> user_chose es log i (start_where v) | _ \<Rightarrow> True)"

definition authorised :: "(mesh_env \<times> mesh_event) list \<Rightarrow> mesh_state \<Rightarrow> bool" where
  "authorised es st \<longleftrightarrow>
     (\<forall>(i, w) \<in> set (job_starts (mj_log st)). own_matched es i w \<or> user_chose es (mj_log st) i w)
     \<and> (\<forall>f \<in> set (placing (mj_flows st)). allowed_flow es (mj_log st) f)
     \<and> (\<forall>i \<in> set (mj_inbox st). FxPost (announcement i) \<in> set (mj_log st))"

lemma user_chose_mono: "user_chose es log i w \<Longrightarrow> set es \<subseteq> set es' \<Longrightarrow> set log \<subseteq> set log' \<Longrightarrow> user_chose es' log' i w"
  unfolding user_chose_def by blast

lemma own_matched_mono: "own_matched es i w \<Longrightarrow> set es \<subseteq> set es' \<Longrightarrow> own_matched es' i w"
  unfolding own_matched_def by blast

lemma allowed_flow_mono: "allowed_flow es log f \<Longrightarrow> set es \<subseteq> set es' \<Longrightarrow> set log \<subseteq> set log' \<Longrightarrow> allowed_flow es' log' f"
  by (auto simp: allowed_flow_def arrived_def user_chose_mono split: mesh_flow.splits)

lemma authorised_mono:
  assumes "authorised es st" "set es \<subseteq> set es'" "set (mj_log st) \<subseteq> set (mj_log st')" "set (job_starts (mj_log st')) \<subseteq> set (job_starts (mj_log st))"
    "set (placing (mj_flows st')) \<subseteq> set (placing (mj_flows st))" "set (mj_inbox st') \<subseteq> set (mj_inbox st)"
  shows "authorised es' st'"
  unfolding authorised_def
proof (intro conjI ballI)
  fix f
  assume "f \<in> set (placing (mj_flows st'))"
  then have "allowed_flow es (mj_log st) f" using assms(1,5) unfolding authorised_def by blast
  then show "allowed_flow es' (mj_log st') f" using allowed_flow_mono assms(2,3) by blast
next
  fix x
  assume "x \<in> set (job_starts (mj_log st'))"
  then have "x \<in> set (job_starts (mj_log st))" using assms(4) by blast
  then show "case x of (i, w) \<Rightarrow> own_matched es' i w \<or> user_chose es' (mj_log st') i w"
    using assms(1) own_matched_mono [OF _ assms(2)] user_chose_mono [OF _ assms(2,3)] unfolding authorised_def by fast
next
  fix i
  assume "i \<in> set (mj_inbox st')"
  then show "FxPost (announcement i) \<in> set (mj_log st')" using assms(1,3,6) unfolding authorised_def by blast
qed

lemma authorised_quiet: "authorised es st \<Longrightarrow> quiet st st' \<Longrightarrow> set es \<subseteq> set es' \<Longrightarrow> authorised es' st'"
  by (rule authorised_mono) (auto simp: quiet_def)

lemma authorised_later: "authorised es st \<Longrightarrow> authorised (es @ [x]) st"
  by (rule authorised_quiet [OF _ quiet_refl]) auto

lemma announcement_updates [simp]:
  "announcement (i\<lparr>in_placement := p\<rparr>) = announcement i" "announcement (i\<lparr>in_attentionId := a\<rparr>) = announcement i"
  "announcement (announced e i) = announcement i"
  by (simp_all add: announcement_def announced_def)

lemma authorised_start:
  assumes "authorised es st" "own_matched es i (start_where w) \<or> user_chose es (mj_log st) i (start_where w)"
  shows "authorised es (run_job i w auto st)"
proof -
  let ?st = "run_job i w auto st"
  have l: "set (mj_log st) \<subseteq> set (mj_log ?st)" "job_starts (mj_log ?st) = job_starts (mj_log st) @ [(i, start_where w)]"
    "placing (mj_flows ?st) = placing (mj_flows st)" "mj_inbox ?st = mj_inbox st"
    by (auto simp: run_job_def say_def wait_for_def)
  have "user_chose es (mj_log st) j v \<Longrightarrow> user_chose es (mj_log ?st) j v" for j v using user_chose_mono l(1) by blast
  moreover have "allowed_flow es (mj_log st) f \<Longrightarrow> allowed_flow es (mj_log ?st) f" for f using allowed_flow_mono l(1) by blast
  ultimately show ?thesis using assms l unfolding authorised_def by auto
qed

lemma best_checkout_place:
  assumes "best_checkout (place url sc cs) = Some c"
  shows "c \<in> set cs \<and> (\<exists>s r. sc = Some s \<and> js_repos s = r # tl (js_repos s) \<and> originMatches url (co_origin c) r)"
proof -
  have m: "set (matching url r seen cs) \<subseteq> {c \<in> set cs. originMatches url (co_origin c) r}" for r seen
    by (induction cs arbitrary: seen) auto
  obtain s r rs where s: "sc = Some s" "js_repos s = r # rs"
    using assms by (auto simp: place_def best_checkout_def split: option.splits list.splits)
  then obtain xs where "c # xs = sort_key (\<lambda>c. - int (rank (case js_path s of None \<Rightarrow> [] | Some p \<Rightarrow> p) c)) (matching url r [] cs)"
    using assms by (auto simp: place_def best_checkout_def Let_def split: if_splits list.splits)
  then have "c \<in> set (matching url r [] cs)" by (metis list.set_intros(1) set_sort)
  then show ?thesis using m s by auto
qed

lemma own_matched_placed [simp]: "own_matched es (i\<lparr>in_placement := p\<rparr>) w = own_matched es i w"
  by (simp add: own_matched_def)

lemma user_chose_placed [simp]: "user_chose es log (i\<lparr>in_placement := p\<rparr>) w = user_chose es log i w"
  by (simp add: user_chose_def)

lemma authorised_admit:
  assumes "authorised es st" "arrived es i" "(e, Returns n (Checkouts cs)) \<in> set es"
  shows "authorised es (admit_job e (i\<lparr>in_placement := located e i cs\<rparr>) st)"
proof (cases "in_sameAccount i \<and> best_checkout (located e i cs) \<noteq> None")
  case True
  then obtain c where c: "best_checkout (located e i cs) = Some c" by blast
  obtain cl where cl: "cs = Some cl" "c \<in> set cl"
    using best_checkout_place [OF c [unfolded located_def]] by (cases cs) auto
  have "own_matched es i (StartDir (co_dir c))"
    using best_checkout_place [OF c [unfolded located_def]] assms(2,3) True cl
    unfolding own_matched_def arrived_def job_repo_of_def by (fastforce split: list.splits)
  then show ?thesis using authorised_start [OF assms(1)] True c by (simp add: admit_job_def)
next
  case False
  then have n: "(case (in_sameAccount i, best_checkout (located e i cs)) of (True, Some c) \<Rightarrow> x c | _ \<Rightarrow> y) = y" for x and y :: mesh_state
    by (auto split: option.split bool.split)
  let ?i = "i\<lparr>in_placement := located e i cs\<rparr>"
  show ?thesis
  proof (cases "length (mj_inbox st) \<ge> MAX_INBOX")
    case True
    have "authorised es (turn_away j st)" for j
      by (rule authorised_mono [OF assms(1) order_refl]) (simp_all add: turn_away_def)
    then show ?thesis using authorised_quiet [OF _ quiet.answer [OF quiet_refl] order_refl] True n by (simp add: admit_job_def)
  next
    case no: False
    have "authorised es (say (FxPost (announcement i)) st)" using authorised_quiet [OF assms(1) quiet_say order_refl] by simp
    then have "authorised es (changed e ((say (FxPost (announcement i)) st)\<lparr>mj_inbox := mj_inbox st @ [announced e ?i]\<rparr>))"
      by (auto simp: authorised_def changed_def say_def)
    then show ?thesis using no n by (simp add: admit_job_def)
  qed
qed


lemma authorised_relocated: "authorised es st \<Longrightarrow> authorised es (relocated e is found st)"
proof -
  assume a: "authorised es st"
  note k = relocated_keeps [of e "is" found st]
  have "\<exists>j \<in> set (mj_inbox st). announcement i = announcement j" if i: "i \<in> set (mj_inbox (relocated e is found st))" for i
    using i by (auto simp: relocated_def Let_def changed_def split: if_splits)
  then show ?thesis using a unfolding authorised_def k by metis
qed

lemma authorised_approve:
  assumes "authorised es st" "(e', Approve j w) \<in> set es"
  shows "authorised es (approve e j w st)"
proof (cases "take_job e j st")
  case None
  then show ?thesis using authorised_quiet [OF assms(1) quiet_say order_refl] by (simp add: approve_def)
next
  case (Some p)
  obtain i st1 where p: "p = (i, st1)" by (cases p)
  note t = take_job_Some [OF Some [unfolded p]]
  let ?st = "resolve_attention i st1"
  have a1: "authorised es st1" by (rule authorised_mono [OF assms(1)]) (use t in auto)
  have q: "quiet st1 ?st" by (rule quiet_intros) simp
  have l: "set (mj_log st) \<subseteq> set (mj_log ?st)" using q t(7) by (simp add: quiet_def)
  have a2: "authorised es ?st" using authorised_quiet [OF a1 q order_refl] .
  have u: "user_chose es (mj_log ?st) i (start_where w)"
    using assms t(3,4) l unfolding user_chose_def authorised_def by blast
  show ?thesis
  proof (cases "in_sameAccount i")
    case True
    then show ?thesis using authorised_start [OF a2] u by (simp add: approve_def Some p)
  next
    case False
    let ?st' = "answer_sender e i Accepted (js ''Approved to run in '' @ whereLabel w @ js ''.'') ?st"
    have q': "quiet ?st ?st'" by (rule quiet_intros) simp
    then have "user_chose es (mj_log ?st') i (start_where w)" using user_chose_mono [OF u order_refl] by (simp add: quiet_def)
    moreover have "authorised es ?st'" by (rule authorised_quiet [OF a2 q' order_refl])
    ultimately have "authorised es (wait_for (Accepting i w) ?st')"
      by (auto simp: authorised_def wait_for_def allowed_flow_def)
    then show ?thesis using False by (simp add: approve_def Some p)
  qed
qed

lemma authorised_decline:
  assumes "authorised es st"
  shows "authorised es (decline e j reason st)"
proof (cases "take_job e j st")
  case None
  then show ?thesis using assms by (simp add: decline_def)
next
  case (Some p)
  obtain i st1 where p: "p = (i, st1)" by (cases p)
  note t = take_job_Some [OF Some [unfolded p]]
  have q: "quiet st1 (resolve_attention i st1)" by (rule quiet_intros) simp
  have "authorised es (turn_away j (resolve_attention i st1))"
    by (rule authorised_mono [OF assms order_refl]) (use t q in \<open>auto simp: turn_away_def quiet_def\<close>)
  then show ?thesis using authorised_quiet [OF _ quiet.answer [OF quiet_refl] order_refl] by (simp add: decline_def Some p)
qed

lemma authorised_restore:
  assumes "authorised es st"
  shows "authorised es (restore e st)"
proof (cases "saved_inbox e st = []")
  case True
  then show ?thesis using assms by (simp add: restore_def)
next
  case False
  let ?st = "fold (restore_item e) (saved_inbox e st) st"
  have s: "job_starts (map (\<lambda>i. FxPost (announcement i)) is) = []" for "is"
    by (induction "is") (simp_all add: job_starts_def List.map_filter_def)
  have "authorised es ?st"
    by (rule authorised_mono [OF assms order_refl]) (simp_all add: restored_items s)
  then show ?thesis using False by (auto simp: restore_def Let_def authorised_def changed_def restored_items)
qed

lemma authorised_receive:
  assumes "authorised es st"
  shows "authorised (es @ [(e, Arrives ev)]) (receive e ev st)"
proof (cases "te_body ev")
  case (JobBody job)
  have a: "authorised (es @ [(e, Arrives ev)]) st" by (rule authorised_later [OF assms])
  show ?thesis
  proof (cases "te_workspace ev \<in> {None, Some []} \<and> jq_id job \<notin> mj_seen st")
    case True
    let ?i = "\<lparr>in_job = job, in_team = te_team ev, in_teamName = ev_teamName e (te_team ev), in_account = te_user ev, in_sender = te_sender ev,
           in_sameAccount = \<not> needsApproval (te_sender ev) (te_user ev), in_received = ev_now e, in_placement = NoPlace, in_attentionId = None\<rparr>"
    have "arrived (es @ [(e, Arrives ev)]) ?i"
      unfolding arrived_def by (rule exI [of _ e], rule exI [of _ ev]) (use True JobBody in \<open>simp add: needsApproval_def\<close>)
    moreover have "receive e ev st = wait_for (Locating ?i) (st\<lparr>mj_seen := insert (jq_id job) (mj_seen st)\<rparr>)"
      using True by (auto simp: receive_def JobBody receive_job_def)
    ultimately show ?thesis using a unfolding authorised_def
      by (simp add: wait_for_def) (simp add: allowed_flow_def)
  next
    case False
    then have "receive e ev st = st" by (auto simp: receive_def JobBody receive_job_def)
    then show ?thesis using a by simp
  qed
next
  case (RosterBody rid agents)
  then show ?thesis using authorised_later [OF assms] authorised_later [OF authorised_quiet [OF assms quiet.settle_wait [OF quiet_refl] order_refl]]
    by (simp add: receive_def split: option.split)
qed (use assms in \<open>auto simp: receive_def intro!: authorised_quiet [OF assms] quiet.receive_mesh [OF quiet_refl] quiet.receive_mesh_status [OF quiet_refl] quiet_receive_status\<close>)

lemma authorised_returned:
  assumes "authorised es st"
  shows "authorised (es @ [(e, Returns n r)]) (returned e n r st)"
proof (cases "n < length (mj_flows st) \<and> fits st (mj_flows st ! n) r")
  case True
  let ?f = "mj_flows st ! n" and ?st = "st\<lparr>mj_flows := take n (mj_flows st) @ drop (Suc n) (mj_flows st)\<rparr>"
  let ?es = "es @ [(e, Returns n r)]"
  have p: "placing (mj_flows st) = placing (take n (mj_flows st)) @ placing [?f] @ placing (drop (Suc n) (mj_flows st))"
    using True by (subst split_at_nth [of n]) (simp_all only: placing_append [symmetric] append_Cons append_Nil)
  have a: "authorised ?es ?st" by (rule authorised_mono [OF assms]) (auto simp: p)
  have f: "\<forall>f \<in> set (placing [?f]). allowed_flow ?es (mj_log ?st) f"
    using assms allowed_flow_mono [of es "mj_log st" _ ?es "mj_log st"] unfolding authorised_def p by auto
  have ret: "returned e n r st = resumed e ?f r ?st" using True by (simp add: returned_def)
  show ?thesis
  proof (cases "placing [?f] = []")
    case quiet: True
    show ?thesis
    proof (cases "\<exists>is. ?f = Relocating is")
      case True
      then show ?thesis using a authorised_relocated [OF a] unfolding ret by (auto split: mesh_reply.split)
    next
      case False
      then show ?thesis using authorised_quiet [OF a quiet_resumed order_refl] quiet unfolding ret by blast
    qed
  next
    case False
    then consider i where "?f = Locating i" | i w where "?f = Accepting i w" by (cases ?f) auto
    then show ?thesis
    proof cases
      case (1 i)
      then obtain cs where cs: "r = Checkouts cs" using True by (cases r) auto
      have "authorised ?es (admit_job e (i\<lparr>in_placement := located e i cs\<rparr>) ?st)"
        by (rule authorised_admit [OF a, of _ _ n]) (use f 1 cs in \<open>simp_all add: allowed_flow_def\<close>)
      then show ?thesis unfolding ret 1 by (simp add: cs)
    next
      case (2 i w)
      show ?thesis unfolding ret 2 using authorised_start [OF a] f 2 by (simp add: allowed_flow_def)
    qed
  qed
next
  case False
  then have "returned e n r st = st" unfolding returned_def by (rule if_not_P)
  then show ?thesis using authorised_later [OF assms] by simp
qed

lemma authorised_step: "authorised es st \<Longrightarrow> authorised (es @ [x]) (mesh_step x st)"
proof (cases x)
  case (Pair e ev)
  assume a: "authorised es st"
  then have a': "authorised (es @ [x]) st" by (rule authorised_later)
  show ?thesis
  proof (cases ev)
    case Relocate
    have "authorised (es @ [x]) (wait_for (Relocating (missing_jobs st)) st)" by (rule authorised_quiet [OF a quiet_wait]) auto
    then show ?thesis using a' by (simp add: Pair Relocate relocate_def)
  next
    case (Approve j w)
    have "authorised (es @ [x]) (approve e j w st)" by (rule authorised_approve [OF a', of e]) (simp add: Pair Approve)
    then show ?thesis by (simp add: Pair Approve)
  qed (use a a' in \<open>auto simp: Pair intro: authorised_receive authorised_returned authorised_decline authorised_restore
         authorised_quiet [OF _ quiet_once] authorised_quiet [OF _ quiet_runEnded] authorised_quiet [OF _ quiet.roster [OF quiet_refl]] quiet_intros\<close>)
qed

text \<open>C4: The agent of a job from elsewhere is started either in a checkout this machine has of the job's repository, for a job that
  the channel proved to come from this window's own account, or where its user said, having been shown the job.\<close>

theorem job_runs_only_where_allowed:
  assumes "FxStart (JobRun i) w prompt label \<in> set (mj_log (mesh_run es (createMeshJobs now inbox jobs messages)))"
  shows "own_matched es i w \<or> user_chose es (mj_log (mesh_run es (createMeshJobs now inbox jobs messages))) i w"
proof -
  let ?st = "createMeshJobs now inbox jobs messages"
  have "authorised es (fold mesh_step es ?st)"
  proof (induction es rule: rev_induct)
    case Nil
    then show ?case by (simp add: authorised_def createMeshJobs_def)
  next
    case (snoc x es)
    then show ?case using authorised_step by simp
  qed
  moreover have "(i, w) \<in> set (job_starts (mj_log (mesh_run es ?st)))"
    using assms by (force simp: job_starts_def List.map_filter_def)
  ultimately show ?thesis unfolding authorised_def mesh_run_def by blast
qed

section \<open>Jobs that wait outlive the window\<close>

definition kept :: "mesh_state \<Rightarrow> mesh_state \<Rightarrow> bool" where
  "kept st st' \<longleftrightarrow> mj_inbox st' = mj_inbox st \<and> mj_storedInbox st' = mj_storedInbox st \<or> mj_storedInbox st' = mj_inbox st'"

lemma kept_quiet: "quiet st st' \<Longrightarrow> kept st st'"
  by (simp add: quiet_def kept_def)

lemma kept_same: "mj_inbox st' = mj_inbox st \<Longrightarrow> mj_storedInbox st' = mj_storedInbox st \<Longrightarrow> kept st st'"
  by (simp add: kept_def)

lemma kept_resumed:
  assumes "ev_storage e"
  shows "kept st (resumed e f r st)"
proof (cases "placing [f] = [] \<and> (\<forall>is. f \<noteq> Relocating is)")
  case True
  then show ?thesis using quiet_resumed kept_quiet by blast
next
  case False
  have "kept st (admit_job e i st)" for i
    using assms by (auto simp: admit_job_def kept_def changed_stored split: option.split bool.split)
  moreover have "kept st (relocated e is found st)" for "is" found
    using assms by (auto simp: relocated_def Let_def kept_def changed_stored)
  ultimately show ?thesis using False by (cases f) (auto simp: kept_def split: mesh_reply.split)
qed

lemma kept_take: "take_job e j st = Some (i, st1) \<Longrightarrow> ev_storage e \<Longrightarrow> mj_storedInbox st1 = mj_inbox st1"
  by (auto simp: take_job_def changed_stored split: option.splits)

lemma waiting_kept_step:
  assumes "ev_storage e"
  shows "kept st (mesh_step (e, ev) st)"
proof (cases ev)
  case (Returns n r)
  have "kept (st\<lparr>mj_flows := fs\<rparr>) st' \<Longrightarrow> kept st st'" for fs st' by (simp add: kept_def)
  then have "kept st (resumed e f r (st\<lparr>mj_flows := fs\<rparr>))" for f fs using kept_resumed [OF assms] by blast
  then show ?thesis by (auto simp: Returns returned_def kept_same)
next
  case (Arrives tev)
  then show ?thesis
    by (auto simp: receive_def receive_job_def settle_wait_def intro: kept_same kept_quiet quiet.receive_mesh [OF quiet_refl] quiet.receive_mesh_status [OF quiet_refl] quiet_receive_status
        split: team_body.split option.split)
next
  case (Approve j w)
  then show ?thesis using assms kept_take
    by (auto simp: approve_def Let_def split: option.split intro: kept_quiet quiet_intros) (auto simp: kept_def)
next
  case (Decline j reason)
  then show ?thesis using assms kept_take by (auto simp: decline_def kept_def split: option.split)
next
  case Restore
  then show ?thesis using assms by (auto simp: restore_def Let_def kept_def changed_stored)
next
  case (Submit q rq)
  show ?thesis unfolding Submit mesh_step.simps by (rule kept_quiet, rule quiet_once) (rule quiet_submitJob)
next
  case (Message q rq)
  show ?thesis unfolding Message mesh_step.simps by (rule kept_quiet, rule quiet_once) (rule quiet_sendMessage)
qed (auto simp: relocate_def intro: kept_quiet quiet_runEnded quiet.roster quiet_intros kept_same)

definition unexpired :: "int \<Rightarrow> incoming \<Rightarrow> bool" where
  "unexpired t i \<longleftrightarrow> in_received i + WORKSPACE_TTL_MS > t"

definition same_waiting :: "int \<Rightarrow> mesh_state \<Rightarrow> bool" where
  "same_waiting t0 st \<longleftrightarrow> (\<forall>t \<ge> t0. filter (unexpired t) (mj_storedInbox st) = filter (unexpired t) (mj_inbox st))"

lemma same_waiting_kept: "kept st st' \<Longrightarrow> same_waiting t0 st \<Longrightarrow> same_waiting t0 st'"
  by (auto simp: kept_def same_waiting_def)

lemma same_waiting_run: "same_waiting t0 st \<Longrightarrow> \<forall>(e, ev) \<in> set es. ev_storage e \<Longrightarrow> same_waiting t0 (fold mesh_step es st)"
proof (induction es arbitrary: st)
  case (Cons x es)
  then show ?case by (cases x) (auto intro!: Cons.IH same_waiting_kept [OF waiting_kept_step])
qed simp

lemma saved_inbox_fresh: "mj_seen st = {} \<Longrightarrow> saved_inbox e st = filter (unexpired (ev_now e)) (mj_storedInbox st)"
  by (auto simp: saved_inbox_def rows_load_def unexpired_def cong: filter_cong)

lemma same_waiting_restore:
  assumes "ev_storage e" "mj_inbox st = []" "mj_seen st = {}"
  shows "same_waiting (ev_now e) (restore e st)"
proof (cases "saved_inbox e st = []")
  case True
  then have "filter (unexpired (ev_now e)) (mj_storedInbox st) = []" using saved_inbox_fresh [OF assms(3)] by simp
  then have "filter (unexpired t) (mj_storedInbox st) = []" if "ev_now e \<le> t" for t
    using that by (auto simp: filter_empty_conv unexpired_def)
  then show ?thesis using True assms(2) by (simp add: restore_def same_waiting_def)
next
  case False
  then show ?thesis using assms(1) by (simp add: restore_def Let_def same_waiting_def changed_stored)
qed


end
