(* ===== verification/MeshReports.thy ===== *)
theory MeshReports
  imports MeshSafety
begin

text \<open>
  What becomes of the jobs and messages that agents of this window send: who may report on them, that a retry is not sent twice,
  and that a job to the user's other machine comes back.
\<close>

section \<open>What a terminal is told of its job\<close>

text \<open>Steps that are \<open>mute\<close> send no job and report on none.\<close>

definition is_report :: "mesh_effect \<Rightarrow> bool" where
  "is_report f = (case f of FxReport _ _ _ _ \<Rightarrow> True | _ \<Rightarrow> False)"

definition is_sending :: "mesh_flow \<Rightarrow> bool" where
  "is_sending f = (case f of StartingHere _ _ _ \<Rightarrow> True | Sending _ _ _ _ \<Rightarrow> True | SendingCloud _ _ _ _ \<Rightarrow> True | _ \<Rightarrow> False)"

definition mute :: "mesh_state \<Rightarrow> mesh_state \<Rightarrow> bool" where
  "mute st st' \<longleftrightarrow> mj_outgoing st' = mj_outgoing st
     \<and> (\<forall>r j og. mj_runs st' r = Some (LocalRun j og) \<longrightarrow> mj_runs st r = Some (LocalRun j og))
     \<and> (\<forall>f \<in> set (mj_flows st'). is_sending f \<longrightarrow> f \<in> set (mj_flows st))
     \<and> (\<forall>x \<in> set (mj_log st'). is_report x \<longrightarrow> x \<in> set (mj_log st)) \<and> set (mj_log st) \<subseteq> set (mj_log st')"

lemma mute_refl [intro, simp]: "mute st st"
  by (simp add: mute_def)

named_theorems mute_intros \<open>operations that send no job and report on none\<close>

lemma mute_say [mute_intros]: "mute st st' \<Longrightarrow> \<not> is_report f \<Longrightarrow> mute st (say f st')"
  by (auto simp: mute_def say_def)

lemma mute_wait [mute_intros]: "mute st st' \<Longrightarrow> \<not> is_sending f \<Longrightarrow> mute st (wait_for f st')"
  by (auto simp: mute_def wait_for_def)

lemma mute_fields [simp]:
  "mute st (st'\<lparr>mj_sends := a\<rparr>) = mute st st'" "mute st (st'\<lparr>mj_sent := c\<rparr>) = mute st st'"
  "mute st (st'\<lparr>mj_rosterWaits := d\<rparr>) = mute st st'" "mute st (st'\<lparr>mj_rosters := r\<rparr>) = mute st st'"
  "mute st (st'\<lparr>mj_storedJobs := g\<rparr>) = mute st st'" "mute st (st'\<lparr>mj_storedMessages := h\<rparr>) = mute st st'"
  "mute st (st'\<lparr>mj_seen := s\<rparr>) = mute st st'" "mute st (st'\<lparr>mj_inbox := i\<rparr>) = mute st st'"
  "mute st (st'\<lparr>mj_storedInbox := i\<rparr>) = mute st st'" "mute st (st'\<lparr>mj_turnedAway := t\<rparr>) = mute st st'"
  by (simp_all add: mute_def)

lemma is_report_simps [simp]:
  "is_report (FxReport n a b c)" "\<not> is_report (FxStart sc w p t)" "\<not> is_report (FxStatus a b c s)" "\<not> is_report (FxReply n a b c)"
  "\<not> is_report (FxPost at)" "\<not> is_report (FxResolve a)" "\<not> is_report (FxSubmit a jq b d)" "\<not> is_report (FxSubmitCloud a jq b)"
  "\<not> is_report (FxMessage a mm b)" "\<not> is_report (FxAskRoster a b c)" "\<not> is_report (FxResult a r)" "\<not> is_report (FxRoster a rr)"
  "\<not> is_report (FxNotWaiting a)"
  by (simp_all add: is_report_def)

lemma is_sending_simps [simp]:
  "\<not> is_sending (Locating i)" "\<not> is_sending (Accepting i w)" "\<not> is_sending (Starting i w auto)" "\<not> is_sending (Telling i sd)"
  "\<not> is_sending (Relocating is)" "is_sending (StartingHere k og named)" "is_sending (Sending m s ss errors)"
  "is_sending (SendingCloud c s ss errors)" "\<not> is_sending (Messaging me s ss errors)" "\<not> is_sending (AskingRoster cloud rid ss errors)"
  "\<not> is_sending (AwaitingRoster cloud rid ss errors)"
  by (simp_all add: is_sending_def)

interpretation mute: bystander "mute st" "\<lambda>f. \<not> is_report f" "\<lambda>f. \<not> is_sending f" for st
  by unfold_locales (simp_all add: mute_intros)

lemmas [mute_intros] = mute.kept_by_bystanders

lemma mute_changed [mute_intros]: "mute st st' \<Longrightarrow> mute st (changed e st')"
  by (simp add: changed_def)

lemma mute_turn_away [mute_intros]: "mute st st' \<Longrightarrow> mute st (turn_away j st')"
  by (simp add: turn_away_def)

lemma mute_ended [mute_intros]: "mute st st' \<Longrightarrow> mute st (ended k r st')"
  by (auto simp: ended_def Let_def intro: mute_intros split: sum.split)

lemma mute_remote_run [mute_intros]: "mute st st' \<Longrightarrow> mute st (note_run s (RemoteRun j team account device) st')"
  by (auto simp: note_run_def mute_def split: option.split)

lemma mute_job_started [mute_intros]: "mute st st' \<Longrightarrow> mute st (job_started e i s st')"
  by (auto simp: job_started_def intro: mute_intros)

lemma mute_run_job [mute_intros]: "mute st st' \<Longrightarrow> mute st (run_job i w auto st')"
  by (auto simp: run_job_def intro!: mute_intros)

lemma mute_admit [mute_intros]: "mute st st' \<Longrightarrow> mute st (admit_job e i st')"
  by (auto simp: admit_job_def intro!: mute_intros split: option.split bool.split)

lemma mute_send_message [mute_intros]: "mute st st' \<Longrightarrow> mute st (send_message m ss errors st')"
  by (cases ss) (auto intro!: mute_intros)

lemma mute_receive_job [mute_intros]: "mute st (receive_job e ev job st)"
  by (auto simp: receive_job_def intro!: mute_intros)

lemma mute_restore_item: "mute st st' \<Longrightarrow> mute st (restore_item e i st')"
  by (simp add: restore_item_def mute_say)

lemma mute_restored: "mute st st' \<Longrightarrow> mute st (fold (restore_item e) is st')"
  by (induction "is" arbitrary: st') (simp_all add: mute_restore_item)

lemma mute_restore [mute_intros]: "mute st (restore e st)"
  by (simp add: restore_def Let_def mute_restored mute_changed)

lemma mute_take: "take_job e j st = Some (i, st1) \<Longrightarrow> mute st st1"
  by (auto simp: take_job_def intro!: mute_intros split: option.splits)

lemma mute_approve [mute_intros]: "mute st (approve e j w st)"
  by (auto simp: approve_def Let_def intro!: mute_intros dest: mute_take split: option.split)

lemma mute_decline [mute_intros]: "mute st (decline e j reason st)"
  by (auto simp: decline_def intro!: mute_intros dest: mute_take split: option.split)

lemma mute_relocate [mute_intros]: "mute st (relocate st)"
  by (auto simp: relocate_def intro!: mute_intros)

lemma mute_relocated [mute_intros]: "mute st st' \<Longrightarrow> mute st (relocated e is found st')"
  by (auto simp: relocated_def Let_def intro!: mute_intros)

lemma mute_sendMessage [mute_intros]: "mute st st' \<Longrightarrow> mute st (sendMessage e q k st')"
  by (auto simp: sendMessage_def Let_def intro!: mute_intros split: option.split)

lemma mute_once:
  assumes "\<And>k st'. mute st st' \<Longrightarrow> mute st (act k st')"
  shows "mute st (once e rq act st)"
  by (auto simp: once_def Let_def intro!: assms split: option.split)

lemma mute_sent_message [mute_intros]: "mute st st' \<Longrightarrow> mute st (sent_message e m s device st')"
  by (auto simp: sent_message_def Let_def intro!: mute_intros split: option.split)

lemma mute_resumed: "\<not> is_sending f \<Longrightarrow> mute st (resumed e f r st)"
  by (cases f) (auto simp: Let_def intro!: mute_intros split: mesh_reply.split sum.split)


text \<open>The terminal that submitted a job; the device, team and workspace it went to, now or in an earlier window.\<close>

definition asked :: "(mesh_env \<times> mesh_event) list \<Rightarrow> js_string \<Rightarrow> int \<Rightarrow> js_string \<Rightarrow> bool" where
  "asked es j pty inst \<longleftrightarrow>
     (\<exists>e q rq. (e, Submit q rq) \<in> set es \<and> sq_ptyId q = Some pty \<and> sq_instance q = Some inst
        \<and> (nonempty_text rq = Some j \<or> nonempty_text rq = None \<and> ev_newId e = j))"

definition sent_to :: "mesh_effect list \<Rightarrow> js_string \<Rightarrow> js_string \<Rightarrow> js_string \<Rightarrow> js_string option \<Rightarrow> bool" where
  "sent_to log j team device ws \<longleftrightarrow>
     ws = None \<and> (\<exists>t self. FxResult j (Inr (SentTo team device t self)) \<in> set log)
     \<or> (\<exists>w el. ws = Some w \<and> FxResult j (Inr (SentToCloud team device w el)) \<in> set log)"

definition sent_earlier :: "remote_job list \<Rightarrow> js_string \<Rightarrow> int \<Rightarrow> js_string \<Rightarrow> js_string \<Rightarrow> js_string \<Rightarrow> js_string option \<Rightarrow> bool" where
  "sent_earlier jobs j pty inst team device ws \<longleftrightarrow>
     (\<exists>r \<in> set jobs. rj_jobId r = j \<and> og_ptyId r = pty \<and> og_instance r = inst \<and> rj_team r = team \<and> rj_device r = device
        \<and> ws = Some (rj_workspace r))"

definition went_to ::
  "(mesh_env \<times> mesh_event) list \<Rightarrow> remote_job list \<Rightarrow> mesh_effect list \<Rightarrow> js_string \<Rightarrow> int \<Rightarrow> js_string \<Rightarrow> js_string \<Rightarrow> js_string
     \<Rightarrow> js_string option \<Rightarrow> bool" where
  "went_to es jobs log j pty inst team device ws \<longleftrightarrow>
     asked es j pty inst \<and> sent_to log j team device ws \<or> sent_earlier jobs j pty inst team device ws"

definition ran_here :: "(mesh_env \<times> mesh_event) list \<Rightarrow> mesh_effect list \<Rightarrow> js_string \<Rightarrow> int \<Rightarrow> js_string \<Rightarrow> bool" where
  "ran_here es log j pty inst \<longleftrightarrow> asked es j pty inst \<and> (\<exists>p. FxResult j (Inr (StartedHere p)) \<in> set log)"

definition told_by_device ::
  "(mesh_env \<times> mesh_event) list \<Rightarrow> remote_job list \<Rightarrow> mesh_effect list \<Rightarrow> js_string \<Rightarrow> int \<Rightarrow> js_string \<Rightarrow> bool" where
  "told_by_device es jobs log j pty inst \<longleftrightarrow>
     (\<exists>e ev s. (e, Arrives ev) \<in> set es \<and> te_body ev = StatusBody s \<and> jt_jobId s = j
        \<and> went_to es jobs log j pty inst (te_team ev) (sd_device (te_sender ev)) (te_workspace ev))"

definition asked_flow :: "(mesh_env \<times> mesh_event) list \<Rightarrow> mesh_flow \<Rightarrow> bool" where
  "asked_flow es f =
     (case f of
        StartingHere k og _ \<Rightarrow> asked es (rk_id k) (og_ptyId og) (og_instance og)
      | Sending m _ _ _ \<Rightarrow> asked es (rk_id (ms_key m)) (og_ptyId (ms_origin m)) (og_instance (ms_origin m))
      | SendingCloud c _ _ _ \<Rightarrow> asked es (rk_id (cs_key c)) (og_ptyId (cs_origin c)) (og_instance (cs_origin c))
      | _ \<Rightarrow> True)"

definition traced :: "(mesh_env \<times> mesh_event) list \<Rightarrow> remote_job list \<Rightarrow> mesh_state \<Rightarrow> bool" where
  "traced es jobs st \<longleftrightarrow>
     (\<forall>j og. mj_outgoing st j = Some og \<longrightarrow>
        went_to es jobs (mj_log st) j (og_ptyId og) (og_instance og) (og_team og) (og_device og) (og_workspace og))
     \<and> (\<forall>r j og. mj_runs st r = Some (LocalRun j og) \<longrightarrow> ran_here es (mj_log st) j (og_ptyId og) (og_instance og))
     \<and> (\<forall>f \<in> set (mj_flows st). asked_flow es f)
     \<and> (\<forall>pty inst j t. FxReport pty inst j t \<in> set (mj_log st) \<longrightarrow>
          told_by_device es jobs (mj_log st) j pty inst \<or> ran_here es (mj_log st) j pty inst)"

lemma asked_mono: "asked es j pty inst \<Longrightarrow> set es \<subseteq> set es' \<Longrightarrow> asked es' j pty inst"
  unfolding asked_def by blast

lemma went_to_mono:
  "went_to es jobs log j pty inst team device ws \<Longrightarrow> set es \<subseteq> set es' \<Longrightarrow> set log \<subseteq> set log' \<Longrightarrow> went_to es' jobs log' j pty inst team device ws"
  using asked_mono unfolding went_to_def sent_to_def by blast

lemma ran_here_mono: "ran_here es log j pty inst \<Longrightarrow> set es \<subseteq> set es' \<Longrightarrow> set log \<subseteq> set log' \<Longrightarrow> ran_here es' log' j pty inst"
  using asked_mono unfolding ran_here_def by blast

lemma told_mono: "told_by_device es jobs log j pty inst \<Longrightarrow> set es \<subseteq> set es' \<Longrightarrow> set log \<subseteq> set log' \<Longrightarrow> told_by_device es' jobs log' j pty inst"
  using went_to_mono unfolding told_by_device_def by blast

lemma asked_flow_mono: "asked_flow es f \<Longrightarrow> set es \<subseteq> set es' \<Longrightarrow> asked_flow es' f"
  by (cases f) (auto simp: asked_flow_def intro: asked_mono)

lemma asked_flow_quiet: "\<not> is_sending f \<Longrightarrow> asked_flow es f"
  by (cases f) (simp_all add: asked_flow_def)

lemma tracedI:
  assumes "traced es jobs st" "set es \<subseteq> set es'" "set (mj_log st) \<subseteq> set (mj_log st')"
    "\<And>j og. mj_outgoing st' j = Some og \<Longrightarrow> mj_outgoing st j = Some og \<or>
       went_to es' jobs (mj_log st') j (og_ptyId og) (og_instance og) (og_team og) (og_device og) (og_workspace og)"
    "\<And>r j og. mj_runs st' r = Some (LocalRun j og) \<Longrightarrow> mj_runs st r = Some (LocalRun j og) \<or>
       ran_here es' (mj_log st') j (og_ptyId og) (og_instance og)"
    "\<And>f. f \<in> set (mj_flows st') \<Longrightarrow> f \<in> set (mj_flows st) \<or> asked_flow es' f"
    "\<And>pty inst j t. FxReport pty inst j t \<in> set (mj_log st') \<Longrightarrow> FxReport pty inst j t \<in> set (mj_log st) \<or>
       told_by_device es' jobs (mj_log st') j pty inst \<or> ran_here es' (mj_log st') j pty inst"
  shows "traced es' jobs st'"
proof -
  note m = went_to_mono [OF _ assms(2,3)] ran_here_mono [OF _ assms(2,3)] told_mono [OF _ assms(2,3)] asked_flow_mono [OF _ assms(2)]
  show ?thesis unfolding traced_def
  proof (intro conjI allI impI ballI)
    fix j og
    assume "mj_outgoing st' j = Some og"
    then show "went_to es' jobs (mj_log st') j (og_ptyId og) (og_instance og) (og_team og) (og_device og) (og_workspace og)"
      using assms(1,4) m(1) unfolding traced_def by blast
  next
    fix r j og
    assume "mj_runs st' r = Some (LocalRun j og)"
    then show "ran_here es' (mj_log st') j (og_ptyId og) (og_instance og)" using assms(1,5) m(2) unfolding traced_def by blast
  next
    fix f
    assume "f \<in> set (mj_flows st')"
    then show "asked_flow es' f" using assms(1,6) m(4) unfolding traced_def by blast
  next
    fix pty inst j t
    assume "FxReport pty inst j t \<in> set (mj_log st')"
    then show "told_by_device es' jobs (mj_log st') j pty inst \<or> ran_here es' (mj_log st') j pty inst"
      using assms(7) assms(1) [unfolded traced_def] m(2,3) by metis
  qed
qed

lemma traced_mute:
  assumes "traced es jobs st" "mute st st'" "set es \<subseteq> set es'"
  shows "traced es' jobs st'"
proof (rule tracedI [OF assms(1,3)])
  show "set (mj_log st) \<subseteq> set (mj_log st')" using assms(2) by (simp add: mute_def)
  show "f \<in> set (mj_flows st') \<Longrightarrow> f \<in> set (mj_flows st) \<or> asked_flow es' f" for f
    using assms(2) asked_flow_quiet by (auto simp: mute_def)
  show "FxReport pty inst j t \<in> set (mj_log st') \<Longrightarrow> FxReport pty inst j t \<in> set (mj_log st) \<or>
       told_by_device es' jobs (mj_log st') j pty inst \<or> ran_here es' (mj_log st') j pty inst" for pty inst j t
    using assms(2) by (simp add: mute_def)
qed (use assms(2) in \<open>auto simp: mute_def\<close>)

lemma traced_later: "traced es jobs st \<Longrightarrow> traced (es @ [x]) jobs st"
  by (rule traced_mute [OF _ mute_refl]) auto

lemma traced_wait: "traced es jobs st \<Longrightarrow> asked_flow es f \<Longrightarrow> traced es jobs (wait_for f st)"
  by (rule tracedI [OF _ order_refl]) (auto simp: wait_for_def)

lemma traced_said: "traced es jobs st \<Longrightarrow> \<not> is_report x \<Longrightarrow> traced es jobs (say x st)"
  by (rule traced_mute [OF _ mute_say [OF mute_refl]]) auto

lemma traced_ended: "traced es jobs st \<Longrightarrow> traced es jobs (ended k r st)"
  by (rule traced_mute [OF _ mute_ended [OF mute_refl]]) auto

lemma traced_send_member:
  "traced es jobs st \<Longrightarrow> asked es (rk_id (ms_key m)) (og_ptyId (ms_origin m)) (og_instance (ms_origin m)) \<Longrightarrow>
   traced es jobs (send_member e m ss errors st)"
  by (induction e m ss errors st rule: send_member.induct) (auto simp: asked_flow_def intro!: traced_wait traced_said traced_ended)

lemma traced_send_cloud:
  "traced es jobs st \<Longrightarrow> asked es (rk_id (cs_key c)) (og_ptyId (cs_origin c)) (og_instance (cs_origin c)) \<Longrightarrow>
   traced es jobs (send_cloud c ss errors st)"
  by (cases ss) (auto simp: asked_flow_def intro!: traced_wait traced_said traced_ended)

lemma traced_submit_here:
  "traced es jobs st \<Longrightarrow> asked es (rk_id k) (og_ptyId og) (og_instance og) \<Longrightarrow> traced es jobs (submit_here e k q title brief og st)"
  by (auto simp: submit_here_def submitRemote_def Let_def asked_flow_def intro!: traced_wait traced_said traced_ended traced_send_cloud split: option.split)

lemma traced_submit_member:
  "traced es jobs st \<Longrightarrow> asked es (rk_id k) (og_ptyId og) (og_instance og) \<Longrightarrow> traced es jobs (submit_member e k q member title brief og st)"
  by (auto simp: submit_member_def intro!: traced_ended traced_send_member split: sum.split)

lemma traced_submitJob:
  assumes "traced es jobs st" "\<And>pty inst. sq_ptyId q = Some pty \<Longrightarrow> sq_instance q = Some inst \<Longrightarrow> asked es (rk_id k) pty inst"
  shows "traced es jobs (submitJob e q k st)"
  using assms by (auto simp: submitJob_def Let_def intro!: traced_ended traced_submit_here traced_submit_member split: option.split list.split)

lemma traced_fields [simp]: "traced es jobs (st\<lparr>mj_sends := s\<rparr>) = traced es jobs st"
  by (simp add: traced_def)

lemma traced_submit:
  assumes "traced es jobs st"
  shows "traced (es @ [(e, Submit q rq)]) jobs (once e rq (submitJob e q) st)"
proof -
  let ?es = "es @ [(e, Submit q rq)]"
  have a: "asked ?es (rk_id k) pty inst"
    if "sq_ptyId q = Some pty" "sq_instance q = Some inst"
      "nonempty_text rq = Some (rk_id k) \<or> nonempty_text rq = None \<and> ev_newId e = rk_id k" for pty inst k
    unfolding asked_def by (rule exI [of _ e], rule exI [of _ q], rule exI [of _ rq]) (use that in simp)
  show ?thesis unfolding once_def Let_def using traced_later [OF assms]
    by (auto intro!: traced_submitJob a split: option.split)
qed

lemma result_in_ended: "FxResult (rk_id k) r \<in> set (mj_log (ended k r st))"
  by (auto simp: ended_def say_def Let_def split: sum.split)

lemma ended_grows: "set (mj_log st) \<subseteq> set (mj_log (ended k r st))" "mj_outgoing (ended k r st) = mj_outgoing st" "mj_runs (ended k r st) = mj_runs st"
   "mj_flows (ended k r st) = mj_flows st" "FxReport a b c d \<in> set (mj_log (ended k r st)) \<longleftrightarrow> FxReport a b c d \<in> set (mj_log st)"
  by (auto simp: ended_def say_def Let_def split: sum.split)

lemma traced_sent_member:
  assumes "traced es jobs st" "asked es (rk_id (ms_key m)) (og_ptyId (ms_origin m)) (og_instance (ms_origin m))"
  shows "traced es jobs (sent_member m s device st)"
proof (rule tracedI [OF assms(1) order_refl])
  fix j og
  assume o: "mj_outgoing (sent_member m s device st) j = Some og"
  show "mj_outgoing st j = Some og \<or>
     went_to es jobs (mj_log (sent_member m s device st)) j (og_ptyId og) (og_instance og) (og_team og) (og_device og) (og_workspace og)"
  proof (cases "j = rk_id (ms_key m)")
    case True
    have "sent_to (mj_log (sent_member m s device st)) j (ts_team s) device None"
      unfolding sent_to_def sent_member_def Let_def True using result_in_ended by blast
    then show ?thesis using o assms(2) True by (auto simp: sent_member_def Let_def ended_grows went_to_def)
  next
    case False
    then show ?thesis using o by (simp add: sent_member_def Let_def ended_grows)
  qed
qed (use ended_grows in \<open>auto simp: sent_member_def Let_def subset_iff\<close>)

lemma traced_sent_cloud:
  assumes "traced es jobs st" "asked es (rk_id (cs_key c)) (og_ptyId (cs_origin c)) (og_instance (cs_origin c))"
  shows "traced es jobs (sent_cloud e c s device st)"
proof (rule tracedI [OF assms(1) order_refl])
  fix j og
  assume o: "mj_outgoing (sent_cloud e c s device st) j = Some og"
  show "mj_outgoing st j = Some og \<or>
     went_to es jobs (mj_log (sent_cloud e c s device st)) j (og_ptyId og) (og_instance og) (og_team og) (og_device og) (og_workspace og)"
  proof (cases "j = rk_id (cs_key c)")
    case True
    have "sent_to (mj_log (sent_cloud e c s device st)) j (ts_team s) device (Some (fst (cs_cloud c)))"
      unfolding sent_to_def sent_cloud_def Let_def True using result_in_ended by blast
    then show ?thesis using o assms(2) True by (auto simp: sent_cloud_def Let_def ended_grows went_to_def outgoing_of_def)
  next
    case False
    then show ?thesis using o by (simp add: sent_cloud_def Let_def ended_grows)
  qed
qed (use ended_grows in \<open>auto simp: sent_cloud_def Let_def subset_iff\<close>)

lemma traced_started_here:
  assumes "traced es jobs st" "asked es (rk_id k) (og_ptyId og) (og_instance og)"
  shows "traced es jobs (started_here k og named r st)"
proof (cases "\<exists>s. r = Inr s \<and> so_started s")
  case True
  then obtain s where s: "r = Inr s" "so_started s" by blast
  let ?st = "ended k (Inr (StartedHere (so_project s))) (note_run s (LocalRun (rk_id k) og) st)"
  have n: "mj_log (note_run s x st) = mj_log st" "mj_outgoing (note_run s x st) = mj_outgoing st" "mj_flows (note_run s x st) = mj_flows st" for x
    by (simp_all add: note_run_def split: option.split)
  have "traced es jobs ?st"
  proof (rule tracedI [OF assms(1) order_refl])
    fix r' j og'
    assume "mj_runs ?st r' = Some (LocalRun j og')"
    then have "mj_runs st r' = Some (LocalRun j og') \<or> j = rk_id k \<and> og' = og"
      by (auto simp: ended_grows note_run_def split: option.splits if_splits)
    then show "mj_runs st r' = Some (LocalRun j og') \<or> ran_here es (mj_log ?st) j (og_ptyId og') (og_instance og')"
      using assms(2) result_in_ended unfolding ran_here_def by blast
  qed (use ended_grows in \<open>auto simp: n subset_iff\<close>)
  then show ?thesis by (simp add: started_here_def s)
next
  case False
  then show ?thesis using traced_ended [OF assms(1)] by (auto simp: started_here_def split: sum.split)
qed

lemma traced_resumed:
  assumes "traced es jobs st" "asked_flow es f"
  shows "traced es jobs (resumed e f r st)"
proof (cases "is_sending f")
  case True
  then consider k og named where "f = StartingHere k og named" | m s ss errors where "f = Sending m s ss errors"
    | c s ss errors where "f = SendingCloud c s ss errors" by (cases f) auto
  then show ?thesis
    by cases (use assms in \<open>auto simp: asked_flow_def intro: traced_sent_member traced_send_member traced_sent_cloud traced_send_cloud traced_started_here
        split: mesh_reply.split sum.split\<close>)
next
  case False
  then show ?thesis using traced_mute [OF assms(1) mute_resumed order_refl] by blast
qed

lemma traced_returned:
  assumes "traced es jobs st"
  shows "traced es jobs (returned e n r st)"
proof (cases "n < length (mj_flows st) \<and> fits st (mj_flows st ! n) r")
  case True
  let ?st = "st\<lparr>mj_flows := take n (mj_flows st) @ drop (Suc n) (mj_flows st)\<rparr>"
  have "traced es jobs ?st"
    by (rule tracedI [OF assms order_refl]) (auto dest: in_set_takeD in_set_dropD)
  moreover have "asked_flow es (mj_flows st ! n)" using assms True by (simp add: traced_def)
  ultimately show ?thesis using True traced_resumed by (simp add: returned_def)
next
  case False
  then have "returned e n r st = st" unfolding returned_def by (rule if_not_P)
  then show ?thesis using assms by simp
qed

lemma traced_status:
  assumes "traced es jobs st" "(e', Arrives ev) \<in> set es" "te_body ev = StatusBody s"
  shows "traced es jobs (receive_status e ev s st)"
proof (cases "\<exists>sent. mj_outgoing st (jt_jobId s) = Some sent \<and> og_device sent = sd_device (te_sender ev) \<and> og_team sent = te_team ev
    \<and> og_workspace sent = te_workspace ev")
  case True
  then obtain sent where o: "mj_outgoing st (jt_jobId s) = Some sent" "og_device sent = sd_device (te_sender ev)" "og_team sent = te_team ev"
    "og_workspace sent = te_workspace ev" by blast
  let ?x = "FxReport (og_ptyId sent) (og_instance sent) (jt_jobId s) (stepText (og_title sent) (og_target sent) (jt_state s) (jt_detail s))"
  let ?st = "receive_status e ev s st"
  have l: "mj_log ?st = mj_log st @ [?x]" using o by (simp add: receive_status_def Let_def say_def)
  have "told_by_device es jobs (mj_log st) (jt_jobId s) (og_ptyId sent) (og_instance sent)"
    using assms o unfolding told_by_device_def traced_def by metis
  then have "told_by_device es jobs (mj_log ?st) (jt_jobId s) (og_ptyId sent) (og_instance sent)"
    by (rule told_mono) (auto simp: l)
  then show ?thesis
    by (intro tracedI [OF assms(1) order_refl]) (use o in \<open>auto simp: l receive_status_def Let_def say_def split: if_splits\<close>)
next
  case False
  then have "receive_status e ev s st = st" by (auto simp: receive_status_def split: option.split)
  then show ?thesis using assms(1) by simp
qed

lemma traced_runEnded:
  assumes "traced es jobs st"
  shows "traced es jobs (runEnded e r fin summary st)"
proof (cases "\<exists>c cs j og. r = Some (c # cs) \<and> mj_runs st (c # cs) = Some (LocalRun j og)")
  case True
  then obtain c cs j og where o: "r = Some (c # cs)" "mj_runs st (c # cs) = Some (LocalRun j og)" by blast
  have h: "ran_here es (mj_log st) j (og_ptyId og) (og_instance og)" using assms o(2) unfolding traced_def by blast
  let ?st = "runEnded e r fin summary st"
  have l: "set (mj_log st) \<subseteq> set (mj_log ?st)" using o by (auto simp: runEnded_def Let_def say_def)
  then have "ran_here es (mj_log ?st) j (og_ptyId og) (og_instance og)" using ran_here_mono [OF h order_refl] by blast
  then show ?thesis
    by (intro tracedI [OF assms(1) order_refl l]) (use o in \<open>auto simp: runEnded_def Let_def say_def split: if_splits\<close>)
next
  case False
  have m: "mute st (st\<lparr>mj_runs := (mj_runs st)(k := None)\<rparr>)" for k by (auto simp: mute_def)
  have "mute st (runEnded e r fin summary st)"
    using False m by (auto simp: runEnded_def Let_def intro!: mute_intros split: option.split list.split run_origin.split)
  then show ?thesis using traced_mute [OF assms _ order_refl] by blast
qed

lemma traced_step: "traced es jobs st \<Longrightarrow> traced (es @ [x]) jobs (mesh_step x st)"
proof (cases x)
  case (Pair e ev)
  assume a: "traced es jobs st"
  then have a': "traced (es @ [x]) jobs st" by (rule traced_later)
  have m: "traced (es @ [x]) jobs st'" if "mute st st'" for st' using traced_mute [OF a' that order_refl] .
  show ?thesis
  proof (cases ev)
    case (Arrives tev)
    show ?thesis
    proof (cases "te_body tev")
      case (StatusBody s)
      have "traced (es @ [x]) jobs (receive_status e tev s st)" by (rule traced_status [OF a', of e]) (simp_all add: Pair Arrives StatusBody)
      then show ?thesis by (simp add: Pair Arrives receive_def StatusBody)
    qed (auto simp: Pair Arrives receive_def intro!: m [unfolded Pair Arrives] mute_intros split: option.split)
  next
    case (Returns n r)
    then show ?thesis using traced_returned [OF a'] by (simp add: Pair)
  next
    case (Submit q rq)
    then show ?thesis using traced_submit [OF a] by (simp add: Pair)
  next
    case (Message q rq)
    have "mute st (once e rq (sendMessage e q) st)" by (rule mute_once) (rule mute_sendMessage)
    then show ?thesis using m by (simp add: Pair Message)
  next
    case (RunEnded r fin summary)
    then show ?thesis using traced_runEnded [OF a'] by (simp add: Pair)
  qed (use m in \<open>simp_all add: Pair mute_intros\<close>)
qed

text \<open>C10: What is typed into a terminal about a job is about a job that this terminal submitted, and comes from the device, the team and
  the workspace the job went to, or from its run in this window.\<close>

theorem only_its_device_reports_on_a_job:
  assumes "FxReport pty inst j t \<in> set (mj_log (mesh_run es (createMeshJobs now inbox jobs messages)))"
  shows "let log = mj_log (mesh_run es (createMeshJobs now inbox jobs messages))
         in told_by_device es jobs log j pty inst \<or> ran_here es log j pty inst"
proof -
  let ?st = "createMeshJobs now inbox jobs messages"
  have "traced [] jobs ?st"
    by (auto simp: traced_def createMeshJobs_def went_to_def sent_earlier_def outgoing_of_def rows_load_def dest!: map_of_SomeD) blast+
  then have "traced es jobs (fold mesh_step es ?st)"
  proof (induction es rule: rev_induct)
    case (snoc x es)
    then show ?case using traced_step by simp
  qed simp
  then show ?thesis using assms unfolding traced_def mesh_run_def Let_def by blast
qed

section \<open>A retry is answered once\<close>

definition send_key :: "mesh_flow \<Rightarrow> request_key option" where
  "send_key f =
     (case f of StartingHere k _ _ \<Rightarrow> Some k | Sending m _ _ _ \<Rightarrow> Some (ms_key m) | SendingCloud c _ _ _ \<Rightarrow> Some (cs_key c)
      | Messaging m _ _ _ \<Rightarrow> Some (me_key m) | _ \<Rightarrow> None)"

text \<open>The results a request had other than an error, and the functions under way for it.\<close>

definition is_outcome :: "js_string \<Rightarrow> mesh_effect \<Rightarrow> bool" where
  "is_outcome j x = (case x of FxResult k (Inr _) \<Rightarrow> k = j | _ \<Rightarrow> False)"

definition outcomes :: "js_string \<Rightarrow> mesh_state \<Rightarrow> nat" where
  "outcomes j st = length (filter (is_outcome j) (mj_log st))"

definition is_for :: "js_string \<Rightarrow> mesh_flow \<Rightarrow> bool" where
  "is_for j f \<longleftrightarrow> map_option rk_id (send_key f) = Some j"

definition attempts :: "js_string \<Rightarrow> mesh_state \<Rightarrow> nat" where
  "attempts j st = outcomes j st + length (filter (is_for j) (mj_flows st))"

definition keyed_flows :: "js_string \<Rightarrow> mesh_state \<Rightarrow> bool" where
  "keyed_flows j st \<longleftrightarrow> (\<forall>f \<in> set (mj_flows st). is_for j f \<longrightarrow> map_option rk_keyed (send_key f) = Some True)"

definition once_ok :: "int \<Rightarrow> js_string \<Rightarrow> mesh_state \<Rightarrow> bool" where
  "once_ok t0 j st \<longleftrightarrow> keyed_flows j st \<and>
     (case mj_sends st j of None \<Rightarrow> attempts j st = 0 | Some at \<Rightarrow> t0 \<le> at \<and> attempts j st \<le> 1)"

text \<open>Acting for a key: nothing has been done for this one yet, and it is remembered; or it is another.\<close>

definition acting :: "int \<Rightarrow> js_string \<Rightarrow> request_key \<Rightarrow> mesh_state \<Rightarrow> bool" where
  "acting t0 j k st \<longleftrightarrow>
     (if rk_id k = j then rk_keyed k \<and> keyed_flows j st \<and> attempts j st = 0 \<and> (\<exists>at \<ge> t0. mj_sends st j = Some at) else once_ok t0 j st)"

lemma send_key_simps [simp]:
  "send_key (Locating i) = None" "send_key (Accepting i w) = None" "send_key (Starting i w auto) = None" "send_key (Telling i sd) = None"
  "send_key (Relocating is) = None" "send_key (StartingHere k og named) = Some k" "send_key (Sending m s ss errors) = Some (ms_key m)"
  "send_key (SendingCloud c s ss errors) = Some (cs_key c)" "send_key (Messaging me s ss errors) = Some (me_key me)"
  "send_key (AskingRoster cloud rid ss errors) = None" "send_key (AwaitingRoster cloud rid ss errors) = None"
  by (simp_all add: send_key_def)

lemma is_outcome_simps [simp]:
  "is_outcome j (FxResult k (Inr r)) = (k = j)" "\<not> is_outcome j (FxResult k (Inl err))" "\<not> is_outcome j (FxStart sc w p t)"
  "\<not> is_outcome j (FxStatus a b c s)" "\<not> is_outcome j (FxReport n a b c)" "\<not> is_outcome j (FxReply n a b c)" "\<not> is_outcome j (FxPost at)"
  "\<not> is_outcome j (FxResolve a)" "\<not> is_outcome j (FxSubmit a jq b d)" "\<not> is_outcome j (FxSubmitCloud a jq b)" "\<not> is_outcome j (FxMessage a mm b)"
  "\<not> is_outcome j (FxAskRoster a b c)" "\<not> is_outcome j (FxRoster a rr)" "\<not> is_outcome j (FxNotWaiting a)"
  by (simp_all add: is_outcome_def)

lemma attempts_prims [simp]:
  "attempts j (say x st) = attempts j st + (if is_outcome j x then 1 else 0)"
  "attempts j (wait_for f st) = attempts j st + (if is_for j f then 1 else 0)"
  "attempts j (st\<lparr>mj_sends := a\<rparr>) = attempts j st" "keyed_flows j (say x st) = keyed_flows j st"
  "keyed_flows j (wait_for f st) \<longleftrightarrow> keyed_flows j st \<and> (is_for j f \<longrightarrow> map_option rk_keyed (send_key f) = Some True)"
  "keyed_flows j (st\<lparr>mj_sends := a\<rparr>) = keyed_flows j st" "mj_sends (say x st) = mj_sends st" "mj_sends (wait_for f st) = mj_sends st"
  by (auto simp: attempts_def outcomes_def keyed_flows_def say_def wait_for_def)

lemma once_ok_fields [simp]:
  "once_ok t0 j (st\<lparr>mj_outgoing := b\<rparr>) = once_ok t0 j st" "once_ok t0 j (st\<lparr>mj_sent := c\<rparr>) = once_ok t0 j st"
  "once_ok t0 j (st\<lparr>mj_rosterWaits := d\<rparr>) = once_ok t0 j st" "once_ok t0 j (st\<lparr>mj_rosters := r\<rparr>) = once_ok t0 j st"
  "once_ok t0 j (st\<lparr>mj_runs := f\<rparr>) = once_ok t0 j st" "once_ok t0 j (st\<lparr>mj_storedJobs := g\<rparr>) = once_ok t0 j st"
  "once_ok t0 j (st\<lparr>mj_storedMessages := h\<rparr>) = once_ok t0 j st" "once_ok t0 j (st\<lparr>mj_seen := s\<rparr>) = once_ok t0 j st"
  "once_ok t0 j (st\<lparr>mj_inbox := i\<rparr>) = once_ok t0 j st" "once_ok t0 j (st\<lparr>mj_storedInbox := i\<rparr>) = once_ok t0 j st"
  "once_ok t0 j (st\<lparr>mj_turnedAway := t\<rparr>) = once_ok t0 j st"
  by (simp_all add: once_ok_def keyed_flows_def attempts_def outcomes_def split: option.split)

lemma acting_fields [simp]:
  "acting t0 j k (st\<lparr>mj_outgoing := b\<rparr>) = acting t0 j k st" "acting t0 j k (st\<lparr>mj_sent := c\<rparr>) = acting t0 j k st"
  "acting t0 j k (st\<lparr>mj_runs := f\<rparr>) = acting t0 j k st" "acting t0 j k (st\<lparr>mj_storedJobs := g\<rparr>) = acting t0 j k st"
  "acting t0 j k (st\<lparr>mj_storedMessages := h\<rparr>) = acting t0 j k st"
  by (simp_all add: acting_def keyed_flows_def attempts_def outcomes_def)

named_theorems once_intros \<open>operations that keep the memory of requests\<close>

lemma once_say [once_intros]: "once_ok t0 j st \<Longrightarrow> \<not> is_outcome j x \<Longrightarrow> once_ok t0 j (say x st)"
  by (simp add: once_ok_def split: option.splits)

lemma once_wait [once_intros]: "once_ok t0 j st \<Longrightarrow> send_key f = None \<Longrightarrow> once_ok t0 j (wait_for f st)"
  by (simp add: once_ok_def is_for_def split: option.splits)

interpretation remembering: bystander "once_ok t0 j" "\<lambda>x. \<not> is_outcome j x" "\<lambda>f. send_key f = None" for t0 j
  by unfold_locales (simp_all add: once_intros)

lemmas [once_intros] = remembering.kept_by_bystanders

lemma once_job_started [once_intros]: "once_ok t0 j st \<Longrightarrow> once_ok t0 j (job_started e i s st)"
  by (auto simp: job_started_def note_run_def intro!: once_intros split: option.split)

lemma once_run_job [once_intros]: "once_ok t0 j st \<Longrightarrow> once_ok t0 j (run_job i w auto st)"
  by (auto simp: run_job_def intro!: once_intros)

lemma once_changed [once_intros]: "once_ok t0 j st \<Longrightarrow> once_ok t0 j (changed e st)"
  by (simp add: changed_def)

lemma once_turn_away [once_intros]: "once_ok t0 j st \<Longrightarrow> once_ok t0 j (turn_away i st)"
  by (simp add: turn_away_def)

lemma once_admit [once_intros]: "once_ok t0 j st \<Longrightarrow> once_ok t0 j (admit_job e i st)"
  by (auto simp: admit_job_def intro!: once_intros split: option.split bool.split)

lemma once_receive [once_intros]: "once_ok t0 j st \<Longrightarrow> once_ok t0 j (receive e ev st)"
  by (auto simp: receive_def receive_status_def receive_job_def Let_def intro!: once_intros split: team_body.split option.split)

lemma once_restored: "once_ok t0 j st \<Longrightarrow> once_ok t0 j (fold (restore_item e) is st)"
  by (induction "is" arbitrary: st) (simp_all add: restore_item_def once_say)

lemma once_restore [once_intros]: "once_ok t0 j st \<Longrightarrow> once_ok t0 j (restore e st)"
  by (simp add: restore_def Let_def once_restored once_changed)

lemma once_take: "take_job e i st = Some (x, st1) \<Longrightarrow> once_ok t0 j st \<Longrightarrow> once_ok t0 j st1"
  by (auto simp: take_job_def intro!: once_intros split: option.splits)

lemma once_approve [once_intros]: "once_ok t0 j st \<Longrightarrow> once_ok t0 j (approve e i w st)"
  by (auto simp: approve_def Let_def intro!: once_intros dest: once_take split: option.split)

lemma once_decline [once_intros]: "once_ok t0 j st \<Longrightarrow> once_ok t0 j (decline e i reason st)"
  by (auto simp: decline_def intro!: once_intros dest: once_take split: option.split)

lemma once_relocate [once_intros]: "once_ok t0 j st \<Longrightarrow> once_ok t0 j (relocate st)"
  by (auto simp: relocate_def intro!: once_intros)

lemma once_relocated [once_intros]: "once_ok t0 j st \<Longrightarrow> once_ok t0 j (relocated e is found st)"
  by (auto simp: relocated_def Let_def intro!: once_intros)

lemma once_runEnded [once_intros]: "once_ok t0 j st \<Longrightarrow> once_ok t0 j (runEnded e r fin summary st)"
  by (auto simp: runEnded_def Let_def intro!: once_intros split: option.split list.split run_origin.split)

named_theorems acting_intros \<open>operations for a request\<close>

lemma acting_say [acting_intros]: "acting t0 j k st \<Longrightarrow> \<not> is_outcome j x \<Longrightarrow> acting t0 j k (say x st)"
  by (simp add: acting_def once_say)

lemma acting_ended [acting_intros]: "acting t0 j k st \<Longrightarrow> once_ok t0 j (ended k r st)"
  by (cases r) (auto simp: acting_def once_ok_def ended_def Let_def split: if_splits option.splits)

lemma acting_wait [acting_intros]: "acting t0 j k st \<Longrightarrow> send_key f = Some k \<Longrightarrow> once_ok t0 j (wait_for f st)"
  by (auto simp: acting_def once_ok_def is_for_def split: if_splits option.splits)

lemma acting_send_member [acting_intros]: "acting t0 j (ms_key m) st \<Longrightarrow> once_ok t0 j (send_member e m ss errors st)"
  by (induction e m ss errors st rule: send_member.induct) (auto intro!: acting_intros)

lemma acting_send_cloud [acting_intros]: "acting t0 j (cs_key c) st \<Longrightarrow> once_ok t0 j (send_cloud c ss errors st)"
  by (cases ss) (auto intro!: acting_intros)

lemma acting_send_message [acting_intros]: "acting t0 j (me_key m) st \<Longrightarrow> once_ok t0 j (send_message m ss errors st)"
  by (cases ss) (auto intro!: acting_intros)

lemma acting_submit_here [acting_intros]: "acting t0 j k st \<Longrightarrow> once_ok t0 j (submit_here e k q title brief og st)"
  by (auto simp: submit_here_def submitRemote_def Let_def intro!: acting_intros split: option.split)

lemma acting_submit_member [acting_intros]: "acting t0 j k st \<Longrightarrow> once_ok t0 j (submit_member e k q member title brief og st)"
  by (auto simp: submit_member_def intro!: acting_intros split: sum.split)

lemma acting_submitJob: "acting t0 j k st \<Longrightarrow> once_ok t0 j (submitJob e q k st)"
  by (auto simp: submitJob_def Let_def intro!: acting_intros split: option.split list.split)

lemma acting_sendMessage: "acting t0 j k st \<Longrightarrow> once_ok t0 j (sendMessage e q k st)"
  by (auto simp: sendMessage_def Let_def intro!: acting_intros split: option.split)

lemma acting_started_here [acting_intros]: "acting t0 j k st \<Longrightarrow> once_ok t0 j (started_here k og named r st)"
  by (auto simp: started_here_def note_run_def intro!: acting_intros split: sum.split option.split)

lemma acting_sent [acting_intros]:
  "acting t0 j (ms_key m) st \<Longrightarrow> once_ok t0 j (sent_member m s device st)"
  "acting t0 j (cs_key c) st \<Longrightarrow> once_ok t0 j (sent_cloud e c s device st)"
  "acting t0 j (me_key me) st \<Longrightarrow> once_ok t0 j (sent_message e me s device st)"
  by (auto simp: sent_member_def sent_cloud_def sent_message_def Let_def intro!: acting_intros split: option.split)

lemma once_resumed: "once_ok t0 j st \<Longrightarrow> send_key f = None \<Longrightarrow> once_ok t0 j (resumed e f r st)"
  by (cases f) (auto simp: Let_def simp del: resumed.simps(10) intro!: once_intros split: mesh_reply.split)

lemma acting_resumed: "acting t0 j k st \<Longrightarrow> send_key f = Some k \<Longrightarrow> fits st' f r \<Longrightarrow> once_ok t0 j (resumed e f r st)"
  by (cases f) (auto intro!: acting_intros split: mesh_reply.splits sum.splits)

lemma length_filter_split: "n < length xs \<Longrightarrow>
  length (filter Q xs) = length (filter Q (take n xs @ drop (Suc n) xs)) + (if Q (xs ! n) then 1 else 0)"
  by (subst split_at_nth, assumption) simp

lemma once_returned:
  assumes "once_ok t0 j st"
  shows "once_ok t0 j (returned e n r st)"
proof (cases "n < length (mj_flows st) \<and> fits st (mj_flows st ! n) r")
  case True
  let ?f = "mj_flows st ! n" and ?st = "st\<lparr>mj_flows := take n (mj_flows st) @ drop (Suc n) (mj_flows st)\<rparr>"
  have ret: "returned e n r st = resumed e ?f r ?st" using True by (simp add: returned_def)
  have a: "attempts j st = attempts j ?st + (if is_for j ?f then 1 else 0)"
    using True length_filter_split [of n "mj_flows st"] by (simp add: attempts_def outcomes_def)
  have k: "keyed_flows j ?st" "is_for j ?f \<Longrightarrow> map_option rk_keyed (send_key ?f) = Some True"
    using assms True by (auto simp: once_ok_def keyed_flows_def dest: in_set_takeD in_set_dropD)
  have o: "once_ok t0 j ?st" using assms a k(1) by (auto simp: once_ok_def split: option.splits)
  show ?thesis
  proof (cases "send_key ?f")
    case None
    then show ?thesis using once_resumed [OF o] ret by simp
  next
    case (Some key)
    have "acting t0 j key ?st"
      using assms a k Some o by (auto simp: acting_def once_ok_def is_for_def split: option.splits)
    then show ?thesis using acting_resumed Some True ret by metis
  qed
next
  case False
  then have "returned e n r st = st" unfolding returned_def by (rule if_not_P)
  then show ?thesis using assms by simp
qed

lemma once_ok_sends: "s j = mj_sends st j \<Longrightarrow> once_ok t0 j (st\<lparr>mj_sends := s\<rparr>) = once_ok t0 j st"
  by (simp add: once_ok_def split: option.split)

lemma once_once:
  assumes "once_ok t0 j st" "ev_now e \<le> t0 + SEND_RETRY_MS" "t0 \<le> ev_now e" "ev_newId e \<noteq> j"
    "\<And>k st. acting t0 j k st \<Longrightarrow> once_ok t0 j (act k st)"
  shows "once_ok t0 j (once e rq act st)"
proof -
  let ?s = "\<lambda>k. case mj_sends st k of Some at \<Rightarrow> (if ev_now e - at > SEND_RETRY_MS then None else Some at) | None \<Rightarrow> None"
  have s: "?s j = mj_sends st j" using assms(1,2) by (auto simp: once_ok_def split: option.splits)
  then have o: "once_ok t0 j (st\<lparr>mj_sends := ?s\<rparr>)" using assms(1) once_ok_sends [of ?s j st t0] by simp
  show ?thesis
  proof (cases "nonempty_text rq")
    case None
    then show ?thesis using assms(1,4) assms(5) by (simp add: once_def acting_def)
  next
    case (Some r)
    have "acting t0 j \<lparr>rk_id = r, rk_keyed = True\<rparr> (st\<lparr>mj_sends := ?s(r \<mapsto> ev_now e)\<rparr>)" if "?s r = None"
    proof (cases "r = j")
      case True
      then have "mj_sends st j = None" using that s by simp
      then show ?thesis using True assms(1,3) by (simp add: acting_def once_ok_def)
    next
      case False
      then show ?thesis using assms(1) once_ok_sends [of "?s(r \<mapsto> ev_now e)" j st t0] s by (simp add: acting_def)
    qed
    then show ?thesis using o assms(5) by (simp add: once_def Some Let_def)
  qed
qed

lemma once_step:
  assumes "once_ok t0 j st" "ev_now e \<le> t0 + SEND_RETRY_MS" "t0 \<le> ev_now e" "ev_newId e \<noteq> j"
  shows "once_ok t0 j (mesh_step (e, ev) st)"
  using assms
  by (cases ev) (auto intro: once_intros once_returned once_once acting_submitJob acting_sendMessage)


section \<open>A job goes to the user's other machine and comes back\<close>

text \<open>How the channel hands over what one device of an account sends to another\<close>

definition own_event :: "js_string \<Rightarrow> js_string \<Rightarrow> js_string \<Rightarrow> team_body \<Rightarrow> team_event" where
  "own_event team account device body =
     \<lparr>te_team = team, te_user = account, te_sender = \<lparr>sd_user = account, sd_device = device, sd_name = None\<rparr>, te_workspace = None, te_body = body\<rparr>"

text \<open>The job an agent's request becomes, and what is remembered of it\<close>

definition own_request :: "submit_request \<Rightarrow> int \<Rightarrow> js_string \<Rightarrow> bool" where
  "own_request q pty inst \<longleftrightarrow> js_trim (sq_brief q) \<noteq> [] \<and> utf8_bytes (js_trim (sq_brief q)) \<le> MAX_JOB_BRIEF \<and> sq_ptyId q = Some pty
     \<and> sq_instance q = Some inst \<and> inst \<noteq> [] \<and> sq_member q = Some (js ''me'')"

definition request_job :: "mesh_env \<Rightarrow> submit_request \<Rightarrow> js_string \<Rightarrow> job_request" where
  "request_job e q j =
     (let brief = js_trim (sq_brief q)
      in \<lparr>jq_id = j, jq_title = jobTitle (sq_title q) brief, jq_brief = brief, jq_workspace = trimmed (sq_workspace q), jq_created = ev_now e,
          jq_target = None, jq_scope = sq_scope q\<rparr>)"

lemma me_trims: "js_trim (js ''me'') = js ''me''" "js ''me'' \<noteq> []" "js ''me'' \<in> SELF"
  by (simp_all add: SELF_def) code_simp+

lemma submitted_to_self:
  assumes "own_request q pty inst" "ev_sessions e = s # ss" "ts_user s \<noteq> []" "ev_lower e (js ''me'') = js ''me''" "j \<noteq> []" "mj_sends a j = None"
  shows "\<exists>m st. mesh_step (e, Submit q (Some j)) a = wait_for (Sending m s ss []) (say (FxSubmit (ts_team s) (request_job e q j) (ts_user s) (trimmed (sq_device q))) st)
    \<and> ms_key m = \<lparr>rk_id = j, rk_keyed = True\<rparr> \<and> ms_job m = request_job e q j \<and> ms_self m \<and> ms_origin m = \<lparr>og_ptyId = pty, og_instance = inst\<rparr>
    \<and> mj_flows st = mj_flows a \<and> mj_log st = mj_log a"
proof -
  obtain c cs where i: "inst = c # cs" using assms(1) by (cases inst) (auto simp: own_request_def)
  obtain d ds where j: "j = d # ds" using assms(5) by (cases j) auto
  let ?sends = "(\<lambda>k. case mj_sends a k of None \<Rightarrow> None | Some at \<Rightarrow> if SEND_RETRY_MS < ev_now e - at then None else Some at)(j \<mapsto> ev_now e)"
  let ?m = "\<lparr>ms_key = \<lparr>rk_id = j, rk_keyed = True\<rparr>, ms_job = request_job e q j, ms_who = ts_user s, ms_name = js ''your other machine'',
     ms_self = True, ms_device = trimmed (sq_device q), ms_origin = \<lparr>og_ptyId = pty, og_instance = inst\<rparr>\<rparr>"
  have "mesh_step (e, Submit q (Some j)) a = wait_for (Sending ?m s ss [])
      (say (FxSubmit (ts_team s) (request_job e q j) (ts_user s) (trimmed (sq_device q))) (a\<lparr>mj_sends := ?sends\<rparr>))"
    using assms(1-4,6) me_trims i j
    by (simp add: once_def nonempty_text_def submitJob_def own_request_def Let_def trimmed_def submit_member_def resolveMember_def request_job_def
        knows_member_def)
  then show ?thesis by (intro exI [of _ ?m] exI [of _ "a\<lparr>mj_sends := ?sends\<rparr>"]) simp
qed


lemma sent_to_self:
  fixes e' device
  assumes "own_request q pty inst" "ev_sessions e = s # ss" "ts_user s \<noteq> []" "ev_lower e (js ''me'') = js ''me''" "j \<noteq> []" "mj_sends a j = None"
  defines "a2 \<equiv> mesh_run [(e, Submit q (Some j)), (e', Returns (length (mj_flows a)) (DeviceReply (Inr device)))] a"
  shows "mj_outgoing a2 j = Some \<lparr>og_ptyId = pty, og_instance = inst, og_title = jq_title (request_job e q j), og_team = ts_team s,
           og_device = device, og_target = js ''your other machine'', og_workspace = None\<rparr>"
    "mj_log a2 = mj_log a @ [FxSubmit (ts_team s) (request_job e q j) (ts_user s) (trimmed (sq_device q)),
       FxResult j (Inr (SentTo (ts_team s) device (js ''your other machine'') True))]"
proof -
  obtain m st where m: "mesh_step (e, Submit q (Some j)) a =
       wait_for (Sending m s ss []) (say (FxSubmit (ts_team s) (request_job e q j) (ts_user s) (trimmed (sq_device q))) st)"
     "ms_key m = \<lparr>rk_id = j, rk_keyed = True\<rparr>" "ms_job m = request_job e q j" "ms_self m" "ms_origin m = \<lparr>og_ptyId = pty, og_instance = inst\<rparr>"
     "mj_flows st = mj_flows a" "mj_log st = mj_log a"
    using submitted_to_self [OF assms(1-6)] by blast
  let ?x = "FxSubmit (ts_team s) (request_job e q j) (ts_user s) (trimmed (sq_device q))"
  have "mesh_step (e', Returns (length (mj_flows a)) (DeviceReply (Inr device))) (wait_for (Sending m s ss []) (say ?x st))
      = sent_member m s device ((say ?x st)\<lparr>mj_flows := mj_flows a\<rparr>)"
    using m(6) by (simp add: returned_def wait_for_def say_def)
  then have a2: "a2 = sent_member m s device ((say ?x st)\<lparr>mj_flows := mj_flows a\<rparr>)"
    unfolding a2_def mesh_run_def by (simp add: m(1) del: mesh_step.simps)
  show "mj_outgoing a2 j = Some \<lparr>og_ptyId = pty, og_instance = inst, og_title = jq_title (request_job e q j), og_team = ts_team s,
           og_device = device, og_target = js ''your other machine'', og_workspace = None\<rparr>"
    unfolding a2 using m by (simp add: sent_member_def ended_def Let_def say_def)
  show "mj_log a2 = mj_log a @ [?x, FxResult j (Inr (SentTo (ts_team s) device (js ''your other machine'') True))]"
    unfolding a2 using m by (simp add: sent_member_def ended_def Let_def say_def)
qed

text \<open>The incoming job, matched with the checkouts\<close>

definition matched_job :: "mesh_env \<Rightarrow> mesh_env \<Rightarrow> team_event \<Rightarrow> job_request \<Rightarrow> checkout list \<Rightarrow> incoming" where
  "matched_job e1 e2 ev job cs =
     \<lparr>in_job = job, in_team = te_team ev, in_teamName = ev_teamName e1 (te_team ev), in_account = te_user ev, in_sender = te_sender ev,
      in_sameAccount = \<not> needsApproval (te_sender ev) (te_user ev), in_received = ev_now e1,
      in_placement = place (ev_url e2) (jq_scope job) cs, in_attentionId = None\<rparr>"

definition job_told :: "mesh_env \<Rightarrow> js_string \<Rightarrow> js_string \<Rightarrow> js_string \<Rightarrow> js_string \<Rightarrow> job_state \<Rightarrow> js_string \<Rightarrow> mesh_effect" where
  "job_told e team account device j state detail =
     FxStatus team account device \<lparr>jt_jobId = j, jt_state = state, jt_detail = clipDetail detail, jt_created = ev_now e\<rparr>"

lemma runs_on_the_other_machine:
  fixes team account home job e1 e2 cs
  defines "ev \<equiv> own_event team account home (JobBody job)"
  defines "i \<equiv> matched_job e1 e2 ev job cs"
  assumes "jq_id job \<notin> mj_seen b" "best_checkout (place (ev_url e2) (jq_scope job) cs) = Some c" "so_started sd" "so_runId sd = Some rid" "rid \<noteq> []"
    "sessionFor e3 team account \<noteq> None" "sessionFor e4 team account \<noteq> None"
  shows "mj_log (mesh_run [(e1, Arrives ev), (e2, Returns (length (mj_flows b)) (Checkouts (Some cs))),
        (e3, Returns (length (mj_flows b)) (StartReply (Inr sd))), (e4, RunEnded (Some rid) True summary)] b)
      = mj_log b @ [FxStart (JobRun i) (StartDir (co_dir c)) (run_prompt i (InDir (co_dir c) (co_project c))) (jq_title job),
          job_told e3 team account home (jq_id job) JobStarted (js ''Running in '' @ so_project sd @ js ''.''),
          job_told e4 team account home (jq_id job) JobDone summary]"
proof -
  obtain r rs where rid: "rid = r # rs" using assms(7) by (cases rid) auto
  obtain s3 s4 where s: "sessionFor e3 team account = Some s3" "sessionFor e4 team account = Some s4" using assms(8,9) by auto
  let ?i0 = "i\<lparr>in_placement := NoPlace\<rparr>" and ?n = "length (mj_flows b)"
  have i: "in_job i = job" "in_sameAccount i" "in_team i = team" "in_account i = account" "sd_device (in_sender i) = home"
      "in_placement i = place (ev_url e2) (jq_scope job) cs" "?i0\<lparr>in_placement := located e2 ?i0 (Some cs)\<rparr> = i"
    by (simp_all add: i_def ev_def matched_job_def own_event_def needsApproval_def located_def)
  let ?b1 = "wait_for (Locating ?i0) (b\<lparr>mj_seen := insert (jq_id job) (mj_seen b)\<rparr>)"
  have 1: "mesh_step (e1, Arrives ev) b = ?b1"
    using assms(3) by (simp add: receive_def receive_job_def ev_def own_event_def i_def matched_job_def)
  let ?w = "InDir (co_dir c) (co_project c)"
  let ?b2 = "run_job i ?w True (b\<lparr>mj_seen := insert (jq_id job) (mj_seen b)\<rparr>)"
  have 2: "mesh_step (e2, Returns ?n (Checkouts (Some cs))) ?b1 = ?b2"
    using i assms(4) by (simp add: returned_def wait_for_def admit_job_def)
  let ?st = "mesh_step (e3, Returns ?n (StartReply (Inr sd))) ?b2"
  have 3: "mj_log ?st = mj_log ?b2 @ [job_told e3 team account home (jq_id job) JobStarted (js ''Running in '' @ so_project sd @ js ''.'')]"
      "mj_runs ?st rid = Some (RemoteRun (jq_id job) team account home)"
    using i assms(5,6) s(1) rid
    by (simp_all add: returned_def run_job_def wait_for_def say_def start_result_def job_started_def answer_sender_def sendStatus_def note_run_def run_id_def
        job_told_def Let_def)
  have "mj_log (mesh_step (e4, RunEnded (Some rid) True summary) ?st) = mj_log ?st @ [job_told e4 team account home (jq_id job) JobDone summary]"
    using 3(2) s(2) by (simp add: runEnded_def rid sendStatus_def say_def job_told_def del: mesh_step.simps(2))
  then show ?thesis unfolding mesh_run_def by (simp add: 1 2 3 del: mesh_step.simps) (simp add: i run_job_def say_def wait_for_def)
qed

lemma status_is_reported:
  fixes account detail t state e
  assumes "mj_outgoing a j = Some og" "og_device og = device" "og_team og = team" "og_workspace og = None"
  defines "a' \<equiv> mesh_step (e, Arrives (own_event team account device (StatusBody \<lparr>jt_jobId = j, jt_state = state, jt_detail = detail, jt_created = t\<rparr>))) a"
  shows "mj_log a' = mj_log a @ [FxReport (og_ptyId og) (og_instance og) j (stepText (og_title og) (og_target og) state detail)]"
    "mj_outgoing a' j = (if state \<in> FINAL then None else Some og)"
  using assms by (simp_all add: receive_def receive_status_def own_event_def say_def Let_def)


end
