(* ===== verification/MeshExamples.thy ===== *)
theory MeshExamples
  imports MeshReports
begin

text \<open>Repositories, a window and its jobs, evaluated: each property of the mesh theories holds of something.\<close>

section \<open>The properties on a concrete window\<close>

definition demo_repo :: job_repo where
  "demo_repo = \<lparr>jr_host = Some (js ''h.c''), jr_slug = js ''a/b''\<rparr>"

definition demo_scope :: job_scope where
  "demo_scope = \<lparr>js_repos = [demo_repo], js_path = None, js_branch = None\<rparr>"

definition demo_checkout :: checkout where
  "demo_checkout = \<lparr>co_project = js ''api'', co_dir = js ''/src/api'', co_rel = [], co_origin = js ''h.c:a/b'', co_main = True\<rparr>"

lemma demo_is_a_repository: "validJobRepo demo_repo" "drop_git (jr_slug demo_repo) = jr_slug demo_repo"
  by code_simp+

lemma demo_matches: "originMatches Map.empty (co_origin demo_checkout) demo_repo"
  by code_simp

lemma demo_placed: "best_checkout (place Map.empty (Some demo_scope) [demo_checkout]) = Some demo_checkout"
  using demo_matches by (simp add: place_def demo_scope_def best_checkout_def demo_checkout_def Let_def)


lemma port_steps:
  "drop_git (drop_slashes (js ''h.c:1/a/b'')) = js ''h.c:1/a/b''"
  "js_trim (js ''h.c:1/a/b'') = js ''h.c:1/a/b''"
  "\<not> has_scheme (js ''h.c:1/a/b'')"
  "scp (js ''h.c:1/a/b'') = Some (js ''h.c'', js ''1/a/b'')"
  "js_lower (js ''h.c'') = js ''h.c''"
  "drop_git (joined [47] (segments (js ''1/a/b''))) = js ''1/a/b''"
  "validRepo (js ''h.c'') (js ''1/a/b'')"
  "js ''h.c:1/a/b'' \<noteq> []"
  by code_simp+
lemma port_name: "repoFullName \<lparr>jr_host = Some (js ''h.c:1''), jr_slug = js ''a/b''\<rparr> = js ''h.c:1/a/b''" by code_simp
lemma port_valid: "validJobRepo \<lparr>jr_host = Some (js ''h.c:1''), jr_slug = js ''a/b''\<rparr>" by code_simp
text \<open>A host with a port is not read back: its port becomes a part of the path.\<close>

theorem port_is_read_as_a_path:
  "let r = \<lparr>jr_host = Some (js ''h.c:1''), jr_slug = js ''a/b''\<rparr>
   in validJobRepo r \<and> parseRepoArg Map.empty (repoFullName r) = Some \<lparr>jr_host = Some (js ''h.c''), jr_slug = js ''1/a/b''\<rparr>"
proof -
  have "repoRefFromRemote Map.empty (js ''h.c:1/a/b'') = Some \<lparr>jr_host = Some (js ''h.c''), jr_slug = js ''1/a/b''\<rparr>"
    unfolding repoRefFromRemote_def remote_parts_def Let_def port_steps by (simp only: port_steps if_False if_True option.map option.case prod.case)
  then show ?thesis unfolding parseRepoArg_def Let_def port_name port_steps using port_valid by (simp only: port_steps if_False option.case simp_thms)
qed


section \<open>One window, evaluated\<close>

definition demo_session :: team_session where
  "demo_session = \<lparr>ts_team = js ''t'', ts_user = js ''u'', ts_members = []\<rparr>"

definition demo_env :: mesh_env where
  "demo_env = \<lparr>ev_now = 0, ev_newId = js ''n'', ev_sessions = [demo_session], ev_devices = (\<lambda>s. []), ev_workspaces = [], ev_clouds = [], ev_teamName = Map.empty,
     ev_post = (\<lambda>a. js ''a''), ev_storage = True, ev_url = Map.empty, ev_lower = id\<rparr>"

definition demo_request :: submit_request where
  "demo_request = \<lparr>sq_brief = js ''go'', sq_title = None, sq_workspace = None, sq_member = Some (js ''me''), sq_device = None, sq_ptyId = Some 1,
     sq_instance = Some (js ''w''), sq_agent = None, sq_scope = Some demo_scope\<rparr>"

definition demo_job :: job_request where
  "demo_job = request_job demo_env demo_request (js ''j'')"

definition demo_window :: mesh_state where
  "demo_window = createMeshJobs 0 [] [] []"

definition demo_arrival :: team_event where
  "demo_arrival = own_event (js ''t'') (js ''u'') (js ''d'') (JobBody demo_job)"

lemma demo_job_fields: "jq_id demo_job = js ''j''" "jq_scope demo_job = Some demo_scope"
  by (simp_all add: demo_job_def request_job_def demo_request_def Let_def)

lemma demo_own_request: "own_request demo_request 1 (js ''w'')"
proof -
  have "js_trim (js ''go'') \<noteq> []" "utf8_bytes (js_trim (js ''go'')) \<le> MAX_JOB_BRIEF" by code_simp+
  then show ?thesis by (simp add: own_request_def demo_request_def js_def)
qed

lemma received_job_is_accounted_for_witness:
  "let st = mesh_run [(demo_env, Arrives demo_arrival)] demo_window
   in count_list (map placed_job (placing (mj_flows st))) (js ''j'') + count_list (map job_of (mj_inbox st)) (js ''j'')
       + count_list (map (job_of \<circ> fst) (job_starts (mj_log st))) (js ''j'') + count_list (mj_turnedAway st) (js ''j'') = 1"
proof -
  have "distinct (map job_of [])" "(demo_env, Arrives demo_arrival) \<in> set [(demo_env, Arrives demo_arrival)]"
    "te_body demo_arrival = JobBody demo_job" "te_workspace demo_arrival = None"
    by (simp_all add: demo_arrival_def own_event_def)
  from received_job_is_accounted_for [OF this, where now = 0 and jobs = "[]" and messages = "[]"]
  show ?thesis by (simp add: demo_job_fields demo_window_def Let_def)
qed

definition demo_places :: "(mesh_env \<times> mesh_event) list" where
  "demo_places = [(demo_env, Arrives demo_arrival), (demo_env, Returns 0 (Checkouts (Some [demo_checkout])))]"

lemma job_runs_only_where_allowed_witness:
  "\<exists>i. own_matched demo_places i (StartDir (js ''/src/api'')) \<or> user_chose demo_places (mj_log (mesh_run demo_places demo_window)) i (StartDir (js ''/src/api''))"
proof -
  have p: "best_checkout (place (ev_url demo_env) (Some demo_scope) [demo_checkout]) = Some demo_checkout"
    using demo_placed by (simp add: demo_env_def)
  have "\<exists>i p t. FxStart (JobRun i) (StartDir (js ''/src/api'')) p t \<in> set (mj_log (mesh_run demo_places demo_window))"
    using p demo_job_fields
    by (auto simp: mesh_run_def demo_places_def receive_def receive_job_def demo_arrival_def own_event_def demo_window_def createMeshJobs_def
        returned_def wait_for_def admit_job_def located_def run_job_def say_def needsApproval_def demo_checkout_def)
  then show ?thesis unfolding demo_window_def using job_runs_only_where_allowed [where es = demo_places and inbox = "[]" and jobs = "[]" and messages = "[]" and now = 0] by blast
qed


definition demo_row :: remote_job where
  "demo_row = \<lparr>og_ptyId = 1, og_instance = js ''w'', rj_jobId = js ''j'', rj_title = [], rj_workspace = js ''c'', rj_target = [], rj_team = js ''t'',
     rj_device = js ''h'', rj_expires = 9\<rparr>"

definition demo_status :: team_event where
  "demo_status = \<lparr>te_team = js ''t'', te_user = js ''u'', te_sender = \<lparr>sd_user = js ''x'', sd_device = js ''h'', sd_name = None\<rparr>, te_workspace = Some (js ''c''),
     te_body = StatusBody \<lparr>jt_jobId = js ''j'', jt_state = JobDone, jt_detail = [], jt_created = 0\<rparr>\<rparr>"

lemma only_its_device_reports_on_a_job_witness:
  "let log = mj_log (mesh_run [(demo_env, Arrives demo_status)] (createMeshJobs 0 [] [demo_row] []))
   in told_by_device [(demo_env, Arrives demo_status)] [demo_row] log (js ''j'') 1 (js ''w'') \<or> ran_here [(demo_env, Arrives demo_status)] log (js ''j'') 1 (js ''w'')"
proof -
  have "FxReport 1 (js ''w'') (js ''j'') (stepText [] [] JobDone []) \<in> set (mj_log (mesh_run [(demo_env, Arrives demo_status)] (createMeshJobs 0 [] [demo_row] [])))"
    by (simp add: mesh_run_def receive_def receive_status_def demo_status_def demo_row_def createMeshJobs_def outgoing_of_def rows_load_def say_def Let_def
        js_def FINAL_def)
  then show ?thesis by (rule only_its_device_reports_on_a_job)
qed



end
