(* ===== verification/WorkflowJson.thy ===== *)
theory WorkflowJson
  imports Prelude Complex_Main
begin

text \<open>
  What the workflow validator (\<^verbatim>\<open>src/src/workflowDefinition.ts\<close>) works on and with: parsed JSON
  values, the language's conversions it relies on (\<^verbatim>\<open>String(v)\<close>, \<^verbatim>\<open>===\<close>, truthiness), the path helpers,
  and its three depth-first searches, which are stated over an arbitrary node type.

  A property that is absent reads as \<^verbatim>\<open>undefined\<close>, which is \<open>None\<close> of type \<open>json option\<close>. The printing
  of numbers is an argument. Objects whose own \<^verbatim>\<open>toString\<close> property makes \<^verbatim>\<open>String(v)\<close> throw are left out.
\<close>

section \<open>JSON values\<close>

datatype json =
    JNull | JBool bool | JNum rat | JInfinity bool | JStr string | JArr "json list" | JObj "(string \<times> json) list"

type_synonym fields = "(string \<times> json) list"

definition as_record :: "json option \<Rightarrow> fields option" where
  "as_record v = (case v of Some (JObj fs) \<Rightarrow> Some fs | _ \<Rightarrow> None)"

definition as_array :: "json option \<Rightarrow> json list option" where
  "as_array v = (case v of Some (JArr xs) \<Rightarrow> Some xs | _ \<Rightarrow> None)"

definition as_string :: "json option \<Rightarrow> string option" where
  "as_string v = (case v of Some (JStr s) \<Rightarrow> Some s | _ \<Rightarrow> None)"

definition string_or_empty :: "json option \<Rightarrow> string" where
  "string_or_empty v = (case as_string v of Some s \<Rightarrow> s | None \<Rightarrow> [])"

definition array_or_empty :: "json option \<Rightarrow> json list" where
  "array_or_empty v = (case as_array v of Some xs \<Rightarrow> xs | None \<Rightarrow> [])"

text \<open>\<^verbatim>\<open>v?.k\<close> and \<^verbatim>\<open>v.k\<close> of a value that is not \<^verbatim>\<open>null\<close>.\<close>

definition field_of :: "json option \<Rightarrow> string \<Rightarrow> json option" where
  "field_of v k = (case as_record v of Some fs \<Rightarrow> map_of fs k | None \<Rightarrow> None)"

definition char_space :: "char \<Rightarrow> bool" where
  "char_space c \<longleftrightarrow> (of_char c :: nat) \<in> {9, 10, 11, 12, 13, 32, 160}"

definition blank :: "string \<Rightarrow> bool" where
  "blank s \<longleftrightarrow> list_all char_space s"

definition trim_str :: "string \<Rightarrow> string" where
  "trim_str s = rev (dropWhile char_space (rev (dropWhile char_space s)))"

text \<open>White space to the store, which is not the language's: it has U+0085.\<close>

definition rust_space :: "char \<Rightarrow> bool" where
  "rust_space c \<longleftrightarrow> (of_char c :: nat) \<in> {9, 10, 11, 12, 13, 32, 133, 160}"

definition text_value :: "json option \<Rightarrow> bool" where
  "text_value v = (case as_string v of Some s \<Rightarrow> \<not> blank s | None \<Rightarrow> False)"

fun is_string :: "json \<Rightarrow> bool" where
  "is_string (JStr s) = True"
| "is_string v = False"

definition strings_value :: "json option \<Rightarrow> bool" where
  "strings_value v = (case as_array v of Some xs \<Rightarrow> list_all is_string xs | None \<Rightarrow> False)"

definition truthy :: "json option \<Rightarrow> bool" where
  "truthy v = (case v of None \<Rightarrow> False | Some JNull \<Rightarrow> False | Some (JBool b) \<Rightarrow> b | Some (JNum r) \<Rightarrow> r \<noteq> 0
     | Some (JStr s) \<Rightarrow> s \<noteq> [] | _ \<Rightarrow> True)"

text \<open>\<^verbatim>\<open>a === b\<close> and \<^verbatim>\<open>xs.includes(b)\<close> of values from different places of one document: two objects are never the same.\<close>

definition same :: "json option \<Rightarrow> json option \<Rightarrow> bool" where
  "same a b = (case a of Some (JArr _) \<Rightarrow> False | Some (JObj _) \<Rightarrow> False | _ \<Rightarrow> a = b)"

definition arr_includes :: "json list \<Rightarrow> json option \<Rightarrow> bool" where
  "arr_includes xs v \<longleftrightarrow> list_ex (\<lambda>x. same (Some x) v) xs"

fun join_with :: "string \<Rightarrow> string list \<Rightarrow> string" where
  "join_with sep [] = []"
| "join_with sep [x] = x"
| "join_with sep (x # y # ys) = x @ sep @ join_with sep (y # ys)"

fun to_str :: "(rat \<Rightarrow> string) \<Rightarrow> json \<Rightarrow> string" and item_str :: "(rat \<Rightarrow> string) \<Rightarrow> json list \<Rightarrow> string list" where
  "to_str num JNull = ''null''"
| "to_str num (JBool b) = (if b then ''true'' else ''false'')"
| "to_str num (JNum r) = num r"
| "to_str num (JInfinity neg) = (if neg then ''-Infinity'' else ''Infinity'')"
| "to_str num (JStr s) = s"
| "to_str num (JArr xs) = join_with '','' (item_str num xs)"
| "to_str num (JObj fs) = ''[object Object]''"
| "item_str num [] = []"
| "item_str num (x # xs) = (if x = JNull then [] else to_str num x) # item_str num xs"

definition js_String :: "(rat \<Rightarrow> string) \<Rightarrow> json option \<Rightarrow> string" where
  "js_String num v = (case v of None \<Rightarrow> ''undefined'' | Some j \<Rightarrow> to_str num j)"

text \<open>The number of a value that \<^verbatim>\<open>Number.isInteger\<close> accepts.\<close>

definition integer_value :: "json option \<Rightarrow> int option" where
  "integer_value v = (case v of Some (JNum r) \<Rightarrow> (case quotient_of r of (p, q) \<Rightarrow> if q = 1 then Some p else None) | _ \<Rightarrow> None)"

definition int_between :: "int \<Rightarrow> int \<Rightarrow> json option \<Rightarrow> bool" where
  "int_between lo hi v = (case integer_value v of Some n \<Rightarrow> lo \<le> n \<and> n \<le> hi | None \<Rightarrow> False)"

definition finite_value :: "json option \<Rightarrow> rat option" where
  "finite_value v = (case v of Some (JNum r) \<Rightarrow> Some r | _ \<Rightarrow> None)"

section \<open>Error messages\<close>

definition err :: "bool \<Rightarrow> string \<Rightarrow> string list" where
  "err c m = (if c then [m] else [])"

fun dec :: "nat \<Rightarrow> string" where
  "dec n = (if n < 10 then [hex_digit n] else dec (n div 10) @ [hex_digit (n mod 10)])"

declare dec.simps [simp del]

definition indexed :: "string \<Rightarrow> nat \<Rightarrow> string" where
  "indexed base i = base @ ''['' @ dec i @ '']''"

lemma err_Nil [simp]: "err c m = [] \<longleftrightarrow> \<not> c"
  by (simp add: err_def)

definition exactKeys :: "fields \<Rightarrow> string list \<Rightarrow> string \<Rightarrow> string list" where
  "exactKeys fs allowed loc = map (\<lambda>(k, v). loc @ '' contains unknown field '' @ k) (filter (\<lambda>(k, v). k \<notin> set allowed) fs)"

section \<open>Identifiers and paths\<close>

definition lower_alnum :: "char \<Rightarrow> bool" where
  "lower_alnum c \<longleftrightarrow> (let n = of_char c :: nat in (97 \<le> n \<and> n \<le> 122) \<or> (48 \<le> n \<and> n \<le> 57))"

definition letter :: "char \<Rightarrow> bool" where
  "letter c \<longleftrightarrow> (let n = of_char c :: nat in (97 \<le> n \<and> n \<le> 122) \<or> (65 \<le> n \<and> n \<le> 90))"

definition ID :: "string \<Rightarrow> bool" where
  "ID s = (case s of [] \<Rightarrow> False
     | c # cs \<Rightarrow> lower_alnum c \<and> length cs \<le> 63
         \<and> list_all (\<lambda>d. lower_alnum d \<or> d = CHR ''_'' \<or> d = CHR ''-'') cs)"

definition repo_char :: "char \<Rightarrow> bool" where
  "repo_char c \<longleftrightarrow> letter c \<or> lower_alnum c \<or> c \<in> {CHR ''_'', CHR ''.'', CHR ''-''}"

definition owner_repo :: "string \<Rightarrow> bool" where
  "owner_repo s =
     (let a = takeWhile (\<lambda>c. c \<noteq> CHR ''/'') s; b = dropWhile (\<lambda>c. c \<noteq> CHR ''/'') s
      in a \<noteq> [] \<and> list_all repo_char a \<and> (case b of [] \<Rightarrow> False | _ # cs \<Rightarrow> cs \<noteq> [] \<and> list_all repo_char cs))"

fun split_slash :: "string \<Rightarrow> string \<Rightarrow> string list" where
  "split_slash cur [] = [cur]"
| "split_slash cur (c # cs) = (if c = CHR ''/'' then cur # split_slash [] cs else split_slash (cur @ [c]) cs)"

fun path_parts :: "string list \<Rightarrow> string list \<Rightarrow> string list" where
  "path_parts acc [] = acc"
| "path_parts acc (p # ps) =
     (if p = [] \<or> p = ''.'' then path_parts acc ps
      else if p = ''..'' then path_parts (butlast acc) ps
      else path_parts (acc @ [p]) ps)"

definition drive_of :: "string \<Rightarrow> string" where
  "drive_of s = (case s of a # b # _ \<Rightarrow> if letter a \<and> b = CHR '':'' then [a, b] else [] | _ \<Rightarrow> [])"

definition strip_last_slash :: "string \<Rightarrow> string" where
  "strip_last_slash s = (if s \<noteq> [] \<and> last s = CHR ''/'' then butlast s else s)"

definition normalize :: "string \<Rightarrow> string" where
  "normalize path =
     (let source = map (\<lambda>c. if c = CHR 0x5C then CHR ''/'' else c) path;
          drive = drive_of source;
          rooted = (source \<noteq> [] \<and> hd source = CHR ''/'');
          body = (if drive \<noteq> [] then dropWhile (\<lambda>c. c = CHR ''/'') (drop (length drive) source)
                  else if rooted then drop 1 source else source);
          parts = path_parts [] (split_slash [] body)
      in if drive \<noteq> [] then strip_last_slash (drive @ ''/'' @ join_with ''/'' parts)
         else if rooted then ''/'' @ join_with ''/'' parts
         else join_with ''/'' parts)"

definition absolute :: "string \<Rightarrow> bool" where
  "absolute path =
     (case normalize path of
        [] \<Rightarrow> False
      | a # r \<Rightarrow> a = CHR ''/'' \<or> letter a \<and> take 2 r = '':/'')"

definition resolvePath :: "string \<Rightarrow> string \<Rightarrow> string" where
  "resolvePath rt path =
     normalize (if absolute path then path
                else normalize rt @ ''/'' @ (if take 2 path = ''./'' then drop 2 path else path))"

definition inside :: "string \<Rightarrow> string \<Rightarrow> bool" where
  "inside rt path =
     (let base = normalize rt; target = normalize path
      in target = base \<or> take (length base + 1) target = base @ ''/'')"

section \<open>The depth-first searches\<close>

lemma unseen_pos: "x \<in> set keys \<Longrightarrow> x \<notin> A \<Longrightarrow> 0 < card (set keys - A)"
  by (auto simp: card_gt_0_iff)

lemma unseen_same: "x \<notin> set keys \<Longrightarrow> set keys - insert x A = set keys - A"
  by blast

text \<open>
  \<open>find_cycle keys succ visiting visited todo\<close> is \<^verbatim>\<open>todo.some(cyclic)\<close>: whether a search from one of \<open>todo\<close>
  meets a node of its own path. A search that finds nothing leaves \<^verbatim>\<open>visiting\<close> as it was and adds to
  \<^verbatim>\<open>visited\<close>, so the path is an argument and only \<^verbatim>\<open>visited\<close> is threaded.
\<close>

function find_cycle :: "'a list \<Rightarrow> ('a \<Rightarrow> 'a list) \<Rightarrow> 'a list \<Rightarrow> 'a list \<Rightarrow> 'a list \<Rightarrow> bool \<times> 'a list" where
  "find_cycle keys succ visiting visited [] = (False, visited)"
| "find_cycle keys succ visiting visited (x # xs) =
     (if x \<in> set visiting then (True, visited)
      else if x \<in> set visited then find_cycle keys succ visiting visited xs
      else let r = find_cycle keys succ (x # visiting) visited (if x \<in> set keys then succ x else [])
           in if fst r then r else find_cycle keys succ visiting (x # snd r) xs)"
  by pat_completeness auto
termination
  by (relation "measures [\<lambda>(keys, succ, visiting, visited, todo). card (set keys - set visiting),
                           \<lambda>(keys, succ, visiting, visited, todo). length todo]") (auto simp: unseen_pos unseen_same)

text \<open>\<open>visit_all\<close> is the recursive \<^verbatim>\<open>visit\<close>, with the calls that are still to come as a list.\<close>

function visit_all :: "'a list \<Rightarrow> ('a \<Rightarrow> 'a list) \<Rightarrow> 'a list \<Rightarrow> 'a list \<Rightarrow> 'a list" where
  "visit_all keys succ reached [] = reached"
| "visit_all keys succ reached (x # xs) =
     (if x \<in> set reached then visit_all keys succ reached xs
      else visit_all keys succ (x # reached) ((if x \<in> set keys then succ x else []) @ xs))"
  by pat_completeness auto
termination
  by (relation "measures [\<lambda>(keys, succ, reached, todo). card (set keys - set reached),
                           \<lambda>(keys, succ, reached, todo). length todo]") (auto simp: unseen_pos unseen_same)

text \<open>
  \<open>any_terminal\<close> is the inner \<^verbatim>\<open>some\<close> of \<^verbatim>\<open>reachesTerminal\<close>, over the targets of all the edges of a step:
  a target is a terminal, or a step from which the search, on a longer path, gets to one. The memo
  is threaded; a step on the current path counts as not reaching.
\<close>

function any_terminal :: "'a list \<Rightarrow> ('a \<Rightarrow> bool) \<Rightarrow> ('a \<Rightarrow> 'a list) \<Rightarrow> 'a list \<Rightarrow> ('a \<times> bool) list \<Rightarrow> 'a list
    \<Rightarrow> bool \<times> ('a \<times> bool) list" where
  "any_terminal keys ends targets stack memo [] = (False, memo)"
| "any_terminal keys ends targets stack memo (t # ts) =
     (if ends t then (True, memo)
      else if t \<notin> set keys then any_terminal keys ends targets stack memo ts
      else case map_of memo t of
        Some b \<Rightarrow> (if b then (True, memo) else any_terminal keys ends targets stack memo ts)
      | None \<Rightarrow>
          (if t \<in> set stack then any_terminal keys ends targets stack memo ts
           else let r = any_terminal keys ends targets (t # stack) memo (targets t); memo' = (t, fst r) # snd r
                in if fst r then (True, memo') else any_terminal keys ends targets stack memo' ts))"
  by pat_completeness auto
termination
  by (relation "measures [\<lambda>(keys, ends, targets, stack, memo, todo). card (set keys - set stack),
                           \<lambda>(keys, ends, targets, stack, memo, todo). length todo]") (auto simp: unseen_pos unseen_same)

definition reachesTerminal :: "'a list \<Rightarrow> ('a \<Rightarrow> bool) \<Rightarrow> ('a \<Rightarrow> 'a list) \<Rightarrow> ('a \<times> bool) list \<Rightarrow> 'a \<Rightarrow> bool \<times> ('a \<times> bool) list" where
  "reachesTerminal keys ends targets memo x =
     (case map_of memo x of
        Some b \<Rightarrow> (b, memo)
      | None \<Rightarrow> (let r = any_terminal keys ends targets [x] memo (targets x) in (fst r, (x, fst r) # snd r)))"

fun without_terminal :: "'a list \<Rightarrow> ('a \<Rightarrow> bool) \<Rightarrow> ('a \<Rightarrow> 'a list) \<Rightarrow> ('a \<times> bool) list \<Rightarrow> 'a list \<Rightarrow> 'a list" where
  "without_terminal keys ends targets memo [] = []"
| "without_terminal keys ends targets memo (x # xs) =
     (let r = reachesTerminal keys ends targets memo x
      in (if fst r then [] else [x]) @ without_terminal keys ends targets (snd r) xs)"

subsection \<open>What the searches find\<close>

definition edges_of :: "'a list \<Rightarrow> ('a \<Rightarrow> 'a list) \<Rightarrow> ('a \<times> 'a) set" where
  "edges_of keys succ = {(x, y). x \<in> set keys \<and> y \<in> set (succ x)}"

lemma edges_of_iff: "(x, y) \<in> edges_of keys succ \<longleftrightarrow> x \<in> set keys \<and> y \<in> set (succ x)"
  by (simp add: edges_of_def)

lemma acyclic_extend:
  assumes acyc: "acyclic (E \<inter> V \<times> V)" and closed: "E `` V \<subseteq> V" and x: "x \<notin> V" "E `` {x} \<subseteq> V"
  shows "acyclic (E \<inter> insert x V \<times> insert x V)"
proof -
  let ?r = "E \<inter> V \<times> V" and ?r' = "E \<inter> insert x V \<times> insert x V"
  have step: "(a, b) \<in> ?r' \<Longrightarrow> b \<in> V \<and> (a = x \<or> (a, b) \<in> ?r)" for a b
    using closed x by auto
  have "b \<in> V \<and> (a = x \<or> (a, b) \<in> ?r\<^sup>+)" if "(a, b) \<in> ?r'\<^sup>+" for a b
    using that
  proof induction
    case (base b)
    then show ?case using step by blast
  next
    case (step b c)
    then have "(b, c) \<in> ?r" using x(1) \<open>\<And>a b. (a, b) \<in> ?r' \<Longrightarrow> b \<in> V \<and> (a = x \<or> (a, b) \<in> ?r)\<close> by blast
    then show ?case using step.IH by (auto intro: trancl_into_trancl)
  qed
  then show ?thesis using acyc x(1) unfolding acyclic_def by blast
qed

definition explored :: "'a list \<Rightarrow> ('a \<Rightarrow> 'a list) \<Rightarrow> 'a set \<Rightarrow> bool" where
  "explored keys succ V \<longleftrightarrow> edges_of keys succ `` V \<subseteq> V \<and> acyclic (edges_of keys succ \<inter> V \<times> V)"

lemma explored_extend:
  "explored keys succ V \<Longrightarrow> x \<notin> V \<Longrightarrow> set (if x \<in> set keys then succ x else []) \<subseteq> V \<Longrightarrow> explored keys succ (insert x V)"
proof -
  assume V: "explored keys succ V" "x \<notin> V" "set (if x \<in> set keys then succ x else []) \<subseteq> V"
  then have "edges_of keys succ `` {x} \<subseteq> V" by (cases "x \<in> set keys") (auto simp: edges_of_iff)
  then show ?thesis
    using V(1,2) acyclic_extend [of "edges_of keys succ" V x] unfolding explored_def by blast
qed

lemma find_cycle_False:
  "find_cycle keys succ visiting visited todo = (False, V) \<Longrightarrow> explored keys succ (set visited) \<Longrightarrow>
     set visited \<inter> set visiting = {} \<Longrightarrow>
     explored keys succ (set V) \<and> set V \<inter> set visiting = {} \<and> set visited \<subseteq> set V \<and> set todo \<subseteq> set V"
proof (induction keys succ visiting visited todo arbitrary: V rule: find_cycle.induct)
  case (2 keys succ visiting visited x xs)
  show ?case
  proof (cases "x \<in> set visited")
    case True
    then show ?thesis using 2 by (auto split: if_splits)
  next
    case new: False
    let ?r = "find_cycle keys succ (x # visiting) visited (if x \<in> set keys then succ x else [])"
    have nv: "x \<notin> set visiting" and r: "\<not> fst ?r" and rest: "find_cycle keys succ visiting (x # snd ?r) xs = (False, V)"
      using 2(4) new by (auto simp: Let_def split: if_splits)
    have "?r = (False, snd ?r)" using r by (cases ?r) simp
    from 2(2) [OF nv new this 2(5)] 2(6) new
    have inner: "explored keys succ (set (snd ?r))" "set (snd ?r) \<inter> set (x # visiting) = {}"
      "set visited \<subseteq> set (snd ?r)" "set (if x \<in> set keys then succ x else []) \<subseteq> set (snd ?r)"
      by auto
    then have "explored keys succ (set (x # snd ?r))"
      using explored_extend [of keys succ "set (snd ?r)" x] by auto
    from 2(3) [OF nv new refl r rest this] inner nv show ?thesis by auto
  qed
qed simp

lemma find_cycle_True:
  "fst (find_cycle keys succ visiting visited todo) \<Longrightarrow>
     (\<And>y t. y \<in> set visiting \<Longrightarrow> t \<in> set todo \<Longrightarrow> (y, t) \<in> (edges_of keys succ)\<^sup>+) \<Longrightarrow>
     \<not> acyclic (edges_of keys succ)"
proof (induction keys succ visiting visited todo rule: find_cycle.induct)
  case (2 keys succ visiting visited x xs)
  let ?r = "find_cycle keys succ (x # visiting) visited (if x \<in> set keys then succ x else [])"
  consider "x \<in> set visiting" | "x \<in> set visited" "x \<notin> set visiting"
    | "x \<notin> set visiting" "x \<notin> set visited" "fst ?r"
    | "x \<notin> set visiting" "x \<notin> set visited" "\<not> fst ?r" by blast
  then show ?case
  proof cases
    case 1
    then show ?thesis using "2.prems"(2) [of x x] by (auto simp: acyclic_def)
  next
    case 2
    then show ?thesis using "2.IH"(1) "2.prems" by (auto simp: Let_def split: if_splits)
  next
    case 3
    have "(y, t) \<in> (edges_of keys succ)\<^sup>+"
      if "y \<in> set (x # visiting)" "t \<in> set (if x \<in> set keys then succ x else [])" for y t
    proof -
      have e: "(x, t) \<in> edges_of keys succ" using that(2) by (auto simp: edges_of_iff split: if_splits)
      show ?thesis using that(1) "2.prems"(2) [of y x] e by (auto intro: trancl_into_trancl)
    qed
    then show ?thesis using "2.IH"(2) [OF 3] by blast
  next
    case 4
    then show ?thesis using "2.IH"(3) [OF 4(1,2) refl 4(3)] "2.prems" by (auto simp: Let_def split: if_splits)
  qed
qed simp

lemma find_cycle_correct:
  assumes "edges_of keys succ `` set keys \<subseteq> set keys"
  shows "fst (find_cycle keys succ [] [] keys) \<longleftrightarrow> \<not> acyclic (edges_of keys succ)"
proof
  assume "fst (find_cycle keys succ [] [] keys)"
  from find_cycle_True [OF this] show "\<not> acyclic (edges_of keys succ)" by simp
next
  assume cyc: "\<not> acyclic (edges_of keys succ)"
  show "fst (find_cycle keys succ [] [] keys)"
  proof (rule ccontr)
    assume "\<not> fst (find_cycle keys succ [] [] keys)"
    then obtain V where r: "find_cycle keys succ [] [] keys = (False, V)"
      by (cases "find_cycle keys succ [] [] keys") auto
    have "explored keys succ (set [])" by (simp add: explored_def acyclic_def)
    from find_cycle_False [OF r this] have V: "explored keys succ (set V)" "set keys \<subseteq> set V" by simp_all
    have "edges_of keys succ \<subseteq> set keys \<times> set keys"
      using assms by (auto simp: edges_of_def)
    then have "edges_of keys succ = edges_of keys succ \<inter> set V \<times> set V"
      using V(2) by blast
    with V(1) cyc show False unfolding explored_def by metis
  qed
qed

lemma visit_all_sound:
  "y \<in> set (visit_all keys succ reached todo) \<Longrightarrow> y \<in> set reached \<or> (\<exists>x\<in>set todo. (x, y) \<in> (edges_of keys succ)\<^sup>*)"
proof (induction keys succ reached todo rule: visit_all.induct)
  case (2 keys succ reached x xs)
  show ?case
  proof (cases "x \<in> set reached")
    case True
    then show ?thesis using 2 by auto
  next
    case False
    then have "y \<in> set (visit_all keys succ (x # reached) ((if x \<in> set keys then succ x else []) @ xs))"
      using "2.prems" by simp
    from "2.IH"(2) [OF False this]
    consider "y = x" | "y \<in> set reached" | z where "z \<in> set (if x \<in> set keys then succ x else [])" "(z, y) \<in> (edges_of keys succ)\<^sup>*"
      | z where "z \<in> set xs" "(z, y) \<in> (edges_of keys succ)\<^sup>*" by auto
    then show ?thesis
    proof cases
      case (3 z)
      then have "(x, z) \<in> edges_of keys succ" by (auto simp: edges_of_iff split: if_splits)
      then show ?thesis using 3(2) by (auto intro: converse_rtrancl_into_rtrancl)
    qed auto
  qed
qed simp

lemma visit_all_closed:
  "edges_of keys succ `` set reached \<subseteq> set reached \<union> set todo \<Longrightarrow>
     (let R = set (visit_all keys succ reached todo) in edges_of keys succ `` R \<subseteq> R \<and> set reached \<subseteq> R \<and> set todo \<subseteq> R)"
proof (induction keys succ reached todo rule: visit_all.induct)
  case (2 keys succ reached x xs)
  show ?case
  proof (cases "x \<in> set reached")
    case True
    then have "edges_of keys succ `` set reached \<subseteq> set reached \<union> set xs" using "2.prems" by auto
    from "2.IH"(1) [OF True this] True show ?thesis by (auto simp: Let_def)
  next
    case False
    have "edges_of keys succ `` set (x # reached) \<subseteq> set (x # reached) \<union> set ((if x \<in> set keys then succ x else []) @ xs)"
      using "2.prems" by (auto simp: edges_of_iff)
    from "2.IH"(2) [OF False this] False show ?thesis by (auto simp: Let_def)
  qed
qed (simp add: Let_def)

lemma visit_all_correct:
  "set (visit_all keys succ [] [x]) = (edges_of keys succ)\<^sup>* `` {x}"
proof
  show "set (visit_all keys succ [] [x]) \<subseteq> (edges_of keys succ)\<^sup>* `` {x}"
    using visit_all_sound [of _ keys succ "[]" "[x]"] by auto
  have c: "edges_of keys succ `` set (visit_all keys succ [] [x]) \<subseteq> set (visit_all keys succ [] [x])"
    and x: "x \<in> set (visit_all keys succ [] [x])"
    using visit_all_closed [of keys succ "[]" "[x]"] by (simp_all add: Let_def)
  show "(edges_of keys succ)\<^sup>* `` {x} \<subseteq> set (visit_all keys succ [] [x])"
  proof clarify
    fix y
    assume "(x, y) \<in> (edges_of keys succ)\<^sup>*"
    then show "y \<in> set (visit_all keys succ [] [x])"
      by induction (use c x in auto)
  qed
qed

definition ends_from :: "'a list \<Rightarrow> ('a \<Rightarrow> bool) \<Rightarrow> ('a \<Rightarrow> 'a list) \<Rightarrow> 'a \<Rightarrow> bool" where
  "ends_from keys ends targets x \<longleftrightarrow>
     (\<exists>y z. (x, y) \<in> {(a, b). b \<in> set (targets a) \<and> b \<in> set keys}\<^sup>* \<and> z \<in> set (targets y) \<and> ends z)"

lemma ends_from_step:
  "t \<in> set (targets x) \<Longrightarrow> ends t \<or> t \<in> set keys \<and> ends_from keys ends targets t \<Longrightarrow> ends_from keys ends targets x"
  unfolding ends_from_def by (blast intro: converse_rtrancl_into_rtrancl)

definition memo_true :: "'a list \<Rightarrow> ('a \<Rightarrow> bool) \<Rightarrow> ('a \<Rightarrow> 'a list) \<Rightarrow> ('a \<times> bool) list \<Rightarrow> bool" where
  "memo_true keys ends targets memo \<longleftrightarrow> (\<forall>x. map_of memo x = Some True \<longrightarrow> ends_from keys ends targets x)"

lemma any_terminal_sound:
  "memo_true keys ends targets memo \<Longrightarrow>
     memo_true keys ends targets (snd (any_terminal keys ends targets stack memo todo)) \<and>
     (fst (any_terminal keys ends targets stack memo todo) \<longrightarrow>
        (\<exists>t\<in>set todo. ends t \<or> t \<in> set keys \<and> ends_from keys ends targets t))"
proof (induction keys ends targets stack memo todo rule: any_terminal.induct)
  case (2 keys ends targets stack memo t ts)
  let ?r = "any_terminal keys ends targets (t # stack) memo (targets t)"
  consider "ends t" | "\<not> ends t" "t \<notin> set keys" | b where "\<not> ends t" "t \<in> set keys" "map_of memo t = Some b"
    | "\<not> ends t" "t \<in> set keys" "map_of memo t = None" "t \<in> set stack"
    | "\<not> ends t" "t \<in> set keys" "map_of memo t = None" "t \<notin> set stack" by (cases "map_of memo t") auto
  then show ?case
  proof cases
    case 1
    then show ?thesis using "2.prems" by simp
  next
    case 2
    then show ?thesis using "2.IH"(1) "2.prems" by simp
  next
    case (3 b)
    have n: "\<not> t \<notin> set keys" using 3 by simp
    show ?thesis
    proof (cases b)
      case True
      then show ?thesis using 3 "2.prems" by (auto simp: memo_true_def)
    next
      case False
      then show ?thesis using "2.IH"(5) [OF 3(1) n 3(3) False "2.prems"] 3 by auto
    qed
  next
    case 4
    then show ?thesis using "2.IH"(2) [OF 4(1) _ 4(3,4)] "2.prems" by auto
  next
    case 5
    have n: "\<not> t \<notin> set keys" using 5 by simp
    note inner = "2.IH"(3) [OF 5(1) n 5(3,4) "2.prems"]
    have m: "memo_true keys ends targets ((t, fst ?r) # snd ?r)"
      using inner ends_from_step [of _ targets t ends keys] by (auto simp: memo_true_def)
    show ?thesis
    proof (cases "fst ?r")
      case True
      then have "ends_from keys ends targets t"
        using inner ends_from_step [of _ targets t ends keys] by blast
      then show ?thesis using 5 True m by (simp add: Let_def)
    next
      case False
      then show ?thesis using "2.IH"(4) [OF 5(1) n 5(3,4) refl refl False m] 5 by (auto simp: Let_def)
    qed
  qed
qed simp

lemma without_terminal_sound:
  "without_terminal keys ends targets memo xs = [] \<Longrightarrow> memo_true keys ends targets memo \<Longrightarrow> x \<in> set xs \<Longrightarrow>
     ends_from keys ends targets x"
proof (induction xs arbitrary: memo)
  case (Cons y ys)
  let ?r = "reachesTerminal keys ends targets memo y"
  have ok: "fst ?r" and rest: "without_terminal keys ends targets (snd ?r) ys = []"
    using Cons.prems(1) by (auto simp: Let_def split: if_splits)
  have "ends_from keys ends targets y \<and> memo_true keys ends targets (snd ?r)"
  proof (cases "map_of memo y")
    case None
    let ?a = "any_terminal keys ends targets [y] memo (targets y)"
    have "fst ?a" using ok None by (simp add: reachesTerminal_def Let_def)
    then have "ends_from keys ends targets y"
      using any_terminal_sound [OF Cons.prems(2), of "[y]" "targets y"] ends_from_step [of _ targets y ends keys] by blast
    then show ?thesis
      using None any_terminal_sound [OF Cons.prems(2), of "[y]" "targets y"]
      by (auto simp: reachesTerminal_def Let_def memo_true_def)
  next
    case (Some b)
    then show ?thesis using ok Cons.prems(2) by (auto simp: reachesTerminal_def memo_true_def)
  qed
  then show ?case using Cons.IH [OF rest] Cons.prems(3) by auto
qed simp

end
