(* ===== verification/PlanDraft.thy ===== *)
theory PlanDraft
  imports WorkflowJson JsText
begin

text \<open>
  Plans before dispatch, the pure part: what is read of the brain's answer, the gate, the brief and the identifier it carries
  (\<^verbatim>\<open>src/src/plans/plan.ts\<close>), and the paths where a mistake costs the most (\<^verbatim>\<open>src/src/plans/hotspots.ts\<close>). Text is measured and
  clipped in UTF-16 units, so it is a list of 16-bit words. The regular expressions are written out as searches.
\<close>

section \<open>Plans\<close>

datatype plan_risk = LowRisk | MediumRisk | HighRisk
datatype plan_size = TinySize | SmallSize | LargeSize
datatype task_class = DependencyBump | CopyChange | TestAddition | Bugfix | Feature | Refactor | Infra
datatype decision_source = FromPlan | MidRun

definition TASK_CLASSES :: "(string \<times> task_class) list" where
  "TASK_CLASSES = [(''dependency-bump'', DependencyBump), (''copy-change'', CopyChange), (''test-addition'', TestAddition),
     (''bugfix'', Bugfix), (''feature'', Feature), (''refactor'', Refactor), (''infra'', Infra)]"

record plan_decision =
  dc_question :: js_string
  dc_options :: "js_string list"
  dc_recommended :: js_string
  dc_why :: js_string
  dc_answer :: "js_string option"
  dc_source :: "decision_source option"

record plan_draft =
  pl_goal :: js_string
  pl_decisions :: "plan_decision list"
  pl_touches :: "js_string list"
  pl_acceptance :: "js_string list"
  pl_wontDo :: "js_string list"
  pl_risk :: plan_risk
  pl_size :: plan_size
  pl_taskClass :: task_class

datatype plan_status = PProposed | PApproved | PInProgress | PDone | PDropped
datatype plan_source = FromTask | FromTicket | FromAgent | FromBuild
datatype plan_mode = OneShot | Interactive
datatype gate_kind = Inline | NeedsApproval

text \<open>The payload of a launch is opaque.\<close>

record plan_launch =
  la_kind :: string
  la_payload :: json
  la_request :: "js_string option"

record plan_data = plan_draft +
  pl_planId :: js_string
  pl_request :: js_string
  pl_label :: "string option"
  pl_dir :: string
  pl_source :: plan_source
  pl_gate :: gate_kind
  pl_gateWhy :: "js_string list"
  pl_approvedBy :: "string option"
  pl_approvedAt :: "int option"
  pl_sessionId :: "string option"
  pl_ptyId :: "nat option"
  pl_startedAt :: "int option"
  pl_endedAt :: "int option"
  pl_baseHead :: "string option"
  pl_commits :: "(string \<times> string) list option"
  pl_sharedAt :: "int option"
  pl_approvers :: "string list option"
  pl_mode :: "plan_mode option"
  pl_ticketId :: "string option"
  pl_launch :: "plan_launch option"
  pl_launchedAt :: "int option"
  pl_doneBecause :: "string option"

section \<open>The answer of the brain\<close>

definition str :: "json option \<Rightarrow> nat \<Rightarrow> js_string" where
  "str v n = (case v of Some (JStr s) \<Rightarrow> clip_js (oneLine (js s)) n | _ \<Rightarrow> [])"

definition strList :: "json option \<Rightarrow> nat \<Rightarrow> nat \<Rightarrow> js_string list" where
  "strList v n each = (case v of Some (JArr xs) \<Rightarrow> take n (filter (\<lambda>s. s \<noteq> []) (map (\<lambda>x. str (Some x) each) xs)) | _ \<Rightarrow> [])"

definition decision_draft :: "json \<Rightarrow> plan_decision option" where
  "decision_draft d =
     (let question = str (field_of (Some d) ''question'') 300;
          options = strList (field_of (Some d) ''options'') 5 160;
          recommended = str (field_of (Some d) ''recommended'') 160
      in if question = [] then None
         else Some \<lparr>dc_question = question, dc_options = options,
                    dc_recommended = (if recommended = [] \<and> options \<noteq> [] then hd options else recommended),
                    dc_why = str (field_of (Some d) ''why'') 300, dc_answer = None, dc_source = Some FromPlan\<rparr>)"

definition risk_of :: "json option \<Rightarrow> plan_risk" where
  "risk_of v = (if v = Some (JStr ''low'') then LowRisk else if v = Some (JStr ''high'') then HighRisk else MediumRisk)"

definition size_of :: "json option \<Rightarrow> plan_size" where
  "size_of v = (if v = Some (JStr ''tiny'') then TinySize else if v = Some (JStr ''large'') then LargeSize else SmallSize)"

definition task_class_of :: "json option \<Rightarrow> task_class" where
  "task_class_of v = (case v of Some (JStr s) \<Rightarrow> (case map_of TASK_CLASSES s of Some c \<Rightarrow> c | None \<Rightarrow> Feature) | _ \<Rightarrow> Feature)"

definition validatePlan :: "json \<Rightarrow> plan_draft option" where
  "validatePlan v =
     (case v of
        JObj _ \<Rightarrow>
          (let o_goal = str (field_of (Some v) ''goal'') 400
           in if o_goal = [] then None
              else Some \<lparr>pl_goal = o_goal,
                pl_decisions = take 6 (List.map_filter decision_draft (array_or_empty (field_of (Some v) ''decisions''))),
                pl_touches = strList (field_of (Some v) ''touches'') 20 200,
                pl_acceptance = strList (field_of (Some v) ''acceptance'') 8 300,
                pl_wontDo = strList (field_of (Some v) ''wontDo'') 8 200,
                pl_risk = risk_of (field_of (Some v) ''risk''), pl_size = size_of (field_of (Some v) ''size''),
                pl_taskClass = task_class_of (field_of (Some v) ''taskClass'')\<rparr>)
      | _ \<Rightarrow> None)"

section \<open>Where a mistake costs the most\<close>

text \<open>
  The expressions of \<^verbatim>\<open>hotspots.ts\<close> look at the character before a word (\<open>None\<close> at the start) and the text that follows it.
  \<open>anywhere\<close> tries every place; the flag \<^verbatim>\<open>i\<close> is \<open>fold_case\<close>.
\<close>

fun anywhere :: "(16 word option \<Rightarrow> js_string \<Rightarrow> bool) \<Rightarrow> 16 word option \<Rightarrow> js_string \<Rightarrow> bool" where
  "anywhere Q prev [] = Q prev []"
| "anywhere Q prev (c # s) = (Q prev (c # s) \<or> anywhere Q (Some c) s)"

definition begins :: "string \<Rightarrow> js_string \<Rightarrow> bool" where
  "begins w s \<longleftrightarrow> take (length w) s = js w"

definition starts_after :: "string \<Rightarrow> 16 word option \<Rightarrow> bool" where
  "starts_after seps prev \<longleftrightarrow> (case prev of None \<Rightarrow> True | Some c \<Rightarrow> c \<in> set (js seps))"

definition stops_at :: "string \<Rightarrow> js_string \<Rightarrow> bool" where
  "stops_at seps rest \<longleftrightarrow> (case rest of [] \<Rightarrow> True | c # _ \<Rightarrow> c \<in> set (js seps))"

definition word_of :: "string list \<Rightarrow> (js_string \<Rightarrow> bool) \<Rightarrow> js_string \<Rightarrow> bool" where
  "word_of ws follow s \<longleftrightarrow> list_ex (\<lambda>w. begins w s \<and> follow (drop (length w) s)) ws"

definition ends_in :: "string list \<Rightarrow> js_string \<Rightarrow> bool" where
  "ends_in ws s \<longleftrightarrow> list_ex (\<lambda>w. length w \<le> length s \<and> drop (length s - length w) s = js w) ws"

definition AUTH_WORDS :: "string list" where
  "AUTH_WORDS = [''auth'', ''authn'', ''authz'', ''oauth'', ''login'', ''logout'', ''signin'', ''signup'', ''session'', ''sessions'',
     ''password'', ''passwd'', ''credential'', ''credentials'', ''secret'', ''secrets'', ''token'', ''tokens'', ''permission'',
     ''permissions'', ''rbac'', ''acl'', ''sso'', ''saml'', ''jwt'']"

definition MONEY_WORDS :: "string list" where
  "MONEY_WORDS = [''billing'', ''payment'', ''payments'', ''stripe'', ''invoice'', ''invoices'', ''pricing'', ''price'', ''prices'',
     ''checkout'', ''subscription'', ''subscriptions'', ''wallet'', ''refund'', ''refunds'', ''payout'', ''payouts'', ''money'',
     ''charge'', ''charges'']"

definition DATA_WORDS :: "string list" where
  "DATA_WORDS = [''schema'', ''schemas'', ''db'', ''database'', ''model'', ''models'', ''prisma'', ''seed'', ''seeds'']"

definition is_digit_unit :: "16 word \<Rightarrow> bool" where
  "is_digit_unit c \<longleftrightarrow> 48 \<le> c \<and> c \<le> 57"

text \<open>\<^verbatim>\<open>\d{3,}[_-][^/]*\.sql$\<close> at a place\<close>

definition numbered_sql :: "js_string \<Rightarrow> bool" where
  "numbered_sql s \<longleftrightarrow>
     (let ds = takeWhile is_digit_unit s; rest = dropWhile is_digit_unit s
      in length ds \<ge> 3 \<and> rest \<noteq> [] \<and> hd rest \<in> set (js ''_-'') \<and> 47 \<notin> set (tl rest) \<and> ends_in [''.sql''] (tl rest))"

definition FORCED_HIGH :: "(string \<times> (16 word option \<Rightarrow> js_string \<Rightarrow> bool)) list" where
  "FORCED_HIGH =
     [(''auth'', \<lambda>prev s. starts_after ''/._-'' prev \<and> word_of AUTH_WORDS (\<lambda>r. stops_at ''/._-'' r \<or> r = js ''s'') s),
      (''migration'', \<lambda>prev s. starts_after ''/'' prev \<and> word_of [''migration'', ''migrations'', ''migrate''] (stops_at ''/'') s
         \<or> begins ''.migration.'' s \<or> starts_after ''/'' prev \<and> numbered_sql s),
      (''data'', \<lambda>prev s. starts_after ''/'' prev \<and> word_of DATA_WORDS (stops_at ''/.'') s
         \<or> s = js ''.sql'' \<or> s = js ''.prisma'' \<or> starts_after ''/'' prev \<and> (s = js ''ledger.rs'' \<or> s = js ''ledger.ts'')),
      (''money'', \<lambda>prev s. starts_after ''/._-'' prev \<and> word_of MONEY_WORDS (stops_at ''/._-'') s)]"

definition whole_name :: "string list \<Rightarrow> 16 word option \<Rightarrow> js_string \<Rightarrow> bool" where
  "whole_name ws prev s \<longleftrightarrow> starts_after ''/'' prev \<and> list_ex (\<lambda>w. s = js w) ws"

definition name_between :: "string \<Rightarrow> string \<Rightarrow> 16 word option \<Rightarrow> js_string \<Rightarrow> bool" where
  "name_between a z prev s \<longleftrightarrow> starts_after ''/'' prev \<and> begins a s \<and> 47 \<notin> set s \<and> ends_in [z] (drop (length a) s)"

definition SHARED :: "(string \<times> (16 word option \<Rightarrow> js_string \<Rightarrow> bool)) list" where
  "SHARED =
     [(''CI'', \<lambda>prev s. starts_after ''/'' prev \<and> (begins ''.github/'' s \<or> begins ''.gitlab-ci'' s \<or> begins ''.circleci/'' s)),
      (''build config'', \<lambda>prev s. whole_name [''package.json'', ''cargo.toml'', ''vite.config.js'', ''vite.config.ts'', ''dockerfile''] prev s
         \<or> name_between ''tsconfig'' ''.json'' prev s \<or> name_between ''docker-compose'' '''' prev s),
      (''lockfile'', whole_name [''package-lock.json'', ''pnpm-lock.yaml'', ''yarn.lock'', ''cargo.lock'']),
      (''infra'', \<lambda>prev s. starts_after ''/'' prev \<and> word_of [''terraform'', ''infra'', ''k8s'', ''helm'', ''deploy'', ''deployment''] (stops_at ''/'') s)]"

definition layer_of :: "(string \<times> (16 word option \<Rightarrow> js_string \<Rightarrow> bool)) list \<Rightarrow> js_string \<Rightarrow> string option" where
  "layer_of table p = map_option fst (find (\<lambda>(why, Q). anywhere Q None (map fold_case p)) table)"

definition forcedHighReason :: "js_string \<Rightarrow> string option" where
  "forcedHighReason path = (let p = js_trim path in if p = [] then None else layer_of FORCED_HIGH p)"

definition hotspotReason :: "js_string \<Rightarrow> string option" where
  "hotspotReason path = (case forcedHighReason path of Some why \<Rightarrow> Some why | None \<Rightarrow> layer_of SHARED (js_trim path))"

section \<open>The gate\<close>

text \<open>A \<^verbatim>\<open>Set\<close> keeps the first of equal elements.\<close>

definition distinct_of :: "'a list \<Rightarrow> 'a list" where
  "distinct_of xs = rev (remdups (rev xs))"

definition risk_name :: "plan_risk \<Rightarrow> string" where
  "risk_name r = (case r of LowRisk \<Rightarrow> ''low'' | MediumRisk \<Rightarrow> ''medium'' | HighRisk \<Rightarrow> ''high'')"

definition gate_reasons :: "'a plan_draft_scheme \<Rightarrow> js_string list" where
  "gate_reasons p =
     (if pl_risk p \<noteq> LowRisk then [js (risk_name (pl_risk p) @ '' risk'')] else [])
     @ (if pl_size p = LargeSize then [js ''large change''] else [])
     @ map (\<lambda>s. js (''touches '' @ s)) (distinct_of (List.map_filter hotspotReason (pl_touches p)))"

definition planGate :: "'a plan_draft_scheme \<Rightarrow> gate_kind \<times> js_string list" where
  "planGate p = (let why = gate_reasons p in (if why \<noteq> [] then NeedsApproval else Inline, why))"

definition settleWithRecommendations :: "plan_decision list \<Rightarrow> plan_decision list" where
  "settleWithRecommendations ds =
     map (\<lambda>d. if dc_answer d \<noteq> None \<and> dc_answer d \<noteq> Some [] then d
              else d\<lparr>dc_answer := (if dc_recommended d = [] then None else Some (dc_recommended d))\<rparr>) ds"

section \<open>The brief\<close>

definition settled_decisions :: "plan_decision list \<Rightarrow> (js_string \<times> js_string) list" where
  "settled_decisions ds = List.map_filter (\<lambda>d. case dc_answer d of Some (c # cs) \<Rightarrow> Some (dc_question d, c # cs) | _ \<Rightarrow> None) ds"

definition brief_mark :: "gate_kind \<Rightarrow> js_string \<Rightarrow> js_string" where
  "brief_mark g i = js ''[Canopy plan '' @ i @ (if g = NeedsApproval then js '', approved by the user'' else []) @ js '']''"

definition ASK_FIRST :: string where
  "ASK_FIRST = ''If you hit a consequential choice this plan does not settle, call canopy_ask_user with the question and the options instead of guessing.''"

definition brief_parts :: "plan_data \<Rightarrow> js_string list" where
  "brief_parts p =
     (let ds = settled_decisions (pl_decisions p) in
      [brief_mark (pl_gate p) (pl_planId p), js ''Goal: '' @ pl_goal p]
      @ (if ds \<noteq> [] then [js ''Decisions already made (follow them): '' @ joined (js ''; '') (map (\<lambda>(q, a). q @ [32, 0x2192, 32] @ a) ds) @ js ''.''] else [])
      @ (if pl_acceptance p \<noteq> [] then [js ''Acceptance checks (run or verify each, and report the result of every one): ''
           @ joined [32] (map (\<lambda>(i, a). js (''('' @ show_nat (i + 1) @ '') '') @ a) (enumerate 0 (pl_acceptance p)))] else [])
      @ (if pl_wontDo p \<noteq> [] then [js ''Out of scope, do not do: '' @ joined (js ''; '') (pl_wontDo p) @ js ''.''] else [])
      @ (if pl_touches p \<noteq> [] then [js ''Expected to touch: '' @ joined (js '', '') (pl_touches p) @ js ''.''] else [])
      @ [js ASK_FIRST, js ''Task: '' @ pl_request p])"

definition planBrief :: "plan_data \<Rightarrow> js_string" where
  "planBrief p = oneLine (joined [32] (brief_parts p))"

section \<open>The identifier a brief carries\<close>

definition id_unit :: "16 word \<Rightarrow> bool" where
  "id_unit c \<longleftrightarrow> 97 \<le> c \<and> c \<le> 122 \<or> 48 \<le> c \<and> c \<le> 57"

text \<open>\<^verbatim>\<open>pl-[a-z0-9]{1,16}-[a-z0-9]{1,16}\<close> at the start of the text\<close>

definition plan_id_at :: "js_string \<Rightarrow> js_string option" where
  "plan_id_at s =
     (let r = drop 3 s; a = takeWhile id_unit (take 16 r); r' = drop (length a) r; b = takeWhile id_unit (take 16 (tl r'))
      in if begins ''pl-'' s \<and> a \<noteq> [] \<and> r' \<noteq> [] \<and> hd r' = 45 \<and> b \<noteq> [] then Some (js ''pl-'' @ a @ [45] @ b) else None)"

definition PLAN_ID :: "js_string \<Rightarrow> bool" where
  "PLAN_ID s \<longleftrightarrow> plan_id_at s = Some s"

fun first_mark :: "js_string \<Rightarrow> js_string option" where
  "first_mark [] = None"
| "first_mark (c # s) =
     (case (if begins ''[Canopy plan '' (c # s) then plan_id_at (drop 13 (c # s)) else None) of
        Some i \<Rightarrow> Some i
      | None \<Rightarrow> first_mark s)"

definition planIdInPrompt :: "js_string option \<Rightarrow> js_string option" where
  "planIdInPrompt prompt = (case prompt of Some p \<Rightarrow> first_mark p | None \<Rightarrow> None)"

section \<open>Every brief names its plan, on one line\<close>

lemma spaces_are_no_id_units: "list_all (\<lambda>c. \<not> id_unit c) [9, 10, 11, 12, 13, 32, 160, 0x1680, 0x2028, 0x2029, 0x202f, 0x205f, 0x3000, 0xfeff]"
  by code_simp

lemma id_unit_not_space:
  assumes "id_unit c"
  shows "\<not> js_space c"
proof
  have "unat c \<le> 122" using assms unfolding id_unit_def word_le_nat_alt by auto
  then have "\<not> 0x2000 \<le> c" unfolding word_le_nat_alt by simp
  moreover assume "js_space c"
  ultimately have "c \<in> set [9, 10, 11, 12, 13, 32, 160, 0x1680, 0x2028, 0x2029, 0x202f, 0x205f, 0x3000, 0xfeff]"
    unfolding js_space_def by simp
  then show False using spaces_are_no_id_units assms unfolding list_all_iff by blast
qed

lemma takeWhile_part: "list_all P a \<Longrightarrow> length a \<le> n \<Longrightarrow> (r = [] \<or> \<not> P (hd r)) \<Longrightarrow> takeWhile P (take n (a @ r)) = a"
proof (induction a arbitrary: n)
  case Nil
  then show ?case by (cases r; cases n) auto
next
  case (Cons x a)
  then show ?case by (cases n) auto
qed

lemma plan_id_at_form:
  assumes "plan_id_at s = Some i"
  shows "\<exists>a b. i = js ''pl-'' @ a @ [45] @ b \<and> list_all id_unit a \<and> list_all id_unit b \<and> a \<noteq> [] \<and> b \<noteq> [] \<and> length a \<le> 16 \<and> length b \<le> 16"
proof -
  define a where "a = takeWhile id_unit (take 16 (drop 3 s))"
  define b where "b = takeWhile id_unit (take 16 (tl (drop (length a) (drop 3 s))))"
  have "i = js ''pl-'' @ a @ [45] @ b \<and> a \<noteq> [] \<and> b \<noteq> []"
    using assms unfolding plan_id_at_def Let_def a_def [symmetric] b_def [symmetric] by (auto split: if_splits)
  moreover have "list_all id_unit (takeWhile id_unit x)" for x by (auto simp: list_all_iff dest: set_takeWhileD)
  moreover have "length (takeWhile id_unit (take 16 x)) \<le> 16" for x
    using length_takeWhile_le [of id_unit "take 16 x"] by simp
  ultimately show ?thesis unfolding a_def b_def by blast
qed

lemma plan_id_at_followed:
  assumes "PLAN_ID i" "\<not> id_unit c"
  shows "plan_id_at (i @ c # r) = Some i"
proof -
  obtain a b where i: "i = js ''pl-'' @ a @ [45] @ b" and al: "list_all id_unit a" "list_all id_unit b" "a \<noteq> []" "b \<noteq> []" "length a \<le> 16" "length b \<le> 16"
    using plan_id_at_form assms(1) unfolding PLAN_ID_def by blast
  have "\<not> id_unit 45" by (simp add: id_unit_def)
  then have "takeWhile id_unit (take 16 (a @ 45 # b @ c # r)) = a" using al by (intro takeWhile_part) simp_all
  moreover have "takeWhile id_unit (take 16 (b @ c # r)) = b" using al assms(2) by (intro takeWhile_part) simp_all
  moreover have l: "length (js ''pl-'') = 3" by (simp add: js_def)
  ultimately show ?thesis using al by (simp add: plan_id_at_def i Let_def begins_def)
qed

lemma mark_eval: "squeeze False (js ''[Canopy plan '') = js ''[Canopy plan ''" "js_space (last (js ''[Canopy plan ''))"
  "js ''[Canopy plan '' \<noteq> []" "hd (js ''[Canopy plan '') = 91" "\<not> js_space 91" "length (js ''[Canopy plan '') = 13"
  "\<not> js_space 44" "\<not> js_space 93" "\<not> id_unit 44" "\<not> id_unit 93"
  by code_simp+

lemma brief_start:
  assumes "PLAN_ID (pl_planId p)"
  shows "\<exists>c z. planBrief p = js ''[Canopy plan '' @ pl_planId p @ c # z \<and> \<not> id_unit c"
proof -
  let ?A = "js ''[Canopy plan ''" and ?i = "pl_planId p"
  have ne: "tl (brief_parts p) \<noteq> []" by (simp add: brief_parts_def Let_def)
  have parts: "brief_parts p = brief_mark (pl_gate p) ?i # tl (brief_parts p)" by (simp add: brief_parts_def Let_def)
  obtain c t where c: "brief_mark (pl_gate p) ?i = ?A @ ?i @ c # t" "\<not> js_space c" "\<not> id_unit c"
  proof (cases "pl_gate p")
    case Inline
    then show ?thesis using that [of 93 "[]"] mark_eval by (simp add: brief_mark_def js_def)
  next
    case NeedsApproval
    then show ?thesis using that [of 44 "js '' approved by the user]''"] mark_eval by (simp add: brief_mark_def js_def)
  qed
  define r where "r = t @ [32] @ joined [32] (tl (brief_parts p))"
  have j: "joined [32] (brief_parts p) = ?A @ ?i @ c # r"
    unfolding r_def using joined_Cons [of "[32]" "brief_mark (pl_gate p) ?i" "tl (brief_parts p)"] ne parts c(1) by simp
  have iu: "list_all (\<lambda>c. \<not> js_space c) ?i" "?i \<noteq> []"
  proof -
    obtain a b where i: "?i = js ''pl-'' @ a @ [45] @ b" "list_all id_unit a" "list_all id_unit b"
      using plan_id_at_form assms unfolding PLAN_ID_def by blast
    have "list_all (\<lambda>c. \<not> js_space c) (js ''pl-'')" "\<not> js_space 45" by code_simp+
    then show "list_all (\<lambda>c. \<not> js_space c) ?i" "?i \<noteq> []"
      using i id_unit_not_space by (auto simp: list_all_iff)
  qed
  then have last: "\<not> js_space (last ?i)" by (auto simp: list_all_iff)
  have "squeeze False (?A @ ?i @ c # r) = ?A @ ?i @ c # squeeze False r"
    using c(2) iu last by (simp add: squeeze_append mark_eval squeeze_word)
  moreover have "\<not> js_space (hd ((?A @ ?i) @ [c]))" using mark_eval by simp
  ultimately obtain z where "planBrief p = (?A @ ?i) @ c # z"
    using js_trim_keeps [of "?A @ ?i" c "squeeze False r"] c(2) by (auto simp: planBrief_def oneLine_def j)
  then show ?thesis using c(3) by auto
qed

text \<open>C33: The identifier of the plan is read back from the brief it was put in, and the brief is one line.\<close>

theorem brief_names_its_plan:
  assumes "PLAN_ID (pl_planId p)"
  shows "planIdInPrompt (Some (planBrief p)) = Some (pl_planId p) \<and> list_all (\<lambda>c. js_space c \<longrightarrow> c = 32) (planBrief p)"
proof -
  obtain c z where b: "planBrief p = js ''[Canopy plan '' @ pl_planId p @ c # z" "\<not> id_unit c" using brief_start [OF assms] by blast
  then obtain s where s: "planBrief p = 91 # s" using mark_eval(3,4) by (cases "js ''[Canopy plan ''") auto
  have "begins ''[Canopy plan '' (planBrief p)" by (simp add: begins_def b(1) js_def)
  moreover have "drop 13 (planBrief p) = pl_planId p @ c # z" by (simp add: b(1) js_def)
  ultimately have "first_mark (planBrief p) = Some (pl_planId p)" using plan_id_at_followed [OF assms b(2)] by (simp add: s)
  moreover have "list_all (\<lambda>c. js_space c \<longrightarrow> c = 32) (planBrief p)"
    using oneLine_units unfolding planBrief_def list_all_iff by blast
  ultimately show ?thesis by (simp add: planIdInPrompt_def)
qed

definition some_plan :: "js_string \<Rightarrow> plan_data" where
  "some_plan i = \<lparr>pl_goal = js ''Fix the menu'', pl_decisions = [], pl_touches = [js ''src/menu.ts''], pl_acceptance = [js ''npm test''], pl_wontDo = [],
     pl_risk = LowRisk, pl_size = TinySize, pl_taskClass = Bugfix, pl_planId = i, pl_request = js ''the menu is [Canopy plan pl-0-0] broken'',
     pl_label = None, pl_dir = ''/r'', pl_source = FromTask, pl_gate = Inline, pl_gateWhy = [], pl_approvedBy = None, pl_approvedAt = None,
     pl_sessionId = None, pl_ptyId = None, pl_startedAt = None, pl_endedAt = None, pl_baseHead = None, pl_commits = None, pl_sharedAt = None,
     pl_approvers = None, pl_mode = None, pl_ticketId = None, pl_launch = None, pl_launchedAt = None, pl_doneBecause = None\<rparr>"

lemma brief_names_its_plan_witness:
  "planIdInPrompt (Some (planBrief (some_plan (js ''pl-m2x-4f'')))) = Some (js ''pl-m2x-4f'')"
proof -
  have "PLAN_ID (pl_planId (some_plan (js ''pl-m2x-4f'')))" by code_simp
  from brief_names_its_plan [OF this] show ?thesis by (simp add: some_plan_def)
qed

section \<open>What is read of an answer\<close>

definition text_ok :: "nat \<Rightarrow> js_string \<Rightarrow> bool" where
  "text_ok n s \<longleftrightarrow> length s \<le> n \<and> list_all (\<lambda>c. js_space c \<longrightarrow> c = 32) s"

definition texts_ok :: "nat \<Rightarrow> nat \<Rightarrow> js_string list \<Rightarrow> bool" where
  "texts_ok n each xs \<longleftrightarrow> length xs \<le> n \<and> list_all (\<lambda>s. text_ok each s \<and> s \<noteq> []) xs"

definition decision_ok :: "plan_decision \<Rightarrow> bool" where
  "decision_ok d \<longleftrightarrow> text_ok 300 (dc_question d) \<and> dc_question d \<noteq> [] \<and> texts_ok 5 160 (dc_options d) \<and> text_ok 160 (dc_recommended d)
     \<and> (dc_options d \<noteq> [] \<longrightarrow> dc_recommended d \<noteq> []) \<and> text_ok 300 (dc_why d) \<and> dc_answer d = None"

definition draft_ok :: "plan_draft \<Rightarrow> bool" where
  "draft_ok d \<longleftrightarrow> text_ok 400 (pl_goal d) \<and> pl_goal d \<noteq> [] \<and> length (pl_decisions d) \<le> 6 \<and> list_all decision_ok (pl_decisions d)
     \<and> texts_ok 20 200 (pl_touches d) \<and> texts_ok 8 300 (pl_acceptance d) \<and> texts_ok 8 200 (pl_wontDo d)"

lemma str_ok: "0 < n \<Longrightarrow> text_ok n (str v n)"
proof -
  have "\<not> js_space 0x2026" by code_simp
  then have "list_all (\<lambda>c. js_space c \<longrightarrow> c = 32) (clip_js (oneLine s) n)" for s
    using oneLine_units [of _ s] in_set_takeD [of _ "n - 1" "oneLine s"] unfolding list_all_iff clip_js_def by (simp split: if_split)
  moreover have "0 < n \<Longrightarrow> length (clip_js s n) \<le> n" for s by (simp add: clip_js_def)
  ultimately show "0 < n \<Longrightarrow> text_ok n (str v n)"
    by (simp add: str_def text_ok_def split: option.split json.split)
qed

lemma strList_ok: "0 < each \<Longrightarrow> texts_ok n each (strList v n each)"
  by (auto simp: texts_ok_def strList_def list_all_iff str_ok split: option.split json.split dest!: in_set_takeD)

lemma decision_draft_ok: "decision_draft j = Some d \<Longrightarrow> decision_ok d"
  using strList_ok [of 160 5 "field_of (Some j) ''options''"] str_ok [of 160 "field_of (Some j) ''recommended''"]
    str_ok [of 300 "field_of (Some j) ''question''"] str_ok [of 300 "field_of (Some j) ''why''"]
  by (cases "strList (field_of (Some j) ''options'') 5 160")
    (auto simp: decision_draft_def decision_ok_def Let_def texts_ok_def split: if_splits)

text \<open>Whatever JSON the brain answers with, a plan that is accepted has a goal, lists of bounded length of non-empty one-line texts,
  a recommendation wherever it has options, and is of low risk only if the answer said so.\<close>

theorem plan_answer_is_typed:
  assumes "validatePlan v = Some d"
  shows "draft_ok d \<and> (pl_risk d = LowRisk \<longrightarrow> field_of (Some v) ''risk'' = Some (JStr ''low''))"
proof -
  let ?ds = "take 6 (List.map_filter decision_draft (array_or_empty (field_of (Some v) ''decisions'')))"
  have "list_all decision_ok ?ds"
    using decision_draft_ok by (auto simp: list_all_iff List.map_filter_def dest!: in_set_takeD)
  moreover have "length ?ds \<le> 6" by simp
  ultimately show ?thesis
    using assms str_ok [of 400] by (auto simp: validatePlan_def Let_def draft_ok_def strList_ok risk_of_def split: json.splits if_splits)
qed

lemma plan_answer_is_typed_witness:
  "\<exists>d. validatePlan (JObj [(''goal'', JStr '' Fix  it ''), (''risk'', JStr ''none''), (''decisions'', JArr [JNull, JObj [(''question'', JStr ''Which?''), (''options'', JArr [JStr ''a''])]])]) = Some d
     \<and> draft_ok d \<and> pl_risk d \<noteq> LowRisk"
proof -
  let ?v = "JObj [(''goal'', JStr '' Fix  it ''), (''risk'', JStr ''none''), (''decisions'', JArr [JNull, JObj [(''question'', JStr ''Which?''), (''options'', JArr [JStr ''a''])]])]"
  have "validatePlan ?v \<noteq> None" by code_simp
  then obtain d where d: "validatePlan ?v = Some d" by blast
  have "field_of (Some ?v) ''risk'' \<noteq> Some (JStr ''low'')" by (simp add: field_of_def as_record_def)
  then show ?thesis using plan_answer_is_typed [OF d] d by blast
qed

end
