(* ===== verification/PlanGate.thy ===== *)
theory PlanGate
  imports PlanDraft
begin

text \<open>
  The dispatch gate of one window, \<^verbatim>\<open>src/src/plans/planGate.ts\<close>. The state is the items on screen, their handlers, the closures
  of the armed plans, and the functions that wait for a call; a step is what a person does, an entry appended to the ledger, or
  one call that returns, in any order and with any result. A handler is what it can do; the closure variables it reads are in the
  tables by dispatch.
\<close>

section \<open>Dispatching\<close>

record dispatch_request =
  rq_request :: js_string
  rq_dir :: string
  rq_label :: "string option"
  rq_source :: plan_source
  rq_mode :: "plan_mode option"
  rq_ticketId :: "string option"
  rq_resume :: "(string \<times> json) option"

text \<open>A plan's entry of the ledger, as far as it is read here.\<close>

record plan_entry =
  pe_root :: string
  pe_status :: plan_status
  pe_data :: plan_data

datatype gate_item =
    PlanningItem dispatch_request
  | ApprovalItem dispatch_request plan_entry bool
  | InlineItem dispatch_request plan_entry
  | NoteItem dispatch_request string

text \<open>What can be done about an item: skip the planning; approve, drop, and stop watching the ledger; nothing.\<close>

datatype handler = MaySkip | MayDecide | NoAction

text \<open>The closure of \<^verbatim>\<open>armApproval\<close>\<close>

record armed_plan =
  ar_req :: dispatch_request
  ar_entry :: plan_entry
  ar_launched :: bool
  ar_watching :: bool

text \<open>A function that waits for a call to return.\<close>

datatype flow =
    Gathering dispatch_request
  | Asking dispatch_request
  | PersistingInline dispatch_request plan_data
  | ExpectingInline dispatch_request plan_data
  | PersistingWaiting dispatch_request plan_data
  | Approving plan_data
  | GoExpecting plan_data
  | GoRevising plan_data
  | GoLaunching js_string
  | Dropping
  | Launching
  | Restoring "string list" "js_string list" "string \<Rightarrow> bool"
  | ResumeExpecting plan_data js_string
  | ResumeRevising plan_data js_string

text \<open>
  What a call returns. \<open>Plain\<close> is a call whose result is not used, or one that threw where that is caught. The brain's answer
  comes with the identifier a new plan draws.
\<close>

datatype reply =
    Plain
  | Brain js_string "string + plan_draft option"
  | Entry "plan_entry option"
  | Rows "plan_entry list" "js_string list"

record plan_edits =
  ped_decisions :: "plan_decision list"
  ped_acceptance :: "js_string list"

text \<open>
  \<open>gw_settled\<close> are the dispatches whose flag \<^verbatim>\<open>settled\<close> is set, \<open>gw_log\<close> the launches, oldest first: the dispatch,
  the brief and the plan; \<open>gw_unplanned\<close> are those with planning turned off. \<open>gw_ids\<close> and \<open>gw_dropped\<close> are the dispatches there were and those dropped.
\<close>

record gate_window =
  gw_items :: "(nat \<times> gate_item) list"
  gw_handlers :: "(nat \<times> handler) list"
  gw_armed :: "js_string list"
  gw_seq :: nat
  gw_settled :: "nat list"
  gw_arms :: "(nat \<times> armed_plan) list"
  gw_flows :: "(nat \<times> flow) list"
  gw_log :: "(nat \<times> js_string \<times> js_string option) list"
  gw_unplanned :: "js_string list"
  gw_ids :: "nat list"
  gw_dropped :: "nat list"

definition new_window :: gate_window where
  "new_window = \<lparr>gw_items = [], gw_handlers = [], gw_armed = [], gw_seq = 0, gw_settled = [], gw_arms = [], gw_flows = [], gw_log = [],
     gw_unplanned = [], gw_ids = [], gw_dropped = []\<rparr>"

definition put :: "nat \<Rightarrow> gate_item \<Rightarrow> gate_window \<Rightarrow> gate_window" where
  "put i x w = w\<lparr>gw_items := AList.update i x (gw_items w)\<rparr>"

definition set_handler :: "nat \<Rightarrow> handler \<Rightarrow> gate_window \<Rightarrow> gate_window" where
  "set_handler i h w = w\<lparr>gw_handlers := AList.update i h (gw_handlers w)\<rparr>"

definition await :: "nat \<Rightarrow> flow \<Rightarrow> gate_window \<Rightarrow> gate_window" where
  "await i f w = w\<lparr>gw_flows := gw_flows w @ [(i, f)]\<rparr>"

definition settle :: "nat \<Rightarrow> gate_window \<Rightarrow> gate_window" where
  "settle i w = w\<lparr>gw_settled := i # gw_settled w\<rparr>"

definition start :: "nat \<Rightarrow> js_string \<Rightarrow> js_string option \<Rightarrow> gate_window \<Rightarrow> gate_window" where
  "start i brief planId w = w\<lparr>gw_log := gw_log w @ [(i, brief, planId)]\<rparr>"

definition map_arm :: "nat \<Rightarrow> (armed_plan \<Rightarrow> armed_plan) \<Rightarrow> gate_window \<Rightarrow> gate_window" where
  "map_arm i f w = (case map_of (gw_arms w) i of None \<Rightarrow> w | Some a \<Rightarrow> w\<lparr>gw_arms := AList.update i (f a) (gw_arms w)\<rparr>)"

definition remove_item :: "nat \<Rightarrow> gate_window \<Rightarrow> gate_window" where
  "remove_item i w =
     (let w1 = (if map_of (gw_handlers w) i = Some MayDecide then map_arm i (\<lambda>a. a\<lparr>ar_watching := False\<rparr>) w else w)
      in w1\<lparr>gw_handlers := AList.delete i (gw_handlers w1), gw_items := AList.delete i (gw_items w1)\<rparr>)"

definition setPlanWaiting :: "nat \<Rightarrow> bool \<Rightarrow> gate_window \<Rightarrow> gate_window" where
  "setPlanWaiting i b w = (case map_of (gw_items w) i of Some (ApprovalItem r e _) \<Rightarrow> put i (ApprovalItem r e b) w | _ \<Rightarrow> w)"

definition armApproval :: "nat \<Rightarrow> dispatch_request \<Rightarrow> plan_entry \<Rightarrow> bool \<Rightarrow> gate_window \<Rightarrow> gate_window" where
  "armApproval i req entry waiting w =
     put i (ApprovalItem req entry waiting)
       (set_handler i MayDecide
         (w\<lparr>gw_armed := (if pl_planId (pe_data entry) \<in> set (gw_armed w) then gw_armed w else gw_armed w @ [pl_planId (pe_data entry)]),
            gw_arms := AList.update i \<lparr>ar_req = req, ar_entry = entry, ar_launched = False, ar_watching = True\<rparr> (gw_arms w)\<rparr>))"

definition go :: "nat \<Rightarrow> plan_data \<Rightarrow> gate_window \<Rightarrow> gate_window" where
  "go i d w =
     (case map_of (gw_arms w) i of
        None \<Rightarrow> w
      | Some a \<Rightarrow> (if ar_launched a then w
                  else await i (GoExpecting d) (remove_item i (map_arm i (\<lambda>a. a\<lparr>ar_launched := True\<rparr>) w))))"

text \<open>\<^verbatim>\<open>sameRepo\<close> of the ledger's subscriptions\<close>

definition norm_path :: "string \<Rightarrow> string" where
  "norm_path p = rev (dropWhile (\<lambda>c. c = CHR 0x5C \<or> c = CHR ''/'') (rev p))"

definition under :: "string \<Rightarrow> string \<Rightarrow> bool" where
  "under a b \<longleftrightarrow> take (Suc (length b)) a = b @ ''/''"

definition sameRepo :: "string \<Rightarrow> string \<Rightarrow> bool" where
  "sameRepo subscribed filed =
     (let a = norm_path subscribed; b = norm_path filed in a = b \<or> under a b \<or> under b a \<or> subscribed = ''*'')"

definition watched_root :: "armed_plan \<Rightarrow> string" where
  "watched_root a = (if pe_root (ar_entry a) = [] then rq_dir (ar_req a) else pe_root (ar_entry a))"

definition hears :: "armed_plan \<Rightarrow> plan_entry \<Rightarrow> bool" where
  "hears a e \<longleftrightarrow> ar_watching a \<and> sameRepo (watched_root a) (pe_root e) \<and> pl_planId (pe_data e) = pl_planId (pe_data (ar_entry a))
     \<and> pe_status e = PApproved"

definition hear :: "plan_entry \<Rightarrow> nat \<Rightarrow> gate_window \<Rightarrow> gate_window" where
  "hear e i w = (case map_of (gw_arms w) i of Some a \<Rightarrow> if hears a e then go i (pe_data e) w else w | None \<Rightarrow> w)"

definition ledger_appended :: "plan_entry \<Rightarrow> gate_window \<Rightarrow> gate_window" where
  "ledger_appended e w = fold (hear e) (map fst (gw_arms w)) w"

definition skipPlanning :: "nat \<Rightarrow> gate_window \<Rightarrow> gate_window" where
  "skipPlanning i w =
     (case map_of (gw_items w) i of
        Some (PlanningItem req) \<Rightarrow>
          (if map_of (gw_handlers w) i = Some MaySkip \<and> i \<notin> set (gw_settled w)
           then await i Launching (start i (rq_request req) None (remove_item i (settle i w))) else w)
      | _ \<Rightarrow> w)"

definition approvePlan :: "nat \<Rightarrow> plan_edits \<Rightarrow> int \<Rightarrow> gate_window \<Rightarrow> gate_window" where
  "approvePlan i ed now w =
     (case map_of (gw_arms w) i of
        Some a \<Rightarrow>
          (if map_of (gw_handlers w) i = Some MayDecide
           then await i (Approving ((pe_data (ar_entry a))\<lparr>pl_decisions := ped_decisions ed, pl_acceptance := ped_acceptance ed,
                  pl_approvedBy := Some ''you'', pl_approvedAt := Some now\<rparr>)) w
           else w)
      | None \<Rightarrow> w)"

definition dropPlan :: "nat \<Rightarrow> gate_window \<Rightarrow> gate_window" where
  "dropPlan i w =
     (case map_of (gw_arms w) i of
        Some a \<Rightarrow>
          (if map_of (gw_handlers w) i = Some MayDecide \<and> \<not> ar_launched a
           then (let w1 = remove_item i (map_arm i (\<lambda>a. a\<lparr>ar_launched := True\<rparr>) w)
                 in await i Dropping (w1\<lparr>gw_armed := removeAll (pl_planId (pe_data (ar_entry a))) (gw_armed w1), gw_dropped := i # gw_dropped w1\<rparr>))
           else w)
      | None \<Rightarrow> w)"

text \<open>The host dismisses inline items and notes only.\<close>

definition dismissGateItem :: "nat \<Rightarrow> gate_window \<Rightarrow> gate_window" where
  "dismissGateItem i w =
     (case map_of (gw_items w) i of Some (InlineItem _ _) \<Rightarrow> remove_item i w | Some (NoteItem _ _) \<Rightarrow> remove_item i w | _ \<Rightarrow> w)"

definition REQUEST_KEEP :: nat where "REQUEST_KEEP = 4000"

definition REASON :: "(string \<times> string) list" where
  "REASON = [(''no-brain'', ''no brain is connected''), (''signed-out'', ''the brain is signed out''), (''rate-limited'', ''the brain is rate-limited''),
     (''over-budget'', ''planning is over today's budget''), (''timeout'', ''planning took too long''),
     (''invalid-output'', ''the brain's plan was unreadable''), (''failed'', ''planning failed'')]"

definition why_unplanned :: "string + plan_draft option \<Rightarrow> string" where
  "why_unplanned a = (case a of Inr _ \<Rightarrow> ''the brain returned no plan''
     | Inl r \<Rightarrow> (case map_of REASON r of Some s \<Rightarrow> s | None \<Rightarrow> ''planning failed''))"

definition nonempty :: "string option \<Rightarrow> string option" where
  "nonempty x = (if x = Some [] then None else x)"

definition launch_spec :: "dispatch_request \<Rightarrow> plan_launch option" where
  "launch_spec req = map_option (\<lambda>(k, p). \<lparr>la_kind = k, la_payload = p,
     la_request = (if length (rq_request req) > REQUEST_KEEP then Some (rq_request req) else None)\<rparr>) (rq_resume req)"

definition base_plan :: "dispatch_request \<Rightarrow> js_string \<Rightarrow> plan_draft \<Rightarrow> plan_data" where
  "base_plan req planId d =
     \<lparr>pl_goal = pl_goal d, pl_decisions = pl_decisions d, pl_touches = pl_touches d, pl_acceptance = pl_acceptance d, pl_wontDo = pl_wontDo d,
      pl_risk = pl_risk d, pl_size = pl_size d, pl_taskClass = pl_taskClass d, pl_planId = planId,
      pl_request = clip_js (rq_request req) REQUEST_KEEP, pl_label = nonempty (rq_label req), pl_dir = rq_dir req, pl_source = rq_source req,
      pl_gate = fst (planGate d), pl_gateWhy = snd (planGate d), pl_approvedBy = None, pl_approvedAt = None, pl_sessionId = None, pl_ptyId = None,
      pl_startedAt = None, pl_endedAt = None, pl_baseHead = None, pl_commits = None, pl_sharedAt = None, pl_approvers = None,
      pl_mode = rq_mode req, pl_ticketId = nonempty (rq_ticketId req), pl_launch = None, pl_launchedAt = None, pl_doneBecause = None\<rparr>"

text \<open>The whole request goes into the brief even where the record clips it.\<close>

definition brief_with :: "plan_data \<Rightarrow> js_string \<Rightarrow> js_string" where
  "brief_with d full = planBrief (d\<lparr>pl_request := full\<rparr>)"

definition full_request :: "dispatch_request \<Rightarrow> plan_data \<Rightarrow> js_string" where
  "full_request req d = (case pl_launch d of Some la \<Rightarrow> (case la_request la of Some r \<Rightarrow> r | None \<Rightarrow> rq_request req) | None \<Rightarrow> rq_request req)"

definition dispatchWithPlan :: "bool \<Rightarrow> dispatch_request \<Rightarrow> gate_window \<Rightarrow> gate_window" where
  "dispatchWithPlan enabled req w =
     (if \<not> enabled then await 0 Launching (w\<lparr>gw_unplanned := gw_unplanned w @ [rq_request req]\<rparr>)
      else let i = Suc (gw_seq w)
           in await i (Gathering req) (put i (PlanningItem req) (set_handler i MaySkip (w\<lparr>gw_seq := i, gw_ids := i # gw_ids w\<rparr>))))"

definition brain_answered :: "nat \<Rightarrow> dispatch_request \<Rightarrow> js_string \<Rightarrow> string + plan_draft option \<Rightarrow> gate_window \<Rightarrow> gate_window" where
  "brain_answered i req planId a w =
     (case a of
        Inr (Some d) \<Rightarrow>
          (let base = base_plan req planId d
           in if pl_gate base = Inline
              then await i (PersistingInline req (base\<lparr>pl_decisions := settleWithRecommendations (pl_decisions base)\<rparr>)) (settle i w)
              else await i (PersistingWaiting req (base\<lparr>pl_launch := launch_spec req\<rparr>)) (settle i w))
      | _ \<Rightarrow> await i Launching (start i (rq_request req) None
               (set_handler i NoAction (put i (NoteItem req (''Started without a plan: '' @ why_unplanned a @ ''.'')) (settle i w)))))"

definition persisted :: "plan_data \<Rightarrow> plan_status \<Rightarrow> plan_entry option \<Rightarrow> plan_entry" where
  "persisted d s r = (case r of Some e \<Rightarrow> e | None \<Rightarrow> \<lparr>pe_root = pl_dir d, pe_status = s, pe_data = d\<rparr>)"

section \<open>Restoring\<close>

definition restored_request :: "plan_data \<Rightarrow> plan_launch \<Rightarrow> dispatch_request" where
  "restored_request d la =
     \<lparr>rq_request = (case la_request la of Some r \<Rightarrow> r | None \<Rightarrow> pl_request d), rq_dir = pl_dir d, rq_label = nonempty (pl_label d),
      rq_source = pl_source d, rq_mode = pl_mode d, rq_ticketId = nonempty (pl_ticketId d), rq_resume = Some (la_kind la, la_payload la)\<rparr>"

definition restore_row :: "(string \<Rightarrow> bool) \<Rightarrow> js_string list \<Rightarrow> plan_entry \<Rightarrow> js_string list \<times> gate_window \<Rightarrow> js_string list \<times> gate_window" where
  "restore_row knows made e sw =
     (let seen = fst sw; w = snd sw; d = pe_data e; p = pl_planId d in
      case pl_launch d of
        None \<Rightarrow> sw
      | Some la \<Rightarrow>
          (if p = [] \<or> p \<in> set seen \<or> p \<in> set (gw_armed w) then sw
           else if p \<notin> set made \<or> \<not> knows (la_kind la) then (p # seen, w)
           else
             let i = Suc (gw_seq w); req = restored_request d la; w1 = w\<lparr>gw_seq := i\<rparr> in
             (p # seen,
              if pe_status e = PProposed then armApproval i req e True (w1\<lparr>gw_ids := i # gw_ids w1\<rparr>)
              else if pe_status e = PApproved \<and> pl_launchedAt d = None \<and> pl_sessionId d = None
              then await i (ResumeExpecting d (rq_request req)) (w1\<lparr>gw_ids := i # gw_ids w1, gw_armed := gw_armed w1 @ [p]\<rparr>)
              else w1)))"

fun restore_dirs :: "string list \<Rightarrow> js_string list \<Rightarrow> (string \<Rightarrow> bool) \<Rightarrow> gate_window \<Rightarrow> gate_window" where
  "restore_dirs [] seen knows w = w"
| "restore_dirs (d # ds) seen knows w = (if d = [] then restore_dirs ds seen knows w else await 0 (Restoring ds seen knows) w)"

definition restoreWaitingPlans :: "string list \<Rightarrow> (string \<Rightarrow> bool) \<Rightarrow> gate_window \<Rightarrow> gate_window" where
  "restoreWaitingPlans dirs knows w = restore_dirs dirs [] knows w"

section \<open>The calls that return\<close>

text \<open>What a waiting function does when its call returns. A reply of another kind is none of this call.\<close>

fun resumed :: "nat \<Rightarrow> flow \<Rightarrow> reply \<Rightarrow> gate_window \<Rightarrow> gate_window" where
  "resumed i (Gathering req) _ w = (if i \<in> set (gw_settled w) then w else await i (Asking req) w)"
| "resumed i (Asking req) (Brain planId a) w = (if i \<in> set (gw_settled w) then w else brain_answered i req planId a w)"
| "resumed i (PersistingInline req d) (Entry r) w =
     await i (ExpectingInline req d) (set_handler i NoAction (put i (InlineItem req (persisted d PApproved r)) w))"
| "resumed i (ExpectingInline req d) _ w = await i Launching (start i (brief_with d (rq_request req)) (Some (pl_planId d)) w)"
| "resumed i (PersistingWaiting req d) (Entry r) w = armApproval i req (persisted d PProposed r) False w"
| "resumed i (Approving d) (Entry r) w = go i (case r of Some e \<Rightarrow> pe_data e | None \<Rightarrow> d) w"
| "resumed i (GoExpecting d) _ w = await i (GoRevising d) w"
| "resumed i (GoRevising d) _ w =
     (case map_of (gw_arms w) i of
        None \<Rightarrow> w
      | Some a \<Rightarrow>
          (let base = pe_data (ar_entry a)
           in await i (GoLaunching (pl_planId base)) (start i (brief_with d (full_request (ar_req a) base)) (Some (pl_planId base)) w)))"
| "resumed i (GoLaunching p) _ w = w\<lparr>gw_armed := removeAll p (gw_armed w)\<rparr>"
| "resumed i (Restoring ds seen knows) (Rows rows made) w =
     (let sw = fold (restore_row knows made) rows (seen, w) in restore_dirs ds (fst sw) knows (snd sw))"
| "resumed i (ResumeExpecting d full) _ w = await i (ResumeRevising d full) w"
| "resumed i (ResumeRevising d full) _ w = await i (GoLaunching (pl_planId d)) (start i (brief_with d full) (Some (pl_planId d)) w)"
| "resumed i _ _ w = w"

fun fits :: "flow \<Rightarrow> reply \<Rightarrow> bool" where
  "fits (Asking req) r = (case r of Brain _ _ \<Rightarrow> True | _ \<Rightarrow> False)"
| "fits (PersistingInline req d) r = (case r of Entry _ \<Rightarrow> True | _ \<Rightarrow> False)"
| "fits (PersistingWaiting req d) r = (case r of Entry _ \<Rightarrow> True | _ \<Rightarrow> False)"
| "fits (Approving d) r = (case r of Entry _ \<Rightarrow> True | _ \<Rightarrow> False)"
| "fits (Restoring ds seen knows) r = (case r of Rows _ _ \<Rightarrow> True | _ \<Rightarrow> False)"
| "fits _ r = True"

definition returned :: "nat \<Rightarrow> reply \<Rightarrow> gate_window \<Rightarrow> gate_window" where
  "returned n r w =
     (if n < length (gw_flows w) \<and> fits (snd (gw_flows w ! n)) r
      then (case gw_flows w ! n of (i, f) \<Rightarrow> resumed i f r (w\<lparr>gw_flows := take n (gw_flows w) @ drop (Suc n) (gw_flows w)\<rparr>))
      else w)"

datatype gate_event =
    Dispatch bool dispatch_request
  | Skip nat
  | Approve nat plan_edits int
  | DropIt nat
  | Dismiss nat
  | Wait nat bool
  | Appended plan_entry
  | Restore "string list" "string \<Rightarrow> bool"
  | Returns nat reply

fun gate_step :: "gate_event \<Rightarrow> gate_window \<Rightarrow> gate_window" where
  "gate_step (Dispatch enabled req) w = dispatchWithPlan enabled req w"
| "gate_step (Skip i) w = skipPlanning i w"
| "gate_step (Approve i ed now) w = approvePlan i ed now w"
| "gate_step (DropIt i) w = dropPlan i w"
| "gate_step (Dismiss i) w = dismissGateItem i w"
| "gate_step (Wait i b) w = setPlanWaiting i b w"
| "gate_step (Appended e) w = ledger_appended e w"
| "gate_step (Restore dirs knows) w = restoreWaitingPlans dirs knows w"
| "gate_step (Returns n r) w = returned n r w"

definition gate_run :: "gate_event list \<Rightarrow> gate_window \<Rightarrow> gate_window" where
  "gate_run es w = fold gate_step es w"

section \<open>Every dispatch is accounted for\<close>

fun is_planning :: "flow \<Rightarrow> bool" where
  "is_planning (Gathering _) = True"
| "is_planning (Asking _) = True"
| "is_planning _ = False"

fun is_going :: "flow \<Rightarrow> bool" where
  "is_going (GoExpecting _) = True"
| "is_going (GoRevising _) = True"
| "is_going _ = False"

text \<open>The function will launch the work or arm the launch.\<close>

fun will_launch :: "flow \<Rightarrow> bool" where
  "will_launch (PersistingInline _ _) = True"
| "will_launch (ExpectingInline _ _) = True"
| "will_launch (PersistingWaiting _ _) = True"
| "will_launch (ResumeExpecting _ _) = True"
| "will_launch (ResumeRevising _ _) = True"
| "will_launch f = is_going f"

definition calls :: "(flow \<Rightarrow> bool) \<Rightarrow> nat \<Rightarrow> (nat \<times> flow) list \<Rightarrow> nat" where
  "calls P i fs = length (filter (\<lambda>(j, f). j = i \<and> P f) fs)"

definition launches :: "nat \<Rightarrow> gate_window \<Rightarrow> nat" where
  "launches i w = length (filter (\<lambda>(j, _). j = i) (gw_log w))"

definition undecided :: "nat \<Rightarrow> gate_window \<Rightarrow> bool" where
  "undecided i w \<longleftrightarrow> (case map_of (gw_arms w) i of Some a \<Rightarrow> \<not> ar_launched a | None \<Rightarrow> False)"

definition pending_calls :: "nat \<Rightarrow> gate_window \<Rightarrow> nat" where
  "pending_calls i w = (if i \<in> set (gw_settled w) then 0 else calls is_planning i (gw_flows w)) + calls will_launch i (gw_flows w)"

definition weight :: "nat \<Rightarrow> gate_window \<Rightarrow> nat" where
  "weight i w = launches i w + count_list (gw_dropped w) i + (if undecided i w then 1 else 0) + pending_calls i w"

fun asks :: "gate_item option \<Rightarrow> bool" where
  "asks (Some (ApprovalItem _ _ _)) = True"
| "asks _ = False"

fun tells :: "gate_item option \<Rightarrow> bool" where
  "tells (Some (InlineItem _ _)) = True"
| "tells (Some (NoteItem _ _)) = True"
| "tells _ = False"

definition on_screen :: "nat \<Rightarrow> gate_window \<Rightarrow> bool" where
  "on_screen i w \<longleftrightarrow> map_of (gw_handlers w) i = Some MayDecide \<and> asks (map_of (gw_items w) i)"

definition acknowledged :: "nat \<Rightarrow> gate_window \<Rightarrow> bool" where
  "acknowledged i w \<longleftrightarrow> (tells (map_of (gw_items w) i) \<longrightarrow> map_of (gw_handlers w) i = Some NoAction)"

definition skippable :: "nat \<Rightarrow> gate_window \<Rightarrow> bool" where
  "skippable i w \<longleftrightarrow> i \<in> set (gw_settled w) \<or> calls is_planning i (gw_flows w) > 0"

definition gate_ok :: "gate_window \<Rightarrow> bool" where
  "gate_ok w \<longleftrightarrow>
     (\<forall>i. weight i w = (if i \<in> set (gw_ids w) then 1 else 0))
     \<and> (\<forall>i \<in> set (gw_ids w). 0 < i \<and> i \<le> gw_seq w) \<and> (\<forall>i \<in> set (gw_settled w). i \<le> gw_seq w)
     \<and> (\<forall>i. map_of (gw_handlers w) i = Some MaySkip \<longrightarrow> skippable i w)
     \<and> (\<forall>i. undecided i w \<longrightarrow> on_screen i w) \<and> (\<forall>i. acknowledged i w)
     \<and> (\<forall>(i, f) \<in> set (gw_flows w). is_going f \<longrightarrow> map_of (gw_arms w) i \<noteq> None)"

lemma calls_simps [simp]:
  "calls P i [] = 0" "calls P i (fs @ gs) = calls P i fs + calls P i gs"
  "calls P i ((j, f) # fs) = (if j = i \<and> P f then 1 else 0) + calls P i fs"
  by (simp_all add: calls_def)

lemma calls_take_out:
  assumes "n < length fs" "fs ! n = (i, f)"
  shows "calls P j fs = calls P j (take n fs @ drop (Suc n) fs) + (if i = j \<and> P f then 1 else 0)"
proof -
  have "fs = take n fs @ (i, f) # drop (Suc n) fs" using id_take_nth_drop [OF assms(1)] assms(2) by simp
  then have "calls P j fs = calls P j (take n fs @ (i, f) # drop (Suc n) fs)" by simp
  then show ?thesis by simp
qed

lemmas gate_prims = put_def set_handler_def await_def settle_def start_def map_arm_def remove_item_def Let_def

lemma remove_item_eq:
  "gw_log (remove_item i w) = gw_log w" "gw_dropped (remove_item i w) = gw_dropped w" "gw_flows (remove_item i w) = gw_flows w"
  "gw_settled (remove_item i w) = gw_settled w" "gw_ids (remove_item i w) = gw_ids w" "gw_seq (remove_item i w) = gw_seq w"
  "gw_handlers (remove_item i w) = AList.delete i (gw_handlers w)" "gw_items (remove_item i w) = AList.delete i (gw_items w)"
  "gw_armed (remove_item i w) = gw_armed w"
  "undecided j (remove_item i w) \<longleftrightarrow> undecided j w" "map_of (gw_arms (remove_item i w)) j = None \<longleftrightarrow> map_of (gw_arms w) j = None"
  by (auto simp: gate_prims undecided_def map_of_alist_update split: option.split)

lemma map_arm_eq:
  "gw_log (map_arm i f w) = gw_log w" "gw_dropped (map_arm i f w) = gw_dropped w" "gw_flows (map_arm i f w) = gw_flows w"
  "gw_settled (map_arm i f w) = gw_settled w" "gw_ids (map_arm i f w) = gw_ids w" "gw_seq (map_arm i f w) = gw_seq w"
  "gw_handlers (map_arm i f w) = gw_handlers w" "gw_items (map_arm i f w) = gw_items w" "gw_armed (map_arm i f w) = gw_armed w"
  "map_of (gw_arms (map_arm i f w)) j = (if j = i then map_option f (map_of (gw_arms w) i) else map_of (gw_arms w) j)"
  by (auto simp: map_arm_def map_of_alist_update split: option.split)

lemmas gate_counts = weight_def pending_calls_def launches_def

lemma gate_okD:
  assumes "gate_ok w"
  shows "weight i w = (if i \<in> set (gw_ids w) then 1 else 0)" "i \<in> set (gw_ids w) \<Longrightarrow> 0 < i \<and> i \<le> gw_seq w"
    "i \<in> set (gw_settled w) \<Longrightarrow> i \<le> gw_seq w" "map_of (gw_handlers w) i = Some MaySkip \<Longrightarrow> skippable i w"
    "undecided i w \<Longrightarrow> on_screen i w" "acknowledged i w" "(i, f) \<in> set (gw_flows w) \<Longrightarrow> is_going f \<Longrightarrow> map_of (gw_arms w) i \<noteq> None"
  using assms by (auto simp: gate_ok_def)

lemma gate_okI:
  assumes "\<And>i. weight i w = (if i \<in> set (gw_ids w) then 1 else 0)" "\<And>i. i \<in> set (gw_ids w) \<Longrightarrow> 0 < i \<and> i \<le> gw_seq w"
    "\<And>i. i \<in> set (gw_settled w) \<Longrightarrow> i \<le> gw_seq w" "\<And>i. map_of (gw_handlers w) i = Some MaySkip \<Longrightarrow> skippable i w"
    "\<And>i. undecided i w \<Longrightarrow> on_screen i w" "\<And>i. acknowledged i w"
    "\<And>i f. (i, f) \<in> set (gw_flows w) \<Longrightarrow> is_going f \<Longrightarrow> map_of (gw_arms w) i \<noteq> None"
  shows "gate_ok w"
  using assms by (auto simp: gate_ok_def)

lemma gate_ok_go:
  assumes "gate_ok w"
  shows "gate_ok (go i d w)"
proof (cases "undecided i w")
  case False
  then have "go i d w = w" by (auto simp: go_def undecided_def split: option.splits)
  then show ?thesis using assms by simp
next
  case True
  then obtain a where a: "map_of (gw_arms w) i = Some a" "\<not> ar_launched a" by (auto simp: undecided_def split: option.splits)
  let ?w = "await i (GoExpecting d) (remove_item i (map_arm i (\<lambda>a. a\<lparr>ar_launched := True\<rparr>) w))"
  have g: "go i d w = ?w" using a by (simp add: go_def)
  have u: "undecided j ?w \<longleftrightarrow> j \<noteq> i \<and> undecided j w" for j
    using a by (auto simp: undecided_def await_def remove_item_def Let_def map_arm_eq map_of_alist_update split: option.split)
  have f: "gw_flows ?w = gw_flows w @ [(i, GoExpecting d)]" "gw_log ?w = gw_log w" "gw_dropped ?w = gw_dropped w" "gw_settled ?w = gw_settled w"
    "gw_ids ?w = gw_ids w" "gw_seq ?w = gw_seq w" "gw_handlers ?w = AList.delete i (gw_handlers w)" "gw_items ?w = AList.delete i (gw_items w)"
    by (simp_all add: await_def remove_item_eq map_arm_eq)
  have arms: "map_of (gw_arms ?w) j = None \<longleftrightarrow> map_of (gw_arms w) j = None" for j
    using a by (simp add: await_def remove_item_eq map_arm_eq)
  have wj: "weight j ?w = weight j w" for j
    using True u [of j] by (cases "j = i") (simp_all add: gate_counts f)
  show ?thesis
    unfolding g
  proof (rule gate_okI)
    note ok = gate_okD [OF assms]
    show "weight j ?w = (if j \<in> set (gw_ids ?w) then 1 else 0)" for j
      using ok(1) [of j] wj [of j] by (simp add: f)
    show "skippable j ?w" if "map_of (gw_handlers ?w) j = Some MaySkip" for j
      using ok(4) [of j] that by (simp add: f skippable_def map_of_alist_delete split: if_splits)
    show "on_screen j ?w" if "undecided j ?w" for j using ok(5) [of j] that u by (simp add: on_screen_def f map_of_alist_delete)
    show "acknowledged j ?w" for j using ok(6) [of j] by (simp add: acknowledged_def f map_of_alist_delete)
    show "map_of (gw_arms ?w) j \<noteq> None" if "(j, f') \<in> set (gw_flows ?w)" "is_going f'" for j f'
      using ok(7) [of j f'] that a by (auto simp: arms f)
  qed (use gate_okD(2,3) [OF assms] in \<open>simp_all add: f\<close>)
qed

lemma gate_ok_appended: "gate_ok w \<Longrightarrow> gate_ok (ledger_appended e w)"
proof -
  have "gate_ok w \<Longrightarrow> gate_ok (fold (hear e) is w)" for "is"
    by (induction "is" arbitrary: w) (simp_all add: hear_def gate_ok_go split: option.split)
  then show "gate_ok w \<Longrightarrow> gate_ok (ledger_appended e w)" by (simp add: ledger_appended_def)
qed

lemma gate_ok_await:
  assumes "gate_ok w" "\<not> is_planning f" "\<not> will_launch f"
  shows "gate_ok (await i f w)"
proof (rule gate_okI)
  note g = gate_okD [OF assms(1)]
  have nf: "\<not> is_going f" using assms(3) by (cases f) simp_all
  show "weight j (await i f w) = (if j \<in> set (gw_ids (await i f w)) then 1 else 0)" for j
  proof -
    have "weight j (await i f w) = weight j w" using assms(2,3) by (simp add: gate_counts await_def undecided_def)
    then show ?thesis using g(1) [of j] by (simp add: await_def)
  qed
  show "skippable j (await i f w)" if "map_of (gw_handlers (await i f w)) j = Some MaySkip" for j
    using g(4) that by (simp add: skippable_def await_def)
  show "on_screen j (await i f w)" if "undecided j (await i f w)" for j using g(5) that by (simp add: on_screen_def undecided_def await_def)
  show "acknowledged j (await i f w)" for j using g(6) [of j] by (simp add: acknowledged_def await_def)
  show "map_of (gw_arms (await i f w)) j \<noteq> None" if "(j, f') \<in> set (gw_flows (await i f w))" "is_going f'" for j f'
    using g(7) [of j f'] that nf by (auto simp: await_def)
qed (use gate_okD(2,3) [OF assms(1)] in \<open>simp_all add: await_def\<close>)

lemma gate_ok_approve: "gate_ok w \<Longrightarrow> gate_ok (approvePlan i ed now w)"
  by (simp add: approvePlan_def gate_ok_await split: option.split)

text \<open>What depends on the items and handlers only.\<close>

lemma gate_ok_items:
  assumes "gate_ok w" "\<And>j. undecided j w \<Longrightarrow> on_screen j (w\<lparr>gw_items := x, gw_handlers := h\<rparr>)" "\<And>j. acknowledged j (w\<lparr>gw_items := x, gw_handlers := h\<rparr>)"
    "\<And>j. map_of h j = Some MaySkip \<Longrightarrow> map_of (gw_handlers w) j = Some MaySkip"
  shows "gate_ok (w\<lparr>gw_items := x, gw_handlers := h\<rparr>)"
proof (rule gate_okI)
  note g = gate_okD [OF assms(1)]
  show "weight j (w\<lparr>gw_items := x, gw_handlers := h\<rparr>) = (if j \<in> set (gw_ids (w\<lparr>gw_items := x, gw_handlers := h\<rparr>)) then 1 else 0)" for j
  proof -
    have "weight j (w\<lparr>gw_items := x, gw_handlers := h\<rparr>) = weight j w" by (simp add: gate_counts undecided_def)
    then show "weight j (w\<lparr>gw_items := x, gw_handlers := h\<rparr>) = (if j \<in> set (gw_ids (w\<lparr>gw_items := x, gw_handlers := h\<rparr>)) then 1 else 0)"
      using g(1) [of j] by simp
  qed
  show "map_of (gw_handlers (w\<lparr>gw_items := x, gw_handlers := h\<rparr>)) j = Some MaySkip \<Longrightarrow> skippable j (w\<lparr>gw_items := x, gw_handlers := h\<rparr>)" for j
    using g(4) [of j] assms(4) [of j] by (simp add: skippable_def)
  show "undecided j (w\<lparr>gw_items := x, gw_handlers := h\<rparr>) \<Longrightarrow> on_screen j (w\<lparr>gw_items := x, gw_handlers := h\<rparr>)" for j
    using assms(2) [of j] by (simp add: undecided_def)
qed (use gate_okD [OF assms(1)] assms(3) in simp_all)

lemma gate_ok_waiting:
  assumes "gate_ok w"
  shows "gate_ok (setPlanWaiting i b w)"
proof -
  have "gate_ok (w\<lparr>gw_items := AList.update i (ApprovalItem r e b) (gw_items w), gw_handlers := gw_handlers w\<rparr>)"
    if "map_of (gw_items w) i = Some (ApprovalItem r e b')" for r e b'
  proof (rule gate_ok_items [OF assms])
    show "on_screen j (w\<lparr>gw_items := AList.update i (ApprovalItem r e b) (gw_items w), gw_handlers := gw_handlers w\<rparr>)" if "undecided j w" for j
      using gate_okD(5) [OF assms that] by (simp add: on_screen_def map_of_alist_update)
    show "acknowledged j (w\<lparr>gw_items := AList.update i (ApprovalItem r e b) (gw_items w), gw_handlers := gw_handlers w\<rparr>)" for j
      using gate_okD(6) [OF assms, of j] by (auto simp: acknowledged_def map_of_alist_update)
  qed simp
  then show ?thesis using assms by (auto simp: setPlanWaiting_def put_def split: option.split gate_item.split)
qed

lemma gate_ok_dismiss:
  assumes "gate_ok w"
  shows "gate_ok (dismissGateItem i w)"
proof (cases "map_of (gw_handlers w) i = Some NoAction")
  case True
  have "\<not> undecided i w" using gate_okD(5) [OF assms, of i] True by (auto simp: on_screen_def)
  then have "on_screen j (w\<lparr>gw_items := AList.delete i (gw_items w), gw_handlers := AList.delete i (gw_handlers w)\<rparr>)" if "undecided j w" for j
    using gate_okD(5) [OF assms that] that by (cases "j = i") (simp_all add: on_screen_def map_of_alist_delete)
  moreover have "acknowledged j (w\<lparr>gw_items := AList.delete i (gw_items w), gw_handlers := AList.delete i (gw_handlers w)\<rparr>)" for j
    using gate_okD(6) [OF assms, of j] by (simp add: acknowledged_def map_of_alist_delete)
  ultimately have "gate_ok (w\<lparr>gw_items := AList.delete i (gw_items w), gw_handlers := AList.delete i (gw_handlers w)\<rparr>)"
    by (intro gate_ok_items [OF assms]) (simp_all add: map_of_alist_delete split: if_splits)
  moreover have "remove_item i w = w\<lparr>gw_items := AList.delete i (gw_items w), gw_handlers := AList.delete i (gw_handlers w)\<rparr>"
    using True by (intro gate_window.equality) (simp_all add: remove_item_def)
  ultimately have "gate_ok (remove_item i w)" by simp
  then show ?thesis using assms by (simp add: dismissGateItem_def split: option.split gate_item.split)
next
  case False
  then have "dismissGateItem i w = w"
    using gate_okD(6) [OF assms, of i] by (auto simp: dismissGateItem_def acknowledged_def split: option.split gate_item.split)
  then show ?thesis using assms by simp
qed

lemma undecided_simps [simp]:
  "undecided j (w\<lparr>gw_flows := fs\<rparr>) = undecided j w" "undecided j (w\<lparr>gw_log := l\<rparr>) = undecided j w" "undecided j (w\<lparr>gw_items := x\<rparr>) = undecided j w"
  "undecided j (w\<lparr>gw_handlers := h\<rparr>) = undecided j w" "undecided j (w\<lparr>gw_settled := s\<rparr>) = undecided j w" "undecided j (w\<lparr>gw_dropped := d\<rparr>) = undecided j w"
  "undecided j (w\<lparr>gw_armed := p\<rparr>) = undecided j w" "undecided j (w\<lparr>gw_ids := is\<rparr>) = undecided j w" "undecided j (w\<lparr>gw_seq := n\<rparr>) = undecided j w"
  by (simp_all add: undecided_def)

lemma gate_ok_drop:
  assumes "gate_ok w"
  shows "gate_ok (dropPlan i w)"
proof (cases "undecided i w \<and> map_of (gw_handlers w) i = Some MayDecide")
  case False
  then have "dropPlan i w = w" by (auto simp: dropPlan_def undecided_def split: option.splits)
  then show ?thesis using assms by simp
next
  case True
  then obtain a where a: "map_of (gw_arms w) i = Some a" "\<not> ar_launched a" by (auto simp: undecided_def split: option.splits)
  let ?w1 = "remove_item i (map_arm i (\<lambda>a. a\<lparr>ar_launched := True\<rparr>) w)"
  let ?w2 = "?w1\<lparr>gw_armed := removeAll (pl_planId (pe_data (ar_entry a))) (gw_armed ?w1), gw_dropped := i # gw_dropped ?w1\<rparr>"
  have g: "dropPlan i w = await i Dropping ?w2" using a True by (simp add: dropPlan_def Let_def)
  have u: "undecided j ?w2 \<longleftrightarrow> j \<noteq> i \<and> undecided j w" for j
    using a by (auto simp: undecided_def remove_item_def Let_def map_arm_eq map_of_alist_update split: option.split)
  have f: "gw_flows ?w2 = gw_flows w" "gw_log ?w2 = gw_log w" "gw_dropped ?w2 = i # gw_dropped w" "gw_settled ?w2 = gw_settled w"
    "gw_ids ?w2 = gw_ids w" "gw_seq ?w2 = gw_seq w" "gw_handlers ?w2 = AList.delete i (gw_handlers w)" "gw_items ?w2 = AList.delete i (gw_items w)"
    by (simp_all add: remove_item_eq map_arm_eq)
  have arms: "map_of (gw_arms ?w2) j = None \<longleftrightarrow> map_of (gw_arms w) j = None" for j
    using a by (simp add: remove_item_eq map_arm_eq)
  have wj: "weight j ?w2 = weight j w" for j
    using True u [of j] by (cases "j = i") (simp_all add: gate_counts f)
  have "gate_ok ?w2"
  proof (rule gate_okI)
    note ok = gate_okD [OF assms]
    show "weight j ?w2 = (if j \<in> set (gw_ids ?w2) then 1 else 0)" for j using ok(1) [of j] wj [of j] by (simp add: f)
    show "skippable j ?w2" if "map_of (gw_handlers ?w2) j = Some MaySkip" for j
      using ok(4) [of j] that by (simp add: f skippable_def map_of_alist_delete split: if_splits)
    show "on_screen j ?w2" if "undecided j ?w2" for j using ok(5) [of j] that u by (simp add: on_screen_def f map_of_alist_delete)
    show "acknowledged j ?w2" for j using ok(6) [of j] by (simp add: acknowledged_def f map_of_alist_delete)
    show "map_of (gw_arms ?w2) j \<noteq> None" if "(j, f') \<in> set (gw_flows ?w2)" "is_going f'" for j f'
      using ok(7) [of j f'] that unfolding f arms by simp
  qed (use gate_okD(2,3) [OF assms] in \<open>simp_all add: f\<close>)
  then show ?thesis unfolding g by (rule gate_ok_await) simp_all
qed

lemma gate_ok_skip:
  assumes "gate_ok w"
  shows "gate_ok (skipPlanning i w)"
proof (cases "\<exists>req. map_of (gw_items w) i = Some (PlanningItem req) \<and> map_of (gw_handlers w) i = Some MaySkip \<and> i \<notin> set (gw_settled w)")
  case False
  then have "skipPlanning i w = w" by (auto simp: skipPlanning_def split: option.splits gate_item.splits)
  then show ?thesis using assms by simp
next
  case True
  note ok = gate_okD [OF assms]
  obtain req where r: "map_of (gw_items w) i = Some (PlanningItem req)" "map_of (gw_handlers w) i = Some MaySkip" "i \<notin> set (gw_settled w)" using True by blast
  let ?w = "start i (rq_request req) None (remove_item i (settle i w))"
  have g: "skipPlanning i w = await i Launching ?w" using r by (simp add: skipPlanning_def)
  have f: "gw_flows ?w = gw_flows w" "gw_log ?w = gw_log w @ [(i, rq_request req, None)]" "gw_dropped ?w = gw_dropped w" "gw_settled ?w = i # gw_settled w"
    "gw_ids ?w = gw_ids w" "gw_seq ?w = gw_seq w" "gw_handlers ?w = AList.delete i (gw_handlers w)" "gw_items ?w = AList.delete i (gw_items w)"
    "undecided j ?w \<longleftrightarrow> undecided j w" "map_of (gw_arms ?w) j = None \<longleftrightarrow> map_of (gw_arms w) j = None" for j
    by (simp_all add: start_def settle_def remove_item_eq)
  have p: "0 < calls is_planning i (gw_flows w)" using ok(4) [OF r(2)] r(3) by (simp add: skippable_def)
  then have "weight i w \<noteq> 0" using r(3) by (simp add: gate_counts)
  then have "i \<le> gw_seq w" using ok(1) [of i] ok(2) [of i] by (auto split: if_splits)
  have wj: "weight j ?w = weight j w" for j
  proof (cases "j = i")
    case True
    then have "weight i w = 1" using ok(1) [of i] \<open>weight i w \<noteq> 0\<close> by (simp split: if_splits)
    moreover have "launches i ?w = Suc (launches i w)" by (simp add: launches_def f)
    ultimately show ?thesis using True p r(3) by (simp add: weight_def pending_calls_def f split: if_splits)
  qed (simp add: gate_counts f)
  have "\<not> undecided i w" using ok(5) [of i] r(2) by (auto simp: on_screen_def)
  have "gate_ok ?w"
  proof (rule gate_okI)
    show "weight j ?w = (if j \<in> set (gw_ids ?w) then 1 else 0)" for j using ok(1) [of j] wj [of j] by (simp add: f)
    show "j \<le> gw_seq ?w" if "j \<in> set (gw_settled ?w)" for j using ok(3) [of j] that \<open>i \<le> gw_seq w\<close> by (auto simp: f)
    show "skippable j ?w" if "map_of (gw_handlers ?w) j = Some MaySkip" for j
      using ok(4) [of j] that by (auto simp: f skippable_def map_of_alist_delete split: if_splits)
    show "on_screen j ?w" if "undecided j ?w" for j using ok(5) [of j] that \<open>\<not> undecided i w\<close> by (auto simp: on_screen_def f map_of_alist_delete)
    show "acknowledged j ?w" for j using ok(6) [of j] by (simp add: acknowledged_def f map_of_alist_delete)
    show "map_of (gw_arms ?w) j \<noteq> None" if "(j, f') \<in> set (gw_flows ?w)" "is_going f'" for j f'
      using ok(7) [of j f'] that by (simp add: f)
  qed (use ok(2) in \<open>simp_all add: f\<close>)
  then show ?thesis unfolding g by (rule gate_ok_await) simp_all
qed

lemma gate_ok_dispatch:
  assumes "gate_ok w"
  shows "gate_ok (dispatchWithPlan enabled req w)"
proof (cases enabled)
  case False
  note ok = gate_okD [OF assms]
  have "weight j (w\<lparr>gw_unplanned := u\<rparr>) = weight j w" for j u by (simp add: gate_counts undecided_def)
  then have "gate_ok (w\<lparr>gw_unplanned := u\<rparr>)" for u
    using ok by (intro gate_okI) (simp_all add: on_screen_def acknowledged_def skippable_def undecided_def)
  then show ?thesis using False by (simp add: dispatchWithPlan_def gate_ok_await)
next
  case True
  note ok = gate_okD [OF assms]
  let ?i = "Suc (gw_seq w)"
  let ?w = "await ?i (Gathering req) (put ?i (PlanningItem req) (set_handler ?i MaySkip (w\<lparr>gw_seq := ?i, gw_ids := ?i # gw_ids w\<rparr>)))"
  have g: "dispatchWithPlan enabled req w = ?w" using True by (simp add: dispatchWithPlan_def Let_def)
  have fresh: "?i \<notin> set (gw_ids w)" "?i \<notin> set (gw_settled w)" using ok(2) [of ?i] ok(3) [of ?i] by auto
  then have w0: "weight ?i w = 0" using ok(1) [of ?i] by simp
  have f: "gw_flows ?w = gw_flows w @ [(?i, Gathering req)]" "gw_log ?w = gw_log w" "gw_dropped ?w = gw_dropped w" "gw_settled ?w = gw_settled w"
    "gw_ids ?w = ?i # gw_ids w" "gw_seq ?w = ?i" "gw_handlers ?w = AList.update ?i MaySkip (gw_handlers w)"
    "gw_items ?w = AList.update ?i (PlanningItem req) (gw_items w)" "undecided j ?w \<longleftrightarrow> undecided j w" "gw_arms ?w = gw_arms w" for j
    by (simp_all add: await_def put_def set_handler_def)
  show ?thesis
    unfolding g
  proof (rule gate_okI)
    show "weight j ?w = (if j \<in> set (gw_ids ?w) then 1 else 0)" for j
    proof (cases "j = ?i")
      case True
      then have "weight j ?w = weight j w + 1" using fresh by (simp add: gate_counts f)
      then show ?thesis using w0 True by (simp add: f)
    next
      case False
      then have "weight j ?w = weight j w" by (simp add: gate_counts f)
      then show ?thesis using ok(1) [of j] False by (simp add: f)
    qed
    show "0 < j \<and> j \<le> gw_seq ?w" if "j \<in> set (gw_ids ?w)" for j using ok(2) [of j] that by (auto simp: f)
    show "j \<le> gw_seq ?w" if "j \<in> set (gw_settled ?w)" for j using ok(3) [of j] that by (simp add: f)
    show "skippable j ?w" if "map_of (gw_handlers ?w) j = Some MaySkip" for j
      using ok(4) [of j] that by (auto simp: f skippable_def map_of_alist_update split: if_splits)
    show "on_screen j ?w" if "undecided j ?w" for j
    proof -
      have "undecided j w" using that f(9) by simp
      moreover have "\<not> undecided ?i w" using w0 by (simp add: weight_def split: if_splits)
      ultimately show ?thesis using ok(5) [of j] by (auto simp: on_screen_def f map_of_alist_update)
    qed
    show "acknowledged j ?w" for j using ok(6) [of j] by (simp add: acknowledged_def f map_of_alist_update)
    show "map_of (gw_arms ?w) j \<noteq> None" if "(j, f') \<in> set (gw_flows ?w)" "is_going f'" for j f'
      using ok(7) [of j f'] that by (auto simp: f)
  qed
qed

text \<open>The state while the function that \<^term>\<open>i\<close> waits for is running: one launch is owed.\<close>

definition owed :: "nat \<Rightarrow> gate_window \<Rightarrow> bool" where
  "owed i w \<longleftrightarrow>
     (\<forall>j. weight j w + (if j = i then 1 else 0) = (if j \<in> set (gw_ids w) then 1 else 0))
     \<and> (\<forall>j \<in> set (gw_ids w). 0 < j \<and> j \<le> gw_seq w) \<and> (\<forall>j \<in> set (gw_settled w). j \<le> gw_seq w)
     \<and> (\<forall>j. j \<noteq> i \<longrightarrow> map_of (gw_handlers w) j = Some MaySkip \<longrightarrow> skippable j w)
     \<and> (\<forall>j. undecided j w \<longrightarrow> on_screen j w) \<and> (\<forall>j. acknowledged j w)
     \<and> (\<forall>(j, f) \<in> set (gw_flows w). is_going f \<longrightarrow> map_of (gw_arms w) j \<noteq> None)"

definition calm :: "nat \<Rightarrow> gate_window \<Rightarrow> bool" where
  "calm i w \<longleftrightarrow> (map_of (gw_handlers w) i = Some MaySkip \<longrightarrow> i \<in> set (gw_settled w))"

lemma owedD:
  assumes "owed i w"
  shows "weight j w + (if j = i then 1 else 0) = (if j \<in> set (gw_ids w) then 1 else 0)" "j \<in> set (gw_ids w) \<Longrightarrow> 0 < j \<and> j \<le> gw_seq w"
    "j \<in> set (gw_settled w) \<Longrightarrow> j \<le> gw_seq w" "j \<noteq> i \<Longrightarrow> map_of (gw_handlers w) j = Some MaySkip \<Longrightarrow> skippable j w"
    "undecided j w \<Longrightarrow> on_screen j w" "acknowledged j w" "(j, f) \<in> set (gw_flows w) \<Longrightarrow> is_going f \<Longrightarrow> map_of (gw_arms w) j \<noteq> None"
  using assms by (auto simp: owed_def)

lemma owedI:
  assumes "\<And>j. weight j w + (if j = i then 1 else 0) = (if j \<in> set (gw_ids w) then 1 else 0)" "\<And>j. j \<in> set (gw_ids w) \<Longrightarrow> 0 < j \<and> j \<le> gw_seq w"
    "\<And>j. j \<in> set (gw_settled w) \<Longrightarrow> j \<le> gw_seq w" "\<And>j. j \<noteq> i \<Longrightarrow> map_of (gw_handlers w) j = Some MaySkip \<Longrightarrow> skippable j w"
    "\<And>j. undecided j w \<Longrightarrow> on_screen j w" "\<And>j. acknowledged j w"
    "\<And>j f. (j, f) \<in> set (gw_flows w) \<Longrightarrow> is_going f \<Longrightarrow> map_of (gw_arms w) j \<noteq> None"
  shows "owed i w"
  using assms unfolding owed_def by blast

lemma owed_alone:
  assumes "owed i w"
  shows "weight i w = 0" "i \<in> set (gw_ids w)" "\<not> undecided i w"
proof -
  show "weight i w = 0" "i \<in> set (gw_ids w)" using owedD(1) [OF assms, of i] by (simp_all split: if_splits)
  then show "\<not> undecided i w" by (simp add: weight_def split: if_splits)
qed

abbreviation without :: "nat \<Rightarrow> gate_window \<Rightarrow> gate_window" where
  "without n w \<equiv> w\<lparr>gw_flows := take n (gw_flows w) @ drop (Suc n) (gw_flows w)\<rparr>"

lemma weight_without:
  assumes "n < length (gw_flows w)" "gw_flows w ! n = (i, f)"
  shows "weight j w = weight j (without n w)
    + (if j = i \<and> (is_planning f \<and> i \<notin> set (gw_settled w) \<or> will_launch f) then 1 else 0)"
  using calls_take_out [OF assms, of is_planning j] calls_take_out [OF assms, of will_launch j]
  by (cases f) (auto simp: gate_counts)

lemma without_flows: "(j, f) \<in> set (gw_flows (without n w)) \<Longrightarrow> (j, f) \<in> set (gw_flows w)"
  by (auto dest: in_set_takeD in_set_dropD)

lemma gate_ok_without:
  assumes "gate_ok w" "n < length (gw_flows w)" "gw_flows w ! n = (i, f)" "\<not> will_launch f" "is_planning f \<Longrightarrow> i \<in> set (gw_settled w)"
  shows "gate_ok (without n w)"
proof (rule gate_okI)
  note ok = gate_okD [OF assms(1)]
  show "weight j (without n w) = (if j \<in> set (gw_ids (without n w)) then 1 else 0)" for j
    using ok(1) [of j] weight_without [OF assms(2,3), of j] assms(4,5) by (auto split: if_splits)
  show "skippable j (without n w)" if "map_of (gw_handlers (without n w)) j = Some MaySkip" for j
    using ok(4) [of j] that calls_take_out [OF assms(2,3), of is_planning j] assms(5) by (auto simp: skippable_def split: if_splits)
  show "map_of (gw_arms (without n w)) j \<noteq> None" if "(j, f') \<in> set (gw_flows (without n w))" "is_going f'" for j f'
    using ok(7) [OF without_flows [OF that(1)] that(2)] by simp
qed (use gate_okD [OF assms(1)] in \<open>simp_all add: on_screen_def acknowledged_def\<close>)

lemma owed_without:
  assumes "gate_ok w" "n < length (gw_flows w)" "gw_flows w ! n = (i, f)" "is_planning f \<and> i \<notin> set (gw_settled w) \<or> will_launch f"
  shows "owed i (without n w)" "will_launch f \<Longrightarrow> calm i (without n w)"
proof -
  note ok = gate_okD [OF assms(1)]
  have sk: "skippable j (without n w)" if "j \<noteq> i" "map_of (gw_handlers w) j = Some MaySkip" for j
    using ok(4) [OF that(2)] that(1) calls_take_out [OF assms(2,3), of is_planning j] by (simp add: skippable_def)
  have go: "map_of (gw_arms w) j \<noteq> None" if "(j, f') \<in> set (gw_flows (without n w))" "is_going f'" for j f'
    using ok(7) [OF without_flows [OF that(1)] that(2)] by simp
  have w: "weight j (without n w) + (if j = i then 1 else 0) = (if j \<in> set (gw_ids w) then 1 else 0)" for j
    using ok(1) [of j] weight_without [OF assms(2,3), of j] assms(4) by auto
  show "owed i (without n w)"
    by (rule owedI) (use w sk go ok(2,3,5,6) in \<open>simp_all add: on_screen_def acknowledged_def del: set_append\<close>)
  show "calm i (without n w)" if "will_launch f"
  proof -
    have "weight i (without n w) = 0" using w [of i] by (simp split: if_splits)
    moreover have "\<not> is_planning f" using that by (cases f) simp_all
    ultimately have "calls is_planning i (gw_flows w) = 0 \<or> i \<in> set (gw_settled w)"
      using calls_take_out [OF assms(2,3), of is_planning i] by (simp add: gate_counts split: if_splits)
    then show ?thesis using ok(4) [of i] by (auto simp: calm_def skippable_def)
  qed
qed

lemma owed_await:
  assumes "owed i w" "is_planning f \<and> i \<notin> set (gw_settled w) \<or> calm i w \<and> will_launch f" "is_going f \<Longrightarrow> map_of (gw_arms w) i \<noteq> None"
  shows "gate_ok (await i f w)"
proof -
  note o = owedD [OF assms(1)] and a = owed_alone [OF assms(1)]
  have ok: "\<not> (is_planning f \<and> will_launch f)" by (cases f) simp_all
  have eq: "gw_ids (await i f w) = gw_ids w" "gw_seq (await i f w) = gw_seq w" "gw_settled (await i f w) = gw_settled w"
    "gw_handlers (await i f w) = gw_handlers w" "gw_items (await i f w) = gw_items w" "gw_arms (await i f w) = gw_arms w"
    "gw_flows (await i f w) = gw_flows w @ [(i, f)]" "undecided j (await i f w) = undecided j w" for j
    by (simp_all add: await_def)
  have w: "weight j (await i f w) = weight j w + (if j = i then 1 else 0)" for j
    using assms(2) ok by (auto simp: gate_counts eq await_def)
  show ?thesis
  proof (rule gate_okI)
    show "weight j (await i f w) = (if j \<in> set (gw_ids (await i f w)) then 1 else 0)" for j using o(1) [of j] w [of j] by (simp add: eq)
    show "skippable j (await i f w)" if "map_of (gw_handlers (await i f w)) j = Some MaySkip" for j
      using o(4) [of j] that assms(2) by (cases "j = i") (auto simp: skippable_def eq calm_def)
    show "on_screen j (await i f w)" if "undecided j (await i f w)" for j using o(5) [of j] that by (simp add: on_screen_def eq)
    show "acknowledged j (await i f w)" for j using o(6) [of j] by (simp add: acknowledged_def eq)
    show "map_of (gw_arms (await i f w)) j \<noteq> None" if "(j, f') \<in> set (gw_flows (await i f w))" "is_going f'" for j f'
      using o(7) [of j f'] that assms(3) by (auto simp: eq)
  qed (use o(2,3) in \<open>simp_all add: eq\<close>)
qed

lemma owed_start:
  assumes "owed i w" "calm i w"
  shows "gate_ok (start i b p w)"
proof -
  note o = owedD [OF assms(1)]
  have w: "weight j (start i b p w) = weight j w + (if j = i then 1 else 0)" for j
    by (simp add: gate_counts start_def undecided_def)
  show ?thesis
  proof (rule gate_okI)
    show "weight j (start i b p w) = (if j \<in> set (gw_ids (start i b p w)) then 1 else 0)" for j using o(1) [of j] w [of j] by (simp add: start_def)
    show "skippable j (start i b p w)" if "map_of (gw_handlers (start i b p w)) j = Some MaySkip" for j
      using o(4) [of j] that assms(2) by (cases "j = i") (auto simp: skippable_def start_def calm_def)
    show "on_screen j (start i b p w)" if "undecided j (start i b p w)" for j using o(5) [of j] that by (simp add: on_screen_def start_def)
    show "acknowledged j (start i b p w)" for j using o(6) [of j] by (simp add: acknowledged_def start_def)
    show "map_of (gw_arms (start i b p w)) j \<noteq> None" if "(j, f') \<in> set (gw_flows (start i b p w))" "is_going f'" for j f'
      using o(7) [of j f'] that by (simp add: start_def)
  qed (use o(2,3) in \<open>simp_all add: start_def\<close>)
qed

lemma owed_settle:
  assumes "owed i w"
  shows "owed i (settle i w)" "calm i (settle i w)"
proof -
  note o = owedD [OF assms] and a = owed_alone [OF assms]
  have w: "weight j (settle i w) = weight j w" for j
    using a(1) by (cases "j = i") (simp_all add: gate_counts settle_def)
  have sk: "skippable j (settle i w)" if "j \<noteq> i" "map_of (gw_handlers w) j = Some MaySkip" for j
    using o(4) [OF that] by (simp add: skippable_def settle_def)
  have "i \<le> gw_seq w" using o(2) a(2) by blast
  then show "owed i (settle i w)"
    by (intro owedI) (use o(1-3,5-7) w sk in \<open>auto simp: settle_def on_screen_def acknowledged_def\<close>)
  show "calm i (settle i w)" by (simp add: calm_def settle_def)
qed

lemma owed_told:
  assumes "owed i w" "tells (Some x)"
  shows "owed i (set_handler i NoAction (put i x w))" "calm i (set_handler i NoAction (put i x w))"
proof -
  let ?w = "set_handler i NoAction (put i x w)"
  note o = owedD [OF assms(1)] and a = owed_alone [OF assms(1)]
  have eq: "gw_ids ?w = gw_ids w" "gw_seq ?w = gw_seq w" "gw_settled ?w = gw_settled w" "gw_arms ?w = gw_arms w" "gw_flows ?w = gw_flows w"
    "map_of (gw_handlers ?w) j = (if j = i then Some NoAction else map_of (gw_handlers w) j)"
    "map_of (gw_items ?w) j = (if j = i then Some x else map_of (gw_items w) j)" "undecided j ?w = undecided j w" "weight j ?w = weight j w" for j
    by (simp_all add: set_handler_def put_def map_of_alist_update gate_counts)
  have sk: "skippable j ?w" if "j \<noteq> i" "map_of (gw_handlers w) j = Some MaySkip" for j
    using o(4) [OF that] by (simp add: skippable_def eq)
  have sc: "on_screen j ?w" if "undecided j w" for j using o(5) [OF that] that a(3) by (auto simp: on_screen_def eq)
  have ak: "acknowledged j ?w" for j using o(6) [of j] by (simp add: acknowledged_def eq)
  show "owed i ?w" by (rule owedI) (use o(1-3,7) sk sc ak in \<open>simp_all add: eq\<close>)
  show "calm i ?w" by (simp add: calm_def eq)
qed

lemma armApproval_eq:
  "gw_ids (armApproval i req e b w) = gw_ids w" "gw_seq (armApproval i req e b w) = gw_seq w" "gw_settled (armApproval i req e b w) = gw_settled w"
  "gw_flows (armApproval i req e b w) = gw_flows w" "gw_log (armApproval i req e b w) = gw_log w" "gw_dropped (armApproval i req e b w) = gw_dropped w"
  "map_of (gw_arms (armApproval i req e b w)) j =
     (if j = i then Some \<lparr>ar_req = req, ar_entry = e, ar_launched = False, ar_watching = True\<rparr> else map_of (gw_arms w) j)"
  "map_of (gw_handlers (armApproval i req e b w)) j = (if j = i then Some MayDecide else map_of (gw_handlers w) j)"
  "map_of (gw_items (armApproval i req e b w)) j = (if j = i then Some (ApprovalItem req e b) else map_of (gw_items w) j)"
  "undecided j (armApproval i req e b w) \<longleftrightarrow> j = i \<or> undecided j w"
  by (auto simp: armApproval_def put_def set_handler_def map_of_alist_update undecided_def)

lemma owed_arm:
  assumes "owed i w"
  shows "gate_ok (armApproval i req e b w)"
proof (rule gate_okI)
  note o = owedD [OF assms] and a = owed_alone [OF assms]
  let ?w = "armApproval i req e b w"
  have w: "weight j ?w = weight j w + (if j = i then 1 else 0)" for j
    using a(3) by (auto simp: gate_counts armApproval_eq)
  show "weight j ?w = (if j \<in> set (gw_ids ?w) then 1 else 0)" for j using o(1) [of j] w [of j] by (simp add: armApproval_eq)
  show "skippable j ?w" if "map_of (gw_handlers ?w) j = Some MaySkip" for j
    using o(4) [of j] that by (cases "j = i") (simp_all add: skippable_def armApproval_eq)
  show "on_screen j ?w" if "undecided j ?w" for j
    using o(5) [of j] that by (cases "j = i") (simp_all add: on_screen_def armApproval_eq)
  show "acknowledged j ?w" for j using o(6) [of j] by (simp add: acknowledged_def armApproval_eq)
  show "map_of (gw_arms ?w) j \<noteq> None" if "(j, f') \<in> set (gw_flows ?w)" "is_going f'" for j f'
    using o(7) [of j f'] that by (simp add: armApproval_eq)
qed (use owedD(2,3) [OF assms] in \<open>simp_all add: armApproval_eq\<close>)

lemma owed_await_start: "owed i w \<Longrightarrow> calm i w \<Longrightarrow> \<not> is_planning f \<Longrightarrow> \<not> will_launch f \<Longrightarrow> gate_ok (await i f (start i b p w))"
  by (rule gate_ok_await) (simp_all add: owed_start)

lemma gate_ok_brain:
  assumes "owed i w"
  shows "gate_ok (brain_answered i req planId a w)"
proof -
  have s: "owed i (settle i w)" "calm i (settle i w)" by (rule owed_settle [OF assms])+
  have t: "owed i (set_handler i NoAction (put i (NoteItem req m) (settle i w)))"
    "calm i (set_handler i NoAction (put i (NoteItem req m) (settle i w)))" for m
    by (rule owed_told [OF s(1)]; simp)+
  have p: "gate_ok (await i f (settle i w))" if "will_launch f" "\<not> is_going f" for f
    using owed_await [OF s(1), of f] s(2) that by simp
  show ?thesis
    using owed_await_start [OF t] p by (simp add: brain_answered_def Let_def split: sum.split option.split)
qed

lemma gate_ok_armed: "gate_ok w \<Longrightarrow> gate_ok (w\<lparr>gw_armed := p\<rparr>)"
proof -
  assume ok: "gate_ok w"
  have "weight j (w\<lparr>gw_armed := p\<rparr>) = weight j w" for j by (simp add: gate_counts)
  then show ?thesis using gate_okD [OF ok] by (intro gate_okI) (simp_all add: on_screen_def acknowledged_def skippable_def)
qed

text \<open>A restored plan takes the next number.\<close>

lemma gate_ok_seq: "gate_ok w \<Longrightarrow> gate_ok (w\<lparr>gw_seq := Suc (gw_seq w)\<rparr>)"
proof -
  assume ok: "gate_ok w"
  have "weight j (w\<lparr>gw_seq := n\<rparr>) = weight j w" for j n by (simp add: gate_counts)
  moreover have "j \<in> set (gw_ids w) \<Longrightarrow> 0 < j \<and> j \<le> Suc (gw_seq w)" "j \<in> set (gw_settled w) \<Longrightarrow> j \<le> Suc (gw_seq w)" for j
    using gate_okD(2,3) [OF ok] le_SucI by blast+
  ultimately show ?thesis using gate_okD(1,4-7) [OF ok] by (intro gate_okI) (simp_all add: on_screen_def acknowledged_def skippable_def)
qed

lemma owed_new:
  assumes "gate_ok w"
  shows "owed (Suc (gw_seq w)) (w\<lparr>gw_seq := Suc (gw_seq w), gw_ids := Suc (gw_seq w) # gw_ids w, gw_armed := p\<rparr>)"
proof -
  let ?i = "Suc (gw_seq w)" and ?w = "w\<lparr>gw_seq := Suc (gw_seq w), gw_ids := Suc (gw_seq w) # gw_ids w, gw_armed := p\<rparr>"
  note ok = gate_okD [OF assms]
  have w: "weight j ?w = weight j w" for j by (simp add: gate_counts)
  have "?i \<notin> set (gw_ids w)" using ok(2) [of ?i] by auto
  then have "weight j ?w + (if j = ?i then 1 else 0) = (if j \<in> set (gw_ids ?w) then 1 else 0)" for j using ok(1) [of j] w [of j] by auto
  moreover have "j \<in> set (gw_ids w) \<Longrightarrow> 0 < j \<and> j \<le> Suc (gw_seq w)" "j \<in> set (gw_settled w) \<Longrightarrow> j \<le> Suc (gw_seq w)" for j
    using ok(2,3) le_SucI by blast+
  ultimately show ?thesis
    using ok(4-7) by (intro owedI) (auto simp: on_screen_def acknowledged_def skippable_def)
qed

lemma new_is_calm:
  assumes "gate_ok w"
  shows "calm (Suc (gw_seq w)) (w\<lparr>gw_seq := Suc (gw_seq w), gw_ids := Suc (gw_seq w) # gw_ids w, gw_armed := p\<rparr>)"
proof -
  let ?i = "Suc (gw_seq w)"
  note ok = gate_okD [OF assms]
  have "weight ?i w = 0" using ok(1,2) [of ?i] by auto
  moreover have "?i \<notin> set (gw_settled w)" using ok(3) [of ?i] by auto
  ultimately have "\<not> skippable ?i w" by (simp add: skippable_def gate_counts)
  then show ?thesis using ok(4) [of ?i] by (auto simp: calm_def)
qed

lemma gate_ok_restore_row: "gate_ok (snd sw) \<Longrightarrow> gate_ok (snd (restore_row knows made e sw))"
proof -
  assume ok: "gate_ok (snd sw)"
  let ?w = "snd sw"
  have n: "gate_ok (armApproval (Suc (gw_seq ?w)) req e b (?w\<lparr>gw_seq := Suc (gw_seq ?w), gw_ids := Suc (gw_seq ?w) # gw_ids ?w\<rparr>))" for req b
    using owed_arm [OF owed_new [OF ok, of "gw_armed ?w"]] by simp
  have m: "gate_ok (await (Suc (gw_seq ?w)) (ResumeExpecting d r) (?w\<lparr>gw_seq := Suc (gw_seq ?w), gw_ids := Suc (gw_seq ?w) # gw_ids ?w, gw_armed := p\<rparr>))" for d r p
    using new_is_calm [OF ok] by (intro owed_await [OF owed_new [OF ok]]) simp_all
  show ?thesis
    using ok n m gate_ok_seq [OF ok] by (simp add: restore_row_def Let_def split: option.split)
qed

lemma gate_ok_restore_dirs: "gate_ok w \<Longrightarrow> gate_ok (restore_dirs ds seen knows w)"
  by (induction ds) (simp_all add: gate_ok_await)

lemma gate_ok_resumed:
  assumes "gate_ok w" "n < length (gw_flows w)" "gw_flows w ! n = (i, f)" "fits f r"
  shows "gate_ok (resumed i f r (without n w))"
proof -
  note out = gate_ok_without [OF assms(1-3)] and own = owed_without [OF assms(1-3)]
  have s [simp]: "gw_settled (without n w) = gw_settled w" "gw_arms (without n w) = gw_arms w" by simp_all
  show ?thesis
  proof (cases f)
    case (Gathering req)
    show ?thesis
    proof (cases "i \<in> set (gw_settled w)")
      case False
      have "gate_ok (await i (Asking req) (without n w))"
        by (rule owed_await) (use own(1) False in \<open>simp_all add: Gathering\<close>)
      then show ?thesis using False by (simp add: Gathering)
    qed (use out in \<open>simp add: Gathering\<close>)
  next
    case (Asking req)
    obtain p a where r: "r = Brain p a" using assms(4) by (cases r) (simp_all add: Asking)
    show ?thesis
    proof (cases "i \<in> set (gw_settled w)")
      case False
      then show ?thesis using gate_ok_brain [OF own(1)] by (simp add: Asking r)
    qed (use out in \<open>simp add: Asking r\<close>)
  next
    case (PersistingInline req d)
    obtain e where r: "r = Entry e" using assms(4) by (cases r) (simp_all add: PersistingInline)
    have "owed i (without n w)" using own(1) by (simp add: PersistingInline)
    note t = owed_told [OF this, of "InlineItem req (persisted d PApproved e)"]
    have "gate_ok (await i (ExpectingInline req d) (set_handler i NoAction (put i (InlineItem req (persisted d PApproved e)) (without n w))))"
      by (rule owed_await) (use t in simp_all)
    then show ?thesis by (simp add: PersistingInline r)
  next
    case (ExpectingInline req d)
    then show ?thesis using own by (simp add: owed_await_start)
  next
    case (PersistingWaiting req d)
    obtain e where r: "r = Entry e" using assms(4) by (cases r) (simp_all add: PersistingWaiting)
    show ?thesis using owed_arm own(1) by (simp add: PersistingWaiting r)
  next
    case (Approving d)
    obtain e where r: "r = Entry e" using assms(4) by (cases r) (simp_all add: Approving)
    show ?thesis using out by (simp add: Approving r gate_ok_go)
  next
    case (GoExpecting d)
    have "map_of (gw_arms w) i \<noteq> None" using gate_okD(7) [OF assms(1), of i f] assms(2,3) nth_mem [OF assms(2)] by (simp add: GoExpecting)
    then show ?thesis using own by (simp add: GoExpecting owed_await)
  next
    case (GoRevising d)
    have "map_of (gw_arms w) i \<noteq> None" using gate_okD(7) [OF assms(1), of i f] assms(2,3) nth_mem [OF assms(2)] by (simp add: GoRevising)
    then show ?thesis using own by (auto simp: GoRevising Let_def owed_await_start)
  next
    case (Restoring ds seen knows)
    obtain rows made where r: "r = Rows rows made" using assms(4) by (cases r) (simp_all add: Restoring)
    have "gate_ok (snd sw) \<Longrightarrow> gate_ok (snd (fold (restore_row knows made) rows sw))" for sw
      by (induction rows arbitrary: sw) (simp_all add: gate_ok_restore_row)
    then have "gate_ok (snd (fold (restore_row knows made) rows (seen, without n w)))" using out by (simp add: Restoring)
    then show ?thesis by (simp add: Restoring r Let_def gate_ok_restore_dirs)
  next
    case (ResumeExpecting d full)
    have "gate_ok (await i (ResumeRevising d full) (without n w))"
      by (rule owed_await) (use own in \<open>simp_all add: ResumeExpecting\<close>)
    then show ?thesis by (simp add: ResumeExpecting)
  next
    case (ResumeRevising d full)
    then show ?thesis using own by (simp add: owed_await_start)
  qed (use out in \<open>simp_all add: gate_ok_armed\<close>)
qed

lemma gate_ok_step: "gate_ok w \<Longrightarrow> gate_ok (gate_step e w)"
proof (cases e)
  case (Returns n r)
  assume ok: "gate_ok w"
  show ?thesis using ok gate_ok_resumed [OF ok] by (auto simp: Returns returned_def split: prod.split)
qed (simp_all add: gate_ok_dispatch gate_ok_skip gate_ok_approve gate_ok_drop gate_ok_dismiss gate_ok_waiting gate_ok_appended
  restoreWaitingPlans_def gate_ok_restore_dirs)

lemma gate_ok_run: "gate_ok (gate_run es new_window)"
proof -
  have "gate_ok w \<Longrightarrow> gate_ok (fold gate_step es w)" for w
    by (induction es arbitrary: w) (simp_all add: gate_ok_step)
  moreover have "gate_ok new_window"
    by (simp add: gate_ok_def new_window_def gate_counts undecided_def acknowledged_def)
  ultimately show ?thesis by (simp add: gate_run_def)
qed

text \<open>C7: Whatever happens in whatever order, each dispatch is launched once, or dropped, or shown for approval with a launch that is
  armed, or some call of it has yet to return: never two of these, and never none.\<close>

theorem dispatch_is_accounted_for:
  "let w = gate_run es new_window in
     launches i w + count_list (gw_dropped w) i + (if undecided i w then 1 else 0) + pending_calls i w = (if i \<in> set (gw_ids w) then 1 else 0)
     \<and> (undecided i w \<longrightarrow> on_screen i w)"
  using gate_okD(1,5) [OF gate_ok_run, of i es] by (auto simp: Let_def weight_def)

section \<open>Why an agent was started\<close>

text \<open>What in a history lets dispatch \<^term>\<open>i\<close> start: the person skipped planning, or there was no plan; the plan \<^term>\<open>p\<close> was of low
  risk, not large, and touched nothing shared; or someone approved it.\<close>

fun lets_start :: "nat \<Rightarrow> gate_event \<Rightarrow> bool" where
  "lets_start i (Skip j) \<longleftrightarrow> j = i"
| "lets_start i (Returns _ (Brain _ (Inl _))) \<longleftrightarrow> True"
| "lets_start i (Returns _ (Brain _ (Inr None))) \<longleftrightarrow> True"
| "lets_start i _ \<longleftrightarrow> False"

definition harmless_draft :: "plan_draft \<Rightarrow> bool" where
  "harmless_draft d \<longleftrightarrow> pl_risk d = LowRisk \<and> pl_size d \<noteq> LargeSize \<and> list_all (\<lambda>t. hotspotReason t = None) (pl_touches d)"

fun brings_harmless :: "js_string \<Rightarrow> gate_event \<Rightarrow> bool" where
  "brings_harmless p (Returns _ (Brain q (Inr (Some d)))) \<longleftrightarrow> q = p \<and> harmless_draft d"
| "brings_harmless p _ \<longleftrightarrow> False"

fun asks_for :: "nat \<Rightarrow> gate_event \<Rightarrow> bool" where
  "asks_for i (Approve j _ _) \<longleftrightarrow> j = i"
| "asks_for i _ \<longleftrightarrow> False"

definition approved_entry :: "js_string \<Rightarrow> plan_entry \<Rightarrow> bool" where
  "approved_entry p e \<longleftrightarrow> pe_status e = PApproved \<and> pl_planId (pe_data e) = p"

fun brings_approval :: "js_string \<Rightarrow> gate_event \<Rightarrow> bool" where
  "brings_approval p (Appended x) \<longleftrightarrow> approved_entry p x"
| "brings_approval p (Returns _ (Rows rows _)) \<longleftrightarrow> list_ex (\<lambda>x. approved_entry p x \<and> pl_launchedAt (pe_data x) = None) rows"
| "brings_approval p _ \<longleftrightarrow> False"

definition unplanned :: "gate_event list \<Rightarrow> nat \<Rightarrow> bool" where
  "unplanned es i \<longleftrightarrow> list_ex (lets_start i) es"

definition harmless :: "gate_event list \<Rightarrow> js_string \<Rightarrow> bool" where
  "harmless es p \<longleftrightarrow> list_ex (brings_harmless p) es"

definition asked_for :: "gate_event list \<Rightarrow> nat \<Rightarrow> bool" where
  "asked_for es i \<longleftrightarrow> list_ex (asks_for i) es"

definition approved_in :: "gate_event list \<Rightarrow> nat \<Rightarrow> js_string \<Rightarrow> bool" where
  "approved_in es i p \<longleftrightarrow> asked_for es i \<or> list_ex (brings_approval p) es"

definition permitted :: "gate_event list \<Rightarrow> nat \<times> js_string \<times> js_string option \<Rightarrow> bool" where
  "permitted es l = (case l of (i, _, None) \<Rightarrow> unplanned es i | (i, _, Some p) \<Rightarrow> harmless es p \<or> approved_in es i p)"

definition arm_plan :: "gate_window \<Rightarrow> nat \<Rightarrow> js_string option" where
  "arm_plan w i = map_option (\<lambda>a. pl_planId (pe_data (ar_entry a))) (map_of (gw_arms w) i)"

fun flow_permitted :: "gate_event list \<Rightarrow> (nat \<Rightarrow> js_string option) \<Rightarrow> nat \<times> flow \<Rightarrow> bool" where
  "flow_permitted es m (i, PersistingInline _ d) \<longleftrightarrow> harmless es (pl_planId d)"
| "flow_permitted es m (i, ExpectingInline _ d) \<longleftrightarrow> harmless es (pl_planId d)"
| "flow_permitted es m (i, Approving d) \<longleftrightarrow> asked_for es i"
| "flow_permitted es m (i, GoExpecting d) \<longleftrightarrow> (case m i of Some p \<Rightarrow> approved_in es i p | None \<Rightarrow> True)"
| "flow_permitted es m (i, GoRevising d) \<longleftrightarrow> (case m i of Some p \<Rightarrow> approved_in es i p | None \<Rightarrow> True)"
| "flow_permitted es m (i, ResumeExpecting d _) \<longleftrightarrow> approved_in es i (pl_planId d)"
| "flow_permitted es m (i, ResumeRevising d _) \<longleftrightarrow> approved_in es i (pl_planId d)"
| "flow_permitted es m (i, f) \<longleftrightarrow> True"

definition permits :: "gate_event list \<Rightarrow> gate_window \<Rightarrow> bool" where
  "permits es w \<longleftrightarrow> list_all (permitted es) (gw_log w) \<and> list_all (flow_permitted es (arm_plan w)) (gw_flows w)"

lemma permitted_more: "permitted es l \<Longrightarrow> permitted (es @ [e]) l"
  by (auto simp: permitted_def unplanned_def harmless_def approved_in_def asked_for_def split: prod.splits option.splits)

lemma flow_permitted_more: "flow_permitted es m x \<Longrightarrow> flow_permitted (es @ [e]) m x"
  by (induction es m x rule: flow_permitted.induct) (auto simp: harmless_def approved_in_def asked_for_def split: option.splits)

lemma permits_more: "permits es w \<Longrightarrow> permits (es @ [e]) w"
  by (auto simp: permits_def list_all_iff permitted_more flow_permitted_more)

lemma arm_plan_simps [simp]:
  "arm_plan (put i x w) = arm_plan w" "arm_plan (set_handler i h w) = arm_plan w" "arm_plan (await i f w) = arm_plan w"
  "arm_plan (settle i w) = arm_plan w" "arm_plan (start i b p w) = arm_plan w" "arm_plan (remove_item i w) = arm_plan w"
  "arm_plan (map_arm i (\<lambda>a. a\<lparr>ar_launched := True\<rparr>) w) = arm_plan w"
  "arm_plan (w\<lparr>gw_flows := fs\<rparr>) = arm_plan w" "arm_plan (w\<lparr>gw_armed := ps\<rparr>) = arm_plan w" "arm_plan (w\<lparr>gw_ids := is\<rparr>) = arm_plan w"
  "arm_plan (w\<lparr>gw_seq := n\<rparr>) = arm_plan w" "arm_plan (w\<lparr>gw_dropped := d\<rparr>) = arm_plan w" "arm_plan (w\<lparr>gw_unplanned := u\<rparr>) = arm_plan w"
  by (auto simp: arm_plan_def gate_prims map_of_alist_update fun_eq_iff split: option.split)

lemma permits_prims [simp]:
  "permits es (put i x w) \<longleftrightarrow> permits es w" "permits es (set_handler i h w) \<longleftrightarrow> permits es w" "permits es (settle i w) \<longleftrightarrow> permits es w"
  "permits es (await i f w) \<longleftrightarrow> permits es w \<and> flow_permitted es (arm_plan w) (i, f)"
  "permits es (start i b p w) \<longleftrightarrow> permits es w \<and> permitted es (i, b, p)" "permits es (remove_item i w) \<longleftrightarrow> permits es w"
  "permits es (map_arm i (\<lambda>a. a\<lparr>ar_launched := True\<rparr>) w) \<longleftrightarrow> permits es w" "permits es (w\<lparr>gw_armed := q\<rparr>) \<longleftrightarrow> permits es w"
  "permits es (w\<lparr>gw_ids := is\<rparr>) \<longleftrightarrow> permits es w" "permits es (w\<lparr>gw_seq := n\<rparr>) \<longleftrightarrow> permits es w"
  "permits es (w\<lparr>gw_dropped := d\<rparr>) \<longleftrightarrow> permits es w" "permits es (w\<lparr>gw_unplanned := u\<rparr>) \<longleftrightarrow> permits es w"
  by (simp_all add: permits_def) (auto simp: gate_prims split: option.split)

lemma permits_go: "permits es w \<Longrightarrow> (\<And>p. arm_plan w i = Some p \<Longrightarrow> approved_in es i p) \<Longrightarrow> permits es (go i d w)"
  by (auto simp: go_def split: option.split)

text \<open>Arming a plan does not touch a dispatch that is going, which is another one.\<close>

lemma permits_arm:
  assumes "permits es w" "calls will_launch i (gw_flows w) = 0"
  shows "permits es (armApproval i req e b w)"
proof -
  have fl: "\<not> will_launch f" if "(i, f) \<in> set (gw_flows w)" for f
    using assms(2) that by (auto simp: calls_def filter_empty_conv)
  have "flow_permitted es (arm_plan (armApproval i req e b w)) (j, f)" if x: "(j, f) \<in> set (gw_flows w)" for j f
  proof -
    have p: "flow_permitted es (arm_plan w) (j, f)" using assms(1) x by (auto simp: permits_def list_all_iff)
    show ?thesis
    proof (cases "j = i")
      case True
      then have "\<not> will_launch f" using fl x by blast
      then show ?thesis using p by (cases f) simp_all
    next
      case False
      then have "arm_plan (armApproval i req e b w) j = arm_plan w j" by (simp add: arm_plan_def armApproval_eq)
      then show ?thesis using p by (cases f) simp_all
    qed
  qed
  then show ?thesis using assms(1) by (auto simp: permits_def list_all_iff armApproval_eq)
qed

lemma map_filter_Nil: "List.map_filter f xs = [] \<longleftrightarrow> list_all (\<lambda>x. f x = None) xs"
  by (induction xs) (auto simp: List.map_filter_simps split: option.split)

lemma inline_harmless: "fst (planGate d) = Inline \<Longrightarrow> harmless_draft d"
  by (auto simp: harmless_draft_def planGate_def Let_def gate_reasons_def distinct_of_def map_filter_Nil split: if_splits)

lemma permits_brain:
  assumes "permits es w" "Returns n (Brain planId a) \<in> set es"
  shows "permits es (brain_answered i req planId a w)"
proof (cases a)
  case (Inl r)
  then have "unplanned es i" using assms(2) unfolding unplanned_def list_ex_iff by force
  then show ?thesis using assms(1) by (simp add: Inl brain_answered_def permitted_def)
next
  case (Inr m)
  show ?thesis
  proof (cases m)
    case None
    then have "unplanned es i" using assms(2) unfolding unplanned_def list_ex_iff by (force simp: Inr)
    then show ?thesis using assms(1) by (simp add: Inr None brain_answered_def permitted_def)
  next
    case (Some d)
    have "harmless es planId" if "fst (planGate d) = Inline"
      unfolding harmless_def list_ex_iff using inline_harmless [OF that] assms(2) by (force simp: Inr Some)
    then show ?thesis using assms(1) by (simp add: Inr Some brain_answered_def Let_def base_plan_def)
  qed
qed

lemma permits_dispatch: "permits es w \<Longrightarrow> permits es (dispatchWithPlan enabled req w)"
  by (simp add: dispatchWithPlan_def Let_def)

lemma permits_skip: "permits es w \<Longrightarrow> Skip i \<in> set es \<Longrightarrow> permits es (skipPlanning i w)"
proof -
  assume "Skip i \<in> set es"
  then have "unplanned es i" unfolding unplanned_def list_ex_iff by force
  then show "permits es w \<Longrightarrow> permits es (skipPlanning i w)"
    by (simp add: skipPlanning_def permitted_def split: option.split gate_item.split)
qed

lemma permits_approve: "permits es w \<Longrightarrow> Approve i ed now \<in> set es \<Longrightarrow> permits es (approvePlan i ed now w)"
proof -
  assume "Approve i ed now \<in> set es"
  then have "asked_for es i" unfolding asked_for_def list_ex_iff by force
  then show "permits es w \<Longrightarrow> permits es (approvePlan i ed now w)" by (simp add: approvePlan_def split: option.split)
qed

lemma permits_drop: "permits es w \<Longrightarrow> permits es (dropPlan i w)"
  by (simp add: dropPlan_def Let_def split: option.split)

lemma permits_items: "permits es w \<Longrightarrow> permits es (dismissGateItem i w)" "permits es w \<Longrightarrow> permits es (setPlanWaiting i b w)"
  by (simp_all add: dismissGateItem_def setPlanWaiting_def split: option.split gate_item.split)

lemma permits_appended: "permits es w \<Longrightarrow> Appended e \<in> set es \<Longrightarrow> permits es (ledger_appended e w)"
proof -
  assume e: "Appended e \<in> set es"
  have "permits es (hear e i w)" if "permits es w" for i w
  proof (cases "\<exists>a. map_of (gw_arms w) i = Some a \<and> hears a e")
    case True
    then obtain a where a: "map_of (gw_arms w) i = Some a" "hears a e" by blast
    then have "approved_entry (pl_planId (pe_data (ar_entry a))) e" by (simp add: hears_def approved_entry_def)
    then have "approved_in es i (pl_planId (pe_data (ar_entry a)))" using e unfolding approved_in_def list_ex_iff by force
    then show ?thesis using permits_go [OF that, of i "pe_data e"] a by (simp add: hear_def arm_plan_def)
  next
    case False
    then show ?thesis using that by (auto simp: hear_def split: option.split)
  qed
  then have "permits es w \<Longrightarrow> permits es (fold (hear e) is w)" for "is" w by (induction "is" arbitrary: w) simp_all
  then show "permits es w \<Longrightarrow> permits es (ledger_appended e w)" by (simp add: ledger_appended_def)
qed

lemma permits_restore_dirs: "permits es w \<Longrightarrow> permits es (restore_dirs ds seen knows w)"
  by (induction ds) simp_all

lemma gate_ok_new_calls:
  assumes "gate_ok w"
  shows "calls will_launch (Suc (gw_seq w)) (gw_flows w) = 0"
proof -
  have "Suc (gw_seq w) \<notin> set (gw_ids w)" using gate_okD(2) [OF assms] by fastforce
  then show ?thesis using gate_okD(1) [OF assms, of "Suc (gw_seq w)"] by (simp add: gate_counts)
qed

lemma permits_restore_row:
  assumes "permits es (snd sw)" "gate_ok (snd sw)" "Returns n (Rows rows made) \<in> set es" "e \<in> set rows"
  shows "permits es (snd (restore_row knows made e sw))"
proof -
  let ?w = "snd sw" and ?d = "pe_data e"
  have "permits es (armApproval (Suc (gw_seq ?w)) req e b (?w\<lparr>gw_seq := n, gw_ids := is\<rparr>))" for req b n "is"
    using permits_arm [of es "?w\<lparr>gw_seq := n, gw_ids := is\<rparr>"] gate_ok_new_calls [OF assms(2)] assms(1) by simp
  moreover have "approved_in es i (pl_planId ?d)" if "pe_status e = PApproved" "pl_launchedAt ?d = None" for i
  proof -
    have "brings_approval (pl_planId ?d) (Returns n (Rows rows made))"
      using that assms(4) by (auto simp: approved_entry_def list_ex_iff)
    then show ?thesis using assms(3) unfolding approved_in_def list_ex_iff by blast
  qed
  ultimately show ?thesis using assms(1) by (simp add: restore_row_def Let_def split: option.split)
qed

lemma permits_rows:
  assumes "permits es (snd sw)" "gate_ok (snd sw)" "Returns n (Rows rows made) \<in> set es" "set xs \<subseteq> set rows"
  shows "permits es (snd (fold (restore_row knows made) xs sw))"
  using assms(1,2,4)
proof (induction xs arbitrary: sw)
  case (Cons e xs)
  have "permits es (snd (restore_row knows made e sw))" using permits_restore_row [OF Cons.prems(1,2) assms(3)] Cons.prems(3) by simp
  then show ?case using Cons.IH [OF _ gate_ok_restore_row [OF Cons.prems(2)]] Cons.prems(3) by simp
qed simp

lemma permits_without: "permits es w \<Longrightarrow> permits es (without n w)"
  by (auto simp: permits_def list_all_iff dest: in_set_takeD in_set_dropD)

lemma permits_resumed:
  assumes "permits es w" "gate_ok w" "n < length (gw_flows w)" "gw_flows w ! n = (i, f)" "fits f r" "Returns n r \<in> set es"
  shows "permits es (resumed i f r (without n w))"
proof -
  have p: "permits es (without n w)" by (rule permits_without [OF assms(1)])
  have f: "flow_permitted es (arm_plan (without n w)) (i, f)"
    using assms(1,3,4) nth_mem [OF assms(3)] by (auto simp: permits_def list_all_iff)
  note own = owed_without [OF assms(2-4)]
  show ?thesis
  proof (cases f)
    case (Asking req)
    obtain q a where r: "r = Brain q a" using assms(5) by (cases r) (simp_all add: Asking)
    then show ?thesis using permits_brain [OF p, of n q a] assms(6) p by (simp add: Asking)
  next
    case (PersistingInline req d)
    obtain e where r: "r = Entry e" using assms(5) by (cases r) (simp_all add: PersistingInline)
    show ?thesis using p f by (simp add: PersistingInline r)
  next
    case (PersistingWaiting req d)
    obtain e where r: "r = Entry e" using assms(5) by (cases r) (simp_all add: PersistingWaiting)
    have "weight i (without n w) = 0" using own(1) owed_alone(1) by (simp add: PersistingWaiting)
    then have "calls will_launch i (gw_flows (without n w)) = 0" by (simp add: gate_counts)
    then show ?thesis using permits_arm [OF p] by (simp add: PersistingWaiting r)
  next
    case (Approving d)
    obtain e where r: "r = Entry e" using assms(5) by (cases r) (simp_all add: Approving)
    have "approved_in es i q" for q using f by (simp add: Approving approved_in_def)
    then show ?thesis using permits_go [OF p] by (simp add: Approving r)
  next
    case (GoRevising d)
    show ?thesis using p f by (auto simp: GoRevising Let_def arm_plan_def permitted_def split: option.split)
  next
    case (Restoring ds seen knows)
    obtain rows made where r: "r = Rows rows made" using assms(5) by (cases r) (simp_all add: Restoring)
    have "gate_ok (without n w)" by (rule gate_ok_without [OF assms(2-4)]) (simp_all add: Restoring)
    then have "permits es (snd (fold (restore_row knows made) rows (seen, without n w)))"
      using permits_rows [of es "(seen, without n w)" n rows made rows knows] p assms(6) by (simp add: r)
    then show ?thesis by (simp add: Restoring r Let_def permits_restore_dirs)
  qed (use p f in \<open>simp_all add: permitted_def\<close>)
qed

lemma permits_step: "permits es w \<Longrightarrow> gate_ok w \<Longrightarrow> e \<in> set es \<Longrightarrow> permits es (gate_step e w)"
proof (cases e)
  case (Returns n r)
  assume a: "permits es w" "gate_ok w" "e \<in> set es"
  then show ?thesis using permits_resumed [OF a(1,2)] by (auto simp: Returns returned_def split: prod.split)
qed (simp_all add: permits_dispatch permits_skip permits_approve permits_drop permits_items permits_appended restoreWaitingPlans_def permits_restore_dirs)

lemma permits_run: "permits es (gate_run es new_window)"
proof (induction es rule: rev_induct)
  case Nil
  show ?case by (simp add: gate_run_def permits_def new_window_def)
next
  case (snoc e es)
  have "permits (es @ [e]) (gate_step e (gate_run es new_window))"
    by (rule permits_step [OF permits_more [OF snoc.IH] gate_ok_run]) simp
  then show ?case by (simp add: gate_run_def)
qed


section \<open>Planning never holds the work up\<close>

text \<open>Every call fails, or returns nothing of use: no brain, no ledger, no repository.\<close>

fun failing :: "flow \<Rightarrow> reply" where
  "failing (Asking _) = Brain [] (Inl ''failed'')"
| "failing (PersistingInline _ _) = Entry None"
| "failing (PersistingWaiting _ _) = Entry None"
| "failing (Approving _) = Entry None"
| "failing (Restoring _ _ _) = Rows [] []"
| "failing _ = Plain"

fun rank :: "flow \<Rightarrow> nat" where
  "rank (Gathering _) = 3"
| "rank (Asking _) = 2"
| "rank (PersistingInline _ _) = 3"
| "rank (ExpectingInline _ _) = 2"
| "rank (Approving _) = 4"
| "rank (GoExpecting _) = 3"
| "rank (GoRevising _) = 2"
| "rank (Restoring ds _ _) = Suc (length ds)"
| "rank (ResumeExpecting _ _) = 3"
| "rank (ResumeRevising _ _) = 2"
| "rank _ = 1"

definition ranks :: "gate_window \<Rightarrow> nat" where
  "ranks w = sum_list (map (rank \<circ> snd) (gw_flows w))"

definition fail_first :: "gate_window \<Rightarrow> gate_window" where
  "fail_first w = (case gw_flows w of [] \<Rightarrow> w | x # _ \<Rightarrow> returned 0 (failing (snd x)) w)"

definition all_failed :: "gate_window \<Rightarrow> gate_window" where
  "all_failed w = (fail_first ^^ ranks w) w"

lemma ranks_prims [simp]:
  "ranks (put i x w) = ranks w" "ranks (set_handler i h w) = ranks w" "ranks (settle i w) = ranks w" "ranks (start i b p w) = ranks w"
  "ranks (await i f w) = ranks w + rank f" "ranks (remove_item i w) = ranks w" "ranks (map_arm i g w) = ranks w" "ranks (w\<lparr>gw_armed := q\<rparr>) = ranks w"
  "ranks (armApproval i req e v w) = ranks w"
  by (simp_all add: ranks_def remove_item_eq map_arm_eq armApproval_eq) (simp_all add: gate_prims)

lemma ranks_go: "ranks (go i d w) \<le> ranks w + 3"
  by (simp add: go_def split: option.split)

lemma ranks_restore_dirs: "ranks (restore_dirs ds seen knows w) \<le> ranks w + length ds"
  by (induction ds) simp_all

lemma ranks_resumed: "ranks (resumed i f (failing f) w) < ranks w + rank f"
proof (cases f)
  case (Approving d)
  then show ?thesis using ranks_go [of i d w] by simp
next
  case (Restoring ds seen knows)
  then show ?thesis using ranks_restore_dirs [of ds seen knows w] by (simp add: Let_def)
qed (simp_all add: brain_answered_def Let_def split: option.split)

lemma fits_failing: "fits f (failing f)"
  by (cases f) simp_all

lemma fail_first_cons:
  assumes "gw_flows w = (i, f) # fs"
  shows "fail_first w = resumed i f (failing f) (w\<lparr>gw_flows := fs\<rparr>)"
  using assms by (simp add: fail_first_def returned_def fits_failing)

lemma ranks_fail_first: "gw_flows w \<noteq> [] \<Longrightarrow> ranks (fail_first w) < ranks w"
proof -
  assume "gw_flows w \<noteq> []"
  then obtain i f fs where w: "gw_flows w = (i, f) # fs" by (cases "gw_flows w") auto
  have "ranks w = ranks (w\<lparr>gw_flows := fs\<rparr>) + rank f" by (simp add: ranks_def w)
  then show "ranks (fail_first w) < ranks w" using ranks_resumed [of i f "w\<lparr>gw_flows := fs\<rparr>"] fail_first_cons [OF w] by simp
qed

lemma rank_pos: "0 < rank f"
  by (cases f) simp_all

lemma ranks_zero: "ranks w = 0 \<longleftrightarrow> gw_flows w = []"
  using rank_pos by (auto simp: ranks_def sum_list_eq_0_iff) (metis less_numeral_extra(3) neq_Nil_conv surj_pair list.set_intros(1))

lemma fail_first_done: "gw_flows w = [] \<Longrightarrow> (fail_first ^^ n) w = w"
  by (induction n) (simp_all add: fail_first_def)

lemma all_failed_returns: "ranks w \<le> n \<Longrightarrow> gw_flows ((fail_first ^^ n) w) = []"
proof (induction n arbitrary: w)
  case (Suc n)
  show ?case
  proof (cases "gw_flows w = []")
    case False
    then have "ranks (fail_first w) \<le> n" using ranks_fail_first [OF False] Suc.prems by simp
    then show ?thesis using Suc.IH by (simp add: funpow_swap1)
  next
    case True
    then show ?thesis using fail_first_done [OF True, of "Suc n"] by simp
  qed
qed (simp add: ranks_zero)

lemma fail_first_step: "\<exists>es. fail_first w = gate_run es w"
proof (cases "gw_flows w")
  case Nil
  then have "fail_first w = gate_run [] w" by (simp add: fail_first_def gate_run_def)
  then show ?thesis by blast
next
  case (Cons x fs)
  then have "fail_first w = gate_run [Returns 0 (failing (snd x))] w" by (simp add: fail_first_def gate_run_def)
  then show ?thesis by blast
qed

lemma gate_run_append: "gate_run (es @ es') w = gate_run es' (gate_run es w)"
  by (simp add: gate_run_def)

lemma all_failed_run: "\<exists>es. (fail_first ^^ n) w = gate_run es w"
proof (induction n)
  case 0
  show ?case by (rule exI [of _ "[]"]) (simp add: gate_run_def)
next
  case (Suc n)
  then obtain es where "(fail_first ^^ n) w = gate_run es w" by blast
  moreover obtain es' where "fail_first ((fail_first ^^ n) w) = gate_run es' ((fail_first ^^ n) w)" using fail_first_step by blast
  ultimately have "(fail_first ^^ Suc n) w = gate_run (es @ es') w" by (simp add: gate_run_append)
  then show ?case by blast
qed

lemma gate_ids_grow: "set (gw_ids w) \<subseteq> set (gw_ids (resumed i f (failing f) w))"
proof (cases f)
  case (Restoring ds seen knows)
  have "gw_ids (restore_dirs ds seen knows w) = gw_ids w" by (induction ds) (simp_all add: await_def)
  then show ?thesis by (simp add: Restoring Let_def)
qed (auto simp: brain_answered_def Let_def go_def gate_prims armApproval_def split: option.split)

lemma fail_first_ids: "set (gw_ids w) \<subseteq> set (gw_ids (fail_first w))"
proof (cases "gw_flows w")
  case (Cons x fs)
  obtain i f where x: "x = (i, f)" by (cases x)
  show ?thesis using gate_ids_grow [of "w\<lparr>gw_flows := fs\<rparr>" i f] fail_first_cons [of w i f fs] Cons x by simp
qed (simp add: fail_first_def)

lemma all_failed_ids: "set (gw_ids w) \<subseteq> set (gw_ids ((fail_first ^^ n) w))"
  by (induction n) (use fail_first_ids in fastforce)+

text \<open>C9: After any history, when every call that has not returned fails, each dispatch is launched exactly once, or was dropped by a
  person, or is on screen for approval.\<close>

theorem planning_never_holds_work_up:
  assumes "i \<in> set (gw_ids (gate_run es new_window))"
  shows "let w = all_failed (gate_run es new_window) in
     gw_flows w = [] \<and> (launches i w = 1 \<or> i \<in> set (gw_dropped w) \<or> undecided i w \<and> on_screen i w)"
proof -
  let ?w = "all_failed (gate_run es new_window)"
  have f: "gw_flows ?w = []" unfolding all_failed_def by (rule all_failed_returns) simp
  obtain es' where "?w = gate_run es' (gate_run es new_window)" using all_failed_run unfolding all_failed_def by blast
  then have w: "?w = gate_run (es @ es') new_window" by (simp add: gate_run_append)
  have ok: "gate_ok ?w" unfolding w by (rule gate_ok_run)
  have "i \<in> set (gw_ids ?w)" using assms all_failed_ids unfolding all_failed_def by blast
  then have "weight i ?w = 1" using gate_okD(1) [OF ok, of i] by simp
  then have "launches i ?w = 1 \<or> i \<in> set (gw_dropped ?w) \<or> undecided i ?w"
    by (auto simp: weight_def pending_calls_def f add_is_1 split: if_splits intro: ccontr)
  then show ?thesis using gate_okD(5) [OF ok, of i] f by (auto simp: Let_def)
qed

definition some_request :: dispatch_request where
  "some_request = \<lparr>rq_request = js ''fix the menu'', rq_dir = ''/r'', rq_label = None, rq_source = FromTask, rq_mode = None, rq_ticketId = None,
     rq_resume = None\<rparr>"

lemma planning_never_holds_work_up_witness:
  "let w = all_failed (gate_run [Dispatch True some_request] new_window) in
     gw_flows w = [] \<and> (launches 1 w = 1 \<or> 1 \<in> set (gw_dropped w) \<or> undecided 1 w \<and> on_screen 1 w)"
  by (rule planning_never_holds_work_up)
    (simp add: gate_run_def dispatchWithPlan_def gate_prims new_window_def)

lemma dispatch_is_accounted_for_witness:
  "pending_calls 1 (gate_run [Dispatch True some_request, Returns 0 Plain] new_window) = 1"
proof -
  let ?w = "gate_run [Dispatch True some_request, Returns 0 Plain] new_window"
  have "launches 1 ?w = 0" "gw_dropped ?w = []" "\<not> undecided 1 ?w" "1 \<in> set (gw_ids ?w)"
    by (simp_all add: gate_run_def dispatchWithPlan_def gate_prims new_window_def returned_def launches_def undecided_def)
  then show ?thesis using dispatch_is_accounted_for [where i = 1 and es = "[Dispatch True some_request, Returns 0 Plain]"] by (simp add: Let_def)
qed

end
