(* ===== verification/PlanStore.thy ===== *)
theory PlanStore
  imports PlanGate
begin

text \<open>
  Plans in the ledger, \<^verbatim>\<open>src/src/plans/planStore.ts\<close>, with the sharing of a plan (\<^verbatim>\<open>planShare.ts\<close>) and the plan of a command
  (\<^verbatim>\<open>planLaunch.ts\<close>): how a window revises a plan, follows the sessions that carry it out, and finishes it.

  The ledger is that of one repository, and a call of it takes effect when it returns. A revision is in the queue of its plan until
  its entry is appended. The listeners that call these functions are not modelled, nor storage that cannot be written; what a
  question's answer is recorded under is \<^verbatim>\<open>mutation_of\<close>.
\<close>

section \<open>Plans in the ledger\<close>

text \<open>An entry is identified by its place in the ledger of the repository.\<close>

datatype plan_ref = PlanRef js_string | SessionRef string

record plan_row =
  pr_id :: nat
  pr_supersedes :: "nat option"
  pr_status :: plan_status
  pr_ref :: plan_ref
  pr_data :: plan_data

abbreviation row_plan :: "plan_row \<Rightarrow> js_string" where
  "row_plan r \<equiv> pl_planId (pr_data r)"

definition plan_heads :: "plan_row list \<Rightarrow> plan_row list" where
  "plan_heads led = filter (\<lambda>r. pr_id r \<notin> set (List.map_filter pr_supersedes led)) led"

text \<open>The query of \<^verbatim>\<open>findPlan\<close>: heads, newest first.\<close>

definition query_plan :: "plan_row list \<Rightarrow> js_string \<Rightarrow> plan_row option" where
  "query_plan led p = find (\<lambda>r. row_plan r = p) (take 1000 (rev (plan_heads led)))"

text \<open>What \<^verbatim>\<open>mutate\<close> returns. The patch of the data is applied to the current head.\<close>

record plan_change =
  pc_data :: "plan_data \<Rightarrow> plan_data"
  pc_status :: "plan_status option"
  pc_ref :: "plan_ref option"

type_synonym mutation = "plan_row \<Rightarrow> plan_change option"

definition successor :: "plan_row \<Rightarrow> plan_change \<Rightarrow> plan_row" where
  "successor r c = \<lparr>pr_id = 0, pr_supersedes = Some (pr_id r), pr_status = (case pc_status c of Some s \<Rightarrow> s | None \<Rightarrow> pr_status r),
     pr_ref = (case pc_ref c of Some x \<Rightarrow> x | None \<Rightarrow> pr_ref r), pr_data = pc_data c (pr_data r)\<rparr>"

definition append_row :: "plan_row \<Rightarrow> plan_row list \<Rightarrow> plan_row \<times> plan_row list" where
  "append_row r led = (let r' = r\<lparr>pr_id := length led\<rparr> in (r', led @ [r']))"

definition change :: "(plan_data \<Rightarrow> plan_data) \<Rightarrow> plan_status option \<Rightarrow> plan_change" where
  "change f s = \<lparr>pc_data = f, pc_status = s, pc_ref = None\<rparr>"

section \<open>The changes\<close>

definition approve_change :: "plan_edits \<Rightarrow> int \<Rightarrow> mutation" where
  "approve_change ed now = (\<lambda>_. Some (change (\<lambda>d. d\<lparr>pl_decisions := ped_decisions ed, pl_acceptance := ped_acceptance ed,
     pl_approvedBy := Some ''you'', pl_approvedAt := Some now\<rparr>) (Some PApproved)))"

definition launched_change :: "int \<Rightarrow> mutation" where
  "launched_change now = (\<lambda>_. Some (change (\<lambda>d. d\<lparr>pl_launchedAt := Some now\<rparr>) None))"

definition drop_change :: mutation where
  "drop_change = (\<lambda>_. Some (change (\<lambda>d. d) (Some PDropped)))"

definition base_head_change :: "string \<Rightarrow> mutation" where
  "base_head_change h = (\<lambda>_. Some (change (\<lambda>d. d\<lparr>pl_baseHead := Some h\<rparr>) None))"

record turn_start =
  ts_sessionId :: string
  ts_ptyId :: "nat option"
  ts_cwd :: string
  ts_startedAt :: int
  ts_planId :: "js_string option"
  ts_prompt :: "js_string option"

definition turnPlanId :: "js_string option \<Rightarrow> js_string option \<Rightarrow> js_string option" where
  "turnPlanId p prompt = (case p of Some i \<Rightarrow> if PLAN_ID i then Some i else planIdInPrompt prompt | None \<Rightarrow> planIdInPrompt prompt)"

definition link_change :: "turn_start \<Rightarrow> mutation" where
  "link_change t = (\<lambda>cur.
     if pl_sessionId (pr_data cur) = Some (ts_sessionId t) \<and> pr_status cur \<noteq> PApproved \<and> pr_status cur \<noteq> PProposed then None
     else Some \<lparr>pc_data = (\<lambda>d. d\<lparr>pl_sessionId := Some (ts_sessionId t), pl_ptyId := ts_ptyId t,
                  pl_startedAt := Some (case pl_startedAt (pr_data cur) of Some x \<Rightarrow> x | None \<Rightarrow> ts_startedAt t)\<rparr>),
                pc_status = Some (if pr_status cur = PDone then PDone else PInProgress), pc_ref = Some (SessionRef (ts_sessionId t))\<rparr>)"

type_synonym commits = "(string \<times> string) list"

definition with_commits :: "commits \<Rightarrow> plan_data \<Rightarrow> plan_data" where
  "with_commits cs d = (if cs = [] then d else d\<lparr>pl_commits := Some cs\<rparr>)"

definition turn_end_change :: "bool \<Rightarrow> int \<Rightarrow> commits \<Rightarrow> mutation" where
  "turn_end_change interactive endedAt cs = (\<lambda>cur.
     if interactive then (if cs = [] then None else Some (change (with_commits cs) None))
     else Some (change (\<lambda>d. with_commits cs (d\<lparr>pl_endedAt := Some endedAt,
            pl_doneBecause := Some (case pl_doneBecause (pr_data cur) of Some w \<Rightarrow> w | None \<Rightarrow> ''the task finished'')\<rparr>)) (Some PDone)))"

definition complete_change :: "string \<Rightarrow> int \<Rightarrow> commits \<Rightarrow> mutation" where
  "complete_change why now cs = (\<lambda>cur.
     if pr_status cur = PDone \<or> pr_status cur = PDropped then None
     else Some (change (\<lambda>d. with_commits cs (d\<lparr>pl_endedAt := Some now, pl_doneBecause := Some why\<rparr>)) (Some PDone)))"

definition chat_change :: "string \<Rightarrow> string \<Rightarrow> int \<Rightarrow> mutation" where
  "chat_change by_id by_name now = (\<lambda>cur.
     if pr_status cur = PProposed \<and> (case pl_approvers (pr_data cur) of Some xs \<Rightarrow> by_id \<in> set xs | None \<Rightarrow> False)
     then Some (change (\<lambda>d. d\<lparr>pl_decisions := settleWithRecommendations (pl_decisions (pr_data cur)),
            pl_approvedBy := Some (by_name @ '' (team chat)''), pl_approvedAt := Some now\<rparr>) (Some PApproved))
     else None)"

definition answer_change :: "plan_decision \<Rightarrow> mutation" where
  "answer_change a = (\<lambda>cur. Some (change (\<lambda>d. d\<lparr>pl_decisions := pl_decisions (pr_data cur) @ [a]\<rparr>) None))"

definition shared_change :: "int \<Rightarrow> string list \<Rightarrow> mutation" where
  "shared_change now who = (\<lambda>cur. Some (change (\<lambda>d. d\<lparr>pl_sharedAt := Some now,
     pl_approvers := Some (distinct_of ((case pl_approvers (pr_data cur) of Some xs \<Rightarrow> xs | None \<Rightarrow> []) @ who))\<rparr>) None))"

text \<open>The commits since \<open>base\<close>, newest first; none when it is not among them.\<close>

fun since :: "string \<Rightarrow> commits \<Rightarrow> commits option" where
  "since base [] = None"
| "since base (c # cs) = (if fst c = base then Some [] else map_option ((#) c) (since base cs))"

definition runCommits :: "string option \<Rightarrow> commits \<Rightarrow> commits" where
  "runCommits base history = (case base of None \<Rightarrow> [] | Some b \<Rightarrow> if b = [] then [] else (case since b history of Some cs \<Rightarrow> cs | None \<Rightarrow> []))"

section \<open>The runs of a machine\<close>

record run_info =
  ri_dir :: string
  ri_workDir :: "string option"
  ri_mode :: "plan_mode option"
  ri_ticketId :: "string option"
  ri_sessionId :: "string option"
  ri_ptyId :: "nat option"

text \<open>
  A revision that waits in the queue of its plan: first it finds the head, then it appends. \<open>rv_ends\<close> says that the run ends when
  it is done.
\<close>

record revision =
  rv_mutate :: mutation
  rv_ends :: bool

datatype revision_stage = Queued | Finding | Appending plan_row

datatype chore =
    EndFinding turn_start int js_string "run_info option"
  | EndLogging turn_start int js_string "run_info option" plan_row
  | CompleteFinding js_string string int
  | CompleteLogging js_string string int plan_row

text \<open>One window, with the tables it keeps in storage.\<close>

record plan_window =
  pw_heads :: "(js_string \<times> plan_row) list"
  pw_queues :: "(js_string \<times> (revision \<times> revision_stage) list) list"
  pw_runs :: "(js_string \<times> run_info) list"
  pw_storedRuns :: "(js_string \<times> run_info) list"
  pw_dirs :: "(js_string \<times> string) list"
  pw_bySession :: "(string \<times> js_string) list"
  pw_byPty :: "(nat \<times> js_string) list"
  pw_chores :: "chore list"

definition empty_plan_window :: plan_window where
  "empty_plan_window = \<lparr>pw_heads = [], pw_queues = [], pw_runs = [], pw_storedRuns = [], pw_dirs = [], pw_bySession = [], pw_byPty = [], pw_chores = []\<rparr>"

definition remember :: "plan_row \<Rightarrow> plan_window \<Rightarrow> plan_window" where
  "remember r w = w\<lparr>pw_heads := AList.update (row_plan r) r (pw_heads w)\<rparr>"

definition queue_of :: "js_string \<Rightarrow> plan_window \<Rightarrow> (revision \<times> revision_stage) list" where
  "queue_of p w = (case map_of (pw_queues w) p of Some q \<Rightarrow> q | None \<Rightarrow> [])"

definition set_queue :: "js_string \<Rightarrow> (revision \<times> revision_stage) list \<Rightarrow> plan_window \<Rightarrow> plan_window" where
  "set_queue p q w = w\<lparr>pw_queues := AList.update p q (pw_queues w)\<rparr>"

definition revisePlan :: "js_string \<Rightarrow> mutation \<Rightarrow> bool \<Rightarrow> plan_window \<Rightarrow> plan_window" where
  "revisePlan p m ends w = set_queue p (queue_of p w @ [(\<lparr>rv_mutate = m, rv_ends = ends\<rparr>, Queued)]) w"

definition latest :: "nat \<Rightarrow> (js_string \<times> 'a) list \<Rightarrow> (js_string \<times> 'a) list" where
  "latest n xs = drop (length xs - n) xs"

definition rememberDir :: "js_string \<Rightarrow> string \<Rightarrow> plan_window \<Rightarrow> plan_window" where
  "rememberDir p dir w = w\<lparr>pw_dirs := latest 300 (AList.update p dir (pw_dirs w))\<rparr>"

definition planDir :: "js_string \<Rightarrow> plan_window \<Rightarrow> string option" where
  "planDir p w = (case map_of (pw_heads w) p of Some r \<Rightarrow> Some (pl_dir (pr_data r)) | None \<Rightarrow> map_of (pw_dirs w) p)"

definition runOf :: "js_string \<Rightarrow> plan_window \<Rightarrow> run_info option" where
  "runOf p w = (case map_of (pw_runs w) p of Some r \<Rightarrow> Some r | None \<Rightarrow> map_of (pw_storedRuns w) p)"

definition setRun :: "js_string \<Rightarrow> (run_info \<Rightarrow> run_info) \<Rightarrow> string \<Rightarrow> plan_window \<Rightarrow> plan_window" where
  "setRun p patch dir w =
     (let cur = (case runOf p w of Some r \<Rightarrow> r | None \<Rightarrow> \<lparr>ri_dir = dir, ri_workDir = None, ri_mode = None, ri_ticketId = None, ri_sessionId = None, ri_ptyId = None\<rparr>);
          next' = patch cur
      in w\<lparr>pw_runs := AList.update p next' (pw_runs w), pw_storedRuns := latest 200 (AList.update p next' (pw_storedRuns w))\<rparr>)"

definition endRun :: "js_string \<Rightarrow> plan_window \<Rightarrow> plan_window" where
  "endRun p w = w\<lparr>pw_runs := AList.delete p (pw_runs w), pw_storedRuns := latest 200 (AList.delete p (pw_storedRuns w))\<rparr>"

section \<open>Following the runs\<close>

text \<open>\<^verbatim>\<open>expectRun\<close> up to the reading of HEAD; the revision that records it is queued when it was read.\<close>

definition expectRun :: "js_string \<Rightarrow> string \<Rightarrow> plan_mode option \<Rightarrow> string option \<Rightarrow> plan_window \<Rightarrow> plan_window" where
  "expectRun p dir mode ticket w =
     (let cur = runOf p w; first = (case cur of Some r \<Rightarrow> if ri_dir r = [] then dir else ri_dir r | None \<Rightarrow> dir) in
      rememberDir p first
        (setRun p (\<lambda>r. r\<lparr>ri_dir := first,
           ri_workDir := (case cur of Some c \<Rightarrow> if ri_dir c \<noteq> [] \<and> ri_dir c \<noteq> dir then Some dir else ri_workDir r | None \<Rightarrow> ri_workDir r),
           ri_mode := (if mode = None then ri_mode r else mode),
           ri_ticketId := (if ticket = None \<or> ticket = Some [] then ri_ticketId r else ticket)\<rparr>) [] w))"

definition planForSession :: "string \<Rightarrow> js_string option \<Rightarrow> plan_window \<Rightarrow> js_string option" where
  "planForSession s p w =
     (case map_of (pw_bySession w) s of
        Some q \<Rightarrow> Some q
      | None \<Rightarrow>
          (case p of
             Some i \<Rightarrow> if PLAN_ID i then Some i else map_option fst (find (\<lambda>x. ri_sessionId (snd x) = Some s) (pw_storedRuns w))
           | None \<Rightarrow> map_option fst (find (\<lambda>x. ri_sessionId (snd x) = Some s) (pw_storedRuns w))))"

definition do_later :: "chore \<Rightarrow> plan_window \<Rightarrow> plan_window" where
  "do_later c w = w\<lparr>pw_chores := pw_chores w @ [c]\<rparr>"

text \<open>\<^verbatim>\<open>completePlanRun\<close>: the plan is looked up, or its head is known, and the log of commits is read next.\<close>

definition complete_found :: "js_string \<Rightarrow> string \<Rightarrow> int \<Rightarrow> plan_row option \<Rightarrow> plan_window \<Rightarrow> plan_window" where
  "complete_found p why now r w = (case r of None \<Rightarrow> w | Some cur \<Rightarrow> do_later (CompleteLogging p why now cur) w)"

definition run_dir :: "js_string \<Rightarrow> plan_window \<Rightarrow> string option" where
  "run_dir p w = (case runOf p w of
     Some r \<Rightarrow> if ri_dir r = [] then planDir p w else Some (ri_dir r) | None \<Rightarrow> planDir p w)"

definition completePlanRun :: "js_string \<Rightarrow> string \<Rightarrow> int \<Rightarrow> plan_window \<Rightarrow> plan_window" where
  "completePlanRun p why now w =
     (if run_dir p w = None \<or> run_dir p w = Some [] then w
      else (case map_of (pw_heads w) p of
              Some cur \<Rightarrow> complete_found p why now (Some cur) w
            | None \<Rightarrow> do_later (CompleteFinding p why now) w))"

definition linkTurnStart :: "turn_start \<Rightarrow> int \<Rightarrow> plan_window \<Rightarrow> plan_window" where
  "linkTurnStart t now w =
     (case turnPlanId (ts_planId t) (ts_prompt t) of
        None \<Rightarrow> w
      | Some p \<Rightarrow>
          (if map_of (pw_bySession w) (ts_sessionId t) = Some p then w
           else if (case runOf p w of Some r \<Rightarrow> (case ri_sessionId r of Some s \<Rightarrow> s \<noteq> [] \<and> s \<noteq> ts_sessionId t | None \<Rightarrow> False) | None \<Rightarrow> False) then w
           else
             let dir = (case run_dir p w of Some (c # d) \<Rightarrow> c # d | _ \<Rightarrow> ts_cwd t);
                 w1 = (case planForSession (ts_sessionId t) None w of
                         Some before \<Rightarrow> if before \<noteq> p then completePlanRun before ''the next planned request started'' now w else w
                       | None \<Rightarrow> w);
                 w2 = w1\<lparr>pw_bySession := AList.update (ts_sessionId t) p (pw_bySession w1),
                         pw_byPty := (case ts_ptyId t of Some pty \<Rightarrow> AList.update pty p (pw_byPty w1) | None \<Rightarrow> pw_byPty w1)\<rparr>
             in revisePlan p (link_change t) False
                  (setRun p (\<lambda>r. r\<lparr>ri_dir := dir, ri_sessionId := Some (ts_sessionId t), ri_ptyId := ts_ptyId t\<rparr>) [] w2)))"

definition end_found :: "turn_start \<Rightarrow> int \<Rightarrow> js_string \<Rightarrow> run_info option \<Rightarrow> plan_row option \<Rightarrow> plan_window \<Rightarrow> plan_window" where
  "end_found t endedAt p run r w =
     (case r of
        None \<Rightarrow> w
      | Some cur \<Rightarrow> if pl_sessionId (pr_data cur) \<noteq> Some (ts_sessionId t) then w else do_later (EndLogging t endedAt p run cur) w)"

definition linkTurnEnd :: "turn_start \<Rightarrow> int \<Rightarrow> plan_window \<Rightarrow> plan_window" where
  "linkTurnEnd t endedAt w =
     (case planForSession (ts_sessionId t) (turnPlanId (ts_planId t) (ts_prompt t)) w of
        None \<Rightarrow> w
      | Some p \<Rightarrow>
          (case map_of (pw_heads w) p of
             Some cur \<Rightarrow> end_found t endedAt p (runOf p w) (Some cur) w
           | None \<Rightarrow> do_later (EndFinding t endedAt p (runOf p w)) w))"

definition is_interactive :: "run_info option \<Rightarrow> plan_row \<Rightarrow> bool" where
  "is_interactive run cur \<longleftrightarrow>
     (case run of Some r \<Rightarrow> (case ri_mode r of Some m \<Rightarrow> Some m | None \<Rightarrow> pl_mode (pr_data cur)) | None \<Rightarrow> pl_mode (pr_data cur)) = Some Interactive"

definition completeTicketPlans :: "string \<Rightarrow> plan_window \<Rightarrow> js_string list" where
  "completeTicketPlans ticket w =
     (if ticket = [] then []
      else distinct_of (map fst (filter (\<lambda>x. ri_ticketId (snd x) = Some ticket) (pw_runs w @ pw_storedRuns w))))"

definition completeSessionPlan :: "string \<Rightarrow> js_string option \<Rightarrow> int \<Rightarrow> plan_window \<Rightarrow> plan_window" where
  "completeSessionPlan s p now w =
     (case planForSession s p w of
        None \<Rightarrow> w
      | Some i \<Rightarrow>
          (if (case runOf i w of Some r \<Rightarrow> ri_sessionId r = Some s | None \<Rightarrow> False)
           then completePlanRun i ''the agent session ended'' now w else w))"

text \<open>Whether a receipt finishes an interactive run: \<open>None\<close> is a check the brain could not judge.\<close>

definition receipt_proves :: "plan_row \<Rightarrow> bool option list \<Rightarrow> bool" where
  "receipt_proves cur checks \<longleftrightarrow>
     pl_acceptance (pr_data cur) = [] \<or> length checks \<ge> length (pl_acceptance (pr_data cur)) \<and> list_all (\<lambda>c. c = Some True) checks"

text \<open>\<^verbatim>\<open>notePlanReceipt\<close>; \<open>found\<close> is what \<^verbatim>\<open>findPlan\<close> answers.\<close>

definition notePlanReceipt :: "string \<Rightarrow> bool \<Rightarrow> bool option list \<Rightarrow> int \<Rightarrow> plan_row option \<Rightarrow> plan_window \<Rightarrow> plan_window" where
  "notePlanReceipt s proven checks now found w =
     (case planForSession s None w of
        None \<Rightarrow> w
      | Some i \<Rightarrow>
          (case (runOf i w, found) of
             (Some run, Some cur) \<Rightarrow>
               (if ri_sessionId run = Some s \<and> ri_mode run = Some Interactive \<and> proven \<and> receipt_proves cur checks
                then completePlanRun i ''a proof receipt showed every acceptance check met'' now w else w)
           | _ \<Rightarrow> w))"

section \<open>The queues\<close>

text \<open>A revision that is done leaves the queue of its plan.\<close>

definition revision_done :: "js_string \<Rightarrow> bool \<Rightarrow> plan_window \<Rightarrow> plan_window" where
  "revision_done p ends w = (let w1 = set_queue p (tl (queue_of p w)) w in if ends then endRun p w1 else w1)"

text \<open>What a revision does with the head it found.\<close>

definition mutate_head :: "js_string \<Rightarrow> revision \<Rightarrow> plan_row option \<Rightarrow> plan_window \<Rightarrow> plan_window" where
  "mutate_head p rv r w =
     (case r of
        None \<Rightarrow> revision_done p (rv_ends rv) w
      | Some cur \<Rightarrow>
          (case rv_mutate rv cur of
             None \<Rightarrow> revision_done p (rv_ends rv) w
           | Some c \<Rightarrow> set_queue p ((rv, Appending (successor cur c)) # tl (queue_of p w)) w))"

text \<open>One step of the queue of plan \<^term>\<open>p\<close>; \<open>ok\<close> is false when the call of the ledger that returns has failed.\<close>

definition advance :: "js_string \<Rightarrow> bool \<Rightarrow> plan_row list \<times> plan_window \<Rightarrow> plan_row list \<times> plan_window" where
  "advance p ok lw =
     (let led = fst lw; w = snd lw in
      case queue_of p w of
        [] \<Rightarrow> lw
      | (rv, Queued) # q \<Rightarrow>
          (led, case map_of (pw_heads w) p of
                  Some cur \<Rightarrow> mutate_head p rv (Some cur) w
                | None \<Rightarrow> set_queue p ((rv, Finding) # q) w)
      | (rv, Finding) # q \<Rightarrow>
          (led, case (if ok then query_plan led p else None) of
                  Some r \<Rightarrow> mutate_head p rv (Some r) (remember r w)
                | None \<Rightarrow> mutate_head p rv None w)
      | (rv, Appending row) # q \<Rightarrow>
          (if ok then (let a = append_row row led in (snd a, revision_done p (rv_ends rv) (remember (fst a) w)))
           else (led, set_queue p q w)))"

definition createPlan :: "plan_data \<Rightarrow> plan_status \<Rightarrow> plan_row list \<times> plan_window \<Rightarrow> plan_row list \<times> plan_window" where
  "createPlan d s lw =
     (let a = append_row \<lparr>pr_id = 0, pr_supersedes = None, pr_status = s, pr_ref = PlanRef (pl_planId d), pr_data = d\<rparr> (fst lw)
      in (snd a, remember (fst a) (rememberDir (pl_planId d) (pl_dir d) (snd lw))))"

text \<open>\<^verbatim>\<open>findPlan\<close> outside of a revision\<close>

definition findPlan :: "js_string \<Rightarrow> plan_row list \<Rightarrow> plan_window \<Rightarrow> plan_row option \<times> plan_window" where
  "findPlan p led w =
     (case map_of (pw_heads w) p of
        Some r \<Rightarrow> (Some r, w)
      | None \<Rightarrow> (case query_plan led p of Some r \<Rightarrow> (Some r, remember r w) | None \<Rightarrow> (None, w)))"

text \<open>The chore at place \<^term>\<open>n\<close> goes on: the lookup of its plan returns, or the log of commits.\<close>

definition chore_step :: "nat \<Rightarrow> commits \<Rightarrow> plan_row list \<times> plan_window \<Rightarrow> plan_row list \<times> plan_window" where
  "chore_step n history lw =
     (let led = fst lw; w = snd lw; w0 = w\<lparr>pw_chores := take n (pw_chores w) @ drop (Suc n) (pw_chores w)\<rparr> in
      if n < length (pw_chores w) then
        (led, case pw_chores w ! n of
           EndFinding t endedAt p run \<Rightarrow> (let fw = findPlan p led w0 in end_found t endedAt p run (fst fw) (snd fw))
         | EndLogging t endedAt p run cur \<Rightarrow>
             (let i = is_interactive run cur
              in revisePlan p (turn_end_change i endedAt (runCommits (pl_baseHead (pr_data cur)) history)) (\<not> i) w0)
         | CompleteFinding p why now \<Rightarrow> (let fw = findPlan p led w0 in complete_found p why now (fst fw) (snd fw))
         | CompleteLogging p why now cur \<Rightarrow> revisePlan p (complete_change why now (runCommits (pl_baseHead (pr_data cur)) history)) True w0)
      else lw)"

section \<open>The windows of a repository\<close>

text \<open>The revisions asked for by the gate, by the dialog that shares a plan, by team chat and by the agent's questions.\<close>

datatype plan_edit =
    ByPerson plan_edits int
  | Launched int
  | Dropped
  | HeadRead string
  | InChat string string int
  | Answered plan_decision
  | Shared int "string list"

fun mutation_of :: "plan_edit \<Rightarrow> mutation" where
  "mutation_of (ByPerson ed now) = approve_change ed now"
| "mutation_of (Launched now) = launched_change now"
| "mutation_of Dropped = drop_change"
| "mutation_of (HeadRead h) = base_head_change h"
| "mutation_of (InChat by_id by_name now) = chat_change by_id by_name now"
| "mutation_of (Answered a) = answer_change a"
| "mutation_of (Shared now who) = shared_change now who"

datatype store_event =
    Create plan_data plan_status
  | Revise js_string plan_edit
  | Advance js_string bool
  | Expect js_string string "plan_mode option" "string option"
  | TurnStart turn_start int
  | TurnEnd turn_start int
  | SessionEnd string "js_string option" int
  | TicketDone string int
  | Receipt string bool "bool option list" int
  | Chore nat commits

fun window_step :: "store_event \<Rightarrow> plan_row list \<times> plan_window \<Rightarrow> plan_row list \<times> plan_window" where
  "window_step (Create d s) lw = createPlan d s lw"
| "window_step (Revise p m) lw = (fst lw, revisePlan p (mutation_of m) False (snd lw))"
| "window_step (Advance p ok) lw = advance p ok lw"
| "window_step (Expect p dir mode ticket) lw = (fst lw, expectRun p dir mode ticket (snd lw))"
| "window_step (TurnStart t now) lw = (fst lw, linkTurnStart t now (snd lw))"
| "window_step (TurnEnd t endedAt) lw = (fst lw, linkTurnEnd t endedAt (snd lw))"
| "window_step (SessionEnd s p now) lw = (fst lw, completeSessionPlan s p now (snd lw))"
| "window_step (TicketDone k now) lw = (fst lw, fold (\<lambda>p w. completePlanRun p ''the ticket was marked done'' now w) (completeTicketPlans k (snd lw)) (snd lw))"
| "window_step (Receipt s proven checks now) lw =
     (case planForSession s None (snd lw) of
        None \<Rightarrow> lw
      | Some p \<Rightarrow> (let fw = findPlan p (fst lw) (snd lw) in (fst lw, notePlanReceipt s proven checks now (fst fw) (snd fw))))"
| "window_step (Chore n history) lw = chore_step n history lw"

text \<open>The ledger and its windows; an event is one of a window.\<close>

definition world_step :: "nat \<times> store_event \<Rightarrow> plan_row list \<times> (nat \<Rightarrow> plan_window) \<Rightarrow> plan_row list \<times> (nat \<Rightarrow> plan_window)" where
  "world_step x lw = (let r = window_step (snd x) (fst lw, snd lw (fst x)) in (fst r, (snd lw)(fst x := snd r)))"

definition world_run :: "(nat \<times> store_event) list \<Rightarrow> plan_row list \<times> (nat \<Rightarrow> plan_window)" where
  "world_run es = fold world_step es ([], \<lambda>_. empty_plan_window)"

definition forks :: "plan_row list \<Rightarrow> bool" where
  "forks led \<longleftrightarrow> \<not> distinct (List.map_filter pr_supersedes led)"

section \<open>One window never forks a plan\<close>

definition keeps_plan :: "mutation \<Rightarrow> bool" where
  "keeps_plan m \<longleftrightarrow> (\<forall>r c. m r = Some c \<longrightarrow> (\<forall>d. pl_planId (pc_data c d) = pl_planId d))"

lemma with_commits_plan [simp]: "pl_planId (with_commits cs d) = pl_planId d"
  by (simp add: with_commits_def)

lemma mutations_keep_plan:
  "keeps_plan (mutation_of e)" "keeps_plan (link_change t)" "keeps_plan (turn_end_change i t0 cs)" "keeps_plan (complete_change why now cs)"
  by (cases e; simp add: keeps_plan_def approve_change_def launched_change_def drop_change_def base_head_change_def chat_change_def
        answer_change_def shared_change_def change_def)
    (auto simp: keeps_plan_def link_change_def turn_end_change_def complete_change_def change_def split: if_splits)

definition superseded :: "plan_row list \<Rightarrow> nat list" where
  "superseded led = List.map_filter pr_supersedes led"

definition is_head :: "plan_row list \<Rightarrow> plan_row \<Rightarrow> bool" where
  "is_head led r \<longleftrightarrow> r \<in> set led \<and> pr_id r \<notin> set (superseded led)"

definition appending_ok :: "(js_string \<times> plan_row) list \<Rightarrow> js_string \<Rightarrow> (revision \<times> revision_stage) list \<Rightarrow> bool" where
  "appending_ok heads p q \<longleftrightarrow>
     (case q of
        (rv, Appending row) # _ \<Rightarrow> (case map_of heads p of Some r \<Rightarrow> pr_supersedes row = Some (pr_id r) \<and> row_plan row = p | None \<Rightarrow> False)
      | _ \<Rightarrow> True)"

definition queue_ok :: "(revision \<times> revision_stage) list \<Rightarrow> bool" where
  "queue_ok q \<longleftrightarrow> list_all (\<lambda>x. keeps_plan (rv_mutate (fst x))) q \<and> list_all (\<lambda>x. snd x = Queued) (tl q)"

definition ledger_ok :: "js_string set \<Rightarrow> plan_row list \<Rightarrow> bool" where
  "ledger_ok ps led \<longleftrightarrow> map pr_id led = [0..<length led] \<and> (\<forall>j \<in> set (superseded led). j < length led) \<and> distinct (superseded led)
     \<and> row_plan ` set led \<subseteq> ps"

definition window_ok :: "plan_row list \<Rightarrow> plan_window \<Rightarrow> bool" where
  "window_ok led w \<longleftrightarrow>
     (\<forall>p r. map_of (pw_heads w) p = Some r \<longrightarrow> is_head led r \<and> row_plan r = p)
     \<and> (\<forall>p. queue_ok (queue_of p w) \<and> appending_ok (pw_heads w) p (queue_of p w))"

lemma window_okD:
  assumes "window_ok led w"
  shows "map_of (pw_heads w) p = Some r \<Longrightarrow> is_head led r \<and> row_plan r = p" "queue_ok (queue_of p w)" "appending_ok (pw_heads w) p (queue_of p w)"
  using assms by (auto simp: window_ok_def)

text \<open>What only touches the other tables.\<close>

lemma window_ok_same: "pw_heads w' = pw_heads w \<Longrightarrow> pw_queues w' = pw_queues w \<Longrightarrow> window_ok led w' = window_ok led w"
  by (simp add: window_ok_def queue_of_def)

lemma queue_of_set: "queue_of p (set_queue p' q w) = (if p = p' then q else queue_of p w)"
  by (simp add: queue_of_def set_queue_def map_of_alist_update)

lemma heads_set_queue [simp]: "pw_heads (set_queue p q w) = pw_heads w"
  by (simp add: set_queue_def)

lemma window_ok_set_queue:
  "window_ok led w \<Longrightarrow> queue_ok q \<Longrightarrow> appending_ok (pw_heads w) p q \<Longrightarrow> window_ok led (set_queue p q w)"
  by (simp add: window_ok_def queue_of_set)

lemma appending_ok_append: "appending_ok h p q \<Longrightarrow> appending_ok h p (q @ [(rv, Queued)])"
  by (cases q) (auto simp: appending_ok_def split: revision_stage.splits prod.splits)

lemma window_ok_revise:
  assumes "window_ok led w" "keeps_plan m"
  shows "window_ok led (revisePlan p m ends w)"
  unfolding revisePlan_def
proof (rule window_ok_set_queue [OF assms(1)])
  show "queue_ok (queue_of p w @ [(\<lparr>rv_mutate = m, rv_ends = ends\<rparr>, Queued)])"
    using window_okD(2) [OF assms(1), of p] assms(2) by (cases "queue_of p w") (simp_all add: queue_ok_def)
  show "appending_ok (pw_heads w) p (queue_of p w @ [(\<lparr>rv_mutate = m, rv_ends = ends\<rparr>, Queued)])"
    by (rule appending_ok_append) (rule window_okD(3) [OF assms(1)])
qed

lemma queued_ok: "list_all (\<lambda>x. snd x = Queued) q \<Longrightarrow> appending_ok h p q"
  by (cases q) (auto simp: appending_ok_def)

lemma queue_ok_tl: "queue_ok q \<Longrightarrow> queue_ok (tl q)"
  by (cases q; cases "tl q") (auto simp: queue_ok_def)

lemma queue_ok_step: "queue_ok ((rv, s) # q) \<Longrightarrow> queue_ok ((rv, s') # q)"
  by (simp add: queue_ok_def)

lemma window_ok_done:
  assumes "window_ok led w"
  shows "window_ok led (revision_done p ends w)"
proof -
  have "window_ok led (set_queue p (tl (queue_of p w)) w)"
    by (rule window_ok_set_queue [OF assms queue_ok_tl [OF window_okD(2) [OF assms]]])
      (use window_okD(2) [OF assms, of p] in \<open>simp add: queue_ok_def queued_ok\<close>)
  then show ?thesis
    by (simp add: revision_done_def Let_def endRun_def) (simp add: window_ok_def queue_of_def)
qed

lemma window_ok_remember:
  assumes "window_ok led w" "is_head led r"
    and "\<And>rv row q. queue_of (row_plan r) w = (rv, Appending row) # q \<Longrightarrow> pr_supersedes row = Some (pr_id r)"
  shows "window_ok led (remember r w)"
proof -
  have h: "map_of (pw_heads (remember r w)) p = (if p = row_plan r then Some r else map_of (pw_heads w) p)" for p
    by (simp add: remember_def map_of_alist_update)
  have q: "queue_of p (remember r w) = queue_of p w" for p by (simp add: remember_def queue_of_def)
  have "appending_ok (pw_heads (remember r w)) p (queue_of p w)" for p
    using window_okD(3) [OF assms(1), of p] assms(3)
    by (cases "p = row_plan r") (auto simp: appending_ok_def h split: list.splits revision_stage.splits option.splits)
  then show ?thesis using assms(1,2) by (auto simp: window_ok_def h q)
qed

lemma window_ok_mutate:
  assumes "window_ok led w" "queue_of p w = (rv, s) # q" "\<And>cur. r = Some cur \<Longrightarrow> map_of (pw_heads w) p = Some cur"
  shows "window_ok led (mutate_head p rv r w)"
proof (cases "\<exists>cur c. r = Some cur \<and> rv_mutate rv cur = Some c")
  case True
  then obtain cur c where c: "r = Some cur" "rv_mutate rv cur = Some c" by blast
  have h: "map_of (pw_heads w) p = Some cur" using assms(3) c(1) by blast
  have "queue_ok ((rv, s) # q)" using window_okD(2) [OF assms(1), of p] assms(2) by simp
  moreover from this have "row_plan (successor cur c) = p"
    using c(2) window_okD(1) [OF assms(1) h] by (auto simp: queue_ok_def keeps_plan_def successor_def)
  ultimately show ?thesis
    unfolding mutate_head_def c option.case assms(2) list.sel
    by (intro window_ok_set_queue [OF assms(1)]) (auto simp: queue_ok_step appending_ok_def h successor_def intro: queue_ok_step)
next
  case False
  then have "mutate_head p rv r w = revision_done p (rv_ends rv) w" by (auto simp: mutate_head_def split: option.split)
  then show ?thesis using window_ok_done [OF assms(1)] by simp
qed

lemma found_in_list: "find P xs = Some x \<Longrightarrow> x \<in> set xs \<and> P x"
  by (induction xs) (auto split: if_splits)

lemma query_is_head: "query_plan led p = Some r \<Longrightarrow> is_head led r \<and> row_plan r = p"
  by (auto simp: query_plan_def is_head_def plan_heads_def superseded_def dest!: found_in_list in_set_takeD)

lemma head_unique_id:
  assumes "ledger_ok ps led" "r \<in> set led" "r' \<in> set led" "pr_id r = pr_id r'"
  shows "r = r'"
proof -
  have "distinct (map pr_id led)" using assms(1) by (simp add: ledger_ok_def)
  then show ?thesis using assms(2-4) by (auto simp: distinct_map dest: inj_onD)
qed

lemma superseded_append: "superseded (led @ [r]) = superseded led @ (case pr_supersedes r of Some j \<Rightarrow> [j] | None \<Rightarrow> [])"
  by (simp add: superseded_def List.map_filter_def split: option.split)

lemma append_row_ok:
  assumes "ledger_ok ps led" "append_row row led = (r, led')" "row_plan row \<in> ps"
    and "\<And>j. pr_supersedes row = Some j \<Longrightarrow> \<exists>h. is_head led h \<and> pr_id h = j"
  shows "ledger_ok ps led'" "is_head led' r" "row_plan r = row_plan row"
    "\<And>h. is_head led h \<Longrightarrow> pr_supersedes row \<noteq> Some (pr_id h) \<Longrightarrow> is_head led' h"
proof -
  have r: "r = row\<lparr>pr_id := length led\<rparr>" "led' = led @ [r]" using assms(2) by (auto simp: append_row_def Let_def)
  have s: "superseded led' = superseded led @ (case pr_supersedes row of Some j \<Rightarrow> [j] | None \<Rightarrow> [])"
    by (simp add: r(2) superseded_append) (simp add: r(1))
  have ids: "map pr_id led' = [0..<length led']" using assms(1) by (simp add: ledger_ok_def r)
  have lt: "pr_id h < length led" if "h \<in> set led" for h
  proof -
    have "pr_id h \<in> set (map pr_id led)" using that by simp
    moreover have "set (map pr_id led) = {0..<length led}" using assms(1) by (simp add: ledger_ok_def del: set_map)
    ultimately show ?thesis by simp
  qed
  have j: "j < length led \<and> j \<notin> set (superseded led)" if "pr_supersedes row = Some j" for j
    using assms(4) [OF that] lt by (auto simp: is_head_def)
  show "ledger_ok ps led'"
    using assms(1,3) j ids s by (auto simp: ledger_ok_def r split: option.split)
  have "length led \<notin> set (superseded led')" using assms(1) j s by (fastforce simp: ledger_ok_def split: option.splits)
  then show "is_head led' r" by (simp add: is_head_def r)
  show "row_plan r = row_plan row" by (simp add: r)
  show "is_head led' h" if "is_head led h" "pr_supersedes row \<noteq> Some (pr_id h)" for h
    using that s by (auto simp: is_head_def r split: option.splits)
qed

text \<open>The state of one window and its ledger.\<close>

definition store_ok :: "js_string set \<Rightarrow> plan_row list \<times> plan_window \<Rightarrow> bool" where
  "store_ok ps lw \<longleftrightarrow> ledger_ok ps (fst lw) \<and> window_ok (fst lw) (snd lw)"

lemma window_ok_heads_kept:
  assumes "window_ok led w" "\<And>p r. map_of (pw_heads w') p = Some r \<Longrightarrow> is_head led' r \<and> row_plan r = p"
    "\<And>p. queue_ok (queue_of p w')" "\<And>p. appending_ok (pw_heads w') p (queue_of p w')"
  shows "window_ok led' w'"
  using assms by (simp add: window_ok_def)

lemma appending_ok_cong: "map_of h p = map_of h' p \<Longrightarrow> appending_ok h p q = appending_ok h' p q"
  by (auto simp: appending_ok_def split: list.split revision_stage.split)

lemma store_ok_advance:
  assumes "store_ok ps (led, w)"
  shows "store_ok ps (advance p ok (led, w))"
proof (cases "queue_of p w")
  case Nil
  then show ?thesis using assms by (simp add: advance_def)
next
  case (Cons x q)
  obtain rv s where x: "x = (rv, s)" by (cases x)
  note qu = Cons [unfolded x]
  have lo: "ledger_ok ps led" and wo: "window_ok led w" using assms by (simp_all add: store_ok_def)
  show ?thesis
  proof (cases s)
    case Queued
    show ?thesis
    proof (cases "map_of (pw_heads w) p")
      case None
      have "queue_ok ((rv, Finding) # q)" using window_okD(2) [OF wo, of p] qu queue_ok_step by metis
      then have "window_ok led (set_queue p ((rv, Finding) # q) w)" by (intro window_ok_set_queue [OF wo]) (simp_all add: appending_ok_def)
      then show ?thesis using lo by (simp add: advance_def qu Queued None store_ok_def)
    next
      case (Some cur)
      have "window_ok led (mutate_head p rv (Some cur) w)" by (rule window_ok_mutate [OF wo qu]) (simp add: Some)
      then show ?thesis using lo by (simp add: advance_def qu Queued Some store_ok_def)
    qed
  next
    case Finding
    have "window_ok led (case (if ok then query_plan led p else None) of Some r \<Rightarrow> mutate_head p rv (Some r) (remember r w) | None \<Rightarrow> mutate_head p rv None w)"
    proof (cases "if ok then query_plan led p else None")
      case None
      then show ?thesis using window_ok_mutate [OF wo qu, of None] by simp
    next
      case (Some r)
      then have "query_plan led p = Some r" by (simp split: if_splits)
      then have r: "is_head led r" "row_plan r = p" using query_is_head by blast+
      have "window_ok led (remember r w)" by (rule window_ok_remember [OF wo r(1)]) (simp add: r(2) qu Finding)
      then have "window_ok led (mutate_head p rv (Some r) (remember r w))"
        by (rule window_ok_mutate) (simp_all add: qu remember_def queue_of_def [of p "_\<lparr>pw_heads := _\<rparr>"] queue_of_def [symmetric] map_of_alist_update r(2))
      then show ?thesis using Some by simp
    qed
    then show ?thesis using lo by (simp add: advance_def qu Finding store_ok_def)
  next
    case (Appending row)
    obtain h where h: "map_of (pw_heads w) p = Some h" "pr_supersedes row = Some (pr_id h)" "row_plan row = p"
      using window_okD(3) [OF wo, of p] by (auto simp: appending_ok_def qu Appending split: option.splits)
    have hd: "is_head led h" "row_plan h = p" using window_okD(1) [OF wo h(1)] by simp_all
    have q: "queue_ok q" "list_all (\<lambda>x. snd x = Queued) q"
      using window_okD(2) [OF wo, of p] queue_ok_tl [of "(rv, s) # q"] by (simp_all add: qu queue_ok_def)
    show ?thesis
    proof (cases ok)
      case False
      have "window_ok led (set_queue p q w)" by (rule window_ok_set_queue [OF wo q(1) queued_ok [OF q(2)]])
      then show ?thesis using lo False by (simp add: advance_def qu Appending store_ok_def)
    next
      case True
      obtain r led' where a: "append_row row led = (r, led')" by (cases "append_row row led")
      have ps: "row_plan row \<in> ps" using lo hd h(3) by (auto simp: ledger_ok_def is_head_def)
      note ar = append_row_ok [OF lo a ps]
      have ex: "pr_supersedes row = Some j \<Longrightarrow> \<exists>h. is_head led h \<and> pr_id h = j" for j using h(2) hd by auto
      let ?w = "set_queue p q (remember r w)"
      have hs: "map_of (pw_heads ?w) p' = (if p' = p then Some r else map_of (pw_heads w) p')" for p'
        using ar(3) [OF ex] h(3) by (simp add: remember_def map_of_alist_update)
      have qs: "queue_of p' ?w = (if p' = p then q else queue_of p' w)" for p'
        by (simp add: queue_of_set) (simp add: queue_of_def remember_def)
      have "window_ok led' ?w"
      proof (rule window_ok_heads_kept [OF wo])
        show "is_head led' r' \<and> row_plan r' = p'" if "map_of (pw_heads ?w) p' = Some r'" for p' r'
        proof (cases "p' = p")
          case True
          then have "r' = r" using that unfolding hs by simp
          then show ?thesis using ar(2,3) [OF ex] h(3) True by simp
        next
          case False
          then have "map_of (pw_heads w) p' = Some r'" using that unfolding hs by simp
          then have r': "is_head led r'" "row_plan r' = p'" using window_okD(1) [OF wo] by auto
          have "pr_id h \<noteq> pr_id r'" using head_unique_id [OF lo] hd r' False by (metis is_head_def)
          then show ?thesis using ar(4) [OF ex r'(1)] r'(2) h(2) by simp
        qed
        show "queue_ok (queue_of p' ?w)" for p' using window_okD(2) [OF wo, of p'] q(1) by (simp add: qs)
        show "appending_ok (pw_heads ?w) p' (queue_of p' ?w)" for p'
        proof (cases "p' = p")
          case False
          then have "map_of (pw_heads ?w) p' = map_of (pw_heads w) p'" unfolding hs by simp
          then show ?thesis using window_okD(3) [OF wo, of p'] appending_ok_cong False by (metis qs)
        qed (simp add: qs queued_ok q(2))
      qed
      then have "window_ok led' (revision_done p (rv_ends rv) (remember r w))"
      proof -
        have "queue_of p (remember r w) = (rv, s) # q" using qu by (simp add: queue_of_def remember_def)
        then have "revision_done p (rv_ends rv) (remember r w) = (if rv_ends rv then endRun p ?w else ?w)" by (simp add: revision_done_def Let_def)
        then show ?thesis using \<open>window_ok led' ?w\<close> by (simp add: endRun_def) (simp add: window_ok_def queue_of_def)
      qed
      then show ?thesis using ar(1) [OF ex] True by (simp add: advance_def qu Appending a store_ok_def)
    qed
  qed
qed

text \<open>What a chore or a turn does to the queues is to add revisions; what it remembers is a head.\<close>

lemma window_ok_endRun [simp]: "window_ok led (endRun p w) = window_ok led w"
  by (rule window_ok_same) (simp_all add: endRun_def)

lemma window_ok_setRun [simp]: "window_ok led (setRun p f dir w) = window_ok led w"
  by (rule window_ok_same) (simp_all add: setRun_def Let_def)

lemma window_ok_rememberDir [simp]: "window_ok led (rememberDir p dir w) = window_ok led w"
  by (rule window_ok_same) (simp_all add: rememberDir_def)

lemma window_ok_tables [simp]:
  "window_ok led (w\<lparr>pw_bySession := a\<rparr>) = window_ok led w" "window_ok led (w\<lparr>pw_byPty := b\<rparr>) = window_ok led w"
  "window_ok led (w\<lparr>pw_chores := cs\<rparr>) = window_ok led w"
  by (rule window_ok_same; simp)+

lemma window_ok_later [simp]: "window_ok led (do_later c w) = window_ok led w"
  by (rule window_ok_same) (simp_all add: do_later_def)

lemma window_ok_found [simp]: "window_ok led (complete_found p why now r w) = window_ok led w" "window_ok led (end_found t e p run r w) = window_ok led w"
  by (simp_all add: complete_found_def end_found_def split: option.split)

lemma window_ok_complete [simp]: "window_ok led (completePlanRun p why now w) = window_ok led w"
  by (simp add: completePlanRun_def split: option.split)

lemma window_ok_find: "window_ok led w \<Longrightarrow> window_ok led (snd (findPlan p led w))"
proof (cases "map_of (pw_heads w) p")
  case None
  assume ok: "window_ok led w"
  show ?thesis
  proof (cases "query_plan led p")
    case (Some r)
    have r: "is_head led r" "row_plan r = p" using query_is_head [OF Some] by simp_all
    have "window_ok led (remember r w)"
    proof (rule window_ok_remember [OF ok r(1)])
      fix rv row q assume "queue_of (row_plan r) w = (rv, Appending row) # q"
      then show "pr_supersedes row = Some (pr_id r)" using window_okD(3) [OF ok, of p] None r(2) by (simp add: appending_ok_def)
    qed
    then show ?thesis by (simp add: findPlan_def None Some)
  qed (simp add: findPlan_def None ok)
qed (simp add: findPlan_def)

lemma window_ok_link: "window_ok led w \<Longrightarrow> window_ok led (linkTurnStart t now w)"
  by (auto simp: linkTurnStart_def Let_def intro!: window_ok_revise mutations_keep_plan split: option.split)

lemma window_ok_turn_end: "window_ok led w \<Longrightarrow> window_ok led (linkTurnEnd t e w)"
  by (simp add: linkTurnEnd_def split: option.split)

lemma window_ok_chore: "window_ok led w \<Longrightarrow> window_ok led (snd (chore_step n h (led, w)))"
proof -
  assume ok: "window_ok led w"
  show ?thesis
    using ok by (auto simp: chore_step_def Let_def window_ok_find intro!: window_ok_revise mutations_keep_plan split: chore.split)
qed

lemma chore_ledger: "fst (chore_step n h lw) = fst lw"
  by (simp add: chore_step_def Let_def)

lemma window_ok_ticket: "window_ok led w \<Longrightarrow> window_ok led (fold (\<lambda>p w. completePlanRun p why now w) ps w)"
  by (induction ps arbitrary: w) simp_all

lemma store_ok_create:
  assumes "store_ok ps (led, w)" "pl_planId d \<notin> row_plan ` set led"
  shows "store_ok (insert (pl_planId d) ps) (createPlan d s (led, w))"
proof -
  have lo: "ledger_ok (insert (pl_planId d) ps) led" and wo: "window_ok led w" using assms(1) by (auto simp: store_ok_def ledger_ok_def)
  define row where "row = \<lparr>pr_id = 0, pr_supersedes = None, pr_status = s, pr_ref = PlanRef (pl_planId d), pr_data = d\<rparr>"
  obtain r led' where a: "append_row row led = (r, led')" by (cases "append_row row led")
  have ps: "row_plan row \<in> insert (pl_planId d) ps" by (simp add: row_def)
  have no: "pr_supersedes row = None" by (simp add: row_def)
  note ar = append_row_ok [OF lo a ps]
  have ok: "ledger_ok (insert (pl_planId d) ps) led'" "is_head led' r" "row_plan r = pl_planId d" "is_head led h \<Longrightarrow> is_head led' h" for h
    using ar no by (simp_all add: row_def)
  have wo': "window_ok led' w" using window_okD [OF wo] ok(4) by (auto simp: window_ok_def)
  have "queue_of (row_plan r) w \<noteq> (rv, Appending x) # q" for rv x q
  proof
    assume "queue_of (row_plan r) w = (rv, Appending x) # q"
    then obtain h where "map_of (pw_heads w) (row_plan r) = Some h" using window_okD(3) [OF wo, of "row_plan r"] by (auto simp: appending_ok_def split: option.splits)
    then have "h \<in> set led" "row_plan h = pl_planId d" using window_okD(1) [OF wo] ok(3) by (auto simp: is_head_def)
    then show False using assms(2) by (metis imageI)
  qed
  then have "window_ok led' (remember r w)" by (intro window_ok_remember [OF wo' ok(2)]) blast
  moreover have "window_ok led' (remember r (rememberDir p dir w)) = window_ok led' (remember r w)" for p dir
    by (rule window_ok_same) (simp_all add: remember_def rememberDir_def)
  ultimately show ?thesis using ok(1) by (simp add: createPlan_def row_def [symmetric] a store_ok_def)
qed

fun created :: "nat \<times> store_event \<Rightarrow> js_string option" where
  "created (_, Create d _) = Some (pl_planId d)"
| "created _ = None"

lemma store_ok_step:
  assumes "store_ok ps (led, w)" "\<And>p. created (i, e) = Some p \<Longrightarrow> p \<notin> ps"
  shows "store_ok (ps \<union> set_option (created (i, e))) (window_step e (led, w))"
proof -
  have lo: "ledger_ok ps led" and wo: "window_ok led w" using assms(1) by (simp_all add: store_ok_def)
  show ?thesis
  proof (cases e)
    case (Create d s)
    have "pl_planId d \<notin> row_plan ` set led" using assms(2) lo by (auto simp: Create ledger_ok_def)
    then show ?thesis using store_ok_create [OF assms(1)] by (simp add: Create insert_commute Un_insert_right)
  next
    case (Receipt s proven checks now)
    show ?thesis
    proof (cases "planForSession s None w")
      case (Some p)
      have "window_ok led (snd (findPlan p led w))" by (rule window_ok_find [OF wo])
      then have "window_ok led (notePlanReceipt s proven checks now (fst (findPlan p led w)) (snd (findPlan p led w)))"
        by (simp add: notePlanReceipt_def split: option.split)
      then show ?thesis using lo Some by (simp add: Receipt store_ok_def Let_def)
    qed (use assms(1) in \<open>simp add: Receipt\<close>)
  next
    case (Advance p ok)
    then show ?thesis using store_ok_advance [OF assms(1)] by simp
  next
    case (Chore n h)
    then show ?thesis using lo window_ok_chore [OF wo] chore_ledger [of n h "(led, w)"] by (simp add: store_ok_def)
  next
    case (TurnStart t now)
    then show ?thesis using lo window_ok_link [OF wo] by (simp add: store_ok_def)
  next
    case (SessionEnd s p now)
    then show ?thesis using lo wo by (simp add: store_ok_def completeSessionPlan_def split: option.split)
  qed (use lo wo in \<open>simp_all add: store_ok_def window_ok_revise mutations_keep_plan expectRun_def Let_def window_ok_turn_end window_ok_ticket\<close>)
qed

definition plans_created :: "(nat \<times> store_event) list \<Rightarrow> js_string list" where
  "plans_created es = List.map_filter created es"


section \<open>Two windows, and a copied brief\<close>

definition the_plan :: plan_data where
  "the_plan = (some_plan (js ''pl-a-1''))\<lparr>pl_approvers := Some [''u1'']\<rparr>"

definition the_turn :: "string \<Rightarrow> turn_start" where
  "the_turn s = \<lparr>ts_sessionId = s, ts_ptyId = None, ts_cwd = ''/r'', ts_startedAt = 5, ts_planId = Some (js ''pl-a-1''), ts_prompt = None\<rparr>"

text \<open>A window made a plan and showed it; the window of another project records the approval of the team; then the first one drops it.\<close>

definition two_windows :: "(nat \<times> store_event) list" where
  "two_windows =
     [(0, Create the_plan PProposed),
      (1, Revise (js ''pl-a-1'') (InChat ''u1'' ''Ann'' 9)), (1, Advance (js ''pl-a-1'') True), (1, Advance (js ''pl-a-1'') True), (1, Advance (js ''pl-a-1'') True),
      (0, Revise (js ''pl-a-1'') Dropped), (0, Advance (js ''pl-a-1'') True), (0, Advance (js ''pl-a-1'') True)]"

lemma plan_id_eval: "js ''pl-a-1'' = [112, 108, 45, 97, 45, 49]" "PLAN_ID [112, 108, 45, 97, 45, 49]"
  by code_simp+

lemmas store_eval = world_run_def world_step_def createPlan_def append_row_def remember_def rememberDir_def latest_def revisePlan_def advance_def
  mutate_head_def successor_def revision_done_def queue_of_def set_queue_def query_plan_def plan_heads_def List.map_filter_simps Let_def
  empty_plan_window_def the_plan_def some_plan_def chat_change_def drop_change_def change_def plan_id_eval


definition brief_copied :: "(nat \<times> store_event) list" where
  "brief_copied =
     [(0, Create the_plan PApproved), (0, Expect (js ''pl-a-1'') ''/r'' (Some OneShot) None),
      (0, TurnStart (the_turn ''s1'') 6), (0, Advance (js ''pl-a-1'') True), (0, Advance (js ''pl-a-1'') True),
      (0, TurnEnd (the_turn ''s1'') 7), (0, Chore 0 []), (0, Advance (js ''pl-a-1'') True), (0, Advance (js ''pl-a-1'') True),
      (0, TurnStart (the_turn ''s2'') 8), (0, Advance (js ''pl-a-1'') True), (0, Advance (js ''pl-a-1'') True)]"

text \<open>A second session whose prompt carries the brief of a finished plan becomes the plan's session.\<close>

theorem copied_brief_takes_over:
  "map (\<lambda>r. (pr_status r, pl_sessionId (pr_data r), pr_ref r)) (fst (world_run brief_copied)) =
     [(PApproved, None, PlanRef (js ''pl-a-1'')), (PInProgress, Some ''s1'', SessionRef ''s1''), (PDone, Some ''s1'', SessionRef ''s1''),
      (PDone, Some ''s2'', SessionRef ''s2'')]"
  by (simp add: brief_copied_def store_eval expectRun_def setRun_def runOf_def linkTurnStart_def turnPlanId_def the_turn_def link_change_def
    planForSession_def run_dir_def linkTurnEnd_def end_found_def chore_step_def do_later_def turn_end_change_def runCommits_def with_commits_def
    is_interactive_def endRun_def planDir_def)


section \<open>The plan of a command\<close>

definition PLAN_ENV :: string where "PLAN_ENV = ''CANOPY_PLAN_ID''"

definition planEnv :: "js_string option \<Rightarrow> (string \<times> js_string) list" where
  "planEnv p = (case p of Some i \<Rightarrow> if PLAN_ID i then [(PLAN_ENV, i)] else [] | None \<Rightarrow> [])"

definition notePlanCommand :: "js_string \<Rightarrow> js_string option \<Rightarrow> (js_string \<times> js_string) list \<Rightarrow> (js_string \<times> js_string) list" where
  "notePlanCommand command p m =
     (case p of
        Some i \<Rightarrow> if command = [] \<or> \<not> PLAN_ID i then m else latest 100 (AList.delete command m @ [(command, i)])
      | None \<Rightarrow> m)"

definition planEnvForCommand :: "js_string option \<Rightarrow> (js_string \<times> js_string) list \<Rightarrow> (string \<times> js_string) list" where
  "planEnvForCommand command m =
     (case command of
        None \<Rightarrow> []
      | Some c \<Rightarrow> if c = [] then []
                  else planEnv (case map_of m c of Some i \<Rightarrow> Some i | None \<Rightarrow> planIdInPrompt (Some c)))"

lemma latest_snoc: "0 < n \<Longrightarrow> \<exists>ys. latest n (xs @ [x]) = ys @ [x] \<and> set ys \<subseteq> set xs"
  by (auto simp: latest_def dest: in_set_dropD)

text \<open>A noted command is launched with its plan.\<close>

lemma noted_command_has_its_plan:
  assumes "command \<noteq> []" "PLAN_ID i"
  shows "planEnvForCommand (Some command) (notePlanCommand command (Some i) m) = [(PLAN_ENV, i)]"
proof -
  obtain ys where ys: "latest 100 (AList.delete command m @ [(command, i)]) = ys @ [(command, i)]" "set ys \<subseteq> set (AList.delete command m)"
    using latest_snoc by (metis zero_less_numeral)
  have "command \<notin> fst ` set ys" using ys(2) by (auto simp: set_alist_delete)
  then have "map_of ys command = None" by (simp only: map_of_eq_None_iff) simp
  then have "map_of (ys @ [(command, i)]) command = Some i" by (simp add: map_add_def)
  then show ?thesis using assms by (simp add: planEnvForCommand_def notePlanCommand_def ys(1) planEnv_def)
qed

end
