(* ===== verification/TerminalAttach.thy ===== *)
theory TerminalAttach
  imports Prelude
begin

text \<open>
  The queue between native terminals and the views that show them, \<^verbatim>\<open>src/src/terminalAttachmentQueue.ts\<close>. A terminal
  lifetime (PTY and session generation) waits, is offered to a consumer, or is owned by the consumer that committed its
  tab. The specification of that is \<open>passes\<close>; every operation implements it.

  A \<^verbatim>\<open>Map\<close> is an association list in the order of insertion. A consumer is a number, its identity; what it does when it is
  called is an argument, \<open>react\<close>. Consumers that call other operations than \<^verbatim>\<open>acknowledge\<close> for the terminal they were
  handed are not modelled.
\<close>

section \<open>The queue\<close>

type_synonym lifetime = "nat \<times> nat"
type_synonym consumer = nat

record terminal_attachment =
  ta_projectId :: string
  ta_ptyId :: nat
  ta_sessionGeneration :: nat
  ta_cwd :: string
  ta_name :: "string option"
  ta_title :: string
  ta_run :: bool
  ta_command :: "string option"
  ta_componentId :: "string option"
  ta_runCommandId :: "string option"
  ta_activate :: bool
  ta_recovered :: bool
  ta_killOnClose :: bool
  ta_resumedFrom :: "nat option"

record attach_metrics =
  am_enqueued :: nat
  am_acknowledged :: nat
  am_discarded :: nat
  am_forgotten :: nat
  am_requeued :: nat

text \<open>
  A set of consumers is shared by the table and the functions that unsubscribe from it, so it has an address: \<open>aq_sets\<close> is the
  store of the sets. \<open>aq_log\<close> is what was handed to consumers, oldest first.
\<close>

record attach_queue =
  aq_pending :: "(lifetime \<times> terminal_attachment) list"
  aq_consumers :: "(string \<times> nat) list"
  aq_sets :: "consumer list list"
  aq_offered :: "(lifetime \<times> consumer) list"
  aq_committed :: "(lifetime \<times> terminal_attachment \<times> consumer) list"
  aq_seen :: "lifetime list"
  aq_metrics :: attach_metrics
  aq_log :: "(consumer \<times> lifetime) list"

definition empty_queue :: attach_queue where
  "empty_queue = \<lparr>aq_pending = [], aq_consumers = [], aq_sets = [], aq_offered = [], aq_committed = [], aq_seen = [],
     aq_metrics = \<lparr>am_enqueued = 0, am_acknowledged = 0, am_discarded = 0, am_forgotten = 0, am_requeued = 0\<rparr>, aq_log = []\<rparr>"

definition attach_key :: "terminal_attachment \<Rightarrow> lifetime" where
  "attach_key a = (ta_ptyId a, ta_sessionGeneration a)"

definition see :: "lifetime \<Rightarrow> lifetime list \<Rightarrow> lifetime list" where
  "see k seen = (let s = (if k \<in> set seen then seen else seen @ [k]) in if length s > 4096 then tl s else s)"

text \<open>What a consumer does when it is called: it asks for the tab, it also commits it before it returns, or it throws.\<close>

datatype reaction = Requests | Commits | Throws

type_synonym reactions = "consumer \<Rightarrow> terminal_attachment \<Rightarrow> reaction"

definition acknowledge_one :: "lifetime \<Rightarrow> attach_queue \<Rightarrow> attach_queue" where
  "acknowledge_one k q =
     (case map_of (aq_pending q) k of
        None \<Rightarrow> q
      | Some a \<Rightarrow>
          (case map_of (aq_offered q) k of
             None \<Rightarrow> q
           | Some c \<Rightarrow> q\<lparr>aq_committed := AList.update k (a, c) (aq_committed q)\<rparr>)
          \<lparr>aq_metrics := (aq_metrics q)\<lparr>am_acknowledged := Suc (am_acknowledged (aq_metrics q))\<rparr>,
           aq_pending := AList.delete k (aq_pending q), aq_offered := AList.delete k (aq_offered q)\<rparr>)"

definition of_terminal :: "string \<Rightarrow> nat \<Rightarrow> terminal_attachment \<Rightarrow> bool" where
  "of_terminal p pty a \<longleftrightarrow> ta_projectId a = p \<and> ta_ptyId a = pty"

definition acknowledge :: "string \<Rightarrow> nat \<Rightarrow> attach_queue \<Rightarrow> attach_queue" where
  "acknowledge p pty q = fold acknowledge_one (map fst (filter (\<lambda>(k, a). of_terminal p pty a) (aq_pending q))) q"

text \<open>The loop of \<^verbatim>\<open>flush\<close> over the keys pending when it starts; one that is gone when its turn comes is not visited.\<close>

definition offer :: "reactions \<Rightarrow> consumer \<Rightarrow> string \<Rightarrow> lifetime \<Rightarrow> attach_queue \<Rightarrow> attach_queue" where
  "offer react c p k q =
     (case map_of (aq_pending q) k of
        None \<Rightarrow> q
      | Some a \<Rightarrow>
          (if ta_projectId a \<noteq> p \<or> map_of (aq_offered q) k \<noteq> None then q
           else
             let q1 = q\<lparr>aq_offered := AList.update k c (aq_offered q), aq_log := aq_log q @ [(c, k)]\<rparr>
             in case react c a of
                  Requests \<Rightarrow> q1
                | Commits \<Rightarrow> acknowledge (ta_projectId a) (ta_ptyId a) q1
                | Throws \<Rightarrow> q1\<lparr>aq_offered := AList.delete k (aq_offered q1)\<rparr>))"

definition first_consumer :: "string \<Rightarrow> attach_queue \<Rightarrow> consumer option" where
  "first_consumer p q =
     (case map_of (aq_consumers q) p of
        None \<Rightarrow> None
      | Some s \<Rightarrow> (case aq_sets q ! s of c # _ \<Rightarrow> Some c | [] \<Rightarrow> None))"

definition flush :: "reactions \<Rightarrow> string \<Rightarrow> attach_queue \<Rightarrow> attach_queue" where
  "flush react p q =
     (case first_consumer p q of
        None \<Rightarrow> q
      | Some c \<Rightarrow> fold (offer react c p) (map fst (aq_pending q)) q)"

definition enqueue :: "reactions \<Rightarrow> terminal_attachment \<Rightarrow> attach_queue \<Rightarrow> attach_queue" where
  "enqueue react a q =
     (let k = attach_key a;
          q1 = q\<lparr>aq_metrics := (aq_metrics q)\<lparr>am_enqueued := Suc (am_enqueued (aq_metrics q))\<rparr>, aq_seen := see k (aq_seen q)\<rparr>
      in case map_of (aq_committed q1) k of
           Some (_, c) \<Rightarrow> q1\<lparr>aq_committed := AList.update k (a, c) (aq_committed q1)\<rparr>
         | None \<Rightarrow>
             (let q2 = q1\<lparr>aq_pending := AList.update k a (aq_pending q1)\<rparr>
              in if map_of (aq_pending q1) k \<noteq> None then q2 else flush react (ta_projectId a) q2))"

definition attachments :: "string \<Rightarrow> attach_queue \<Rightarrow> terminal_attachment list" where
  "attachments p q = filter (\<lambda>a. ta_projectId a = p) (map snd (aq_pending q) @ map (fst \<circ> snd) (aq_committed q))"

text \<open>Moves committed lifetimes back to the pending ones.\<close>

definition requeue_one :: "lifetime \<Rightarrow> attach_queue \<Rightarrow> attach_queue" where
  "requeue_one k q =
     (case map_of (aq_committed q) k of
        None \<Rightarrow> q
      | Some (a, _) \<Rightarrow>
          q\<lparr>aq_committed := AList.delete k (aq_committed q), aq_pending := AList.update k a (aq_pending q),
            aq_metrics := (aq_metrics q)\<lparr>am_requeued := Suc (am_requeued (aq_metrics q))\<rparr>\<rparr>)"

text \<open>\<^verbatim>\<open>subscribe\<close>; the function it returns unsubscribes the consumer from the set whose address is returned here.\<close>

definition set_for :: "string \<Rightarrow> attach_queue \<Rightarrow> nat" where
  "set_for p q = (case map_of (aq_consumers q) p of Some s \<Rightarrow> s | None \<Rightarrow> length (aq_sets q))"

definition subscribe :: "reactions \<Rightarrow> string \<Rightarrow> consumer \<Rightarrow> attach_queue \<Rightarrow> nat \<times> attach_queue" where
  "subscribe react p c q =
     (let s = set_for p q;
          sets = (if map_of (aq_consumers q) p = None then aq_sets q @ [[]] else aq_sets q);
          sets' = sets[s := (if c \<in> set (sets ! s) then sets ! s else sets ! s @ [c])]
      in (s, flush react p (q\<lparr>aq_sets := sets', aq_consumers := AList.update p s (aq_consumers q)\<rparr>)))"

definition unsubscribe :: "reactions \<Rightarrow> string \<Rightarrow> nat \<Rightarrow> consumer \<Rightarrow> attach_queue \<Rightarrow> attach_queue" where
  "unsubscribe react p s c q =
     (let left = removeAll c (aq_sets q ! s);
          q1 = q\<lparr>aq_sets := (aq_sets q)[s := left], aq_consumers := (if left = [] then AList.delete p (aq_consumers q) else aq_consumers q),
                 aq_offered := filter (\<lambda>(k, c'). c' \<noteq> c) (aq_offered q)\<rparr>
      in flush react p (fold requeue_one (map fst (filter (\<lambda>(k, a, c'). c' = c) (aq_committed q1))) q1))"

definition reconcile :: "reactions \<Rightarrow> string \<Rightarrow> nat list \<Rightarrow> attach_queue \<Rightarrow> attach_queue" where
  "reconcile react p ptys q =
     flush react p (fold requeue_one
       (map fst (filter (\<lambda>(k, a, c). ta_projectId a = p \<and> ta_ptyId a \<notin> set ptys) (aq_committed q))) q)"

definition forget :: "string \<Rightarrow> nat \<Rightarrow> attach_queue \<Rightarrow> attach_queue" where
  "forget p pty q =
     (let gone = map fst (filter (\<lambda>(k, a). of_terminal p pty a) (aq_pending q))
                 @ map fst (filter (\<lambda>(k, a, c). of_terminal p pty a) (aq_committed q))
      in q\<lparr>aq_pending := filter (\<lambda>(k, a). \<not> of_terminal p pty a) (aq_pending q),
           aq_committed := filter (\<lambda>(k, a, c). \<not> of_terminal p pty a) (aq_committed q),
           aq_offered := filter (\<lambda>(k, c). k \<notin> set gone) (aq_offered q),
           aq_metrics := (aq_metrics q)\<lparr>am_forgotten := am_forgotten (aq_metrics q) + (if gone = [] then 0 else 1)\<rparr>\<rparr>)"

definition discard :: "nat \<Rightarrow> nat \<Rightarrow> attach_queue \<Rightarrow> attach_queue" where
  "discard pty gen q =
     (let k = (pty, gen)
      in q\<lparr>aq_pending := AList.delete k (aq_pending q), aq_offered := AList.delete k (aq_offered q),
           aq_committed := AList.delete k (aq_committed q), aq_seen := see k (aq_seen q),
           aq_metrics := (aq_metrics q)\<lparr>am_discarded := Suc (am_discarded (aq_metrics q))\<rparr>\<rparr>)"

definition hasSeen :: "nat \<Rightarrow> nat \<Rightarrow> attach_queue \<Rightarrow> bool" where
  "hasSeen pty gen q \<longleftrightarrow> (pty, gen) \<in> set (aq_seen q)"

section \<open>Who has a terminal\<close>

text \<open>The specification: a lifetime waits, has been offered to one consumer, or is owned by one. A transition is labelled with what
  was handed out.\<close>

datatype place = Waiting | Offered consumer | Owned consumer

type_synonym places = "lifetime \<Rightarrow> place option"

inductive passes :: "places \<Rightarrow> (consumer \<times> lifetime) list \<Rightarrow> places \<Rightarrow> bool" for m where
  stay: "passes m [] m"
| publish: "passes m l m' \<Longrightarrow> m' k = None \<Longrightarrow> passes m l (m'(k \<mapsto> Waiting))"
| offers: "passes m l m' \<Longrightarrow> m' k = Some Waiting \<Longrightarrow> passes m (l @ [(c, k)]) (m'(k \<mapsto> Offered c))"
| commit: "passes m l m' \<Longrightarrow> m' k = Some (Offered c) \<Longrightarrow> passes m l (m'(k \<mapsto> Owned c))"
| refuse: "passes m l m' \<Longrightarrow> m' k = Some (Offered c) \<Longrightarrow> passes m l (m'(k \<mapsto> Waiting))"
| requeue: "passes m l m' \<Longrightarrow> m' k = Some (Owned c) \<Longrightarrow> passes m l (m'(k \<mapsto> Waiting))"
| release: "passes m l m' \<Longrightarrow> passes m l (\<lambda>k. if m' k = Some (Offered c) then Some Waiting else m' k)"
| ended: "passes m l m' \<Longrightarrow> passes m l (m' |` (- S))"

lemma passes_trans: "passes m' l' m'' \<Longrightarrow> passes m l m' \<Longrightarrow> passes m (l @ l') m''"
proof (induction rule: passes.induct)
  case (offers l' m' k c)
  then show ?case using passes.offers [of m "l @ l'" m' k c] by (simp only: append_assoc)
qed (auto intro: passes.intros)

definition places_of :: "attach_queue \<Rightarrow> places" where
  "places_of q k =
     (if map_of (aq_pending q) k \<noteq> None
      then (case map_of (aq_offered q) k of Some c \<Rightarrow> Some (Offered c) | None \<Rightarrow> Some Waiting)
      else map_option (\<lambda>(a, c). Owned c) (map_of (aq_committed q) k))"

text \<open>The invariant of the tables.\<close>

definition keys :: "(lifetime \<times> 'a) list \<Rightarrow> lifetime set" where
  "keys t = fst ` set t"

definition attach_ok :: "attach_queue \<Rightarrow> bool" where
  "attach_ok q \<longleftrightarrow>
     distinct (map fst (aq_pending q)) \<and> distinct (map fst (aq_committed q)) \<and> distinct (map fst (aq_offered q))
     \<and> keys (aq_pending q) \<inter> keys (aq_committed q) = {} \<and> keys (aq_offered q) \<subseteq> keys (aq_pending q)
     \<and> list_all (\<lambda>(k, a). attach_key a = k) (aq_pending q) \<and> list_all (\<lambda>(k, a, c). attach_key a = k) (aq_committed q)
     \<and> distinct (aq_seen q) \<and> length (aq_seen q) \<le> 4096"

lemma keys_map_of: "k \<in> keys t \<longleftrightarrow> map_of t k \<noteq> None"
  by (simp add: keys_def map_of_eq_None_iff)

lemma keys_alist [simp]: "keys (AList.delete k t) = keys t - {k}" "keys (AList.update k v t) = insert k (keys t)" "keys [] = {}"
  by (auto simp: keys_def dom_update)

lemma keys_filter: "keys (filter P t) \<subseteq> keys t"
  by (auto simp: keys_def)

lemma distinct_filter_keys: "distinct (map fst t) \<Longrightarrow> distinct (map fst (filter P t))"
  by (rule distinct_map_filter)

lemma map_of_filter_distinct: "distinct (map fst t) \<Longrightarrow> map_of (filter P t) k = (case map_of t k of Some v \<Rightarrow> if P (k, v) then Some v else None | None \<Rightarrow> None)"
proof (induction t)
  case (Cons x t)
  obtain k' v where x: "x = (k', v)" by (cases x)
  have "map_of t k = None" if "k = k'" using Cons.prems that by (auto simp: x map_of_eq_None_iff)
  then show ?case using Cons by (auto simp: x split: option.splits)
qed simp

text \<open>A step that keeps the tables in order and passes lifetimes on as the specification says.\<close>

definition moves :: "attach_queue \<Rightarrow> attach_queue \<Rightarrow> bool" where
  "moves q q' \<longleftrightarrow> (attach_ok q \<longrightarrow> attach_ok q' \<and> (\<exists>l. aq_log q' = aq_log q @ l \<and> passes (places_of q) l (places_of q')))"

lemma moves_refl [simp]: "moves q q"
  by (auto simp: moves_def intro: passes.stay)

lemma moves_trans: "moves q q' \<Longrightarrow> moves q' q'' \<Longrightarrow> moves q q''"
  unfolding moves_def by (metis append_assoc passes_trans)

lemma moves_fold: "(\<And>x q. moves q (f x q)) \<Longrightarrow> moves q (fold f xs q)"
  by (induction xs arbitrary: q) (auto intro: moves_trans)

lemma moves_by:
  assumes "attach_ok q \<Longrightarrow> attach_ok q'" "attach_ok q \<Longrightarrow> passes (places_of q) l (places_of q')" "aq_log q' = aq_log q @ l"
  shows "moves q q'"
  using assms by (auto simp: moves_def)

lemma moves_same:
  assumes "aq_pending q' = aq_pending q" "aq_committed q' = aq_committed q" "aq_offered q' = aq_offered q" "aq_log q' = aq_log q"
    and "attach_ok q \<Longrightarrow> distinct (aq_seen q') \<and> length (aq_seen q') \<le> 4096"
  shows "moves q q'"
proof (rule moves_by)
  show "attach_ok q \<Longrightarrow> attach_ok q'" using assms by (simp add: attach_ok_def)
  have "places_of q' = places_of q" using assms(1-3) by (simp add: places_of_def fun_eq_iff)
  then show "passes (places_of q) [] (places_of q')" by (simp add: passes.stay)
qed (use assms(4) in simp)

lemma see_ok: "distinct s \<Longrightarrow> length s \<le> 4096 \<Longrightarrow> distinct (see k s) \<and> length (see k s) \<le> 4096"
  by (auto simp: see_def Let_def distinct_tl)

section \<open>Every operation passes lifetimes on\<close>

lemma map_of_keys: "map_of t k = None \<longleftrightarrow> k \<notin> keys t"
  by (simp add: keys_map_of)

lemma attach_okD:
  assumes "attach_ok q"
  shows "map_of (aq_pending q) k \<noteq> None \<Longrightarrow> map_of (aq_committed q) k = None"
    and "map_of (aq_pending q) k = None \<Longrightarrow> map_of (aq_offered q) k = None"
    and "map_of (aq_pending q) k = Some a \<Longrightarrow> attach_key a = k" and "map_of (aq_committed q) k = Some (a, c) \<Longrightarrow> attach_key a = k"
proof -
  show "map_of (aq_pending q) k \<noteq> None \<Longrightarrow> map_of (aq_committed q) k = None"
    "map_of (aq_pending q) k = None \<Longrightarrow> map_of (aq_offered q) k = None"
    using assms by (auto simp: attach_ok_def map_of_keys)
  show "map_of (aq_pending q) k = Some a \<Longrightarrow> attach_key a = k"
    using assms by (auto simp: attach_ok_def list_all_iff dest: map_of_SomeD)
  show "map_of (aq_committed q) k = Some (a, c) \<Longrightarrow> attach_key a = k"
    using assms by (auto simp: attach_ok_def list_all_iff dest!: map_of_SomeD)
qed

lemma list_all_update: "list_all P t \<Longrightarrow> P (k, v) \<Longrightarrow> list_all P (AList.update k v t)"
  using set_alist_update [of k v t] by (auto simp: list_all_iff)

lemma list_all_delete: "list_all P t \<Longrightarrow> list_all P (AList.delete k t)"
  by (auto simp: list_all_iff set_alist_delete)

lemma list_all_filter: "list_all P t \<Longrightarrow> list_all P (filter Q t)"
  by (auto simp: list_all_iff)

lemmas alist_ok = list_all_update list_all_delete distinct_keys_update distinct_keys_delete distinct_filter_keys

lemma moves_acknowledge_one: "moves q (acknowledge_one k q)"
proof (cases "map_of (aq_pending q) k")
  case None
  then show ?thesis by (simp add: acknowledge_one_def)
next
  case (Some a)
  let ?q = "acknowledge_one k q"
  have q: "aq_pending ?q = AList.delete k (aq_pending q)" "aq_offered ?q = AList.delete k (aq_offered q)" "aq_seen ?q = aq_seen q"
    "aq_committed ?q = (case map_of (aq_offered q) k of None \<Rightarrow> aq_committed q | Some c \<Rightarrow> AList.update k (a, c) (aq_committed q))"
    "aq_log ?q = aq_log q"
    by (simp_all add: acknowledge_one_def Some split: option.split)
  show ?thesis
  proof (rule moves_by)
    assume ok: "attach_ok q"
    have a: "attach_key a = k" by (rule attach_okD(3) [OF ok Some])
    show "attach_ok ?q"
      using ok a by (auto simp: attach_ok_def q alist_ok split: option.split)
    have n: "map_of (aq_committed q) k = None" using attach_okD(1) [OF ok] Some by simp
    show "passes (places_of q) [] (places_of ?q)"
    proof (cases "map_of (aq_offered q) k")
      case None
      have "places_of ?q = places_of q |` (- {k})"
        using n by (auto simp: places_of_def q None map_of_alist_delete restrict_map_def fun_eq_iff)
      then show ?thesis using passes.ended [OF passes.stay, of "places_of q" "{k}"] by simp
    next
      case (Some c)
      have "places_of ?q = (places_of q)(k \<mapsto> Owned c)"
        by (auto simp: places_of_def q Some map_of_alist_delete map_of_alist_update fun_eq_iff)
      moreover have "places_of q k = Some (Offered c)" using \<open>map_of (aq_pending q) k = Some a\<close> by (simp add: places_of_def Some)
      ultimately show ?thesis using passes.commit [OF passes.stay] by simp
    qed
  qed (simp add: q)
qed

lemma moves_acknowledge: "moves q (acknowledge p pty q)"
  unfolding acknowledge_def by (rule moves_fold) (rule moves_acknowledge_one)

lemma moves_requeue_one: "moves q (requeue_one k q)"
proof (cases "map_of (aq_committed q) k")
  case None
  then show ?thesis by (simp add: requeue_one_def)
next
  case (Some v)
  obtain a c where v: "v = (a, c)" by (cases v)
  let ?q = "requeue_one k q"
  have q: "aq_pending ?q = AList.update k a (aq_pending q)" "aq_committed ?q = AList.delete k (aq_committed q)" "aq_offered ?q = aq_offered q"
    "aq_seen ?q = aq_seen q" "aq_log ?q = aq_log q"
    by (simp_all add: requeue_one_def Some v)
  show ?thesis
  proof (rule moves_by)
    assume ok: "attach_ok q"
    have a: "attach_key a = k" using attach_okD(4) [OF ok] Some v by simp
    show "attach_ok ?q" using ok a by (auto simp: attach_ok_def q alist_ok)
    have n: "map_of (aq_pending q) k = None" using attach_okD(1) [OF ok, of k] Some by (cases "map_of (aq_pending q) k") auto
    have n2: "map_of (aq_offered q) k = None" by (rule attach_okD(2) [OF ok n])
    have "places_of ?q = (places_of q)(k \<mapsto> Waiting)"
      using n n2 by (auto simp: places_of_def q map_of_alist_delete map_of_alist_update fun_eq_iff)
    moreover have "places_of q k = Some (Owned c)" using n by (simp add: places_of_def Some v)
    ultimately show "passes (places_of q) [] (places_of ?q)" using passes.requeue [OF passes.stay] by simp
  qed (simp add: q)
qed

lemma moves_offer: "moves q (offer react c p k q)"
proof (cases "map_of (aq_pending q) k")
  case None
  then show ?thesis by (simp add: offer_def)
next
  case (Some a)
  define q1 where "q1 = q\<lparr>aq_offered := AList.update k c (aq_offered q), aq_log := aq_log q @ [(c, k)]\<rparr>"
  define q2 where "q2 = q1\<lparr>aq_offered := AList.delete k (aq_offered q1)\<rparr>"
  show ?thesis
  proof (cases "ta_projectId a \<noteq> p \<or> map_of (aq_offered q) k \<noteq> None")
    case True
    then show ?thesis by (auto simp: offer_def Some)
  next
    case False
    have w: "places_of q k = Some Waiting" using False by (simp add: places_of_def Some)
    have p1: "places_of q1 = (places_of q)(k \<mapsto> Offered c)"
      by (auto simp: places_of_def q1_def Some map_of_alist_update fun_eq_iff)
    have m1: "moves q q1"
    proof (rule moves_by)
      show "attach_ok q \<Longrightarrow> attach_ok q1" using Some by (auto simp: attach_ok_def q1_def alist_ok keys_map_of)
      show "passes (places_of q) [(c, k)] (places_of q1)" using passes.offers [of "places_of q" "[]" "places_of q" k c] passes.stay w by (simp add: p1)
    qed (simp add: q1_def)
    have "moves q1 q2"
    proof (rule moves_by)
      show "attach_ok q1 \<Longrightarrow> attach_ok q2" by (auto simp: attach_ok_def q2_def alist_ok)
      have "places_of q2 = (places_of q1)(k \<mapsto> Waiting)"
        by (auto simp: places_of_def q2_def q1_def Some map_of_alist_delete map_of_alist_update fun_eq_iff)
      then show "passes (places_of q1) [] (places_of q2)" using passes.refuse [OF passes.stay, of "places_of q1" k c] by (simp add: p1)
    qed (simp add: q2_def)
    then show ?thesis
      using m1 False moves_acknowledge [of q1] by (auto simp: offer_def Some q1_def [symmetric] q2_def [symmetric] Let_def split: reaction.split intro: moves_trans)
  qed
qed

lemma moves_flush: "moves q (flush react p q)"
  unfolding flush_def by (auto split: option.split intro: moves_fold moves_offer)

lemma moves_requeues: "moves q (fold requeue_one ks q)"
  by (rule moves_fold) (rule moves_requeue_one)

lemma moves_enqueue: "moves q (enqueue react a q)"
proof -
  let ?k = "attach_key a"
  define q1 where "q1 = q\<lparr>aq_metrics := (aq_metrics q)\<lparr>am_enqueued := Suc (am_enqueued (aq_metrics q))\<rparr>, aq_seen := see ?k (aq_seen q)\<rparr>"
  have m1: "moves q q1" by (rule moves_same) (simp_all add: q1_def attach_ok_def see_ok)
  show ?thesis
  proof (cases "map_of (aq_committed q1) ?k")
    case (Some v)
    obtain b c where v: "v = (b, c)" by (cases v)
    let ?q = "q1\<lparr>aq_committed := AList.update ?k (a, c) (aq_committed q1)\<rparr>"
    have "moves q1 ?q"
    proof (rule moves_by)
      have "keys (aq_committed ?q) = keys (aq_committed q1)" using Some by (simp add: insert_absorb keys_map_of)
      then show "attach_ok q1 \<Longrightarrow> attach_ok ?q" by (simp add: attach_ok_def list_all_update distinct_keys_update del: keys_alist)
      have "places_of ?q = places_of q1" by (auto simp: places_of_def Some v map_of_alist_update fun_eq_iff)
      then show "passes (places_of q1) [] (places_of ?q)" by (simp add: passes.stay)
    qed simp
    moreover have "enqueue react a q = ?q" by (simp only: enqueue_def Let_def q1_def [symmetric] Some v option.case prod.case)
    ultimately show ?thesis using m1 by (simp only:) (rule moves_trans)
  next
    case None
    define q2 where "q2 = q1\<lparr>aq_pending := AList.update ?k a (aq_pending q1)\<rparr>"
    have "moves q1 q2"
    proof (rule moves_by)
      show "attach_ok q1 \<Longrightarrow> attach_ok q2" using None by (auto simp: attach_ok_def q2_def alist_ok map_of_keys)
      assume ok: "attach_ok q1"
      show "passes (places_of q1) [] (places_of q2)"
      proof (cases "map_of (aq_pending q1) ?k")
        case None
        then have o: "map_of (aq_offered q1) ?k = None" using attach_okD(2) [OF ok] by blast
        have "places_of q2 = (places_of q1)(?k \<mapsto> Waiting)" using o by (auto simp: places_of_def q2_def map_of_alist_update fun_eq_iff)
        moreover have "places_of q1 ?k = None" using None \<open>map_of (aq_committed q1) ?k = None\<close> by (simp add: places_of_def)
        ultimately show ?thesis using passes.publish [OF passes.stay] by simp
      next
        case (Some b)
        have "places_of q2 = places_of q1" using Some by (auto simp: places_of_def q2_def map_of_alist_update fun_eq_iff)
        then show ?thesis by (simp add: passes.stay)
      qed
    qed (simp add: q2_def)
    then have "moves q q2" using m1 by (rule moves_trans [rotated])
    moreover have "enqueue react a q = (if map_of (aq_pending q1) ?k \<noteq> None then q2 else flush react (ta_projectId a) q2)"
      by (simp only: enqueue_def Let_def q1_def [symmetric] q2_def [symmetric] None option.case)
    ultimately show ?thesis using moves_trans [OF _ moves_flush] by (simp only: split: if_split) blast
  qed
qed

lemma moves_subscribe: "moves q (snd (subscribe react p c q))"
  unfolding subscribe_def Let_def snd_conv
  by (rule moves_trans [OF moves_same moves_flush]) (simp_all add: attach_ok_def)

lemma moves_unsubscribe: "moves q (unsubscribe react p s c q)"
proof -
  define q1 where "q1 = q\<lparr>aq_sets := (aq_sets q)[s := removeAll c (aq_sets q ! s)],
    aq_consumers := (if removeAll c (aq_sets q ! s) = [] then AList.delete p (aq_consumers q) else aq_consumers q),
    aq_offered := filter (\<lambda>(k, c'). c' \<noteq> c) (aq_offered q)\<rparr>"
  have "moves q q1"
  proof (rule moves_by)
    show "attach_ok q \<Longrightarrow> attach_ok q1" using keys_filter [of _ "aq_offered q"] by (auto simp: attach_ok_def q1_def alist_ok)
    assume ok: "attach_ok q"
    have "places_of q1 = (\<lambda>k. if places_of q k = Some (Offered c) then Some Waiting else places_of q k)"
      using ok by (auto simp: places_of_def q1_def attach_ok_def map_of_filter_distinct fun_eq_iff split: option.split)
    then show "passes (places_of q) [] (places_of q1)" using passes.release [OF passes.stay, of "places_of q" c] by simp
  qed (simp add: q1_def)
  then show ?thesis
    unfolding unsubscribe_def Let_def q1_def [symmetric] by (rule moves_trans [OF moves_trans [OF _ moves_requeues] moves_flush])
qed

lemma moves_reconcile: "moves q (reconcile react p ptys q)"
  unfolding reconcile_def by (rule moves_trans [OF moves_requeues moves_flush])

lemma moves_forget: "moves q (forget p pty q)"
proof -
  let ?q = "forget p pty q"
  let ?S = "{k. (\<exists>a. map_of (aq_pending q) k = Some a \<and> of_terminal p pty a) \<or> (\<exists>a c. map_of (aq_committed q) k = Some (a, c) \<and> of_terminal p pty a)}"
  define gone where "gone = map fst (filter (\<lambda>(k, a). of_terminal p pty a) (aq_pending q)) @ map fst (filter (\<lambda>(k, a, c). of_terminal p pty a) (aq_committed q))"
  have q: "aq_pending ?q = filter (\<lambda>(k, a). \<not> of_terminal p pty a) (aq_pending q)" "aq_committed ?q = filter (\<lambda>(k, a, c). \<not> of_terminal p pty a) (aq_committed q)"
    "aq_offered ?q = filter (\<lambda>(k, c). k \<notin> set gone) (aq_offered q)" "aq_seen ?q = aq_seen q" "aq_log ?q = aq_log q"
    by (simp_all add: forget_def Let_def gone_def)
  show ?thesis
  proof (rule moves_by)
    assume ok: "attach_ok q"
    then have d: "distinct (map fst (aq_pending q))" "distinct (map fst (aq_committed q))" "distinct (map fst (aq_offered q))" by (simp_all add: attach_ok_def)
    have gone: "k \<in> set gone \<longleftrightarrow> k \<in> ?S" for k
      using d(1,2) by (force simp: gone_def)
    have off: "keys (aq_offered ?q) \<subseteq> keys (aq_pending ?q)"
    proof
      fix k assume "k \<in> keys (aq_offered ?q)"
      then have "k \<in> keys (aq_offered q)" "k \<notin> set gone" by (auto simp: keys_def q)
      moreover from this obtain a where "map_of (aq_pending q) k = Some a"
        using attach_okD(2) [OF ok, of k] by (cases "map_of (aq_pending q) k") (auto simp: keys_map_of)
      ultimately show "k \<in> keys (aq_pending ?q)" unfolding gone keys_map_of q map_of_filter_distinct [OF d(1)] by simp
    qed
    have "keys (aq_pending ?q) \<inter> keys (aq_committed ?q) = {}"
      using ok keys_filter [of _ "aq_pending q"] keys_filter [of _ "aq_committed q"] unfolding attach_ok_def q by blast
    then show "attach_ok ?q"
      using ok off by (simp add: attach_ok_def distinct_filter_keys list_all_filter q)
    have "places_of ?q = places_of q |` (- ?S)"
    proof
      fix k
      have "map_of (aq_pending q) k \<noteq> None \<Longrightarrow> map_of (aq_committed q) k = None" using attach_okD(1) [OF ok] .
      then show "places_of ?q k = (places_of q |` (- ?S)) k"
        unfolding places_of_def restrict_map_def q map_of_filter_distinct [OF d(1)] map_of_filter_distinct [OF d(2)] map_of_filter_distinct [OF d(3)]
        by (auto simp: gone split: option.split)
    qed
    then show "passes (places_of q) [] (places_of ?q)" using passes.ended [OF passes.stay, of "places_of q" ?S] by simp
  qed (simp add: q)
qed

lemma moves_discard: "moves q (discard pty gen q)"
proof (rule moves_by)
  show "attach_ok q \<Longrightarrow> attach_ok (discard pty gen q)" by (auto simp: attach_ok_def discard_def Let_def alist_ok see_ok)
  have "places_of (discard pty gen q) = places_of q |` (- {(pty, gen)})"
    by (auto simp: places_of_def discard_def Let_def map_of_alist_delete restrict_map_def fun_eq_iff)
  then show "passes (places_of q) [] (places_of (discard pty gen q))" using passes.ended [OF passes.stay, of "places_of q" "{(pty, gen)}"] by simp
qed (simp add: discard_def Let_def)

section \<open>Histories of a queue\<close>

text \<open>What the application calls: native reports, mounting and unmounting views, their commits, closed tabs and exits.\<close>

datatype attach_event =
    Enqueue terminal_attachment
  | Subscribe string consumer
  | Unsubscribe string nat consumer
  | Acknowledge string nat
  | Reconcile string "nat list"
  | Forget string nat
  | Discard nat nat

fun attach_step :: "reactions \<Rightarrow> attach_event \<Rightarrow> attach_queue \<Rightarrow> attach_queue" where
  "attach_step react (Enqueue a) q = enqueue react a q"
| "attach_step react (Subscribe p c) q = snd (subscribe react p c q)"
| "attach_step react (Unsubscribe p s c) q = unsubscribe react p s c q"
| "attach_step react (Acknowledge p pty) q = acknowledge p pty q"
| "attach_step react (Reconcile p ptys) q = reconcile react p ptys q"
| "attach_step react (Forget p pty) q = forget p pty q"
| "attach_step react (Discard pty gen) q = discard pty gen q"

definition attach_run :: "(reactions \<times> attach_event) list \<Rightarrow> attach_queue \<Rightarrow> attach_queue" where
  "attach_run es q = fold (\<lambda>(react, e). attach_step react e) es q"

lemma moves_attach_step: "moves q (attach_step react e q)"
  by (cases e) (simp_all add: moves_enqueue moves_subscribe moves_unsubscribe moves_acknowledge moves_reconcile moves_forget moves_discard)

lemma moves_attach_run: "moves q (attach_run es q)"
  unfolding attach_run_def by (rule moves_fold) (auto simp: moves_attach_step split: prod.split)

lemma attach_ok_empty: "attach_ok empty_queue"
  by (simp add: attach_ok_def empty_queue_def)

lemma attach_ok_run: "attach_ok (attach_run es empty_queue)"
  using moves_attach_run attach_ok_empty unfolding moves_def by blast


section \<open>No terminal is lost\<close>

definition holds :: "attach_queue \<Rightarrow> lifetime set" where
  "holds q = keys (aq_pending q) \<union> keys (aq_committed q)"

lemma holds_places: "k \<in> holds q \<longleftrightarrow> places_of q k \<noteq> None"
  by (auto simp: holds_def places_of_def keys_map_of split: option.split)

text \<open>\<^term>\<open>k\<close> is held, no other generation of its PTY is, and the tables are in order.\<close>

definition kept :: "lifetime \<Rightarrow> attach_queue \<Rightarrow> bool" where
  "kept k q \<longleftrightarrow> attach_ok q \<and> k \<in> holds q \<and> (\<forall>k' \<in> holds q. fst k' = fst k \<longrightarrow> k' = k)"

lemma kept_mono: "kept k q \<Longrightarrow> attach_ok q' \<Longrightarrow> k \<in> holds q' \<Longrightarrow> holds q' \<subseteq> insert k (holds q) \<Longrightarrow> kept k q'"
  by (auto simp: kept_def)

lemma movesD: "moves q q' \<Longrightarrow> attach_ok q \<Longrightarrow> attach_ok q'"
  by (simp add: moves_def)

lemma holds_acknowledge_one: "holds (acknowledge_one k q) \<subseteq> holds q" "k \<noteq> k' \<Longrightarrow> k' \<in> holds q \<Longrightarrow> k' \<in> holds (acknowledge_one k q)"
  by (auto simp: holds_def acknowledge_one_def keys_map_of map_of_alist_delete map_of_alist_update split: option.split)

definition unoffered :: "lifetime \<Rightarrow> attach_queue \<Rightarrow> bool" where
  "unoffered k q \<longleftrightarrow> map_of (aq_pending q) k \<noteq> None \<and> map_of (aq_offered q) k = None"

lemma acknowledge_one_offered:
  assumes "k' = k \<Longrightarrow> \<not> unoffered k q"
  shows "\<not> unoffered k q \<Longrightarrow> \<not> unoffered k (acknowledge_one k' q)" "k \<in> holds q \<Longrightarrow> k \<in> holds (acknowledge_one k' q)"
proof -
  show "\<not> unoffered k q \<Longrightarrow> \<not> unoffered k (acknowledge_one k' q)"
    by (cases "k' = k") (auto simp: unoffered_def acknowledge_one_def map_of_alist_delete split: option.split)
  show "k \<in> holds q \<Longrightarrow> k \<in> holds (acknowledge_one k' q)"
  proof (cases "k' = k")
    case True
    then show "k \<in> holds q \<Longrightarrow> k \<in> holds (acknowledge_one k' q)"
      using assms by (auto simp: unoffered_def acknowledge_one_def holds_def split: option.split)
  qed (simp add: holds_acknowledge_one(2))
qed

lemma kept_acknowledge_one: "kept k q \<Longrightarrow> (k' = k \<Longrightarrow> \<not> unoffered k q) \<Longrightarrow> kept k (acknowledge_one k' q)"
proof (rule kept_mono)
  show "holds (acknowledge_one k' q) \<subseteq> insert k (holds q)" by (rule subset_insertI2) (rule holds_acknowledge_one(1))
qed (simp_all add: acknowledge_one_offered(2) movesD [OF moves_acknowledge_one] kept_def)

lemma kept_acknowledge_ones: "kept k q \<Longrightarrow> (k \<in> set ks \<Longrightarrow> \<not> unoffered k q) \<Longrightarrow> kept k (fold acknowledge_one ks q)"
proof (induction ks arbitrary: q)
  case (Cons k' ks)
  have "kept k (acknowledge_one k' q)" using Cons.prems by (intro kept_acknowledge_one) auto
  moreover have "k \<in> set ks \<Longrightarrow> \<not> unoffered k (acknowledge_one k' q)"
    using Cons.prems(2) by (intro acknowledge_one_offered(1)) auto
  ultimately show ?case using Cons.IH by simp
qed simp

lemma kept_acknowledge:
  assumes "kept k q" "\<And>a. map_of (aq_pending q) k = Some a \<Longrightarrow> of_terminal p pty a \<Longrightarrow> map_of (aq_offered q) k \<noteq> None"
  shows "kept k (acknowledge p pty q)"
  unfolding acknowledge_def
proof (rule kept_acknowledge_ones [OF assms(1)])
  assume "k \<in> set (map fst (filter (\<lambda>(k, a). of_terminal p pty a) (aq_pending q)))"
  then obtain a where "(k, a) \<in> set (aq_pending q)" "of_terminal p pty a" by auto
  then show "\<not> unoffered k q" using assms by (simp add: unoffered_def kept_def attach_ok_def)
qed

lemma kept_holds_eq: "kept k q \<Longrightarrow> attach_ok q' \<Longrightarrow> holds q' = holds q \<Longrightarrow> kept k q'"
  by (simp add: kept_def)

lemma kept_requeue_one: "kept k q \<Longrightarrow> kept k (requeue_one k' q)"
proof (rule kept_holds_eq)
  show "holds (requeue_one k' q) = holds q" by (auto simp: holds_def requeue_one_def keys_map_of split: option.split)
qed (simp_all add: kept_def movesD [OF moves_requeue_one])

lemma kept_fold: "(\<And>x q. kept k q \<Longrightarrow> kept k (f x q)) \<Longrightarrow> kept k q \<Longrightarrow> kept k (fold f xs q)"
  by (induction xs arbitrary: q) auto

lemma kept_offer:
  assumes "kept k q"
  shows "kept k (offer react c p k' q)"
proof (cases "map_of (aq_pending q) k'")
  case None
  then show ?thesis using assms by (simp add: offer_def)
next
  case (Some a)
  define q1 where "q1 = q\<lparr>aq_offered := AList.update k' c (aq_offered q), aq_log := aq_log q @ [(c, k')]\<rparr>"
  define q2 where "q2 = q1\<lparr>aq_offered := AList.delete k' (aq_offered q1)\<rparr>"
  have ok: "attach_ok q" using assms by (simp add: kept_def)
  have "attach_ok q1" "attach_ok q2" using ok Some by (auto simp: attach_ok_def q1_def q2_def alist_ok keys_map_of)
  then have k: "kept k q1" "kept k q2" using kept_holds_eq [OF assms] by (simp_all add: holds_def q1_def q2_def)
  have "kept k (acknowledge (ta_projectId a) (ta_ptyId a) q1)"
  proof (rule kept_acknowledge [OF k(1)])
    fix b assume b: "map_of (aq_pending q1) k = Some b" "of_terminal (ta_projectId a) (ta_ptyId a) b"
    have "fst k = fst k'"
      using attach_okD(3) [OF \<open>attach_ok q1\<close> b(1)] attach_okD(3) [OF ok Some] b(2) by (auto simp: attach_key_def of_terminal_def)
    moreover have "k' \<in> holds q" using Some by (simp add: holds_def keys_map_of)
    ultimately have "k' = k" using assms by (simp add: kept_def)
    then show "map_of (aq_offered q1) k \<noteq> None" by (simp add: q1_def map_of_alist_update)
  qed
  then show ?thesis
    using k assms by (auto simp: offer_def Some q1_def [symmetric] q2_def [symmetric] Let_def split: reaction.split)
qed

lemma kept_flush: "kept k q \<Longrightarrow> kept k (flush react p q)"
  unfolding flush_def by (auto split: option.split intro: kept_fold kept_offer)

lemma kept_flush_requeues: "kept k q \<Longrightarrow> kept k (flush react p (fold requeue_one ks q))"
  by (rule kept_flush) (rule kept_fold [OF kept_requeue_one])

text \<open>The calls that may end \<^term>\<open>k\<close>, and the report of another generation of its PTY.\<close>

definition carrier :: "attach_queue \<Rightarrow> lifetime \<Rightarrow> terminal_attachment option" where
  "carrier q k = (case map_of (aq_pending q) k of Some a \<Rightarrow> Some a | None \<Rightarrow> map_option fst (map_of (aq_committed q) k))"

fun disturbs :: "lifetime \<Rightarrow> attach_event \<Rightarrow> attach_queue \<Rightarrow> bool" where
  "disturbs k (Enqueue a) q \<longleftrightarrow> ta_ptyId a = fst k \<and> attach_key a \<noteq> k"
| "disturbs k (Acknowledge p pty) q \<longleftrightarrow> unoffered k q \<and> (case carrier q k of Some a \<Rightarrow> of_terminal p pty a | None \<Rightarrow> False)"
| "disturbs k (Forget p pty) q \<longleftrightarrow> (case carrier q k of Some a \<Rightarrow> of_terminal p pty a | None \<Rightarrow> False)"
| "disturbs k (Discard pty gen) q \<longleftrightarrow> (pty, gen) = k"
| "disturbs k _ q \<longleftrightarrow> False"

fun undisturbed :: "lifetime \<Rightarrow> (reactions \<times> attach_event) list \<Rightarrow> attach_queue \<Rightarrow> bool" where
  "undisturbed k [] q \<longleftrightarrow> True"
| "undisturbed k ((react, e) # es) q \<longleftrightarrow> \<not> disturbs k e q \<and> undisturbed k es (attach_step react e q)"

lemma attach_key_fst [simp]: "fst (attach_key a) = ta_ptyId a"
  by (simp add: attach_key_def)

lemma kept_enqueue:
  assumes "kept k q" "ta_ptyId a = fst k \<Longrightarrow> attach_key a = k"
  shows "kept k (enqueue react a q)"
proof -
  let ?k = "attach_key a"
  define q1 where "q1 = q\<lparr>aq_metrics := (aq_metrics q)\<lparr>am_enqueued := Suc (am_enqueued (aq_metrics q))\<rparr>, aq_seen := see ?k (aq_seen q)\<rparr>"
  define q2 where "q2 = q1\<lparr>aq_pending := AList.update ?k a (aq_pending q1)\<rparr>"
  have ok: "attach_ok (enqueue react a q)" using assms(1) movesD [OF moves_enqueue] by (simp add: kept_def)
  show ?thesis
  proof (cases "map_of (aq_committed q1) ?k")
    case (Some v)
    obtain b c where v: "v = (b, c)" by (cases v)
    have e: "enqueue react a q = q1\<lparr>aq_committed := AList.update ?k (a, c) (aq_committed q1)\<rparr>"
      by (simp only: enqueue_def Let_def q1_def [symmetric] Some v option.case prod.case)
    have "?k \<in> keys (aq_committed q)" using Some by (simp add: q1_def keys_map_of)
    then have "holds (enqueue react a q) = holds q" by (simp add: e holds_def q1_def insert_absorb)
    then show ?thesis by (rule kept_holds_eq [OF assms(1) ok])
  next
    case None
    have o: "map_of (aq_pending q1) ?k = None \<Longrightarrow> map_of (aq_offered q1) ?k = None"
      using assms(1) attach_okD(2) by (simp add: kept_def q1_def)
    have "attach_ok q1" using assms(1) by (simp add: kept_def q1_def attach_ok_def see_ok)
    then have "attach_ok q2" using None by (auto simp: attach_ok_def q2_def alist_ok map_of_keys)
    moreover have "holds q2 = insert ?k (holds q)" by (auto simp: holds_def q2_def q1_def)
    ultimately have "kept k q2" using assms unfolding kept_def by (metis attach_key_fst insert_iff)
    moreover have "enqueue react a q = (if map_of (aq_pending q1) ?k \<noteq> None then q2 else flush react (ta_projectId a) q2)"
      by (simp only: enqueue_def Let_def q1_def [symmetric] q2_def [symmetric] None option.case)
    ultimately show ?thesis using kept_flush by simp
  qed
qed

lemma kept_subscribe: "kept k q \<Longrightarrow> kept k (snd (subscribe react p c q))"
  unfolding subscribe_def Let_def snd_conv by (rule kept_flush) (simp add: kept_def holds_def attach_ok_def)

lemma kept_unsubscribe:
  assumes "kept k q"
  shows "kept k (unsubscribe react p s c q)"
  unfolding unsubscribe_def Let_def
proof (rule kept_flush_requeues)
  let ?q = "q\<lparr>aq_sets := (aq_sets q)[s := removeAll c (aq_sets q ! s)],
    aq_consumers := (if removeAll c (aq_sets q ! s) = [] then AList.delete p (aq_consumers q) else aq_consumers q),
    aq_offered := filter (\<lambda>(k, c'). c' \<noteq> c) (aq_offered q)\<rparr>"
  have "attach_ok ?q" using assms keys_filter [of _ "aq_offered q"] by (auto simp: kept_def attach_ok_def alist_ok)
  then show "kept k ?q" using kept_holds_eq [OF assms] by (simp add: holds_def)
qed

lemma carrier_holds: "kept k q \<Longrightarrow> \<exists>a. carrier q k = Some a"
  by (auto simp: kept_def holds_def carrier_def keys_map_of split: option.split)

lemma kept_forget:
  assumes "kept k q" "\<not> disturbs k (Forget p pty) q"
  shows "kept k (forget p pty q)"
proof (rule kept_mono [OF assms(1)])
  have ok: "attach_ok q" using assms(1) by (simp add: kept_def)
  then have d: "distinct (map fst (aq_pending q))" "distinct (map fst (aq_committed q))" by (simp_all add: attach_ok_def)
  show "attach_ok (forget p pty q)" by (rule movesD [OF moves_forget ok])
  obtain a where a: "carrier q k = Some a" "\<not> of_terminal p pty a" using assms carrier_holds [OF assms(1)] by auto
  then show "k \<in> holds (forget p pty q)"
    by (auto simp: holds_def forget_def Let_def keys_map_of map_of_filter_distinct [OF d(1)] map_of_filter_distinct [OF d(2)] carrier_def split: option.splits)
  show "holds (forget p pty q) \<subseteq> insert k (holds q)"
    unfolding holds_def forget_def Let_def
    using keys_filter [of "\<lambda>(k, a). \<not> of_terminal p pty a" "aq_pending q"]
      keys_filter [of "\<lambda>(k, a, c). \<not> of_terminal p pty a" "aq_committed q"] by simp blast
qed

lemma kept_discard: "kept k q \<Longrightarrow> (pty, gen) \<noteq> k \<Longrightarrow> kept k (discard pty gen q)"
  by (rule kept_mono [OF _ movesD [OF moves_discard]]) (auto simp: kept_def holds_def discard_def Let_def)

lemma kept_step:
  assumes "kept k q" "\<not> disturbs k e q"
  shows "kept k (attach_step react e q)"
proof (cases e)
  case (Acknowledge p pty)
  have "map_of (aq_offered q) k \<noteq> None" if "map_of (aq_pending q) k = Some a" "of_terminal p pty a" for a
    using assms(2) that by (auto simp: Acknowledge unoffered_def carrier_def)
  then show ?thesis using kept_acknowledge [OF assms(1)] by (simp add: Acknowledge)
next
  case (Reconcile p ptys)
  then show ?thesis using kept_flush_requeues [OF assms(1)] by (simp add: reconcile_def)
qed (use assms in \<open>simp_all add: kept_enqueue kept_subscribe kept_unsubscribe kept_forget kept_discard del: disturbs.simps(3)\<close>, (simp_all add: kept_enqueue kept_discard)?)

lemma kept_run: "kept k q \<Longrightarrow> undisturbed k es q \<Longrightarrow> kept k (attach_run es q)"
proof (induction es arbitrary: q)
  case (Cons x es)
  obtain react e where x: "x = (react, e)" by (cases x)
  have "kept k (attach_step react e q)" using Cons.prems by (intro kept_step) (simp_all add: x)
  then show ?case using Cons.IH [of "attach_step react e q"] Cons.prems(2) by (simp add: attach_run_def x)
qed (simp add: attach_run_def)

text \<open>C28: A held terminal stays among the attachments, whatever views mount, unmount, throw, commit or reconcile, until its native
  exit, its deliberate close, or a commit of a terminal that no view was offered.\<close>

theorem no_terminal_is_lost:
  assumes "kept k q" "undisturbed k es q"
  shows "\<exists>p. \<exists>a \<in> set (attachments p (attach_run es q)). attach_key a = k"
proof -
  have k: "kept k (attach_run es q)" by (rule kept_run [OF assms])
  then have ok: "attach_ok (attach_run es q)" by (simp add: kept_def)
  obtain a where a: "carrier (attach_run es q) k = Some a" using carrier_holds [OF k] by blast
  then have "attach_key a = k"
    using attach_okD(3) [OF ok, of k] attach_okD(4) [OF ok, of k] by (cases k) (auto simp: carrier_def split: option.splits)
  moreover have "a \<in> set (attachments (ta_projectId a) (attach_run es q))"
    using a by (force simp: carrier_def attachments_def split: option.splits dest: map_of_SomeD)
  ultimately show ?thesis by blast
qed

definition some_terminal :: "string \<Rightarrow> nat \<Rightarrow> nat \<Rightarrow> terminal_attachment" where
  "some_terminal p pty gen = \<lparr>ta_projectId = p, ta_ptyId = pty, ta_sessionGeneration = gen, ta_cwd = ''/'', ta_name = None, ta_title = ''sh'',
     ta_run = False, ta_command = None, ta_componentId = None, ta_runCommandId = None, ta_activate = True, ta_recovered = False,
     ta_killOnClose = True, ta_resumedFrom = None\<rparr>"

lemmas attach_eval = attach_run_def empty_queue_def enqueue_def subscribe_def unsubscribe_def acknowledge_def acknowledge_one_def flush_def
  first_consumer_def offer_def set_for_def see_def Let_def attach_key_def some_terminal_def of_terminal_def requeue_one_def

text \<open>A view is mounted, a terminal arrives, the view commits it, unmounts before another one mounts.\<close>

definition remount :: "(reactions \<times> attach_event) list" where
  "remount = map (Pair (\<lambda>_ _. Requests))
     [Subscribe ''p'' 1, Acknowledge ''p'' 7, Unsubscribe ''p'' 0 1, Subscribe ''p'' 2]"

lemma no_terminal_is_lost_witness:
  "\<exists>p. \<exists>a \<in> set (attachments p (attach_run remount (enqueue (\<lambda>_ _. Requests) (some_terminal ''p'' 7 1) empty_queue))). attach_key a = (7, 1)"
  by (rule no_terminal_is_lost)
    (simp_all add: kept_def attach_ok_def holds_def keys_def attach_eval remount_def unoffered_def carrier_def)

section \<open>A consumer that has a terminal is not offered it again\<close>

definition holder :: "consumer \<Rightarrow> lifetime \<Rightarrow> attach_queue \<Rightarrow> bool" where
  "holder c k q \<longleftrightarrow> places_of q k = Some (Offered c) \<or> places_of q k = Some (Owned c)"

definition stays :: "consumer \<Rightarrow> lifetime \<Rightarrow> attach_queue \<Rightarrow> attach_queue \<Rightarrow> bool" where
  "stays c k q q' \<longleftrightarrow> (attach_ok q \<and> holder c k q \<longrightarrow> attach_ok q' \<and> holder c k q' \<and> (\<exists>l. aq_log q' = aq_log q @ l \<and> k \<notin> snd ` set l))"

lemma stays_refl [simp]: "stays c k q q"
  by (simp add: stays_def)

lemma stays_trans: "stays c k q q' \<Longrightarrow> stays c k q' q'' \<Longrightarrow> stays c k q q''"
  unfolding stays_def by (metis (no_types, lifting) Un_iff append_assoc image_Un set_append)

lemma stays_fold: "(\<And>x q. x \<in> set xs \<Longrightarrow> stays c k q (f x q)) \<Longrightarrow> stays c k q (fold f xs q)"
proof (induction xs arbitrary: q)
  case (Cons x xs)
  have "stays c k q (f x q)" "stays c k (f x q) (fold f xs (f x q))" using Cons by simp_all
  then show ?case by (simp add: stays_trans)
qed simp

lemma stays_same:
  assumes "moves q q'" "attach_ok q \<Longrightarrow> places_of q' k = places_of q k" "aq_log q' = aq_log q @ l" "k \<notin> snd ` set l"
  shows "stays c k q q'"
  using assms by (auto simp: stays_def holder_def moves_def)

lemma stays_acknowledge_one: "stays c k q (acknowledge_one k' q)"
proof (cases "k' = k")
  case False
  have "places_of (acknowledge_one k' q) k = places_of q k"
    using False by (auto simp: places_of_def acknowledge_one_def map_of_alist_delete map_of_alist_update split: option.split)
  moreover have "aq_log (acknowledge_one k' q) = aq_log q @ []" by (auto simp: acknowledge_one_def split: option.split)
  ultimately show ?thesis using stays_same [OF moves_acknowledge_one] by simp
next
  case True
  have "holder c k q \<Longrightarrow> holder c k (acknowledge_one k q)"
    by (auto simp: holder_def places_of_def acknowledge_one_def map_of_alist_delete map_of_alist_update split: option.splits)
  then show ?thesis using movesD [OF moves_acknowledge_one] by (auto simp: stays_def True acknowledge_one_def split: option.split)
qed

lemma stays_acknowledge: "stays c k q (acknowledge p pty q)"
  unfolding acknowledge_def by (rule stays_fold) (rule stays_acknowledge_one)

lemma stays_offer: "stays c k q (offer react c' p k' q)"
proof (cases "map_of (aq_pending q) k'")
  case None
  then show ?thesis by (simp add: offer_def)
next
  case (Some a)
  define q1 where "q1 = q\<lparr>aq_offered := AList.update k' c' (aq_offered q), aq_log := aq_log q @ [(c', k')]\<rparr>"
  define q2 where "q2 = q1\<lparr>aq_offered := AList.delete k' (aq_offered q1)\<rparr>"
  show ?thesis
  proof (cases "ta_projectId a \<noteq> p \<or> map_of (aq_offered q) k' \<noteq> None")
    case True
    then show ?thesis by (auto simp: offer_def Some)
  next
    case False
    show ?thesis
    proof (cases "k' = k")
      case True
      then have "\<not> holder c k q" using False Some by (simp add: holder_def places_of_def)
      then show ?thesis by (simp add: stays_def)
    next
      case k: False
      have ok: "attach_ok q \<Longrightarrow> attach_ok q1" "attach_ok q1 \<Longrightarrow> attach_ok q2"
        using Some by (auto simp: attach_ok_def q1_def q2_def alist_ok keys_map_of)
      have "holder c k q \<Longrightarrow> holder c k q1" "holder c k q1 \<Longrightarrow> holder c k q2"
        using k by (auto simp: holder_def places_of_def q1_def q2_def map_of_alist_delete map_of_alist_update)
      then have "stays c k q q1" "stays c k q1 q2" using ok k by (auto simp: stays_def q1_def q2_def)
      then show ?thesis
        using False stays_acknowledge [of c k q1]
        by (auto simp: offer_def Some q1_def [symmetric] q2_def [symmetric] Let_def split: reaction.split intro: stays_trans)
    qed
  qed
qed

lemma stays_flush: "stays c k q (flush react p q)"
  unfolding flush_def by (auto split: option.split intro: stays_fold stays_offer)

text \<open>The calls that take \<^term>\<open>k\<close> from the consumer that has it: its view unmounts, the view's tabs no longer contain it, the
  terminal is closed or exits.\<close>

fun takes_from :: "consumer \<Rightarrow> lifetime \<Rightarrow> attach_event \<Rightarrow> attach_queue \<Rightarrow> bool" where
  "takes_from c k (Unsubscribe p s c') q \<longleftrightarrow> c' = c"
| "takes_from c k (Reconcile p ptys) q \<longleftrightarrow>
     (case map_of (aq_committed q) k of Some (a, _) \<Rightarrow> ta_projectId a = p \<and> ta_ptyId a \<notin> set ptys | None \<Rightarrow> False)"
| "takes_from c k (Forget p pty) q \<longleftrightarrow> (case carrier q k of Some a \<Rightarrow> of_terminal p pty a | None \<Rightarrow> False)"
| "takes_from c k (Discard pty gen) q \<longleftrightarrow> (pty, gen) = k"
| "takes_from c k _ q \<longleftrightarrow> False"

lemma stays_requeues:
  assumes "k \<notin> set ks"
  shows "stays c k q (fold requeue_one ks q)"
proof (rule stays_fold)
  fix k' q assume "k' \<in> set ks"
  then have n: "k' \<noteq> k" using assms by auto
  have "places_of (requeue_one k' q) k = places_of q k" using n
    by (auto simp: places_of_def requeue_one_def map_of_alist_delete map_of_alist_update split: option.split)
  moreover have "aq_log (requeue_one k' q) = aq_log q @ []" by (auto simp: requeue_one_def split: option.split)
  ultimately show "stays c k q (requeue_one k' q)" using stays_same [OF moves_requeue_one] by simp
qed

lemma stays_enqueue: "stays c k q (enqueue react a q)"
proof -
  let ?k = "attach_key a"
  define q1 where "q1 = q\<lparr>aq_metrics := (aq_metrics q)\<lparr>am_enqueued := Suc (am_enqueued (aq_metrics q))\<rparr>, aq_seen := see ?k (aq_seen q)\<rparr>"
  define q2 where "q2 = q1\<lparr>aq_pending := AList.update ?k a (aq_pending q1)\<rparr>"
  have p1: "places_of q1 = places_of q" by (simp add: places_of_def q1_def fun_eq_iff)
  show ?thesis
  proof (cases "map_of (aq_committed q1) ?k")
    case (Some v)
    obtain b d where v: "v = (b, d)" by (cases v)
    have e: "enqueue react a q = q1\<lparr>aq_committed := AList.update ?k (a, d) (aq_committed q1)\<rparr>"
      by (simp only: enqueue_def Let_def q1_def [symmetric] Some v option.case prod.case)
    have "places_of (enqueue react a q) = places_of q1"
      unfolding e by (auto simp: places_of_def Some v map_of_alist_update fun_eq_iff)
    moreover have "aq_log (enqueue react a q) = aq_log q @ []" by (simp add: e q1_def)
    ultimately show ?thesis using stays_same [OF moves_enqueue] by (simp add: p1)
  next
    case None
    have "stays c k q q2"
    proof (cases "holder c k q")
      case True
      have h: "map_of (aq_pending q) ?k = None \<Longrightarrow> ?k \<noteq> k"
        using True None by (auto simp: holder_def places_of_def q1_def)
      have ok: "attach_ok q \<Longrightarrow> attach_ok q2"
        using None by (auto simp: attach_ok_def q2_def q1_def alist_ok see_ok map_of_keys)
      have "places_of q2 k = places_of q k"
        using h by (auto simp: places_of_def q2_def q1_def map_of_alist_update)
      then show ?thesis using True ok by (auto simp: stays_def holder_def q2_def q1_def)
    qed (simp add: stays_def)
    moreover have "enqueue react a q = (if map_of (aq_pending q1) ?k \<noteq> None then q2 else flush react (ta_projectId a) q2)"
      by (simp only: enqueue_def Let_def q1_def [symmetric] q2_def [symmetric] None option.case)
    ultimately show ?thesis using stays_trans [OF _ stays_flush] by simp
  qed
qed

lemma stays_tables:
  assumes "aq_pending q' = aq_pending q" "aq_committed q' = aq_committed q" "aq_log q' = aq_log q" "attach_ok q \<Longrightarrow> attach_ok q'"
    "attach_ok q \<Longrightarrow> map_of (aq_offered q) k = Some c \<Longrightarrow> map_of (aq_offered q') k = Some c"
  shows "stays c k q q'"
  using assms by (auto simp: stays_def holder_def places_of_def split: option.splits if_splits)

lemma stays_subscribe: "stays c k q (snd (subscribe react p c' q))"
  unfolding subscribe_def Let_def snd_conv
  by (rule stays_trans [OF stays_tables stays_flush]) (simp_all add: attach_ok_def)

lemma stays_unsubscribe:
  assumes "c' \<noteq> c"
  shows "stays c k q (unsubscribe react p s c' q)"
proof (cases "attach_ok q \<and> holder c k q")
  case True
  define q1 where "q1 = q\<lparr>aq_sets := (aq_sets q)[s := removeAll c' (aq_sets q ! s)],
    aq_consumers := (if removeAll c' (aq_sets q ! s) = [] then AList.delete p (aq_consumers q) else aq_consumers q),
    aq_offered := filter (\<lambda>(k, c''). c'' \<noteq> c') (aq_offered q)\<rparr>"
  have "stays c k q q1"
  proof (rule stays_tables)
    show "attach_ok q \<Longrightarrow> attach_ok q1" using keys_filter [of _ "aq_offered q"] by (auto simp: attach_ok_def q1_def alist_ok)
    show "attach_ok q \<Longrightarrow> map_of (aq_offered q) k = Some c \<Longrightarrow> map_of (aq_offered q1) k = Some c"
      using assms by (simp add: attach_ok_def q1_def map_of_filter_distinct)
  qed (simp_all add: q1_def)
  moreover have "k \<notin> set (map fst (filter (\<lambda>(k, a, c''). c'' = c') (aq_committed q1)))"
  proof
    assume "k \<in> set (map fst (filter (\<lambda>(k, a, c''). c'' = c') (aq_committed q1)))"
    then obtain a where "(k, a, c') \<in> set (aq_committed q)" by (auto simp: q1_def)
    then have m: "map_of (aq_committed q) k = Some (a, c')" using True by (simp add: attach_ok_def)
    then have "map_of (aq_pending q) k = None" using attach_okD(1) [of q k] True by (cases "map_of (aq_pending q) k") auto
    then show False using True m assms by (simp add: holder_def places_of_def)
  qed
  ultimately show ?thesis
    unfolding unsubscribe_def Let_def q1_def [symmetric] by (intro stays_trans [OF stays_trans [OF _ stays_requeues] stays_flush])
qed (auto simp: stays_def)

lemma stays_reconcile:
  assumes "\<not> takes_from c k (Reconcile p ptys) q"
  shows "stays c k q (reconcile react p ptys q)"
proof (cases "attach_ok q")
  case True
  have "k \<notin> set (map fst (filter (\<lambda>(k, a, c). ta_projectId a = p \<and> ta_ptyId a \<notin> set ptys) (aq_committed q)))"
    using assms True by (auto simp: attach_ok_def)
  then show ?thesis unfolding reconcile_def by (intro stays_trans [OF stays_requeues stays_flush])
qed (simp add: stays_def)

lemma stays_forget:
  assumes "\<not> takes_from c k (Forget p pty) q"
  shows "stays c k q (forget p pty q)"
proof (rule stays_same [OF moves_forget, where l = "[]"])
  assume ok: "attach_ok q"
  then have d: "distinct (map fst (aq_pending q))" "distinct (map fst (aq_committed q))" "distinct (map fst (aq_offered q))"
    by (simp_all add: attach_ok_def)
  define gone where "gone = map fst (filter (\<lambda>(k, a). of_terminal p pty a) (aq_pending q)) @ map fst (filter (\<lambda>(k, a, c). of_terminal p pty a) (aq_committed q))"
  have "k \<in> set gone \<longleftrightarrow> (\<exists>a. map_of (aq_pending q) k = Some a \<and> of_terminal p pty a)
      \<or> (\<exists>a c. map_of (aq_committed q) k = Some (a, c) \<and> of_terminal p pty a)"
    using d(1,2) by (force simp: gone_def)
  then have g: "k \<notin> set gone"
    using assms attach_okD(1) [OF ok, of k] by (cases "map_of (aq_pending q) k") (auto simp: carrier_def)
  have "map_of (aq_pending (forget p pty q)) k = map_of (aq_pending q) k"
    using assms by (auto simp: forget_def Let_def map_of_filter_distinct [OF d(1)] carrier_def split: option.splits)
  moreover have "map_of (aq_pending q) k = None \<Longrightarrow> map_of (aq_committed (forget p pty q)) k = map_of (aq_committed q) k"
    using assms by (auto simp: forget_def Let_def map_of_filter_distinct [OF d(2)] carrier_def split: option.splits)
  moreover have "map_of (aq_offered (forget p pty q)) k = map_of (aq_offered q) k"
    using g by (auto simp: forget_def Let_def gone_def [symmetric] map_of_filter_distinct [OF d(3)] split: option.splits)
  ultimately show "places_of (forget p pty q) k = places_of q k" by (simp add: places_of_def)
qed (simp_all add: forget_def Let_def)

lemma stays_discard: "(pty, gen) \<noteq> k \<Longrightarrow> stays c k q (discard pty gen q)"
  by (rule stays_same [OF moves_discard, where l = "[]"]) (auto simp: places_of_def discard_def Let_def map_of_alist_delete)

text \<open>A consumer that was offered a terminal or owns it keeps it and nobody is offered it, until one of those calls.\<close>

theorem owner_is_not_offered_again:
  assumes "attach_ok q" "holder c k q" "\<not> takes_from c k e q"
  shows "holder c k (attach_step react e q) \<and> (\<exists>l. aq_log (attach_step react e q) = aq_log q @ l \<and> k \<notin> snd ` set l)"
proof -
  have "stays c k q (attach_step react e q)"
    using assms(3) stays_reconcile stays_forget
    by (cases e) (auto simp: stays_enqueue stays_subscribe stays_unsubscribe stays_acknowledge stays_discard)
  then show ?thesis using assms(1,2) by (simp add: stays_def)
qed

lemma owner_is_not_offered_again_witness:
  "holder 1 (7, 1) (attach_step (\<lambda>_ _. Commits) (Enqueue (some_terminal ''p'' 7 1))
     (attach_run [(\<lambda>_ _. Commits, Subscribe ''p'' 1), (\<lambda>_ _. Commits, Enqueue (some_terminal ''p'' 7 1))] empty_queue))"
  by (rule owner_is_not_offered_again [THEN conjunct1, OF attach_ok_run]) (simp_all add: holder_def places_of_def attach_eval)

section \<open>A mounted view is offered everything that waits for it\<close>

definition settled :: "string \<Rightarrow> lifetime \<Rightarrow> attach_queue \<Rightarrow> bool" where
  "settled p k q \<longleftrightarrow> (case map_of (aq_pending q) k of Some a \<Rightarrow> ta_projectId a \<noteq> p \<or> map_of (aq_offered q) k \<noteq> None | None \<Rightarrow> True)"

lemma settled_acknowledge_one: "settled p k q \<Longrightarrow> settled p k (acknowledge_one k' q)"
  by (auto simp: settled_def acknowledge_one_def map_of_alist_delete split: option.splits)

lemma settled_acknowledge: "settled p k q \<Longrightarrow> settled p k (acknowledge p' pty q)"
proof -
  have "settled p k q \<Longrightarrow> settled p k (fold acknowledge_one ks q)" for ks
    by (induction ks arbitrary: q) (simp_all add: settled_acknowledge_one)
  then show "settled p k q \<Longrightarrow> settled p k (acknowledge p' pty q)" by (simp add: acknowledge_def)
qed

lemma settled_offer:
  assumes "\<And>a. react c a \<noteq> Throws" "k' = k \<or> settled p k q"
  shows "settled p k (offer react c p k' q)"
proof (cases "map_of (aq_pending q) k'")
  case None
  then show ?thesis using assms(2) by (auto simp: offer_def settled_def)
next
  case (Some a)
  define q1 where "q1 = q\<lparr>aq_offered := AList.update k' c (aq_offered q), aq_log := aq_log q @ [(c, k')]\<rparr>"
  show ?thesis
  proof (cases "ta_projectId a \<noteq> p \<or> map_of (aq_offered q) k' \<noteq> None")
    case True
    then have "settled p k' q" by (simp add: settled_def Some)
    then show ?thesis using assms(2) True by (auto simp: offer_def Some)
  next
    case False
    have "settled p k q1" using assms(2) by (auto simp: settled_def q1_def map_of_alist_update split: option.splits)
    then show ?thesis
      using False assms(1) [of a] settled_acknowledge
      by (auto simp: offer_def Some q1_def [symmetric] Let_def split: reaction.split)
  qed
qed

lemma settled_offers:
  assumes "\<And>a. react c a \<noteq> Throws" "k \<in> set ks \<or> settled p k q"
  shows "settled p k (fold (offer react c p) ks q)"
  using assms(2)
proof (induction ks arbitrary: q)
  case (Cons k' ks)
  have "k \<in> set ks \<or> settled p k (offer react c p k' q)"
    using Cons.prems settled_offer [of react c k' k p q] assms(1) by auto
  then show ?case using Cons.IH by simp
qed simp

lemma flush_settles:
  assumes "\<And>c a. react c a \<noteq> Throws" "first_consumer p q \<noteq> None"
  shows "settled p k (flush react p q)"
proof -
  obtain c where c: "first_consumer p q = Some c" using assms(2) by auto
  have "k \<in> set (map fst (aq_pending q)) \<or> settled p k q"
    by (auto simp: settled_def map_of_eq_None_iff split: option.split) (metis fst_conv image_eqI map_of_SomeD)
  then show ?thesis using settled_offers [of react c] assms(1) by (simp add: flush_def c)
qed

definition sets_ok :: "attach_queue \<Rightarrow> bool" where
  "sets_ok q \<longleftrightarrow> list_all (\<lambda>(p, s). s < length (aq_sets q)) (aq_consumers q)"

definition same_views :: "attach_queue \<Rightarrow> attach_queue \<Rightarrow> bool" where
  "same_views q q' \<longleftrightarrow> aq_sets q' = aq_sets q \<and> aq_consumers q' = aq_consumers q"

lemma same_views_fold: "(\<And>x q. same_views q (f x q)) \<Longrightarrow> same_views q (fold f xs q)"
  by (induction xs arbitrary: q) (simp_all add: same_views_def)

lemma same_views_acknowledge: "same_views q (acknowledge p pty q)"
  unfolding acknowledge_def by (rule same_views_fold) (simp add: same_views_def acknowledge_one_def split: option.split)

lemma same_views_flush: "same_views q (flush react p q)"
proof -
  have "same_views q (offer react c p k q)" for c k q
    using same_views_acknowledge [of "q\<lparr>aq_offered := AList.update k c (aq_offered q), aq_log := aq_log q @ [(c, k)]\<rparr>"]
    by (simp add: same_views_def offer_def Let_def split: option.split reaction.split)
  then have "same_views q (fold (offer react c p) ks q)" for c ks by (rule same_views_fold)
  then show ?thesis by (simp add: flush_def same_views_def split: option.split)
qed

lemma same_views_requeues: "same_views q (fold requeue_one ks q)"
  by (rule same_views_fold) (simp add: same_views_def requeue_one_def split: option.split)

lemma views_simps [simp]:
  "aq_sets (flush react p q) = aq_sets q" "aq_consumers (flush react p q) = aq_consumers q"
  "aq_sets (acknowledge p pty q) = aq_sets q" "aq_consumers (acknowledge p pty q) = aq_consumers q"
  "aq_sets (fold requeue_one ks q) = aq_sets q" "aq_consumers (fold requeue_one ks q) = aq_consumers q"
  using same_views_flush [of q react p] same_views_acknowledge [of q p pty] same_views_requeues [of q ks]
  by (simp_all add: same_views_def)

lemma sets_ok_subscribe:
  assumes "sets_ok q"
  shows "sets_ok (snd (subscribe react p c q))"
proof (cases "map_of (aq_consumers q) p")
  case None
  have "list_all (\<lambda>(p, s). s < Suc (length (aq_sets q))) (aq_consumers q)"
    using assms by (auto simp: sets_ok_def list_all_iff)
  then show ?thesis using None by (simp add: subscribe_def Let_def sets_ok_def set_for_def list_all_update)
next
  case (Some s)
  then have "s < length (aq_sets q)" using assms by (auto simp: sets_ok_def list_all_iff dest!: map_of_SomeD)
  then show ?thesis using Some assms by (simp add: subscribe_def Let_def sets_ok_def set_for_def list_all_update)
qed

lemma sets_ok_step: "sets_ok q \<Longrightarrow> sets_ok (attach_step react e q)"
proof (cases e)
  case (Enqueue a)
  assume ok: "sets_ok q"
  then show ?thesis unfolding Enqueue by (auto simp: enqueue_def Let_def sets_ok_def split: option.split)
qed (simp_all add: sets_ok_subscribe, simp_all add: unsubscribe_def reconcile_def forget_def discard_def Let_def sets_ok_def list_all_delete)

lemma sets_ok_run: "sets_ok q \<Longrightarrow> sets_ok (attach_run es q)"
proof -
  have "sets_ok q \<Longrightarrow> sets_ok (fold (\<lambda>(react, e). attach_step react e) es q)"
    by (induction es arbitrary: q) (auto simp: sets_ok_step split: prod.split)
  then show "sets_ok q \<Longrightarrow> sets_ok (attach_run es q)" by (simp add: attach_run_def)
qed

lemma subscribed_first:
  assumes "sets_ok q"
  shows "\<exists>q'. snd (subscribe react p c q) = flush react p q' \<and> first_consumer p q' \<noteq> None"
proof -
  define sets where "sets = (if map_of (aq_consumers q) p = None then aq_sets q @ [[]] else aq_sets q)"
  define s where "s = set_for p q"
  define l where "l = (if c \<in> set (sets ! s) then sets ! s else sets ! s @ [c])"
  define q' where "q' = q\<lparr>aq_sets := sets[s := l], aq_consumers := AList.update p s (aq_consumers q)\<rparr>"
  have "s < length sets"
    using assms by (auto simp: s_def sets_def set_for_def sets_ok_def list_all_iff split: option.split dest!: map_of_SomeD)
  moreover have "l \<noteq> []" by (auto simp: l_def)
  ultimately have "first_consumer p q' \<noteq> None"
    by (auto simp: first_consumer_def q'_def map_of_alist_update neq_Nil_conv split: list.split)
  moreover have "snd (subscribe react p c q) = flush react p q'"
    by (simp add: subscribe_def Let_def q'_def l_def s_def sets_def)
  ultimately show ?thesis by blast
qed

text \<open>After any history, a view that mounts leaves no terminal of its project waiting, if the consumers do not throw.\<close>

theorem mounted_view_is_offered_all:
  assumes "\<And>c a. react c a \<noteq> Throws"
  shows "settled p k (snd (subscribe react p c (attach_run es empty_queue)))"
proof -
  have "sets_ok (attach_run es empty_queue)" by (rule sets_ok_run) (simp add: sets_ok_def empty_queue_def)
  then obtain q' where q': "snd (subscribe react p c (attach_run es empty_queue)) = flush react p q'" "first_consumer p q' \<noteq> None"
    using subscribed_first [where react = react and p = p and c = c] by blast
  show ?thesis unfolding q'(1) by (rule flush_settles [OF assms q'(2)])
qed

lemma mounted_view_is_offered_all_witness:
  "settled ''p'' (7, 1) (snd (subscribe (\<lambda>_ _. Requests) ''p'' 1
     (attach_run [(\<lambda>_ _. Throws, Subscribe ''p'' 3), (\<lambda>_ _. Throws, Enqueue (some_terminal ''p'' 7 1))] empty_queue)))"
  by (rule mounted_view_is_offered_all) simp

section \<open>Which project a terminal belongs to\<close>

text \<open>\<^verbatim>\<open>normalize\<close>; \<^term>\<open>lower\<close> is \<^verbatim>\<open>toLocaleLowerCase\<close>, whose result depends on the locale of the host.\<close>

definition drive_path :: "string \<Rightarrow> bool" where
  "drive_path s \<longleftrightarrow> (case s of c # d # e # _ \<Rightarrow> (c \<in> set ''ABCDEFGHIJKLMNOPQRSTUVWXYZabcdefghijklmnopqrstuvwxyz'') \<and> d = CHR '':'' \<and> e = CHR ''/'' | _ \<Rightarrow> False)"

definition normalize_path :: "(string \<Rightarrow> string) \<Rightarrow> string \<Rightarrow> string" where
  "normalize_path lower path =
     (let s = rev (dropWhile (\<lambda>c. c = CHR ''/'') (rev (map (\<lambda>c. if c = CHR 0x5C then CHR ''/'' else c) path)))
      in if drive_path s then lower s else s)"

definition lies_in :: "string \<Rightarrow> string \<Rightarrow> bool" where
  "lies_in root cand \<longleftrightarrow> root \<noteq> [] \<and> (cand = root \<or> take (Suc (length root)) cand = root @ ''/'')"

text \<open>A project is its identity and the paths of its components.\<close>

definition match_component :: "(string \<Rightarrow> string) \<Rightarrow> string \<Rightarrow> string \<Rightarrow> string \<Rightarrow> string option \<times> int \<Rightarrow> string option \<times> int" where
  "match_component lower cand i path best =
     (let root = normalize_path lower path
      in if lies_in root cand \<and> int (length root) > snd best then (Some i, int (length root)) else best)"

definition match_project :: "(string \<Rightarrow> string) \<Rightarrow> (string \<times> string list) list \<Rightarrow> string \<Rightarrow> string option" where
  "match_project lower projects cand = fst (fold (\<lambda>(i, paths). fold (match_component lower cand i) paths) projects (None, - 1))"

fun fold_worktree :: "string \<Rightarrow> string" where
  "fold_worktree [] = []"
| "fold_worktree (c # s) = (if take 4 (c # s) = ''-wt-'' then dropWhile (\<lambda>x. x \<noteq> CHR ''/'') (drop 4 (c # s)) else c # fold_worktree s)"

definition projectForTerminalCwd :: "(string \<Rightarrow> string) \<Rightarrow> (string \<times> string list) list \<Rightarrow> string \<Rightarrow> string option" where
  "projectForTerminalCwd lower projects cwd =
     (let cand = normalize_path lower cwd
      in case match_project lower projects cand of
           Some i \<Rightarrow> if i \<noteq> [] then Some i
                    else if fold_worktree cand = cand then None else match_project lower projects (fold_worktree cand)
         | None \<Rightarrow> if fold_worktree cand = cand then None else match_project lower projects (fold_worktree cand))"

text \<open>The components of all projects, each with its normalized root.\<close>

definition roots :: "(string \<Rightarrow> string) \<Rightarrow> (string \<times> string list) list \<Rightarrow> (string \<times> string) list" where
  "roots lower projects = concat (map (\<lambda>(i, paths). map (\<lambda>path. (i, normalize_path lower path)) paths) projects)"

definition match_root :: "string \<Rightarrow> string \<times> string \<Rightarrow> string option \<times> int \<Rightarrow> string option \<times> int" where
  "match_root cand ir best = (if lies_in (snd ir) cand \<and> int (length (snd ir)) > snd best then (Some (fst ir), int (length (snd ir))) else best)"

lemma match_roots: "match_project lower projects cand = fst (fold (match_root cand) (roots lower projects) (None, - 1))"
proof -
  have "fold (match_component lower cand i) paths b = fold (match_root cand) (map (\<lambda>path. (i, normalize_path lower path)) paths) b" for i paths b
    by (induction paths arbitrary: b) (simp_all add: match_component_def match_root_def Let_def)
  then have "fold (\<lambda>(i, paths). fold (match_component lower cand i) paths) projects b = fold (match_root cand) (roots lower projects) b" for b
    by (induction projects arbitrary: b) (auto simp: roots_def)
  then show ?thesis by (simp add: match_project_def)
qed

text \<open>What is best among the roots seen so far.\<close>

definition best_of :: "string \<Rightarrow> (string \<times> string) list \<Rightarrow> string option \<times> int \<Rightarrow> bool" where
  "best_of cand rs best \<longleftrightarrow>
     (case best of
        (Some i, n) \<Rightarrow> (\<exists>r. (i, r) \<in> set rs \<and> lies_in r cand \<and> n = int (length r)) \<and> list_all (\<lambda>(j, r). lies_in r cand \<longrightarrow> int (length r) \<le> n) rs
      | (None, n) \<Rightarrow> n = - 1 \<and> list_all (\<lambda>(j, r). \<not> lies_in r cand) rs)"

lemma best_of_step: "best_of cand rs best \<Longrightarrow> best_of cand (rs @ [x]) (match_root cand x best)"
  by (cases x; cases best; cases "fst best") (auto simp: best_of_def match_root_def list_all_iff split: if_splits)

lemma best_of_fold: "best_of cand rs best \<Longrightarrow> best_of cand (rs @ xs) (fold (match_root cand) xs best)"
proof (induction xs arbitrary: rs best)
  case (Cons x xs)
  then show ?case using Cons.IH [OF best_of_step [OF Cons.prems, of x]] by simp
qed simp

text \<open>The project found has a component the directory lies in and no component of any project that holds it is deeper; none is
  found only if no component holds it.\<close>

theorem deepest_component_owns:
  "case match_project lower projects cand of
     Some i \<Rightarrow> \<exists>r. (i, r) \<in> set (roots lower projects) \<and> lies_in r cand
                  \<and> list_all (\<lambda>(j, r'). lies_in r' cand \<longrightarrow> length r' \<le> length r) (roots lower projects)
   | None \<Rightarrow> list_all (\<lambda>(j, r'). \<not> lies_in r' cand) (roots lower projects)"
proof -
  have "best_of cand [] (None, - 1)" by (simp add: best_of_def)
  from best_of_fold [OF this, of "roots lower projects"] show ?thesis
    unfolding match_roots by (cases "fold (match_root cand) (roots lower projects) (None, - 1)")
      (auto simp: best_of_def list_all_iff split: option.splits)
qed

lemma deepest_component_owns_witness:
  "case match_project (\<lambda>s. s) [(''a'', [''/x'']), (''b'', [''/x/y/'', ''/z''])] ''/x/y/z'' of
     Some i \<Rightarrow> i = ''b'' \<and> (\<exists>r. (i, r) \<in> set (roots (\<lambda>s. s) [(''a'', [''/x'']), (''b'', [''/x/y/'', ''/z''])]) \<and> lies_in r ''/x/y/z''
                  \<and> list_all (\<lambda>(j, r'). lies_in r' ''/x/y/z'' \<longrightarrow> length r' \<le> length r) (roots (\<lambda>s. s) [(''a'', [''/x'']), (''b'', [''/x/y/'', ''/z''])]))
   | None \<Rightarrow> False"
proof -
  have "match_project (\<lambda>s. s) [(''a'', [''/x'']), (''b'', [''/x/y/'', ''/z''])] ''/x/y/z'' = Some ''b''" by code_simp
  then show ?thesis
    using deepest_component_owns
      [where lower = "\<lambda>s. s" and projects = "[(''a'', [''/x'']), (''b'', [''/x/y/'', ''/z''])]" and cand = "''/x/y/z''"] by (simp only: option.case simp_thms)
qed

end
