(* ===== verification/ConcurrentOps.thy ===== *)
theory ConcurrentOps
  imports Prelude
begin

text \<open>
  The interface between the operational transform and the sessions that use it: documents,
  partial application of an operation, and a transform of two concurrent operations that
  closes the diamond (TP1). The clients' lemmas about folding one operation through a list
  of operations (the owner through its history, a guest through its unacknowledged edits)
  are proved here once, from the diamond law alone.
\<close>

section \<open>Folding one operation through a list\<close>

text \<open>
  \<open>xform_through xform ops x\<close> is the loop
  \<^verbatim>\<open>for (const h of ops) [h', x] = transform(h, x)\<close>: the list's operation is always the
  first argument. It returns the transformed list and the transformed operation.
\<close>

fun xform_through ::
    "('op \<Rightarrow> 'op \<Rightarrow> 'e + ('op \<times> 'op)) \<Rightarrow> 'op list \<Rightarrow> 'op \<Rightarrow> 'e + ('op list \<times> 'op)" where
  "xform_through xform [] x = Inr ([], x)"
| "xform_through xform (h # hs) x =
     rbind (xform h x) (\<lambda>(h', x').
       rbind (xform_through xform hs x') (\<lambda>(hs', x''). Inr (h' # hs', x'')))"

text \<open>The mirror loop: one operation first, the list's operations second.\<close>

fun xform_over ::
    "('op \<Rightarrow> 'op \<Rightarrow> 'e + ('op \<times> 'op)) \<Rightarrow> 'op \<Rightarrow> 'op list \<Rightarrow> 'e + ('op \<times> 'op list)" where
  "xform_over xform x [] = Inr (x, [])"
| "xform_over xform x (q # qs) =
     rbind (xform x q) (\<lambda>(x', q').
       rbind (xform_over xform x' qs) (\<lambda>(x'', qs'). Inr (x'', q' # qs')))"

text \<open>Applying a list of operations, first one first.\<close>

fun run_ops :: "('op \<Rightarrow> 'd \<Rightarrow> 'd option) \<Rightarrow> 'op list \<Rightarrow> 'd \<Rightarrow> 'd option" where
  "run_ops app [] d = Some d"
| "run_ops app (x # xs) d = Option.bind (app x d) (run_ops app xs)"

lemma run_ops_append: "run_ops app (xs @ ys) d = Option.bind (run_ops app xs d) (run_ops app ys)"
proof (induction xs arbitrary: d)
  case (Cons x xs)
  then show ?case by (cases "app x d") simp_all
qed simp

lemma xform_through_append:
  "xform_through xform hs x = Inr (hs', y) \<Longrightarrow>
   xform_through xform (hs @ ks) x = rbind (xform_through xform ks y) (\<lambda>(ks', z). Inr (hs' @ ks', z))"
proof (induction hs arbitrary: x hs')
  case Nil
  then show ?case by (cases "xform_through xform ks x") auto
next
  case (Cons h hs)
  from Cons.prems obtain h' x' hs'' where h: "xform h x = Inr (h', x')"
    and hs: "xform_through xform hs x' = Inr (hs'', y)" "hs' = h' # hs''" by auto
  show ?case
    using Cons.IH [OF hs(1)] h hs(2) by (cases "xform_through xform ks y") auto
qed

section \<open>The interface\<close>

locale concurrent_ops =
  fixes app :: "'op \<Rightarrow> 'd \<Rightarrow> 'd option"
    and xform :: "'op \<Rightarrow> 'op \<Rightarrow> 'e + ('op \<times> 'op)"
    and good :: "'op \<Rightarrow> bool"
  assumes diamond: "good a \<Longrightarrow> good b \<Longrightarrow> app a d = Some da \<Longrightarrow> app b d = Some db \<Longrightarrow>
    \<exists>a' b' e. xform a b = Inr (a', b') \<and> good a' \<and> good b' \<and> app b' da = Some e \<and> app a' db = Some e"
begin

lemma diamondE:
  assumes "good a" "good b" "app a d = Some da" "app b d = Some db"
  obtains a' b' e where "xform a b = Inr (a', b')" "good a'" "good b'" "app b' da = Some e" "app a' db = Some e"
  using diamond [OF assms] by blast

text \<open>An operation concurrent with a list that leads from \<open>d\<close> to \<open>d'\<close>: both ways meet.\<close>

lemma through:
  assumes "list_all good hs" "good x" "run_ops app hs d = Some d'" "app x d = Some dx"
  shows "\<exists>hs' x' e. xform_through xform hs x = Inr (hs', x') \<and> list_all good hs' \<and> good x'
           \<and> length hs' = length hs \<and> app x' d' = Some e \<and> run_ops app hs' dx = Some e"
  using assms
proof (induction hs arbitrary: d x dx)
  case (Cons h hs)
  from Cons.prems obtain dh where h: "app h d = Some dh" "run_ops app hs dh = Some d'" "good h" "list_all good hs"
    by (auto simp: bind_eq_Some_conv)
  obtain h' x' e where x: "xform h x = Inr (h', x')" "good h'" "good x'" "app x' dh = Some e" "app h' dx = Some e"
    using diamondE [OF h(3) Cons.prems(2) h(1) Cons.prems(4)] by blast
  from Cons.IH [OF h(4) x(3) h(2) x(4)] x show ?case by fastforce
qed auto

lemma over:
  assumes "list_all good qs" "good x" "run_ops app qs d = Some d'" "app x d = Some dx"
  shows "\<exists>x' qs' e. xform_over xform x qs = Inr (x', qs') \<and> list_all good qs' \<and> good x'
           \<and> length qs' = length qs \<and> app x' d' = Some e \<and> run_ops app qs' dx = Some e"
  using assms
proof (induction qs arbitrary: d x dx)
  case (Cons q qs)
  from Cons.prems obtain dq where q: "app q d = Some dq" "run_ops app qs dq = Some d'" "good q" "list_all good qs"
    by (auto simp: bind_eq_Some_conv)
  obtain x' q' e where x: "xform x q = Inr (x', q')" "good x'" "good q'" "app q' dx = Some e" "app x' dq = Some e"
    using diamondE [OF Cons.prems(2) q(3) Cons.prems(4) q(1)] by blast
  from Cons.IH [OF q(4) x(2) q(2) x(5)] x show ?case by fastforce
qed auto

end

end
