(* ===== verification/CollabOt.thy ===== *)
theory CollabOt
  imports ConcurrentOps
begin

text \<open>
  The operational-transformation core of collaborative editing, \<^verbatim>\<open>src/src/collab-ot.ts\<close>:
  the operation type, the builder that normalises operations, application to a document,
  the transform of two concurrent operations, the caret transform, the divergence hash,
  the construction of an operation from an editor's change batch, and the clean-up of a
  peer's document name. A document is a list of UTF-16 code units (any element type where
  the units are not inspected).
\<close>

section \<open>Operations and their compact encoding\<close>

datatype 'c op = Retain int | Insert "'c list" | Delete int

text \<open>The compact encoding: a positive number retains, a negative one deletes, a string inserts.\<close>

datatype 'c prim = Num int | Str "'c list"

datatype ot_error =
    LengthMismatch int int
  | DifferentDocuments
  | RanOffA
  | RanOffB
  | OverlappingChanges

fun to_prim :: "'c op \<Rightarrow> 'c prim" where
  "to_prim (Retain n) = Num n"
| "to_prim (Delete n) = Num (- n)"
| "to_prim (Insert s) = Str s"

definition toPrims :: "'c op list \<Rightarrow> 'c prim list" where
  "toPrims ops = map to_prim ops"

fun from_prim :: "'c prim \<Rightarrow> 'c op" where
  "from_prim (Str s) = Insert s"
| "from_prim (Num p) = (if p > 0 then Retain p else Delete (- p))"

definition fromPrims :: "'c prim list \<Rightarrow> 'c op list" where
  "fromPrims ps = map from_prim ps"

section \<open>The builder\<close>

record 'c builder =
  b_out :: "'c prim list"
  b_base :: int
  b_target :: int

definition new_builder :: "'c builder" where
  "new_builder = \<lparr>b_out = [], b_base = 0, b_target = 0\<rparr>"

definition push_retain :: "'c prim list \<Rightarrow> int \<Rightarrow> 'c prim list" where
  "push_retain out n =
     (case rev out of
        Num k # r \<Rightarrow> if k > 0 then rev (Num (k + n) # r) else out @ [Num n]
      | _ \<Rightarrow> out @ [Num n])"

definition b_retain :: "'c builder \<Rightarrow> int \<Rightarrow> 'c builder" where
  "b_retain b n =
     (if n \<le> 0 then b
      else b\<lparr>b_base := b_base b + n, b_target := b_target b + n, b_out := push_retain (b_out b) n\<rparr>)"

definition push_delete :: "'c prim list \<Rightarrow> int \<Rightarrow> 'c prim list" where
  "push_delete out n =
     (case rev out of
        Num k # r \<Rightarrow> if k < 0 then rev (Num (k - n) # r) else out @ [Num (- n)]
      | _ \<Rightarrow> out @ [Num (- n)])"

definition b_delete :: "'c builder \<Rightarrow> int \<Rightarrow> 'c builder" where
  "b_delete b n =
     (if n \<le> 0 then b
      else b\<lparr>b_base := b_base b + n, b_out := push_delete (b_out b) n\<rparr>)"

definition push_insert :: "'c prim list \<Rightarrow> 'c list \<Rightarrow> 'c prim list" where
  "push_insert out s =
     (case rev out of
        Str t # r \<Rightarrow> rev (Str (t @ s) # r)
      | Num k # r \<Rightarrow>
          if k < 0 then
            (case r of
               Str t # r' \<Rightarrow> rev (Num k # Str (t @ s) # r')
             | _ \<Rightarrow> rev (Num k # Str s # r))
          else out @ [Str s]
      | [] \<Rightarrow> out @ [Str s])"

definition b_insert :: "'c builder \<Rightarrow> 'c list \<Rightarrow> 'c builder" where
  "b_insert b s =
     (if s = [] then b
      else b\<lparr>b_target := b_target b + int (length s), b_out := push_insert (b_out b) s\<rparr>)"

definition b_ops :: "'c builder \<Rightarrow> 'c op list" where
  "b_ops b = fromPrims (b_out b)"

section \<open>Lengths and application\<close>

fun baseLength :: "'c op list \<Rightarrow> int" where
  "baseLength [] = 0"
| "baseLength (Retain n # ops) = n + baseLength ops"
| "baseLength (Delete n # ops) = n + baseLength ops"
| "baseLength (Insert s # ops) = baseLength ops"

fun targetLength :: "'c op list \<Rightarrow> int" where
  "targetLength [] = 0"
| "targetLength (Retain n # ops) = n + targetLength ops"
| "targetLength (Insert s # ops) = int (length s) + targetLength ops"
| "targetLength (Delete n # ops) = targetLength ops"

fun apply_loop :: "'c list \<Rightarrow> int \<Rightarrow> 'c list \<Rightarrow> 'c op list \<Rightarrow> 'c list" where
  "apply_loop doc i out [] = out"
| "apply_loop doc i out (Retain n # ops) = apply_loop doc (i + n) (out @ js_slice doc i (i + n)) ops"
| "apply_loop doc i out (Insert s # ops) = apply_loop doc i (out @ s) ops"
| "apply_loop doc i out (Delete n # ops) = apply_loop doc (i + n) out ops"

definition apply_ops :: "'c list \<Rightarrow> 'c op list \<Rightarrow> ot_error + 'c list" where
  "apply_ops doc ops =
     (if baseLength ops \<noteq> int (length doc)
      then Inl (LengthMismatch (baseLength ops) (int (length doc)))
      else Inr (apply_loop doc 0 [] ops))"

section \<open>The transform\<close>

text \<open>
  The loop's variables \<open>opA\<close> and \<open>opB\<close> are the heads of the two lists (the code's
  \<open>undefined\<close> is the empty list); a primitive that is only partly consumed is put back with
  what is left of it. Every branch drops a head, so the loop ends for every input.
\<close>

function (sequential) transform_loop ::
    "'c prim list \<Rightarrow> 'c prim list \<Rightarrow> 'c builder \<Rightarrow> 'c builder
     \<Rightarrow> ot_error + ('c builder \<times> 'c builder)" where
  "transform_loop [] [] outA outB = Inr (outA, outB)"
| "transform_loop (Str s # pa) pb outA outB =
     transform_loop pa pb (b_insert outA s) (b_retain outB (int (length s)))"
| "transform_loop pa (Str s # pb) outA outB =
     transform_loop pa pb (b_retain outA (int (length s))) (b_insert outB s)"
| "transform_loop [] (Num y # pb) outA outB = Inl RanOffA"
| "transform_loop (Num x # pa) [] outA outB = Inl RanOffB"
| "transform_loop (Num x # pa) (Num y # pb) outA outB =
     (if x > 0 \<and> y > 0 then
        (if x > y then transform_loop (Num (x - y) # pa) pb (b_retain outA y) (b_retain outB y)
         else if x < y then transform_loop pa (Num (y - x) # pb) (b_retain outA x) (b_retain outB x)
         else transform_loop pa pb (b_retain outA x) (b_retain outB x))
      else if x < 0 \<and> y < 0 then
        (if - x > - y then transform_loop (Num (x - y) # pa) pb outA outB
         else if - x < - y then transform_loop pa (Num (y - x) # pb) outA outB
         else transform_loop pa pb outA outB)
      else if x < 0 \<and> y > 0 then
        (if - x > y then transform_loop (Num (x + y) # pa) pb (b_delete outA y) outB
         else if - x < y then transform_loop pa (Num (y + x) # pb) (b_delete outA (- x)) outB
         else transform_loop pa pb (b_delete outA y) outB)
      else
        (if x > - y then transform_loop (Num (x + y) # pa) pb outA (b_delete outB (- y))
         else if x < - y then transform_loop pa (Num (y + x) # pb) outA (b_delete outB x)
         else transform_loop pa pb outA (b_delete outB x)))"
  by pat_completeness auto
termination
  by (relation "measure (\<lambda>(pa, pb, outA, outB). length pa + length pb)") auto

definition transform :: "'c op list \<Rightarrow> 'c op list \<Rightarrow> ot_error + ('c op list \<times> 'c op list)" where
  "transform a b =
     (if baseLength a \<noteq> baseLength b then Inl DifferentDocuments
      else rbind (transform_loop (toPrims a) (toPrims b) new_builder new_builder)
             (\<lambda>(outA, outB). Inr (b_ops outA, b_ops outB)))"

section \<open>Carets, the divergence hash, change batches, names and identifiers\<close>

fun offset_loop :: "int \<Rightarrow> int \<Rightarrow> 'c op list \<Rightarrow> int" where
  "offset_loop index moved [] = moved"
| "offset_loop index moved (Retain n # ops) =
     (if index - n < 0 then moved else offset_loop (index - n) moved ops)"
| "offset_loop index moved (Insert s # ops) =
     (if index < 0 then moved + int (length s)
      else offset_loop index (moved + int (length s)) ops)"
| "offset_loop index moved (Delete n # ops) =
     (if index - n < 0 then moved - min index n
      else offset_loop (index - n) (moved - min index n) ops)"

definition transformOffset :: "int \<Rightarrow> 'c op list \<Rightarrow> int" where
  "transformOffset offset ops = offset_loop offset offset ops"

text \<open>FNV-1a: the state is the 32-bit integer of the code's \<^verbatim>\<open>Math.imul\<close>, read unsigned at the end.\<close>

definition fnv_step :: "32 word \<Rightarrow> 16 word \<Rightarrow> 32 word" where
  "fnv_step h c = xor h (ucast c) * 0x01000193"

definition docHash :: "js_string \<Rightarrow> string" where
  "docHash doc = js_hex (unat (foldl fnv_step 0x811c9dc5 doc))"

record 'c change =
  rangeOffset :: int
  rangeLength :: int
  ch_text :: "'c list"

fun changes_loop :: "int \<Rightarrow> 'c builder \<Rightarrow> 'c change list \<Rightarrow> ot_error + (int \<times> 'c builder)" where
  "changes_loop at b [] = Inr (at, b)"
| "changes_loop at b (c # cs) =
     (if rangeOffset c < at then Inl OverlappingChanges
      else changes_loop (rangeOffset c + rangeLength c)
             (b_insert (b_delete (b_retain b (rangeOffset c - at)) (rangeLength c)) (ch_text c)) cs)"

definition opsFromChanges :: "int \<Rightarrow> 'c change list \<Rightarrow> ot_error + 'c op list" where
  "opsFromChanges docLength changes =
     rbind (changes_loop 0 new_builder (sort_key rangeOffset changes))
       (\<lambda>(at, b). Inr (b_ops (b_retain b (docLength - at))))"

definition safeName :: "js_string \<Rightarrow> js_string" where
  "safeName name =
     (let base = rev (takeWhile (\<lambda>c. c \<noteq> 0x2f \<and> c \<noteq> 0x5c) (rev name));
          cleaned = js_trim (filter (\<lambda>c. \<not> c \<le> 0x1f) base)
      in if cleaned \<noteq> [] \<and> cleaned \<noteq> js ''.'' \<and> cleaned \<noteq> js ''..''
         then js_slice cleaned 0 120 else js ''shared'')"

text \<open>The platform's random bytes are an argument (16 of them in the code).\<close>

definition newDocId :: "8 word list \<Rightarrow> string" where
  "newDocId b = concat (map (\<lambda>x. pad_start2 (js_hex (unat x))) b)"

section \<open>Reference semantics of an operation\<close>

text \<open>
  \<open>op_sem ops d\<close> reads an operation as a function on documents: \<open>None\<close> when the operation
  does not cover the document exactly. It consumes the document from the front, where the
  code keeps an index into it.
\<close>

fun op_sem :: "'c op list \<Rightarrow> 'c list \<Rightarrow> 'c list option" where
  "op_sem [] d = (if d = [] then Some [] else None)"
| "op_sem (Retain n # ops) d =
     (if 0 \<le> n \<and> nat n \<le> length d
      then map_option (append (take (nat n) d)) (op_sem ops (drop (nat n) d)) else None)"
| "op_sem (Insert s # ops) d = map_option (append s) (op_sem ops d)"
| "op_sem (Delete n # ops) d =
     (if 0 \<le> n \<and> nat n \<le> length d then op_sem ops (drop (nat n) d) else None)"

fun wf_op :: "'c op \<Rightarrow> bool" where
  "wf_op (Retain n) \<longleftrightarrow> n > 0"
| "wf_op (Delete n) \<longleftrightarrow> n > 0"
| "wf_op (Insert s) \<longleftrightarrow> True"

definition wf_ops :: "'c op list \<Rightarrow> bool" where
  "wf_ops ops \<longleftrightarrow> list_all wf_op ops"

lemma wf_ops_simps [simp]:
  "wf_ops []"
  "wf_ops (x # ops) \<longleftrightarrow> wf_op x \<and> wf_ops ops"
  "wf_ops (xs @ ys) \<longleftrightarrow> wf_ops xs \<and> wf_ops ys"
  by (simp_all add: wf_ops_def)

lemma baseLength_nonneg: "wf_ops ops \<Longrightarrow> 0 \<le> baseLength ops"
  by (induction ops rule: baseLength.induct) auto

lemma op_sem_defined:
  "wf_ops ops \<Longrightarrow> baseLength ops = int (length d) \<Longrightarrow> \<exists>r. op_sem ops d = Some r"
proof (induction ops d rule: op_sem.induct)
  case (2 n ops d)
  then show ?case using baseLength_nonneg [of ops] by auto
next
  case (4 n ops d)
  then show ?case using baseLength_nonneg [of ops] by auto
qed auto

lemma op_sem_base: "op_sem ops d = Some r \<Longrightarrow> baseLength ops = int (length d)"
  by (induction ops d arbitrary: r rule: op_sem.induct) (auto split: if_splits)

lemma op_sem_target: "op_sem ops d = Some r \<Longrightarrow> targetLength ops = int (length r)"
  by (induction ops d arbitrary: r rule: op_sem.induct) (auto split: if_splits)

lemma op_sem_append:
  "op_sem xs d1 = Some r1 \<Longrightarrow> op_sem ys d2 = Some r2 \<Longrightarrow> op_sem (xs @ ys) (d1 @ d2) = Some (r1 @ r2)"
proof (induction xs d1 arbitrary: r1 rule: op_sem.induct)
  case (1 d)
  then show ?case by (simp split: if_splits)
next
  case (2 n ops d)
  from "2.prems"(1) obtain r' where n: "0 \<le> n" "nat n \<le> length d" and r': "op_sem ops (drop (nat n) d) = Some r'"
    and r1: "r1 = take (nat n) d @ r'" by (auto split: if_splits)
  from "2.IH" [OF _ r' "2.prems"(2)] n have "op_sem (ops @ ys) (drop (nat n) d @ d2) = Some (r' @ r2)" by simp
  with n r1 show ?case by simp
next
  case (3 s ops d)
  then show ?case by auto
next
  case (4 n ops d)
  from "4.prems"(1) have n: "0 \<le> n" "nat n \<le> length d" and r1: "op_sem ops (drop (nat n) d) = Some r1"
    by (auto split: if_splits)
  from "4.IH" [OF _ r1 "4.prems"(2)] n have "op_sem (ops @ ys) (drop (nat n) d @ d2) = Some (r1 @ r2)" by simp
  with n show ?case by simp
qed

text \<open>The code's indexed loop computes the reference semantics.\<close>

lemma apply_loop_sem:
  "wf_ops ops \<Longrightarrow> 0 \<le> i \<Longrightarrow> op_sem ops (drop (nat i) d) = Some r \<Longrightarrow> i \<le> int (length d)
   \<Longrightarrow> apply_loop d i out ops = out @ r"
proof (induction d i out ops arbitrary: r rule: apply_loop.induct)
  case (2 d i out n ops)
  from "2.prems" obtain r' where r': "op_sem ops (drop (nat (i + n)) d) = Some r'"
    and r: "r = take (nat n) (drop (nat i) d) @ r'" and len: "i + n \<le> int (length d)" and n: "0 < n"
    by (auto simp: nat_add_distrib add.commute split: if_splits)
  from n len "2.prems" have "js_slice d i (i + n) = take (nat n) (drop (nat i) d)"
    by (intro js_slice_in_range) auto
  with "2.IH" [of r'] "2.prems" r r' len n show ?case by simp
next
  case (4 d i out n ops)
  then have n: "0 < n" and len: "i + n \<le> int (length d)" by (auto split: if_splits)
  from "4.prems" n have "op_sem ops (drop (nat (i + n)) d) = Some r"
    by (auto simp: nat_add_distrib add.commute split: if_splits)
  with "4.IH" [of r] "4.prems" len n show ?case by simp
qed (auto split: if_splits)

lemma apply_ops_sem: "wf_ops ops \<Longrightarrow> apply_ops d ops = Inr r \<longleftrightarrow> op_sem ops d = Some r"
proof
  assume wf: "wf_ops ops" and "apply_ops d ops = Inr r"
  then have b: "baseLength ops = int (length d)" and r: "apply_loop d 0 [] ops = r"
    by (auto simp: apply_ops_def split: if_splits)
  from op_sem_defined [OF wf b] obtain r' where "op_sem ops d = Some r'" ..
  with r apply_loop_sem [OF wf, of 0 d r' "[]"] show "op_sem ops d = Some r" by simp
next
  assume "wf_ops ops" and "op_sem ops d = Some r"
  then show "apply_ops d ops = Inr r"
    using apply_loop_sem [of ops 0 d r "[]"] op_sem_base [of ops d r]
    by (simp add: apply_ops_def)
qed

section \<open>The builder computes what it is told\<close>

text \<open>
  What a builder has so far, as a document transformer. Each builder call extends the
  consumed part of the document and the produced part at their ends.
\<close>

definition wf_prims :: "'c prim list \<Rightarrow> bool" where
  "wf_prims ps \<longleftrightarrow> Num 0 \<notin> set ps"

lemma wf_from_prim: "p \<noteq> Num 0 \<Longrightarrow> wf_op (from_prim p)"
  by (cases p) auto

lemma wf_fromPrims: "wf_prims ps \<Longrightarrow> wf_ops (fromPrims ps)"
  by (induction ps) (auto simp: wf_prims_def fromPrims_def wf_from_prim)

lemma wf_toPrims: "wf_ops ops \<Longrightarrow> wf_prims (toPrims ops)"
proof (induction ops)
  case (Cons x ops)
  then show ?case by (cases x) (auto simp: wf_prims_def toPrims_def)
qed (simp add: wf_prims_def toPrims_def)

lemma fromPrims_toPrims: "wf_ops ops \<Longrightarrow> fromPrims (toPrims ops) = ops"
proof (induction ops)
  case (Cons x ops)
  then show ?case by (cases x) (auto simp: fromPrims_def toPrims_def)
qed (simp add: fromPrims_def toPrims_def)

lemma fromPrims_append [simp]: "fromPrims (xs @ ys) = fromPrims xs @ fromPrims ys"
  by (simp add: fromPrims_def)

definition prim_sem :: "'c prim list \<Rightarrow> 'c list \<Rightarrow> 'c list option" where
  "prim_sem ps d = op_sem (fromPrims ps) d"

lemma prim_sem_simps [simp]:
  "prim_sem [] d = (if d = [] then Some [] else None)"
  "prim_sem (Str s # ps) d = map_option (append s) (prim_sem ps d)"
  "k > 0 \<Longrightarrow> prim_sem (Num k # ps) d =
     (if nat k \<le> length d
      then map_option (append (take (nat k) d)) (prim_sem ps (drop (nat k) d)) else None)"
  "k < 0 \<Longrightarrow> prim_sem (Num k # ps) d =
     (if nat (- k) \<le> length d then prim_sem ps (drop (nat (- k)) d) else None)"
  by (simp_all add: prim_sem_def fromPrims_def)

lemma prim_sem_append:
  "prim_sem xs d1 = Some r1 \<Longrightarrow> prim_sem ys d2 = Some r2 \<Longrightarrow> prim_sem (xs @ ys) (d1 @ d2) = Some (r1 @ r2)"
  by (simp add: prim_sem_def op_sem_append)

lemma op_sem_split:
  "op_sem (xs @ ys) d = Some r \<Longrightarrow>
     \<exists>d1 d2 r1 r2. d = d1 @ d2 \<and> r = r1 @ r2 \<and> op_sem xs d1 = Some r1 \<and> op_sem ys d2 = Some r2"
proof (induction xs arbitrary: d r)
  case Nil
  then show ?case by (intro exI [of _ "[]"] exI [of _ d] exI [of _ r]) simp
next
  case (Cons x xs)
  show ?case
  proof (cases x)
    case (Retain n)
    with Cons.prems obtain r' where n: "0 \<le> n" "nat n \<le> length d"
      and r: "r = take (nat n) d @ r'" and sem: "op_sem (xs @ ys) (drop (nat n) d) = Some r'"
      by (auto split: if_splits)
    from Cons.IH [OF sem] obtain d1 d2 r1 r2 where d: "drop (nat n) d = d1 @ d2" and r': "r' = r1 @ r2"
      and 1: "op_sem xs d1 = Some r1" and 2: "op_sem ys d2 = Some r2" by blast
    define u where "u = take (nat n) d"
    with n(2) d have u: "d = u @ d1 @ d2" "length u = nat n" "take (nat n) d = u"
      using append_take_drop_id [of "nat n" d] by simp_all
    have "op_sem (x # xs) (u @ d1) = Some (u @ r1)" using n(1) u(2) 1 Retain by simp
    with 2 r r' u show ?thesis
      by (intro exI [of _ "u @ d1"] exI [of _ d2] exI [of _ "u @ r1"] exI [of _ r2]) simp
  next
    case (Insert s)
    with Cons.prems obtain r' where r: "r = s @ r'" and sem: "op_sem (xs @ ys) d = Some r'" by auto
    from Cons.IH [OF sem] obtain d1 d2 r1 r2 where "d = d1 @ d2" "r' = r1 @ r2"
      "op_sem xs d1 = Some r1" "op_sem ys d2 = Some r2" by blast
    with r Insert show ?thesis
      by (intro exI [of _ d1] exI [of _ d2] exI [of _ "s @ r1"] exI [of _ r2]) simp
  next
    case (Delete n)
    with Cons.prems have n: "0 \<le> n" "nat n \<le> length d"
      and sem: "op_sem (xs @ ys) (drop (nat n) d) = Some r" by (auto split: if_splits)
    from Cons.IH [OF sem] obtain d1 d2 r1 r2 where d: "drop (nat n) d = d1 @ d2" and r: "r = r1 @ r2"
      and 1: "op_sem xs d1 = Some r1" and 2: "op_sem ys d2 = Some r2" by blast
    define u where "u = take (nat n) d"
    with n(2) d have u: "d = u @ d1 @ d2" "length u = nat n"
      using append_take_drop_id [of "nat n" d] by simp_all
    have "op_sem (x # xs) (u @ d1) = Some r1" using n(1) u(2) 1 Delete by simp
    with 2 r u show ?thesis
      by (intro exI [of _ "u @ d1"] exI [of _ d2] exI [of _ r1] exI [of _ r2]) simp
  qed
qed

lemma prim_sem_snocE:
  assumes "prim_sem (xs @ [p]) d = Some r"
  obtains d1 d2 r1 r2 where "d = d1 @ d2" "r = r1 @ r2" "prim_sem xs d1 = Some r1" "prim_sem [p] d2 = Some r2"
  using op_sem_split [of "fromPrims xs" "fromPrims [p]" d r] assms by (auto simp: prim_sem_def)

lemma prim_sem_one_retain: "k > 0 \<Longrightarrow> prim_sem [Num k] d = Some r \<longleftrightarrow> int (length d) = k \<and> r = d"
  by auto

lemma prim_sem_one_delete: "k < 0 \<Longrightarrow> prim_sem [Num k] d = Some r \<longleftrightarrow> int (length d) = - k \<and> r = []"
  by auto

lemma prim_sem_one_str: "prim_sem [Str s] d = Some r \<longleftrightarrow> d = [] \<and> r = s"
  by auto

lemmas prim_sem_one = prim_sem_one_retain prim_sem_one_delete prim_sem_one_str

lemma rev_eq_ConsD: "rev xs = y # ys \<Longrightarrow> xs = rev ys @ [y]"
  by (metis rev.simps(2) rev_rev_ident)

lemma push_retain_sem:
  assumes "n > 0" "prim_sem out d1 = Some r1" "int (length d2) = n"
  shows "prim_sem (push_retain out n) (d1 @ d2) = Some (r1 @ d2)"
proof -
  have one: "prim_sem [Num n] d2 = Some d2" using assms by (simp add: prim_sem_one)
  note app = prim_sem_append [OF assms(2) one]
  show ?thesis
  proof (cases "\<exists>k r. rev out = Num k # r \<and> k > 0")
    case True
    then obtain k r where rev: "rev out = Num k # r" and k: "k > 0" by blast
    from assms(2) obtain e1 e2 s1 s2 where "d1 = e1 @ e2" "r1 = s1 @ s2"
      and e: "prim_sem (rev r) e1 = Some s1" and "prim_sem [Num k] e2 = Some s2"
      unfolding rev_eq_ConsD [OF rev] by (rule prim_sem_snocE)
    moreover have "prim_sem [Num (k + n)] (e2 @ d2) = Some (s2 @ d2)"
      using calculation k assms by (simp only: prim_sem_one) (auto simp: prim_sem_one)
    ultimately show ?thesis
      using prim_sem_append [OF e] rev k by (simp add: push_retain_def)
  next
    case False
    then have "push_retain out n = out @ [Num n]"
      by (auto simp: push_retain_def split: list.splits prim.splits)
    with app show ?thesis by simp
  qed
qed

lemma push_delete_sem:
  assumes "n > 0" "prim_sem out d1 = Some r1" "int (length d2) = n"
  shows "prim_sem (push_delete out n) (d1 @ d2) = Some r1"
proof -
  have one: "prim_sem [Num (- n)] d2 = Some []" using assms by (simp add: prim_sem_one)
  note app = prim_sem_append [OF assms(2) one]
  show ?thesis
  proof (cases "\<exists>k r. rev out = Num k # r \<and> k < 0")
    case True
    then obtain k r where rev: "rev out = Num k # r" and k: "k < 0" by blast
    from assms(2) obtain e1 e2 s1 s2 where "d1 = e1 @ e2" "r1 = s1 @ s2"
      and e: "prim_sem (rev r) e1 = Some s1" and "prim_sem [Num k] e2 = Some s2"
      unfolding rev_eq_ConsD [OF rev] by (rule prim_sem_snocE)
    moreover have "prim_sem [Num (k - n)] (e2 @ d2) = Some s2"
      using calculation k assms by (simp only: prim_sem_one) (auto simp: prim_sem_one)
    ultimately show ?thesis
      using prim_sem_append [OF e] rev k by (simp add: push_delete_def)
  next
    case False
    then have "push_delete out n = out @ [Num (- n)]"
      by (auto simp: push_delete_def split: list.splits prim.splits)
    with app show ?thesis by simp
  qed
qed

lemma push_insert_sem:
  assumes "prim_sem out d = Some r1"
  shows "prim_sem (push_insert out s) d = Some (r1 @ s)"
proof -
  have app: "prim_sem (out @ [Str s]) d = Some (r1 @ s)"
    using prim_sem_append [OF assms, of "[Str s]" "[]" s] by simp
  consider (str) t r where "rev out = Str t # r"
    | (del_str) k t r where "rev out = Num k # Str t # r" "k < 0"
    | (del) k r where "rev out = Num k # r" "k < 0" "\<forall>t r'. r \<noteq> Str t # r'"
    | (other) "push_insert out s = out @ [Str s]"
  proof (cases "rev out")
    case Nil
    then show thesis by (intro that(4)) (simp add: push_insert_def)
  next
    case (Cons p r)
    show thesis
    proof (cases p)
      case (Str t)
      with Cons show thesis by (intro that(1)) simp
    next
      case (Num k)
      show thesis
      proof (cases "k < 0")
        case True
        with Cons Num that(2,3) show thesis by (cases "\<exists>t r'. r = Str t # r'") auto
      next
        case False
        with Cons Num show thesis by (intro that(4)) (simp add: push_insert_def)
      qed
    qed
  qed
  then show ?thesis
  proof cases
    case str
    from assms obtain e1 e2 s1 s2 where "d = e1 @ e2" "r1 = s1 @ s2"
      and e: "prim_sem (rev r) e1 = Some s1" and "prim_sem [Str t] e2 = Some s2"
      unfolding rev_eq_ConsD [OF str] by (rule prim_sem_snocE)
    then show ?thesis
      using prim_sem_append [OF e, of "[Str (t @ s)]" e2 "t @ s"] str
      by (auto simp: push_insert_def dest!: rev_eq_ConsD split: if_splits)
  next
    case del_str
    have out: "out = (rev r @ [Str t]) @ [Num k]"
      using arg_cong [OF del_str(1), of rev] by simp
    from assms obtain e1 e2 s1 s2 where e: "d = e1 @ e2" "r1 = s1 @ s2"
      "prim_sem (rev r @ [Str t]) e1 = Some s1" "prim_sem [Num k] e2 = Some s2"
      unfolding out by (rule prim_sem_snocE)
    from e(3) obtain f1 f2 t1 t2 where f: "e1 = f1 @ f2" "s1 = t1 @ t2"
      "prim_sem (rev r) f1 = Some t1" "prim_sem [Str t] f2 = Some t2"
      by (rule prim_sem_snocE)
    have "prim_sem [Str (t @ s), Num k] e2 = Some (t @ s)"
      using e(4) del_str(2) by (auto split: if_splits)
    moreover have "f2 = []" "t2 = t" "s2 = []"
      using f(4) e(4) del_str(2) by (simp_all only: prim_sem_one)
    moreover have "push_insert out s = rev r @ [Str (t @ s), Num k]"
      using del_str by (simp add: push_insert_def)
    ultimately show ?thesis
      using prim_sem_append [OF f(3)] e(1,2) f(1,2) by simp
  next
    case del
    from assms obtain e1 e2 s1 s2 where e: "d = e1 @ e2" "r1 = s1 @ s2"
      "prim_sem (rev r) e1 = Some s1" "prim_sem [Num k] e2 = Some s2"
      unfolding rev_eq_ConsD [OF del(1)] by (rule prim_sem_snocE)
    have "prim_sem [Str s, Num k] e2 = Some s"
      using e(4) del(2) by (auto split: if_splits)
    moreover have "push_insert out s = rev r @ [Str s, Num k]"
      using del by (auto simp: push_insert_def split: list.splits prim.splits)
    ultimately show ?thesis
      using prim_sem_append [OF e(3)] e(1,2,4) prim_sem_one_delete [OF del(2), of e2 s2] by simp
  next
    case other
    with app show ?thesis by simp
  qed
qed

text \<open>The three builder calls in one form, which the transform's proof uses.\<close>

lemma b_retain_sem:
  "prim_sem (b_out b) d1 = Some r1 \<Longrightarrow> int (length d2) = n \<Longrightarrow> prim_sem (b_out (b_retain b n)) (d1 @ d2) = Some (r1 @ d2)"
  by (cases "n > 0") (auto simp: b_retain_def push_retain_sem)

lemma b_delete_sem:
  "prim_sem (b_out b) d1 = Some r1 \<Longrightarrow> int (length d2) = n \<Longrightarrow> prim_sem (b_out (b_delete b n)) (d1 @ d2) = Some r1"
  by (cases "n > 0") (auto simp: b_delete_def push_delete_sem)

lemma b_insert_sem:
  "prim_sem (b_out b) d = Some r1 \<Longrightarrow> prim_sem (b_out (b_insert b s)) d = Some (r1 @ s)"
  by (simp add: b_insert_def push_insert_sem)

text \<open>Builders never hold a zero, whatever they are asked.\<close>

definition builder_ok :: "'c builder \<Rightarrow> bool" where
  "builder_ok b \<longleftrightarrow> wf_prims (b_out b)"

lemma wf_push:
  "wf_prims out \<Longrightarrow> n > 0 \<Longrightarrow> wf_prims (push_retain out n)"
  "wf_prims out \<Longrightarrow> n > 0 \<Longrightarrow> wf_prims (push_delete out n)"
  "wf_prims out \<Longrightarrow> wf_prims (push_insert out s)"
  by (cases "rev out"; auto simp: wf_prims_def push_retain_def push_delete_def push_insert_def
        dest!: rev_eq_ConsD split: prim.splits list.splits)+

lemma builder_ok_calls [simp, intro]:
  "builder_ok new_builder"
  "builder_ok b \<Longrightarrow> builder_ok (b_retain b n)"
  "builder_ok b \<Longrightarrow> builder_ok (b_delete b n)"
  "builder_ok b \<Longrightarrow> builder_ok (b_insert b s)"
  by (auto simp: builder_ok_def new_builder_def b_retain_def b_delete_def b_insert_def wf_push)
     (simp add: wf_prims_def)

lemma new_builder_sem: "prim_sem (b_out new_builder) [] = Some []"
  by (simp add: new_builder_def)

section \<open>The transform's loop invariant\<close>

text \<open>
  \<open>Da\<close> and \<open>Db\<close> are the documents the two operations produce. The invariant of the loop:
  the unread parts of both operations apply to the same rest \<open>d\<close> of the document, and the
  two builders so far take the produced parts of \<open>Db\<close> and of \<open>Da\<close> to the same text \<open>r\<close>.
\<close>

definition joined :: "'c prim list \<Rightarrow> 'c prim list \<Rightarrow> 'c builder \<Rightarrow> 'c builder \<Rightarrow> 'c list \<Rightarrow> 'c list \<Rightarrow> bool" where
  "joined pa pb A B Da Db \<longleftrightarrow>
     builder_ok A \<and> builder_ok B \<and>
     (\<exists>d da db ea eb r. wf_prims pa \<and> wf_prims pb \<and> prim_sem pa d = Some da \<and> prim_sem pb d = Some db
        \<and> prim_sem (b_out A) eb = Some r \<and> prim_sem (b_out B) ea = Some r \<and> Da = ea @ da \<and> Db = eb @ db)"

lemma joinedI:
  assumes "builder_ok A" "builder_ok B" "wf_prims pa" "wf_prims pb" "prim_sem pa d = Some da" "prim_sem pb d = Some db"
    "prim_sem (b_out A) eb = Some r" "prim_sem (b_out B) ea = Some r" "Da = ea @ da" "Db = eb @ db"
  shows "joined pa pb A B Da Db"
  unfolding joined_def using assms by blast

lemma joinedE:
  assumes "joined pa pb A B Da Db"
  obtains d da db ea eb r where "builder_ok A" "builder_ok B" "wf_prims pa" "wf_prims pb"
    "prim_sem pa d = Some da" "prim_sem pb d = Some db"
    "prim_sem (b_out A) eb = Some r" "prim_sem (b_out B) ea = Some r" "Da = ea @ da" "Db = eb @ db"
  using assms unfolding joined_def by blast

lemma wf_prims_Cons: "wf_prims (p # ps) \<longleftrightarrow> p \<noteq> Num 0 \<and> wf_prims ps"
  by (auto simp: wf_prims_def)

lemma prim_sem_retainE:
  assumes "prim_sem (Num k # ps) d = Some r" "k > 0"
  obtains u v r' where "d = u @ v" "int (length u) = k" "r = u @ r'" "prim_sem ps v = Some r'"
proof -
  from assms obtain r' where "nat k \<le> length d" "r = take (nat k) d @ r'" "prim_sem ps (drop (nat k) d) = Some r'"
    by (auto split: if_splits)
  with assms(2) that [of "take (nat k) d" "drop (nat k) d" r'] show thesis by simp
qed

lemma prim_sem_deleteE:
  assumes "prim_sem (Num k # ps) d = Some r" "k < 0"
  obtains u v where "d = u @ v" "int (length u) = - k" "prim_sem ps v = Some r"
proof -
  from assms have "nat (- k) \<le> length d" "prim_sem ps (drop (nat (- k)) d) = Some r"
    by (auto split: if_splits)
  with assms(2) that [of "take (nat (- k)) d" "drop (nat (- k)) d"] show thesis by simp
qed

lemma prim_sem_retain: "int (length u) = k \<Longrightarrow> k > 0 \<Longrightarrow> prim_sem ps v = Some r \<Longrightarrow> prim_sem (Num k # ps) (u @ v) = Some (u @ r)"
  by auto

lemma prim_sem_delete: "int (length u) = - k \<Longrightarrow> k < 0 \<Longrightarrow> prim_sem ps v = Some r \<Longrightarrow> prim_sem (Num k # ps) (u @ v) = Some r"
  by auto

lemma split_longer:
  assumes "u1 @ v1 = u2 @ v2" "length u2 \<le> length u1"
  obtains w where "u1 = u2 @ w" "v2 = w @ v1"
  using assms by (auto simp: append_eq_append_conv2)

lemma joined_insert_a:
  "joined (Str s # pa) pb A B Da Db \<Longrightarrow> joined pa pb (b_insert A s) (b_retain B (int (length s))) Da Db"
proof (elim joinedE)
  fix d da db ea eb r
  assume *: "builder_ok A" "builder_ok B" "wf_prims (Str s # pa)" "wf_prims pb" "prim_sem (Str s # pa) d = Some da" "prim_sem pb d = Some db"
    "prim_sem (b_out A) eb = Some r" "prim_sem (b_out B) ea = Some r" "Da = ea @ da" "Db = eb @ db"
  then obtain da' where "prim_sem pa d = Some da'" "da = s @ da'" by auto
  with * show "joined pa pb (b_insert A s) (b_retain B (int (length s))) Da Db"
    by (intro joinedI [where d = d and da = da' and db = db and eb = eb and r = "r @ s" and ea = "ea @ s"])
       (auto simp: wf_prims_Cons intro: b_insert_sem b_retain_sem)
qed

lemma joined_insert_b:
  "joined pa (Str s # pb) A B Da Db \<Longrightarrow> joined pa pb (b_retain A (int (length s))) (b_insert B s) Da Db"
proof (elim joinedE)
  fix d da db ea eb r
  assume *: "builder_ok A" "builder_ok B" "wf_prims pa" "wf_prims (Str s # pb)" "prim_sem pa d = Some da" "prim_sem (Str s # pb) d = Some db"
    "prim_sem (b_out A) eb = Some r" "prim_sem (b_out B) ea = Some r" "Da = ea @ da" "Db = eb @ db"
  then obtain db' where "prim_sem pb d = Some db'" "db = s @ db'" by auto
  with * show "joined pa pb (b_retain A (int (length s))) (b_insert B s) Da Db"
    by (intro joinedI [where d = d and da = da and db = db' and eb = "eb @ s" and r = "r @ s" and ea = ea])
       (auto simp: wf_prims_Cons intro: b_insert_sem b_retain_sem)
qed

lemma joined_exhausted:
  "joined [] (Num y # pb) A B Da Db \<Longrightarrow> False"
  "joined (Num x # pa) [] A B Da Db \<Longrightarrow> False"
  by (elim joinedE; cases "y > 0"; cases "y < 0"; force simp: wf_prims_Cons split: if_splits)
     (elim joinedE; cases "x > 0"; cases "x < 0"; force simp: wf_prims_Cons split: if_splits)

text \<open>
  A pair of retains or deletes: the shared prefix is consumed on both sides. \<open>both\<close> puts the
  two kinds in one form: what the primitive keeps of the prefix \<open>u\<close> it reads.
\<close>

definition prim_kept :: "int \<Rightarrow> 'c list \<Rightarrow> 'c list" where
  "prim_kept k u = (if k > 0 then u else [])"

lemma prim_sem_numE:
  assumes "prim_sem (Num k # ps) d = Some r" "k \<noteq> 0"
  obtains u v r' where "d = u @ v" "int (length u) = \<bar>k\<bar>" "r = prim_kept k u @ r'" "prim_sem ps v = Some r'"
proof (cases "k > 0")
  case True
  with assms(1) obtain u v r' where "d = u @ v" "int (length u) = k" "r = u @ r'" "prim_sem ps v = Some r'"
    by (rule prim_sem_retainE)
  with True that [of u v r'] show thesis by (simp add: prim_kept_def)
next
  case False
  with assms(2) have "k < 0" by simp
  with assms(1) obtain u v where "d = u @ v" "int (length u) = - k" "prim_sem ps v = Some r"
    by (rule prim_sem_deleteE)
  with False \<open>k < 0\<close> that [of u v r] show thesis by (simp add: prim_kept_def)
qed

lemma prim_sem_num:
  "int (length u) = \<bar>k\<bar> \<Longrightarrow> k \<noteq> 0 \<Longrightarrow> prim_sem ps v = Some r \<Longrightarrow> prim_sem (Num k # ps) (u @ v) = Some (prim_kept k u @ r)"
  by (cases "k > 0") (simp_all add: prim_kept_def)

text \<open>
  One iteration on two numbers: the shorter length \<open>n\<close> is consumed, \<open>prim_rest\<close> is what is put
  back, \<open>builder_emit\<close> what a builder is told.
\<close>

definition prim_rest :: "int \<Rightarrow> int \<Rightarrow> 'c prim list \<Rightarrow> 'c prim list" where
  "prim_rest k n ps = (if \<bar>k\<bar> > n then Num (k - sgn k * n) # ps else ps)"

definition builder_emit :: "int \<Rightarrow> int \<Rightarrow> int \<Rightarrow> 'c builder \<Rightarrow> 'c builder" where
  "builder_emit k other n b = (if other > 0 then (if k > 0 then b_retain b n else b_delete b n) else b)"

lemma transform_loop_numbers:
  assumes "x \<noteq> 0" "y \<noteq> 0"
  defines "n \<equiv> min \<bar>x\<bar> \<bar>y\<bar>"
  shows "transform_loop (Num x # pa) (Num y # pb) A B =
           transform_loop (prim_rest x n pa) (prim_rest y n pb) (builder_emit x y n A) (builder_emit y x n B)"
  using assms by (cases "x > 0"; cases "y > 0") (simp_all add: prim_rest_def builder_emit_def n_def)

lemma rest_sem:
  assumes "prim_sem (Num k # ps) (u @ v) = Some r" "k \<noteq> 0" "int (length u) = n" "n \<le> \<bar>k\<bar>"
  shows "\<exists>r'. r = prim_kept k u @ r' \<and> prim_sem (prim_rest k n ps) v = Some r'"
proof -
  from assms(1,2) obtain u' v' r' where d: "u @ v = u' @ v'" and l: "int (length u') = \<bar>k\<bar>"
    and r: "r = prim_kept k u' @ r'" and s: "prim_sem ps v' = Some r'"
    by (rule prim_sem_numE)
  obtain w where w: "u' = u @ w" "v = w @ v'"
    using split_longer [of u' v' u v] d l assms by auto
  show ?thesis
  proof (cases "\<bar>k\<bar> > n")
    case True
    have "prim_sem (Num (k - sgn k * n) # ps) (w @ v') = Some (prim_kept (k - sgn k * n) w @ r')"
      using True l w(1) assms s by (intro prim_sem_num) (auto simp: sgn_if)
    moreover have "prim_kept (k - sgn k * n) w = prim_kept k w"
      using True assms(2,3) by (auto simp: prim_kept_def sgn_if)
    ultimately show ?thesis
      using True r w by (simp add: prim_rest_def) (simp add: prim_kept_def)
  next
    case False
    then have "w = []" using l w(1) assms(3,4) by simp
    with False r s w show ?thesis by (simp add: prim_rest_def)
  qed
qed

lemma wf_rest: "wf_prims (Num k # ps) \<Longrightarrow> 0 \<le> n \<Longrightarrow> wf_prims (prim_rest k n ps)"
  by (auto simp: prim_rest_def wf_prims_Cons sgn_if)

lemma emit_sem:
  assumes "prim_sem (b_out b) e = Some r" "int (length u) = n"
  shows "prim_sem (b_out (builder_emit k other n b)) (e @ prim_kept other u) = Some (r @ prim_kept k (prim_kept other u))"
  using assms by (auto simp: builder_emit_def prim_kept_def intro: b_retain_sem b_delete_sem)

lemma builder_ok_emit: "builder_ok b \<Longrightarrow> builder_ok (builder_emit k other n b)"
  by (simp add: builder_emit_def)

lemma kept_commute: "prim_kept k (prim_kept l u) = prim_kept l (prim_kept k u)"
  by (simp add: prim_kept_def)

lemma joined_numbers:
  assumes "joined (Num x # pa) (Num y # pb) A B Da Db"
  defines "n \<equiv> min \<bar>x\<bar> \<bar>y\<bar>"
  shows "joined (prim_rest x n pa) (prim_rest y n pb) (builder_emit x y n A) (builder_emit y x n B) Da Db"
proof -
  from assms(1) obtain d da db ea eb r where ok: "builder_ok A" "builder_ok B"
    and wf: "wf_prims (Num x # pa)" "wf_prims (Num y # pb)"
    and sa: "prim_sem (Num x # pa) d = Some da" and sb: "prim_sem (Num y # pb) d = Some db"
    and sA: "prim_sem (b_out A) eb = Some r" and sB: "prim_sem (b_out B) ea = Some r"
    and D: "Da = ea @ da" "Db = eb @ db"
    by (rule joinedE)
  from wf have nz: "x \<noteq> 0" "y \<noteq> 0" by (auto simp: wf_prims_Cons)
  from sa nz(1) have lx: "\<bar>x\<bar> \<le> int (length d)" by (elim prim_sem_numE) auto
  define u v where "u = take (nat n) d" and "v = drop (nat n) d"
  have d: "d = u @ v" and u: "int (length u) = n" using lx by (auto simp: u_def v_def n_def)
  obtain da' where a: "da = prim_kept x u @ da'" "prim_sem (prim_rest x n pa) v = Some da'"
    using rest_sem [OF sa [unfolded d] nz(1) u] by (auto simp: n_def)
  obtain db' where b: "db = prim_kept y u @ db'" "prim_sem (prim_rest y n pb) v = Some db'"
    using rest_sem [OF sb [unfolded d] nz(2) u] by (auto simp: n_def)
  show ?thesis
  proof (rule joinedI [OF builder_ok_emit builder_ok_emit wf_rest wf_rest a(2) b(2)])
    show "prim_sem (b_out (builder_emit x y n A)) (eb @ prim_kept y u) = Some (r @ prim_kept x (prim_kept y u))"
      by (rule emit_sem [OF sA u])
    show "prim_sem (b_out (builder_emit y x n B)) (ea @ prim_kept x u) = Some (r @ prim_kept x (prim_kept y u))"
      using emit_sem [OF sB u, of y x] by (simp add: kept_commute)
  qed (use ok wf D a b in \<open>auto simp: n_def\<close>)
qed

lemma length_rest:
  "n = \<bar>x\<bar> \<or> n = \<bar>y\<bar> \<Longrightarrow>
   length (prim_rest x n pa) + length (prim_rest y n pb) < length (Num x # pa) + length (Num y # pb)"
  by (auto simp: prim_rest_def)

lemma transform_loop_str_b:
  assumes "\<forall>s pa'. pa \<noteq> Str s # pa'"
  shows "transform_loop pa (Str s # pb) A B = transform_loop pa pb (b_retain A (int (length s))) (b_insert B s)"
proof (cases pa)
  case (Cons p pa')
  with assms show ?thesis by (cases p) auto
qed simp

lemma transform_loop_joined:
  "joined pa pb A B Da Db \<Longrightarrow>
   \<exists>A' B' D. transform_loop pa pb A B = Inr (A', B') \<and> builder_ok A' \<and> builder_ok B'
     \<and> prim_sem (b_out A') Db = Some D \<and> prim_sem (b_out B') Da = Some D"
proof (induction "length pa + length pb" arbitrary: pa pb A B rule: less_induct)
  case less
  consider (str_a) s pa' where "pa = Str s # pa'"
    | (str_b) s pb' where "pb = Str s # pb'" "\<forall>s pa'. pa \<noteq> Str s # pa'"
    | (finished) "pa = []" "pb = []"
    | (num) x y pa' pb' where "pa = Num x # pa'" "pb = Num y # pb'"
    | (bad) x pa' y pb' where "pa = Num x # pa' \<and> pb = [] \<or> pa = [] \<and> pb = Num y # pb'"
    by (metis prim.exhaust neq_Nil_conv)
  then show ?case
  proof cases
    case str_a
    with less show ?thesis using joined_insert_a by fastforce
  next
    case str_b
    then have "transform_loop pa pb A B = transform_loop pa pb' (b_retain A (int (length s))) (b_insert B s)"
      using transform_loop_str_b by blast
    with str_b less show ?thesis using joined_insert_b by fastforce
  next
    case finished
    with less.prems show ?thesis by (elim joinedE) (auto split: if_splits)
  next
    case num
    define n where "n = min \<bar>x\<bar> \<bar>y\<bar>"
    from num less.prems have "x \<noteq> 0" "y \<noteq> 0" by (auto simp: wf_prims_Cons elim!: joinedE)
    then have "transform_loop pa pb A B =
        transform_loop (prim_rest x n pa') (prim_rest y n pb') (builder_emit x y n A) (builder_emit y x n B)"
      unfolding num n_def by (rule transform_loop_numbers)
    moreover have "joined (prim_rest x n pa') (prim_rest y n pb') (builder_emit x y n A) (builder_emit y x n B) Da Db"
      using less.prems unfolding num n_def by (rule joined_numbers)
    moreover have "length (prim_rest x n pa') + length (prim_rest y n pb') < length pa + length pb"
      unfolding num by (rule length_rest) (auto simp: n_def)
    ultimately show ?thesis using less.hyps by metis
  next
    case bad
    with less.prems joined_exhausted show ?thesis by blast
  qed
qed

lemma joined_start:
  assumes "wf_ops a" "wf_ops b" "op_sem a d = Some da" "op_sem b d = Some db"
  shows "joined (toPrims a) (toPrims b) new_builder new_builder da db"
  using assms
  by (intro joinedI [where d = d and da = da and db = db and eb = "[]" and r = "[]" and ea = "[]"])
     (simp_all add: wf_toPrims prim_sem_def fromPrims_toPrims new_builder_sem [unfolded prim_sem_def])

lemma transform_sem:
  assumes "wf_ops a" "wf_ops b" "op_sem a d = Some da" "op_sem b d = Some db"
  shows "\<exists>a' b' D. transform a b = Inr (a', b') \<and> wf_ops a' \<and> wf_ops b'
           \<and> op_sem b' da = Some D \<and> op_sem a' db = Some D"
proof -
  obtain A' B' D where l: "transform_loop (toPrims a) (toPrims b) new_builder new_builder = Inr (A', B')"
    and ok: "builder_ok A'" "builder_ok B'"
    and s: "prim_sem (b_out A') db = Some D" "prim_sem (b_out B') da = Some D"
    using transform_loop_joined [OF joined_start [OF assms]] by blast
  from ok have "wf_ops (b_ops A')" "wf_ops (b_ops B')"
    by (simp_all add: builder_ok_def b_ops_def wf_fromPrims)
  moreover have "transform a b = Inr (b_ops A', b_ops B')"
    using assms l op_sem_base [of a d da] op_sem_base [of b d db] by (simp add: transform_def)
  ultimately show ?thesis using s unfolding prim_sem_def b_ops_def by blast
qed

text \<open>The transform meets the interface the sessions are written against.\<close>

interpretation ot: concurrent_ops op_sem transform wf_ops
  by unfold_locales (rule transform_sem)

section \<open>The divergence hash and the caret\<close>

text \<open>One FNV step is injective in the state (the prime is odd) and in the code unit.\<close>

lemma fnv_prime_inverse: "(0x01000193 :: 32 word) * 0x359c449b = 1"
  by simp

lemma fnv_mult_inj: "(x :: 32 word) * 0x01000193 = y * 0x01000193 \<longleftrightarrow> x = y"
proof
  assume "x * 0x01000193 = y * 0x01000193"
  then have "x * (0x01000193 * 0x359c449b) = y * (0x01000193 * 0x359c449b)"
    by (simp only: mult.assoc [symmetric])
  then show "x = y" by (simp only: fnv_prime_inverse mult_1_right)
qed simp

lemma fnv_step_state_inj: "fnv_step h c = fnv_step h' c \<longleftrightarrow> h = h'"
  unfolding fnv_step_def fnv_mult_inj by (auto simp: bit_eq_iff bit_xor_iff)

lemma ucast_16_32_inj: "(ucast (c :: 16 word) :: 32 word) = ucast c' \<longleftrightarrow> c = c'"
proof -
  have "(ucast (ucast c :: 32 word) :: 16 word) = c" for c :: "16 word"
    by (rule ucast_up_ucast_id) (simp add: is_up)
  then show ?thesis by metis
qed

lemma fnv_step_unit_inj: "fnv_step h c = fnv_step h c' \<longleftrightarrow> c = c'"
  unfolding fnv_step_def fnv_mult_inj ucast_16_32_inj [symmetric]
  by (auto simp: bit_eq_iff bit_xor_iff)

lemma fnv_fold_inj: "foldl fnv_step h ys = foldl fnv_step h' ys \<longleftrightarrow> h = h'"
  by (induction ys arbitrary: h h') (simp_all add: fnv_step_state_inj)

text \<open>
  The caret: what the loop adds to the offset, its bounds, and that it follows a retained
  unit. \<open>retained_at i ops\<close> says the unit at index \<open>i\<close> survives the operation.
\<close>

fun retained_at :: "int \<Rightarrow> 'c op list \<Rightarrow> bool" where
  "retained_at i [] = False"
| "retained_at i (Retain n # ops) = (i < n \<or> retained_at (i - n) ops)"
| "retained_at i (Insert s # ops) = retained_at i ops"
| "retained_at i (Delete n # ops) = (i \<ge> n \<and> retained_at (i - n) ops)"

lemma offset_loop_add: "offset_loop i (m + k) ops = offset_loop i m ops + k"
  by (induction i m ops rule: offset_loop.induct) (simp_all add: algebra_simps)

definition caret_shift :: "int \<Rightarrow> 'c op list \<Rightarrow> int" where
  "caret_shift i ops = offset_loop i 0 ops"

lemma offset_loop_shift: "NO_MATCH 0 m \<Longrightarrow> offset_loop i m ops = m + caret_shift i ops"
  using offset_loop_add [of i 0 m ops] by (simp add: caret_shift_def)

lemma shift_simps [simp]:
  "caret_shift i [] = 0"
  "caret_shift i (Retain n # ops) = (if i < n then 0 else caret_shift (i - n) ops)"
  "i \<ge> 0 \<Longrightarrow> caret_shift i (Insert s # ops) = int (length s) + caret_shift i ops"
  "caret_shift i (Delete n # ops) = (if i < n then - i else caret_shift (i - n) ops - n)"
  using offset_loop_add [of i 0 "int (length s)" ops] offset_loop_add [of "i - n" 0 "- n" ops]
  by (auto simp: caret_shift_def)

lemma transformOffset_shift: "transformOffset i ops = i + caret_shift i ops"
  using offset_loop_add [of i 0 i ops] by (simp add: caret_shift_def transformOffset_def)

lemma shift_bounds:
  "op_sem ops d = Some r \<Longrightarrow> 0 \<le> i \<Longrightarrow> i \<le> int (length d) \<Longrightarrow>
   0 \<le> i + caret_shift i ops \<and> i + caret_shift i ops \<le> int (length r)"
proof (induction ops d arbitrary: i r rule: op_sem.induct)
  case (2 n ops d)
  from "2.prems"(1) obtain r' where n: "0 \<le> n" "nat n \<le> length d" and s: "op_sem ops (drop (nat n) d) = Some r'"
    and r: "r = take (nat n) d @ r'" by (auto split: if_splits)
  from "2.IH" [OF _ s, of "i - n"] "2.prems" n r show ?case by auto
next
  case (3 s ops d)
  from "3.prems"(1) obtain r' where s: "op_sem ops d = Some r'" and r: "r = s @ r'" by auto
  from "3.IH" [OF s, of i] "3.prems" r show ?case by auto
next
  case (4 n ops d)
  from "4.prems"(1) have n: "0 \<le> n" "nat n \<le> length d" and s: "op_sem ops (drop (nat n) d) = Some r"
    by (auto split: if_splits)
  from "4.IH" [OF _ s, of "i - n"] "4.prems" n show ?case by auto
qed (auto split: if_splits)

lemma shift_nonneg: "wf_ops ops \<Longrightarrow> 0 \<le> i \<Longrightarrow> 0 \<le> i + caret_shift i ops"
proof (induction ops arbitrary: i)
  case (Cons x ops)
  show ?case
  proof (cases x)
    case (Retain n)
    with Cons.IH [of "i - n"] Cons.prems show ?thesis by auto
  next
    case (Insert s)
    with Cons.IH [of i] Cons.prems show ?thesis by auto
  next
    case (Delete n)
    with Cons.IH [of "i - n"] Cons.prems show ?thesis by auto
  qed
qed simp

lemma shift_mono:
  "wf_ops ops \<Longrightarrow> 0 \<le> i \<Longrightarrow> i \<le> j \<Longrightarrow> i + caret_shift i ops \<le> j + caret_shift j ops"
proof (induction ops arbitrary: i j)
  case (Cons x ops)
  show ?case
  proof (cases x)
    case (Retain n)
    with Cons.IH [of "i - n" "j - n"] Cons.prems shift_nonneg [of ops "j - n"] show ?thesis by auto
  next
    case (Insert s)
    with Cons.IH [of i j] Cons.prems show ?thesis by auto
  next
    case (Delete n)
    with Cons.IH [of "i - n" "j - n"] Cons.prems shift_nonneg [of ops "j - n"] show ?thesis by auto
  qed
qed simp

lemma shift_unit:
  "op_sem ops d = Some r \<Longrightarrow> 0 \<le> i \<Longrightarrow> i < int (length d) \<Longrightarrow> retained_at i ops \<Longrightarrow>
   i + caret_shift i ops < int (length r) \<and> r ! nat (i + caret_shift i ops) = d ! nat i"
proof (induction ops d arbitrary: i r rule: op_sem.induct)
  case (2 n ops d)
  from "2.prems"(1) obtain r' where n: "0 \<le> n" "nat n \<le> length d" and s: "op_sem ops (drop (nat n) d) = Some r'"
    and r: "r = take (nat n) d @ r'" by (auto split: if_splits)
  show ?case
  proof (cases "i < n")
    case True
    with n r "2.prems" show ?thesis by (auto simp: nth_append)
  next
    case False
    with "2.IH" [OF _ s, of "i - n"] "2.prems" n
    have IH: "i - n + caret_shift (i - n) ops < int (length r') \<and>
      r' ! nat (i - n + caret_shift (i - n) ops) = drop (nat n) d ! nat (i - n)" by auto
    have nonneg: "0 \<le> i - n + caret_shift (i - n) ops"
      using shift_bounds [OF s, of "i - n"] "2.prems" n False by auto
    have "nat (i + caret_shift (i - n) ops) = nat n + nat (i - n + caret_shift (i - n) ops)"
      using nonneg n by simp
    moreover have "drop (nat n) d ! nat (i - n) = d ! nat i"
      using False n by (simp add: nat_diff_distrib)
    ultimately show ?thesis using IH False n r by (simp add: nth_append)
  qed
next
  case (3 s ops d)
  from "3.prems"(1) obtain r' where s: "op_sem ops d = Some r'" and r: "r = s @ r'" by auto
  from shift_bounds [OF s, of i] "3.prems" have "0 \<le> i + caret_shift i ops" by auto
  then have "nat (i + caret_shift i (Insert s # ops)) = length s + nat (i + caret_shift i ops)"
    using "3.prems" by simp
  with "3.IH" [OF s, of i] "3.prems" r show ?case by (simp add: nth_append)
next
  case (4 n ops d)
  from "4.prems"(1) have n: "0 \<le> n" "nat n \<le> length d" and s: "op_sem ops (drop (nat n) d) = Some r"
    by (auto split: if_splits)
  from "4.prems"(4) have i: "n \<le> i" "retained_at (i - n) ops" by auto
  from "4.IH" [OF _ s, of "i - n"] "4.prems" n i show ?case
    by (auto simp: nat_diff_distrib algebra_simps)
qed (auto split: if_splits)

section \<open>Change batches and the builder's normal form\<close>

text \<open>
  \<open>apply_change\<close> is one change of the editor's batch, in coordinates of the document before
  the batch; the editor reports the batch from the end backwards, so the reference result
  applies the last change first.
\<close>

definition apply_change :: "'c change \<Rightarrow> 'c list \<Rightarrow> 'c list" where
  "apply_change c d = take (nat (rangeOffset c)) d @ ch_text c @ drop (nat (rangeOffset c + rangeLength c)) d"

fun changes_fit :: "int \<Rightarrow> int \<Rightarrow> 'c change list \<Rightarrow> bool" where
  "changes_fit at len [] \<longleftrightarrow> at \<le> len"
| "changes_fit at len (c # cs) \<longleftrightarrow>
     at \<le> rangeOffset c \<and> 0 \<le> rangeLength c \<and> changes_fit (rangeOffset c + rangeLength c) len cs"

lemma changes_fit_le: "changes_fit at len cs \<Longrightarrow> at \<le> len"
  by (induction cs arbitrary: at) force+

text \<open>Edits that start at \<open>at\<close> or later leave the first \<open>at\<close> units alone.\<close>

lemma apply_change_prefix:
  "changes_fit at (int (length d)) cs \<Longrightarrow> 0 \<le> at \<Longrightarrow> take (nat at) (foldr apply_change cs d) = take (nat at) d"
proof (induction cs arbitrary: at)
  case (Cons c cs)
  define q where "q = rangeOffset c + rangeLength c"
  from Cons.prems have fit: "changes_fit q (int (length d)) cs" "at \<le> rangeOffset c" "0 \<le> rangeLength c"
    by (simp_all add: q_def)
  with Cons.IH [OF fit(1)] Cons.prems(2) have G: "take (nat q) (foldr apply_change cs d) = take (nat q) d"
    by (simp add: q_def)
  have "nat at \<le> nat q" using fit Cons.prems(2) by (simp add: q_def)
  then have "take (nat at) (foldr apply_change cs d) = take (nat at) d"
    using G by (metis min.absorb1 take_take)
  moreover have "nat at \<le> length (take (nat (rangeOffset c)) (foldr apply_change cs d))"
  proof -
    have "length (take (nat q) (foldr apply_change cs d)) = nat q"
      using G changes_fit_le [OF fit(1)] by simp
    then show ?thesis using fit Cons.prems(2) by (auto simp: q_def)
  qed
  ultimately have "take (nat at) (apply_change c F) = take (nat at) d" if "F = foldr apply_change cs d" for F
    using that by (simp add: apply_change_def)
  then show ?case by simp
qed simp

lemma changes_loop_sem:
  "changes_fit at (int (length d)) cs \<Longrightarrow> 0 \<le> at \<Longrightarrow> builder_ok b \<Longrightarrow>
   prim_sem (b_out b) (take (nat at) d) = Some r \<Longrightarrow>
   \<exists>at' b' r'. changes_loop at b cs = Inr (at', b') \<and> builder_ok b' \<and> 0 \<le> at' \<and> at' \<le> int (length d)
     \<and> prim_sem (b_out b') (take (nat at') d) = Some r'
     \<and> r' @ drop (nat at') d = r @ drop (nat at) (foldr apply_change cs d)"
proof (induction cs arbitrary: at b r)
  case Nil
  then show ?case by auto
next
  case (Cons c cs)
  define p q where "p = rangeOffset c" and "q = rangeOffset c + rangeLength c"
  from Cons.prems have fit: "changes_fit q (int (length d)) cs" "at \<le> p" "p \<le> q"
    by (simp_all add: p_def q_def)
  have q: "q \<le> int (length d)" by (rule changes_fit_le [OF fit(1)])
  define u v where "u = drop (nat at) (take (nat p) d)" and "v = drop (nat p) (take (nat q) d)"
  have tp: "take (nat at) d @ u = take (nat p) d"
    unfolding u_def using fit(2) by (metis append_take_drop_id min.absorb1 nat_mono take_take)
  have tq: "take (nat p) d @ v = take (nat q) d"
    unfolding v_def using fit(3) by (metis append_take_drop_id min.absorb1 nat_mono take_take)
  have len: "int (length u) = p - at" "int (length v) = q - p"
    using Cons.prems(2) fit q by (simp_all add: u_def v_def)
  define b1 where "b1 = b_insert (b_delete (b_retain b (p - at)) (q - p)) (ch_text c)"
  have "prim_sem (b_out (b_retain b (p - at))) (take (nat p) d) = Some (r @ u)"
    using b_retain_sem [OF Cons.prems(4) len(1)] by (simp add: tp)
  then have "prim_sem (b_out (b_delete (b_retain b (p - at)) (q - p))) (take (nat q) d) = Some (r @ u)"
    using b_delete_sem [OF _ len(2)] tq by metis
  then have "prim_sem (b_out b1) (take (nat q) d) = Some (r @ u @ ch_text c)"
    unfolding b1_def using b_insert_sem by fastforce
  moreover have "builder_ok b1" using Cons.prems(3) by (simp add: b1_def)
  ultimately obtain at' b' r' where IH: "changes_loop q b1 cs = Inr (at', b')" "builder_ok b'" "0 \<le> at'"
    "at' \<le> int (length d)" "prim_sem (b_out b') (take (nat at') d) = Some r'"
    "r' @ drop (nat at') d = (r @ u @ ch_text c) @ drop (nat q) (foldr apply_change cs d)"
    using Cons.IH [OF fit(1), of b1] fit(2,3) Cons.prems(2) by fastforce
  have "take (nat q) (foldr apply_change cs d) = take (nat q) d"
    using apply_change_prefix [OF fit(1)] fit Cons.prems(2) by simp
  then have "take (nat p) (foldr apply_change cs d) = take (nat p) d"
    using fit(3) by (metis min.absorb1 nat_mono take_take)
  then have "apply_change c F = take (nat p) d @ ch_text c @ drop (nat q) F" if "F = foldr apply_change cs d" for F
    using that by (simp add: apply_change_def p_def q_def)
  then have "drop (nat at) (foldr apply_change (c # cs) d) = u @ ch_text c @ drop (nat q) (foldr apply_change cs d)"
    using Cons.prems(2) fit q by (simp add: u_def)
  moreover have "changes_loop at b (c # cs) = changes_loop q b1 cs"
    using fit(2) by (simp add: b1_def p_def q_def)
  ultimately show ?case using IH by auto
qed

lemma opsFromChanges_sem:
  assumes "changes_fit 0 (int (length d)) (sort_key rangeOffset changes)"
  shows "\<exists>ops. opsFromChanges (int (length d)) changes = Inr ops \<and> wf_ops ops
           \<and> op_sem ops d = Some (foldr apply_change (sort_key rangeOffset changes) d)"
proof -
  let ?cs = "sort_key rangeOffset changes"
  have "prim_sem (b_out new_builder) (take (nat 0) d) = Some []" by (simp add: new_builder_sem)
  then obtain at' b' r' where l: "changes_loop 0 new_builder ?cs = Inr (at', b')" "builder_ok b'"
    and at': "0 \<le> at'" "at' \<le> int (length d)"
    and s: "prim_sem (b_out b') (take (nat at') d) = Some r'"
    and r': "r' @ drop (nat at') d = foldr apply_change ?cs d"
    using changes_loop_sem [OF assms, of new_builder "[]"] by auto
  define b2 where "b2 = b_retain b' (int (length d) - at')"
  have "prim_sem (b_out b2) (take (nat at') d @ drop (nat at') d) = Some (r' @ drop (nat at') d)"
    unfolding b2_def by (rule b_retain_sem [OF s]) (use at' in simp)
  moreover have "wf_ops (b_ops b2)"
    using l(2) builder_ok_calls(2) [of b'] by (simp add: b2_def b_ops_def builder_ok_def wf_fromPrims)
  ultimately show ?thesis
    using l(1) r' by (simp add: opsFromChanges_def b2_def b_ops_def prim_sem_def)
qed

lemma opsFromChanges_overlap:
  "\<not> successively (\<lambda>c c'. rangeOffset c + rangeLength c \<le> rangeOffset c') (sort_key rangeOffset changes)
   \<Longrightarrow> opsFromChanges n changes = Inl OverlappingChanges"
proof -
  have "\<not> successively (\<lambda>c c'. rangeOffset c + rangeLength c \<le> rangeOffset c') cs
    \<Longrightarrow> changes_loop at b cs = Inl OverlappingChanges" for at b and cs :: "'a change list"
  proof (induction cs arbitrary: at b)
    case (Cons c cs)
    show ?case
    proof (cases "successively (\<lambda>c c'. rangeOffset c + rangeLength c \<le> rangeOffset c') cs")
      case True
      with Cons.prems obtain c' cs' where "cs = c' # cs'" "rangeOffset c' < rangeOffset c + rangeLength c"
        by (auto simp: successively_Cons neq_Nil_conv)
      then show ?thesis by simp
    next
      case False
      then show ?thesis by (simp add: Cons.IH)
    qed
  qed simp
  then show "\<not> successively (\<lambda>c c'. rangeOffset c + rangeLength c \<le> rangeOffset c') (sort_key rangeOffset changes)
    \<Longrightarrow> opsFromChanges n changes = Inl OverlappingChanges"
    by (simp add: opsFromChanges_def)
qed

lemma push_insert_delete_commute:
  assumes "n > 0"
  shows "push_insert (push_delete out n) s = push_delete (push_insert out s) n"
  using assms by (cases "rev out") (auto simp: push_insert_def push_delete_def dest!: rev_eq_ConsD split: prim.splits list.splits)

lemma insert_delete_commute:
  "b_insert (b_delete b n) s = b_delete (b_insert b s) n"
  by (cases "n > 0"; cases "s = []") (simp_all add: b_insert_def b_delete_def push_insert_delete_commute)

section \<open>Names, identifiers, and two insertions at one offset\<close>

definition safe_label :: "js_string \<Rightarrow> bool" where
  "safe_label s \<longleftrightarrow> s \<noteq> [] \<and> length s \<le> 120 \<and> s \<noteq> js ''.'' \<and> s \<noteq> js ''..''
     \<and> (\<forall>c \<in> set s. c \<noteq> 0x2f \<and> c \<noteq> 0x5c \<and> \<not> c \<le> 0x1f)"

lemma safe_label_shared: "safe_label (js ''shared'')"
  by (simp add: safe_label_def js_def)

lemma safeName_safe: "safe_label (safeName name)"
proof -
  define base where "base = rev (takeWhile (\<lambda>c. c \<noteq> 0x2f \<and> c \<noteq> 0x5c) (rev name))"
  define cleaned where "cleaned = js_trim (filter (\<lambda>c. \<not> c \<le> 0x1f) base)"
  have "set cleaned \<subseteq> {c \<in> set base. \<not> c \<le> 0x1f}"
    unfolding cleaned_def using set_js_trim by fastforce
  moreover have "\<forall>c \<in> set base. c \<noteq> 0x2f \<and> c \<noteq> 0x5c"
    unfolding base_def by (auto dest: set_takeWhileD)
  ultimately have chars: "\<forall>c \<in> set cleaned. c \<noteq> 0x2f \<and> c \<noteq> 0x5c \<and> \<not> c \<le> 0x1f"
    by blast
  have sl: "js_slice cleaned 0 120 = take 120 cleaned" by (simp add: js_slice_prefix)
  have eq: "safeName name =
      (if cleaned \<noteq> [] \<and> cleaned \<noteq> js ''.'' \<and> cleaned \<noteq> js ''..'' then take 120 cleaned else js ''shared'')"
    unfolding safeName_def Let_def base_def [symmetric] cleaned_def [symmetric] sl ..
  show ?thesis
  proof (cases "cleaned \<noteq> [] \<and> cleaned \<noteq> js ''.'' \<and> cleaned \<noteq> js ''..''")
    case True
    have "take 120 cleaned \<noteq> js ''.'' \<and> take 120 cleaned \<noteq> js ''..''"
    proof (cases "length cleaned \<le> 120")
      case False
      then have "length (take 120 cleaned) \<noteq> length (js ''.'')" "length (take 120 cleaned) \<noteq> length (js ''..'')"
        by (simp_all add: js_def min_def)
      then show ?thesis by metis
    qed (use True in simp)
    with True chars show ?thesis unfolding eq by (auto simp: safe_label_def dest: in_set_takeD)
  next
    case False
    then show ?thesis unfolding eq using safe_label_shared by (simp only: if_not_P) simp
  qed
qed

lemma opsFromChanges_insertion:
  assumes "0 \<le> i" "i \<le> n" "s \<noteq> []"
  shows "opsFromChanges n [\<lparr>rangeOffset = i, rangeLength = 0, ch_text = s\<rparr>] =
    Inr ((if i > 0 then [Retain i] else []) @ [Insert s] @ (if n > i then [Retain (n - i)] else []))"
  using assms
  by (auto simp: opsFromChanges_def b_retain_def b_delete_def b_insert_def new_builder_def b_ops_def
      push_retain_def push_insert_def fromPrims_def)

lemma transform_same_offset:
  assumes "0 \<le> i" "i \<le> int (length d)" "s \<noteq> []" "t \<noteq> []"
  assumes "opsFromChanges (int (length d)) [\<lparr>rangeOffset = i, rangeLength = 0, ch_text = s\<rparr>] = Inr a"
  assumes "opsFromChanges (int (length d)) [\<lparr>rangeOffset = i, rangeLength = 0, ch_text = t\<rparr>] = Inr b"
  shows "\<exists>a' b'. transform a b = Inr (a', b') \<and> rbind (apply_ops d a) (\<lambda>da. apply_ops da b') =
           Inr (take (nat i) d @ s @ t @ drop (nat i) d)"
proof -
  let ?pre = "\<lambda>k. if k > 0 then [Retain k] else ([] :: 'a op list)"
  let ?n = "int (length d)"
  have a: "a = ?pre i @ [Insert s] @ ?pre (?n - i)" and b: "b = ?pre i @ [Insert t] @ ?pre (?n - i)"
    using assms by (simp_all add: opsFromChanges_insertion)
  let ?b' = "?pre i @ [Retain (int (length s))] @ [Insert t] @ ?pre (?n - i)"
  obtain a' b' where tr: "transform a b = Inr (a', b')"
    and b': "b' = (if i > 0 then [Retain (i + int (length s))] else [Retain (int (length s))]) @ [Insert t] @ ?pre (?n - i)"
    using assms(1-4) unfolding a b
    by (cases "i > 0"; cases "?n - i > 0")
       (simp_all add: transform_def toPrims_def b_retain_def b_insert_def new_builder_def b_ops_def
         push_retain_def push_insert_def fromPrims_def)
  have wf: "wf_ops a" "wf_ops b'" using assms(1-4) by (auto simp: a b')
  have "op_sem a d = Some (take (nat i) d @ s @ drop (nat i) d)"
    using assms(1,2) by (auto simp: a)
  moreover have "op_sem b' (take (nat i) d @ s @ drop (nat i) d) = Some (take (nat i) d @ s @ t @ drop (nat i) d)"
    using assms(1-4) by (auto simp: b' nat_add_distrib min_def)
  ultimately show ?thesis
    using tr wf by (auto simp: apply_ops_sem)
qed

lemma unat_byte: "unat (x :: 8 word) < 256"
  by (rule order.strict_trans2 [OF unsigned_less]) simp

lemma length_pad_start2_byte: "length (pad_start2 (js_hex (unat (x :: 8 word)))) = 2"
proof -
  have x: "unat x < 256" by (rule unat_byte)
  show ?thesis
    by (cases "unat x < 16") (use x in \<open>simp_all add: js_hex_small js_hex_big pad_start2_def\<close>)
qed

lemma pad_start2_byte_inj: "pad_start2 (js_hex (unat (x :: 8 word))) = pad_start2 (js_hex (unat y)) \<longleftrightarrow> x = y"
proof
  assume eq: "pad_start2 (js_hex (unat x)) = pad_start2 (js_hex (unat y))"
  have form: "pad_start2 (js_hex (unat z)) = [hex_digit (unat z div 16), hex_digit (unat z mod 16)]" for z :: "8 word"
  proof -
    have z: "unat z < 256" by (rule unat_byte)
    show ?thesis
      by (cases "unat z < 16") (use z in \<open>simp_all add: js_hex_small js_hex_big pad_start2_def hex_digit_def\<close>)
  qed
  have "unat x < 256" "unat y < 256" by (rule unat_byte)+
  then have "unat x div 16 = unat y div 16" "unat x mod 16 = unat y mod 16"
    using eq unfolding form by (simp_all add: hex_digit_inj)
  then have "unat x = unat y" by (metis div_mult_mod_eq)
  then show "x = y" by (simp add: word_unat_eq_iff)
qed simp

lemma newDocId_inj: "length b = length b' \<Longrightarrow> newDocId b = newDocId b' \<longleftrightarrow> b = b'"
  by (induction b b' rule: list_induct2)
     (auto simp: newDocId_def length_pad_start2_byte pad_start2_byte_inj append_eq_append_conv)

lemma length_newDocId: "length (newDocId b) = 2 * length b"
  by (induction b) (simp_all add: newDocId_def length_pad_start2_byte)

section \<open>Properties\<close>

text \<open>C3: two operations composed against the same document converge. The transform of
  any two well-formed operations that apply to \<open>d\<close> succeeds, its results are well-formed, and
  applying \<open>b'\<close> after \<open>a\<close> and \<open>a'\<close> after \<open>b\<close> both succeed with the same document (TP1).\<close>

theorem transform_tp1:
  assumes "wf_ops a" and "wf_ops b" and "apply_ops d a = Inr da" and "apply_ops d b = Inr db"
  shows "\<exists>a' b' e. transform a b = Inr (a', b') \<and> wf_ops a' \<and> wf_ops b'
           \<and> apply_ops da b' = Inr e \<and> apply_ops db a' = Inr e"
  using transform_sem [of a b d da db] assms by (fastforce simp: apply_ops_sem)

theorem transform_tp1_witness:
  "\<exists>a' b' e. transform [Retain 1, Insert [7, 8], Delete 2] [Delete 2, Insert [9], Retain 1] = Inr (a', b')
     \<and> wf_ops a' \<and> wf_ops b' \<and> apply_ops [1, 7, 8 :: nat] b' = Inr e \<and> apply_ops [9, 3] a' = Inr e"
  by (rule transform_tp1 [of _ _ "[1, 2, 3]"]) (simp_all add: apply_ops_def js_slice_def js_clamp_def)

text \<open>on concurrent insertions at the same offset the first argument wins the tie: its
  text comes first, in the document both sides reach.\<close>

theorem transform_tie_first_argument:
  assumes "0 \<le> i" and "i \<le> int (length d)" and "s \<noteq> []" and "t \<noteq> []"
    and "opsFromChanges (int (length d)) [\<lparr>rangeOffset = i, rangeLength = 0, ch_text = s\<rparr>] = Inr a"
    and "opsFromChanges (int (length d)) [\<lparr>rangeOffset = i, rangeLength = 0, ch_text = t\<rparr>] = Inr b"
  shows "\<exists>a' b'. transform a b = Inr (a', b') \<and> rbind (apply_ops d a) (\<lambda>da. apply_ops da b') =
           Inr (take (nat i) d @ s @ t @ drop (nat i) d)"
  using assms by (rule transform_same_offset)

theorem transform_tie_first_argument_witness:
  "\<exists>a' b'. transform [Retain 1, Insert [5], Retain 1] [Retain 1, Insert [6], Retain 1] = Inr (a', b')
     \<and> rbind (apply_ops [1, 2 :: nat] [Retain 1, Insert [5], Retain 1]) (\<lambda>da. apply_ops da b') =
         Inr (take (nat 1) [1, 2] @ [5] @ [6] @ drop (nat 1) [1, 2])"
  by (rule transform_tie_first_argument) (simp_all add: opsFromChanges_insertion)

text \<open>an editor's batch of non-overlapping changes becomes one operation whose
  application is the batch applied from the end of the document backwards.\<close>

theorem opsFromChanges_applies_batch:
  assumes "changes_fit 0 (int (length d)) (sort_key rangeOffset changes)"
  shows "\<exists>ops. opsFromChanges (int (length d)) changes = Inr ops \<and> wf_ops ops
           \<and> apply_ops d ops = Inr (foldr apply_change (sort_key rangeOffset changes) d)"
  using opsFromChanges_sem [OF assms] by (auto simp: apply_ops_sem)

theorem opsFromChanges_applies_batch_witness:
  "let d = [1, 2, 3 :: nat]; cs = [\<lparr>rangeOffset = 2, rangeLength = 1, ch_text = [9]\<rparr>,
         \<lparr>rangeOffset = 0, rangeLength = 1, ch_text = []\<rparr>]
   in \<exists>ops. opsFromChanges (int (length d)) cs = Inr ops \<and> wf_ops ops
        \<and> apply_ops d ops = Inr (foldr apply_change (sort_key rangeOffset cs) d)"
  unfolding Let_def by (rule opsFromChanges_applies_batch) simp

text \<open>a caret moved through an operation stays inside the new document, keeps its order
  with any other caret, and stays at the unit it was on when that unit is retained.\<close>

theorem transformOffset_follows_text:
  assumes "wf_ops ops" and "apply_ops d ops = Inr r" and "0 \<le> i" and "i \<le> j" and "j \<le> int (length d)"
  shows "0 \<le> transformOffset i ops \<and> transformOffset j ops \<le> int (length r)
           \<and> transformOffset i ops \<le> transformOffset j ops
           \<and> (i < int (length d) \<and> retained_at i ops \<longrightarrow> r ! nat (transformOffset i ops) = d ! nat i)"
proof -
  from assms have s: "op_sem ops d = Some r" by (simp add: apply_ops_sem)
  from assms have ij: "0 \<le> j" "i \<le> int (length d)" by auto
  show ?thesis
    using shift_bounds [OF s assms(3) ij(2)] shift_bounds [OF s ij(1) assms(5)]
      shift_mono [OF assms(1,3,4)] shift_unit [OF s assms(3)]
    by (simp add: transformOffset_shift)
qed

theorem transformOffset_follows_text_witness:
  "let ops = [Insert [8 :: nat], Retain 1, Delete 1, Retain 1]; d = [1, 2, 3 :: nat]; r = [8, 1, 3]
   in 0 \<le> transformOffset 2 ops \<and> transformOffset 3 ops \<le> int (length r)
        \<and> transformOffset 2 ops \<le> transformOffset 3 ops
        \<and> (2 < int (length d) \<and> retained_at 2 ops \<longrightarrow> r ! nat (transformOffset 2 ops) = d ! nat 2)"
  unfolding Let_def
  by (rule transformOffset_follows_text) (simp_all add: apply_ops_def js_slice_def js_clamp_def)

text \<open>the divergence hash tells apart any two documents that differ in exactly one
  code unit.\<close>

theorem docHash_detects_unit_change:
  "c \<noteq> c' \<Longrightarrow> docHash (xs @ c # ys) \<noteq> docHash (xs @ c' # ys)"
  by (simp add: docHash_def js_hex_inj fnv_fold_inj fnv_step_unit_inj word_unat_eq_iff [symmetric])


theorem docHash_detects_unit_change_witness:
  "docHash ([1, 2] @ 3 # [4]) \<noteq> docHash ([1, 2] @ 5 # [4])"
  by (rule docHash_detects_unit_change) simp

text \<open>a peer's document name, whatever it contains, becomes a non-empty label of at
  most 120 code units with no path separator and no control character, and never a dot
  directory.\<close>

theorem safeName_is_a_label: "safe_label (safeName name)"
  by (rule safeName_safe)

end
