(* ===== verification/CollabSession.thy ===== *)
theory CollabSession
  imports CollabOt "HOL-Library.Multiset"
begin

text \<open>
  The two ends of a shared document, \<^verbatim>\<open>Session\<close>, \<^verbatim>\<open>OwnerSession\<close> and \<^verbatim>\<open>GuestSession\<close> of
  \<^verbatim>\<open>src/src/collab.ts\<close>: their state as records, every handler that changes it, and the effects
  a handler has outside its object (frames sent, notices, callbacks) as a list in order.

  The editor's text buffer is third-party code. What a session keeps of it is its text; its
  \<^verbatim>\<open>applyEdits\<close> is the argument \<open>ed\<close> of the operations that edit it, and \<open>simultaneous_edits ed\<close>
  states its documented behaviour: the edits of one batch are all in the coordinates of the
  text before the batch. While a session applies a remote operation its \<^verbatim>\<open>applying\<close> flag makes the
  buffer's change callback return at once, so a handler runs to its end before the next event and
  the flag is always false between two events: it is not part of the state.
\<close>

section \<open>The editor's buffer\<close>

text \<open>An edit replaces the half-open range of its first two components by its text.\<close>

type_synonym edit = "int \<times> int \<times> js_string"

fun model_edits :: "int \<Rightarrow> 16 word op list \<Rightarrow> edit list" where
  "model_edits at [] = []"
| "model_edits at (Retain n # ops) = model_edits (at + n) ops"
| "model_edits at (Insert s # ops) = (at, at, s) # model_edits at ops"
| "model_edits at (Delete n # ops) = (at, at + n, []) # model_edits (at + n) ops"

type_synonym editor = "js_string \<Rightarrow> edit list \<Rightarrow> js_string"

definition applyToModel :: "editor \<Rightarrow> js_string \<Rightarrow> 16 word op list \<Rightarrow> js_string" where
  "applyToModel ed text ops = ed text (sort_key (\<lambda>(s, e, t). - s) (model_edits 0 ops))"

text \<open>
  The documented result: walk the edits in ascending order, copy the text between them.
  \<open>edits_fit\<close>: ascending, inside the text, no two overlapping.
\<close>

fun replace_all :: "int \<Rightarrow> js_string \<Rightarrow> edit list \<Rightarrow> js_string" where
  "replace_all at d [] = drop (nat at) d"
| "replace_all at d ((s, e, t) # es) = take (nat (s - at)) (drop (nat at) d) @ t @ replace_all e d es"

fun edits_fit :: "int \<Rightarrow> int \<Rightarrow> edit list \<Rightarrow> bool" where
  "edits_fit at len [] \<longleftrightarrow> at \<le> len"
| "edits_fit at len ((s, e, t) # es) \<longleftrightarrow> at \<le> s \<and> s \<le> e \<and> edits_fit e len es"

definition simultaneous_edits :: "editor \<Rightarrow> bool" where
  "simultaneous_edits ed \<longleftrightarrow>
     (\<forall>d es. edits_fit 0 (int (length d)) es \<longrightarrow> ed d (sort_key (\<lambda>(s, e, t). - s) es) = replace_all 0 d es)"

text \<open>An editor with that behaviour: put the batch in ascending order and replace.\<close>

definition reference_editor :: editor where
  "reference_editor d es = replace_all 0 d (sort_key fst es)"

section \<open>Frames and effects\<close>

datatype resync_reason = Gap int int | Thrown ot_error | HashDisagreed

datatype body =
    BOffer js_string "string option"
  | BOpen
  | BSnapshot int js_string
  | BOps int "16 word op list" string "string option"
  | BResync resync_reason
  | BClose string
  | BCursor int int int
  | BProjectOffer js_string
  | BProjectTree "string list"
  | BProjectOpen string

record CollabMsg =
  m_from :: string
  m_from_name :: string
  m_to :: "string option"
  m_doc :: string
  m_body :: body

datatype notice = Desynchronised ot_error | DroppedEdit string

datatype effect =
    Send "string option" string body
  | Notice notice
  | OnCursors
  | OnEdited
  | OnOrphaned

section \<open>What the two ends share\<close>

record RemoteCursor =
  cur_name :: string
  cur_colour :: "32 word"
  cur_anchor :: int
  cur_head :: int

text \<open>The hue's seed: \<^verbatim>\<open>h = (h * 31 + code) >>> 0\<close> (the CSS string made of it is presentation).\<close>

definition peer_hue_seed :: "string \<Rightarrow> 32 word" where
  "peer_hue_seed pid = foldl (\<lambda>h c. h * 31 + ucast c) 0 (js pid)"

record session =
  s_doc :: string
  s_self :: string
  s_text :: js_string
  s_cursors :: "(string \<times> RemoteCursor) list"

definition applyRemote :: "editor \<Rightarrow> 16 word op list \<Rightarrow> 'a session_scheme \<Rightarrow> 'a session_scheme" where
  "applyRemote ed ops s =
     s\<lparr>s_text := applyToModel ed (s_text s) ops,
       s_cursors := map (\<lambda>(p, c). (p, c\<lparr>cur_anchor := transformOffset (cur_anchor c) ops,
                                         cur_head := transformOffset (cur_head c) ops\<rparr>)) (s_cursors s)\<rparr>"

definition noteCursor :: "string \<Rightarrow> string \<Rightarrow> int \<Rightarrow> int \<Rightarrow> 'a session_scheme \<Rightarrow> 'a session_scheme \<times> effect list" where
  "noteCursor from name anchor head s =
     (s\<lparr>s_cursors := AList.update from
          \<lparr>cur_name = name, cur_colour = peer_hue_seed from, cur_anchor = anchor, cur_head = head\<rparr> (s_cursors s)\<rparr>,
      [OnCursors])"

definition dropPeer :: "string \<Rightarrow> 'a session_scheme \<Rightarrow> 'a session_scheme \<times> effect list" where
  "dropPeer p s =
     (if p \<in> fst ` set (s_cursors s) then (s\<lparr>s_cursors := AList.delete p (s_cursors s)\<rparr>, [OnCursors]) else (s, []))"

text \<open>
  The buffer's change callback: the length before the batch is recovered from the length
  after it, and a batch that is no operation is reported.
\<close>

definition changed_ops :: "js_string \<Rightarrow> 16 word change list \<Rightarrow> ot_error + 16 word op list" where
  "changed_ops text changes =
     opsFromChanges (int (length text) - (\<Sum>c\<leftarrow>changes. int (length (ch_text c)) - rangeLength c)) changes"

section \<open>The owner\<close>

definition HASH_EVERY :: int where "HASH_EVERY = 16"

record owner = session +
  o_rev :: int
  o_edited :: bool
  o_history :: "16 word op list list"
  o_allowed :: "string set"
  o_roster :: "string set"
  o_path :: string

definition new_owner :: "string \<Rightarrow> string \<Rightarrow> js_string \<Rightarrow> string \<Rightarrow> owner" where
  "new_owner doc self text path =
     \<lparr>s_doc = doc, s_self = self, s_text = text, s_cursors = [], o_rev = 0, o_edited = False,
      o_history = [], o_allowed = {}, o_roster = {}, o_path = path\<rparr>"

definition markSaved :: "owner \<Rightarrow> owner \<times> effect list" where
  "markSaved o1 = (if o_edited o1 then (o1\<lparr>o_edited := False\<rparr>, [OnEdited]) else (o1, []))"

definition owner_broadcast :: "16 word op list \<Rightarrow> string \<Rightarrow> owner \<Rightarrow> owner \<times> effect list" where
  "owner_broadcast ops author o1 =
     (let rv = o_rev o1 + 1
      in (o1\<lparr>o_edited := True, o_rev := rv, o_history := o_history o1 @ [ops]\<rparr>,
          (if o_edited o1 then [] else [OnEdited])
            @ [Send None (s_doc o1) (BOps rv ops author
                 (if rv mod HASH_EVERY = 0 then Some (docHash (s_text o1)) else None))]))"

definition owner_changed :: "js_string \<Rightarrow> 16 word change list \<Rightarrow> owner \<Rightarrow> owner \<times> effect list" where
  "owner_changed text changes o1 =
     (let o2 = o1\<lparr>s_text := text\<rparr>
      in case changed_ops text changes of
           Inl e \<Rightarrow> (o2, [Notice (Desynchronised e)])
         | Inr ops \<Rightarrow> owner_broadcast ops (s_self o2) o2)"

text \<open>
  \<^verbatim>\<open>for (let r = b.rev; r < this.revision; r++) [, theirs] = transform(this.history[r], theirs)\<close>.
  An index outside the history reads \<^verbatim>\<open>undefined\<close> there, and the transform throws on it.
\<close>

function forward_loop :: "16 word op list list \<Rightarrow> int \<Rightarrow> int \<Rightarrow> 16 word op list \<Rightarrow> ot_error + 16 word op list" where
  "forward_loop hist r rv theirs =
     (if r < rv then
        (if 0 \<le> r \<and> nat r < length hist
         then rbind (transform (hist ! nat r) theirs) (\<lambda>(_, theirs'). forward_loop hist (r + 1) rv theirs')
         else Inl DifferentDocuments)
      else Inr theirs)"
  by pat_completeness auto
termination
  by (relation "measure (\<lambda>(hist, r, rv, theirs). nat (rv - r))") auto

declare forward_loop.simps [simp del]

definition owner_snapshot :: "string \<Rightarrow> owner \<Rightarrow> effect" where
  "owner_snapshot to o1 = Send (Some to) (s_doc o1) (BSnapshot (o_rev o1) (s_text o1))"

definition owner_receive :: "editor \<Rightarrow> CollabMsg \<Rightarrow> owner \<Rightarrow> owner \<times> effect list" where
  "owner_receive ed msg o1 =
     (case m_body msg of
        BOpen \<Rightarrow>
          (if m_from msg \<notin> o_allowed o1 then (o1, [])
           else (o1\<lparr>o_roster := insert (m_from msg) (o_roster o1)\<rparr>, [owner_snapshot (m_from msg) o1]))
      | BResync _ \<Rightarrow>
          (if m_from msg \<notin> o_roster o1 then (o1, []) else (o1, [owner_snapshot (m_from msg) o1]))
      | BCursor anchor head _ \<Rightarrow>
          (if m_from msg \<notin> o_roster o1 then (o1, [])
           else noteCursor (m_from msg) (m_from_name msg) anchor head o1)
      | BClose _ \<Rightarrow> dropPeer (m_from msg) (o1\<lparr>o_roster := o_roster o1 - {m_from msg}\<rparr>)
      | BOps rv ops _ _ \<Rightarrow>
          (if m_from msg \<notin> o_roster o1 then (o1, [])
           else if rv > o_rev o1 then (o1, [])
           else (case forward_loop (o_history o1) rv (o_rev o1) ops of
                   Inl e \<Rightarrow> (o1, [Notice (DroppedEdit (m_from_name msg))])
                 | Inr theirs \<Rightarrow>
                     (case owner_broadcast theirs (m_from msg) (applyRemote ed theirs o1) of
                        (o2, effs) \<Rightarrow> (o2, OnCursors # effs))))
      | _ \<Rightarrow> (o1, []))"

definition owner_offerTo :: "string \<Rightarrow> js_string \<Rightarrow> string option \<Rightarrow> owner \<Rightarrow> owner \<times> effect list" where
  "owner_offerTo member name lang o1 =
     (o1\<lparr>o_allowed := insert member (o_allowed o1)\<rparr>,
      [Send (Some member) (s_doc o1) (BOffer (safeName name) lang)])"

definition owner_sendCursor :: "int \<Rightarrow> int \<Rightarrow> owner \<Rightarrow> effect list" where
  "owner_sendCursor anchor head o1 = [Send None (s_doc o1) (BCursor anchor head (o_rev o1))]"

definition owner_dispose :: "owner \<Rightarrow> effect list" where
  "owner_dispose o1 = [Send None (s_doc o1) (BClose ''The owner stopped sharing.'')]"

section \<open>A guest\<close>

record guest = session +
  g_rev :: int
  g_outstanding :: "16 word op list option"
  g_queued :: "16 word op list list"
  g_orphaned :: bool
  g_owner :: string

definition new_guest :: "string \<Rightarrow> string \<Rightarrow> js_string \<Rightarrow> string \<Rightarrow> int \<Rightarrow> guest" where
  "new_guest doc self text own rv =
     \<lparr>s_doc = doc, s_self = self, s_text = text, s_cursors = [], g_rev = rv, g_outstanding = None,
      g_queued = [], g_orphaned = False, g_owner = own\<rparr>"

definition guest_flush :: "guest \<Rightarrow> guest \<times> effect list" where
  "guest_flush g =
     (case (g_outstanding g, g_queued g) of
        (None, ops # qs) \<Rightarrow>
          (g\<lparr>g_outstanding := Some ops, g_queued := qs\<rparr>,
           [Send (Some (g_owner g)) (s_doc g) (BOps (g_rev g) ops (s_self g) None)])
      | _ \<Rightarrow> (g, []))"

definition guest_changed :: "js_string \<Rightarrow> 16 word change list \<Rightarrow> guest \<Rightarrow> guest \<times> effect list" where
  "guest_changed text changes g1 =
     (let g = g1\<lparr>s_text := text\<rparr>
      in case changed_ops text changes of
           Inl e \<Rightarrow> (g, [Notice (Desynchronised e)])
         | Inr ops \<Rightarrow>
             (if g_orphaned g then (g, []) else guest_flush (g\<lparr>g_queued := g_queued g @ [ops]\<rparr>)))"

definition guest_resync :: "resync_reason \<Rightarrow> guest \<Rightarrow> guest \<times> effect list" where
  "guest_resync reason g =
     (g\<lparr>g_outstanding := None, g_queued := []\<rparr>, [Send (Some (g_owner g)) (s_doc g) (BResync reason)])"

text \<open>
  The owner's operation through what is unacknowledged here: first the one in flight, then the
  queued ones. It is the first argument at every step.
\<close>

definition guest_transform :: "16 word op list \<Rightarrow> guest \<Rightarrow> ot_error + (16 word op list \<times> guest)" where
  "guest_transform ops g =
     rbind (case g_outstanding g of
              None \<Rightarrow> Inr (ops, None)
            | Some x \<Rightarrow> rbind (transform ops x) (\<lambda>(theirs, x'). Inr (theirs, Some x')))
       (\<lambda>(theirs, out).
          rbind (xform_over transform theirs (g_queued g))
            (\<lambda>(theirs', qs). Inr (theirs', g\<lparr>g_outstanding := out, g_queued := qs\<rparr>)))"

definition guest_check_hash :: "string option \<Rightarrow> guest \<times> effect list \<Rightarrow> guest \<times> effect list" where
  "guest_check_hash hash r =
     (case r of (g, effs) \<Rightarrow>
        (case hash of
           Some h \<Rightarrow>
             (if h \<noteq> '''' \<and> docHash (s_text g) \<noteq> h \<and> g_outstanding g = None \<and> g_queued g = []
              then (case guest_resync HashDisagreed g of (g', effs') \<Rightarrow> (g', effs @ effs'))
              else (g, effs))
         | None \<Rightarrow> (g, effs)))"

definition guest_receive :: "editor \<Rightarrow> CollabMsg \<Rightarrow> guest \<Rightarrow> guest \<times> effect list" where
  "guest_receive ed msg g =
     (case m_body msg of
        BCursor anchor head _ \<Rightarrow>
          (if m_from msg \<noteq> s_self g then noteCursor (m_from msg) (m_from_name msg) anchor head g else (g, []))
      | BClose _ \<Rightarrow> (g\<lparr>g_orphaned := True\<rparr>, [OnOrphaned])
      | BSnapshot rv text \<Rightarrow>
          (g\<lparr>s_text := text, g_rev := rv, g_outstanding := None, g_queued := []\<rparr>, [])
      | BOps rv ops author hash \<Rightarrow>
          (if rv \<noteq> g_rev g + 1 then guest_resync (Gap (g_rev g + 1) rv) g
           else if author = s_self g then
             guest_check_hash hash (guest_flush (g\<lparr>g_rev := rv, g_outstanding := None\<rparr>))
           else (case guest_transform ops g of
                   Inl e \<Rightarrow> guest_resync (Thrown e) g
                 | Inr (theirs, g') \<Rightarrow>
                     guest_check_hash hash ((applyRemote ed theirs g')\<lparr>g_rev := rv\<rparr>, [OnCursors])))
      | _ \<Rightarrow> (g, []))"

definition guest_sendCursor :: "int \<Rightarrow> int \<Rightarrow> guest \<Rightarrow> effect list" where
  "guest_sendCursor anchor head g = [Send None (s_doc g) (BCursor anchor head (g_rev g))]"

definition guest_dispose :: "guest \<Rightarrow> effect list" where
  "guest_dispose g = (if g_orphaned g then [] else [Send (Some (g_owner g)) (s_doc g) (BClose ''left'')])"

section \<open>The editor applies what the operation says\<close>

lemma edits_fit_le: "edits_fit at len es \<Longrightarrow> at \<le> len"
  by (induction at len es rule: edits_fit.induct) auto

lemma edits_fit_weaken: "edits_fit at len es \<Longrightarrow> b \<le> at \<Longrightarrow> edits_fit b len es"
  by (cases es) auto

lemma model_edits_fit:
  "wf_ops ops \<Longrightarrow> 0 \<le> at \<Longrightarrow> at + baseLength ops \<le> len \<Longrightarrow> edits_fit at len (model_edits at ops)"
proof (induction at ops rule: model_edits.induct)
  case (2 at n ops)
  then have "edits_fit (at + n) len (model_edits (at + n) ops)" by simp
  then show ?case using 2 by (auto intro: edits_fit_weaken)
qed auto

lemma replace_all_model_edits:
  "wf_ops ops \<Longrightarrow> 0 \<le> b \<Longrightarrow> b \<le> at \<Longrightarrow> at \<le> int (length d) \<Longrightarrow> op_sem ops (drop (nat at) d) = Some r \<Longrightarrow>
   replace_all b d (model_edits at ops) = drop (nat b) (take (nat at) d) @ r"
proof (induction at ops arbitrary: b r rule: model_edits.induct)
  case (1 at)
  then show ?case by (simp split: if_splits)
next
  case (2 at n ops)
  then obtain r' where r': "op_sem ops (drop (nat (at + n)) d) = Some r'"
    and r: "r = take (nat n) (drop (nat at) d) @ r'" and len: "at + n \<le> int (length d)"
    by (auto simp: nat_add_distrib add.commute split: if_splits)
  have "take (nat at) d @ take (nat n) (drop (nat at) d) = take (nat (at + n)) d"
    using 2 by (simp add: nat_add_distrib take_add)
  then have "drop (nat b) (take (nat (at + n)) d) = drop (nat b) (take (nat at) d) @ take (nat n) (drop (nat at) d)"
    using 2 by (metis drop_append diff_is_0_eq drop0 length_take min.absorb2 nat_le_iff nat_mono)
  with 2 r r' len show ?case by simp
next
  case (3 at s ops)
  then obtain r' where r': "op_sem ops (drop (nat at) d) = Some r'" and r: "r = s @ r'" by auto
  from "3.IH" [of at r'] "3.prems" r' have "replace_all at d (model_edits at ops) = r'" by simp
  with "3.prems" r show ?case by (simp add: drop_take nat_diff_distrib)
next
  case (4 at n ops)
  then have r': "op_sem ops (drop (nat (at + n)) d) = Some r" and len: "at + n \<le> int (length d)"
    by (auto simp: nat_add_distrib add.commute split: if_splits)
  from "4.IH" [of "at + n" r] "4.prems" r' len have "replace_all (at + n) d (model_edits (at + n) ops) = r" by simp
  with "4.prems" show ?case by (simp add: drop_take nat_diff_distrib)
qed

lemma applyToModel_sem:
  assumes "simultaneous_edits ed" "wf_ops ops" "op_sem ops d = Some r"
  shows "applyToModel ed d ops = r"
proof -
  have "edits_fit 0 (int (length d)) (model_edits 0 ops)"
    using assms(2) op_sem_base [OF assms(3)] by (intro model_edits_fit) simp_all
  then have "applyToModel ed d ops = replace_all 0 d (model_edits 0 ops)"
    using assms(1) by (simp add: applyToModel_def simultaneous_edits_def)
  also have "\<dots> = r"
    using replace_all_model_edits [of ops 0 0 d r] assms by simp
  finally show ?thesis .
qed

lemma sorted_edits: "edits_fit at len es \<Longrightarrow> sorted (map fst es) \<and> (\<forall>e \<in> set es. at \<le> fst e)"
  by (induction at len es rule: edits_fit.induct) force+

lemma reference_editor_ok: "simultaneous_edits reference_editor"
proof -
  have "sort_key fst (sort_key (\<lambda>(s, e, t). - s) es) = es"
    if "edits_fit 0 len es" for len :: int and es :: "edit list"
  proof (rule properties_for_sort_key)
    show "mset es = mset (sort_key (\<lambda>(s, e, t). - s) es)" by simp
  next
    fix k assume "k \<in> set es"
    have eq: "(\<lambda>x :: edit. fst k = fst x) = (\<lambda>x. (case x of (s, e, t) \<Rightarrow> - s) = - fst k)"
      by (auto simp: fun_eq_iff split: prod.splits)
    show "filter (\<lambda>x. fst k = fst x) es = filter (\<lambda>x. fst k = fst x) (sort_key (\<lambda>(s, e, t). - s) es)"
      unfolding eq by (rule sort_key_stable [symmetric])
  next
    show "sorted (map fst es)" using sorted_edits [OF that] by simp
  qed
  then show ?thesis by (auto simp: simultaneous_edits_def reference_editor_def)
qed

section \<open>The handlers' loops as folds\<close>

lemma forward_loop_through:
  "xform_through transform (drop (nat r) hist) x = Inr (hs, y) \<Longrightarrow> 0 \<le> r \<Longrightarrow> r \<le> rv \<Longrightarrow> rv = int (length hist) \<Longrightarrow>
   forward_loop hist r rv x = Inr y"
proof (induction hist r rv x arbitrary: hs rule: forward_loop.induct)
  case (1 hist r rv x)
  show ?case
  proof (cases "r < rv")
    case True
    with "1.prems" have d: "drop (nat r) hist = hist ! nat r # drop (nat (r + 1)) hist"
      by (simp add: Cons_nth_drop_Suc nat_add_distrib)
    from "1.prems"(1) obtain h' x' hs' where x': "transform (hist ! nat r) x = Inr (h', x')"
      and s: "xform_through transform (drop (nat (r + 1)) hist) x' = Inr (hs', y)"
      unfolding d by auto
    have "forward_loop hist (r + 1) rv x' = Inr y"
      using "1.IH" [OF True _ s] "1.prems" True by simp
    with True "1.prems" x' show ?thesis by (subst forward_loop.simps) simp
  next
    case False
    with "1.prems" show ?thesis by (subst forward_loop.simps) simp
  qed
qed

definition pending :: "guest \<Rightarrow> 16 word op list list" where
  "pending g = (case g_outstanding g of None \<Rightarrow> [] | Some x \<Rightarrow> [x]) @ g_queued g"

lemma xform_over_length: "xform_over xform x qs = Inr (x', qs') \<Longrightarrow> length qs' = length qs"
  by (induction qs arbitrary: x qs') auto

lemma guest_transform_over:
  assumes "xform_over transform ops (pending g) = Inr (theirs, qs)"
  shows "\<exists>g'. guest_transform ops g = Inr (theirs, g') \<and> pending g' = qs
    \<and> g' = g\<lparr>g_outstanding := g_outstanding g', g_queued := g_queued g'\<rparr>
    \<and> (case g_outstanding g of None \<Rightarrow> g_outstanding g' = None
        | Some x \<Rightarrow> \<exists>o' x'. transform ops x = Inr (o', x') \<and> g_outstanding g' = Some x')
    \<and> length (g_queued g') = length (g_queued g)"
proof (cases "g_outstanding g")
  case None
  with assms show ?thesis by (auto simp: guest_transform_def pending_def xform_over_length)
next
  case (Some x)
  with assms obtain o' x' qs' where 1: "transform ops x = Inr (o', x')"
    and 2: "xform_over transform o' (g_queued g) = Inr (theirs, qs')" and "qs = x' # qs'"
    by (auto simp: pending_def)
  with Some show ?thesis by (auto simp: guest_transform_def pending_def xform_over_length [OF 2])
qed

lemma length_apply_changes:
  "changes_fit at (int (length d)) cs \<Longrightarrow> 0 \<le> at \<Longrightarrow>
   int (length (foldr apply_change cs d)) = int (length d) + (\<Sum>c\<leftarrow>cs. int (length (ch_text c)) - rangeLength c)"
proof (induction cs arbitrary: at)
  case (Cons c cs)
  define q where "q = rangeOffset c + rangeLength c"
  define F where "F = foldr apply_change cs d"
  from Cons.prems have fit: "changes_fit q (int (length d)) cs" "at \<le> rangeOffset c" "0 \<le> rangeLength c"
    by (simp_all add: q_def)
  from fit Cons.prems(2) have q0: "0 \<le> q" by (simp add: q_def)
  have "length (take (nat q) F) = nat q"
    using apply_change_prefix [OF fit(1) q0] changes_fit_le [OF fit(1)] by (simp add: F_def)
  then have qF: "q \<le> int (length F)" by simp
  have "int (length (apply_change c F)) = int (length F) + (int (length (ch_text c)) - rangeLength c)"
  proof -
    have "nat (rangeOffset c) \<le> length F" "nat q \<le> length F"
      using qF fit Cons.prems(2) by (simp_all add: q_def nat_le_iff)
    then show ?thesis
      using fit Cons.prems(2) by (simp add: apply_change_def q_def min_absorb2 of_nat_diff)
  qed
  with Cons.IH [OF fit(1) q0] show ?case by (simp add: F_def)
qed simp

lemma changed_ops_sem:
  assumes "changes_fit 0 (int (length d)) (sort_key rangeOffset changes)"
    and "text = foldr apply_change (sort_key rangeOffset changes) d"
  shows "\<exists>ops. changed_ops text changes = Inr ops \<and> wf_ops ops \<and> op_sem ops d = Some text"
proof -
  let ?f = "\<lambda>c. int (length (ch_text c)) - rangeLength c"
  have eq: "mset (map ?f (sort_key rangeOffset changes)) = mset (map ?f changes)" by simp
  have "(\<Sum>c\<leftarrow>sort_key rangeOffset changes. int (length (ch_text c)) - rangeLength c)
      = (\<Sum>c\<leftarrow>changes. int (length (ch_text c)) - rangeLength c)"
    using arg_cong [OF eq, of sum_mset] by (simp only: sum_mset_sum_list)
  then have "int (length text) - (\<Sum>c\<leftarrow>changes. int (length (ch_text c)) - rangeLength c) = int (length d)"
    using length_apply_changes [OF assms(1)] assms(2) by simp
  then show ?thesis
    using opsFromChanges_sem [OF assms(1)] assms(2) by (simp add: changed_ops_def)
qed

end
