(* ===== verification/CollabLink.thy ===== *)
theory CollabLink
  imports CollabSession
begin

text \<open>
  One guest of \<^verbatim>\<open>src/src/collab.ts\<close> and its two channels to the owner. \<open>linked\<close> relates
  the owner's history and text, the guest's session, the operations on their way down to the
  guest and those on their way up: the guest's unacknowledged edits, run on the text it last
  agreed with the owner about, give its own text, and the one operation it has in flight is
  either still on its way to the owner or is on its way back as an acknowledgement. The lemmas
  show that each handler keeps the relation, for any lists the channels hold; they use the
  transform only through the interface \<open>concurrent_ops\<close>.
\<close>

section \<open>One guest and its two channels\<close>

type_synonym entry = "int \<times> 16 word op list \<times> string \<times> string option"

abbreviation entry_ops :: "entry \<Rightarrow> 16 word op list" where "entry_ops m \<equiv> fst (snd m)"
abbreviation entry_author :: "entry \<Rightarrow> string" where "entry_author m \<equiv> fst (snd (snd m))"

fun chain :: "js_string \<Rightarrow> entry list \<Rightarrow> js_string \<Rightarrow> bool" where
  "chain b [] t \<longleftrightarrow> b = t"
| "chain b ((rv, ops, author, hash) # ms) t \<longleftrightarrow>
     wf_ops ops \<and> (\<exists>b'. op_sem ops b = Some b' \<and> (hash = None \<or> hash = Some (docHash b')) \<and> chain b' ms t)"

lemma chain_run: "chain b ms t \<Longrightarrow> run_ops op_sem (map entry_ops ms) b = Some t \<and> list_all wf_ops (map entry_ops ms)"
  by (induction b ms t rule: chain.induct) auto

lemma chain_snoc:
  "chain b ms t \<Longrightarrow> wf_ops ops \<Longrightarrow> op_sem ops t = Some t' \<Longrightarrow> hash = None \<or> hash = Some (docHash t') \<Longrightarrow>
   chain b (ms @ [(rv, ops, author, hash)]) t'"
  by (induction b ms t rule: chain.induct) auto

abbreviation foreign :: "string \<Rightarrow> entry list \<Rightarrow> bool" where
  "foreign g ms \<equiv> \<forall>m \<in> set ms. entry_author m \<noteq> g"

definition sent :: "16 word op list list \<Rightarrow> string \<Rightarrow> int \<Rightarrow> 16 word op list \<Rightarrow> entry list \<Rightarrow> entry list \<Rightarrow> bool" where
  "sent hist g rv x D U \<longleftrightarrow> foreign g D \<and>
     (\<exists>r x0 hs. U = [(r, x0, g, None)] \<and> 0 \<le> r \<and> r \<le> rv
        \<and> xform_through transform (take (nat (rv - r)) (drop (nat r) hist)) x0 = Inr (hs, x))"

definition acked :: "string \<Rightarrow> 16 word op list \<Rightarrow> entry list \<Rightarrow> entry list \<Rightarrow> bool" where
  "acked g x D U \<longleftrightarrow> U = [] \<and>
     (\<exists>D1 r x' h D2 hs. D = D1 @ (r, x', g, h) # D2 \<and> foreign g D1 \<and> foreign g D2
        \<and> xform_through transform (map entry_ops D1) x = Inr (hs, x'))"

definition flight :: "16 word op list list \<Rightarrow> string \<Rightarrow> guest \<Rightarrow> entry list \<Rightarrow> entry list \<Rightarrow> bool" where
  "flight hist g gs D U \<longleftrightarrow>
     (case g_outstanding gs of
        None \<Rightarrow> g_queued gs = [] \<and> U = [] \<and> foreign g D
      | Some x \<Rightarrow> sent hist g (g_rev gs) x D U \<or> acked g x D U)"

definition linked :: "16 word op list list \<Rightarrow> js_string \<Rightarrow> string \<Rightarrow> guest \<Rightarrow> entry list \<Rightarrow> entry list \<Rightarrow> bool" where
  "linked hist t g gs D U \<longleftrightarrow>
     s_self gs = g \<and> \<not> g_orphaned gs \<and> 0 \<le> g_rev gs
     \<and> map fst D = [g_rev gs + 1..int (length hist)] \<and> g_rev gs \<le> int (length hist)
     \<and> map entry_ops D = drop (nat (g_rev gs)) hist
     \<and> (\<exists>b. chain b D t \<and> list_all wf_ops (pending gs) \<and> run_ops op_sem (pending gs) b = Some (s_text gs))
     \<and> flight hist g gs D U"

lemma upto_snoc: "i \<le> j + 1 \<Longrightarrow> [i..1 + j] = [i..j] @ [j + (1::int)]"
  using upto_rec2 [of i "j + 1"] by (simp add: add.commute)

text \<open>The owner sequences an operation of another author.\<close>

lemma sent_hist_snoc: "rv \<le> int (length hist) \<Longrightarrow> sent (hist @ [ops]) g rv x D U \<longleftrightarrow> sent hist g rv x D U"
  unfolding sent_def by (intro conj_cong ex_cong1) (auto simp: nat_diff_distrib)

lemma sent_append: "sent hist g rv x D U \<Longrightarrow> entry_author e \<noteq> g \<Longrightarrow> sent hist g rv x (D @ [e]) U"
  by (auto simp: sent_def)

lemma acked_append:
  assumes "acked g x D U" "entry_author e \<noteq> g"
  shows "acked g x (D @ [e]) U"
proof -
  from assms(1) obtain D1 r x' h D2 hs where "U = []" "D = D1 @ (r, x', g, h) # D2" "foreign g D1" "foreign g D2"
    "xform_through transform (map entry_ops D1) x = Inr (hs, x')"
    by (auto simp: acked_def)
  with assms(2) show ?thesis
    unfolding acked_def
    by (intro conjI exI [of _ D1] exI [of _ r] exI [of _ x'] exI [of _ h] exI [of _ "D2 @ [e]"] exI [of _ hs]) auto
qed

lemma linked_append:
  assumes "linked hist t g gs D U" "author \<noteq> g" "wf_ops ops" "op_sem ops t = Some t'"
    "hash = None \<or> hash = Some (docHash t')"
  shows "linked (hist @ [ops]) t' g gs (D @ [(int (length hist) + 1, ops, author, hash)]) U"
proof -
  from assms(1) obtain b where b: "chain b D t" "list_all wf_ops (pending gs)"
    "run_ops op_sem (pending gs) b = Some (s_text gs)" by (auto simp: linked_def)
  have "flight (hist @ [ops]) g gs (D @ [(int (length hist) + 1, ops, author, hash)]) U"
    using assms(1,2) unfolding linked_def flight_def
    by (auto simp: sent_hist_snoc sent_append acked_append split: option.splits)
  with assms b show ?thesis
    unfolding linked_def
    by (auto simp: upto_snoc intro!: exI [of _ b] chain_snoc)
qed

text \<open>A local edit of the guest.\<close>

definition flush_sends :: "guest \<Rightarrow> entry list" where
  "flush_sends g = (case (g_outstanding g, g_queued g) of
     (None, ops # _) \<Rightarrow> [(g_rev g, ops, s_self g, None)] | _ \<Rightarrow> [])"

lemma pending_flush: "pending (fst (guest_flush g)) = pending g"
  by (auto simp: guest_flush_def pending_def split: option.splits list.splits)

lemma flush_frame:
  "s_self (fst (guest_flush g)) = s_self g" "s_text (fst (guest_flush g)) = s_text g"
  "g_rev (fst (guest_flush g)) = g_rev g" "g_orphaned (fst (guest_flush g)) = g_orphaned g"
  "g_owner (fst (guest_flush g)) = g_owner g" "s_doc (fst (guest_flush g)) = s_doc g"
  by (auto simp: guest_flush_def split: option.splits list.splits)

text \<open>After an acknowledgement (or with nothing in flight), a flush sends the next edit.\<close>

lemma flight_flush:
  assumes "g_outstanding gs = None" "foreign (s_self gs) D" "0 \<le> g_rev gs"
  shows "flight hist (s_self gs) (fst (guest_flush gs)) D (flush_sends gs)"
  using assms
  by (auto simp: flight_def guest_flush_def flush_sends_def sent_def split: list.splits option.splits)

lemma linked_edit:
  assumes "linked hist t g gs D U" "wf_ops ops" "op_sem ops (s_text gs) = Some text"
  defines "gs1 \<equiv> gs\<lparr>s_text := text, g_queued := g_queued gs @ [ops]\<rparr>"
  shows "linked hist t g (fst (guest_flush gs1)) D (U @ flush_sends gs1)"
proof -
  from assms(1) obtain b where b: "chain b D t" "list_all wf_ops (pending gs)"
    "run_ops op_sem (pending gs) b = Some (s_text gs)" by (auto simp: linked_def)
  have p: "pending gs1 = pending gs @ [ops]" by (simp add: gs1_def pending_def)
  have "run_ops op_sem (pending gs1) b = Some text"
    using b(3) assms(3) by (simp add: p run_ops_append)
  moreover have "flight hist g (fst (guest_flush gs1)) D (U @ flush_sends gs1)"
  proof (cases "g_outstanding gs")
    case None
    with assms(1) have "U = []" "foreign g D" "s_self gs = g" "0 \<le> g_rev gs"
      by (auto simp: linked_def flight_def)
    with flight_flush [of gs1 D hist] None show ?thesis by (simp add: gs1_def)
  next
    case (Some x)
    with assms(1) show ?thesis
      by (simp add: gs1_def guest_flush_def flush_sends_def linked_def flight_def)
  qed
  ultimately show ?thesis
    using assms(1,2) b(1,2) p
    by (auto simp: linked_def pending_flush flush_frame) (auto simp: gs1_def)
qed


text \<open>The owner sequences this guest's operation: transformed over what the guest has not seen.\<close>

lemma linked_own:
  assumes "linked hist t g gs D ((r, x0, g, None) # U)"
  obtains x' t' hs where "U = []" "0 \<le> r" "r \<le> int (length hist)"
    "xform_through transform (drop (nat r) hist) x0 = Inr (hs, x')" "wf_ops x'" "op_sem x' t = Some t'"
    "\<And>h. h = None \<or> h = Some (docHash t') \<Longrightarrow>
      linked (hist @ [x']) t' g gs (D @ [(int (length hist) + 1, x', g, h)]) []"
proof -
  from assms obtain x where x: "g_outstanding gs = Some x" and s: "sent hist g (g_rev gs) x D ((r, x0, g, None) # U)"
    by (auto simp: linked_def flight_def acked_def split: option.splits)
  then obtain hs where U: "U = []" and r: "0 \<le> r" "r \<le> g_rev gs" and own: "foreign g D"
    and hs: "xform_through transform (take (nat (g_rev gs - r)) (drop (nat r) hist)) x0 = Inr (hs, x)"
    by (auto simp: sent_def)
  from assms obtain b where b: "chain b D t" "list_all wf_ops (pending gs)"
    "run_ops op_sem (pending gs) b = Some (s_text gs)"
    and rv: "g_rev gs \<le> int (length hist)" "0 \<le> g_rev gs" "map entry_ops D = drop (nat (g_rev gs)) hist"
    by (auto simp: linked_def)
  from b x obtain bx where wfx: "wf_ops x" and bx: "op_sem x b = Some bx"
    by (auto simp: pending_def bind_eq_Some_conv)
  obtain ks x' t' where ks: "xform_through transform (map entry_ops D) x = Inr (ks, x')" "wf_ops x'" "op_sem x' t = Some t'"
    using ot.through [of "map entry_ops D" x b t bx] chain_run [OF b(1)] wfx bx by blast
  have split: "drop (nat r) hist = take (nat (g_rev gs - r)) (drop (nat r) hist) @ map entry_ops D"
    using rv r by (metis append_take_drop_id drop_drop nat_add_distrib diff_add_cancel add.commute diff_ge_0_iff_ge)
  have all: "xform_through transform (drop (nat r) hist) x0 = Inr (hs @ ks, x')"
    by (subst split, subst xform_through_append [OF hs]) (simp add: ks)
  have "linked (hist @ [x']) t' g gs (D @ [(int (length hist) + 1, x', g, h)]) []"
    if "h = None \<or> h = Some (docHash t')" for h
  proof -
    have "acked g x (D @ [(int (length hist) + 1, x', g, h)]) []"
      unfolding acked_def
      by (intro conjI exI [of _ D] exI [of _ "int (length hist) + 1"] exI [of _ x'] exI [of _ h]
          exI [of _ "[]"] exI [of _ ks]) (use own ks in auto)
    with assms x b rv chain_snoc [OF b(1) ks(2,3) that] show ?thesis
      by (auto simp: linked_def flight_def upto_snoc)
  qed
  with U r rv all ks(2,3) that show thesis by force
qed

text \<open>The guest hears of an operation of another author.\<close>

lemma sent_advance:
  assumes s: "sent hist g rv x (e # D) U" and x: "transform ops x = Inr (o', x')"
    and rv: "0 \<le> rv" "drop (nat rv) hist = ops # rest'"
  shows "sent hist g (rv + 1) x' D U"
proof -
  from s obtain r x0 hs where U: "U = [(r, x0, g, None)]" and r: "0 \<le> r" "r \<le> rv" and own: "foreign g D"
    and hs: "xform_through transform (take (nat (rv - r)) (drop (nat r) hist)) x0 = Inr (hs, x)"
    by (auto simp: sent_def)
  have n: "nat (rv + 1 - r) = nat (rv - r) + 1" "nat (rv - r) + nat r = nat rv" using r rv(1) by simp_all
  have "take (nat (rv + 1 - r)) (drop (nat r) hist) = take (nat (rv - r)) (drop (nat r) hist) @ take 1 (drop (nat rv) hist)"
    by (simp only: n take_add drop_drop)
  then have "xform_through transform (take (nat (rv + 1 - r)) (drop (nat r) hist)) x0 = Inr (hs @ [o'], x')"
    using rv(2) by (simp add: xform_through_append [OF hs] x)
  with U r own show ?thesis
    unfolding sent_def by (intro conjI exI [of _ r] exI [of _ x0] exI [of _ "hs @ [o']"]) auto
qed

lemma acked_advance:
  assumes a: "acked g x (e # D) U" and e: "entry_author e \<noteq> g" and x: "transform (entry_ops e) x = Inr (o', x')"
  shows "acked g x' D U"
proof -
  from a obtain D1 r y h D2 hs where U: "U = []" and D: "e # D = D1 @ (r, y, g, h) # D2"
    and own: "foreign g D1" "foreign g D2" and hs: "xform_through transform (map entry_ops D1) x = Inr (hs, y)"
    by (auto simp: acked_def)
  from D e obtain D1' where D1: "D1 = e # D1'" "D = D1' @ (r, y, g, h) # D2"
    by (cases D1) auto
  with hs x obtain hs' where "xform_through transform (map entry_ops D1') x' = Inr (hs', y)" by auto
  with U D1 own show ?thesis
    unfolding acked_def
    by (intro conjI exI [of _ D1'] exI [of _ r] exI [of _ y] exI [of _ h] exI [of _ D2] exI [of _ hs']) auto
qed

lemma upto_ConsD: "x # xs = [i..j] \<Longrightarrow> x = i \<and> xs = [i + 1..j] \<and> i \<le> j"
  by (cases "i \<le> j") (simp_all add: upto_rec1)

lemma drop_next: "drop n xs = y # ys \<Longrightarrow> drop (Suc n) xs = ys"
  by (metis drop_Suc list.sel(3) tl_drop)

lemma guest_check_hash_quiet:
  "(pending g = [] \<Longrightarrow> hash = None \<or> hash = Some (docHash (s_text g))) \<Longrightarrow> guest_check_hash hash (g, effs) = (g, effs)"
  by (auto simp: guest_check_hash_def pending_def split: option.splits)

lemma linked_headD:
  assumes "linked hist t g gs ((rv, ops, author, hash) # D) U"
  obtains b b' where "rv = g_rev gs + 1" "0 \<le> g_rev gs" "g_rev gs + 1 \<le> int (length hist)"
    "map fst D = [g_rev gs + 1 + 1..int (length hist)]"
    "drop (nat (g_rev gs)) hist = ops # map entry_ops D" "map entry_ops D = drop (nat (g_rev gs + 1)) hist"
    "wf_ops ops" "op_sem ops b = Some b'" "hash = None \<or> hash = Some (docHash b')" "chain b' D t"
    "list_all wf_ops (pending gs)" "run_ops op_sem (pending gs) b = Some (s_text gs)"
proof -
  from assms obtain b where b: "chain b ((rv, ops, author, hash) # D) t" "list_all wf_ops (pending gs)"
    "run_ops op_sem (pending gs) b = Some (s_text gs)" by (auto simp: linked_def)
  from assms have m: "rv # map fst D = [g_rev gs + 1..int (length hist)]" "0 \<le> g_rev gs"
    and d: "drop (nat (g_rev gs)) hist = ops # map entry_ops D" by (auto simp: linked_def)
  from upto_ConsD [OF m(1)] have u: "rv = g_rev gs + 1" "map fst D = [g_rev gs + 1 + 1..int (length hist)]"
    "g_rev gs + 1 \<le> int (length hist)" by auto
  have "map entry_ops D = drop (nat (g_rev gs + 1)) hist"
    using drop_next [OF d] m(2) by (simp add: nat_add_distrib)
  with that u m(2) d b show thesis by auto
qed

lemma linked_down_other:
  assumes l: "linked hist t g gs ((rv, ops, author, hash) # D) U" and a: "author \<noteq> g" and ed: "simultaneous_edits ed"
    and m: "m_body msg = BOps rv ops author hash"
  obtains gs' where "guest_receive ed msg gs = (gs', [OnCursors])" "linked hist t g gs' D U"
    "g_owner gs' = g_owner gs" "s_doc gs' = s_doc gs"
proof -
  obtain b b' where rv: "rv = g_rev gs + 1" "0 \<le> g_rev gs" "g_rev gs + 1 \<le> int (length hist)"
    and up: "map fst D = [g_rev gs + 1 + 1..int (length hist)]"
    and d: "drop (nat (g_rev gs)) hist = ops # map entry_ops D" "map entry_ops D = drop (nat (g_rev gs + 1)) hist"
    and ops: "wf_ops ops" "op_sem ops b = Some b'" and h: "hash = None \<or> hash = Some (docHash b')"
    and ch: "chain b' D t" and p: "list_all wf_ops (pending gs)" "run_ops op_sem (pending gs) b = Some (s_text gs)"
    by (rule linked_headD [OF l]) blast
  obtain theirs qs e where X: "xform_over transform ops (pending gs) = Inr (theirs, qs)" "list_all wf_ops qs" "wf_ops theirs"
    "op_sem theirs (s_text gs) = Some e" "run_ops op_sem qs b' = Some e"
    using ot.over [OF p(1) ops(1) p(2) ops(2)] by blast
  obtain g1 where g1: "guest_transform ops gs = Inr (theirs, g1)" "pending g1 = qs"
    and fr: "g1 = gs\<lparr>g_outstanding := g_outstanding g1, g_queued := g_queued g1\<rparr>"
    and out: "case g_outstanding gs of None \<Rightarrow> g_outstanding g1 = None
        | Some x \<Rightarrow> \<exists>o' x'. transform ops x = Inr (o', x') \<and> g_outstanding g1 = Some x'"
    and len: "length (g_queued g1) = length (g_queued gs)"
    using guest_transform_over [OF X(1)] by blast
  have same: "s_text g1 = s_text gs" "s_self g1 = s_self gs" "g_orphaned g1 = g_orphaned gs" "g_rev g1 = g_rev gs"
    "g_owner g1 = g_owner gs" "s_doc g1 = s_doc gs"
    by (subst fr, simp)+
  define gs' where "gs' = (applyRemote ed theirs g1)\<lparr>g_rev := rv\<rparr>"
  have gs': "s_text gs' = e" "pending gs' = qs" "g_rev gs' = rv" "s_self gs' = s_self gs" "g_orphaned gs' = g_orphaned gs"
    "g_outstanding gs' = g_outstanding g1" "g_queued gs' = g_queued g1" "g_owner gs' = g_owner gs" "s_doc gs' = s_doc gs"
    using applyToModel_sem [OF ed X(3,4)] g1(2) same by (simp_all add: gs'_def applyRemote_def pending_def)
  have "guest_check_hash hash (gs', [OnCursors]) = (gs', [OnCursors])"
    by (rule guest_check_hash_quiet) (use gs' h X(5) in auto)
  moreover from l a have "s_self gs = g" by (simp add: linked_def)
  ultimately have R: "guest_receive ed msg gs = (gs', [OnCursors])"
    using m rv(1) a by (simp add: guest_receive_def g1(1) gs'_def)
  have "flight hist g gs' D U"
  proof (cases "g_outstanding gs")
    case None
    with l out len gs' show ?thesis by (simp add: linked_def flight_def)
  next
    case (Some x)
    with out obtain o' x' where x': "transform ops x = Inr (o', x')" "g_outstanding gs' = Some x'" by (auto simp: gs')
    from l Some have "sent hist g (g_rev gs) x ((rv, ops, author, hash) # D) U \<or> acked g x ((rv, ops, author, hash) # D) U"
      by (simp add: linked_def flight_def)
    then have "sent hist g (g_rev gs + 1) x' D U \<or> acked g x' D U"
      using sent_advance [OF _ x'(1) rv(2) d(1)] acked_advance [of g x "(rv, ops, author, hash)" D U o' x'] a x'(1) by auto
    with x' show ?thesis by (simp add: flight_def gs' rv)
  qed
  moreover have "linked hist t g gs' D U \<longleftrightarrow> flight hist g gs' D U"
    using l gs' rv up d(2) ch X(2,5) by (auto simp: linked_def)
  ultimately show thesis using that R gs' by blast
qed

lemma guest_flush_sends:
  "snd (guest_flush g) = map (\<lambda>(r, ops, a, h). Send (Some (g_owner g)) (s_doc g) (BOps r ops a h)) (flush_sends g)"
  by (auto simp: guest_flush_def flush_sends_def split: option.splits list.splits)

text \<open>The guest's own operation comes back: an acknowledgement.\<close>

lemma linked_down_own:
  assumes l: "linked hist t g gs ((rv, ops, g, hash) # D) U" and m: "m_body msg = BOps rv ops g hash"
  obtains gs1 gs' where "gs1 = gs\<lparr>g_rev := rv, g_outstanding := None\<rparr>"
    "guest_receive ed msg gs = (gs', snd (guest_flush gs1))" "U = []"
    "linked hist t g gs' D (flush_sends gs1)" "g_owner gs' = g_owner gs" "s_doc gs' = s_doc gs"
proof -
  obtain b b' where rv: "rv = g_rev gs + 1" "0 \<le> g_rev gs" "g_rev gs + 1 \<le> int (length hist)"
    and up: "map fst D = [g_rev gs + 1 + 1..int (length hist)]"
    and d: "drop (nat (g_rev gs)) hist = ops # map entry_ops D" "map entry_ops D = drop (nat (g_rev gs + 1)) hist"
    and ops: "wf_ops ops" "op_sem ops b = Some b'" and h: "hash = None \<or> hash = Some (docHash b')"
    and ch: "chain b' D t" and p: "list_all wf_ops (pending gs)" "run_ops op_sem (pending gs) b = Some (s_text gs)"
    by (rule linked_headD [OF l]) blast
  from l obtain x where x: "g_outstanding gs = Some x" and ack: "acked g x ((rv, ops, g, hash) # D) U" and self: "s_self gs = g"
    by (auto simp: linked_def flight_def sent_def split: option.splits)
  from ack obtain D1 r y h' D2 hs where U: "U = []" and D: "(rv, ops, g, hash) # D = D1 @ (r, y, g, h') # D2"
    and own: "foreign g D1" "foreign g D2" and hs: "xform_through transform (map entry_ops D1) x = Inr (hs, y)"
    unfolding acked_def by blast
  from D own have "D1 = []" by (cases D1) auto
  with D hs have y: "x = ops" "D = D2" by auto
  define gs1 where "gs1 = gs\<lparr>g_rev := rv, g_outstanding := None\<rparr>"
  define gs' where "gs' = fst (guest_flush gs1)"
  have p1: "pending gs1 = g_queued gs" by (simp add: gs1_def pending_def)
  have q: "list_all wf_ops (pending gs1)" "run_ops op_sem (pending gs1) b' = Some (s_text gs)"
    using p ops(2) x y by (simp_all add: pending_def gs1_def)
  have f: "pending gs' = pending gs1" "s_text gs' = s_text gs" "g_rev gs' = rv" "s_self gs' = g"
    "g_orphaned gs' = g_orphaned gs" "g_owner gs' = g_owner gs" "s_doc gs' = s_doc gs"
    by (simp_all add: gs'_def pending_flush flush_frame gs1_def self)
  have "guest_check_hash hash (gs', snd (guest_flush gs1)) = (gs', snd (guest_flush gs1))"
    by (rule guest_check_hash_quiet) (use h f q in auto)
  then have R: "guest_receive ed msg gs = (gs', snd (guest_flush gs1))"
    using m rv(1) self by (simp add: guest_receive_def gs'_def gs1_def)
  have "flight hist g gs' D (flush_sends gs1)"
    using flight_flush [of gs1 D hist] own(2) y(2) rv self by (simp add: gs'_def gs1_def)
  then have "linked hist t g gs' D (flush_sends gs1)"
    using l f rv up d(2) ch q by (auto simp: linked_def)
  with that gs1_def R U f show thesis by blast
qed

text \<open>A linked pair of channels that is empty is a converged pair of texts.\<close>

lemma linked_quiet:
  assumes "linked hist t g gs [] []"
  shows "s_text gs = t \<and> g_rev gs = int (length hist) \<and> g_outstanding gs = None \<and> g_queued gs = []"
proof -
  from assms have "g_outstanding gs = None" "g_queued gs = []"
    by (auto simp: linked_def flight_def sent_def acked_def split: option.splits)
  moreover from assms have "g_rev gs = int (length hist)"
    by (auto simp: linked_def)
  ultimately show ?thesis using assms by (auto simp: linked_def pending_def)
qed

text \<open>A member that opens the document from a snapshot of the owner's state.\<close>

lemma linked_new:
  assumes "rv = int (length hist)"
  shows "linked hist t g (new_guest doc g t own rv) [] []"
  using assms by (simp add: linked_def new_guest_def pending_def flight_def)

end
