(* ===== verification/CollabNetwork.thy ===== *)
theory CollabNetwork
  imports CollabLink
begin

text \<open>
  A whole shared document: the owner, any number of members, and a relay that delivers each
  sender's frames to each recipient in order and in its own time (\<open>n_chan\<close>, one queue per pair,
  the sender's identity stamped by the relay). A step is an edit on either side, an offer, a member
  that opens the document, a caret move, a save, or the delivery of one frame. A member opens the
  document once and stays; a frame that reaches a member with no session is handled as
  \<^verbatim>\<open>CollabManager.receive\<close> handles it: only a snapshot from the owner whose offer is open creates a
  guest session.

  \<open>net_ok\<close> is the invariant: every member's pair of channels is \<open>linked\<close>, is still to be
  admitted, or holds the snapshot that will admit it. Every step keeps it (\<open>net_ok_step\<close>).
\<close>

section \<open>The relay\<close>

type_synonym channels = "string \<Rightarrow> string \<Rightarrow> body list"

fun relay1 :: "string \<Rightarrow> effect \<Rightarrow> channels \<Rightarrow> channels" where
  "relay1 from (Send to _ b) ch =
     (\<lambda>x y. if x = from \<and> y \<noteq> from \<and> (to = None \<or> to = Some y) then ch x y @ [b] else ch x y)"
| "relay1 from _ ch = ch"

record net =
  n_owner :: owner
  n_guests :: "string \<Rightarrow> guest option"
  n_chan :: channels
  n_offered :: "string set"
  n_opened :: "string set"
  n_log :: "effect list"

definition relay :: "string \<Rightarrow> effect list \<Rightarrow> net \<Rightarrow> net" where
  "relay from effs n = n\<lparr>n_chan := fold (relay1 from) effs (n_chan n), n_log := n_log n @ effs\<rparr>"

definition set_guest :: "string \<Rightarrow> guest \<Rightarrow> net \<Rightarrow> net" where
  "set_guest h g n = n\<lparr>n_guests := (n_guests n)(h := Some g)\<rparr>"

definition take_frame :: "string \<Rightarrow> string \<Rightarrow> net \<Rightarrow> net" where
  "take_frame from to n = n\<lparr>n_chan := (\<lambda>x y. if x = from \<and> y = to then tl (n_chan n x y) else n_chan n x y)\<rparr>"

definition frame :: "(string \<Rightarrow> string) \<Rightarrow> string \<Rightarrow> string \<Rightarrow> string \<Rightarrow> body \<Rightarrow> CollabMsg" where
  "frame names doc from to b = \<lparr>m_from = from, m_from_name = names from, m_to = Some to, m_doc = doc, m_body = b\<rparr>"

definition deliver_owner :: "editor \<Rightarrow> (string \<Rightarrow> string) \<Rightarrow> string \<Rightarrow> body \<Rightarrow> net \<Rightarrow> net" where
  "deliver_owner ed names h b n =
     (case owner_receive ed (frame names (s_doc (n_owner n)) h (s_self (n_owner n)) b) (n_owner n) of
        (o1, effs) \<Rightarrow> relay (s_self (n_owner n)) effs (n\<lparr>n_owner := o1\<rparr>))"

definition deliver_guest :: "editor \<Rightarrow> (string \<Rightarrow> string) \<Rightarrow> string \<Rightarrow> string \<Rightarrow> body \<Rightarrow> net \<Rightarrow> net" where
  "deliver_guest ed names from h b n =
     (case n_guests n h of
        Some g \<Rightarrow>
          (case guest_receive ed (frame names (s_doc g) from h b) g of (g', effs) \<Rightarrow> relay h effs (set_guest h g' n))
      | None \<Rightarrow>
          (case b of
             BOffer _ _ \<Rightarrow> n\<lparr>n_offered := insert h (n_offered n)\<rparr>
           | BSnapshot rv text \<Rightarrow>
               (if from = s_self (n_owner n) \<and> h \<in> n_offered n
                then (set_guest h (new_guest (s_doc (n_owner n)) h text from rv) n)\<lparr>n_offered := n_offered n - {h}\<rparr>
                else n)
           | _ \<Rightarrow> n))"

definition deliver :: "editor \<Rightarrow> (string \<Rightarrow> string) \<Rightarrow> string \<Rightarrow> string \<Rightarrow> body \<Rightarrow> net \<Rightarrow> net" where
  "deliver ed names from to b n =
     (if to = s_self (n_owner n) then deliver_owner ed names from b n else deliver_guest ed names from to b n)"

definition buffer_edit :: "js_string \<Rightarrow> 16 word change list \<Rightarrow> js_string \<Rightarrow> bool" where
  "buffer_edit text changes text' \<longleftrightarrow>
     changes_fit 0 (int (length text)) (sort_key rangeOffset changes)
     \<and> text' = foldr apply_change (sort_key rangeOffset changes) text"

inductive net_step :: "editor \<Rightarrow> (string \<Rightarrow> string) \<Rightarrow> net \<Rightarrow> net \<Rightarrow> bool" for ed names where
  owner_edits: "buffer_edit (s_text (n_owner n)) changes text \<Longrightarrow> owner_changed text changes (n_owner n) = (o1, effs) \<Longrightarrow>
     net_step ed names n (relay (s_self (n_owner n)) effs (n\<lparr>n_owner := o1\<rparr>))"
| guest_edits: "n_guests n h = Some g \<Longrightarrow> buffer_edit (s_text g) changes text \<Longrightarrow> guest_changed text changes g = (g', effs) \<Longrightarrow>
     net_step ed names n (relay h effs (set_guest h g' n))"
| owner_offers: "h \<noteq> s_self (n_owner n) \<Longrightarrow> owner_offerTo h name lang (n_owner n) = (o1, effs) \<Longrightarrow>
     net_step ed names n (relay (s_self (n_owner n)) effs (n\<lparr>n_owner := o1\<rparr>))"
| member_opens: "h \<in> n_offered n \<Longrightarrow> h \<notin> n_opened n \<Longrightarrow>
     net_step ed names n (relay h [Send (Some (s_self (n_owner n))) (s_doc (n_owner n)) BOpen]
       (n\<lparr>n_opened := insert h (n_opened n)\<rparr>))"
| owner_cursor: "net_step ed names n (relay (s_self (n_owner n)) (owner_sendCursor anchor head (n_owner n)) n)"
| guest_cursor: "n_guests n h = Some g \<Longrightarrow> net_step ed names n (relay h (guest_sendCursor anchor head g) n)"
| owner_saves: "markSaved (n_owner n) = (o1, effs) \<Longrightarrow>
     net_step ed names n (relay (s_self (n_owner n)) effs (n\<lparr>n_owner := o1\<rparr>))"
| delivers: "n_chan n from to = b # bs \<Longrightarrow> net_step ed names n (deliver ed names from to b (take_frame from to n))"

definition net_start :: "owner \<Rightarrow> net" where
  "net_start o1 = \<lparr>n_owner = o1, n_guests = (\<lambda>_. None), n_chan = (\<lambda>_ _. []), n_offered = {}, n_opened = {}, n_log = []\<rparr>"

inductive reachable :: "editor \<Rightarrow> (string \<Rightarrow> string) \<Rightarrow> owner \<Rightarrow> net \<Rightarrow> bool" for ed names o1 where
  start: "reachable ed names o1 (net_start o1)"
| step: "reachable ed names o1 n \<Longrightarrow> net_step ed names n n' \<Longrightarrow> reachable ed names o1 n'"

section \<open>The invariant\<close>

fun ops_of :: "body list \<Rightarrow> entry list" where
  "ops_of [] = []"
| "ops_of (BOps rv ops author hash # bs) = (rv, ops, author, hash) # ops_of bs"
| "ops_of (_ # bs) = ops_of bs"

fun harmless :: "body \<Rightarrow> bool" where
  "harmless (BOps _ _ _ _) \<longleftrightarrow> True"
| "harmless (BCursor _ _ _) \<longleftrightarrow> True"
| "harmless (BOffer _ _) \<longleftrightarrow> True"
| "harmless _ \<longleftrightarrow> False"

lemma ops_of_append [simp]: "ops_of (xs @ ys) = ops_of xs @ ops_of ys"
  by (induction xs rule: ops_of.induct) simp_all

definition waiting :: "body list \<Rightarrow> body list \<Rightarrow> bool \<Rightarrow> bool" where
  "waiting down up opened \<longleftrightarrow> list_all harmless down \<and> (up = [] \<or> up = [BOpen] \<and> opened)"

definition admitted :: "owner \<Rightarrow> string \<Rightarrow> body list \<Rightarrow> body list \<Rightarrow> bool \<Rightarrow> bool" where
  "admitted o1 h down up opened \<longleftrightarrow> up = [] \<and> opened \<and> h \<in> o_roster o1 \<and>
     (\<exists>pre rv text post. down = pre @ BSnapshot rv text # post \<and> list_all harmless pre \<and> list_all harmless post
        \<and> linked (o_history o1) (s_text o1) h (new_guest (s_doc o1) h text (s_self o1) rv) (ops_of post) [])"

definition live :: "owner \<Rightarrow> string \<Rightarrow> guest \<Rightarrow> body list \<Rightarrow> body list \<Rightarrow> bool \<Rightarrow> bool" where
  "live o1 h g down up opened \<longleftrightarrow> opened \<and> h \<in> o_roster o1 \<and> list_all harmless down \<and> list_all harmless up
     \<and> g_owner g = s_self o1
     \<and> linked (o_history o1) (s_text o1) h g (ops_of down) (ops_of up)"

definition member_ok :: "owner \<Rightarrow> string \<Rightarrow> guest option \<Rightarrow> body list \<Rightarrow> body list \<Rightarrow> bool \<Rightarrow> bool" where
  "member_ok o1 h go down up opened \<longleftrightarrow>
     (case go of None \<Rightarrow> waiting down up opened \<or> admitted o1 h down up opened
      | Some g \<Rightarrow> live o1 h g down up opened)"

definition owner_ok :: "js_string \<Rightarrow> owner \<Rightarrow> bool" where
  "owner_ok base o1 \<longleftrightarrow> o_rev o1 = int (length (o_history o1)) \<and> list_all wf_ops (o_history o1)
     \<and> run_ops op_sem (o_history o1) base = Some (s_text o1)"

fun calm :: "effect \<Rightarrow> bool" where
  "calm (Notice _) \<longleftrightarrow> False"
| "calm (Send _ _ (BResync _)) \<longleftrightarrow> False"
| "calm _ \<longleftrightarrow> True"

fun is_cursor :: "body \<Rightarrow> bool" where
  "is_cursor (BCursor _ _ _) \<longleftrightarrow> True"
| "is_cursor _ \<longleftrightarrow> False"

definition net_ok :: "js_string \<Rightarrow> string \<Rightarrow> net \<Rightarrow> bool" where
  "net_ok base own n \<longleftrightarrow> s_self (n_owner n) = own \<and> owner_ok base (n_owner n)
     \<and> (\<forall>h. h \<noteq> own \<longrightarrow> member_ok (n_owner n) h (n_guests n h) (n_chan n own h) (n_chan n h own) (h \<in> n_opened n))
     \<and> (\<forall>a b. a \<noteq> own \<longrightarrow> b \<noteq> own \<longrightarrow> list_all is_cursor (n_chan n a b))
     \<and> n_guests n own = None \<and> n_chan n own own = [] \<and> own \<notin> n_offered n
     \<and> list_all calm (n_log n)"

fun frames_to :: "string \<Rightarrow> effect list \<Rightarrow> body list" where
  "frames_to y [] = []"
| "frames_to y (Send to _ b # es) = (if to = None \<or> to = Some y then b # frames_to y es else frames_to y es)"
| "frames_to y (_ # es) = frames_to y es"

lemma fold_relay1:
  "fold (relay1 from) effs ch x y = (if x = from \<and> y \<noteq> from then ch x y @ frames_to y effs else ch x y)"
proof (induction effs arbitrary: ch)
  case (Cons e effs)
  then show ?case by (cases e) auto
qed simp

lemma relay_simps [simp]:
  "n_owner (relay from effs n) = n_owner n" "n_guests (relay from effs n) = n_guests n"
  "n_opened (relay from effs n) = n_opened n" "n_offered (relay from effs n) = n_offered n"
  "n_log (relay from effs n) = n_log n @ effs"
  "n_chan (relay from effs n) x y = (if x = from \<and> y \<noteq> from then n_chan n x y @ frames_to y effs else n_chan n x y)"
  by (simp_all add: relay_def fold_relay1)

lemma set_guest_simps [simp]:
  "n_owner (set_guest h g n) = n_owner n" "n_guests (set_guest h g n) = (n_guests n)(h := Some g)"
  "n_opened (set_guest h g n) = n_opened n" "n_offered (set_guest h g n) = n_offered n"
  "n_log (set_guest h g n) = n_log n" "n_chan (set_guest h g n) = n_chan n"
  by (simp_all add: set_guest_def)

lemma take_frame_simps [simp]:
  "n_owner (take_frame from to n) = n_owner n" "n_guests (take_frame from to n) = n_guests n"
  "n_opened (take_frame from to n) = n_opened n" "n_offered (take_frame from to n) = n_offered n"
  "n_log (take_frame from to n) = n_log n"
  "n_chan (take_frame from to n) x y = (if x = from \<and> y = to then tl (n_chan n x y) else n_chan n x y)"
  by (simp_all add: take_frame_def)

text \<open>What a member's part of the invariant survives.\<close>

lemma linked_only_texts:
  "s_self gs = s_self gs' \<Longrightarrow> g_orphaned gs = g_orphaned gs' \<Longrightarrow> g_rev gs = g_rev gs' \<Longrightarrow> s_text gs = s_text gs' \<Longrightarrow>
   g_outstanding gs = g_outstanding gs' \<Longrightarrow> g_queued gs = g_queued gs' \<Longrightarrow>
   linked hist t g gs D U \<longleftrightarrow> linked hist t g gs' D U"
  by (simp add: linked_def flight_def pending_def split: option.split)

lemma member_ok_owner:
  "o_history o2 = o_history o1 \<Longrightarrow> s_text o2 = s_text o1 \<Longrightarrow> s_self o2 = s_self o1 \<Longrightarrow> s_doc o2 = s_doc o1 \<Longrightarrow>
   o_roster o1 \<subseteq> o_roster o2 \<Longrightarrow> member_ok o1 h go down up opened \<Longrightarrow> member_ok o2 h go down up opened"
  by (auto simp: member_ok_def admitted_def live_def split: option.splits)

lemma member_ok_down_plain:
  assumes "member_ok o1 h go down up opened" "harmless b" "ops_of [b] = []"
  shows "member_ok o1 h go (down @ [b]) up opened"
proof -
  have "admitted o1 h (down @ [b]) up opened" if "admitted o1 h down up opened"
  proof -
    from that obtain pre rv snap post where "down = pre @ BSnapshot rv snap # post" "list_all harmless pre"
      "list_all harmless post" "up = []" "opened" "h \<in> o_roster o1"
      "linked (o_history o1) (s_text o1) h (new_guest (s_doc o1) h snap (s_self o1) rv) (ops_of post) []"
      by (auto simp: admitted_def)
    with assms(2,3) show ?thesis
      unfolding admitted_def
      by (intro conjI exI [of _ pre] exI [of _ rv] exI [of _ snap] exI [of _ "post @ [b]"]) auto
  qed
  with assms show ?thesis by (auto simp: member_ok_def waiting_def live_def split: option.splits)
qed

lemma member_ok_append:
  assumes "member_ok o1 h go down up opened" "author \<noteq> h" "wf_ops ops" "op_sem ops (s_text o1) = Some t'"
    and "o_history o2 = o_history o1 @ [ops]" "s_text o2 = t'" "s_self o2 = s_self o1" "s_doc o2 = s_doc o1"
      "o_roster o2 = o_roster o1" "hash = None \<or> hash = Some (docHash t')" "rv = int (length (o_history o1)) + 1"
  shows "member_ok o2 h go (down @ [BOps rv ops author hash]) up opened"
proof -
  note app = linked_append [OF _ assms(2-4,10)]
  have "admitted o2 h (down @ [BOps rv ops author hash]) up opened" if "admitted o1 h down up opened"
  proof -
    from that obtain pre r snap post where "down = pre @ BSnapshot r snap # post" "list_all harmless pre"
      "list_all harmless post" "up = []" "opened" "h \<in> o_roster o1"
      and l: "linked (o_history o1) (s_text o1) h (new_guest (s_doc o1) h snap (s_self o1) r) (ops_of post) []"
      by (auto simp: admitted_def)
    with app [OF l] assms(5-) show ?thesis
      unfolding admitted_def
      by (intro conjI exI [of _ pre] exI [of _ r] exI [of _ snap] exI [of _ "post @ [BOps rv ops author hash]"]) auto
  qed
  with app assms show ?thesis by (auto simp: member_ok_def waiting_def live_def split: option.splits)
qed

lemma member_ok_up_cursor:
  "live o1 h g down up opened \<Longrightarrow> live o1 h g down (up @ [BCursor a b c]) opened"
  by (simp add: live_def)

section \<open>Every step keeps the invariant\<close>

definition no_op :: "body \<Rightarrow> bool" where
  "no_op b \<longleftrightarrow> harmless b \<and> ops_of [b] = []"

lemma member_ok_down_plains:
  "member_ok o1 h go down up opened \<Longrightarrow> list_all no_op bs \<Longrightarrow> member_ok o1 h go (down @ bs) up opened"
proof (induction bs arbitrary: down)
  case (Cons b bs)
  then show ?case using member_ok_down_plain [of o1 h go down up opened b] Cons.IH [of "down @ [b]"]
    by (simp add: no_op_def)
qed simp

lemma net_okE:
  assumes "net_ok base own n"
  shows "s_self (n_owner n) = own" "owner_ok base (n_owner n)" "n_guests n own = None" "n_chan n own own = []"
    "own \<notin> n_offered n" "list_all calm (n_log n)"
    "h \<noteq> own \<Longrightarrow> member_ok (n_owner n) h (n_guests n h) (n_chan n own h) (n_chan n h own) (h \<in> n_opened n)"
    "a \<noteq> own \<Longrightarrow> b \<noteq> own \<Longrightarrow> list_all is_cursor (n_chan n a b)"
  using assms by (auto simp: net_ok_def)

text \<open>After a handler of the owner, what is left to show is each member's part.\<close>

lemma net_ok_owner_posts:
  assumes n: "net_ok base own n" and o2: "s_self o2 = own" "owner_ok base o2" "list_all calm effs"
    and n1: "n_guests n1 = n_guests n" "n_opened n1 = n_opened n" "n_offered n1 = n_offered n" "n_log n1 = n_log n"
      "\<And>k. n_chan n1 own k = n_chan n own k" "\<And>a b. b \<noteq> own \<Longrightarrow> n_chan n1 a b = n_chan n a b"
    and m: "\<And>k. k \<noteq> own \<Longrightarrow> member_ok o2 k (n_guests n k) (n_chan n own k @ frames_to k effs)
      (n_chan n1 k own) (k \<in> n_opened n)"
  shows "net_ok base own (relay own effs (n1\<lparr>n_owner := o2\<rparr>))"
  unfolding net_ok_def
proof (intro conjI allI impI)
  fix k assume k: "k \<noteq> own"
  let ?n = "relay own effs (n1\<lparr>n_owner := o2\<rparr>)"
  have "n_owner ?n = o2" "n_guests ?n k = n_guests n k" "n_chan ?n own k = n_chan n own k @ frames_to k effs"
    "n_chan ?n k own = n_chan n1 k own" "n_opened ?n = n_opened n" using n1 k by simp_all
  then show "member_ok (n_owner ?n) k (n_guests ?n k) (n_chan ?n own k) (n_chan ?n k own) (k \<in> n_opened ?n)"
    using m [OF k] by (simp only:)
qed (use net_okE [OF n] o2 n1 in simp_all)

text \<open>The owner's handlers that sequence nothing.\<close>

lemma net_ok_owner_idle:
  assumes n: "net_ok base own n"
    and o2: "o_history o2 = o_history (n_owner n)" "s_text o2 = s_text (n_owner n)" "s_self o2 = s_self (n_owner n)"
      "s_doc o2 = s_doc (n_owner n)" "o_rev o2 = o_rev (n_owner n)" "o_roster (n_owner n) \<subseteq> o_roster o2"
    and e: "list_all calm effs" "\<And>y. list_all no_op (frames_to y effs)"
  shows "net_ok base own (relay own effs (n\<lparr>n_owner := o2\<rparr>))"
proof (rule net_ok_owner_posts [OF n])
  fix k assume k: "k \<noteq> own"
  show "member_ok o2 k (n_guests n k) (n_chan n own k @ frames_to k effs) (n_chan n k own) (k \<in> n_opened n)"
    by (rule member_ok_down_plains [OF member_ok_owner [OF o2(1-4,6) net_okE(7) [OF n k]] e(2)])
qed (use net_okE(1,2) [OF n] o2 e in \<open>simp_all add: owner_ok_def\<close>)

text \<open>The owner sequences one operation, its own or a member's.\<close>

lemma owner_broadcast_facts:
  assumes "owner_broadcast ops author o1 = (o2, effs)"
  obtains hash where "hash = None \<or> hash = Some (docHash (s_text o1))" "list_all calm effs"
    "\<And>y. frames_to y effs = [BOps (o_rev o1 + 1) ops author hash]"
    "o_history o2 = o_history o1 @ [ops]" "s_text o2 = s_text o1" "s_self o2 = s_self o1" "s_doc o2 = s_doc o1"
    "o_roster o2 = o_roster o1" "o_rev o2 = o_rev o1 + 1"
proof -
  define hash where "hash = (if (o_rev o1 + 1) mod HASH_EVERY = 0 then Some (docHash (s_text o1)) else None)"
  have "hash = None \<or> hash = Some (docHash (s_text o1))" by (simp add: hash_def)
  moreover have "effs = (if o_edited o1 then [] else [OnEdited]) @ [Send None (s_doc o1) (BOps (o_rev o1 + 1) ops author hash)]"
    and o2: "o2 = o1\<lparr>o_edited := True, o_rev := o_rev o1 + 1, o_history := o_history o1 @ [ops]\<rparr>"
    using assms by (simp_all add: owner_broadcast_def Let_def hash_def)
  then have "list_all calm effs" "\<And>y. frames_to y effs = [BOps (o_rev o1 + 1) ops author hash]" by simp_all
  ultimately show thesis using that o2 by simp
qed

lemma net_ok_sequence:
  assumes n: "net_ok base own n" and ops: "wf_ops ops" "op_sem ops (s_text (n_owner n)) = Some t'"
    and o1: "o_history o1 = o_history (n_owner n)" "s_text o1 = t'" "s_self o1 = own"
      "s_doc o1 = s_doc (n_owner n)" "o_rev o1 = o_rev (n_owner n)" "o_roster o1 = o_roster (n_owner n)"
    and b: "owner_broadcast ops author o1 = (o2, effs)" and pre: "pre = [] \<or> pre = [OnCursors]"
    and n1: "n1 = n \<and> author = own \<or> n1 = take_frame author own n \<and> author \<noteq> own"
    and a: "\<And>h. author \<noteq> own \<Longrightarrow> h = None \<or> h = Some (docHash t') \<Longrightarrow>
        o_history o2 = o_history (n_owner n) @ [ops] \<Longrightarrow> s_text o2 = t' \<Longrightarrow> s_self o2 = own \<Longrightarrow>
        o_roster o2 = o_roster (n_owner n) \<Longrightarrow>
        member_ok o2 author (n_guests n author)
          (n_chan n own author @ [BOps (o_rev (n_owner n) + 1) ops author h]) (tl (n_chan n author own)) (author \<in> n_opened n)"
  shows "net_ok base own (relay own (pre @ effs) (n1\<lparr>n_owner := o2\<rparr>))"
proof -
  obtain hash where h0: "hash = None \<or> hash = Some (docHash (s_text o1))" and h: "list_all calm effs"
    and f0: "\<And>y. frames_to y effs = [BOps (o_rev o1 + 1) ops author hash]"
    and o20: "o_history o2 = o_history o1 @ [ops]" "s_text o2 = s_text o1" "s_self o2 = s_self o1" "s_doc o2 = s_doc o1"
    "o_roster o2 = o_roster o1" "o_rev o2 = o_rev o1 + 1"
    by (rule owner_broadcast_facts [OF b]) blast
  note f = f0 [unfolded o1(5)] and o2 = o20 [unfolded o1] and hash = h0 [unfolded o1(2)]
  show ?thesis
  proof (rule net_ok_owner_posts [OF n])
    fix k assume k: "k \<noteq> own"
    have up: "n_chan n1 k own = (if k = author then tl (n_chan n k own) else n_chan n k own)"
      using n1 k by auto
    have fr: "frames_to k (pre @ effs) = [BOps (o_rev (n_owner n) + 1) ops author hash]" using pre f by auto
    show "member_ok o2 k (n_guests n k) (n_chan n own k @ frames_to k (pre @ effs)) (n_chan n1 k own) (k \<in> n_opened n)"
    proof (cases "k = author")
      case True
      with a [OF _ hash o2(1-3,5)] k fr up show ?thesis by simp
    next
      case False
      then show ?thesis
        unfolding fr up
        using member_ok_append [OF net_okE(7) [OF n k] _ ops, of author o2 hash "o_rev (n_owner n) + 1"]
          o2 hash net_okE(1,2) [OF n] by (simp add: owner_ok_def)
    qed
  qed (use net_okE(2) [OF n] o2 ops h pre n1 in \<open>auto simp: owner_ok_def run_ops_append\<close>)
qed

lemma step_owner_edits:
  assumes n: "net_ok base own n" and e: "buffer_edit (s_text (n_owner n)) changes text"
    and c: "owner_changed text changes (n_owner n) = (o1, effs)"
  shows "net_ok base own (relay own effs (n\<lparr>n_owner := o1\<rparr>))"
proof -
  obtain ops where ops: "changed_ops text changes = Inr ops" "wf_ops ops" "op_sem ops (s_text (n_owner n)) = Some text"
    using changed_ops_sem [of "s_text (n_owner n)" changes "text"] e by (auto simp: buffer_edit_def)
  from c ops(1) net_okE(1) [OF n] have b: "owner_broadcast ops own ((n_owner n)\<lparr>s_text := text\<rparr>) = (o1, effs)"
    by (simp add: owner_changed_def Let_def)
  from net_ok_sequence [OF n ops(2,3) _ _ _ _ _ _ b, of "[]" n] net_okE(1) [OF n] show ?thesis by simp
qed

text \<open>A member's frames reach the owner.\<close>

lemma step_up_open:
  assumes n: "net_ok base own n" and h: "h \<noteq> own" "n_chan n h own = BOpen # bs"
  shows "net_ok base own (deliver_owner ed names h BOpen (take_frame h own n))"
proof -
  let ?o = "n_owner n"
  from net_okE(7) [OF n h(1)] h(2) have w: "n_guests n h = None" "bs = []" "list_all harmless (n_chan n own h)" "h \<in> n_opened n"
    by (auto simp: member_ok_def waiting_def admitted_def live_def split: option.splits)
  show ?thesis
  proof (cases "h \<in> o_allowed ?o")
    case False
    then have "deliver_owner ed names h BOpen (take_frame h own n) = take_frame h own n"
      using net_okE(1) [OF n] by (simp add: deliver_owner_def owner_receive_def frame_def relay_def take_frame_def)
    moreover have "net_ok base own (take_frame h own n)"
      unfolding net_ok_def using net_okE [OF n] h w by (auto simp: member_ok_def waiting_def)
    ultimately show ?thesis by simp
  next
    case True
    define o2 where "o2 = ?o\<lparr>o_roster := insert h (o_roster ?o)\<rparr>"
    have d: "deliver_owner ed names h BOpen (take_frame h own n)
        = relay own [owner_snapshot h ?o] ((take_frame h own n)\<lparr>n_owner := o2\<rparr>)"
      using True net_okE(1) [OF n] by (simp add: deliver_owner_def owner_receive_def frame_def o2_def)
    have f: "frames_to y [owner_snapshot h ?o] = (if y = h then [BSnapshot (o_rev ?o) (s_text ?o)] else [])" for y
      by (simp add: owner_snapshot_def)
    have "admitted o2 h (n_chan n own h @ [BSnapshot (o_rev ?o) (s_text ?o)]) [] True"
      unfolding admitted_def
      by (intro conjI exI [of _ "n_chan n own h"] exI [of _ "o_rev ?o"] exI [of _ "s_text ?o"] exI [of _ "[]"])
        (use w net_okE(2) [OF n] in \<open>auto simp: o2_def owner_ok_def intro!: linked_new\<close>)
    moreover have "member_ok o2 k (n_guests n k) (n_chan n own k) (n_chan n k own) (k \<in> n_opened n)" if "k \<noteq> own" for k
      by (rule member_ok_owner [OF _ _ _ _ _ net_okE(7) [OF n that]]) (auto simp: o2_def)
    ultimately have m: "member_ok o2 k (n_guests n k) (n_chan n own k @ frames_to k [owner_snapshot h ?o])
        (n_chan (take_frame h own n) k own) (k \<in> n_opened n)" if "k \<noteq> own" for k
      unfolding f using that w h by (cases "k = h") (auto simp: member_ok_def [of o2 h])
    show ?thesis
      unfolding d
      by (rule net_ok_owner_posts [OF n _ _ _ _ _ _ _ _ _ m])
        (use h net_okE(1,2) [OF n] in \<open>simp_all add: owner_snapshot_def o2_def owner_ok_def\<close>)
  qed
qed

lemma step_up_ops:
  assumes n: "net_ok base own n" and h: "h \<noteq> own" "n_chan n h own = BOps r x0 a hash # bs"
    and ed: "simultaneous_edits ed"
  shows "net_ok base own (deliver_owner ed names h (BOps r x0 a hash) (take_frame h own n))"
proof -
  let ?o = "n_owner n"
  from net_okE(7) [OF n h(1)] h(2) obtain g where g: "n_guests n h = Some g"
    and l: "live ?o h g (n_chan n own h) (BOps r x0 a hash # bs) (h \<in> n_opened n)"
    by (auto simp: member_ok_def waiting_def admitted_def split: option.splits)
  then have link: "linked (o_history ?o) (s_text ?o) h g (ops_of (n_chan n own h)) ((r, x0, a, hash) # ops_of bs)"
    and mem: "h \<in> n_opened n" "h \<in> o_roster ?o" "list_all harmless (n_chan n own h)" "list_all harmless bs"
      "g_owner g = own"
    using net_okE(1) [OF n] by (simp_all add: live_def)
  from link have "a = h" "hash = None" by (auto simp: linked_def flight_def sent_def acked_def split: option.splits)
  with link have "linked (o_history ?o) (s_text ?o) h g (ops_of (n_chan n own h)) ((r, x0, h, None) # ops_of bs)" by simp
  then obtain x' t' hs where U: "ops_of bs = []" and r: "0 \<le> r" "r \<le> int (length (o_history ?o))"
    and x: "xform_through transform (drop (nat r) (o_history ?o)) x0 = Inr (hs, x')" "wf_ops x'"
      "op_sem x' (s_text ?o) = Some t'"
    and nx: "\<And>k. k = None \<or> k = Some (docHash t') \<Longrightarrow>
      linked (o_history ?o @ [x']) t' h g (ops_of (n_chan n own h) @ [(int (length (o_history ?o)) + 1, x', h, k)]) []"
    by (rule linked_own) blast
  have rv: "o_rev ?o = int (length (o_history ?o))" using net_okE(2) [OF n] by (simp add: owner_ok_def)
  define o1 where "o1 = applyRemote ed x' ?o"
  have o1: "s_text o1 = t'" "o_history o1 = o_history ?o" "s_self o1 = own" "s_doc o1 = s_doc ?o" "o_rev o1 = o_rev ?o"
    "o_roster o1 = o_roster ?o"
    using applyToModel_sem [OF ed x(2,3)] net_okE(1) [OF n] by (simp_all add: o1_def applyRemote_def)
  obtain o2 effs where b: "owner_broadcast x' h o1 = (o2, effs)" by fastforce
  have "owner_receive ed (frame names (s_doc ?o) h own (BOps r x0 a hash)) ?o = (o2, OnCursors # effs)"
    using mem r rv forward_loop_through [OF x(1) r(1) _ refl] b
    by (simp add: owner_receive_def frame_def o1_def)
  then have d: "deliver_owner ed names h (BOps r x0 a hash) (take_frame h own n)
      = relay own ([OnCursors] @ effs) ((take_frame h own n)\<lparr>n_owner := o2\<rparr>)"
    using net_okE(1) [OF n] by (simp add: deliver_owner_def)
  show ?thesis
    unfolding d
  proof (rule net_ok_sequence [OF n x(2,3) o1(2,1,3,4,5,6) b])
    fix k assume k: "k = None \<or> k = Some (docHash t')"
      and o2: "o_history o2 = o_history ?o @ [x']" "s_text o2 = t'" "s_self o2 = own" "o_roster o2 = o_roster ?o"
    show "member_ok o2 h (n_guests n h) (n_chan n own h @ [BOps (o_rev ?o + 1) x' h k]) (tl (n_chan n h own))
        (h \<in> n_opened n)"
      using nx [OF k] mem o2 g h(2) U rv by (simp add: member_ok_def live_def)
  qed (use h in auto)
qed

lemma step_up_cursor:
  assumes n: "net_ok base own n" and h: "h \<noteq> own" "n_chan n h own = b # bs" "no_op b"
  shows "net_ok base own (deliver_owner ed names h b (take_frame h own n))"
proof -
  let ?o = "n_owner n"
  obtain o2 effs where r: "owner_receive ed (frame names (s_doc ?o) h own b) ?o = (o2, effs)" by fastforce
  then have d: "deliver_owner ed names h b (take_frame h own n) = relay own effs ((take_frame h own n)\<lparr>n_owner := o2\<rparr>)"
    using net_okE(1) [OF n] by (simp add: deliver_owner_def)
  from r h(3) have o2: "o_history o2 = o_history ?o" "s_text o2 = s_text ?o" "s_self o2 = s_self ?o" "s_doc o2 = s_doc ?o"
    "o_rev o2 = o_rev ?o" "o_roster o2 = o_roster ?o" and e: "effs = [] \<or> effs = [OnCursors]"
    by (auto simp: owner_receive_def frame_def no_op_def noteCursor_def split: body.splits if_splits)
  show ?thesis
    unfolding d
  proof (rule net_ok_owner_posts [OF n])
    fix k assume k: "k \<noteq> own"
    have "ops_of (b # bs) = ops_of bs" using h(3) ops_of_append [of "[b]" bs] by (simp add: no_op_def)
    then have "member_ok ?o k (n_guests n k) (n_chan n own k) (n_chan (take_frame h own n) k own) (k \<in> n_opened n)"
      using net_okE(7) [OF n k] h
      by (cases "k = h") (auto simp: member_ok_def waiting_def admitted_def live_def no_op_def split: option.splits body.splits)
    then have "member_ok o2 k (n_guests n k) (n_chan n own k) (n_chan (take_frame h own n) k own) (k \<in> n_opened n)"
      by (rule member_ok_owner [rotated 5]) (use o2 in simp_all)
    moreover have "frames_to k effs = []" using e by auto
    ultimately show "member_ok o2 k (n_guests n k) (n_chan n own k @ frames_to k effs)
        (n_chan (take_frame h own n) k own) (k \<in> n_opened n)" by simp
  qed (use net_okE(1,2) [OF n] o2 e h in \<open>auto simp: owner_ok_def\<close>)
qed

lemma step_up:
  assumes n: "net_ok base own n" and h: "n_chan n h own = b # bs" and ed: "simultaneous_edits ed"
  shows "net_ok base own (deliver ed names h own b (take_frame h own n))"
proof -
  have h': "h \<noteq> own" using net_okE(4) [OF n] h by auto
  with net_okE(7) [OF n h'] h consider "b = BOpen" | "no_op b" | r x0 a hash where "b = BOps r x0 a hash"
    by (cases b) (auto simp: member_ok_def waiting_def admitted_def live_def no_op_def split: option.splits)
  then show ?thesis
    using step_up_open [OF n h'] step_up_cursor [OF n h'] step_up_ops [OF n h' _ ed] h net_okE(1) [OF n]
    by cases (simp_all add: deliver_def)
qed


text \<open>A member's handlers.\<close>

lemma net_ok_member:
  assumes n: "net_ok base own n" and h: "h \<noteq> own" and e: "list_all calm effs"
      "\<And>k. k \<noteq> own \<Longrightarrow> list_all is_cursor (frames_to k effs)"
    and n1: "n_owner n1 = n_owner n" "\<And>k. k \<noteq> h \<Longrightarrow> n_guests n1 k = n_guests n k" "own \<notin> n_offered n1"
      "n_log n1 = n_log n" "\<And>k. k \<noteq> h \<Longrightarrow> k \<in> n_opened n1 \<longleftrightarrow> k \<in> n_opened n"
      "\<And>a b. a \<noteq> own \<or> b \<noteq> h \<Longrightarrow> n_chan n1 a b = n_chan n a b \<or> a \<noteq> own \<and> n_chan n1 a b = tl (n_chan n a b) \<and> b \<noteq> own"
    and m: "member_ok (n_owner n) h (n_guests n1 h) (n_chan n1 own h) (n_chan n h own @ frames_to own effs) (h \<in> n_opened n1)"
  shows "net_ok base own (relay h effs n1)"
  unfolding net_ok_def
proof (intro conjI allI impI)
  fix k assume k: "k \<noteq> own"
  have c: "n_chan n1 own k = n_chan n own k" if "k \<noteq> h" using n1(6) [of own k] that by auto
  have u: "n_chan n1 k own = n_chan n k own" using n1(6) [of k own] k by auto
  show "member_ok (n_owner (relay h effs n1)) k (n_guests (relay h effs n1) k) (n_chan (relay h effs n1) own k)
      (n_chan (relay h effs n1) k own) (k \<in> n_opened (relay h effs n1))"
    using m net_okE(7) [OF n k] n1(1,2,5) h k c u by (cases "k = h") (simp_all)
next
  fix a b assume a: "a \<noteq> own" "b \<noteq> own"
  have "list_all is_cursor (n_chan n1 a b)"
    using n1(6) [of a b] a net_okE(8) [OF n a] by (cases "n_chan n a b") auto
  with e(2) [OF a(2)] show "list_all is_cursor (n_chan (relay h effs n1) a b)" by (cases "a = h \<and> b \<noteq> h") auto
next
  show "n_chan (relay h effs n1) own own = []" using n1(6) [of own own] h net_okE(4) [OF n] by auto
next
  show "n_guests (relay h effs n1) own = None" using n1(2) [of own] h net_okE(3) [OF n] by auto
qed (use net_okE(1,2,6) [OF n] n1 e in simp_all)

text \<open>A flush sends to the owner, and only the entries \<open>flush_sends\<close> names.\<close>

lemma flush_frames:
  "list_all calm (snd (guest_flush g))"
  "k \<noteq> g_owner g \<Longrightarrow> frames_to k (snd (guest_flush g)) = []"
  "ops_of (frames_to (g_owner g) (snd (guest_flush g))) = flush_sends g"
  "list_all harmless (frames_to (g_owner g) (snd (guest_flush g)))"
  by (auto simp: guest_flush_sends flush_sends_def split: option.splits list.splits)

lemma net_ok_liveE:
  assumes "net_ok base own n" "n_guests n h = Some g"
  obtains "h \<noteq> own" "h \<in> n_opened n" "h \<in> o_roster (n_owner n)" "list_all harmless (n_chan n own h)"
    "list_all harmless (n_chan n h own)" "g_owner g = own"
    "linked (o_history (n_owner n)) (s_text (n_owner n)) h g (ops_of (n_chan n own h)) (ops_of (n_chan n h own))"
proof -
  from net_okE(3) [OF assms(1)] assms(2) have "h \<noteq> own" by auto
  with net_okE(1) [OF assms(1)] net_okE(7) [OF assms(1) this] assms(2) that show thesis
    by (simp add: member_ok_def live_def)
qed

lemma step_guest_edits:
  assumes n: "net_ok base own n" and g: "n_guests n h = Some g" and e: "buffer_edit (s_text g) changes text"
    and c: "guest_changed text changes g = (g', effs)"
  shows "net_ok base own (relay h effs (set_guest h g' n))"
proof -
  obtain ops where ops: "changed_ops text changes = Inr ops" "wf_ops ops" "op_sem ops (s_text g) = Some text"
    using changed_ops_sem [of "s_text g" changes "text"] e by (auto simp: buffer_edit_def)
  obtain h: "h \<noteq> own" and mem: "h \<in> n_opened n" "h \<in> o_roster (n_owner n)" "list_all harmless (n_chan n own h)"
    "list_all harmless (n_chan n h own)" "g_owner g = own"
    and l: "linked (o_history (n_owner n)) (s_text (n_owner n)) h g (ops_of (n_chan n own h)) (ops_of (n_chan n h own))"
    by (rule net_ok_liveE [OF n g])
  define g1 where "g1 = g\<lparr>s_text := text, g_queued := g_queued g @ [ops]\<rparr>"
  from l have "\<not> g_orphaned g" by (simp add: linked_def)
  with c ops(1) have g': "g' = fst (guest_flush g1)" "effs = snd (guest_flush g1)"
    by (simp_all add: guest_changed_def Let_def g1_def)
  have g1: "g_owner g1 = own" "g_owner g' = own" using mem by (simp_all add: g1_def g' flush_frame)
  show ?thesis
  proof (rule net_ok_member [OF n h])
    show "member_ok (n_owner n) h (n_guests (set_guest h g' n) h) (n_chan (set_guest h g' n) own h)
        (n_chan n h own @ frames_to own effs) (h \<in> n_opened (set_guest h g' n))"
      using linked_edit [OF l ops(2,3), folded g1_def] mem flush_frames [where g = g1] g1 net_okE(1) [OF n]
      by (simp add: member_ok_def live_def g')
  qed (use net_okE(5) [OF n] flush_frames [where g = g1] g' g1 h in \<open>auto\<close>)
qed

text \<open>A frame reaches a member.\<close>

lemma member_without_session:
  assumes "member_ok o1 h None (b # down) up opened" "\<And>rv t. b \<noteq> BSnapshot rv t"
  shows "member_ok o1 h None down up opened"
proof -
  from assms(1) consider "waiting (b # down) up opened" | "admitted o1 h (b # down) up opened" by (auto simp: member_ok_def)
  then show ?thesis
  proof cases
    case 2
    then obtain pre rv snap post where "b # down = pre @ BSnapshot rv snap # post" "list_all harmless pre"
      "list_all harmless post" "up = []" "opened" "h \<in> o_roster o1"
      "linked (o_history o1) (s_text o1) h (new_guest (s_doc o1) h snap (s_self o1) rv) (ops_of post) []"
      unfolding admitted_def by blast
    with assms(2) have "admitted o1 h down up opened" unfolding admitted_def by (cases pre) auto
    then show ?thesis by (simp add: member_ok_def)
  qed (auto simp: member_ok_def waiting_def)
qed


lemma ops_of_no_op: "no_op b \<Longrightarrow> ops_of (b # bs) = ops_of bs"
  using ops_of_append [of "[b]" bs] by (simp add: no_op_def)

lemma no_op_cases:
  assumes "harmless b"
  obtains "no_op b" | rv ops author hash where "b = BOps rv ops author hash"
  using assms by (cases b) (auto simp: no_op_def)

lemma linked_cursors [simp]: "linked hist t h (g\<lparr>s_cursors := c\<rparr>) D U \<longleftrightarrow> linked hist t h g D U"
  by (rule linked_only_texts) simp_all

lemma guest_receive_no_op:
  assumes "no_op b" "guest_receive ed (frame names doc from to b) g = (g', effs)"
  shows "linked hist t h g' D U \<longleftrightarrow> linked hist t h g D U" "g_owner g' = g_owner g" "effs = [] \<or> effs = [OnCursors]"
  using assms
  by (auto simp: guest_receive_def frame_def no_op_def noteCursor_def split: body.splits if_splits)

lemma step_down_session:
  assumes n: "net_ok base own n" and b: "n_chan n own h = b # bs" and g: "n_guests n h = Some g"
    and r: "guest_receive ed (frame names (s_doc g) own h b) g = (g', effs)" and ed: "simultaneous_edits ed"
  shows "net_ok base own (relay h effs (set_guest h g' (take_frame own h n)))"
proof -
  obtain h: "h \<noteq> own" and mem: "h \<in> n_opened n" "h \<in> o_roster (n_owner n)" "list_all harmless (n_chan n own h)"
    "list_all harmless (n_chan n h own)" "g_owner g = own"
    and l: "linked (o_history (n_owner n)) (s_text (n_owner n)) h g (ops_of (n_chan n own h)) (ops_of (n_chan n h own))"
    by (rule net_ok_liveE [OF n g])
  have "list_all calm effs \<and> (\<forall>k. k \<noteq> own \<longrightarrow> frames_to k effs = []) \<and> g_owner g' = own
      \<and> list_all harmless (frames_to own effs)
      \<and> linked (o_history (n_owner n)) (s_text (n_owner n)) h g' (ops_of bs) (ops_of (n_chan n h own @ frames_to own effs))"
  proof (rule no_op_cases [of b])
    show "harmless b" using mem b by simp
  next
    assume no: "no_op b"
    note f = guest_receive_no_op [OF no r]
    from l b have "linked (o_history (n_owner n)) (s_text (n_owner n)) h g (ops_of bs) (ops_of (n_chan n h own))"
      by (simp add: ops_of_no_op [OF no])
    moreover have "list_all calm effs" "frames_to k effs = []" for k using f(3) by auto
    ultimately show ?thesis using f(1,2) mem by simp
  next
    fix rv ops author hash assume bo: "b = BOps rv ops author hash"
    have m: "m_body (frame names (s_doc g) own h b) = BOps rv ops author hash" by (simp add: frame_def bo)
    show ?thesis
    proof (cases "author = h")
      case False
      from l b bo have "linked (o_history (n_owner n)) (s_text (n_owner n)) h g ((rv, ops, author, hash) # ops_of bs)
          (ops_of (n_chan n h own))" by simp
      then obtain g2 where "guest_receive ed (frame names (s_doc g) own h b) g = (g2, [OnCursors])"
        "linked (o_history (n_owner n)) (s_text (n_owner n)) h g2 (ops_of bs) (ops_of (n_chan n h own))"
        "g_owner g2 = g_owner g"
        by (rule linked_down_other [OF _ False ed m])
      with r mem show ?thesis by auto
    next
      case True
      from l b bo True have "linked (o_history (n_owner n)) (s_text (n_owner n)) h g ((rv, ops, h, hash) # ops_of bs)
          (ops_of (n_chan n h own))" by simp
      then obtain g1 g2 where g1: "g1 = g\<lparr>g_rev := rv, g_outstanding := None\<rparr>"
        and g2: "guest_receive ed (frame names (s_doc g) own h b) g = (g2, snd (guest_flush g1))" "ops_of (n_chan n h own) = []"
        "linked (o_history (n_owner n)) (s_text (n_owner n)) h g2 (ops_of bs) (flush_sends g1)" "g_owner g2 = g_owner g"
        by (rule linked_down_own [OF _ m [unfolded True]])
      from g1 mem have o1: "g_owner g1 = own" by simp
      note ff = flush_frames [where g = g1, unfolded o1]
      from r g2(1) have "g' = g2" "effs = snd (guest_flush g1)" by simp_all
      with g2 ff mem show ?thesis by simp
    qed
  qed
  with n h mem b g show ?thesis
    by (intro net_ok_member [OF n h]) (auto simp: member_ok_def live_def net_okE [OF n])
qed

lemma step_down_no_session:
  assumes n: "net_ok base own n" and b: "n_chan n own h = b # bs" and g: "n_guests n h = None"
  shows "net_ok base own (deliver_guest ed names own h b (take_frame own h n))"
proof -
  let ?o = "n_owner n"
  have h: "h \<noteq> own" using net_okE(4) [OF n] b by auto
  have m: "member_ok ?o h None (b # bs) (n_chan n h own) (h \<in> n_opened n)"
    using net_okE(7) [OF n h] b g by simp
  have drop: "net_ok base own n'" if n': "n' = relay h [] (take_frame own h n) \<or> b \<noteq> BOpen \<and> n' = relay h [] ((take_frame own h n)\<lparr>n_offered := insert h (n_offered n)\<rparr>)"
    and mm: "member_ok ?o h None bs (n_chan n h own) (h \<in> n_opened n)" for n'
    using n' by (elim disjE conjE; hypsubst; intro net_ok_member [OF n h])
      (use mm g b h net_okE(5) [OF n] in auto)
  have rel: "relay h [] k = k" for k by (simp add: relay_def)
  show ?thesis
  proof (cases "\<exists>rv t. b = BSnapshot rv t")
    case False
    from member_without_session [OF m] False have mm: "member_ok ?o h None bs (n_chan n h own) (h \<in> n_opened n)" by blast
    have "deliver_guest ed names own h b (take_frame own h n) = take_frame own h n
        \<or> b \<noteq> BOpen \<and> deliver_guest ed names own h b (take_frame own h n) = (take_frame own h n)\<lparr>n_offered := insert h (n_offered n)\<rparr>"
      using g False by (cases b) (simp_all add: deliver_guest_def)
    then show ?thesis using drop [OF _ mm] unfolding rel by blast
  next
    case True
    then obtain rv t where bt: "b = BSnapshot rv t" by blast
    with m have a: "admitted ?o h (BSnapshot rv t # bs) (n_chan n h own) (h \<in> n_opened n)"
      by (auto simp: member_ok_def waiting_def)
    then obtain pre r snap post where p: "BSnapshot rv t # bs = pre @ BSnapshot r snap # post" "list_all harmless pre"
      "list_all harmless post" "n_chan n h own = []" "h \<in> n_opened n" "h \<in> o_roster ?o"
      "linked (o_history ?o) (s_text ?o) h (new_guest (s_doc ?o) h snap (s_self ?o) r) (ops_of post) []"
      unfolding admitted_def by blast
    then have "pre = []" by (cases pre) auto
    with p have pb: "r = rv" "snap = t" "post = bs" by auto
    show ?thesis
    proof (cases "h \<in> n_offered n")
      case False
      then have "deliver_guest ed names own h b (take_frame own h n) = take_frame own h n"
        using g bt by (simp add: deliver_guest_def)
      moreover have "member_ok ?o h None bs (n_chan n h own) (h \<in> n_opened n)"
        using p pb by (simp add: member_ok_def waiting_def)
      ultimately show ?thesis using drop unfolding rel by blast
    next
      case True
      define n1 where "n1 = (set_guest h (new_guest (s_doc ?o) h t own rv) (take_frame own h n))\<lparr>n_offered := n_offered n - {h}\<rparr>"
      have d: "deliver_guest ed names own h b (take_frame own h n) = relay h [] n1"
        using g bt True net_okE(1) [OF n] by (simp add: deliver_guest_def rel n1_def)
      show ?thesis
        unfolding d
        by (rule net_ok_member [OF n h])
          (use p pb g b h bt net_okE(1,5) [OF n] in \<open>auto simp: n1_def member_ok_def live_def new_guest_def\<close>)
    qed
  qed
qed

text \<open>A caret from another member.\<close>

lemma step_down_cursor:
  assumes n: "net_ok base own n" and h: "h \<noteq> own" "a \<noteq> own" and b: "n_chan n a h = b # bs"
  shows "net_ok base own (deliver_guest ed names a h b (take_frame a h n))"
proof -
  have cur: "is_cursor b" using net_okE(8) [OF n h(2,1)] b by simp
  then have no: "no_op b" by (cases b) (simp_all add: no_op_def)
  have chan: "n_chan (take_frame a h n) own k = n_chan n own k" "n_chan (take_frame a h n) k own = n_chan n k own" for k
    using h by auto
  show ?thesis
  proof (cases "n_guests n h")
    case None
    with cur have "deliver_guest ed names a h b (take_frame a h n) = relay h [] (take_frame a h n)"
      by (cases b) (simp_all add: deliver_guest_def relay_def)
    moreover have "net_ok base own (relay h [] (take_frame a h n))"
      by (rule net_ok_member [OF n h(1)]) (use h b None net_okE(5) [OF n] net_okE(7) [OF n h(1)] in auto)
    ultimately show ?thesis by simp
  next
    case (Some g)
    obtain g' effs where r: "guest_receive ed (frame names (s_doc g) a h b) g = (g', effs)" by fastforce
    note f = guest_receive_no_op [OF no r]
    have d: "deliver_guest ed names a h b (take_frame a h n) = relay h effs (set_guest h g' (take_frame a h n))"
      using Some r by (simp add: deliver_guest_def)
    have e: "list_all calm effs" "\<And>k. frames_to k effs = []" using f(3) by auto
    show ?thesis
      unfolding d
      by (rule net_ok_member [OF n h(1)])
        (use h b Some f e net_okE(5) [OF n] net_okE(7) [OF n h(1)] in \<open>auto simp: member_ok_def live_def\<close>)
  qed
qed

theorem net_ok_step:
  assumes s: "net_step ed names n n'" and n: "net_ok base own n" and ed: "simultaneous_edits ed"
  shows "net_ok base own n'"
  using s
proof cases
  case (owner_edits changes content o1 effs)
  with step_owner_edits [OF n] net_okE(1) [OF n] show ?thesis by simp
next
  case (guest_edits h g changes content g' effs)
  with step_guest_edits [OF n] show ?thesis by simp
next
  case (owner_offers h name lang o1 effs)
  have "net_ok base own (relay own effs (n\<lparr>n_owner := o1\<rparr>))"
    by (rule net_ok_owner_idle [OF n]) (use owner_offers in \<open>auto simp: owner_offerTo_def no_op_def\<close>)
  with owner_offers net_okE(1) [OF n] show ?thesis by simp
next
  case (member_opens h)
  have h: "h \<noteq> own" using member_opens net_okE(5) [OF n] by auto
  from net_okE(7) [OF n h] member_opens have w: "n_guests n h = None" "list_all harmless (n_chan n own h)" "n_chan n h own = []"
    by (auto simp: member_ok_def waiting_def admitted_def live_def split: option.splits)
  show ?thesis
    unfolding member_opens(1)
    by (rule net_ok_member [OF n h]) (use w net_okE(1,5) [OF n] in \<open>auto simp: member_ok_def waiting_def\<close>)
next
  case (owner_cursor anchor head)
  have "n\<lparr>n_owner := n_owner n\<rparr> = n" by simp
  with owner_cursor net_ok_owner_idle [OF n, of "n_owner n" "owner_sendCursor anchor head (n_owner n)"] net_okE(1) [OF n]
  show ?thesis by (simp add: owner_sendCursor_def no_op_def)
next
  case (guest_cursor h g anchor head)
  obtain h: "h \<noteq> own" and mem: "h \<in> n_opened n" "h \<in> o_roster (n_owner n)" "list_all harmless (n_chan n own h)"
    "list_all harmless (n_chan n h own)" "g_owner g = own"
    and l: "linked (o_history (n_owner n)) (s_text (n_owner n)) h g (ops_of (n_chan n own h)) (ops_of (n_chan n h own))"
    by (rule net_ok_liveE [OF n guest_cursor(2)])
  show ?thesis
    unfolding guest_cursor(1)
    by (rule net_ok_member [OF n h])
      (use mem l guest_cursor(2) net_okE(1,5) [OF n] in \<open>auto simp: guest_sendCursor_def member_ok_def live_def\<close>)
next
  case (owner_saves o1 effs)
  have "net_ok base own (relay own effs (n\<lparr>n_owner := o1\<rparr>))"
    by (rule net_ok_owner_idle [OF n]) (use owner_saves in \<open>auto simp: markSaved_def no_op_def split: if_splits\<close>)
  with owner_saves net_okE(1) [OF n] show ?thesis by simp
next
  case (delivers src dst b bs)
  show ?thesis
  proof (cases "dst = own")
    case True
    with delivers step_up [OF n _ ed] show ?thesis by simp
  next
    case dst: False
    then have d: "n' = deliver_guest ed names src dst b (take_frame src dst n)"
      using delivers net_okE(1) [OF n] by (simp add: deliver_def)
    show ?thesis
    proof (cases "src = own")
      case False
      show ?thesis
        unfolding d by (rule step_down_cursor [OF n dst False]) (rule delivers(2))
    next
      case own: True
      show ?thesis
      proof (cases "n_guests n dst")
        case None
        show ?thesis
          unfolding d own by (rule step_down_no_session [OF n delivers(2) [unfolded own] None])
      next
        case (Some g)
        obtain g' effs where r: "guest_receive ed (frame names (s_doc g) own dst b) g = (g', effs)" by fastforce
        have "net_ok base own (relay dst effs (set_guest dst g' (take_frame own dst n)))"
          by (rule step_down_session [OF n delivers(2) [unfolded own] Some r ed])
        with Some r show ?thesis unfolding d own by (simp add: deliver_guest_def)
      qed
    qed
  qed
qed

section \<open>Running the network\<close>

datatype action =
    OwnerEdits "16 word change list"
  | GuestEdits string "16 word change list"
  | OwnerOffers string js_string "string option"
  | MemberOpens string
  | OwnerCursor int int
  | GuestCursor string int int
  | OwnerSaves
  | Delivers string string

definition edited_text :: "js_string \<Rightarrow> 16 word change list \<Rightarrow> js_string option" where
  "edited_text text changes =
     (let cs = sort_key rangeOffset changes
      in if changes_fit 0 (int (length text)) cs then Some (foldr apply_change cs text) else None)"

fun net_act :: "editor \<Rightarrow> (string \<Rightarrow> string) \<Rightarrow> action \<Rightarrow> net \<Rightarrow> net option" where
  "net_act ed names (OwnerEdits changes) n =
     (case edited_text (s_text (n_owner n)) changes of
        None \<Rightarrow> None
      | Some text \<Rightarrow>
          (case owner_changed text changes (n_owner n) of
             (o1, effs) \<Rightarrow> Some (relay (s_self (n_owner n)) effs (n\<lparr>n_owner := o1\<rparr>))))"
| "net_act ed names (GuestEdits h changes) n =
     (case n_guests n h of
        None \<Rightarrow> None
      | Some g \<Rightarrow>
          (case edited_text (s_text g) changes of
             None \<Rightarrow> None
           | Some text \<Rightarrow>
               (case guest_changed text changes g of (g', effs) \<Rightarrow> Some (relay h effs (set_guest h g' n)))))"
| "net_act ed names (OwnerOffers h name lang) n =
     (if h = s_self (n_owner n) then None
      else case owner_offerTo h name lang (n_owner n) of
             (o1, effs) \<Rightarrow> Some (relay (s_self (n_owner n)) effs (n\<lparr>n_owner := o1\<rparr>)))"
| "net_act ed names (MemberOpens h) n =
     (if h \<in> n_offered n \<and> h \<notin> n_opened n
      then Some (relay h [Send (Some (s_self (n_owner n))) (s_doc (n_owner n)) BOpen]
             (n\<lparr>n_opened := insert h (n_opened n)\<rparr>))
      else None)"
| "net_act ed names (OwnerCursor anchor head) n =
     Some (relay (s_self (n_owner n)) (owner_sendCursor anchor head (n_owner n)) n)"
| "net_act ed names (GuestCursor h anchor head) n =
     (case n_guests n h of None \<Rightarrow> None | Some g \<Rightarrow> Some (relay h (guest_sendCursor anchor head g) n))"
| "net_act ed names OwnerSaves n =
     (case markSaved (n_owner n) of (o1, effs) \<Rightarrow> Some (relay (s_self (n_owner n)) effs (n\<lparr>n_owner := o1\<rparr>)))"
| "net_act ed names (Delivers from to) n =
     (case n_chan n from to of [] \<Rightarrow> None | b # _ \<Rightarrow> Some (deliver ed names from to b (take_frame from to n)))"

definition net_run :: "editor \<Rightarrow> (string \<Rightarrow> string) \<Rightarrow> action list \<Rightarrow> net \<Rightarrow> net option" where
  "net_run ed names acts n = run_ops (net_act ed names) acts n"

lemma net_act_step: "net_act ed names a n = Some n' \<Longrightarrow> net_step ed names n n'"
  by (cases a)
    (auto simp: edited_text_def buffer_edit_def Let_def intro: net_step.intros split: option.splits if_splits prod.splits list.splits)

lemma net_run_reachable: "net_run ed names acts n = Some n' \<Longrightarrow> reachable ed names o1 n \<Longrightarrow> reachable ed names o1 n'"
  unfolding net_run_def
proof (induction acts arbitrary: n)
  case (Cons a acts)
  then obtain n1 where "net_act ed names a n = Some n1" "run_ops (net_act ed names) acts n1 = Some n'"
    by (auto simp: bind_eq_Some_conv)
  with Cons.IH [of n1] reachable.step [OF Cons.prems(2) net_act_step] show ?case by blast
qed simp

lemma net_ok_start: "net_ok text own (net_start (new_owner doc own text path))"
  by (auto simp: net_ok_def net_start_def new_owner_def owner_ok_def member_ok_def waiting_def)

lemma net_ok_reachable:
  "reachable ed names (new_owner doc own text path) n \<Longrightarrow> simultaneous_edits ed \<Longrightarrow> net_ok text own n"
  by (induction rule: reachable.induct) (auto intro: net_ok_start net_ok_step)

definition quiet :: "string \<Rightarrow> net \<Rightarrow> bool" where
  "quiet h n \<longleftrightarrow> ops_of (n_chan n (s_self (n_owner n)) h) = [] \<and> ops_of (n_chan n h (s_self (n_owner n))) = []"

definition demo_owner :: owner where
  "demo_owner = new_owner ''d'' ''o'' (js ''ab'') ''/p''"

definition demo_acts :: "action list" where
  "demo_acts =
     [OwnerOffers ''g'' (js ''f'') None, Delivers ''o'' ''g'', MemberOpens ''g'', Delivers ''g'' ''o'', Delivers ''o'' ''g'',
      GuestEdits ''g'' [\<lparr>rangeOffset = 1, rangeLength = 0, ch_text = js ''X''\<rparr>],
      OwnerEdits [\<lparr>rangeOffset = 1, rangeLength = 1, ch_text = js ''Y''\<rparr>],
      Delivers ''g'' ''o'', Delivers ''o'' ''g'', Delivers ''o'' ''g'']"

definition demo_net :: net where
  "demo_net = the (net_run reference_editor (\<lambda>_. []) demo_acts (net_start demo_owner))"

lemma demo_run:
  "case net_run reference_editor (\<lambda>_. []) demo_acts (net_start demo_owner) of
     None \<Rightarrow> False
   | Some n \<Rightarrow> quiet ''g'' n \<and> n_guests n ''g'' \<noteq> None \<and> s_text (n_owner n) = js ''aYX'' \<and> length (n_log n) = 9
       \<and> o_rev (n_owner n) = 2"
  by code_simp

lemma demo_net:
  "net_run reference_editor (\<lambda>_. []) demo_acts (net_start demo_owner) = Some demo_net"
  "quiet ''g'' demo_net" "n_guests demo_net ''g'' \<noteq> None" "s_text (n_owner demo_net) = js ''aYX''"
  "length (n_log demo_net) = 9" "o_rev (n_owner demo_net) = 2"
  using demo_run by (auto simp: demo_net_def split: option.splits)

lemma demo_reachable: "reachable reference_editor (\<lambda>_. []) demo_owner demo_net"
  using net_run_reachable [OF demo_net(1) reachable.start] .





lemma run_ops_apply:
  "list_all wf_ops hist \<Longrightarrow> run_ops op_sem hist d = Some t \<Longrightarrow>
   foldl (\<lambda>r ops. rbind r (\<lambda>d. apply_ops d ops)) (Inr d) hist = Inr t"
proof (induction hist arbitrary: d)
  case (Cons ops hist)
  then obtain d' where "op_sem ops d = Some d'" "run_ops op_sem hist d' = Some t" by (auto simp: bind_eq_Some_conv)
  with Cons show ?case using apply_ops_sem [of ops d d'] by simp
qed simp

text \<open>the owner's history is the document: replaying it on the text it shared, with the
  code's own \<^verbatim>\<open>applyOps\<close>, gives the owner's present text without an error, and the
  revision counts its entries.\<close>

theorem owner_history_replays:
  assumes "simultaneous_edits ed" "reachable ed names (new_owner doc own text path) n"
  shows "foldl (\<lambda>r ops. rbind r (\<lambda>d. apply_ops d ops)) (Inr text) (o_history (n_owner n)) = Inr (s_text (n_owner n))
    \<and> o_rev (n_owner n) = int (length (o_history (n_owner n)))"
  using net_okE(2) [OF net_ok_reachable [OF assms(2,1)]] by (auto simp: owner_ok_def intro: run_ops_apply)

theorem owner_history_replays_witness:
  "o_rev (n_owner demo_net) = 2 \<and>
   foldl (\<lambda>r ops. rbind r (\<lambda>d. apply_ops d ops)) (Inr (js ''ab'')) (o_history (n_owner demo_net)) = Inr (s_text (n_owner demo_net))"
  using owner_history_replays [OF reference_editor_ok demo_reachable [unfolded demo_owner_def]] demo_net(6) by simp

definition race_msg :: "string \<Rightarrow> body \<Rightarrow> CollabMsg" where
  "race_msg from b = frame (\<lambda>_. []) ''d'' from [] b"


end
