(* ===== verification/CollabManager.thy ===== *)
theory CollabManager
  imports CollabSession
begin

text \<open>
  \<^verbatim>\<open>CollabManager\<close> of \<^verbatim>\<open>src/src/collab.ts\<close>: the table of sessions and the offers, invitations,
  shared projects and joined projects beside it. Each method is one function from the manager's
  state to its next state and its effects in order; \<^verbatim>\<open>Map\<close>s are association lists in insertion
  order. A session's own frames and callbacks are lifted by \<open>lift_fx\<close>, which is the wiring of
  \<^verbatim>\<open>onNotice\<close> and \<^verbatim>\<open>onEdited\<close> to the manager's callbacks. The file system behind a shared project is
  reached through two callbacks only: \<open>ListProject\<close> and \<open>ServeFile\<close>, which carry the local root.
\<close>

datatype sess = SOwner owner | SGuest guest

record offer =
  of_from :: string
  of_fromName :: string
  of_name :: js_string
  of_lang :: "string option"

record owned_project =
  op_root :: string
  op_name :: js_string
  op_members :: "string list"

record project_offer =
  po_from :: string
  po_fromName :: string
  po_name :: js_string

record joined_project =
  jp_from :: string
  jp_fromName :: string
  jp_name :: js_string
  jp_paths :: "string list"

record mgr =
  mg_self :: string
  mg_sessions :: "(string \<times> sess) list"
  mg_offers :: "(string \<times> offer) list"
  mg_guests :: "(string \<times> js_string \<times> string) list"
  mg_owned :: "(string \<times> owned_project) list"
  mg_projectOffers :: "(string \<times> project_offer) list"
  mg_joined :: "(string \<times> joined_project) list"
  mg_autoAccept :: "string set"
  mg_serving :: bool

datatype mfx =
    MSend "string option" string body
  | MNotice notice
  | MHook effect
  | MChange
  | MOffer string
  | MProjectOffer string
  | MProjectJoined string
  | ServeFile string string string
  | ListProject string string string

definition new_mgr :: mgr where
  "new_mgr = \<lparr>mg_self = '''', mg_sessions = [], mg_offers = [], mg_guests = [], mg_owned = [],
     mg_projectOffers = [], mg_joined = [], mg_autoAccept = {}, mg_serving = False\<rparr>"

fun lift_fx :: "effect \<Rightarrow> mfx" where
  "lift_fx (Send to d b) = MSend to d b"
| "lift_fx (Notice x) = MNotice x"
| "lift_fx OnEdited = MChange"
| "lift_fx OnCursors = MHook OnCursors"
| "lift_fx OnOrphaned = MHook OnOrphaned"

section \<open>Methods\<close>

definition activeCount :: "mgr \<Rightarrow> nat" where
  "activeCount m = length (mg_sessions m) + length (mg_owned m) + length (mg_joined m)"

definition setSelf :: "string \<Rightarrow> mgr \<Rightarrow> mgr" where
  "setSelf pid m = m\<lparr>mg_self := pid\<rparr>"

text \<open>The random bytes of the document's name are an argument.\<close>

definition share :: "8 word list \<Rightarrow> string \<Rightarrow> js_string \<Rightarrow> mgr \<Rightarrow> mgr \<times> mfx list" where
  "share rnd path content m =
     (let doc = newDocId rnd
      in (m\<lparr>mg_sessions := AList.update doc (SOwner (new_owner doc (mg_self m) content path)) (mg_sessions m)\<rparr>, [MChange]))"

text \<open>\<^verbatim>\<open>s.path.split(/[\\/]/).pop()\<close>: what follows the last separator.\<close>

definition base_name :: "string \<Rightarrow> string" where
  "base_name path = rev (takeWhile (\<lambda>c. c \<noteq> CHR ''/'' \<and> c \<noteq> CHR 0x5C) (rev path))"

fun owner_change_rows :: "(string \<times> sess) list \<Rightarrow> (string \<times> string \<times> string \<times> bool) list" where
  "owner_change_rows [] = []"
| "owner_change_rows ((doc, SOwner o1) # ss) =
     (doc, o_path o1, base_name (o_path o1), o_edited o1) # owner_change_rows ss"
| "owner_change_rows ((doc, SGuest g) # ss) = owner_change_rows ss"

definition ownerChanges :: "mgr \<Rightarrow> (string \<times> string \<times> string \<times> bool) list" where
  "ownerChanges m = owner_change_rows (mg_sessions m)"

definition save_session :: "string \<Rightarrow> sess \<Rightarrow> sess \<times> effect list" where
  "save_session path s =
     (case s of
        SOwner o1 \<Rightarrow> (if o_path o1 = path then (case markSaved o1 of (o2, effs) \<Rightarrow> (SOwner o2, effs)) else (s, []))
      | SGuest g \<Rightarrow> (s, []))"

definition markOwnerSaved :: "string \<Rightarrow> mgr \<Rightarrow> mgr \<times> mfx list" where
  "markOwnerSaved path m =
     (m\<lparr>mg_sessions := map (\<lambda>(d, s). (d, fst (save_session path s))) (mg_sessions m)\<rparr>,
      concat (map (\<lambda>(d, s). map lift_fx (snd (save_session path s))) (mg_sessions m)))"

definition accept :: "string \<Rightarrow> mgr \<Rightarrow> mgr \<times> mfx list" where
  "accept doc m =
     (case map_of (mg_offers m) doc of
        None \<Rightarrow> (m, [])
      | Some ofr \<Rightarrow> (m, [MSend (Some (of_from ofr)) doc BOpen]))"

definition dismiss :: "string \<Rightarrow> mgr \<Rightarrow> mgr" where
  "dismiss doc m = m\<lparr>mg_offers := AList.delete doc (mg_offers m)\<rparr>"

fun ownedProjectFor_loop :: "string \<Rightarrow> (string \<times> owned_project) list \<Rightarrow> string option" where
  "ownedProjectFor_loop root [] = None"
| "ownedProjectFor_loop root ((doc, p) # ps) = (if op_root p = root then Some doc else ownedProjectFor_loop root ps)"

definition ownedProjectFor :: "string \<Rightarrow> mgr \<Rightarrow> string option" where
  "ownedProjectFor root m = ownedProjectFor_loop root (mg_owned m)"

definition invite :: "string \<Rightarrow> js_string \<Rightarrow> string \<Rightarrow> mgr \<Rightarrow> mgr \<times> mfx list" where
  "invite doc name to m =
     (case map_of (mg_owned m) doc of
        None \<Rightarrow> (m, [])
      | Some p \<Rightarrow>
          (if to \<in> set (op_members p) then (m, [])
           else (m\<lparr>mg_owned := AList.update doc (p\<lparr>op_members := op_members p @ [to]\<rparr>) (mg_owned m)\<rparr>,
                 [MSend (Some to) doc (BProjectOffer (safeName name))])))"

definition shareProject :: "8 word list \<Rightarrow> string \<Rightarrow> js_string \<Rightarrow> string \<Rightarrow> mgr \<Rightarrow> mgr \<times> mfx list \<times> string" where
  "shareProject rnd root name to m =
     (let (doc, m1) =
            (case ownedProjectFor root m of
               Some doc \<Rightarrow> (doc, m)
             | None \<Rightarrow> (newDocId rnd,
                 m\<lparr>mg_owned := AList.update (newDocId rnd) \<lparr>op_root = root, op_name = name, op_members = []\<rparr> (mg_owned m)\<rparr>))
      in case invite doc name to m1 of (m2, fx) \<Rightarrow> (m2, fx @ [MChange], doc))"

definition projectSharedWith :: "string \<Rightarrow> mgr \<Rightarrow> string list" where
  "projectSharedWith root m =
     (case ownedProjectFor root m of
        None \<Rightarrow> []
      | Some doc \<Rightarrow> (case map_of (mg_owned m) doc of None \<Rightarrow> [] | Some p \<Rightarrow> op_members p))"

definition acceptProject :: "string \<Rightarrow> mgr \<Rightarrow> mgr \<times> mfx list" where
  "acceptProject doc m =
     (case map_of (mg_projectOffers m) doc of
        None \<Rightarrow> (m, [])
      | Some ofr \<Rightarrow> (m, [MSend (Some (po_from ofr)) doc BOpen]))"

definition dismissProject :: "string \<Rightarrow> mgr \<Rightarrow> mgr \<times> mfx list" where
  "dismissProject doc m = (m\<lparr>mg_projectOffers := AList.delete doc (mg_projectOffers m)\<rparr>, [MChange])"

definition openProjectFile :: "string \<Rightarrow> string \<Rightarrow> mgr \<Rightarrow> mgr \<times> mfx list" where
  "openProjectFile doc relPath m =
     (case map_of (mg_joined m) doc of
        None \<Rightarrow> (m, [])
      | Some j \<Rightarrow> (m, [MSend (Some (jp_from j)) doc (BProjectOpen relPath)]))"

fun dispose_session :: "sess \<Rightarrow> effect list" where
  "dispose_session (SOwner o1) = owner_dispose o1"
| "dispose_session (SGuest g) = guest_dispose g"

definition close_doc :: "string \<Rightarrow> mgr \<Rightarrow> mgr \<times> mfx list" where
  "close_doc doc m =
     (case map_of (mg_sessions m) doc of
        None \<Rightarrow> (m, [])
      | Some s \<Rightarrow>
          (m\<lparr>mg_sessions := AList.delete doc (mg_sessions m), mg_guests := AList.delete doc (mg_guests m)\<rparr>,
           map lift_fx (dispose_session s) @ [MChange]))"

text \<open>A loop over a copied list of keys, each iteration a method of the manager.\<close>

fun each :: "('k \<Rightarrow> mgr \<Rightarrow> mgr \<times> mfx list) \<Rightarrow> 'k list \<Rightarrow> mgr \<Rightarrow> mgr \<times> mfx list" where
  "each f [] m = (m, [])"
| "each f (k # ks) m = (case f k m of (m1, fx1) \<Rightarrow> (case each f ks m1 of (m2, fx2) \<Rightarrow> (m2, fx1 @ fx2)))"

definition path_prefix :: "string \<Rightarrow> string" where
  "path_prefix root = (if root \<noteq> [] \<and> last root = CHR ''/'' then root else root @ ''/'')"

definition under :: "string \<Rightarrow> sess \<Rightarrow> bool" where
  "under root s = (case s of SOwner o1 \<Rightarrow> take (length (path_prefix root)) (o_path o1) = path_prefix root | SGuest g \<Rightarrow> False)"

definition stopSharingProject :: "string \<Rightarrow> mgr \<Rightarrow> mgr \<times> mfx list" where
  "stopSharingProject doc m =
     (case map_of (mg_owned m) doc of
        None \<Rightarrow> (m, [])
      | Some p \<Rightarrow>
          (let m1 = m\<lparr>mg_owned := AList.delete doc (mg_owned m)\<rparr>
           in case each close_doc (map fst (filter (\<lambda>(d, s). under (op_root p) s) (mg_sessions m1))) m1 of
                (m2, fx) \<Rightarrow>
                  (if mg_owned m2 = [] then m2\<lparr>mg_serving := False\<rparr> else m2,
                   MSend None doc (BClose ''The owner stopped sharing the project.'') # fx @ [MChange])))"

text \<open>A project is left, by us or because its owner closed it.\<close>

definition drop_joined :: "string \<Rightarrow> joined_project \<Rightarrow> mgr \<Rightarrow> mgr" where
  "drop_joined doc j m =
     (let js1 = AList.delete doc (mg_joined m)
      in m\<lparr>mg_joined := js1,
           mg_autoAccept := (if \<exists>p \<in> set (map snd js1). jp_from p = jp_from j then mg_autoAccept m
                             else mg_autoAccept m - {jp_from j})\<rparr>)"

definition leaveProject :: "string \<Rightarrow> mgr \<Rightarrow> mgr \<times> mfx list" where
  "leaveProject doc m =
     (case map_of (mg_joined m) doc of None \<Rightarrow> (m, []) | Some j \<Rightarrow> (drop_joined doc j m, [MChange]))"

definition stopAll :: "mgr \<Rightarrow> mgr \<times> mfx list" where
  "stopAll m =
     (case each stopSharingProject (map fst (mg_owned m)) m of (m1, fx1) \<Rightarrow>
       (case each leaveProject (map fst (mg_joined m1)) m1 of (m2, fx2) \<Rightarrow>
         (case each close_doc (map fst (mg_sessions m2)) m2 of (m3, fx3) \<Rightarrow> (m3, fx1 @ fx2 @ fx3 @ [MChange]))))"

section \<open>A frame from the relay\<close>

fun session_receive :: "editor \<Rightarrow> CollabMsg \<Rightarrow> sess \<Rightarrow> sess \<times> effect list" where
  "session_receive ed msg (SOwner o1) = (case owner_receive ed msg o1 of (o2, effs) \<Rightarrow> (SOwner o2, effs))"
| "session_receive ed msg (SGuest g) = (case guest_receive ed msg g of (g2, effs) \<Rightarrow> (SGuest g2, effs))"

text \<open>
  \<open>left\<close> is the text of a buffer an earlier session of the same document and name left registered
  with the editor, if there is one: the code reuses it instead of the snapshot's text.
\<close>

definition admit :: "js_string option \<Rightarrow> CollabMsg \<Rightarrow> offer \<Rightarrow> int \<Rightarrow> js_string \<Rightarrow> mgr \<Rightarrow> mgr \<times> mfx list" where
  "admit left msg ofr rv snap m =
     (let doc = m_doc msg;
          g = new_guest doc (mg_self m) (case left of Some t \<Rightarrow> t | None \<Rightarrow> snap) (m_from msg) rv
      in (m\<lparr>mg_offers := AList.delete doc (mg_offers m),
            mg_sessions := AList.update doc (SGuest g) (mg_sessions m),
            mg_guests := AList.update doc (of_name ofr, m_from_name msg) (mg_guests m)\<rparr>,
          [MChange, MOffer doc]))"

definition receive_new :: "js_string option \<Rightarrow> CollabMsg \<Rightarrow> mgr \<Rightarrow> mgr \<times> mfx list" where
  "receive_new left msg m =
     (let doc = m_doc msg in
      case m_body msg of
        BProjectOffer name \<Rightarrow>
          (m\<lparr>mg_projectOffers := AList.update doc
               \<lparr>po_from = m_from msg, po_fromName = m_from_name msg, po_name = safeName name\<rparr> (mg_projectOffers m)\<rparr>,
           [MChange, MProjectOffer doc])
      | BProjectTree paths \<Rightarrow>
          (m\<lparr>mg_projectOffers := AList.delete doc (mg_projectOffers m),
             mg_joined := AList.update doc
               \<lparr>jp_from = m_from msg, jp_fromName = m_from_name msg,
                jp_name = (case map_of (mg_projectOffers m) doc of Some p \<Rightarrow> po_name p | None \<Rightarrow> js ''project''),
                jp_paths = paths\<rparr> (mg_joined m),
             mg_autoAccept := insert (m_from msg) (mg_autoAccept m)\<rparr>,
           [MChange, MProjectJoined doc])
      | BProjectOpen path \<Rightarrow>
          (case map_of (mg_owned m) doc of
             Some p \<Rightarrow> (m, if mg_serving m then [ServeFile (op_root p) path (m_from msg)] else [])
           | None \<Rightarrow> (m, []))
      | BClose _ \<Rightarrow>
          (case map_of (mg_joined m) doc of
             Some j \<Rightarrow> (drop_joined doc j m, [MChange])
           | None \<Rightarrow> (m, []))
      | BOpen \<Rightarrow>
          (case map_of (mg_owned m) doc of
             Some p \<Rightarrow> (m, [ListProject (op_root p) (m_from msg) doc])
           | None \<Rightarrow> (m, []))
      | BOffer name lang \<Rightarrow>
          (let m1 = m\<lparr>mg_offers := AList.update doc
                 \<lparr>of_from = m_from msg, of_fromName = m_from_name msg, of_name = safeName name, of_lang = lang\<rparr>
                 (mg_offers m)\<rparr>
           in (m1, (if m_from msg \<in> mg_autoAccept m1 then snd (accept doc m1) else []) @ [MOffer doc]))
      | BSnapshot rv snap \<Rightarrow>
          (case map_of (mg_offers m) doc of
             None \<Rightarrow> (m, [])
           | Some ofr \<Rightarrow> (if of_from ofr \<noteq> m_from msg then (m, []) else admit left msg ofr rv snap m))
      | _ \<Rightarrow> (m, []))"

definition mgr_receive :: "editor \<Rightarrow> js_string option \<Rightarrow> CollabMsg \<Rightarrow> mgr \<Rightarrow> mgr \<times> mfx list" where
  "mgr_receive ed left msg m =
     (case map_of (mg_sessions m) (m_doc msg) of
        Some s \<Rightarrow>
          (case session_receive ed msg s of
             (s', effs) \<Rightarrow> (m\<lparr>mg_sessions := AList.update (m_doc msg) s' (mg_sessions m)\<rparr>, map lift_fx effs))
      | None \<Rightarrow> receive_new left msg m)"

text \<open>The reply to \<open>ListProject\<close>, when the promised list of paths is there.\<close>

definition project_listed :: "string list option \<Rightarrow> string \<Rightarrow> string \<Rightarrow> mfx" where
  "project_listed listed from doc = MSend (Some from) doc (BProjectTree (case listed of Some ps \<Rightarrow> ps | None \<Rightarrow> []))"

fun drop_peer_session :: "string \<Rightarrow> sess \<Rightarrow> sess \<times> effect list" where
  "drop_peer_session p (SOwner o1) = (case dropPeer p o1 of (o2, effs) \<Rightarrow> (SOwner o2, effs))"
| "drop_peer_session p (SGuest g) = (case dropPeer p g of (g2, effs) \<Rightarrow> (SGuest g2, effs))"

definition dropMember :: "string \<Rightarrow> mgr \<Rightarrow> mgr \<times> mfx list" where
  "dropMember p m =
     (m\<lparr>mg_sessions := map (\<lambda>(d, s). (d, fst (drop_peer_session p s))) (mg_sessions m)\<rparr>,
      concat (map (\<lambda>(d, s). map lift_fx (snd (drop_peer_session p s))) (mg_sessions m)))"

definition reset_session :: "sess \<Rightarrow> mfx list" where
  "reset_session s =
     (case s of
        SGuest g \<Rightarrow> MHook OnOrphaned # map lift_fx (guest_dispose (g\<lparr>g_orphaned := True\<rparr>))
      | SOwner o1 \<Rightarrow> map lift_fx (owner_dispose o1))"

definition reset_mgr :: "mgr \<Rightarrow> mgr \<times> mfx list" where
  "reset_mgr m =
     (m\<lparr>mg_sessions := [],
        mg_guests := filter (\<lambda>(d, _). d \<notin> fst ` set (mg_sessions m)) (mg_guests m),
        mg_offers := [], mg_owned := [], mg_projectOffers := [], mg_joined := [], mg_autoAccept := {}\<rparr>,
      concat (map (\<lambda>(d, s). reset_session s) (mg_sessions m)))"

section \<open>Everything that can happen to a manager\<close>

text \<open>
  Frames from the relay, the methods the views call, and the calls a view makes on a session of
  the table (an offer to a member, a change of its buffer).
\<close>

datatype mgr_event =
    Receive "js_string option" CollabMsg
  | Share "8 word list" string js_string
  | OfferTo string string js_string "string option"
  | LocalChange string js_string "16 word change list"
  | MarkSaved string
  | Accept string
  | Dismiss string
  | ShareProject "8 word list" string js_string string
  | AcceptProject string
  | DismissProject string
  | OpenProjectFile string string
  | CloseDoc string
  | StopSharing string
  | LeaveProject string
  | StopAll
  | DropMember string
  | Reset
  | SetSelf string
  | ServeFiles

definition on_session :: "string \<Rightarrow> (sess \<Rightarrow> sess \<times> effect list) \<Rightarrow> mgr \<Rightarrow> mgr \<times> mfx list" where
  "on_session doc f m =
     (case map_of (mg_sessions m) doc of
        None \<Rightarrow> (m, [])
      | Some s \<Rightarrow>
          (case f s of (s', effs) \<Rightarrow> (m\<lparr>mg_sessions := AList.update doc s' (mg_sessions m)\<rparr>, map lift_fx effs)))"

fun offer_session :: "string \<Rightarrow> js_string \<Rightarrow> string option \<Rightarrow> sess \<Rightarrow> sess \<times> effect list" where
  "offer_session p name lang (SOwner o1) = (case owner_offerTo p name lang o1 of (o2, effs) \<Rightarrow> (SOwner o2, effs))"
| "offer_session p name lang (SGuest g) = (SGuest g, [])"

fun change_session :: "js_string \<Rightarrow> 16 word change list \<Rightarrow> sess \<Rightarrow> sess \<times> effect list" where
  "change_session content cs (SOwner o1) = (case owner_changed content cs o1 of (o2, effs) \<Rightarrow> (SOwner o2, effs))"
| "change_session content cs (SGuest g) = (case guest_changed content cs g of (g2, effs) \<Rightarrow> (SGuest g2, effs))"

fun mgr_do :: "editor \<Rightarrow> mgr_event \<Rightarrow> mgr \<Rightarrow> mgr \<times> mfx list" where
  "mgr_do ed (Receive left msg) m = mgr_receive ed left msg m"
| "mgr_do ed (Share rnd path content) m = share rnd path content m"
| "mgr_do ed (OfferTo doc p name lang) m = on_session doc (offer_session p name lang) m"
| "mgr_do ed (LocalChange doc content cs) m = on_session doc (change_session content cs) m"
| "mgr_do ed (MarkSaved path) m = markOwnerSaved path m"
| "mgr_do ed (Accept doc) m = accept doc m"
| "mgr_do ed (Dismiss doc) m = (dismiss doc m, [])"
| "mgr_do ed (ShareProject rnd root name to) m = (case shareProject rnd root name to m of (m1, fx, doc) \<Rightarrow> (m1, fx))"
| "mgr_do ed (AcceptProject doc) m = acceptProject doc m"
| "mgr_do ed (DismissProject doc) m = dismissProject doc m"
| "mgr_do ed (OpenProjectFile doc path) m = openProjectFile doc path m"
| "mgr_do ed (CloseDoc doc) m = close_doc doc m"
| "mgr_do ed (StopSharing doc) m = stopSharingProject doc m"
| "mgr_do ed (LeaveProject doc) m = leaveProject doc m"
| "mgr_do ed StopAll m = stopAll m"
| "mgr_do ed (DropMember p) m = dropMember p m"
| "mgr_do ed Reset m = reset_mgr m"
| "mgr_do ed (SetSelf pid) m = (setSelf pid m, [])"
| "mgr_do ed ServeFiles m = (m\<lparr>mg_serving := True\<rparr>, [])"

inductive mgr_reach :: "editor \<Rightarrow> mgr \<Rightarrow> bool" for ed where
  start: "mgr_reach ed new_mgr"
| event: "mgr_reach ed m \<Longrightarrow> mgr_do ed e m = (m', fx) \<Longrightarrow> mgr_reach ed m'"

section \<open>The invariant\<close>

fun sess_ok :: "string \<Rightarrow> sess \<Rightarrow> bool" where
  "sess_ok d (SOwner o1) \<longleftrightarrow> s_doc o1 = d \<and> o_roster o1 \<subseteq> o_allowed o1"
| "sess_ok d (SGuest g) \<longleftrightarrow> s_doc g = d"

definition mgr_ok :: "mgr \<Rightarrow> bool" where
  "mgr_ok m \<longleftrightarrow> (\<forall>(d, s) \<in> set (mg_sessions m). sess_ok d s) \<and> jp_from ` snd ` set (mg_joined m) \<subseteq> mg_autoAccept m"

text \<open>The owner's handlers do not touch the path and the access list, and keep the roster inside it.\<close>

lemma owner_broadcast_keeps:
  "owner_broadcast ops author o1 = (o2, effs) \<Longrightarrow>
   o_path o2 = o_path o1 \<and> o_allowed o2 = o_allowed o1 \<and> o_roster o2 = o_roster o1 \<and> s_doc o2 = s_doc o1"
  by (auto simp: owner_broadcast_def Let_def)

lemma owner_receive_keeps:
  "owner_receive ed msg o1 = (o2, effs) \<Longrightarrow>
   o_path o2 = o_path o1 \<and> o_allowed o2 = o_allowed o1 \<and> s_doc o2 = s_doc o1
   \<and> (o_roster o1 \<subseteq> o_allowed o1 \<longrightarrow> o_roster o2 \<subseteq> o_allowed o2)"
  by (auto simp: owner_receive_def noteCursor_def dropPeer_def applyRemote_def split: body.splits if_splits sum.splits prod.splits
      dest!: owner_broadcast_keeps)

lemma owner_changed_keeps:
  "owner_changed content cs o1 = (o2, effs) \<Longrightarrow>
   o_path o2 = o_path o1 \<and> o_allowed o2 = o_allowed o1 \<and> o_roster o2 = o_roster o1 \<and> s_doc o2 = s_doc o1"
  by (auto simp: owner_changed_def Let_def split: sum.splits dest!: owner_broadcast_keeps)

lemma guest_flush_doc: "guest_flush g = (g2, effs) \<Longrightarrow> s_doc g2 = s_doc g"
  by (auto simp: guest_flush_def split: option.splits list.splits)

lemma guest_check_hash_doc: "guest_check_hash h (g, effs) = (g2, effs2) \<Longrightarrow> s_doc g2 = s_doc g"
  by (auto simp: guest_check_hash_def guest_resync_def split: option.splits if_splits)

lemma guest_transform_doc: "guest_transform ops g = Inr (theirs, g2) \<Longrightarrow> s_doc g2 = s_doc g"
  by (auto simp: guest_transform_def rbind_eq_Inr)

lemma guest_receive_doc: "guest_receive ed msg g = (g2, effs) \<Longrightarrow> s_doc g2 = s_doc g"
proof -
  have ch: "guest_check_hash h p = (g2, effs) \<Longrightarrow> s_doc g2 = s_doc (fst p)" for h p
    using guest_check_hash_doc [of h "fst p" "snd p"] by simp
  have fl: "s_doc (fst (guest_flush k)) = s_doc k" for k using guest_flush_doc [of k] by (cases "guest_flush k") simp
  show "guest_receive ed msg g = (g2, effs) \<Longrightarrow> s_doc g2 = s_doc g"
    by (auto simp: guest_receive_def noteCursor_def guest_resync_def applyRemote_def fl
        split: body.splits if_splits sum.splits dest!: ch guest_transform_doc)
qed

lemma guest_changed_doc: "guest_changed content cs g = (g2, effs) \<Longrightarrow> s_doc g2 = s_doc g"
  by (auto simp: guest_changed_def Let_def split: sum.splits if_splits dest!: guest_flush_doc)

lemma sess_ok_receive: "sess_ok d s \<Longrightarrow> session_receive ed msg s = (s', effs) \<Longrightarrow> sess_ok d s'"
  by (cases s) (auto split: prod.splits dest!: owner_receive_keeps guest_receive_doc)

lemma sess_ok_events:
  "sess_ok d s \<Longrightarrow> sess_ok d (fst (offer_session p name lang s))"
  "sess_ok d s \<Longrightarrow> sess_ok d (fst (change_session content cs s))"
  "sess_ok d s \<Longrightarrow> sess_ok d (fst (save_session path s))"
  "sess_ok d s \<Longrightarrow> sess_ok d (fst (drop_peer_session p s))"
  by (cases s; auto simp: owner_offerTo_def save_session_def markSaved_def dropPeer_def split: prod.splits
      dest!: owner_changed_keeps guest_changed_doc)+

lemma in_alist_update: "x \<in> set (AList.update k v xs) \<Longrightarrow> x = (k, v) \<or> x \<in> set xs"
  by (induction xs) (auto split: if_splits)

lemma in_alist_delete: "x \<in> set (AList.delete k xs) \<Longrightarrow> x \<in> set xs"
  by (simp add: AList.delete_eq)

lemma sessions_okD: "mgr_ok m \<Longrightarrow> map_of (mg_sessions m) d = Some s \<Longrightarrow> sess_ok d s"
  by (auto simp: mgr_ok_def dest: map_of_SomeD)

lemma mgr_ok_cong:
  "mgr_ok m \<Longrightarrow> mg_sessions m' = mg_sessions m \<Longrightarrow> mg_joined m' = mg_joined m \<Longrightarrow>
   mg_autoAccept m' = mg_autoAccept m \<Longrightarrow> mgr_ok m'"
  by (simp add: mgr_ok_def)

lemma mgr_ok_update:
  "mgr_ok m \<Longrightarrow> sess_ok d s \<Longrightarrow> mg_sessions m' = AList.update d s (mg_sessions m) \<Longrightarrow> mg_joined m' = mg_joined m \<Longrightarrow>
   mg_autoAccept m' = mg_autoAccept m \<Longrightarrow> mgr_ok m'"
  by (auto simp: mgr_ok_def dest!: in_alist_update)

lemma mgr_ok_map:
  "mgr_ok m \<Longrightarrow> (\<And>d s. sess_ok d s \<Longrightarrow> sess_ok d (f s)) \<Longrightarrow>
   mgr_ok (m\<lparr>mg_sessions := map (\<lambda>(d, s). (d, f s)) (mg_sessions m)\<rparr>)"
  by (auto simp: mgr_ok_def)

lemma each_keeps:
  "(\<And>k m. P m \<Longrightarrow> P (fst (f k m))) \<Longrightarrow> P m \<Longrightarrow> P (fst (each f ks m))"
proof (induction ks arbitrary: m)
  case (Cons k ks)
  from Cons.prems(1) [OF Cons.prems(2), of k] have "P (fst (f k m))" .
  from Cons.IH [OF Cons.prems(1) this] show ?case by (auto split: prod.splits)
qed simp

lemma mgr_ok_close: "mgr_ok m \<Longrightarrow> mgr_ok (fst (close_doc doc m))"
  by (auto simp: close_doc_def mgr_ok_def split: option.splits dest!: in_alist_delete)

lemma mgr_ok_stopSharing: "mgr_ok m \<Longrightarrow> mgr_ok (fst (stopSharingProject doc m))"
proof -
  assume m: "mgr_ok m"
  have *: "mgr_ok (fst (each close_doc ks (m\<lparr>mg_owned := x\<rparr>)))" for ks x
    by (rule each_keeps [where P = mgr_ok]) (auto intro: mgr_ok_close mgr_ok_cong [OF m])
  have s: "mgr_ok (k\<lparr>mg_serving := False\<rparr>)" if "mgr_ok k" for k by (rule mgr_ok_cong [OF that]) simp_all
  show ?thesis
    using m * s by (simp add: stopSharingProject_def Let_def case_prod_unfold split: option.split)
qed

lemma mgr_ok_drop_joined: "mgr_ok m \<Longrightarrow> mgr_ok (drop_joined doc j m)"
  by (fastforce simp: drop_joined_def Let_def mgr_ok_def dest: in_alist_delete)

lemma mgr_ok_leave: "mgr_ok m \<Longrightarrow> mgr_ok (fst (leaveProject doc m))"
  by (auto simp: leaveProject_def mgr_ok_drop_joined split: option.splits)

lemma mgr_ok_stopAll: "mgr_ok m \<Longrightarrow> mgr_ok (fst (stopAll m))"
  using each_keeps [where P = mgr_ok and f = stopSharingProject] each_keeps [where P = mgr_ok and f = leaveProject]
    each_keeps [where P = mgr_ok and f = close_doc]
  by (simp add: stopAll_def case_prod_unfold mgr_ok_stopSharing mgr_ok_leave mgr_ok_close)

lemma invite_frame:
  "mg_sessions (fst (invite doc name to m)) = mg_sessions m" "mg_joined (fst (invite doc name to m)) = mg_joined m"
  "mg_autoAccept (fst (invite doc name to m)) = mg_autoAccept m"
  by (auto simp: invite_def split: option.splits)

lemma mgr_ok_share_project: "mgr_ok m \<Longrightarrow> mgr_ok (fst (shareProject rnd root name to m))"
proof -
  assume m: "mgr_ok m"
  have *: "mgr_ok (fst (invite doc name to (m\<lparr>mg_owned := x\<rparr>)))" for doc x
    by (rule mgr_ok_cong [OF m]) (simp_all add: invite_frame)
  have **: "mgr_ok (fst (invite doc name to m))" for doc
    by (rule mgr_ok_cong [OF m]) (simp_all add: invite_frame)
  show ?thesis
    using * ** by (simp add: shareProject_def Let_def case_prod_unfold split: option.split)
qed

lemma mgr_ok_receive_new: "mgr_ok m \<Longrightarrow> mgr_ok (fst (receive_new left msg m))"
proof (cases "m_body msg")
  case (BSnapshot rv snap)
  assume m: "mgr_ok m"
  show ?thesis
    using BSnapshot m
    by (auto simp: receive_new_def Let_def admit_def new_guest_def split: option.splits intro!: mgr_ok_update [OF m, of "m_doc msg"])
next
  case (BProjectTree paths)
  assume m: "mgr_ok m"
  with BProjectTree show ?thesis
    by (auto simp: receive_new_def Let_def mgr_ok_def dest!: in_alist_update)
qed (auto simp: receive_new_def Let_def mgr_ok_drop_joined split: option.splits elim: mgr_ok_cong)

lemma mgr_ok_receive: "mgr_ok m \<Longrightarrow> mgr_ok (fst (mgr_receive ed left msg m))"
proof (cases "map_of (mg_sessions m) (m_doc msg)")
  case (Some s)
  assume m: "mgr_ok m"
  obtain s' effs where r: "session_receive ed msg s = (s', effs)" by fastforce
  from mgr_ok_update [OF m sess_ok_receive [OF sessions_okD [OF m Some] r]] show ?thesis
    by (simp add: mgr_receive_def Some r)
qed (simp add: mgr_receive_def mgr_ok_receive_new)

lemma mgr_ok_on_session:
  "mgr_ok m \<Longrightarrow> (\<And>d s. sess_ok d s \<Longrightarrow> sess_ok d (fst (f s))) \<Longrightarrow> mgr_ok (fst (on_session doc f m))"
proof (cases "map_of (mg_sessions m) doc")
  case (Some s)
  assume m: "mgr_ok m" and f: "\<And>d s. sess_ok d s \<Longrightarrow> sess_ok d (fst (f s))"
  from f [OF sessions_okD [OF m Some]] show ?thesis
    by (auto simp: on_session_def Some split: prod.splits intro!: mgr_ok_update [OF m, of doc])
qed (simp add: on_session_def)

lemma mgr_ok_do: "mgr_ok m \<Longrightarrow> mgr_ok (fst (mgr_do ed e m))"
proof (cases e)
  case (Share rnd path content)
  assume "mgr_ok m"
  with Share show ?thesis
    by (auto simp: share_def Let_def new_owner_def intro!: mgr_ok_update [of m "newDocId rnd"])
next
  case (ShareProject rnd root name to)
  assume m: "mgr_ok m"
  from mgr_ok_share_project [OF m] ShareProject show ?thesis by (simp add: case_prod_unfold)
next
  case Reset
  then show ?thesis by (simp add: reset_mgr_def mgr_ok_def)
qed (auto simp: mgr_ok_receive mgr_ok_on_session sess_ok_events markOwnerSaved_def accept_def dismiss_def acceptProject_def
    dismissProject_def openProjectFile_def mgr_ok_close mgr_ok_stopSharing mgr_ok_leave mgr_ok_stopAll dropMember_def
    setSelf_def split: option.splits
    intro: mgr_ok_map mgr_ok_cong)

lemma mgr_reach_ok: "mgr_reach ed m \<Longrightarrow> mgr_ok m"
proof (induction rule: mgr_reach.induct)
  case (event m e m' fx)
  then show ?case using mgr_ok_do [of m ed e] by simp
qed (simp add: new_mgr_def mgr_ok_def)

lemma receive_new_sessions:
  assumes "receive_new left msg m = (m', fx)"
  shows "mg_sessions m' = mg_sessions m \<or>
    (\<exists>ofr rv snap g. map_of (mg_offers m) (m_doc msg) = Some ofr \<and> of_from ofr = m_from msg
       \<and> m_body msg = BSnapshot rv snap \<and> g_owner g = m_from msg
       \<and> mg_sessions m' = AList.update (m_doc msg) (SGuest g) (mg_sessions m))"
proof (cases "m_body msg")
  case (BSnapshot rv snap)
  let ?g = "new_guest (m_doc msg) (mg_self m) (case left of Some t \<Rightarrow> t | None \<Rightarrow> snap) (m_from msg) rv"
  have g: "g_owner ?g = m_from msg" by (simp add: new_guest_def)
  show ?thesis
  proof (cases "\<exists>ofr. map_of (mg_offers m) (m_doc msg) = Some ofr \<and> of_from ofr = m_from msg")
    case True
    then obtain ofr where o: "map_of (mg_offers m) (m_doc msg) = Some ofr" "of_from ofr = m_from msg" by blast
    with assms BSnapshot have "mg_sessions m' = AList.update (m_doc msg) (SGuest ?g) (mg_sessions m)"
      by (auto simp: receive_new_def Let_def admit_def)
    with o BSnapshot g show ?thesis by blast
  next
    case False
    with assms BSnapshot show ?thesis by (auto simp: receive_new_def Let_def split: option.splits if_splits)
  qed
qed (use assms in \<open>auto simp: receive_new_def Let_def drop_joined_def split: option.splits\<close>)

text \<open>a frame reaches only the session of its own document, and a frame for a document
  this app has no session for opens one in a single case: it is a snapshot, from the very peer
  whose offer of that document is open, and the session it opens is a guest's.\<close>

theorem receive_confined:
  assumes "mgr_receive ed left msg m = (m', fx)"
  shows "(\<forall>d. d \<noteq> m_doc msg \<longrightarrow> map_of (mg_sessions m') d = map_of (mg_sessions m) d)
    \<and> (map_of (mg_sessions m) (m_doc msg) = None \<longrightarrow>
         map_of (mg_sessions m') (m_doc msg) = None
         \<or> (\<exists>ofr rv snap g. map_of (mg_offers m) (m_doc msg) = Some ofr \<and> of_from ofr = m_from msg
              \<and> m_body msg = BSnapshot rv snap
              \<and> map_of (mg_sessions m') (m_doc msg) = Some (SGuest g) \<and> g_owner g = m_from msg))"
proof (cases "map_of (mg_sessions m) (m_doc msg)")
  case None
  with assms have "receive_new left msg m = (m', fx)" by (simp add: mgr_receive_def)
  from receive_new_sessions [OF this] None show ?thesis by (auto simp: update_conv')
next
  case (Some s)
  with assms show ?thesis by (auto simp: mgr_receive_def update_conv' split: prod.splits)
qed

definition demo_mgr :: mgr where
  "demo_mgr = new_mgr\<lparr>mg_self := ''g'', mg_offers := [(''d'', \<lparr>of_from = ''o'', of_fromName = ''O'', of_name = js ''f'', of_lang = None\<rparr>)]\<rparr>"

theorem receive_confined_witness:
  "let m' = fst (mgr_receive reference_editor None
      \<lparr>m_from = ''o'', m_from_name = ''O'', m_to = None, m_doc = ''d'', m_body = BSnapshot 3 (js ''t'')\<rparr> demo_mgr)
   in (\<forall>d. d \<noteq> ''d'' \<longrightarrow> map_of (mg_sessions m') d = None) \<and> map_of (mg_sessions m') ''d'' \<noteq> None"
proof -
  let ?msg = "\<lparr>m_from = ''o'', m_from_name = ''O'', m_to = None, m_doc = ''d'', m_body = BSnapshot 3 (js ''t'')\<rparr>"
  have "map_of (mg_sessions (fst (mgr_receive reference_editor None ?msg demo_mgr))) ''d'' \<noteq> None" by code_simp
  moreover have "mg_sessions demo_mgr = []" by (simp add: demo_mgr_def new_mgr_def)
  ultimately show ?thesis
    using receive_confined [of reference_editor None ?msg demo_mgr "fst (mgr_receive reference_editor None ?msg demo_mgr)"
      "snd (mgr_receive reference_editor None ?msg demo_mgr)"] by (simp add: Let_def)
qed

text \<open>nothing a peer sends creates an owner session, moves the path behind one, widens its
  access list or changes the projects this app shares; and when a frame makes the app list or
  serve files, the root is the one this app shared under that very document.\<close>

theorem wire_reaches_no_path:
  assumes "mgr_receive ed left msg m = (m', fx)"
  shows "mg_owned m' = mg_owned m
    \<and> (map_of (mg_sessions m') d = Some (SOwner o2) \<longrightarrow>
         (\<exists>o1. map_of (mg_sessions m) d = Some (SOwner o1) \<and> o_path o2 = o_path o1 \<and> o_allowed o2 = o_allowed o1))
    \<and> (ServeFile root path to \<in> set fx \<or> ListProject root to doc \<in> set fx \<longrightarrow>
         (\<exists>p. map_of (mg_owned m) (m_doc msg) = Some p \<and> root = op_root p \<and> to = m_from msg))"
proof (cases "map_of (mg_sessions m) (m_doc msg)")
  case None
  with assms have r: "receive_new left msg m = (m', fx)" by (simp add: mgr_receive_def)
  then have "mg_owned m' = mg_owned m"
    by (auto simp: receive_new_def Let_def drop_joined_def admit_def split: body.splits option.splits if_splits)
  moreover have "ServeFile root path to \<in> set fx \<or> ListProject root to doc \<in> set fx \<longrightarrow>
         (\<exists>p. map_of (mg_owned m) (m_doc msg) = Some p \<and> root = op_root p \<and> to = m_from msg)"
    using r by (auto simp: receive_new_def Let_def drop_joined_def admit_def accept_def split: body.splits option.splits if_splits)
  moreover have "map_of (mg_sessions m') d = Some (SOwner o2) \<Longrightarrow> map_of (mg_sessions m) d = Some (SOwner o2)"
    using receive_new_sessions [OF r] by (auto simp: update_conv' split: if_splits)
  ultimately show ?thesis by blast
next
  case (Some s)
  obtain s' effs where r: "session_receive ed msg s = (s', effs)" by fastforce
  from assms Some r have m': "m' = m\<lparr>mg_sessions := AList.update (m_doc msg) s' (mg_sessions m)\<rparr>" "fx = map lift_fx effs"
    by (simp_all add: mgr_receive_def)
  have "ServeFile root path to \<noteq> lift_fx e" "ListProject root to doc \<noteq> lift_fx e" for e by (cases e; simp)+
  then have "ServeFile root path to \<notin> set fx" "ListProject root to doc \<notin> set fx" unfolding m'(2) by (simp_all add: image_iff)
  moreover have "map_of (mg_sessions m') d = Some (SOwner o2) \<Longrightarrow>
      \<exists>o1. map_of (mg_sessions m) d = Some (SOwner o1) \<and> o_path o2 = o_path o1 \<and> o_allowed o2 = o_allowed o1"
  proof (cases s)
    case (SOwner o1)
    assume "map_of (mg_sessions m') d = Some (SOwner o2)"
    with r SOwner Some m' show ?thesis by (auto simp: update_conv' split: if_splits prod.splits dest!: owner_receive_keeps)
  next
    case (SGuest g)
    assume "map_of (mg_sessions m') d = Some (SOwner o2)"
    with r SGuest Some m' show ?thesis by (auto simp: update_conv' split: if_splits prod.splits)
  qed
  ultimately show ?thesis using m' by simp
qed

definition demo_project :: mgr where
  "demo_project = new_mgr\<lparr>mg_owned := [(''p'', \<lparr>op_root = ''/w'', op_name = js ''w'', op_members = [''a'']\<rparr>)], mg_serving := True\<rparr>"

theorem wire_reaches_no_path_witness:
  "\<exists>p. map_of (mg_owned demo_project) ''p'' = Some p \<and> ''/w'' = op_root p"
proof -
  let ?msg = "\<lparr>m_from = ''a'', m_from_name = ''A'', m_to = None, m_doc = ''p'', m_body = BProjectOpen ''x''\<rparr>"
  have "ServeFile ''/w'' ''x'' ''a'' \<in> set (snd (mgr_receive reference_editor None ?msg demo_project))" by code_simp
  with wire_reaches_no_path [of reference_editor None ?msg demo_project "fst (mgr_receive reference_editor None ?msg demo_project)"
      "snd (mgr_receive reference_editor None ?msg demo_project)" "''q''" undefined "''/w''" "''x''" "''a''" "[]"]
  show ?thesis by auto
qed


lemma owner_snapshot_reply:
  assumes "owner_receive ed msg o1 = (o2, effs)" "Send to d (BSnapshot rv t) \<in> set effs"
  shows "to = Some (m_from msg) \<and> d = s_doc o1 \<and> rv = o_rev o1 \<and> t = s_text o1
    \<and> (m_from msg \<in> o_allowed o1 \<or> m_from msg \<in> o_roster o1)"
  using assms
  by (auto simp: owner_receive_def noteCursor_def dropPeer_def owner_snapshot_def owner_broadcast_def Let_def
      split: body.splits if_splits sum.splits)

lemma guest_flush_no_snapshot: "Send to d (BSnapshot rv t) \<notin> set (snd (guest_flush g))"
  by (auto simp: guest_flush_def split: option.splits list.splits)

lemma guest_hash_no_snapshot:
  "Send to d (BSnapshot rv t) \<notin> set (snd p) \<Longrightarrow> Send to d (BSnapshot rv t) \<notin> set (snd (guest_check_hash h p))"
  by (auto simp: guest_check_hash_def guest_resync_def split: option.splits if_splits prod.splits)

lemma guest_receive_no_snapshot: "Send to d (BSnapshot rv t) \<notin> set (snd (guest_receive ed msg g))"
  by (auto simp: guest_receive_def noteCursor_def guest_resync_def guest_flush_no_snapshot
      split: body.splits if_splits sum.splits dest!: guest_hash_no_snapshot [THEN notE, rotated])

lemma receive_new_no_snapshot: "receive_new left msg m = (m', fx) \<Longrightarrow> MSend to d (BSnapshot rv t) \<notin> set fx"
  by (auto simp: receive_new_def Let_def admit_def accept_def split: body.splits option.splits if_splits)

lemma each_fx: "(\<And>k m. x \<notin> set (snd (f k m))) \<Longrightarrow> x \<notin> set (snd (each f ks m))"
  by (induction ks arbitrary: m) (auto simp: case_prod_unfold)

lemma dispose_no_snapshot: "Send to d (BSnapshot rv t) \<notin> set (dispose_session s)"
  by (cases s) (auto simp: owner_dispose_def guest_dispose_def)

lemma lift_fx_snapshot: "lift_fx e = MSend to d (BSnapshot rv t) \<longleftrightarrow> e = Send to d (BSnapshot rv t)"
  by (cases e) simp_all

lemma snapshot_in_lift: "MSend to d (BSnapshot rv t) \<in> set (map lift_fx effs) \<longleftrightarrow> Send to d (BSnapshot rv t) \<in> set effs"
  by (force simp: lift_fx_snapshot image_iff eq_commute [of "MSend to d (BSnapshot rv t)"])

lemma close_no_snapshot: "MSend to d (BSnapshot rv t) \<notin> set (snd (close_doc doc m))"
  by (auto simp: close_doc_def dispose_no_snapshot lift_fx_snapshot eq_commute [of "MSend to d (BSnapshot rv t)"] split: option.splits)

lemma stop_no_snapshot: "MSend to d (BSnapshot rv t) \<notin> set (snd (stopSharingProject doc m))"
  using each_fx [of "MSend to d (BSnapshot rv t)" close_doc, OF close_no_snapshot]
  by (simp add: stopSharingProject_def Let_def case_prod_unfold split: option.split)

lemma stopAll_no_snapshot: "MSend to d (BSnapshot rv t) \<notin> set (snd (stopAll m))"
proof -
  have "MSend to d (BSnapshot rv t) \<notin> set (snd (leaveProject doc m))" for doc m
    by (simp add: leaveProject_def split: option.split)
  then show ?thesis
    using each_fx [of "MSend to d (BSnapshot rv t)" leaveProject] each_fx [of "MSend to d (BSnapshot rv t)" close_doc, OF close_no_snapshot]
      each_fx [of "MSend to d (BSnapshot rv t)" stopSharingProject, OF stop_no_snapshot]
    by (simp add: stopAll_def case_prod_unfold)
qed

lemma session_call_no_snapshot:
  "Send to d (BSnapshot rv t) \<notin> set (snd (offer_session p name lang s))"
  "Send to d (BSnapshot rv t) \<notin> set (snd (change_session content cs s))"
  "Send to d (BSnapshot rv t) \<notin> set (snd (save_session path s))"
  "Send to d (BSnapshot rv t) \<notin> set (snd (drop_peer_session p s))"
  by (cases s; auto simp: case_prod_unfold owner_offerTo_def owner_changed_def owner_broadcast_def guest_changed_def save_session_def
      markSaved_def dropPeer_def Let_def guest_flush_no_snapshot split: sum.splits)+

lemma on_session_no_snapshot:
  "(\<And>s. Send to d (BSnapshot rv t) \<notin> set (snd (f s))) \<Longrightarrow> MSend to d (BSnapshot rv t) \<notin> set (snd (on_session doc f m))"
  by (auto simp: on_session_def case_prod_unfold snapshot_in_lift split: option.splits)
    (metis lift_fx_snapshot)

lemma other_events_no_snapshot:
  assumes "\<And>left msg. e \<noteq> Receive left msg"
  shows "MSend to d (BSnapshot rv t) \<notin> set (snd (mgr_do ed e m))"
proof (cases e)
  case (MarkSaved path)
  then show ?thesis
    by (auto simp: markOwnerSaved_def session_call_no_snapshot) (metis lift_fx_snapshot session_call_no_snapshot(3))
next
  case (DropMember p)
  then show ?thesis
    by (auto simp: dropMember_def session_call_no_snapshot) (metis lift_fx_snapshot session_call_no_snapshot(4))
next
  case Reset
  then show ?thesis
    by (auto simp: reset_mgr_def reset_session_def guest_dispose_def owner_dispose_def split: sess.splits)
qed (use assms in \<open>auto simp: share_def Let_def on_session_no_snapshot session_call_no_snapshot accept_def shareProject_def invite_def
    acceptProject_def dismissProject_def openProjectFile_def close_no_snapshot stop_no_snapshot stopAll_no_snapshot leaveProject_def
    case_prod_unfold split: option.splits\<close>)

text \<open>an owner's text leaves the app only for members it was offered to. Whatever frames and
  calls came before, a snapshot is sent in answer to a frame only, to the frame's own sender, and
  that sender is on the access list of the document's owner session; it is the owner's present
  revision and text.\<close>

theorem snapshot_only_to_allowed:
  assumes "mgr_reach ed m" "mgr_do ed e m = (m', fx)" "MSend to d (BSnapshot rv t) \<in> set fx"
  shows "\<exists>left msg o1. e = Receive left msg \<and> map_of (mg_sessions m) d = Some (SOwner o1) \<and> to = Some (m_from msg)
    \<and> m_from msg \<in> o_allowed o1 \<and> rv = o_rev o1 \<and> t = s_text o1"
proof -
  from other_events_no_snapshot [of e to d rv t ed m] assms(2,3) obtain left msg where e: "e = Receive left msg" by auto
  with assms(2) have rc: "mgr_receive ed left msg m = (m', fx)" by simp
  with receive_new_no_snapshot [of left msg m m' fx to d rv t] assms(3)
  obtain s where Some: "map_of (mg_sessions m) (m_doc msg) = Some s"
    by (cases "map_of (mg_sessions m) (m_doc msg)") (auto simp: mgr_receive_def)
  obtain s' effs where r: "session_receive ed msg s = (s', effs)" by fastforce
  from rc Some r have "fx = map lift_fx effs" by (simp add: mgr_receive_def)
  with assms(3) have eff: "Send to d (BSnapshot rv t) \<in> set effs" by (simp only: snapshot_in_lift)
  have ok: "sess_ok (m_doc msg) s" by (rule sessions_okD [OF mgr_reach_ok [OF assms(1)] Some])
  show ?thesis
  proof (cases s)
    case (SOwner o1)
    with r obtain o2 where "owner_receive ed msg o1 = (o2, effs)" by (auto split: prod.splits)
    from owner_snapshot_reply [OF this eff] ok SOwner Some e show ?thesis by auto
  next
    case (SGuest g)
    with r have "effs = snd (guest_receive ed msg g)" by (auto split: prod.splits)
    with eff guest_receive_no_snapshot show ?thesis by simp
  qed
qed

definition demo_shared :: mgr where
  "demo_shared = fst (on_session (newDocId [7]) (offer_session ''g'' (js ''f'') None) (fst (share [7] ''/p/f'' (js ''t'') new_mgr)))"

lemma mgr_reach_do: "mgr_reach ed m \<Longrightarrow> mgr_reach ed (fst (mgr_do ed e m))"
  by (rule mgr_reach.event [where fx = "snd (mgr_do ed e m)"]) simp_all

lemma demo_shared_reach: "mgr_reach ed demo_shared"
  using mgr_reach_do [OF mgr_reach_do [OF mgr_reach.start, where e = "Share [7] ''/p/f'' (js ''t'')"],
      where e = "OfferTo (newDocId [7]) ''g'' (js ''f'') None"]
  by (simp add: demo_shared_def)

theorem snapshot_only_to_allowed_witness:
  "\<exists>o1. map_of (mg_sessions demo_shared) (newDocId [7]) = Some (SOwner o1) \<and> ''g'' \<in> o_allowed o1 \<and> js ''t'' = s_text o1"
proof -
  let ?msg = "\<lparr>m_from = ''g'', m_from_name = ''G'', m_to = None, m_doc = newDocId [7], m_body = BOpen\<rparr>"
  let ?r = "mgr_do reference_editor (Receive None ?msg) demo_shared"
  have "MSend (Some ''g'') (newDocId [7]) (BSnapshot 0 (js ''t'')) \<in> set (snd ?r)" by code_simp
  from snapshot_only_to_allowed [OF demo_shared_reach _ this, where e = "Receive None ?msg" and m' = "fst ?r"] show ?thesis by auto
qed


lemma each_deletes:
  assumes "\<And>k m. set (map fst (sel (fst (f k m)))) \<subseteq> set (map fst (sel m)) - {k}"
  shows "set (map fst (sel (fst (each f ks m)))) \<subseteq> set (map fst (sel m)) - set ks"
proof (induction ks arbitrary: m)
  case (Cons k ks)
  from Cons.IH [of "fst (f k m)"] assms [of k m] show ?case by (auto simp: case_prod_unfold)
qed simp

lemma each_all_deleted:
  assumes "\<And>k m. set (map fst (sel (fst (f k m)))) \<subseteq> set (map fst (sel m)) - {k}"
  shows "sel (fst (each f (map fst (sel m)) m)) = []"
  using each_deletes [where sel = sel and f = f and ks = "map fst (sel m)" and m = m, OF assms] by auto

lemma map_of_NoneD: "map_of xs k = None \<Longrightarrow> k \<notin> fst ` set xs"
  by (simp add: map_of_eq_None_iff)

lemma close_sessions: "mg_sessions (fst (close_doc doc m)) = AList.delete doc (mg_sessions m)"
  by (auto simp: close_doc_def split: option.splits dest!: map_of_NoneD intro: delete_id [symmetric])

lemma each_frame: "(\<And>k m. sel (fst (f k m)) = sel m) \<Longrightarrow> sel (fst (each f ks m)) = sel m"
  by (induction ks arbitrary: m) (auto simp: case_prod_unfold)

lemma close_owned: "mg_owned (fst (close_doc doc m)) = mg_owned m" "mg_joined (fst (close_doc doc m)) = mg_joined m"
  by (auto simp: close_doc_def split: option.splits)

lemma stop_owned: "mg_owned (fst (stopSharingProject doc m)) = AList.delete doc (mg_owned m)"
  using each_frame [where sel = mg_owned and f = close_doc, OF close_owned(1)]
  by (auto simp: stopSharingProject_def Let_def case_prod_unfold split: option.splits dest!: map_of_NoneD
      intro: delete_id [symmetric])

lemma stop_joined: "mg_joined (fst (stopSharingProject doc m)) = mg_joined m"
  using each_frame [where sel = mg_joined and f = close_doc, OF close_owned(2)]
  by (auto simp: stopSharingProject_def Let_def case_prod_unfold split: option.splits)

lemma leave_frames:
  "mg_owned (fst (leaveProject doc m)) = mg_owned m" "mg_sessions (fst (leaveProject doc m)) = mg_sessions m"
  "mg_joined (fst (leaveProject doc m)) = AList.delete doc (mg_joined m)"
  by (auto simp: leaveProject_def drop_joined_def Let_def split: option.splits dest!: map_of_NoneD intro: delete_id [symmetric])

lemma each_fx_in:
  assumes "\<And>k' m. k' \<noteq> k \<Longrightarrow> P m \<Longrightarrow> P (fst (f k' m)) \<or> x \<in> set (snd (f k' m))" "\<And>m. P m \<Longrightarrow> x \<in> set (snd (f k m))" "P m" "k \<in> set ks"
  shows "x \<in> set (snd (each f ks m))"
  using assms(3,4)
proof (induction ks arbitrary: m)
  case (Cons k' ks)
  show ?case
  proof (cases "k' = k")
    case True
    with assms(2) [OF Cons.prems(1)] show ?thesis by (simp add: case_prod_unfold)
  next
    case False
    from assms(1) [OF False Cons.prems(1)] Cons False show ?thesis by (auto simp: case_prod_unfold)
  qed
qed simp

abbreviation told :: "string \<Rightarrow> mfx" where
  "told doc \<equiv> MSend None doc (BClose ''The owner stopped sharing.'')"

lemma map_of_delete_other: "k \<noteq> k' \<Longrightarrow> map_of (AList.delete k' xs) k = map_of xs k"
  by (simp add: delete_conv')

lemma close_tells:
  assumes "map_of (mg_sessions m) d = Some (SOwner o1)" "s_doc o1 = d"
  shows "told d \<in> set (snd (close_doc d m))"
  using assms by (simp add: close_doc_def owner_dispose_def)

lemma each_close_tells:
  assumes "map_of (mg_sessions m) d = Some (SOwner o1)" "s_doc o1 = d" "d \<in> set ks"
  shows "told d \<in> set (snd (each close_doc ks m))"
  by (rule each_fx_in [where P = "\<lambda>m. map_of (mg_sessions m) d = Some (SOwner o1)", OF _ _ assms(1,3)])
    (use assms(2) close_tells in \<open>auto simp: close_sessions delete_conv'\<close>)

lemma each_close_keeps:
  "map_of (mg_sessions m) d = Some s \<Longrightarrow> d \<notin> set ks \<Longrightarrow> map_of (mg_sessions (fst (each close_doc ks m))) d = Some s"
  by (induction ks arbitrary: m) (auto simp: case_prod_unfold close_sessions delete_conv')

lemma stop_tells_or_keeps:
  assumes "map_of (mg_sessions m) d = Some (SOwner o1)" "s_doc o1 = d"
  shows "map_of (mg_sessions (fst (stopSharingProject doc m))) d = Some (SOwner o1) \<or> told d \<in> set (snd (stopSharingProject doc m))"
proof (cases "map_of (mg_owned m) doc")
  case (Some p)
  let ?ks = "map fst (filter (\<lambda>(d, s). under (op_root p) s) (mg_sessions m))" and ?m = "m\<lparr>mg_owned := AList.delete doc (mg_owned m)\<rparr>"
  show ?thesis
  proof (cases "d \<in> set ?ks")
    case True
    have "told d \<in> set (snd (each close_doc ?ks ?m))"
      by (rule each_close_tells [OF _ assms(2) True]) (use assms in simp)
    then show ?thesis by (simp add: stopSharingProject_def Some Let_def case_prod_unfold)
  next
    case False
    have "map_of (mg_sessions (fst (each close_doc ?ks ?m))) d = Some (SOwner o1)"
      by (rule each_close_keeps) (use assms False in simp_all)
    then show ?thesis by (simp add: stopSharingProject_def Some Let_def case_prod_unfold)
  qed
qed (use assms in \<open>simp add: stopSharingProject_def\<close>)

text \<open>stopping everything stops everything: no session, shared project or joined project is
  left, and every member is told, for each project and for each file this app owned.\<close>

theorem stopAll_ends_everything:
  "activeCount (fst (stopAll m)) = 0
   \<and> (\<forall>doc \<in> fst ` set (mg_owned m). MSend None doc (BClose ''The owner stopped sharing the project.'') \<in> set (snd (stopAll m)))
   \<and> (\<forall>d o1. map_of (mg_sessions m) d = Some (SOwner o1) \<and> s_doc o1 = d \<longrightarrow> told d \<in> set (snd (stopAll m)))"
proof -
  define m1 where "m1 = fst (each stopSharingProject (map fst (mg_owned m)) m)"
  define m2 where "m2 = fst (each leaveProject (map fst (mg_joined m1)) m1)"
  define m3 where "m3 = fst (each close_doc (map fst (mg_sessions m2)) m2)"
  have S: "fst (stopAll m) = m3" "snd (stopAll m) = snd (each stopSharingProject (map fst (mg_owned m)) m)
      @ snd (each leaveProject (map fst (mg_joined m1)) m1) @ snd (each close_doc (map fst (mg_sessions m2)) m2) @ [MChange]"
    by (simp_all add: stopAll_def case_prod_unfold m1_def m2_def m3_def)
  have del: "set (map fst (AList.delete k xs)) \<subseteq> set (map fst xs) - {k}" for k :: string and xs :: "(string \<times> 'a) list"
    by (auto simp: AList.delete_eq)
  have 1: "mg_owned m1 = []" unfolding m1_def by (rule each_all_deleted) (simp only: stop_owned del)
  have 2: "mg_joined m2 = []" unfolding m2_def by (rule each_all_deleted) (simp only: leave_frames del)
  have 3: "mg_sessions m3 = []" unfolding m3_def by (rule each_all_deleted) (simp only: close_sessions del)
  have "mg_owned m3 = []" "mg_joined m3 = []"
    using 1 2 each_frame [where sel = mg_owned and f = close_doc, OF close_owned(1)]
      each_frame [where sel = mg_joined and f = close_doc, OF close_owned(2)]
      each_frame [where sel = mg_owned and f = leaveProject, OF leave_frames(1)]
    by (simp_all add: m3_def m2_def)
  with 3 have zero: "activeCount (fst (stopAll m)) = 0" by (simp add: S(1) activeCount_def)
  have proj: "MSend None doc (BClose ''The owner stopped sharing the project.'') \<in> set (snd (stopAll m))"
    if "doc \<in> fst ` set (mg_owned m)" for doc
  proof -
    have "MSend None doc (BClose ''The owner stopped sharing the project.'')
        \<in> set (snd (each stopSharingProject (map fst (mg_owned m)) m))"
    proof (rule each_fx_in [where P = "\<lambda>m. map_of (mg_owned m) doc \<noteq> None" and k = doc])
      show "map_of (mg_owned m) doc \<noteq> None" "doc \<in> set (map fst (mg_owned m))"
        using that by (auto simp: map_of_eq_None_iff)
    qed (auto simp: stop_owned delete_conv', auto simp: stopSharingProject_def Let_def case_prod_unfold)
    then show ?thesis by (simp add: S(2))
  qed
  have files: "told d \<in> set (snd (stopAll m))" if d: "map_of (mg_sessions m) d = Some (SOwner o1)" "s_doc o1 = d" for d o1
  proof -
    have "told d \<in> set (snd (each stopSharingProject ks k)) \<or> map_of (mg_sessions (fst (each stopSharingProject ks k))) d = Some (SOwner o1)"
      if "map_of (mg_sessions k) d = Some (SOwner o1)" for ks k
      using that
    proof (induction ks arbitrary: k)
      case (Cons x ks)
      from stop_tells_or_keeps [OF Cons.prems d(2), of x] Cons.IH [of "fst (stopSharingProject x k)"]
      show ?case by (auto simp: case_prod_unfold)
    qed simp
    from this [OF d(1)] consider "told d \<in> set (snd (each stopSharingProject (map fst (mg_owned m)) m))"
      | "map_of (mg_sessions m1) d = Some (SOwner o1)" unfolding m1_def by blast
    then show ?thesis
    proof cases
      case 2
      then have s: "map_of (mg_sessions m2) d = Some (SOwner o1)"
        using each_frame [where sel = mg_sessions and f = leaveProject, OF leave_frames(2)] by (simp add: m2_def)
      then have "d \<in> set (map fst (mg_sessions m2))" by (force dest: map_of_SomeD)
      from each_close_tells [OF s d(2) this] show ?thesis by (simp add: S(2))
    qed (simp add: S(2))
  qed
  show ?thesis using zero proj files by blast
qed


theorem stopAll_ends_everything_witness:
  "activeCount (fst (stopAll demo_shared)) = 0 \<and> told (newDocId [7]) \<in> set (snd (stopAll demo_shared))"
proof -
  have "(case map_of (mg_sessions demo_shared) (newDocId [7]) of Some (SOwner o1) \<Rightarrow> s_doc o1 = newDocId [7] | _ \<Rightarrow> False)"
    by code_simp
  then obtain o1 where "map_of (mg_sessions demo_shared) (newDocId [7]) = Some (SOwner o1)" "s_doc o1 = newDocId [7]"
    by (auto split: option.splits sess.splits)
  with stopAll_ends_everything [of demo_shared] show ?thesis by blast
qed

lemma ownedProjectFor_update_same:
  "ownedProjectFor_loop root ps = Some doc \<Longrightarrow> map_of ps doc = Some p \<Longrightarrow> op_root q = op_root p \<Longrightarrow>
   ownedProjectFor_loop root (AList.update doc q ps) = Some doc"
  by (induction root ps rule: ownedProjectFor_loop.induct) (auto split: if_splits)

lemma ownedProjectFor_fresh:
  "ownedProjectFor_loop root ps = None \<Longrightarrow> op_root q = root \<Longrightarrow> ownedProjectFor_loop root (AList.update doc q ps) = Some doc"
  by (induction root ps rule: ownedProjectFor_loop.induct) (auto split: if_splits)

lemma ownedProjectFor_in: "ownedProjectFor_loop root ps = Some doc \<Longrightarrow> map_of ps doc \<noteq> None"
  by (induction root ps rule: ownedProjectFor_loop.induct) (auto split: if_splits)

text \<open>sharing a project is idempotent. Sharing the same root with the same member again uses
  the one document, sends no second invitation and changes nothing.\<close>

theorem shareProject_idempotent:
  assumes "shareProject rnd root name to m = (m1, fx, doc)"
  shows "shareProject rnd' root name' to m1 = (m1, [MChange], doc) \<and> to \<in> set (projectSharedWith root m1)"
proof -
  obtain m0 d where d: "ownedProjectFor root m0 = Some d" "doc = d" "m1 = fst (invite d name to m0)"
  proof (cases "ownedProjectFor root m")
    case None
    let ?m = "m\<lparr>mg_owned := AList.update (newDocId rnd) \<lparr>op_root = root, op_name = name, op_members = []\<rparr> (mg_owned m)\<rparr>"
    have "ownedProjectFor root ?m = Some (newDocId rnd)"
      using None by (simp add: ownedProjectFor_def ownedProjectFor_fresh)
    with None assms show thesis by (intro that [of ?m "newDocId rnd"]) (auto simp: shareProject_def split: prod.splits)
  next
    case (Some d)
    with assms show thesis by (intro that [of m d]) (auto simp: shareProject_def split: prod.splits)
  qed
  from ownedProjectFor_in [OF d(1) [unfolded ownedProjectFor_def]] obtain p where p: "map_of (mg_owned m0) d = Some p" by blast
  let ?q = "p\<lparr>op_members := op_members p @ [to]\<rparr>"
  have "ownedProjectFor root m1 = Some d \<and> (\<exists>r. map_of (mg_owned m1) d = Some r \<and> to \<in> set (op_members r))"
  proof (cases "to \<in> set (op_members p)")
    case True
    with p d show ?thesis by (simp add: invite_def)
  next
    case False
    with p d(3) have "mg_owned m1 = AList.update d ?q (mg_owned m0)" by (simp add: invite_def)
    with ownedProjectFor_update_same [OF d(1) [unfolded ownedProjectFor_def] p, of ?q] show ?thesis
      by (simp add: ownedProjectFor_def update_conv')
  qed
  with d(2) show ?thesis by (auto simp: shareProject_def invite_def projectSharedWith_def)
qed

theorem shareProject_idempotent_witness:
  "let (m1, fx, doc) = shareProject [1] ''/w'' (js ''w'') ''a'' new_mgr
   in shareProject [2] ''/w'' (js ''w'') ''a'' m1 = (m1, [MChange], doc)"
proof -
  obtain m1 fx doc where r: "shareProject [1] ''/w'' (js ''w'') ''a'' new_mgr = (m1, fx, doc)" by (metis prod_cases3)
  from shareProject_idempotent [OF r] show ?thesis by (simp add: r)
qed

text \<open>A project's tree is accepted from a peer that was never asked for one, and from then on that
  peer's file offers are accepted without a prompt and its snapshot opens a session: the check
  that guards the snapshot branch (an offer from that sender) is missing on the tree branch.\<close>

theorem unsolicited_tree_opens_files:
  "let frame = (\<lambda>doc b. \<lparr>m_from = ''x'', m_from_name = ''X'', m_to = None, m_doc = doc, m_body = b\<rparr>);
       m1 = fst (mgr_receive ed None (frame ''p'' (BProjectTree [])) new_mgr);
       (m2, fx) = mgr_receive ed None (frame ''d'' (BOffer (js ''f'') None)) m1;
       m3 = fst (mgr_receive ed None (frame ''d'' (BSnapshot 0 (js ''t''))) m2)
   in MSend (Some ''x'') ''d'' BOpen \<in> set fx \<and> map_of (mg_sessions m3) ''d'' \<noteq> None"
  by (simp add: mgr_receive_def receive_new_def accept_def admit_def new_mgr_def Let_def)

end
