(* ===== verification/AgentLife.thy ===== *)
theory AgentLife
  imports Prelude Complex_Main
begin

text \<open>
  What an agent is doing, and what the person has not dealt with: \<^verbatim>\<open>src/shared/agentLife\<close>.

  \<^item> \<^verbatim>\<open>vocabulary.ts\<close>: the states, confidences, rungs and attention values as datatypes.
  \<^item> \<^verbatim>\<open>fidelity.json\<close> and \<^verbatim>\<open>policy.json\<close>: the manifests, with the values they have at this commit.
  \<^item> \<^verbatim>\<open>ladder.ts\<close>: \<open>agentLife\<close>, the ranked evidence, rung by rung.
  \<^item> \<^verbatim>\<open>attention.ts\<close>: \<open>reduceAttention\<close>. \<^verbatim>\<open>compose.ts\<close>: buckets, order, the predicate hibernation keys on.
  \<^item> \<^verbatim>\<open>bind.ts\<close>: \<open>resolveSessions\<close>, which session runs in which terminal.

  Times and percentages are \<open>rat\<close>. A field that may be absent is an option. The tooltip text is
  kept as the constructor of \<open>life_note\<close> that names the template, with its label.
\<close>

section \<open>Vocabulary\<close>

datatype life_state = Starting | Working | Waiting | Idle | Ended | Unknown

datatype confidence = Proven | Reported | Inferred

datatype unknown_reason = NeverReported | WentQuiet | CliCannotReport | StoreOnly | ForeignInstance

text \<open>A rung read from a digest is a string the code casts; one it does not know is \<open>OtherVia\<close>.\<close>

datatype via =
    ProcessGone | SessionEnd | StructuredBlock | DeclaredBlock | TurnBoundary | TurnStart | ToolActivity
  | OutputVia | CpuVia | StartupVia | NoVia | OtherVia string

definition via_of :: "string \<Rightarrow> via" where
  "via_of s =
     (case map_of [(''process-gone'', ProcessGone), (''session-end'', SessionEnd), (''structured-block'', StructuredBlock),
         (''declared-block'', DeclaredBlock), (''turn-boundary'', TurnBoundary), (''turn-start'', TurnStart),
         (''tool-activity'', ToolActivity), (''output'', OutputVia), (''cpu'', CpuVia), (''startup'', StartupVia),
         (''none'', NoVia)] s of
        Some v \<Rightarrow> v
      | None \<Rightarrow> OtherVia s)"

datatype life_note =
    NTerminalGone | NNoProcess string | NReportedClosed | NBlockedOnYou string | NAtPrompt string
  | NFinished string | NWorking string | NPrinting string | NBusy string | NStartingUp string
  | NUnknown unknown_reason string

record life =
  l_state :: life_state
  l_confidence :: confidence
  l_via :: via
  l_reason :: "unknown_reason option"
  l_since :: rat
  l_note :: life_note
  l_agent :: "string option"

datatype blocked_why = Question | Permission | AmbiguousNotice

datatype unseen_why = OscNotice | QuietEdge | FinishedTurn

datatype attention = NoAttention | Blocked rat blocked_why | Unseen rat unseen_why

section \<open>The manifests\<close>

datatype notification_meaning = NBlock | NMixed | NAttentionOnly | NUnmapped | NNone

record fidelity =
  f_id :: string
  f_endsSession :: "string list"
  f_endsTurn :: "string list"
  f_startsTurn :: "string list"
  f_toolActivity :: "string list"
  f_structuredBlock :: "string list"
  f_dwell :: bool
  f_notification :: notification_meaning
  f_needsTrust :: bool

definition cli_row ::
    "string \<Rightarrow> string list \<Rightarrow> string list \<Rightarrow> string list \<Rightarrow> string list \<Rightarrow> string list \<Rightarrow> bool
     \<Rightarrow> notification_meaning \<Rightarrow> bool \<Rightarrow> fidelity" where
  "cli_row i es et st ta sb dw nt tr = \<lparr>f_id = i, f_endsSession = es, f_endsTurn = et, f_startsTurn = st,
     f_toolActivity = ta, f_structuredBlock = sb, f_dwell = dw, f_notification = nt, f_needsTrust = tr\<rparr>"

definition manifest :: "fidelity list" where
  "manifest =
    [cli_row ''claude'' [''SessionEnd''] [''Stop'', ''StopFailure''] [''UserPromptSubmit'']
       [''PostToolUse'', ''PostToolUseFailure'', ''PreToolUse'']
       [''PreToolUse:AskUserQuestion'', ''PermissionRequest''] False NMixed False,
     cli_row ''codex'' [''SessionEnd''] [''Stop''] [''UserPromptSubmit''] [''PostToolUse''] [''PermissionRequest''] True NNone True,
     cli_row ''agy'' [] [''Stop''] [] [''PostToolUse'', ''PreInvocation'', ''PostInvocation''] [] False NUnmapped False,
     cli_row ''aider'' [] [] [] [] [] False NAttentionOnly False,
     cli_row ''opencode'' [] [''Stop''] [''UserPromptSubmit''] [''PostToolUse''] [''Notification''] False NBlock False,
     cli_row ''omp'' [''SessionEnd''] [''Stop''] [''UserPromptSubmit''] [''PostToolUse''] [''Notification''] False NBlock False,
     cli_row ''amp'' [] [''Stop''] [''UserPromptSubmit''] [''PostToolUse''] [] False NNone False,
     cli_row ''cursor'' [''SessionEnd''] [''Stop''] [''UserPromptSubmit''] [''PostToolUse'', ''PostToolUseFailure''] [] False NNone False,
     cli_row ''grok'' [''SessionEnd''] [''Stop'', ''StopFailure'', ''StopCancelled''] [''UserPromptSubmit'']
       [''PostToolUse'', ''PostToolUseFailure''] [''Notification''] False NBlock False]"

definition UNKNOWN_CLI :: fidelity where
  "UNKNOWN_CLI = cli_row '''' [] [] [] [] [] False NNone False"

definition BY_ID :: "(string \<times> fidelity) list" where
  "BY_ID = map (\<lambda>c. (f_id c, c)) manifest"

definition fidelityFor :: "string option \<Rightarrow> fidelity" where
  "fidelityFor agent =
     (case agent of
        None \<Rightarrow> UNKNOWN_CLI
      | Some a \<Rightarrow> (if a = '''' then UNKNOWN_CLI else case map_of BY_ID a of Some f \<Rightarrow> f | None \<Rightarrow> UNKNOWN_CLI))"

definition reachableStates :: "string \<Rightarrow> life_state list" where
  "reachableStates agent =
     (let f = fidelityFor (Some agent)
      in (if f_startsTurn f \<noteq> [] \<or> f_toolActivity f \<noteq> [] then [Working] else [])
       @ (if f_structuredBlock f \<noteq> [] \<or> f_notification f = NBlock then [Waiting] else [])
       @ (if f_notification f = NAttentionOnly then [Waiting] else [])
       @ (if f_endsTurn f \<noteq> [] then [Idle] else [])
       @ (if f_endsSession f \<noteq> [] then [Ended] else []))"

definition canDeclareBlock :: "fidelity \<Rightarrow> bool" where
  "canDeclareBlock f \<longleftrightarrow> f_notification f = NBlock \<or> f_notification f = NMixed \<or> f_notification f = NAttentionOnly"

definition quietCpuPercent :: rat where "quietCpuPercent = 2"
definition quietOutputMs :: rat where "quietOutputMs = 3000"
definition answerWindowMs :: rat where "answerWindowMs = 5000"
definition hookTrustSecs :: rat where "hookTrustSecs = 300"
definition structuredBlockDwellMs :: rat where "structuredBlockDwellMs = 2000"
definition startupGraceSecs :: rat where "startupGraceSecs = 20"

section \<open>The ladder\<close>

record hint =
  h_bin :: string
  h_interactive :: bool

record live_pty =
  p_hint :: "hint option"
  p_cpu :: rat
  p_quietForMs :: "rat option"
  p_sinceInputMs :: "rat option"
  p_firstSeen :: "rat option"

datatype pty_evidence = LivePty live_pty | GonePty

text \<open>The fields of a digest the ladder reads; a digest object with no key at all is \<open>empty_digest\<close>.\<close>

record digest =
  d_state :: "string option"
  d_state_via :: "string option"
  d_confidence :: "string option"
  d_updated :: "rat option"
  d_agent :: "string option"
  d_store :: "bool option"
  d_foreign :: "bool option"

definition empty_digest :: digest where
  "empty_digest = \<lparr>d_state = None, d_state_via = None, d_confidence = None, d_updated = None, d_agent = None,
     d_store = None, d_foreign = None\<rparr>"

record life_evidence =
  e_digest :: "digest option"
  e_pty :: "pty_evidence option"
  e_now :: rat

definition say :: "life_state \<Rightarrow> confidence \<Rightarrow> via \<Rightarrow> rat \<Rightarrow> life_note \<Rightarrow> string option \<Rightarrow> unknown_reason option \<Rightarrow> life" where
  "say st conf via since note agent reason =
     \<lparr>l_state = st, l_confidence = conf, l_via = via, l_reason = reason, l_since = since, l_note = note, l_agent = agent\<rparr>"

definition truthy :: "string option \<Rightarrow> bool" where
  "truthy s \<longleftrightarrow> s \<noteq> None \<and> s \<noteq> Some ''''"

definition rungOf :: "digest \<Rightarrow> via option" where
  "rungOf d =
     (if truthy (d_state_via d) then Some (via_of (the (d_state_via d)))
      else map_of [(''ended'', SessionEnd), (''waiting'', DeclaredBlock), (''idle'', TurnBoundary), (''working'', ToolActivity)]
             (case d_state d of Some s \<Rightarrow> s | None \<Rightarrow> ''''))"

definition reachable_rung :: "fidelity \<Rightarrow> via \<Rightarrow> bool" where
  "reachable_rung f v =
     (case v of
        SessionEnd \<Rightarrow> f_endsSession f \<noteq> []
      | StructuredBlock \<Rightarrow> f_structuredBlock f \<noteq> []
      | DeclaredBlock \<Rightarrow> canDeclareBlock f
      | TurnBoundary \<Rightarrow> f_endsTurn f \<noteq> []
      | TurnStart \<Rightarrow> f_startsTurn f \<noteq> []
      | ToolActivity \<Rightarrow> f_toolActivity f \<noteq> []
      | _ \<Rightarrow> True)"

definition hookConfidence :: "fidelity \<Rightarrow> confidence" where
  "hookConfidence f = (if f_needsTrust f then Reported else Proven)"

definition painting :: "live_pty \<Rightarrow> bool" where
  "painting p =
     (case p_quietForMs p of
        None \<Rightarrow> False
      | Some q \<Rightarrow>
          (if q > quietOutputMs then False
           else case p_sinceInputMs p of
                  Some i \<Rightarrow> (if i \<le> answerWindowMs then q < i else True)
                | None \<Rightarrow> True))"

text \<open>The digest the verdict may use: present, not an empty object.\<close>

definition ev_digest :: "life_evidence \<Rightarrow> digest option" where
  "ev_digest ev = (case e_digest ev of Some d \<Rightarrow> (if d = empty_digest then None else Some d) | None \<Rightarrow> None)"

definition label_of :: "string option \<Rightarrow> string" where
  "label_of agent = (if truthy agent then the agent else ''this agent'')"

text \<open>Rungs 1 to 6: what a usable digest says. \<open>None\<close> is the code's \<^verbatim>\<open>break\<close>: fall through.\<close>

definition digest_rung :: "digest \<Rightarrow> via \<Rightarrow> rat \<Rightarrow> life option" where
  "digest_rung d v now =
     (let agent = d_agent d; f = fidelityFor agent; label = label_of agent;
          updated = (case d_updated d of Some u \<Rightarrow> u | None \<Rightarrow> 0);
          silentFor = (if updated \<noteq> 0 then now - updated else 0)
      in case v of
           SessionEnd \<Rightarrow> Some (say Ended Proven v updated NReportedClosed agent None)
         | StructuredBlock \<Rightarrow>
             (if f_dwell f \<and> updated > 0 \<and> silentFor * 1000 < structuredBlockDwellMs then None
              else Some (say Waiting Proven v updated (NBlockedOnYou label) agent None))
         | DeclaredBlock \<Rightarrow>
             Some (if f_notification f = NAttentionOnly
                   then say Waiting Reported v updated (NAtPrompt label) agent None
                   else say Waiting Proven v updated (NBlockedOnYou label) agent None)
         | TurnBoundary \<Rightarrow> Some (say Idle (hookConfidence f) v updated (NFinished label) agent None)
         | TurnStart \<Rightarrow>
             (if silentFor < hookTrustSecs then Some (say Working (hookConfidence f) v updated (NWorking label) agent None) else None)
         | ToolActivity \<Rightarrow>
             (if silentFor < hookTrustSecs then Some (say Working (hookConfidence f) v updated (NWorking label) agent None) else None)
         | _ \<Rightarrow> None)"

text \<open>Rungs 7 to 9: what the terminal shows.\<close>

definition live_rung :: "live_pty \<Rightarrow> digest option \<Rightarrow> string option \<Rightarrow> rat \<Rightarrow> life option" where
  "live_rung p d agent now =
     (let label = label_of agent in
      if painting p then Some (say Working Inferred OutputVia now (NPrinting label) agent None)
      else if p_cpu p \<ge> quietCpuPercent then Some (say Working Inferred CpuVia now (NBusy label) agent None)
      else if d = None \<and> p_hint p \<noteq> None \<and> (case p_firstSeen p of Some t \<Rightarrow> now - t < startupGraceSecs | None \<Rightarrow> False)
           then Some (say Starting Inferred StartupVia now (NStartingUp label) agent None)
      else None)"

definition usable :: "digest \<Rightarrow> bool" where
  "usable d \<longleftrightarrow> d_store d \<noteq> Some True \<and> d_foreign d \<noteq> Some True
     \<and> (case rungOf d of Some v \<Rightarrow> reachable_rung (fidelityFor (d_agent d)) v | None \<Rightarrow> False)"

definition why_unknown :: "digest option \<Rightarrow> unknown_reason" where
  "why_unknown od =
     (case od of
        None \<Rightarrow> NeverReported
      | Some d \<Rightarrow>
          (if d_foreign d = Some True then ForeignInstance
           else if d_store d = Some True \<or> rungOf d = None then StoreOnly
           else if \<not> reachable_rung (fidelityFor (d_agent d)) (the (rungOf d)) then CliCannotReport
           else WentQuiet))"

definition agentLife :: "life_evidence \<Rightarrow> life" where
  "agentLife ev =
     (let d = ev_digest ev;
          agent = (case d of Some d' \<Rightarrow> d_agent d' | None \<Rightarrow> None);
          label = label_of agent;
          live = (case e_pty ev of Some (LivePty p) \<Rightarrow> Some p | _ \<Rightarrow> None)
      in if e_pty ev = Some GonePty then say Ended Proven ProcessGone (e_now ev) NTerminalGone agent None
         else if (case live of Some p \<Rightarrow> p_hint p = None | None \<Rightarrow> False)
           then say Ended Proven ProcessGone (e_now ev) (NNoProcess label) agent None
         else
           (case (case d of Some d' \<Rightarrow> (if usable d' then digest_rung d' (the (rungOf d')) (e_now ev) else None) | None \<Rightarrow> None) of
              Some l \<Rightarrow> l
            | None \<Rightarrow>
                (case (case live of Some p \<Rightarrow> live_rung p d agent (e_now ev) | None \<Rightarrow> None) of
                   Some l \<Rightarrow> l
                 | None \<Rightarrow>
                     say Unknown Inferred NoVia (e_now ev) (NUnknown (why_unknown d) label) agent (Some (why_unknown d)))))"

section \<open>Attention\<close>

datatype hook_signal =
    HTurnStart | HTurnProgress | HTurnEnd | HSessionEnd | HNeedsHuman | HNeedsHumanPermission | HNeedsHumanAmbiguous

datatype attention_input =
    AHook rat hook_signal
  | AOsc rat string
  | AQuiet rat
  | AFocus rat bool
  | ALife rat life

definition is_blocked :: "attention \<Rightarrow> bool" where
  "is_blocked a = (case a of Blocked _ _ \<Rightarrow> True | _ \<Rightarrow> False)"

definition is_unseen :: "attention \<Rightarrow> bool" where
  "is_unseen a = (case a of Unseen _ _ \<Rightarrow> True | _ \<Rightarrow> False)"

definition blind :: "fidelity \<Rightarrow> bool" where
  "blind f \<longleftrightarrow> f_structuredBlock f = [] \<and> f_notification f \<noteq> NBlock \<and> f_notification f \<noteq> NMixed"

definition reduceAttention :: "string option \<Rightarrow> attention \<Rightarrow> attention_input \<Rightarrow> attention" where
  "reduceAttention cli prev inp =
     (case inp of
        AHook tm signal \<Rightarrow>
          (case signal of
             HNeedsHuman \<Rightarrow> Blocked tm Question
           | HNeedsHumanPermission \<Rightarrow> (if f_dwell (fidelityFor cli) then prev else Blocked tm Permission)
           | HNeedsHumanAmbiguous \<Rightarrow> Blocked tm AmbiguousNotice
           | HTurnStart \<Rightarrow> NoAttention
           | HTurnProgress \<Rightarrow> NoAttention
           | HTurnEnd \<Rightarrow> Unseen tm FinishedTurn
           | HSessionEnd \<Rightarrow> NoAttention)
      | AOsc tm _ \<Rightarrow> (if is_blocked prev then prev else Unseen tm OscNotice)
      | AQuiet tm \<Rightarrow> (if \<not> blind (fidelityFor cli) \<or> is_blocked prev then prev else Unseen tm QuietEdge)
      | AFocus tm visible \<Rightarrow> (if \<not> visible then prev else if is_unseen prev then NoAttention else prev)
      | ALife tm l \<Rightarrow>
          (if l_state l = Ended then NoAttention
           else if l_state l = Working \<and> (case prev of Unseen _ w \<Rightarrow> w = QuietEdge | _ \<Rightarrow> False) then NoAttention
           else prev))"

section \<open>Where the two axes meet\<close>

datatype bucket = BAttention | BActive | BQuiet

definition bucketFor :: "life \<Rightarrow> attention \<Rightarrow> bucket" where
  "bucketFor l a =
     (if l_state l = Waiting then BAttention
      else if l_state l = Working then BActive
      else if is_blocked a then BAttention
      else BQuiet)"

definition ringFor :: "attention \<Rightarrow> bool" where
  "ringFor a = is_unseen a"

definition declaredQuiet :: "life \<Rightarrow> bool" where
  "declaredQuiet l =
     (if l_state l \<noteq> Idle \<and> l_state l \<noteq> Ended then False
      else if l_confidence l = Proven then True
      else l_via l = TurnBoundary \<or> l_via l = SessionEnd)"

definition dotFor :: "life \<Rightarrow> life_state" where
  "dotFor l = l_state l"

definition reclaimable :: "life \<Rightarrow> attention \<Rightarrow> bool" where
  "reclaimable l a =
     (if l_state l \<noteq> Idle \<and> l_state l \<noteq> Ended then False
      else if l_confidence l \<noteq> Proven then False
      else \<not> is_blocked a)"

definition isRunning :: "life \<Rightarrow> bool" where
  "isRunning l \<longleftrightarrow> l_state l = Working \<or> l_state l = Waiting \<or> l_state l = Starting"

record rankable =
  r_life :: life
  r_attention :: attention
  r_updated :: "rat option"

definition BAND :: "bucket \<Rightarrow> rat" where
  "BAND b = (case b of BAttention \<Rightarrow> 0 | BActive \<Rightarrow> 1 | BQuiet \<Rightarrow> 2)"

definition updated_or_zero :: "rat option \<Rightarrow> rat" where
  "updated_or_zero u = (case u of Some t \<Rightarrow> t | None \<Rightarrow> 0)"

definition rankSessions :: "'a rankable_scheme \<Rightarrow> 'a rankable_scheme \<Rightarrow> rat" where
  "rankSessions a b =
     (let ba = BAND (bucketFor (r_life a) (r_attention a)); bb = BAND (bucketFor (r_life b) (r_attention b))
      in if ba \<noteq> bb then ba - bb else updated_or_zero (r_updated b) - updated_or_zero (r_updated a))"

section \<open>Which session runs in which terminal\<close>

text \<open>
  \<^verbatim>\<open>Number(s)\<close> of a string, when it is finite: white space trimmed, the empty string is 0, then a
  decimal literal with an optional sign, fraction and exponent, or an unsigned literal with a radix
  prefix. The value is exact; the language rounds it to a double.
\<close>

definition is_digit :: "char \<Rightarrow> bool" where
  "is_digit c \<longleftrightarrow> 48 \<le> (of_char c :: nat) \<and> (of_char c :: nat) \<le> 57"

definition digit_val :: "char \<Rightarrow> nat" where
  "digit_val c =
     (let n = (of_char c :: nat)
      in if n \<le> 57 then n - 48 else if n \<le> 90 then n - 55 else n - 87)"

definition radix_digit :: "nat \<Rightarrow> char \<Rightarrow> bool" where
  "radix_digit b c \<longleftrightarrow>
     (is_digit c \<or> 65 \<le> (of_char c :: nat) \<and> (of_char c :: nat) \<le> 70 \<or> 97 \<le> (of_char c :: nat) \<and> (of_char c :: nat) \<le> 102)
     \<and> digit_val c < b"

definition radix_val :: "nat \<Rightarrow> string \<Rightarrow> nat" where
  "radix_val b s = foldl (\<lambda>n c. n * b + digit_val c) 0 s"

definition parse_exponent :: "string \<Rightarrow> int option" where
  "parse_exponent s =
     (case s of
        [] \<Rightarrow> Some 0
      | c # t \<Rightarrow>
          (if c \<noteq> CHR ''e'' \<and> c \<noteq> CHR ''E'' then None
           else let (neg, ds) = (case t of CHR ''-'' # ds \<Rightarrow> (True, ds) | CHR ''+'' # ds \<Rightarrow> (False, ds) | _ \<Rightarrow> (False, t))
                in if ds \<noteq> [] \<and> list_all is_digit ds then Some (if neg then - int (radix_val 10 ds) else int (radix_val 10 ds))
                   else None))"

definition parse_decimal :: "string \<Rightarrow> rat option" where
  "parse_decimal s =
     (let ip = takeWhile is_digit s; r1 = dropWhile is_digit s;
          (fp, r2) = (case r1 of CHR ''.'' # t \<Rightarrow> (takeWhile is_digit t, dropWhile is_digit t) | _ \<Rightarrow> ([], r1))
      in if ip = [] \<and> fp = [] then None
         else case parse_exponent r2 of
                None \<Rightarrow> None
              | Some e \<Rightarrow>
                  Some (let m = of_nat (radix_val 10 (ip @ fp)); k = e - int (length fp)
                        in if k \<ge> 0 then m * 10 ^ nat k else m / 10 ^ nat (- k)))"

definition ascii_space :: "char \<Rightarrow> bool" where
  "ascii_space c \<longleftrightarrow> (of_char c :: nat) \<in> {9, 10, 11, 12, 13, 32, 160}"

definition js_number :: "string \<Rightarrow> rat option" where
  "js_number s =
     (let t = rev (dropWhile ascii_space (rev (dropWhile ascii_space s)))
      in case t of
           [] \<Rightarrow> Some 0
         | CHR ''-'' # u \<Rightarrow> map_option uminus (parse_decimal u)
         | CHR ''+'' # u \<Rightarrow> parse_decimal u
         | CHR ''0'' # c # u \<Rightarrow>
             (let b = (if c \<in> {CHR ''x'', CHR ''X''} then 16 else if c \<in> {CHR ''o'', CHR ''O''} then 8
                       else if c \<in> {CHR ''b'', CHR ''B''} then 2 else 0)
              in if b = 0 then parse_decimal t
                 else if u \<noteq> [] \<and> list_all (radix_digit b) u then Some (of_nat (radix_val b u)) else None)
         | _ \<Rightarrow> parse_decimal t)"

record bindable_digest = digest +
  b_session_id :: string
  b_surface :: "string option"
  b_instance :: "string option"

record bindable_event =
  ev_ts :: rat
  ev_pty :: "rat option"
  ev_sessionId :: "string option"

record bind_snapshot =
  bs_digests :: "bindable_digest list"
  bs_events :: "bindable_event list"
  bs_instance :: "string option"
  bs_livePtys :: "rat set"
  bs_seeds :: "(rat \<times> string) list"

record bound =
  bd_sessionByPty :: "(rat \<times> string) list"
  bd_digestBySession :: "(string \<times> bindable_digest) list"
  bd_endedSessions :: "string set"

definition note_event :: "(rat \<times> string \<times> rat) list \<Rightarrow> bindable_event \<Rightarrow> (rat \<times> string \<times> rat) list" where
  "note_event latest e =
     (case ev_pty e of
        None \<Rightarrow> latest
      | Some pty \<Rightarrow>
          (if \<not> truthy (ev_sessionId e) then latest
           else if (case map_of latest pty of None \<Rightarrow> True | Some (_, ts) \<Rightarrow> ev_ts e \<ge> ts)
             then AList.update pty (the (ev_sessionId e), ev_ts e) latest
           else latest))"

definition event_stamps :: "bindable_event list \<Rightarrow> (rat \<times> string \<times> rat) list" where
  "event_stamps events = foldl note_event [] events"

definition newer :: "bindable_digest \<Rightarrow> bindable_digest option \<Rightarrow> bool" where
  "newer d prev =
     (case prev of None \<Rightarrow> True | Some p \<Rightarrow> updated_or_zero (d_updated d) > updated_or_zero (d_updated p))"

definition note_surface ::
    "string option \<Rightarrow> (string \<times> bindable_digest) list \<Rightarrow> bindable_digest \<Rightarrow> (string \<times> bindable_digest) list" where
  "note_surface inst bySurface d =
     (if \<not> truthy (b_surface d) then bySurface
      else if truthy inst \<and> b_instance d \<noteq> inst then bySurface
      else if newer d (map_of bySurface (the (b_surface d))) then AList.update (the (b_surface d)) d bySurface
      else bySurface)"

definition by_surface :: "bind_snapshot \<Rightarrow> (string \<times> bindable_digest) list" where
  "by_surface snap = foldl (note_surface (bs_instance snap)) [] (bs_digests snap)"

definition bind_surface :: "(rat \<times> string) list \<Rightarrow> string \<times> bindable_digest \<Rightarrow> (rat \<times> string) list" where
  "bind_surface m sd =
     (case js_number (fst sd) of
        None \<Rightarrow> m
      | Some pty \<Rightarrow> (if map_of m pty \<noteq> None then m else AList.update pty (b_session_id (snd sd)) m))"

definition session_by_pty :: "bind_snapshot \<Rightarrow> (rat \<times> string) list" where
  "session_by_pty snap =
     foldl bind_surface
       (foldl (\<lambda>m (pty, sid, _). AList.update pty sid m) (bs_seeds snap) (event_stamps (bs_events snap)))
       (by_surface snap)"

definition note_session :: "(string \<times> bindable_digest) list \<Rightarrow> bindable_digest \<Rightarrow> (string \<times> bindable_digest) list" where
  "note_session m d = (if newer d (map_of m (b_session_id d)) then AList.update (b_session_id d) d m else m)"

definition ended_of :: "bind_snapshot \<Rightarrow> string \<times> bindable_digest \<Rightarrow> string list" where
  "ended_of snap sd =
     (case js_number (fst sd) of
        None \<Rightarrow> []
      | Some pty \<Rightarrow>
          (if truthy (bs_instance snap) \<and> b_instance (snd sd) \<noteq> bs_instance snap then []
           else if \<not> truthy (b_instance (snd sd)) then []
           else if pty \<in> bs_livePtys snap then []
           else [b_session_id (snd sd)]))"

definition resolveSessions :: "bind_snapshot \<Rightarrow> bound" where
  "resolveSessions snap =
     \<lparr>bd_sessionByPty = session_by_pty snap,
      bd_digestBySession = foldl note_session [] (bs_digests snap),
      bd_endedSessions = set (concat (map (ended_of snap) (by_surface snap)))\<rparr>"

definition isForeign :: "'a bindable_digest_scheme \<Rightarrow> string option \<Rightarrow> bool" where
  "isForeign d inst \<longleftrightarrow> truthy inst \<and> truthy (b_instance d) \<and> b_instance d \<noteq> inst"

section \<open>Every verdict, by the evidence that gave it\<close>

lemma say_simps [simp, life_simps]:
  "l_state (say st conf v since note agent reason) = st" "l_confidence (say st conf v since note agent reason) = conf"
  "l_via (say st conf v since note agent reason) = v" "l_reason (say st conf v since note agent reason) = reason"
  "l_since (say st conf v since note agent reason) = since" "l_agent (say st conf v since note agent reason) = agent"
  by (simp_all add: say_def)

definition no_process :: "life_evidence \<Rightarrow> bool" where
  "no_process ev \<longleftrightarrow> e_pty ev = Some GonePty \<or> (\<exists>p. e_pty ev = Some (LivePty p) \<and> p_hint p = None)"

definition silent_for :: "digest \<Rightarrow> rat \<Rightarrow> rat" where
  "silent_for d now = (case d_updated d of Some u \<Rightarrow> if u \<noteq> 0 then now - u else 0 | None \<Rightarrow> 0)"

text \<open>A digest declares a rung when it may be used and its recorded rung is that one.\<close>

definition declares :: "life_evidence \<Rightarrow> via \<Rightarrow> digest \<Rightarrow> bool" where
  "declares ev v d \<longleftrightarrow> e_digest ev = Some d \<and> d \<noteq> empty_digest \<and> d_store d \<noteq> Some True \<and> d_foreign d \<noteq> Some True
     \<and> rungOf d = Some v \<and> reachable_rung (fidelityFor (d_agent d)) v"

lemma digest_rung_cases:
  assumes "digest_rung d v now = Some l"
  obtains
    "v = SessionEnd" "l_state l = Ended" "l_confidence l = Proven" "l_via l = v"
  | "v = StructuredBlock" "l_state l = Waiting" "l_confidence l = Proven" "l_via l = v"
      "\<not> (f_dwell (fidelityFor (d_agent d)) \<and> (\<exists>u. d_updated d = Some u \<and> u > 0) \<and> silent_for d now * 1000 < 2000)"
  | "v = DeclaredBlock" "l_state l = Waiting" "l_via l = v"
      "l_confidence l = (if f_notification (fidelityFor (d_agent d)) = NAttentionOnly then Reported else Proven)"
  | "v = TurnBoundary" "l_state l = Idle" "l_via l = v" "l_confidence l = hookConfidence (fidelityFor (d_agent d))"
  | "v = TurnStart \<or> v = ToolActivity" "l_state l = Working" "l_via l = v" "silent_for d now < 300"
      "l_confidence l = hookConfidence (fidelityFor (d_agent d))"
proof (cases v)
  case StructuredBlock
  with assms show thesis
    by (intro that(2))
      (auto simp: digest_rung_def Let_def silent_for_def structuredBlockDwellMs_def split: if_splits option.splits)
next
  case TurnStart
  with assms show thesis
    by (intro that(5)) (auto simp: digest_rung_def Let_def silent_for_def hookTrustSecs_def split: if_splits option.splits)
next
  case ToolActivity
  with assms show thesis
    by (intro that(5)) (auto simp: digest_rung_def Let_def silent_for_def hookTrustSecs_def split: if_splits option.splits)
next
  case DeclaredBlock
  with assms show thesis by (intro that(3)) (auto simp: digest_rung_def Let_def)
qed (use assms that in \<open>auto simp: digest_rung_def Let_def\<close>)

lemma digest_rung_wf:
  "digest_rung d v now = Some l \<Longrightarrow> l_reason l = None \<and> l_agent l = d_agent d
     \<and> l_since l = (case d_updated d of Some u \<Rightarrow> u | None \<Rightarrow> 0)"
  by (auto simp: digest_rung_def Let_def split: via.splits if_splits option.splits)

lemma live_rung_cases:
  assumes "live_rung p d agent now = Some l"
  obtains "painting p" "l_state l = Working" "l_confidence l = Inferred" "l_via l = OutputVia"
  | "\<not> painting p" "p_cpu p \<ge> 2" "l_state l = Working" "l_confidence l = Inferred" "l_via l = CpuVia"
  | "d = None" "l_state l = Starting" "l_confidence l = Inferred" "l_via l = StartupVia"
  using assms by (auto simp: live_rung_def Let_def quietCpuPercent_def split: if_splits)

lemma live_rung_wf: "live_rung p d agent now = Some l \<Longrightarrow> l_reason l = None"
  by (auto simp: live_rung_def Let_def split: if_splits)

lemma agentLife_cases:
  obtains (gone) "no_process ev" "l_state (agentLife ev) = Ended" "l_confidence (agentLife ev) = Proven"
      "l_via (agentLife ev) = ProcessGone" "l_reason (agentLife ev) = None"
  | (rung) d v where "\<not> no_process ev" "declares ev v d" "digest_rung d v (e_now ev) = Some (agentLife ev)"
  | (terminal) p where "\<not> no_process ev" "e_pty ev = Some (LivePty p)"
      "live_rung p (ev_digest ev) (case ev_digest ev of Some d \<Rightarrow> d_agent d | None \<Rightarrow> None) (e_now ev) = Some (agentLife ev)"
  | (none) "\<not> no_process ev" "l_state (agentLife ev) = Unknown" "l_confidence (agentLife ev) = Inferred"
      "l_via (agentLife ev) = NoVia" "l_reason (agentLife ev) = Some (why_unknown (ev_digest ev))"
proof -
  let ?live = "case e_pty ev of Some (LivePty p) \<Rightarrow> Some p | _ \<Rightarrow> None"
  let ?agent = "case ev_digest ev of Some d \<Rightarrow> d_agent d | None \<Rightarrow> None"
  let ?r = "case ev_digest ev of Some d' \<Rightarrow> (if usable d' then digest_rung d' (the (rungOf d')) (e_now ev) else None) | None \<Rightarrow> None"
  let ?t = "case ?live of Some p \<Rightarrow> live_rung p (ev_digest ev) ?agent (e_now ev) | None \<Rightarrow> None"
  show thesis
  proof (cases "no_process ev")
    case True
    then show thesis by (intro gone) (auto simp: no_process_def agentLife_def Let_def)
  next
    case alive: False
    then have L: "agentLife ev = (case ?r of Some l \<Rightarrow> l | None \<Rightarrow> (case ?t of Some l \<Rightarrow> l
        | None \<Rightarrow> say Unknown Inferred NoVia (e_now ev) (NUnknown (why_unknown (ev_digest ev)) (label_of ?agent)) ?agent
                    (Some (why_unknown (ev_digest ev)))))"
      by (auto simp: no_process_def agentLife_def Let_def split: option.splits pty_evidence.splits)
    show thesis
    proof (cases ?r)
      case (Some l)
      then obtain d where d: "ev_digest ev = Some d" "usable d" "digest_rung d (the (rungOf d)) (e_now ev) = Some l"
        by (auto split: option.splits if_splits)
      from Some L have l: "agentLife ev = l" by simp
      from d(1) have "e_digest ev = Some d" "d \<noteq> empty_digest" by (auto simp: ev_digest_def split: option.splits if_splits)
      with d alive l show thesis
        by (intro rung [of "the (rungOf d)" d]) (auto simp: declares_def usable_def split: option.splits)
    next
      case r: None
      show thesis
      proof (cases ?t)
        case (Some l)
        then obtain p where p: "e_pty ev = Some (LivePty p)" "live_rung p (ev_digest ev) ?agent (e_now ev) = Some l"
          by (auto split: option.splits pty_evidence.splits)
        with alive show thesis using Some r L by (intro terminal [of p]) simp_all
      next
        case None
        then show thesis using alive r L by (intro none) simp_all
      qed
    qed
  qed
qed

lemma hookConfidence_proven:
  "hookConfidence f = Proven \<longleftrightarrow> \<not> f_needsTrust f" "Proven = hookConfidence f \<longleftrightarrow> \<not> f_needsTrust f"
  by (auto simp: hookConfidence_def)

text \<open>C13: nothing is reclaimed on a guess. Whatever the evidence, a session may be reclaimed
  (hibernated, killed, forgotten) only if no block is outstanding and either the terminal shows
  that no agent process is left, or a digest of this launch, not read from a CLI's own store, says
  so through a rung the CLI's manifest row can emit: the session's end, or a turn boundary of a
  CLI whose hooks need no trust step.\<close>

theorem reclaimable_needs_proof:
  assumes "reclaimable (agentLife ev) att"
  shows "\<not> is_blocked att \<and>
    (no_process ev
     \<or> (\<exists>d. declares ev SessionEnd d \<and> f_endsSession (fidelityFor (d_agent d)) \<noteq> [])
     \<or> (\<exists>d. declares ev TurnBoundary d \<and> f_endsTurn (fidelityFor (d_agent d)) \<noteq> [] \<and> \<not> f_needsTrust (fidelityFor (d_agent d))))"
proof -
  from assms have s: "l_state (agentLife ev) = Idle \<or> l_state (agentLife ev) = Ended" "l_confidence (agentLife ev) = Proven"
    "\<not> is_blocked att"
    by (auto simp: reclaimable_def split: if_splits)
  show ?thesis
  proof (cases ev rule: agentLife_cases)
    case gone
    with s show ?thesis by simp
  next
    case (rung d v)
    from rung(3) show ?thesis
      by (rule digest_rung_cases)
        (use s rung(2) in \<open>auto simp: hookConfidence_proven declares_def reachable_rung_def\<close>)
  next
    case (terminal p)
    from terminal(3) show ?thesis by (rule live_rung_cases) (use s in auto)
  next
    case none
    with s show ?thesis by simp
  qed
qed

definition demo_idle :: life_evidence where
  "demo_idle = \<lparr>e_digest = Some (empty_digest\<lparr>d_state_via := Some ''turn-boundary'', d_agent := Some ''claude'', d_updated := Some 90\<rparr>),
     e_pty = Some (LivePty \<lparr>p_hint = Some \<lparr>h_bin = ''claude'', h_interactive = True\<rparr>, p_cpu = 50, p_quietForMs = Some 10,
        p_sinceInputMs = None, p_firstSeen = None\<rparr>), e_now = 100\<rparr>"

theorem reclaimable_needs_proof_witness:
  "\<exists>d. declares demo_idle TurnBoundary d \<and> f_endsTurn (fidelityFor (d_agent d)) \<noteq> []"
proof -
  have r: "reclaimable (agentLife demo_idle) NoAttention" by code_simp
  have "\<not> no_process demo_idle" by (simp add: no_process_def demo_idle_def)
  moreover have "\<not> declares demo_idle SessionEnd d" for d
    by (auto simp: declares_def demo_idle_def rungOf_def truthy_def via_of_def empty_digest_def)
  ultimately show ?thesis using reclaimable_needs_proof [OF r] by blast
qed


lemma declares_usable: "declares ev v d \<Longrightarrow> ev_digest ev = Some d \<and> usable d \<and> rungOf d = Some v"
  by (auto simp: declares_def ev_digest_def usable_def)

lemma declared_ended: "\<not> no_process ev \<Longrightarrow> declares ev SessionEnd d \<Longrightarrow> l_state (agentLife ev) = Ended"
  by (drule declares_usable) (auto simp: agentLife_def Let_def digest_rung_def no_process_def split: option.splits pty_evidence.splits)

text \<open>what each verdict stands on. Ended: exactly when no process is left or the digest declares
  the session's end. Working: the terminal paints or its processes are busy, or a turn event is
  less than the trust window old. Waiting: a block the CLI can emit, past the dwell where its row
  asks for one. Idle: a turn boundary. Unknown exactly when a reason is given, and then only
  inferred.\<close>

theorem life_stands_on_evidence:
  "(l_state (agentLife ev) = Ended \<longleftrightarrow> no_process ev \<or> (\<exists>d. declares ev SessionEnd d))
   \<and> (l_state (agentLife ev) = Working \<longrightarrow> \<not> no_process ev
        \<and> ((\<exists>p. e_pty ev = Some (LivePty p) \<and> (painting p \<or> p_cpu p \<ge> 2))
           \<or> (\<exists>d v. (v = TurnStart \<or> v = ToolActivity) \<and> declares ev v d \<and> silent_for d (e_now ev) < 300)))
   \<and> (l_state (agentLife ev) = Waiting \<longrightarrow> \<not> no_process ev
        \<and> (\<exists>d. declares ev DeclaredBlock d
              \<or> declares ev StructuredBlock d
                \<and> \<not> (f_dwell (fidelityFor (d_agent d)) \<and> (\<exists>u. d_updated d = Some u \<and> u > 0) \<and> silent_for d (e_now ev) * 1000 < 2000)))
   \<and> (l_state (agentLife ev) = Idle \<longrightarrow> \<not> no_process ev \<and> (\<exists>d. declares ev TurnBoundary d))
   \<and> (l_state (agentLife ev) = Unknown \<longleftrightarrow> l_reason (agentLife ev) \<noteq> None)
   \<and> (l_state (agentLife ev) = Unknown \<longrightarrow> l_confidence (agentLife ev) = Inferred)"
proof (cases ev rule: agentLife_cases)
  case gone
  then show ?thesis by simp
next
  case (rung d v)
  note wf = digest_rung_wf [OF rung(3)] and ended = declared_ended [OF rung(1)]
  from rung(3) show ?thesis
    by (rule digest_rung_cases) (use rung(1,2) wf ended in \<open>auto\<close>)
next
  case (terminal p)
  note wf = live_rung_wf [OF terminal(3)] and ended = declared_ended [OF terminal(1)]
  from terminal(3) show ?thesis
    by (rule live_rung_cases) (use terminal(1,2) wf ended in \<open>auto\<close>)
next
  case none
  with declared_ended [OF none(1)] show ?thesis by auto
qed

theorem life_stands_on_evidence_witness:
  "l_state (agentLife demo_idle) = Idle \<and> (\<exists>d. declares demo_idle TurnBoundary d)"
proof -
  have "l_state (agentLife demo_idle) = Idle" by code_simp
  with life_stands_on_evidence [of demo_idle] show ?thesis by simp
qed

definition retracts :: "attention_input \<Rightarrow> bool" where
  "retracts i =
     (case i of
        AHook _ s \<Rightarrow> s \<in> {HTurnStart, HTurnProgress, HTurnEnd, HSessionEnd}
      | ALife _ l \<Rightarrow> l_state l = Ended
      | _ \<Rightarrow> False)"

lemma block_step: "is_blocked a \<Longrightarrow> is_blocked (reduceAttention cli a i) \<longleftrightarrow> \<not> retracts i"
  by (auto simp: reduceAttention_def is_blocked_def is_unseen_def retracts_def split: attention.splits attention_input.splits hook_signal.splits)

text \<open>a block is the agent's claim, and only the agent retracts it. Through any sequence of
  inputs a block stays up (or is replaced by a newer one) exactly until a hook says a turn started,
  progressed or ended, the session closed, or the lifecycle says it ended: focus, bells and quiet
  terminals never clear it.\<close>

theorem block_survives_inputs:
  assumes "is_blocked a" "\<forall>i \<in> set inputs. \<not> retracts i"
  shows "is_blocked (foldl (reduceAttention cli) a inputs)
    \<and> (retracts j \<longrightarrow> \<not> is_blocked (foldl (reduceAttention cli) a (inputs @ [j])))"
proof -
  have "is_blocked (foldl (reduceAttention cli) a inputs)"
    using assms by (induction inputs arbitrary: a) (simp_all add: block_step)
  then show ?thesis by (simp add: block_step)
qed

theorem block_survives_inputs_witness:
  "is_blocked (foldl (reduceAttention None) (Blocked 1 Question) [AFocus 2 True, AOsc 3 [], AQuiet 4])"
  by (rule block_survives_inputs [where j = "AFocus 5 True", THEN conjunct1]) (auto simp: is_blocked_def retracts_def)

text \<open>the one order of every session list is a total preorder that never puts a session that
  needs the person below one that is working, or a working one below a quiet one.\<close>

theorem rankSessions_total_preorder:
  "rankSessions a b = - rankSessions b a
   \<and> (rankSessions a b \<le> 0 \<and> rankSessions b c \<le> 0 \<longrightarrow> rankSessions a c \<le> 0)
   \<and> (BAND (bucketFor (r_life a) (r_attention a)) < BAND (bucketFor (r_life b) (r_attention b)) \<longrightarrow> rankSessions a b < 0)"
  by (auto simp: rankSessions_def Let_def split: if_splits)

theorem rankSessions_total_preorder_witness:
  "rankSessions \<lparr>r_life = say Waiting Proven StructuredBlock 1 NReportedClosed None None, r_attention = NoAttention, r_updated = Some 1\<rparr>
     \<lparr>r_life = say Working Proven TurnStart 9 NReportedClosed None None, r_attention = NoAttention, r_updated = Some 9\<rparr> < 0"
  by (rule rankSessions_total_preorder [THEN conjunct2, THEN conjunct2, rule_format]) (simp add: BAND_def bucketFor_def)

section \<open>The two sources of a binding\<close>

text \<open>The events that stamp a terminal, and what the fold over them keeps: one of the newest.\<close>

definition stamps :: "rat \<Rightarrow> bindable_event \<Rightarrow> bool" where
  "stamps pty e \<longleftrightarrow> ev_pty e = Some pty \<and> truthy (ev_sessionId e)"

definition newest_stamp :: "bindable_event list \<Rightarrow> rat \<Rightarrow> (string \<times> rat) option \<Rightarrow> bool" where
  "newest_stamp es pty r \<longleftrightarrow>
     (case r of
        None \<Rightarrow> \<forall>e \<in> set es. \<not> stamps pty e
      | Some (sid, ts) \<Rightarrow> (\<exists>e \<in> set es. stamps pty e \<and> ev_sessionId e = Some sid \<and> ev_ts e = ts)
          \<and> (\<forall>e \<in> set es. stamps pty e \<longrightarrow> ev_ts e \<le> ts))"

lemma newest_stamp_step:
  assumes "newest_stamp es pty (map_of m pty)"
  shows "newest_stamp (es @ [e]) pty (map_of (note_event m e) pty)"
proof (cases "stamps pty e")
  case False
  then have "map_of (note_event m e) pty = map_of m pty"
    by (auto simp: note_event_def stamps_def map_of_alist_update split: option.splits)
  with assms False show ?thesis by (auto simp: newest_stamp_def split: option.splits)
next
  case True
  then obtain sid where sid: "ev_pty e = Some pty" "ev_sessionId e = Some sid" "truthy (ev_sessionId e)"
    by (auto simp: stamps_def truthy_def)
  show ?thesis
  proof (cases "map_of m pty")
    case None
    with sid have "map_of (note_event m e) pty = Some (sid, ev_ts e)"
      by (simp add: note_event_def map_of_alist_update)
    with assms None True sid show ?thesis by (simp add: newest_stamp_def)
  next
    case (Some st)
    then obtain s t where st: "map_of m pty = Some (s, t)" by (cases st) auto
    with sid have "map_of (note_event m e) pty = (if ev_ts e \<ge> t then Some (sid, ev_ts e) else Some (s, t))"
      by (simp add: note_event_def map_of_alist_update)
    with assms st True sid show ?thesis by (auto simp: newest_stamp_def)
  qed
qed

lemma newest_stamp_fold: "newest_stamp es pty (map_of (event_stamps es) pty)"
  unfolding event_stamps_def
  by (induction es rule: rev_induct) (simp add: newest_stamp_def, simp add: newest_stamp_step)

lemma fold_stamps:
  "map_of (foldl (\<lambda>m (pty, sid, _). AList.update pty sid m) m0 xs) pty
     = (case map_of (rev xs) pty of Some (sid, _) \<Rightarrow> Some sid | None \<Rightarrow> map_of m0 pty)"
  by (induction xs arbitrary: m0) (auto simp: map_of_alist_update map_add_def split: option.splits)

lemma distinct_note_event: "distinct (map fst m) \<Longrightarrow> distinct (map fst (note_event m e))"
  by (auto simp: note_event_def split: option.splits)

lemma distinct_event_stamps: "distinct (map fst (event_stamps es))"
  unfolding event_stamps_def by (induction es rule: rev_induct) (simp_all add: distinct_note_event)

lemma bind_surface_keeps: "map_of m pty = Some sid \<Longrightarrow> map_of (foldl bind_surface m sds) pty = Some sid"
proof (induction sds arbitrary: m)
  case (Cons sd sds)
  have "map_of (bind_surface m sd) pty = Some sid"
    using Cons.prems by (auto simp: bind_surface_def map_of_alist_update split: option.splits)
  from Cons.IH [OF this] show ?case by simp
qed simp

text \<open>The digests a surface may be bound by, and what the fold over them keeps.\<close>

definition eligible :: "string option \<Rightarrow> string \<Rightarrow> bindable_digest \<Rightarrow> bool" where
  "eligible inst surf d \<longleftrightarrow> b_surface d = Some surf \<and> surf \<noteq> '''' \<and> (truthy inst \<longrightarrow> b_instance d = inst)"

definition newest_surface :: "string option \<Rightarrow> bindable_digest list \<Rightarrow> string \<Rightarrow> bindable_digest option \<Rightarrow> bool" where
  "newest_surface inst ds surf r \<longleftrightarrow>
     (case r of
        None \<Rightarrow> \<forall>d \<in> set ds. \<not> eligible inst surf d
      | Some x \<Rightarrow> x \<in> set ds \<and> eligible inst surf x
          \<and> (\<forall>d \<in> set ds. eligible inst surf d \<longrightarrow> updated_or_zero (d_updated d) \<le> updated_or_zero (d_updated x)))"

lemma newest_surface_step:
  assumes "newest_surface inst ds surf (map_of m surf)"
  shows "newest_surface inst (ds @ [d]) surf (map_of (note_surface inst m d) surf)"
proof (cases "eligible inst surf d")
  case False
  then have "map_of (note_surface inst m d) surf = map_of m surf"
    by (auto simp: note_surface_def eligible_def truthy_def map_of_alist_update)
  with assms False show ?thesis by (auto simp: newest_surface_def split: option.splits)
next
  case True
  then have "b_surface d = Some surf" "truthy (b_surface d)" "truthy inst \<longrightarrow> b_instance d = inst"
    by (auto simp: eligible_def truthy_def)
  then have "map_of (note_surface inst m d) surf = (if newer d (map_of m surf) then Some d else map_of m surf)"
    by (auto simp: note_surface_def map_of_alist_update)
  with assms True show ?thesis
    by (auto simp: newest_surface_def newer_def split: option.splits)
qed

lemma newest_surface_fold: "newest_surface inst ds surf (map_of (foldl (note_surface inst) [] ds) surf)"
  by (induction ds rule: rev_induct) (simp add: newest_surface_def, simp add: newest_surface_step)

lemma distinct_note_surface: "distinct (map fst m) \<Longrightarrow> distinct (map fst (note_surface inst m d))"
  by (auto simp: note_surface_def)

lemma distinct_by_surface: "distinct (map fst (by_surface snap))"
proof -
  have "distinct (map fst (foldl (note_surface inst) [] ds))" for inst ds
    by (induction ds rule: rev_induct) (simp_all add: distinct_note_surface)
  then show ?thesis by (simp add: by_surface_def)
qed

text \<open>a session is declared gone only on authority. If it is among the ended sessions, some
  digest of it names a numbered terminal that is not alive, is stamped with a launch (this one,
  when it is known), and no digest that may speak for that terminal is newer. And a terminal that
  hook events stamped is bound to the session of its newest stamp, whatever the seeds and the
  recorded surfaces say.\<close>

theorem bindings_have_authority:
  "(sid \<in> bd_endedSessions (resolveSessions snap) \<longrightarrow>
      (\<exists>d surf pty. d \<in> set (bs_digests snap) \<and> b_session_id d = sid \<and> eligible (bs_instance snap) surf d
         \<and> js_number surf = Some pty \<and> pty \<notin> bs_livePtys snap \<and> truthy (b_instance d)
         \<and> (\<forall>d' \<in> set (bs_digests snap). eligible (bs_instance snap) surf d' \<longrightarrow>
               updated_or_zero (d_updated d') \<le> updated_or_zero (d_updated d))))
   \<and> ((\<exists>e \<in> set (bs_events snap). stamps pty e) \<longrightarrow>
      (\<exists>e \<in> set (bs_events snap). stamps pty e
         \<and> map_of (bd_sessionByPty (resolveSessions snap)) pty = ev_sessionId e
         \<and> (\<forall>e' \<in> set (bs_events snap). stamps pty e' \<longrightarrow> ev_ts e' \<le> ev_ts e)))"
proof (intro conjI impI)
  assume "sid \<in> bd_endedSessions (resolveSessions snap)"
  then obtain surf d where sd: "(surf, d) \<in> set (by_surface snap)" "sid \<in> set (ended_of snap (surf, d))"
    by (auto simp: resolveSessions_def)
  have "newest_surface (bs_instance snap) (bs_digests snap) surf (Some d)"
    using newest_surface_fold [of "bs_instance snap" "bs_digests snap" surf] sd(1) distinct_by_surface [of snap]
    by (simp add: by_surface_def)
  moreover from sd(2) obtain p where "js_number surf = Some p" "p \<notin> bs_livePtys snap" "truthy (b_instance d)" "b_session_id d = sid"
    by (cases "js_number surf") (auto simp: ended_of_def split: if_splits)
  ultimately show "\<exists>d surf pty. d \<in> set (bs_digests snap) \<and> b_session_id d = sid \<and> eligible (bs_instance snap) surf d
      \<and> js_number surf = Some pty \<and> pty \<notin> bs_livePtys snap \<and> truthy (b_instance d)
      \<and> (\<forall>d' \<in> set (bs_digests snap). eligible (bs_instance snap) surf d' \<longrightarrow>
            updated_or_zero (d_updated d') \<le> updated_or_zero (d_updated d))"
    by (auto simp: newest_surface_def)
next
  assume "\<exists>e \<in> set (bs_events snap). stamps pty e"
  with newest_stamp_fold [of "bs_events snap" pty] obtain s ts e where m: "map_of (event_stamps (bs_events snap)) pty = Some (s, ts)"
    and e: "e \<in> set (bs_events snap)" "stamps pty e" "ev_sessionId e = Some s" "ev_ts e = ts"
      "\<forall>e' \<in> set (bs_events snap). stamps pty e' \<longrightarrow> ev_ts e' \<le> ts"
    unfolding newest_stamp_def by (auto split: option.splits)
  have "map_of (rev (event_stamps (bs_events snap))) pty = Some (s, ts)"
    using m distinct_event_stamps [of "bs_events snap"] map_of_inject_set [of "rev (event_stamps (bs_events snap))" "event_stamps (bs_events snap)"]
    by (simp add: rev_map [symmetric])
  then have "map_of (bd_sessionByPty (resolveSessions snap)) pty = Some s"
    unfolding resolveSessions_def session_by_pty_def by (simp add: fold_stamps bind_surface_keeps)
  with e show "\<exists>e \<in> set (bs_events snap). stamps pty e
      \<and> map_of (bd_sessionByPty (resolveSessions snap)) pty = ev_sessionId e
      \<and> (\<forall>e' \<in> set (bs_events snap). stamps pty e' \<longrightarrow> ev_ts e' \<le> ev_ts e)" by auto
qed

definition demo_snapshot :: bind_snapshot where
  "demo_snapshot =
     (let d = \<lambda>sid surf. \<lparr>d_state = None, d_state_via = None, d_confidence = None, d_updated = Some 1, d_agent = None,
            d_store = None, d_foreign = None, b_session_id = sid, b_surface = Some surf, b_instance = Some ''i''\<rparr>
      in \<lparr>bs_digests = [d ''s'' ''1'', d ''t'' ''2''], bs_events = [\<lparr>ev_ts = 5, ev_pty = Some 2, ev_sessionId = Some ''u''\<rparr>],
          bs_instance = Some ''i'', bs_livePtys = {2}, bs_seeds = [(2, ''w'')]\<rparr>)"

theorem bindings_have_authority_witness:
  "map_of (bd_sessionByPty (resolveSessions demo_snapshot)) 2 = Some ''u''
   \<and> (\<exists>d \<in> set (bs_digests demo_snapshot). b_session_id d = ''s'' \<and> b_surface d \<noteq> None)"
proof -
  have "''s'' \<in> bd_endedSessions (resolveSessions demo_snapshot)" by code_simp
  with bindings_have_authority [of "''s''" demo_snapshot 2]
  have "\<exists>d \<in> set (bs_digests demo_snapshot). b_session_id d = ''s'' \<and> b_surface d \<noteq> None" by (auto simp: eligible_def)
  moreover have "stamps 2 \<lparr>ev_ts = 5, ev_pty = Some 2, ev_sessionId = Some ''u''\<rparr>" by (simp add: stamps_def truthy_def)
  with bindings_have_authority [of "''s''" demo_snapshot 2]
  have "map_of (bd_sessionByPty (resolveSessions demo_snapshot)) 2 = Some ''u''"
    by (simp add: demo_snapshot_def Let_def)
  ultimately show ?thesis by blast
qed

end
