(* ===== verification/Failover.thy ===== *)
theory Failover
  imports JsText Complex_Main "HOL-Library.Product_Lexorder" "HOL-Library.Multiset"
begin

text \<open>
  Which route (a CLI under an account profile) runs a task and what happens when it fails.

  \<^item> \<^verbatim>\<open>src/src/failureClassifier.ts\<close> with \<^verbatim>\<open>src/shared/agentFailures/signatures.json\<close>: a failure's
    class from its text, and the promotion of a signature seen on two routes.
  \<^item> \<^verbatim>\<open>src/src/fleetState.ts\<close>: the health of one route, the launch gate, the health order.
  \<^item> \<^verbatim>\<open>src/src/modelRouting.ts\<close>: the tier of a model name and the model for a class of task. The
    regular expressions are written out as prefix and suffix tests.
  \<^item> \<^verbatim>\<open>src/src/vibeFailover.ts\<close>: the ranked routes and the failover decision. The sentence shown to
    the person is kept as the constructor of \<open>narration\<close> that names it.
\<close>

section \<open>Classifying a failure\<close>

datatype failure_class = Transient | RouteClass | TaskClassF | UnknownClass

record verdict =
  v_class :: failure_class
  v_signature :: "string option"

record signature_row =
  sg_id :: string
  sg_class :: failure_class
  sg_patterns :: "string list"

definition row :: "string \<Rightarrow> failure_class \<Rightarrow> string list \<Rightarrow> signature_row" where
  "row i c ps = \<lparr>sg_id = i, sg_class = c, sg_patterns = ps\<rparr>"

definition generic_signatures :: "signature_row list" where
  "generic_signatures =
    [row ''rate-limited'' RouteClass [''rate limit'', ''429'', ''too many requests''],
     row ''quota-exhausted'' RouteClass [''usage limit'', ''quota exceeded'', ''out of credits'', ''insufficient credits'', ''plan limit''],
     row ''auth-expired'' RouteClass [''unauthorized'', ''401'', ''authentication failed'', ''token expired'', ''please log in'', ''not logged in''],
     row ''provider-down'' Transient [''overloaded'', ''503'', ''502'', ''500 internal'', ''service unavailable'', ''internal server error''],
     row ''network'' Transient [''econnreset'', ''econnrefused'', ''etimedout'', ''network error'', ''connection reset'', ''dns''],
     row ''timeout'' Transient [''timed out'', ''timeout'', ''deadline exceeded''],
     row ''context-overflow'' TaskClassF [''context length'', ''context window'', ''prompt is too long'', ''maximum context''],
     row ''tool-permission-denied'' TaskClassF [''requested permissions to use'']]"

definition cli_signatures :: "(string \<times> signature_row list) list" where
  "cli_signatures = []"

definition signature_rows :: "string option \<Rightarrow> signature_row list" where
  "signature_rows agent =
     (case agent of
        None \<Rightarrow> []
      | Some a \<Rightarrow> (if a = '''' then [] else case map_of cli_signatures a of Some rs \<Rightarrow> rs | None \<Rightarrow> []))
     @ generic_signatures"

fun classify_rows :: "js_string \<Rightarrow> signature_row list \<Rightarrow> verdict" where
  "classify_rows text [] = \<lparr>v_class = UnknownClass, v_signature = None\<rparr>"
| "classify_rows text (sg # sgs) =
     (if list_ex (\<lambda>p. js_includes (js p) text) (sg_patterns sg)
      then \<lparr>v_class = sg_class sg, v_signature = Some (sg_id sg)\<rparr>
      else classify_rows text sgs)"

definition classifyFailure :: "string option \<Rightarrow> js_string \<Rightarrow> verdict" where
  "classifyFailure agent text = classify_rows (js_lower text) (signature_rows agent)"

record attempt_outcome =
  ao_route :: string
  ao_verdict :: verdict

text \<open>The loop's map from a signature to the routes it was seen on; a set is a list without repetition.\<close>

fun promote_loop :: "(string \<times> string list) list \<Rightarrow> attempt_outcome list \<Rightarrow> failure_class option" where
  "promote_loop seen [] = None"
| "promote_loop seen (h # hs) =
     (case v_signature (ao_verdict h) of
        None \<Rightarrow> promote_loop seen hs
      | Some sg \<Rightarrow>
          (if sg = '''' \<or> v_class (ao_verdict h) \<notin> {RouteClass, TaskClassF} then promote_loop seen hs
           else let routes = List.insert (ao_route h) (case map_of seen sg of Some rs \<Rightarrow> rs | None \<Rightarrow> [])
                in if length routes \<ge> 2 then Some TaskClassF else promote_loop (AList.update sg routes seen) hs))"

definition promoteAcrossRoutes :: "attempt_outcome list \<Rightarrow> failure_class option" where
  "promoteAcrossRoutes history = promote_loop [] history"

section \<open>The health of a route\<close>

datatype account_state = SignedIn | SignedOut | AccountUnknown

record plan_usage =
  pu_windows :: "rat list"
  pu_observed :: rat

record integration_health =
  ih_hooks :: string
  ih_mcp :: string

record fleet_inputs =
  fi_agent :: string
  fi_profile :: string
  fi_installed :: bool
  fi_account :: "account_state option"
  fi_plan :: "plan_usage option"
  fi_health :: "integration_health option"

datatype fleet_reason = NotInstalled | SignedOutReason | AuthUnknown | PlanCritical | PlanWarn | PlanStale | IntegrationUnhealthy

definition FLEET_REASON_LABELS :: "fleet_reason \<Rightarrow> string" where
  "FLEET_REASON_LABELS r =
     (case r of
        NotInstalled \<Rightarrow> ''not installed'' | SignedOutReason \<Rightarrow> ''signed out'' | AuthUnknown \<Rightarrow> ''sign-in state unknown''
      | PlanCritical \<Rightarrow> ''plan nearly spent'' | PlanWarn \<Rightarrow> ''plan running low'' | PlanStale \<Rightarrow> ''usage reading is stale''
      | IntegrationUnhealthy \<Rightarrow> ''Canopy integration needs repair'')"

datatype fleet_kind = Ready | Degraded | Unusable

record fleet_state =
  fs_agent :: string
  fs_profile :: string
  fs_kind :: fleet_kind
  fs_reasons :: "fleet_reason list"

definition WARN_PERCENT :: rat where "WARN_PERCENT = 75"
definition CRITICAL_PERCENT :: rat where "CRITICAL_PERCENT = 90"
definition STALE_SECS :: rat where "STALE_SECS = 30 * 60"

definition planReasons :: "plan_usage option \<Rightarrow> rat \<Rightarrow> fleet_reason list" where
  "planReasons plan now =
     (case plan of
        None \<Rightarrow> []
      | Some p \<Rightarrow>
          (if pu_windows p = [] then []
           else let worst = foldl max 0 (pu_windows p); stale = (now / 1000 - pu_observed p \<ge> STALE_SECS)
                in (if worst \<ge> CRITICAL_PERCENT then [PlanCritical] else if worst \<ge> WARN_PERCENT then [PlanWarn] else [])
                   @ (if stale \<and> worst \<ge> WARN_PERCENT then [PlanStale] else [])))"

definition healthUnhealthy :: "integration_health option \<Rightarrow> bool" where
  "healthUnhealthy h =
     (case h of
        None \<Rightarrow> False
      | Some i \<Rightarrow> ih_hooks i \<in> {''missing'', ''foreign'', ''unreadable''} \<or> ih_mcp i \<in> {''missing'', ''foreign'', ''unreadable''})"

definition fleetState :: "fleet_inputs \<Rightarrow> rat \<Rightarrow> fleet_state" where
  "fleetState i now =
     (let state = (\<lambda>kind reasons. \<lparr>fs_agent = fi_agent i, fs_profile = fi_profile i, fs_kind = kind, fs_reasons = reasons\<rparr>)
      in if \<not> fi_installed i then state Unusable [NotInstalled]
         else if fi_account i = Some SignedOut then state Unusable [SignedOutReason]
         else
           let plan = planReasons (fi_plan i) now;
               reasons = plan @ (if fi_account i = Some AccountUnknown then [AuthUnknown] else [])
                 @ (if healthUnhealthy (fi_health i) then [IntegrationUnhealthy] else []);
               demoted = (PlanCritical \<in> set plan \<or> fi_account i = Some AccountUnknown)
           in state (if demoted then Degraded else Ready) reasons)"

fun join :: "string \<Rightarrow> string list \<Rightarrow> string" where
  "join sep [] = ''''"
| "join sep [x] = x"
| "join sep (x # y # xs) = x @ sep @ join sep (y # xs)"

definition fleetGate :: "fleet_state \<Rightarrow> bool \<times> string option" where
  "fleetGate s =
     (if fs_kind s \<noteq> Unusable
      then (True, case fs_reasons s of r # _ \<Rightarrow> Some (FLEET_REASON_LABELS r) | [] \<Rightarrow> None)
      else (False, Some (join '', '' (map FLEET_REASON_LABELS (fs_reasons s)))))"

definition KIND_RANK :: "fleet_kind \<Rightarrow> nat" where
  "KIND_RANK k = (case k of Ready \<Rightarrow> 0 | Degraded \<Rightarrow> 1 | Unusable \<Rightarrow> 2)"

text \<open>\<^verbatim>\<open>Array.sort\<close> is stable, and so is \<open>sort_key\<close>; the comparator is the lexicographic one.\<close>

definition fleet_rank :: "fleet_state \<Rightarrow> nat \<times> nat" where
  "fleet_rank s = (KIND_RANK (fs_kind s), length (fs_reasons s))"

definition rankFleet :: "fleet_state list \<Rightarrow> fleet_state list" where
  "rankFleet states = sort_key fleet_rank states"

section \<open>The model for a class of task\<close>

datatype routing_tier = Frontier | Workhorse | Fast

datatype task_class = TBuild | TSurvey | TFix | TVerify | TScan | TClassify | TTitle

definition TIER_FOR_CLASS :: "task_class \<Rightarrow> routing_tier" where
  "TIER_FOR_CLASS t =
     (case t of TBuild \<Rightarrow> Frontier | TSurvey \<Rightarrow> Workhorse | TFix \<Rightarrow> Workhorse | TVerify \<Rightarrow> Workhorse | TScan \<Rightarrow> Workhorse
      | TClassify \<Rightarrow> Fast | TTitle \<Rightarrow> Fast)"

datatype model_family = Anthropic | OpenAI | Google

definition starts :: "string \<Rightarrow> string \<Rightarrow> bool" where
  "starts p s \<longleftrightarrow> take (length p) s = p"

definition ends :: "string \<Rightarrow> string \<Rightarrow> bool" where
  "ends p s \<longleftrightarrow> length p \<le> length s \<and> drop (length s - length p) s = p"

text \<open>\<open>gpt_rest\<close>: what follows \<^verbatim>\<open>^gpt-[\d.]+\<close>; a version's digits and dots never reach past a dash.\<close>

definition version_char :: "char \<Rightarrow> bool" where
  "version_char c \<longleftrightarrow> c = CHR ''.'' \<or> (48 \<le> (of_char c :: nat) \<and> (of_char c :: nat) \<le> 57)"

definition gpt_rest :: "string \<Rightarrow> string option" where
  "gpt_rest s =
     (if starts ''gpt-'' s \<and> takeWhile version_char (drop 4 s) \<noteq> [] then Some (dropWhile version_char (drop 4 s)) else None)"

definition TIER_PATTERNS :: "model_family \<Rightarrow> (routing_tier \<times> (string \<Rightarrow> bool)) list" where
  "TIER_PATTERNS family =
     (case family of
        Anthropic \<Rightarrow>
          [(Frontier, \<lambda>s. s = ''fable'' \<or> s = ''opus'' \<or> starts ''claude-fable-'' s \<or> starts ''claude-opus-'' s),
           (Fast, \<lambda>s. s = ''haiku'' \<or> starts ''claude-haiku-'' s),
           (Workhorse, \<lambda>s. s = ''sonnet'' \<or> starts ''claude-sonnet-'' s)]
      | OpenAI \<Rightarrow>
          [(Fast, \<lambda>s. ends ''-luna'' s \<or> ends ''-mini'' s \<or> ends ''-nano'' s),
           (Frontier, \<lambda>s. ends ''-sol'' s \<or> gpt_rest s = Some ''-codex'' \<or> gpt_rest s = Some ''-codex-max''),
           (Workhorse, \<lambda>s. ends ''-terra'' s \<or> gpt_rest s = Some '''')]
      | Google \<Rightarrow>
          [(Fast, \<lambda>s. ends ''-flash-lite'' s \<or> ends ''-flash-lite-preview'' s),
           (Frontier, \<lambda>s. ends ''-pro'' s \<or> ends ''-pro-preview'' s),
           (Workhorse, \<lambda>s. ends ''-flash'' s)])"

fun first_tier :: "string \<Rightarrow> (routing_tier \<times> (string \<Rightarrow> bool)) list \<Rightarrow> routing_tier option" where
  "first_tier s [] = None"
| "first_tier s ((tier, test) # ts) = (if test s then Some tier else first_tier s ts)"

definition routingTierOf :: "model_family \<Rightarrow> string \<Rightarrow> routing_tier option" where
  "routingTierOf family s = first_tier s (TIER_PATTERNS family)"

definition FALLBACK :: "routing_tier \<Rightarrow> routing_tier list" where
  "FALLBACK want =
     (case want of Frontier \<Rightarrow> [Frontier, Workhorse, Fast] | Workhorse \<Rightarrow> [Workhorse, Fast, Frontier]
      | Fast \<Rightarrow> [Fast, Workhorse, Frontier])"

record model_choice =
  mc_id :: string
  mc_label :: string
  mc_hint :: string

fun route_tiers :: "model_family \<Rightarrow> routing_tier list \<Rightarrow> model_choice list \<Rightarrow> (model_choice \<times> routing_tier) option" where
  "route_tiers family [] choices = None"
| "route_tiers family (tier # tiers) choices =
     (case find (\<lambda>c. routingTierOf family (mc_id c) = Some tier) choices of
        Some c \<Rightarrow> Some (c, tier)
      | None \<Rightarrow> route_tiers family tiers choices)"

definition routeModel :: "model_family \<Rightarrow> routing_tier \<Rightarrow> model_choice list \<Rightarrow> (model_choice \<times> routing_tier) option" where
  "routeModel family want choices = route_tiers family (FALLBACK want) choices"

definition modelForClass :: "model_family \<Rightarrow> task_class \<Rightarrow> model_choice list \<Rightarrow> (model_choice \<times> routing_tier) option" where
  "modelForClass family task choices = routeModel family (TIER_FOR_CLASS task) choices"

section \<open>Ranked routes and the failover decision\<close>

text \<open>The registry of runners that can stream, each with a dated verification.\<close>

definition streamsStructured :: "string \<Rightarrow> bool" where
  "streamsStructured cli \<longleftrightarrow> cli \<in> {''claude'', ''codex'', ''cursor''}"

record route_candidate =
  rc_cli :: string
  rc_profileId :: string
  rc_family :: model_family
  rc_state :: fleet_state
  rc_choices :: "model_choice list"

record selected_route =
  sr_cli :: string
  sr_profileId :: string
  sr_requestedModel :: "string option"
  sr_tier :: routing_tier
  sr_degradedTier :: bool
  sr_caveat :: "string option"

definition route_key :: "string \<Rightarrow> string \<Rightarrow> string" where
  "route_key cli profile = cli @ '':'' @ profile"

definition stateKey :: "fleet_state \<Rightarrow> string" where
  "stateKey s = route_key (fs_agent s) (fs_profile s)"

definition preferred_first :: "string option \<Rightarrow> route_candidate list \<Rightarrow> route_candidate list" where
  "preferred_first preferredCli candidates =
     (case preferredCli of
        None \<Rightarrow> candidates
      | Some p \<Rightarrow> (if p = '''' then candidates else sort_key (\<lambda>c. if rc_cli c = p then 0 else 1 :: nat) candidates))"

definition by_key :: "route_candidate list \<Rightarrow> (string \<times> route_candidate) list" where
  "by_key cs = foldl (\<lambda>m c. AList.update (stateKey (rc_state c)) c m) [] cs"

definition select_route :: "(string \<times> route_candidate) list \<Rightarrow> task_class \<Rightarrow> fleet_state \<Rightarrow> selected_route list" where
  "select_route keyed task state =
     (case map_of keyed (stateKey state) of
        None \<Rightarrow> []
      | Some c \<Rightarrow>
          (case modelForClass (rc_family c) task (rc_choices c) of
             None \<Rightarrow> []
           | Some (choice, tier) \<Rightarrow>
               [\<lparr>sr_cli = rc_cli c, sr_profileId = rc_profileId c, sr_requestedModel = Some (mc_id choice), sr_tier = tier,
                 sr_degradedTier = (tier \<noteq> TIER_FOR_CLASS task), sr_caveat = snd (fleetGate state)\<rparr>]))"

definition rankRoutes :: "route_candidate list \<Rightarrow> task_class \<Rightarrow> string option \<Rightarrow> selected_route list" where
  "rankRoutes candidates task preferredCli =
     (let ordered = preferred_first preferredCli candidates;
          allowed = filter (\<lambda>c. streamsStructured (rc_cli c) \<and> fst (fleetGate (rc_state c))) ordered
      in concat (map (select_route (by_key ordered) task) (rankFleet (map rc_state allowed))))"

datatype narration =
    SameProblemTwice | RetriesSpent | CanopyFault | AboutTheWork | Unidentified | TryingOnceMore
  | TemporaryProblem string | NoOtherAgent string | Switched string "string option" string

datatype failover_action =
    RetrySame string narration
  | SwitchRoute selected_route string narration
  | StopRun string narration

record failover_input =
  fo_agent :: "string option"
  fo_text :: js_string
  fo_history :: "attempt_outcome list"
  fo_cli :: string
  fo_profileId :: string
  fo_candidates :: "route_candidate list"
  fo_task :: task_class
  fo_attemptsUsed :: int
  fo_attemptCap :: int

definition or_else :: "string option \<Rightarrow> string \<Rightarrow> string" where
  "or_else s d = (case s of Some x \<Rightarrow> x | None \<Rightarrow> d)"

definition alternatives :: "failover_input \<Rightarrow> selected_route list" where
  "alternatives i =
     filter (\<lambda>r. route_key (sr_cli r) (sr_profileId r) \<noteq> route_key (fo_cli i) (fo_profileId i))
       (rankRoutes (fo_candidates i) (fo_task i) None)"

definition failoverDecision :: "failover_input \<Rightarrow> failover_action \<times> verdict" where
  "failoverDecision i =
     (let verdict = classifyFailure (fo_agent i) (fo_text i);
          mine = \<lparr>ao_route = route_key (fo_cli i) (fo_profileId i), ao_verdict = verdict\<rparr>;
          history = fo_history i @ [mine]
      in if promoteAcrossRoutes history = Some TaskClassF then (StopRun ''signature-seen-on-two-routes'' SameProblemTwice, verdict)
         else if fo_attemptsUsed i \<ge> fo_attemptCap i then (StopRun ''attempt-cap-reached'' RetriesSpent, verdict)
         else
           (case v_class verdict of
              TaskClassF \<Rightarrow>
                (StopRun (or_else (v_signature verdict) ''task-failure'')
                   (if v_signature verdict = Some ''tool-permission-denied'' then CanopyFault else AboutTheWork), verdict)
            | UnknownClass \<Rightarrow>
                (if list_ex (\<lambda>h. v_class (ao_verdict h) = UnknownClass) (fo_history i)
                 then (StopRun ''unclassified-failure-repeated'' Unidentified, verdict)
                 else (RetrySame ''unclassified-failure'' TryingOnceMore, verdict))
            | Transient \<Rightarrow> (RetrySame (or_else (v_signature verdict) ''transient'') (TemporaryProblem (fo_cli i)), verdict)
            | RouteClass \<Rightarrow>
                (case alternatives i of
                   [] \<Rightarrow> (StopRun ''no-alternate-route'' (NoOtherAgent (fo_cli i)), verdict)
                 | to # _ \<Rightarrow>
                     (SwitchRoute to (or_else (v_signature verdict) ''route-failure'')
                        (Switched (fo_cli i) (v_signature verdict) (sr_cli to)), verdict))))"

section \<open>The route as it is recorded\<close>

record route_versions =
  rv_harness :: string
  rv_prompt :: string
  rv_toolPolicy :: string

record resolved_route =
  rr_cli :: string
  rr_cliVersion :: "string option"
  rr_executableFingerprint :: "string option"
  rr_profileId :: string
  rr_requestedModel :: "string option"
  rr_observedModel :: "string option"
  rr_versions :: route_versions
  rr_policy :: string
  rr_eligible :: "string list"
  rr_degradedTier :: "bool option"
  rr_caveat :: "string option"

definition resolveRoute :: "selected_route \<Rightarrow> selected_route list \<Rightarrow> route_versions \<Rightarrow> string option \<Rightarrow> resolved_route" where
  "resolveRoute chosen eligible versions cliVersion =
     \<lparr>rr_cli = sr_cli chosen, rr_cliVersion = cliVersion, rr_executableFingerprint = None, rr_profileId = sr_profileId chosen,
      rr_requestedModel = sr_requestedModel chosen, rr_observedModel = None, rr_versions = versions,
      rr_policy = ''vibe-fleet-ranked-1'', rr_eligible = map (\<lambda>r. route_key (sr_cli r) (sr_profileId r)) eligible,
      rr_degradedTier = Some (sr_degradedTier chosen), rr_caveat = sr_caveat chosen\<rparr>"

definition unresolvedRoute :: "string \<Rightarrow> route_versions \<Rightarrow> resolved_route" where
  "unresolvedRoute cli versions =
     \<lparr>rr_cli = cli, rr_cliVersion = None, rr_executableFingerprint = None, rr_profileId = '''', rr_requestedModel = None,
      rr_observedModel = None, rr_versions = versions, rr_policy = ''unresolved'', rr_eligible = [],
      rr_degradedTier = None, rr_caveat = None\<rparr>"

section \<open>Promotion\<close>

definition counts :: "attempt_outcome \<Rightarrow> bool" where
  "counts h \<longleftrightarrow> v_class (ao_verdict h) \<in> {RouteClass, TaskClassF} \<and> v_signature (ao_verdict h) \<notin> {None, Some ''''}"

definition twice :: "attempt_outcome list \<Rightarrow> bool" where
  "twice hs \<longleftrightarrow> (\<exists>h \<in> set hs. \<exists>h' \<in> set hs. counts h \<and> counts h'
     \<and> v_signature (ao_verdict h) = v_signature (ao_verdict h') \<and> ao_route h \<noteq> ao_route h')"

definition routes_of :: "string \<Rightarrow> attempt_outcome list \<Rightarrow> string set" where
  "routes_of sg hs = ao_route ` {h \<in> set hs. counts h \<and> v_signature (ao_verdict h) = Some sg}"

lemma twice_routes: "twice hs \<longleftrightarrow> (\<exists>sg. \<exists>r \<in> routes_of sg hs. \<exists>r' \<in> routes_of sg hs. r \<noteq> r')"
proof
  assume "twice hs"
  then obtain h h' where h: "h \<in> set hs" "h' \<in> set hs" "counts h" "counts h'"
    "v_signature (ao_verdict h) = v_signature (ao_verdict h')" "ao_route h \<noteq> ao_route h'"
    unfolding twice_def by blast
  then obtain sg where "v_signature (ao_verdict h) = Some sg" by (auto simp: counts_def)
  with h have "ao_route h \<in> routes_of sg hs" "ao_route h' \<in> routes_of sg hs" by (auto simp: routes_of_def)
  with h(6) show "\<exists>sg. \<exists>r \<in> routes_of sg hs. \<exists>r' \<in> routes_of sg hs. r \<noteq> r'" by blast
next
  assume "\<exists>sg. \<exists>r \<in> routes_of sg hs. \<exists>r' \<in> routes_of sg hs. r \<noteq> r'"
  then show "twice hs" unfolding twice_def routes_of_def by fastforce
qed

definition looked :: "(string \<times> string list) list \<Rightarrow> string \<Rightarrow> string list" where
  "looked seen sg = (case map_of seen sg of Some rs \<Rightarrow> rs | None \<Rightarrow> [])"

lemma looked_update: "looked (AList.update k rs seen) sg = (if sg = k then rs else looked seen sg)"
  by (simp add: looked_def map_of_alist_update)

lemma routes_of_snoc:
  "routes_of sg (hs @ [h]) = (if counts h \<and> v_signature (ao_verdict h) = Some sg then insert (ao_route h) (routes_of sg hs) else routes_of sg hs)"
  by (auto simp: routes_of_def)

lemma routes_of_mono: "set hs \<subseteq> set ks \<Longrightarrow> routes_of sg hs \<subseteq> routes_of sg ks"
  by (auto simp: routes_of_def)

definition seen_ok :: "(string \<times> string list) list \<Rightarrow> attempt_outcome list \<Rightarrow> bool" where
  "seen_ok seen hs \<longleftrightarrow> (\<forall>sg. distinct (looked seen sg) \<and> set (looked seen sg) = routes_of sg hs \<and> length (looked seen sg) < 2)"

lemma seen_ok_not_twice: "seen_ok seen hs \<Longrightarrow> \<not> twice hs"
proof
  assume s: "seen_ok seen hs" and t: "twice hs"
  then obtain sg r r' where "r \<in> routes_of sg hs" "r' \<in> routes_of sg hs" "r \<noteq> r'" unfolding twice_routes by blast
  with s have r: "r \<in> set (looked seen sg)" "r' \<in> set (looked seen sg)" "length (looked seen sg) < 2" "r \<noteq> r'"
    by (auto simp: seen_ok_def)
  then show False by (cases "looked seen sg") (auto simp: less_Suc_eq)
qed

lemma promote_loop_twice:
  "seen_ok seen hs \<Longrightarrow> promote_loop seen ks = (if twice (hs @ ks) then Some TaskClassF else None)"
proof (induction ks arbitrary: seen hs)
  case Nil
  then show ?case using seen_ok_not_twice by auto
next
  case (Cons h ks)
  show ?case
  proof (cases "counts h")
    case False
    have "promote_loop seen (h # ks) = promote_loop seen ks"
      using False by (auto simp: counts_def split: option.splits)
    moreover have "seen_ok seen (hs @ [h])" using Cons.prems False by (simp add: seen_ok_def routes_of_snoc)
    ultimately show ?thesis using Cons.IH [of seen "hs @ [h]"] by simp
  next
    case True
    then obtain sg where sg: "v_signature (ao_verdict h) = Some sg" "sg \<noteq> ''''" "v_class (ao_verdict h) \<in> {RouteClass, TaskClassF}"
      by (auto simp: counts_def)
    let ?rs = "List.insert (ao_route h) (looked seen sg)"
    have step: "promote_loop seen (h # ks) = (if length ?rs \<ge> 2 then Some TaskClassF else promote_loop (AList.update sg ?rs seen) ks)"
      using sg by (simp add: Let_def looked_def)
    have rs: "distinct ?rs" "set ?rs = routes_of sg (hs @ [h])"
      using Cons.prems True sg by (simp_all add: seen_ok_def routes_of_snoc)
    show ?thesis
    proof (cases "length ?rs \<ge> 2")
      case two: True
      then obtain r r' us where us: "?rs = r # r' # us"
        by (cases ?rs; cases "tl ?rs") auto
      with rs(1) have "r \<noteq> r'" by simp
      moreover have "r \<in> set ?rs" "r' \<in> set ?rs" unfolding us by simp_all
      then have "r \<in> routes_of sg (hs @ h # ks)" "r' \<in> routes_of sg (hs @ h # ks)"
        using routes_of_mono [of "hs @ [h]" "hs @ h # ks" sg] unfolding rs(2) by auto
      ultimately have "twice (hs @ h # ks)" unfolding twice_routes by blast
      with two step show ?thesis by simp
    next
      case False
      have "seen_ok (AList.update sg ?rs seen) (hs @ [h])"
        unfolding seen_ok_def looked_update
      proof
        fix s
        show "distinct (if s = sg then ?rs else looked seen s) \<and> set (if s = sg then ?rs else looked seen s) = routes_of s (hs @ [h])
            \<and> length (if s = sg then ?rs else looked seen s) < 2"
          using False rs Cons.prems sg by (auto simp: seen_ok_def routes_of_snoc)
      qed
      from Cons.IH [OF this] show ?thesis using step False by simp
    qed
  qed
qed

lemma promote_iff: "promoteAcrossRoutes hs = Some TaskClassF \<longleftrightarrow> twice hs"
  using promote_loop_twice [of "[]" "[]" hs] by (simp add: promoteAcrossRoutes_def seen_ok_def looked_def routes_of_def)

section \<open>Ranked routes\<close>

lemma insort_key_map: "insort_key f (g x) (map g xs) = map g (insort_key (\<lambda>a. f (g a)) x xs)"
  by (induction xs) simp_all

lemma sort_key_map: "sort_key f (map g xs) = map g (sort_key (f \<circ> g) xs)"
  by (induction xs) (simp_all add: insort_key_map comp_def)

lemma map_of_by_key:
  assumes "distinct (map (stateKey \<circ> rc_state) cs)" "c \<in> set cs"
  shows "map_of (by_key cs) (stateKey (rc_state c)) = Some c"
proof -
  have F: "map_of (foldl (\<lambda>m c. AList.update (stateKey (rc_state c)) c m) m cs) k
      = (case find (\<lambda>c. stateKey (rc_state c) = k) cs of Some c \<Rightarrow> Some c | None \<Rightarrow> map_of m k)"
    if "distinct (map (stateKey \<circ> rc_state) cs)" for m k cs
    using that
  proof (induction cs arbitrary: m)
    case (Cons d cs)
    show ?case
    proof (cases "stateKey (rc_state d) = k")
      case True
      with Cons.prems have "find (\<lambda>c. stateKey (rc_state c) = k) cs = None" by (force simp: find_None_iff image_iff)
      with Cons True show ?thesis by (simp add: map_of_alist_update)
    next
      case False
      with Cons show ?thesis by (simp add: map_of_alist_update split: option.splits)
    qed
  qed simp
  have "find (\<lambda>d. stateKey (rc_state d) = stateKey (rc_state c)) cs = Some c"
    using assms
  proof (induction cs)
    case (Cons d cs)
    then show ?case by (cases "d = c") (auto simp: image_iff)
  qed simp
  then show ?thesis using F [OF assms(1), of "[]" "stateKey (rc_state c)"] by (simp add: by_key_def)
qed

lemma set_preferred_first: "set (preferred_first p cs) = set cs"
  by (simp add: preferred_first_def split: option.splits)

lemma distinct_preferred_first:
  "distinct (map f cs) \<Longrightarrow> distinct (map f (preferred_first p cs))"
proof -
  assume d: "distinct (map f cs)"
  have "mset (map f (preferred_first p cs)) = mset (map f cs)" by (simp add: preferred_first_def split: option.splits)
  with d show ?thesis by (metis mset_eq_imp_distinct_iff)
qed

text \<open>What one allowed candidate contributes.\<close>

definition offer_of :: "task_class \<Rightarrow> route_candidate \<Rightarrow> selected_route list" where
  "offer_of task c =
     (case modelForClass (rc_family c) task (rc_choices c) of
        None \<Rightarrow> []
      | Some (choice, tier) \<Rightarrow>
          [\<lparr>sr_cli = rc_cli c, sr_profileId = rc_profileId c, sr_requestedModel = Some (mc_id choice), sr_tier = tier,
            sr_degradedTier = (tier \<noteq> TIER_FOR_CLASS task), sr_caveat = snd (fleetGate (rc_state c))\<rparr>])"

definition allowed_routes :: "route_candidate list \<Rightarrow> string option \<Rightarrow> route_candidate list" where
  "allowed_routes cs p =
     sort_key (fleet_rank \<circ> rc_state)
       (filter (\<lambda>c. streamsStructured (rc_cli c) \<and> fst (fleetGate (rc_state c))) (preferred_first p cs))"

lemma rankRoutes_offers:
  assumes "distinct (map (stateKey \<circ> rc_state) cs)"
  shows "rankRoutes cs task p = concat (map (offer_of task) (allowed_routes cs p))"
proof -
  have d: "distinct (map (stateKey \<circ> rc_state) (preferred_first p cs))" using assms by (rule distinct_preferred_first)
  have "select_route (by_key (preferred_first p cs)) task (rc_state c) = offer_of task c" if "c \<in> set (preferred_first p cs)" for c
    using map_of_by_key [OF d that] by (simp add: select_route_def offer_of_def)
  then have "map (select_route (by_key (preferred_first p cs)) task \<circ> rc_state) (allowed_routes cs p) = map (offer_of task) (allowed_routes cs p)"
    by (auto simp: allowed_routes_def)
  then show ?thesis
    unfolding rankRoutes_def Let_def rankFleet_def sort_key_map map_map allowed_routes_def [symmetric] by (simp only:)
qed

lemma fleetGate_allowed: "fst (fleetGate s) \<longleftrightarrow> fs_kind s \<noteq> Unusable"
  by (simp add: fleetGate_def)

lemma set_allowed_routes:
  "c \<in> set (allowed_routes cs p) \<longleftrightarrow> c \<in> set cs \<and> streamsStructured (rc_cli c) \<and> fs_kind (rc_state c) \<noteq> Unusable"
  by (auto simp: allowed_routes_def set_preferred_first fleetGate_allowed)

lemma find_SomeD: "find P xs = Some x \<Longrightarrow> x \<in> set xs \<and> P x"
  by (auto simp: find_Some_iff)

lemma route_tiers_SomeD:
  "route_tiers fam tiers choices = Some (c, t) \<Longrightarrow>
   c \<in> set choices \<and> routingTierOf fam (mc_id c) = Some t \<and> t \<in> set tiers
   \<and> (\<forall>t' \<in> set (takeWhile (\<lambda>x. x \<noteq> t) tiers). \<forall>c' \<in> set choices. routingTierOf fam (mc_id c') \<noteq> Some t')"
  by (induction tiers) (auto split: option.splits if_splits dest!: find_SomeD simp: find_None_iff)

lemma route_tiers_None:
  "route_tiers fam tiers choices = None \<longleftrightarrow> (\<forall>t \<in> set tiers. \<forall>c \<in> set choices. routingTierOf fam (mc_id c) \<noteq> Some t)"
  by (induction tiers) (auto split: option.splits simp: find_None_iff dest: find_SomeD)

lemma set_FALLBACK: "set (FALLBACK want) = UNIV"
  by (cases want) (auto simp: FALLBACK_def intro: routing_tier.exhaust)


definition demo_route :: "string \<Rightarrow> fleet_kind \<Rightarrow> route_candidate" where
  "demo_route cli kind = \<lparr>rc_cli = cli, rc_profileId = ''d'', rc_family = Anthropic,
     rc_state = \<lparr>fs_agent = cli, fs_profile = ''d'', fs_kind = kind, fs_reasons = []\<rparr>,
     rc_choices = [\<lparr>mc_id = ''sonnet'', mc_label = [], mc_hint = []\<rparr>]\<rparr>"

definition demo_failure :: failover_input where
  "demo_failure = \<lparr>fo_agent = None, fo_text = js ''HTTP 429'', fo_history = [], fo_cli = ''claude'', fo_profileId = ''d'',
     fo_candidates = [demo_route ''claude'' Ready, demo_route ''cursor'' Degraded, demo_route ''codex'' Ready],
     fo_task = TBuild, fo_attemptsUsed = 1, fo_attemptCap = 3\<rparr>"

definition demo_target :: selected_route where
  "demo_target = \<lparr>sr_cli = ''codex'', sr_profileId = ''d'', sr_requestedModel = Some ''sonnet'', sr_tier = Workhorse,
     sr_degradedTier = True, sr_caveat = None\<rparr>"


text \<open>the same problem on two routes is the task's. The decision stops for that reason exactly
  when, the failure at hand included, some signature of the route or the task class was seen on
  two different routes; no third route is tried.\<close>

theorem stops_after_two_routes:
  "(\<exists>note. fst (failoverDecision i) = StopRun ''signature-seen-on-two-routes'' note)
   \<longleftrightarrow> (\<exists>h \<in> set (fo_history i @ [\<lparr>ao_route = route_key (fo_cli i) (fo_profileId i), ao_verdict = snd (failoverDecision i)\<rparr>]).
        \<exists>h' \<in> set (fo_history i @ [\<lparr>ao_route = route_key (fo_cli i) (fo_profileId i), ao_verdict = snd (failoverDecision i)\<rparr>]).
          counts h \<and> counts h' \<and> v_signature (ao_verdict h) = v_signature (ao_verdict h') \<and> ao_route h \<noteq> ao_route h')"
proof -
  define v where "v = classifyFailure (fo_agent i) (fo_text i)"
  have sg: "v_signature v \<noteq> Some ''signature-seen-on-two-routes''"
  proof -
    have "v_signature (classify_rows t rs) = Some s \<Longrightarrow> s \<in> set (map sg_id rs)" for t rs s
      by (induction rs) (auto split: if_splits)
    from this [of _ "signature_rows (fo_agent i)"] show ?thesis
      unfolding v_def classifyFailure_def
      by (fastforce simp: signature_rows_def generic_signatures_def row_def cli_signatures_def split: option.splits)
  qed
  have snd: "snd (failoverDecision i) = v"
    by (auto simp: failoverDecision_def Let_def v_def split: failure_class.splits list.splits)
  have "(\<exists>note. fst (failoverDecision i) = StopRun ''signature-seen-on-two-routes'' note)
      \<longleftrightarrow> promoteAcrossRoutes (fo_history i @ [\<lparr>ao_route = route_key (fo_cli i) (fo_profileId i), ao_verdict = v\<rparr>]) = Some TaskClassF"
    using sg by (auto simp: failoverDecision_def Let_def v_def [symmetric] or_else_def split: failure_class.splits list.splits option.splits)
  then show ?thesis unfolding snd promote_iff twice_def .
qed

definition better_or_equal :: "string option \<Rightarrow> route_candidate \<Rightarrow> route_candidate \<Rightarrow> bool" where
  "better_or_equal p c d \<longleftrightarrow> fleet_rank (rc_state c) < fleet_rank (rc_state d)
     \<or> fleet_rank (rc_state c) = fleet_rank (rc_state d) \<and> (\<forall>q. p = Some q \<and> q \<noteq> '''' \<and> rc_cli d = q \<longrightarrow> rc_cli c = q)"

lemma sorted_wrt_insort:
  fixes f :: "'a \<Rightarrow> 'b :: linorder"
  assumes "sorted_wrt (\<lambda>c d. f c < f d \<or> f c = f d \<and> R c d) xs" "\<forall>y \<in> set xs. R x y"
  shows "sorted_wrt (\<lambda>c d. f c < f d \<or> f c = f d \<and> R c d) (insort_key f x xs)"
  using assms
proof (induction xs)
  case (Cons y ys)
  show ?case
  proof (cases "f x \<le> f y")
    case True
    with Cons.prems show ?thesis by (auto intro: le_less_trans dest: le_imp_less_or_eq)
  next
    case False
    with Cons show ?thesis by (auto simp: set_insort_key)
  qed
qed simp

lemma sorted_wrt_sort_key:
  fixes f :: "'a \<Rightarrow> 'b :: linorder"
  assumes "sorted_wrt R xs"
  shows "sorted_wrt (\<lambda>c d. f c < f d \<or> f c = f d \<and> R c d) (sort_key f xs)"
  using assms by (induction xs) (simp_all add: sorted_wrt_insort)

lemma sorted_wrt_concat:
  assumes "sorted_wrt R cs" "\<And>c. c \<in> set cs \<Longrightarrow> length (g c) \<le> 1" "\<And>c r. c \<in> set cs \<Longrightarrow> r \<in> set (g c) \<Longrightarrow> P c r"
  shows "sorted_wrt (\<lambda>r s. \<exists>c \<in> set cs. \<exists>d \<in> set cs. P c r \<and> P d s \<and> R c d) (concat (map g cs))"
  using assms
proof (induction cs)
  case (Cons c cs)
  have IH: "sorted_wrt (\<lambda>r s. \<exists>c \<in> set cs. \<exists>d \<in> set cs. P c r \<and> P d s \<and> R c d) (concat (map g cs))"
    by (rule Cons.IH) (use Cons.prems in auto)
  have one: "length (g c) \<le> 1" using Cons.prems by simp
  have "sorted_wrt (\<lambda>r s. \<exists>c' \<in> set (c # cs). \<exists>d \<in> set (c # cs). P c' r \<and> P d s \<and> R c' d) (concat (map g cs))"
    by (rule sorted_wrt_mono_rel [OF _ IH]) auto
  moreover have "\<forall>r \<in> set (g c). \<forall>s \<in> set (concat (map g cs)). \<exists>c' \<in> set (c # cs). \<exists>d \<in> set (c # cs). P c' r \<and> P d s \<and> R c' d"
    using Cons.prems by fastforce
  moreover have "sorted_wrt Q (g c)" for Q using one by (cases "g c") auto
  ultimately show ?case by (simp add: sorted_wrt_append)
qed simp

text \<open>routes are offered healthiest first, and the preferred CLI decides only between equals.
  Of two offered routes the earlier one's candidate is in a better health tier, or in the same one
  with fewer objections, or equally healthy; and when equally healthy routes include the preferred
  CLI, no other comes before it.\<close>

theorem routes_ranked_by_health:
  assumes "distinct (map (stateKey \<circ> rc_state) cs)"
  shows "sorted_wrt (\<lambda>r s. \<exists>c \<in> set cs. \<exists>d \<in> set cs. rc_cli c = sr_cli r \<and> rc_profileId c = sr_profileId r
      \<and> rc_cli d = sr_cli s \<and> rc_profileId d = sr_profileId s \<and> better_or_equal p c d) (rankRoutes cs task p)"
proof -
  let ?R = "\<lambda>c d. \<forall>q. p = Some q \<and> q \<noteq> '''' \<and> rc_cli d = q \<longrightarrow> rc_cli c = q"
  have "sorted_wrt ?R (preferred_first p cs)"
  proof (cases "p = None \<or> p = Some ''''")
    case True
    then show ?thesis by (auto intro: sorted_wrt_mono_rel [where P = "\<lambda>_ _. True"] simp: sorted_wrt_true)
  next
    case False
    then obtain q where q: "p = Some q" "q \<noteq> ''''" by auto
    let ?f = "\<lambda>c. if rc_cli c = q then 0 else 1 :: nat"
    have "sorted_wrt (\<lambda>c d. ?f c < ?f d \<or> ?f c = ?f d \<and> True) (sort_key ?f cs)"
      by (rule sorted_wrt_sort_key) (simp add: sorted_wrt_true)
    then show ?thesis using q by (auto simp: preferred_first_def elim!: sorted_wrt_mono_rel [rotated] split: if_splits)
  qed
  from sorted_wrt_sort_key [OF sorted_wrt_filter [OF this], where f = "fleet_rank \<circ> rc_state"]
  have srt: "sorted_wrt (better_or_equal p) (allowed_routes cs p)"
    unfolding allowed_routes_def better_or_equal_def by simp
  have one: "length (offer_of task c) \<le> 1" and its: "r \<in> set (offer_of task c) \<Longrightarrow> rc_cli c = sr_cli r \<and> rc_profileId c = sr_profileId r" for c r
    by (auto simp: offer_of_def split: option.splits)
  have "sorted_wrt (\<lambda>r s. \<exists>c \<in> set (allowed_routes cs p). \<exists>d \<in> set (allowed_routes cs p).
      (rc_cli c = sr_cli r \<and> rc_profileId c = sr_profileId r) \<and> (rc_cli d = sr_cli s \<and> rc_profileId d = sr_profileId s)
      \<and> better_or_equal p c d) (rankRoutes cs task p)"
    unfolding rankRoutes_offers [OF assms] by (rule sorted_wrt_concat [OF srt one its])
  then show ?thesis
    by (rule sorted_wrt_mono_rel [rotated]) (blast dest: set_allowed_routes [THEN iffD1])
qed

theorem routes_ranked_by_health_witness:
  "\<exists>c \<in> set [demo_route ''claude'' Degraded, demo_route ''cursor'' Ready, demo_route ''codex'' Ready].
   \<exists>d \<in> set [demo_route ''claude'' Degraded, demo_route ''cursor'' Ready, demo_route ''codex'' Ready].
     rc_cli c = ''codex'' \<and> rc_cli d = ''cursor'' \<and> better_or_equal (Some ''codex'') c d"
proof -
  let ?cs = "[demo_route ''claude'' Degraded, demo_route ''cursor'' Ready, demo_route ''codex'' Ready]"
  have d: "distinct (map (stateKey \<circ> rc_state) ?cs)" by code_simp
  have "map sr_cli (rankRoutes ?cs TFix (Some ''codex'')) = [''codex'', ''cursor'', ''claude'']" by code_simp
  then obtain r s t where rs: "rankRoutes ?cs TFix (Some ''codex'') = [r, s, t]" "sr_cli r = ''codex''" "sr_cli s = ''cursor''"
    by (auto simp: map_eq_Cons_conv)
  from routes_ranked_by_health [OF d, of "Some ''codex''" TFix] rs show ?thesis
    unfolding rs(1) sorted_wrt.simps by (metis list.set_intros(1))
qed

text \<open>the model for a class of task is one the family offers, of the nearest tier it has: the
  wanted tier whenever some choice is of that tier, and none only when no choice is of any tier.\<close>

theorem modelForClass_nearest_tier:
  "(case modelForClass family task choices of
      None \<Rightarrow> \<forall>c \<in> set choices. routingTierOf family (mc_id c) = None
    | Some (c, t) \<Rightarrow> c \<in> set choices \<and> routingTierOf family (mc_id c) = Some t
        \<and> (t \<noteq> TIER_FOR_CLASS task \<longrightarrow> (\<forall>c' \<in> set choices. routingTierOf family (mc_id c') \<noteq> Some (TIER_FOR_CLASS task))))"
proof (cases "modelForClass family task choices")
  case None
  then have "routingTierOf family (mc_id c) \<noteq> Some t" if "c \<in> set choices" for t c
    using that by (simp add: modelForClass_def routeModel_def route_tiers_None set_FALLBACK)
  then have "routingTierOf family (mc_id c) = None" if "c \<in> set choices" for c
    using that by (cases "routingTierOf family (mc_id c)") auto
  with None show ?thesis by simp
next
  case (Some ct)
  obtain c t where ct: "ct = (c, t)" by (cases ct)
  have first: "t \<noteq> w \<Longrightarrow> w \<in> set (takeWhile (\<lambda>x. x \<noteq> t) (FALLBACK w))" for w by (cases w; cases t) (auto simp: FALLBACK_def)
  from route_tiers_SomeD [of family "FALLBACK (TIER_FOR_CLASS task)" choices c t] Some ct first [of "TIER_FOR_CLASS task"] show ?thesis
    by (auto simp: modelForClass_def routeModel_def)
qed

theorem modelForClass_nearest_tier_witness:
  "routingTierOf Anthropic ''sonnet'' = Some Workhorse
   \<and> routingTierOf Anthropic ''sonnet'' \<noteq> Some Frontier"
proof -
  have "modelForClass Anthropic TBuild [\<lparr>mc_id = ''sonnet'', mc_label = [], mc_hint = []\<rparr>]
      = Some (\<lparr>mc_id = ''sonnet'', mc_label = [], mc_hint = []\<rparr>, Workhorse)" by code_simp
  with modelForClass_nearest_tier [where family = Anthropic and task = TBuild and choices = "[\<lparr>mc_id = ''sonnet'', mc_label = [], mc_hint = []\<rparr>]"]
  show ?thesis by (simp add: TIER_FOR_CLASS_def)
qed

end
