(* ===== verification/TerminalGroups.thy ===== *)
theory TerminalGroups
  imports Prelude Complex_Main
begin

text \<open>
  The split tree of a terminal group, \<^verbatim>\<open>src/src/terminalGroups.ts\<close>: edits of the tree (split, remove,
  resize, swap, remap after a restore) and its geometry (the rectangles of the panes and dividers,
  the drop zone under a pointer, the neighbour of a pane). Coordinates and ratios are \<open>rat\<close>.

  The code returns the same object for an unchanged subtree and compares with \<^verbatim>\<open>!==\<close>; only
  \<^verbatim>\<open>splitLeaf\<close> decides by it, so \<open>split_leaf\<close> returns \<open>None\<close> for the same object. The identifier
  of a new split node is random in the code and an argument here.
\<close>

datatype axis = Horizontal | Vertical

datatype split_node = Leaf string | Split string axis rat split_node split_node

record terminal_group =
  tg_id :: string
  tg_root :: split_node
  tg_activeTabId :: string
  tg_zoomedTabId :: "string option"
  tg_userName :: "string option"

record pane_rect =
  pr_tabId :: string
  pr_left :: rat
  pr_top :: rat
  pr_width :: rat
  pr_height :: rat

record split_divider =
  dv_nodeId :: string
  dv_axis :: axis
  dv_left :: rat
  dv_top :: rat
  dv_width :: rat
  dv_height :: rat
  dv_parentLeft :: rat
  dv_parentTop :: rat
  dv_parentWidth :: rat
  dv_parentHeight :: rat

definition MIN_RATIO :: rat where "MIN_RATIO = 15 / 100"
definition MAX_RATIO :: rat where "MAX_RATIO = 85 / 100"

definition clamp_ratio :: "rat \<Rightarrow> rat" where
  "clamp_ratio r = max MIN_RATIO (min MAX_RATIO r)"

section \<open>The tree\<close>

fun leafIds :: "split_node \<Rightarrow> string list" where
  "leafIds (Leaf t) = [t]"
| "leafIds (Split n ax r a b) = leafIds a @ leafIds b"

datatype focus_state = Normal | Focused | Dimmed

definition multiplexPaneFocusState :: "terminal_group \<Rightarrow> string option \<Rightarrow> string \<Rightarrow> focus_state" where
  "multiplexPaneFocusState g active t =
     (let members = leafIds (tg_root g)
      in if t \<notin> set members then Normal
         else case active of
                None \<Rightarrow> Normal
              | Some a \<Rightarrow> (if a = '''' \<or> a \<notin> set members then Normal else if a = t then Focused else Dimmed))"

definition terminalCompactionProtected :: "bool \<Rightarrow> bool \<Rightarrow> bool" where
  "terminalCompactionProtected active streaming \<longleftrightarrow> active \<or> streaming"

fun split_leaf :: "string \<Rightarrow> split_node \<Rightarrow> string \<Rightarrow> string \<Rightarrow> axis \<Rightarrow> bool \<Rightarrow> split_node option" where
  "split_leaf nid (Leaf u) t new ax before =
     (if u \<noteq> t then None
      else Some (Split nid ax (1 / 2) (if before then Leaf new else Leaf u) (if before then Leaf u else Leaf new)))"
| "split_leaf nid (Split n ax0 r a b) t new ax before =
     (case split_leaf nid a t new ax before of
        Some a' \<Rightarrow> Some (Split n ax0 r a' b)
      | None \<Rightarrow> map_option (Split n ax0 r a) (split_leaf nid b t new ax before))"

definition splitLeaf :: "string \<Rightarrow> split_node \<Rightarrow> string \<Rightarrow> string \<Rightarrow> axis \<Rightarrow> bool \<Rightarrow> split_node" where
  "splitLeaf nid node t new ax before = (case split_leaf nid node t new ax before of Some n \<Rightarrow> n | None \<Rightarrow> node)"

fun removeLeaf :: "split_node \<Rightarrow> string \<Rightarrow> split_node option" where
  "removeLeaf (Leaf u) t = (if u = t then None else Some (Leaf u))"
| "removeLeaf (Split n ax r a b) t =
     (case removeLeaf a t of
        None \<Rightarrow> removeLeaf b t
      | Some a' \<Rightarrow> (case removeLeaf b t of None \<Rightarrow> Some a' | Some b' \<Rightarrow> Some (Split n ax r a' b')))"

fun updateSplitRatio :: "split_node \<Rightarrow> string \<Rightarrow> rat \<Rightarrow> split_node" where
  "updateSplitRatio (Leaf u) nid ratio = Leaf u"
| "updateSplitRatio (Split n ax r a b) nid ratio =
     (if n = nid then Split n ax (clamp_ratio ratio) a b
      else Split n ax r (updateSplitRatio a nid ratio) (updateSplitRatio b nid ratio))"

fun equalizeSplits :: "split_node \<Rightarrow> split_node" where
  "equalizeSplits (Leaf u) = Leaf u"
| "equalizeSplits (Split n ax r a b) = Split n ax (1 / 2) (equalizeSplits a) (equalizeSplits b)"

fun mapSplitTabIds :: "split_node \<Rightarrow> (string \<rightharpoonup> string) \<Rightarrow> split_node option" where
  "mapSplitTabIds (Leaf u) ids = (case ids u of Some v \<Rightarrow> (if v = '''' then None else Some (Leaf v)) | None \<Rightarrow> None)"
| "mapSplitTabIds (Split n ax r a b) ids =
     (case mapSplitTabIds a ids of
        None \<Rightarrow> mapSplitTabIds b ids
      | Some a' \<Rightarrow> (case mapSplitTabIds b ids of None \<Rightarrow> Some a' | Some b' \<Rightarrow> Some (Split n ax r a' b')))"

definition remap_group :: "(string \<rightharpoonup> string) \<Rightarrow> terminal_group \<Rightarrow> terminal_group option" where
  "remap_group ids g =
     (case mapSplitTabIds (tg_root g) ids of
        None \<Rightarrow> None
      | Some rt \<Rightarrow>
          (let leaves = leafIds rt in
           if length leaves < 2 then None
           else Some (g\<lparr>tg_root := rt,
                  tg_activeTabId := (case ids (tg_activeTabId g) of Some v \<Rightarrow> v | None \<Rightarrow> hd leaves),
                  tg_zoomedTabId := (case tg_zoomedTabId g of
                      Some z \<Rightarrow> (if z = '''' then None else ids z) | None \<Rightarrow> None)\<rparr>)))"

fun remapTerminalGroups :: "(string \<times> terminal_group) list \<Rightarrow> (string \<rightharpoonup> string) \<Rightarrow> (string \<times> terminal_group) list" where
  "remapTerminalGroups [] ids = []"
| "remapTerminalGroups ((gid, g) # gs) ids =
     (case remap_group ids g of
        None \<Rightarrow> remapTerminalGroups gs ids
      | Some g' \<Rightarrow> (gid, g') # remapTerminalGroups gs ids)"

fun swapLeaves :: "split_node \<Rightarrow> string \<Rightarrow> string \<Rightarrow> split_node" where
  "swapLeaves (Leaf u) s t = (if u = s then Leaf t else if u = t then Leaf s else Leaf u)"
| "swapLeaves (Split n ax r a b) s t = Split n ax r (swapLeaves a s t) (swapLeaves b s t)"

section \<open>The geometry\<close>

definition pane :: "string \<Rightarrow> rat \<Rightarrow> rat \<Rightarrow> rat \<Rightarrow> rat \<Rightarrow> pane_rect" where
  "pane t l tp w h = \<lparr>pr_tabId = t, pr_left = l, pr_top = tp, pr_width = w, pr_height = h\<rparr>"

fun walk_panes :: "split_node \<Rightarrow> rat \<Rightarrow> rat \<Rightarrow> rat \<Rightarrow> rat \<Rightarrow> pane_rect list" where
  "walk_panes (Leaf t) l tp w h = [pane t l tp w h]"
| "walk_panes (Split n ax r a b) l tp w h =
     (let ratio = clamp_ratio r in
      case ax of
        Horizontal \<Rightarrow> walk_panes a l tp (w * ratio) h @ walk_panes b (l + w * ratio) tp (w - w * ratio) h
      | Vertical \<Rightarrow> walk_panes a l tp w (h * ratio) @ walk_panes b l (tp + h * ratio) w (h - h * ratio))"

fun walk_dividers :: "split_node \<Rightarrow> rat \<Rightarrow> rat \<Rightarrow> rat \<Rightarrow> rat \<Rightarrow> split_divider list" where
  "walk_dividers (Leaf t) l tp w h = []"
| "walk_dividers (Split n ax r a b) l tp w h =
     (let ratio = clamp_ratio r in
      case ax of
        Horizontal \<Rightarrow>
          walk_dividers a l tp (w * ratio) h @ walk_dividers b (l + w * ratio) tp (w - w * ratio) h
          @ [\<lparr>dv_nodeId = n, dv_axis = ax, dv_left = l + w * ratio, dv_top = tp, dv_width = 0, dv_height = h,
              dv_parentLeft = l, dv_parentTop = tp, dv_parentWidth = w, dv_parentHeight = h\<rparr>]
      | Vertical \<Rightarrow>
          walk_dividers a l tp w (h * ratio) @ walk_dividers b l (tp + h * ratio) w (h - h * ratio)
          @ [\<lparr>dv_nodeId = n, dv_axis = ax, dv_left = l, dv_top = tp + h * ratio, dv_width = w, dv_height = 0,
              dv_parentLeft = l, dv_parentTop = tp, dv_parentWidth = w, dv_parentHeight = h\<rparr>])"

definition layoutSplit :: "split_node \<Rightarrow> string option \<Rightarrow> pane_rect list \<times> split_divider list" where
  "layoutSplit node zoomed =
     (case zoomed of
        Some z \<Rightarrow>
          (if z \<noteq> '''' \<and> z \<in> set (leafIds node) then ([pane z 0 0 1 1], [])
           else (walk_panes node 0 0 1 1, walk_dividers node 0 0 1 1))
      | None \<Rightarrow> (walk_panes node 0 0 1 1, walk_dividers node 0 0 1 1))"

record drop_zone =
  dz_targetTabId :: string
  dz_axis :: axis
  dz_before :: bool
  dz_left :: rat
  dz_top :: rat
  dz_width :: rat
  dz_height :: rat

definition in_pane :: "rat \<Rightarrow> rat \<Rightarrow> pane_rect \<Rightarrow> bool" where
  "in_pane x y p \<longleftrightarrow> x \<ge> pr_left p \<and> x \<le> pr_left p + pr_width p \<and> y \<ge> pr_top p \<and> y \<le> pr_top p + pr_height p"

text \<open>\<^verbatim>\<open>edges.reduce((a, b) => (b.d < a.d ? b : a))\<close>: the first of the nearest edges.\<close>

fun nearest_edge :: "rat \<times> axis \<times> bool \<Rightarrow> (rat \<times> axis \<times> bool) list \<Rightarrow> rat \<times> axis \<times> bool" where
  "nearest_edge a [] = a"
| "nearest_edge a (b # bs) = nearest_edge (if fst b < fst a then b else a) bs"

definition half_rect :: "pane_rect \<Rightarrow> axis \<Rightarrow> bool \<Rightarrow> rat \<times> rat \<times> rat \<times> rat" where
  "half_rect p ax before =
     (case ax of
        Horizontal \<Rightarrow> (if before then pr_left p else pr_left p + pr_width p / 2, pr_top p, pr_width p / 2, pr_height p)
      | Vertical \<Rightarrow> (pr_left p, if before then pr_top p else pr_top p + pr_height p / 2, pr_width p, pr_height p / 2))"

definition zone_of :: "rat \<Rightarrow> rat \<Rightarrow> pane_rect \<Rightarrow> drop_zone" where
  "zone_of x y p =
     (let dx = (x - pr_left p) / pr_width p; dy = (y - pr_top p) / pr_height p;
          (d, ax, before) = nearest_edge (dx, Horizontal, True)
             [(1 - dx, Horizontal, False), (dy, Vertical, True), (1 - dy, Vertical, False)];
          (l, t, w, h) = half_rect p ax before
      in \<lparr>dz_targetTabId = pr_tabId p, dz_axis = ax, dz_before = before, dz_left = l, dz_top = t, dz_width = w, dz_height = h\<rparr>)"

definition paneDropZone :: "pane_rect list \<Rightarrow> rat \<Rightarrow> rat \<Rightarrow> drop_zone option" where
  "paneDropZone panes x y =
     (if x < 0 \<or> x > 1 \<or> y < 0 \<or> y > 1 then None
      else case find (in_pane x y) panes of
             None \<Rightarrow> None
           | Some p \<Rightarrow> (if pr_width p \<le> 0 \<or> pr_height p \<le> 0 then None else Some (zone_of x y p)))"

datatype direction = DLeft | DRight | DUp | DDown

definition mid_x :: "pane_rect \<Rightarrow> rat" where "mid_x p = pr_left p + pr_width p / 2"
definition mid_y :: "pane_rect \<Rightarrow> rat" where "mid_y p = pr_top p + pr_height p / 2"

definition primary_distance :: "direction \<Rightarrow> pane_rect \<Rightarrow> pane_rect \<Rightarrow> rat" where
  "primary_distance dir from p =
     (case dir of DLeft \<Rightarrow> mid_x from - mid_x p | DRight \<Rightarrow> mid_x p - mid_x from
      | DUp \<Rightarrow> mid_y from - mid_y p | DDown \<Rightarrow> mid_y p - mid_y from)"

definition neighbor_score :: "direction \<Rightarrow> pane_rect \<Rightarrow> pane_rect \<Rightarrow> rat" where
  "neighbor_score dir from p =
     primary_distance dir from p
     + (if dir = DLeft \<or> dir = DRight then \<bar>mid_y p - mid_y from\<bar> else \<bar>mid_x p - mid_x from\<bar>) * 2"

fun neighbor_loop :: "direction \<Rightarrow> pane_rect \<Rightarrow> string \<Rightarrow> (string \<times> rat) option \<Rightarrow> pane_rect list \<Rightarrow> (string \<times> rat) option" where
  "neighbor_loop dir from t best [] = best"
| "neighbor_loop dir from t best (p # ps) =
     (if pr_tabId p = t \<or> primary_distance dir from p \<le> 0 then neighbor_loop dir from t best ps
      else let score = neighbor_score dir from p
           in neighbor_loop dir from t
                (case best of None \<Rightarrow> Some (pr_tabId p, score)
                 | Some (i, s) \<Rightarrow> (if score < s then Some (pr_tabId p, score) else best)) ps)"

definition neighborPane :: "split_node \<Rightarrow> string \<Rightarrow> direction \<Rightarrow> string option" where
  "neighborPane node t dir =
     (let panes = fst (layoutSplit node None) in
      case find (\<lambda>p. pr_tabId p = t) panes of
        None \<Rightarrow> None
      | Some from \<Rightarrow> map_option fst (neighbor_loop dir from t None panes))"

section \<open>Lemmas\<close>

lemma clamp_ratio_bounds: "0 < clamp_ratio r" "clamp_ratio r < 1" "MIN_RATIO \<le> clamp_ratio r" "clamp_ratio r \<le> MAX_RATIO"
  by (simp_all add: clamp_ratio_def MIN_RATIO_def MAX_RATIO_def)

lemma clamp_ratio_half [simp]: "clamp_ratio (1 / 2) = 1 / 2"
  by (simp add: clamp_ratio_def MIN_RATIO_def MAX_RATIO_def)

lemma clamp_ratio_idem [simp]: "clamp_ratio (clamp_ratio r) = clamp_ratio r"
  by (auto simp: clamp_ratio_def MIN_RATIO_def MAX_RATIO_def max_def min_def)

lemma leafIds_nonempty [simp]: "leafIds n \<noteq> []"
  by (induction n) simp_all

lemma pane_sel [simp]:
  "pr_tabId (pane t l tp w h) = t" "pr_left (pane t l tp w h) = l" "pr_top (pane t l tp w h) = tp"
  "pr_width (pane t l tp w h) = w" "pr_height (pane t l tp w h) = h"
  by (simp_all add: pane_def)

subsection \<open>The panes of a layout\<close>

definition holds_point :: "rat \<Rightarrow> rat \<Rightarrow> pane_rect \<Rightarrow> bool" where
  "holds_point x y p \<longleftrightarrow>
     pr_left p \<le> x \<and> x < pr_left p + pr_width p \<and> pr_top p \<le> y \<and> y < pr_top p + pr_height p"

definition pane_within :: "rat \<Rightarrow> rat \<Rightarrow> rat \<Rightarrow> rat \<Rightarrow> pane_rect \<Rightarrow> bool" where
  "pane_within l t w h p \<longleftrightarrow>
     0 < pr_width p \<and> 0 < pr_height p \<and> l \<le> pr_left p \<and> pr_left p + pr_width p \<le> l + w
     \<and> t \<le> pr_top p \<and> pr_top p + pr_height p \<le> t + h"

lemma split_parts:
  assumes "0 < (w::rat)"
  shows "0 < w * clamp_ratio r" "w * clamp_ratio r < w"
  using assms clamp_ratio_bounds [of r] by simp_all

lemma walk_panes_ids [simp]: "map pr_tabId (walk_panes n l t w h) = leafIds n"
  by (induction n arbitrary: l t w h) (auto simp: Let_def split: axis.split)

lemma pane_within_sub:
  "pane_within l' t' w' h' p \<Longrightarrow> l \<le> l' \<Longrightarrow> t \<le> t' \<Longrightarrow> l' + w' \<le> l + w \<Longrightarrow> t' + h' \<le> t + h \<Longrightarrow> pane_within l t w h p"
  by (auto simp: pane_within_def)

lemma walk_panes_within:
  "0 < w \<Longrightarrow> 0 < h \<Longrightarrow> p \<in> set (walk_panes n l t w h) \<Longrightarrow> pane_within l t w h p"
proof (induction n arbitrary: l t w h)
  case (Leaf u)
  then show ?case by (simp add: pane_within_def)
next
  case (Split n ax r a b)
  note parts = split_parts [OF Split.prems(1), of r] split_parts [OF Split.prems(2), of r]
  show ?case
  proof (cases ax)
    case Horizontal
    then consider "p \<in> set (walk_panes a l t (w * clamp_ratio r) h)"
      | "p \<in> set (walk_panes b (l + w * clamp_ratio r) t (w - w * clamp_ratio r) h)"
      using Split.prems(3) by (auto simp: Let_def)
    then show ?thesis
      using parts Split.prems by cases (auto dest!: Split.IH [rotated 2] elim: pane_within_sub)
  next
    case Vertical
    then consider "p \<in> set (walk_panes a l t w (h * clamp_ratio r))"
      | "p \<in> set (walk_panes b l (t + h * clamp_ratio r) w (h - h * clamp_ratio r))"
      using Split.prems(3) by (auto simp: Let_def)
    then show ?thesis
      using parts Split.prems by cases (auto dest!: Split.IH [rotated 2] elim: pane_within_sub)
  qed
qed

lemma walk_panes_cover:
  "0 < w \<Longrightarrow> 0 < h \<Longrightarrow>
     length (filter (holds_point x y) (walk_panes n l t w h)) =
       (if l \<le> x \<and> x < l + w \<and> t \<le> y \<and> y < t + h then 1 else 0)"
proof (induction n arbitrary: l t w h)
  case (Leaf u)
  then show ?case by (simp add: holds_point_def)
next
  case (Split n ax r a b)
  note parts = split_parts [OF Split.prems(1), of r] split_parts [OF Split.prems(2), of r]
  obtain w1 h1 where w1: "w1 = w * clamp_ratio r" and h1: "h1 = h * clamp_ratio r" by blast
  note parts' = parts [folded w1 h1]
  show ?case
  proof (cases ax)
    case Horizontal
    then show ?thesis
      using parts' Split.prems by (simp add: Let_def Split.IH flip: w1)
  next
    case Vertical
    then show ?thesis
      using parts' Split.prems by (auto simp add: Let_def Split.IH simp flip: h1)
  qed
qed

lemma find_by_id:
  assumes "distinct (map pr_tabId ps)" "p \<in> set ps"
  shows "find (\<lambda>q. pr_tabId q = pr_tabId p) ps = Some p"
  using assms by (induction ps) force+

subsection \<open>Edits of the tree\<close>

lemma split_leaf_None: "split_leaf nid n t new ax bf = None \<longleftrightarrow> t \<notin> set (leafIds n)"
  by (induction n) (auto split: option.split)

lemma split_leaf_absent [simp]: "t \<notin> set (leafIds n) \<Longrightarrow> split_leaf nid n t new ax bf = None"
  by (simp only: split_leaf_None simp_thms)

lemma splitLeaf_Leaf [simp]:
  "splitLeaf nid (Leaf u) t new ax bf =
     (if u \<noteq> t then Leaf u
      else Split nid ax (1 / 2) (if bf then Leaf new else Leaf u) (if bf then Leaf u else Leaf new))"
  by (simp add: splitLeaf_def)

lemma splitLeaf_Split [simp]:
  "splitLeaf nid (Split n ax0 r a b) t new ax bf =
     (if t \<in> set (leafIds a) then Split n ax0 r (splitLeaf nid a t new ax bf) b
      else Split n ax0 r a (splitLeaf nid b t new ax bf))"
proof (cases "t \<in> set (leafIds a)")
  case True
  then obtain a' where "split_leaf nid a t new ax bf = Some a'"
    by (metis not_None_eq split_leaf_None)
  then show ?thesis using True by (simp add: splitLeaf_def)
next
  case False
  then show ?thesis by (simp add: splitLeaf_def split: option.split)
qed

lemma splitLeaf_absent [simp]: "t \<notin> set (leafIds n) \<Longrightarrow> splitLeaf nid n t new ax bf = n"
  by (simp add: splitLeaf_def)

definition insert_beside :: "string \<Rightarrow> string \<Rightarrow> bool \<Rightarrow> string list \<Rightarrow> string list" where
  "insert_beside t new bf us = concat (map (\<lambda>u. if u = t then (if bf then [new, t] else [t, new]) else [u]) us)"

lemma insert_beside_absent: "t \<notin> set us \<Longrightarrow> insert_beside t new bf us = us"
  by (induction us) (auto simp: insert_beside_def)

lemma insert_beside_append: "insert_beside t new bf (us @ vs) = insert_beside t new bf us @ insert_beside t new bf vs"
  by (simp add: insert_beside_def)

lemma set_insert_beside: "set (insert_beside t new bf us) = (if t \<in> set us then insert new (set us) else set us)"
  by (auto simp: insert_beside_def split: if_splits)

lemma distinct_insert_beside:
  "distinct us \<Longrightarrow> new \<notin> set us \<Longrightarrow> distinct (insert_beside t new bf us)"
proof (induction us)
  case Nil
  then show ?case by (simp add: insert_beside_def)
next
  case (Cons u us)
  have "insert_beside t new bf (u # us) = insert_beside t new bf [u] @ insert_beside t new bf us"
    using insert_beside_append [of t new bf "[u]" us] by simp
  with Cons show ?case
    by (auto simp: set_insert_beside) (auto simp: insert_beside_def)
qed

lemma leafIds_splitLeaf:
  "distinct (leafIds n) \<Longrightarrow> leafIds (splitLeaf nid n t new ax bf) = insert_beside t new bf (leafIds n)"
proof (induction n)
  case (Leaf u)
  then show ?case by (auto simp: insert_beside_def)
next
  case (Split n ax0 r a b)
  then show ?case by (auto simp: insert_beside_append insert_beside_absent disjoint_iff)
qed

lemma removeLeaf_leaves:
  "(case removeLeaf n t of None \<Rightarrow> [] | Some m \<Rightarrow> leafIds m) = filter (\<lambda>u. u \<noteq> t) (leafIds n)"
  by (induction n) (auto split: option.splits)

lemma removeLeaf_None: "removeLeaf n t = None \<longleftrightarrow> set (leafIds n) \<subseteq> {t}"
  by (induction n) (auto split: option.splits)

lemma removeLeaf_absent [simp]: "t \<notin> set (leafIds n) \<Longrightarrow> removeLeaf n t = Some n"
  by (induction n) auto

lemma removeLeaf_splitLeaf:
  "new \<notin> set (leafIds n) \<Longrightarrow> distinct (leafIds n) \<Longrightarrow> removeLeaf (splitLeaf nid n t new ax bf) new = Some n"
  by (induction n) auto

definition live_id :: "(string \<rightharpoonup> string) \<Rightarrow> string \<Rightarrow> string list" where
  "live_id ids u = (case ids u of Some v \<Rightarrow> if v = [] then [] else [v] | None \<Rightarrow> [])"

lemma mapSplitTabIds_leaves:
  "(case mapSplitTabIds n ids of None \<Rightarrow> [] | Some m \<Rightarrow> leafIds m) = concat (map (live_id ids) (leafIds n))"
  by (induction n) (auto simp: live_id_def split: option.splits)

lemma swapLeaves_leaves:
  "leafIds (swapLeaves n s t) = map (\<lambda>u. if u = s then t else if u = t then s else u) (leafIds n)"
  by (induction n) auto

lemma swapLeaves_involution: "swapLeaves (swapLeaves n s t) s t = n"
  by (induction n) auto

lemma updateSplitRatio_leaves [simp]: "leafIds (updateSplitRatio n nid r) = leafIds n"
  by (induction n) auto

lemma equalizeSplits_leaves [simp]: "leafIds (equalizeSplits n) = leafIds n"
  by (induction n) auto

subsection \<open>The panes after a split\<close>

definition pane_halves :: "axis \<Rightarrow> bool \<Rightarrow> string \<Rightarrow> pane_rect \<Rightarrow> pane_rect list" where
  "pane_halves ax bf new p =
     (case (half_rect p ax True, half_rect p ax False) of
        ((l1, t1, w1, h1), (l2, t2, w2, h2)) \<Rightarrow>
          [pane (if bf then new else pr_tabId p) l1 t1 w1 h1, pane (if bf then pr_tabId p else new) l2 t2 w2 h2])"

definition split_panes :: "axis \<Rightarrow> bool \<Rightarrow> string \<Rightarrow> string \<Rightarrow> pane_rect list \<Rightarrow> pane_rect list" where
  "split_panes ax bf t new ps = concat (map (\<lambda>p. if pr_tabId p = t then pane_halves ax bf new p else [p]) ps)"

lemma split_panes_absent: "t \<notin> pr_tabId ` set ps \<Longrightarrow> split_panes ax bf t new ps = ps"
  by (induction ps) (auto simp: split_panes_def)

lemma split_panes_append: "split_panes ax bf t new (ps @ qs) = split_panes ax bf t new ps @ split_panes ax bf t new qs"
  by (simp add: split_panes_def)

lemma walk_panes_id_set: "pr_tabId ` set (walk_panes n l t w h) = set (leafIds n)"
  by (metis list.set_map walk_panes_ids)

lemma walk_panes_splitLeaf:
  "distinct (leafIds n) \<Longrightarrow>
     walk_panes (splitLeaf nid n t new ax bf) l tp w h = split_panes ax bf t new (walk_panes n l tp w h)"
proof (induction n arbitrary: l tp w h)
  case (Leaf u)
  then show ?case
    by (cases ax) (auto simp: split_panes_def pane_halves_def half_rect_def Let_def)
next
  case (Split n ax0 r a b)
  show ?case
  proof (cases "t \<in> set (leafIds a)")
    case True
    then have b: "t \<notin> set (leafIds b)" using Split.prems by auto
    then show ?thesis
      using True Split.prems
      by (cases ax0) (simp_all add: Let_def split_panes_append Split.IH(1) split_panes_absent walk_panes_id_set)
  next
    case False
    then show ?thesis
      using Split.prems
      by (cases ax0) (simp_all add: Let_def split_panes_append Split.IH(2) split_panes_absent walk_panes_id_set)
  qed
qed

lemma layoutSplit_panes: "fst (layoutSplit n None) = walk_panes n 0 0 1 1"
  by (simp add: layoutSplit_def)

subsection \<open>The drop zone\<close>

lemma nearest_edge_cases:
  fixes dx dy :: rat
  assumes "nearest_edge (dx, Horizontal, True)
             [(1 - dx, Horizontal, False), (dy, Vertical, True), (1 - dy, Vertical, False)] = (d, ax, bf)"
  shows "(ax = Horizontal \<and> bf \<and> dx \<le> 1 / 2) \<or> (ax = Horizontal \<and> \<not> bf \<and> 1 / 2 \<le> dx)
       \<or> (ax = Vertical \<and> bf \<and> dy \<le> 1 / 2) \<or> (ax = Vertical \<and> \<not> bf \<and> 1 / 2 \<le> dy)"
  using assms by (auto split: if_splits)

lemma half_contains:
  fixes x l w :: rat
  assumes "0 < w"
  shows "(x - l) / w \<le> 1 / 2 \<Longrightarrow> x \<le> l + w / 2" "1 / 2 \<le> (x - l) / w \<Longrightarrow> l + w / 2 \<le> x"
  using assms by (simp_all add: field_simps)

definition zone_pane :: "string \<Rightarrow> drop_zone \<Rightarrow> pane_rect" where
  "zone_pane new z = pane new (dz_left z) (dz_top z) (dz_width z) (dz_height z)"

lemma zone_of_contains:
  assumes "0 < pr_width p" "0 < pr_height p" "in_pane x y p"
  shows "in_pane x y (zone_pane new (zone_of x y p))"
proof -
  obtain d ax bf where n: "nearest_edge ((x - pr_left p) / pr_width p, Horizontal, True)
      [(1 - (x - pr_left p) / pr_width p, Horizontal, False), ((y - pr_top p) / pr_height p, Vertical, True),
       (1 - (y - pr_top p) / pr_height p, Vertical, False)] = (d, ax, bf)"
    by (metis prod_cases3)
  from nearest_edge_cases [OF n] show ?thesis
    using assms half_contains [OF assms(1), of x "pr_left p"] half_contains [OF assms(2), of y "pr_top p"]
    by (auto simp: zone_of_def n Let_def half_rect_def in_pane_def zone_pane_def simp del: nearest_edge.simps)
qed

lemma zone_of_halves:
  "zone_pane new (zone_of x y p) \<in> set (pane_halves (dz_axis (zone_of x y p)) (dz_before (zone_of x y p)) new p)"
  "dz_targetTabId (zone_of x y p) = pr_tabId p"
  by (auto simp: zone_of_def Let_def case_prod_unfold pane_halves_def half_rect_def zone_pane_def
      split: axis.split)

lemma zone_pane_id [simp]: "pr_tabId (zone_pane new z) = new"
  by (simp add: zone_pane_def)

lemma paneDropZone_Some:
  assumes "paneDropZone ps x y = Some z"
  obtains p where "p \<in> set ps" "in_pane x y p" "0 < pr_width p" "0 < pr_height p" "z = zone_of x y p"
proof -
  obtain p where f: "find (in_pane x y) ps = Some p" and z: "0 < pr_width p" "0 < pr_height p" "z = zone_of x y p"
    using assms by (auto simp: paneDropZone_def not_le split: if_splits option.splits)
  have "p \<in> set ps" "in_pane x y p"
    using f unfolding find_Some_iff by auto
  then show thesis using that z by blast
qed



text \<open>The drop preview is honest: the previewed rectangle contains the pointer, and after the split that the
  zone describes the new terminal's pane is exactly that rectangle, while every pane but the split one stays where it was.\<close>

theorem drop_preview_is_the_new_pane:
  assumes "distinct (leafIds n)" "new \<notin> set (leafIds n)"
    and "paneDropZone (fst (layoutSplit n None)) x y = Some z"
  shows "in_pane x y (zone_pane new z)
    \<and> find (\<lambda>p. pr_tabId p = new)
        (fst (layoutSplit (splitLeaf nid n (dz_targetTabId z) new (dz_axis z) (dz_before z)) None))
      = Some (zone_pane new z)
    \<and> (\<forall>p\<in>set (fst (layoutSplit n None)). pr_tabId p \<noteq> dz_targetTabId z \<longrightarrow>
         p \<in> set (fst (layoutSplit (splitLeaf nid n (dz_targetTabId z) new (dz_axis z) (dz_before z)) None)))"
proof -
  let ?m = "splitLeaf nid n (dz_targetTabId z) new (dz_axis z) (dz_before z)"
  let ?ps = "walk_panes n 0 0 1 1"
  obtain p where p: "p \<in> set ?ps" "in_pane x y p" "0 < pr_width p" "0 < pr_height p" and z: "z = zone_of x y p"
    using assms(3) unfolding layoutSplit_panes by (rule paneDropZone_Some)
  have panes: "walk_panes ?m 0 0 1 1 = split_panes (dz_axis z) (dz_before z) (pr_tabId p) new ?ps"
    using assms(1) by (simp add: walk_panes_splitLeaf z zone_of_halves)
  have mem: "zone_pane new z \<in> set (walk_panes ?m 0 0 1 1)"
    unfolding panes using p(1) zone_of_halves(1) [of new x y p]
    by (auto simp: split_panes_def z intro!: bexI [of _ p])
  have "distinct (leafIds ?m)"
    using assms(1,2) distinct_insert_beside by (simp add: leafIds_splitLeaf)
  then have "distinct (map pr_tabId (walk_panes ?m 0 0 1 1))" by simp
  from find_by_id [OF this mem] have "find (\<lambda>q. pr_tabId q = new) (walk_panes ?m 0 0 1 1) = Some (zone_pane new z)"
    by simp
  moreover have "in_pane x y (zone_pane new z)"
    using p z by (simp add: zone_of_contains)
  moreover have "\<forall>q\<in>set ?ps. pr_tabId q \<noteq> dz_targetTabId z \<longrightarrow> q \<in> set (walk_panes ?m 0 0 1 1)"
    unfolding panes by (auto simp: split_panes_def z zone_of_halves)
  ultimately show ?thesis unfolding layoutSplit_panes by blast
qed

theorem drop_preview_is_the_new_pane_witness:
  "\<exists>z. paneDropZone (fst (layoutSplit (Split ''s'' Vertical (1 / 2) (Leaf ''a'') (Leaf ''b'')) None)) (1 / 2) (9 / 10) = Some z
     \<and> in_pane (1 / 2) (9 / 10) (zone_pane ''c'' z) \<and> dz_targetTabId z = ''b'' \<and> dz_axis z = Vertical \<and> \<not> dz_before z"
proof -
  let ?n = "Split ''s'' Vertical (1 / 2) (Leaf ''a'') (Leaf ''b'')"
  let ?z = "zone_of (1 / 2) (9 / 10) (pane ''b'' 0 (1 / 2) 1 (1 / 2))"
  have "paneDropZone (fst (layoutSplit ?n None)) (1 / 2) (9 / 10) = Some ?z"
    by (simp add: layoutSplit_panes Let_def paneDropZone_def in_pane_def)
  moreover have "dz_targetTabId ?z = ''b'' \<and> dz_axis ?z = Vertical \<and> \<not> dz_before ?z"
    by (simp add: zone_of_def half_rect_def)
  ultimately show ?thesis
    using drop_preview_is_the_new_pane [of ?n "''c''" "1 / 2" "9 / 10" ?z "''t''"] by auto
qed

text \<open>Removing a terminal's leaf keeps the other terminals in their order (\<open>None\<close> exactly when none is left),
  and undoes a split: after splitting a leaf for a new terminal, removing that terminal gives the tree back.\<close>

theorem removeLeaf_undoes_split:
  assumes "distinct (leafIds n)" "new \<notin> set (leafIds n)"
  shows "removeLeaf (splitLeaf nid n t new ax bf) new = Some n
    \<and> leafIds (splitLeaf nid n t new ax bf) = insert_beside t new bf (leafIds n)
    \<and> (removeLeaf n u = None \<longleftrightarrow> leafIds n = [u])
    \<and> (\<forall>m. removeLeaf n u = Some m \<longrightarrow> leafIds m = filter (\<lambda>v. v \<noteq> u) (leafIds n))"
proof -
  have "removeLeaf n u = None \<longleftrightarrow> leafIds n = [u]"
  proof -
    have "set (leafIds n) \<subseteq> {u} \<longleftrightarrow> leafIds n = [u]"
      using assms(1) leafIds_nonempty [of n]
      by (cases "leafIds n"; cases "tl (leafIds n)") auto
    then show ?thesis by (simp add: removeLeaf_None)
  qed
  moreover have "\<forall>m. removeLeaf n u = Some m \<longrightarrow> leafIds m = filter (\<lambda>v. v \<noteq> u) (leafIds n)"
    using removeLeaf_leaves [of n u] by auto
  ultimately show ?thesis
    using assms by (simp add: removeLeaf_splitLeaf leafIds_splitLeaf)
qed

theorem removeLeaf_undoes_split_witness:
  "removeLeaf (splitLeaf ''s'' (Leaf ''a'') ''a'' ''b'' Vertical True) ''b'' = Some (Leaf ''a'')"
  using removeLeaf_undoes_split [of "Leaf ''a''" "''b''" "''s''" "''a''" Vertical True "''a''"] by simp

subsection \<open>Restored groups\<close>

definition group_ok :: "terminal_group \<Rightarrow> bool" where
  "group_ok g \<longleftrightarrow> 2 \<le> length (leafIds (tg_root g)) \<and> tg_activeTabId g \<in> set (leafIds (tg_root g))
     \<and> (\<forall>z. tg_zoomedTabId g = Some z \<longrightarrow> z = '''' \<or> z \<in> set (leafIds (tg_root g)))"

lemma mapSplitTabIds_Some_leaves:
  "mapSplitTabIds n ids = Some m \<Longrightarrow> leafIds m = concat (map (live_id ids) (leafIds n))"
  using mapSplitTabIds_leaves [of n ids] by simp

lemma live_id_mem: "ids u = Some v \<Longrightarrow> v \<noteq> '''' \<Longrightarrow> v \<in> set (live_id ids u)"
  by (simp add: live_id_def)

lemma mapped_leaf_kept:
  "mapSplitTabIds n ids = Some m \<Longrightarrow> u \<in> set (leafIds n) \<Longrightarrow> ids u = Some v \<Longrightarrow> v \<noteq> '''' \<Longrightarrow> v \<in> set (leafIds m)"
  using live_id_mem by (fastforce simp: mapSplitTabIds_Some_leaves)

lemma remap_group_cases:
  assumes "remap_group ids g = Some g'"
  obtains m where "mapSplitTabIds (tg_root g) ids = Some m" "2 \<le> length (leafIds m)"
    "g' = g\<lparr>tg_root := m,
       tg_activeTabId := (case ids (tg_activeTabId g) of Some v \<Rightarrow> v | None \<Rightarrow> hd (leafIds m)),
       tg_zoomedTabId := (case tg_zoomedTabId g of Some z \<Rightarrow> (if z = '''' then None else ids z) | None \<Rightarrow> None)\<rparr>"
  using assms unfolding remap_group_def Let_def by (auto simp: not_less split: option.splits if_splits)

lemma remap_group_ok:
  assumes g: "group_ok g" and ids: "\<And>u. ids u \<noteq> Some ''''" and r: "remap_group ids g = Some g'"
  shows "group_ok g'"
proof -
  obtain m where m: "mapSplitTabIds (tg_root g) ids = Some m" and len: "2 \<le> length (leafIds m)"
    and g': "g' = g\<lparr>tg_root := m, tg_activeTabId := (case ids (tg_activeTabId g) of Some v \<Rightarrow> v | None \<Rightarrow> hd (leafIds m)),
      tg_zoomedTabId := (case tg_zoomedTabId g of Some z \<Rightarrow> (if z = '''' then None else ids z) | None \<Rightarrow> None)\<rparr>"
    using r by (rule remap_group_cases)
  have kept: "v \<in> set (leafIds m)" if "u \<in> set (leafIds (tg_root g))" "ids u = Some v" for u v
    using mapped_leaf_kept [OF m that] ids [of u] that(2) by auto
  show ?thesis
    using g kept len by (auto simp: group_ok_def g' split: option.splits if_splits)
qed

lemma remapTerminalGroups_mem:
  "(gid, g') \<in> set (remapTerminalGroups gs ids) \<longleftrightarrow> (\<exists>g. (gid, g) \<in> set gs \<and> remap_group ids g = Some g')"
  by (induction gs ids rule: remapTerminalGroups.induct) (auto split: option.splits)

lemma remap_group_leaves:
  "remap_group ids g = Some g' \<Longrightarrow> leafIds (tg_root g') = concat (map (live_id ids) (leafIds (tg_root g)))"
  by (erule remap_group_cases) (simp add: mapSplitTabIds_Some_leaves)

lemma remap_group_None:
  "remap_group ids g = None \<longleftrightarrow> length (concat (map (live_id ids) (leafIds (tg_root g)))) < 2"
  unfolding mapSplitTabIds_leaves [symmetric] remap_group_def
  by (auto simp: Let_def split: option.splits)

text \<open>Restoring the groups after a restart keeps a group exactly when at least two of its terminals came back; a
  kept group shows the terminals that did, in order, under their new ids, and its active and zoomed terminals are
  among them.\<close>

theorem restored_groups_are_live:
  assumes "\<forall>(gid, g)\<in>set gs. group_ok g" and "\<forall>u. ids u \<noteq> Some ''''"
  shows "(\<forall>(gid, g')\<in>set (remapTerminalGroups gs ids). group_ok g' \<and>
            (\<exists>g. (gid, g) \<in> set gs \<and> leafIds (tg_root g') = concat (map (live_id ids) (leafIds (tg_root g)))))
    \<and> (\<forall>(gid, g)\<in>set gs. (\<exists>g'. (gid, g') \<in> set (remapTerminalGroups gs ids))
           \<or> length (concat (map (live_id ids) (leafIds (tg_root g)))) < 2)"
proof (intro conjI ballI; clarify)
  fix gid g'
  assume "(gid, g') \<in> set (remapTerminalGroups gs ids)"
  then obtain g where g: "(gid, g) \<in> set gs" "remap_group ids g = Some g'"
    by (auto simp: remapTerminalGroups_mem)
  have "group_ok g" using assms(1) g(1) by blast
  then have "group_ok g'"
    by (rule remap_group_ok [OF _ assms(2) [rule_format] g(2)])
  then show "group_ok g' \<and> (\<exists>g. (gid, g) \<in> set gs \<and> leafIds (tg_root g') = concat (map (live_id ids) (leafIds (tg_root g))))"
    using g remap_group_leaves [OF g(2)] by blast
next
  fix gid g
  assume "(gid, g) \<in> set gs" "\<not> length (concat (map (live_id ids) (leafIds (tg_root g)))) < 2"
  then obtain g' where "remap_group ids g = Some g'"
    using remap_group_None [of ids g] by auto
  with \<open>(gid, g) \<in> set gs\<close> show "\<exists>g'. (gid, g') \<in> set (remapTerminalGroups gs ids)"
    by (auto simp: remapTerminalGroups_mem)
qed

definition demo_group :: terminal_group where
  "demo_group = \<lparr>tg_id = ''g'', tg_root = Split ''s'' Vertical (1 / 2) (Leaf ''a'') (Split ''r'' Horizontal (1 / 2) (Leaf ''b'') (Leaf ''c'')),
     tg_activeTabId = ''b'', tg_zoomedTabId = None, tg_userName = None\<rparr>"

theorem restored_groups_are_live_witness:
  "\<exists>g'. (''g'', g') \<in> set (remapTerminalGroups [(''g'', demo_group)] [''a'' \<mapsto> ''x'', ''c'' \<mapsto> ''y'']) \<and> group_ok g'"
proof -
  obtain ids where ids: "ids = [''a'' \<mapsto> ''x'', ''c'' \<mapsto> ''y'']" by blast
  have g: "group_ok demo_group" by (simp add: group_ok_def demo_group_def)
  have two: "length (concat (map (live_id ids) (leafIds (tg_root demo_group)))) = 2"
    by (simp add: demo_group_def live_id_def ids)
  have ne: "\<forall>u. ids u \<noteq> Some ''''" by (simp add: ids)
  have all: "\<forall>(gid, g)\<in>set [(''g'', demo_group)]. group_ok g" using g by simp
  note r = restored_groups_are_live [OF all ne]
  obtain g' where g': "(''g'', g') \<in> set (remapTerminalGroups [(''g'', demo_group)] ids)"
    using r [THEN conjunct2] two by auto
  moreover have "group_ok g'"
    using r [THEN conjunct1] g' by (blast dest: bspec)
  ultimately show ?thesis unfolding ids by blast
qed

subsection \<open>Neighbours\<close>

lemma neighbor_loop_sound:
  "neighbor_loop dir q t best ps = Some (u, s) \<Longrightarrow>
     best = Some (u, s) \<or> (\<exists>p\<in>set ps. pr_tabId p = u \<and> u \<noteq> t \<and> 0 < primary_distance dir q p)"
proof (induction ps arbitrary: best)
  case (Cons p ps)
  show ?case
  proof (cases "pr_tabId p = t \<or> primary_distance dir q p \<le> 0")
    case True
    then show ?thesis using Cons by auto
  next
    case False
    then obtain best' where "neighbor_loop dir q t best' ps = Some (u, s)"
      and "best' = best \<or> best' = Some (pr_tabId p, neighbor_score dir q p)"
      using Cons.prems by (simp add: Let_def split: option.splits if_splits)
    with Cons.IH [of best'] False show ?thesis by auto
  qed
qed simp

lemma neighbor_loop_None:
  "neighbor_loop dir q t best ps = None \<longleftrightarrow>
     best = None \<and> (\<forall>p\<in>set ps. pr_tabId p = t \<or> primary_distance dir q p \<le> 0)"
  by (induction ps arbitrary: best) (auto simp: Let_def split: if_splits option.splits)

lemma neighborPane_is_a_leaf:
  assumes "neighborPane n t dir = Some u"
  shows "u \<in> set (leafIds n) \<and> u \<noteq> t \<and> t \<in> set (leafIds n)"
proof -
  obtain q s where q: "find (\<lambda>p. pr_tabId p = t) (walk_panes n 0 0 1 1) = Some q"
    and l: "neighbor_loop dir q t None (walk_panes n 0 0 1 1) = Some (u, s)"
    using assms by (auto simp: neighborPane_def layoutSplit_panes Let_def split: option.splits)
  have "t \<in> pr_tabId ` set (walk_panes n 0 0 1 1)"
    using q unfolding find_Some_iff by force
  moreover have "u \<in> pr_tabId ` set (walk_panes n 0 0 1 1) \<and> u \<noteq> t"
    using neighbor_loop_sound [OF l] by auto
  ultimately show ?thesis by (simp add: walk_panes_id_set)
qed

end
