(* ===== verification/WorkflowDefinition.thy ===== *)
theory WorkflowDefinition
  imports WorkflowJson
begin

text \<open>
  Workflow definitions, \<^verbatim>\<open>src/src/workflowDefinition.ts\<close>: the validator of a parsed definition file, in the order of
  its checks and with its messages, the loader of a project's catalog, and the trigger filter.

  A group of checks is a function that returns the messages it pushes; a group that also collects
  (\<^verbatim>\<open>agentIds\<close>, \<^verbatim>\<open>stepIds\<close>, \<^verbatim>\<open>steps\<close>, \<^verbatim>\<open>edges\<close>) returns what it collects too. The agent registry
  (\<^verbatim>\<open>agentCliFor\<close>), the printing of numbers, the secret scanner, JSON parsing and the file system
  are arguments.
\<close>

record config_field =
  cf_key :: string
  cf_choices :: "string list option"

record wf_context =
  vc_projectRoot :: string
  vc_componentRoots :: "string list"
  vc_agentCliFor :: "string \<Rightarrow> config_field list option"
  vc_num :: "rat \<Rightarrow> string"

definition WORKFLOW_TRIGGER_CATALOG :: "string list" where
  "WORKFLOW_TRIGGER_CATALOG =
     [''manual'', ''pr.comment'', ''issue.opened'', ''issue.updated'', ''issue.closed'', ''issue.reopened'', ''issue.comment'',
      ''research.created'', ''research.status-changed'', ''task.created'', ''task.settled'', ''attempt.failed'',
      ''git.commit'', ''git.push'', ''git.branch-created'', ''pr.opened'', ''pr.checks-completed'', ''agent.spawned'',
      ''agent.ended'', ''server.incident'', ''mesh.message'']"

definition CAPABILITIES :: "string list" where
  "CAPABILITIES = [''workspace-read'', ''workspace-write'', ''network'', ''git-write'', ''open-pr'', ''update-branch'']"

definition TERMINALS :: "string list" where
  "TERMINALS = [''$completed'', ''$failed'', ''$cancelled'']"

definition RESERVED_OUTCOMES :: "string list" where
  "RESERVED_OUTCOMES = [''success'', ''failure'', ''pass'', ''fail'']"

definition MAX_STEPS :: nat where "MAX_STEPS = 128"
definition MAX_EDGES :: nat where "MAX_EDGES = 512"
definition MAX_ROUNDS :: nat where "MAX_ROUNDS = 16"
definition MAX_AGENTS :: nat where "MAX_AGENTS = 64"
definition MAX_VERDICTS :: nat where "MAX_VERDICTS = 8"

definition is_id :: "json option \<Rightarrow> bool" where
  "is_id v = (case as_string v of Some s \<Rightarrow> \<not> blank s \<and> ID s | None \<Rightarrow> False)"

definition text_upto :: "nat \<Rightarrow> json option \<Rightarrow> bool" where
  "text_upto n v = (case as_string v of Some s \<Rightarrow> \<not> blank s \<and> length s \<le> n | None \<Rightarrow> False)"

definition one_of :: "wf_context \<Rightarrow> json option \<Rightarrow> string list \<Rightarrow> bool" where
  "one_of c v ss \<longleftrightarrow> js_String (vc_num c) v \<in> set ss"

section \<open>Constraints\<close>

definition observed_root :: "wf_context \<Rightarrow> string \<Rightarrow> bool" where
  "observed_root c r =
     (let resolved = resolvePath (vc_projectRoot c) r
      in inside (vc_projectRoot c) resolved \<and> resolved \<in> set (vc_componentRoots c))"

definition unsafe_pattern :: "string \<Rightarrow> bool" where
  "unsafe_pattern p \<longleftrightarrow> blank p \<or> length p > 128 \<or> take 1 p = ''/'' \<or> sublist ''..'' p
     \<or> CHR 0x00 \<in> set p \<or> CHR 0x0D \<in> set p \<or> CHR 0x0A \<in> set p"

definition strings_of :: "json option \<Rightarrow> string list" where
  "strings_of v = List.map_filter (\<lambda>x. as_string (Some x)) (array_or_empty v)"

definition validateConstraints :: "wf_context \<Rightarrow> json option \<Rightarrow> string \<Rightarrow> string list" where
  "validateConstraints c v loc =
     (case as_record v of
        None \<Rightarrow> [loc @ '' must be an object'']
      | Some fs \<Rightarrow>
          exactKeys fs [''componentRoots'', ''branchPatterns''] loc
          @ (if \<not> strings_value (map_of fs ''componentRoots'') then [loc @ ''.componentRoots must be a string array'']
             else map (\<lambda>r. loc @ ''.componentRoots contains an unobserved project root'')
                    (filter (\<lambda>r. \<not> observed_root c r) (strings_of (map_of fs ''componentRoots''))))
          @ (if \<not> strings_value (map_of fs ''branchPatterns'') then [loc @ ''.branchPatterns must be a string array'']
             else map (\<lambda>p. loc @ ''.branchPatterns contains an unsafe pattern'')
                    (filter unsafe_pattern (strings_of (map_of fs ''branchPatterns'')))))"

section \<open>Agent blocks and triggers\<close>

definition config_entry :: "wf_context \<Rightarrow> string \<Rightarrow> string \<Rightarrow> config_field list \<Rightarrow> string \<times> json \<Rightarrow> string list" where
  "config_entry c loc typeId declared e =
     (let (k, v) = e; fld = map_of (rev (map (\<lambda>f. (cf_key f, f)) declared)) k
      in err (fld = None) (loc @ ''.config.'' @ k @ '' is not declared by '' @ (if typeId = [] then ''this agent type'' else typeId))
         @ err (\<not> text_upto 512 (Some v)) (loc @ ''.config.'' @ k @ '' is invalid'')
         @ (case fld of
              Some f \<Rightarrow> (case cf_choices f of
                  Some cs \<Rightarrow> err (\<not> list_ex (\<lambda>ch. v = JStr ch) cs) (loc @ ''.config.'' @ k @ '' is not a supported value'')
                | None \<Rightarrow> [])
            | None \<Rightarrow> []))"

definition agent_errors :: "wf_context \<Rightarrow> string \<Rightarrow> string list \<Rightarrow> fields \<Rightarrow> string list" where
  "agent_errors c loc seen fs =
     (let i = map_of fs ''id''; p = map_of fs ''prompt'';
          typeId = (case as_string (map_of fs ''type'') of Some s \<Rightarrow> s | None \<Rightarrow> []);
          agentType = vc_agentCliFor c typeId
      in exactKeys fs [''id'', ''name'', ''type'', ''config'', ''prompt''] loc
         @ (if \<not> is_id i then [loc @ ''.id is invalid'']
            else err (\<exists>s \<in> set seen. i = Some (JStr s)) (loc @ ''.id is duplicated''))
         @ err (\<not> text_upto 128 (map_of fs ''name'')) (loc @ ''.name is invalid'')
         @ err (\<not> text_upto 128 (map_of fs ''type'')) (loc @ ''.type is invalid'')
         @ err (p \<noteq> None \<and> (case as_string p of Some s \<Rightarrow> length s > 32000 | None \<Rightarrow> True)) (loc @ ''.prompt is invalid'')
         @ err (typeId \<noteq> ''inherit'' \<and> agentType = None) (loc @ ''.type is not registered'')
         @ (case (if map_of fs ''config'' = None then Some [] else as_record (map_of fs ''config'')) of
              None \<Rightarrow> [loc @ ''.config must be an object'']
            | Some config \<Rightarrow>
                err (length config > 32) (loc @ ''.config has too many fields'')
                @ concat (map (config_entry c loc typeId (case agentType of Some ds \<Rightarrow> ds | None \<Rightarrow> [])) config)))"

definition fresh_id :: "json option \<Rightarrow> string list \<Rightarrow> string list" where
  "fresh_id v seen = (case as_string v of Some s \<Rightarrow> if is_id v \<and> s \<notin> set seen then seen @ [s] else seen | None \<Rightarrow> seen)"

fun agents_loop :: "wf_context \<Rightarrow> nat \<Rightarrow> string list \<Rightarrow> json list \<Rightarrow> string list \<times> string list" where
  "agents_loop c i seen [] = ([], seen)"
| "agents_loop c i seen (raw # raws) =
     (let loc = indexed ''workflow.agents'' i in
      case as_record (Some raw) of
        None \<Rightarrow> (let (es, ids) = agents_loop c (Suc i) seen raws in ((loc @ '' is not an object'') # es, ids))
      | Some fs \<Rightarrow>
          (let (es, ids) = agents_loop c (Suc i) (fresh_id (map_of fs ''id'') seen) raws
           in (agent_errors c loc seen fs @ es, ids)))"

definition trigger_errors :: "string \<Rightarrow> json \<Rightarrow> string list" where
  "trigger_errors loc raw =
     (case as_record (Some raw) of
        None \<Rightarrow> [loc @ '' is not an object'']
      | Some fs \<Rightarrow>
          (let k = map_of fs ''kind''; m = map_of fs ''mentions'' in
           exactKeys fs [''kind'', ''repo'', ''mentions''] loc
           @ err (\<not> list_ex (\<lambda>s. k = Some (JStr s)) WORKFLOW_TRIGGER_CATALOG) (loc @ ''.kind is not in the event catalog'')
           @ err (map_of fs ''repo'' \<noteq> None \<and> \<not> text_value (map_of fs ''repo'')) (loc @ ''.repo is invalid'')
           @ (if m \<noteq> None \<and> \<not> strings_value m then [loc @ ''.mentions is invalid'']
              else err (array_or_empty m \<noteq> [] \<and> k \<noteq> Some (JStr ''pr.comment'') \<and> k \<noteq> Some (JStr ''issue.comment''))
                     (loc @ ''.mentions is only valid for comment events''))))"

fun indexed_errors :: "(string \<Rightarrow> 'a \<Rightarrow> string list) \<Rightarrow> string \<Rightarrow> nat \<Rightarrow> 'a list \<Rightarrow> string list" where
  "indexed_errors f base i [] = []"
| "indexed_errors f base i (x # xs) = f (indexed base i) x @ indexed_errors f base (Suc i) xs"

section \<open>Steps\<close>

definition specific_fields :: "json option \<Rightarrow> string list" where
  "specific_fields kind =
     (if kind = Some (JStr ''agent'') then [''agent'', ''prompt'', ''acceptance'', ''attemptCap'', ''verdicts'']
      else if kind = Some (JStr ''gate'') then [''evidence'']
      else if kind = Some (JStr ''watch'') then [''event'']
      else if kind = Some (JStr ''human'') then [''card'']
      else if kind = Some (JStr ''git-op'') then [''operation'', ''parameters'']
      else [])"

fun capability_errors :: "wf_context \<Rightarrow> string \<Rightarrow> string list \<Rightarrow> json list \<Rightarrow> string list" where
  "capability_errors c loc seen [] = []"
| "capability_errors c loc seen (x # xs) =
     err (\<not> list_ex (\<lambda>s. x = JStr s) CAPABILITIES) (loc @ ''.capabilities contains an unknown grant'')
     @ err (to_str (vc_num c) x \<in> set seen) (loc @ ''.capabilities contains a duplicate grant'')
     @ capability_errors c loc (to_str (vc_num c) x # seen) xs"

fun verdict_errors :: "string \<Rightarrow> string list \<Rightarrow> string list \<Rightarrow> string list" where
  "verdict_errors loc seen [] = []"
| "verdict_errors loc seen (v # vs) =
     (if \<not> ID v \<or> v \<in> set RESERVED_OUTCOMES then [loc @ ''.verdicts contains an invalid outcome '' @ v]
      else err (v \<in> set seen) (loc @ ''.verdicts contains a duplicate outcome '' @ v))
     @ verdict_errors loc (v # seen) vs"

definition agent_step_errors :: "string \<Rightarrow> string list \<Rightarrow> fields \<Rightarrow> string list" where
  "agent_step_errors loc agentIds fs =
     (let a = map_of fs ''agent''; ac = map_of fs ''acceptance''; cap = map_of fs ''attemptCap''; vs = map_of fs ''verdicts'' in
      err (a \<noteq> None \<and> \<not> (text_value a \<and> list_ex (\<lambda>s. a = Some (JStr s)) agentIds)) (loc @ ''.agent does not name a reusable agent block'')
      @ err (\<not> text_value (map_of fs ''prompt'')) (loc @ ''.prompt is required'')
      @ err (\<not> arr_includes (array_or_empty (map_of fs ''capabilities'')) (Some (JStr ''workspace-read'')))
          (loc @ '' must declare workspace-read'')
      @ err (ac \<noteq> None \<and> \<not> strings_value ac) (loc @ ''.acceptance is invalid'')
      @ err (cap \<noteq> None \<and> \<not> int_between 1 8 cap) (loc @ ''.attemptCap must be between 1 and 8'')
      @ (if vs = None then []
         else if \<not> strings_value vs \<or> strings_of vs = [] \<or> length (strings_of vs) > MAX_VERDICTS
         then [loc @ ''.verdicts must list between 1 and 8 outcomes'']
         else verdict_errors loc [] (strings_of vs)))"

definition gate_step_errors :: "wf_context \<Rightarrow> string \<Rightarrow> fields \<Rightarrow> string list" where
  "gate_step_errors c loc fs =
     (case as_record (map_of fs ''evidence'') of
        None \<Rightarrow> [loc @ ''.evidence is required'']
      | Some ev \<Rightarrow>
          exactKeys ev [''stepId'', ''predicate''] (loc @ ''.evidence'')
          @ err (\<not> text_value (map_of ev ''stepId'')) (loc @ ''.evidence.stepId is invalid'')
          @ err (\<not> one_of c (map_of ev ''predicate'') [''attempt.completed'', ''attempt.failed'', ''step.completed''])
              (loc @ ''.evidence.predicate is invalid''))"

definition WATCH_EVENTS :: "string list" where
  "WATCH_EVENTS = [''pr.comment'', ''issue.opened'', ''issue.updated'', ''issue.closed'', ''issue.reopened'', ''issue.comment'']"

fun action_errors :: "wf_context \<Rightarrow> string \<Rightarrow> nat \<Rightarrow> string list \<Rightarrow> json list \<Rightarrow> string list" where
  "action_errors c base i seen [] = []"
| "action_errors c base i seen (raw # raws) =
     (let loc = indexed base i in
      case as_record (Some raw) of
        None \<Rightarrow> (loc @ '' is not an object'') # action_errors c base (Suc i) seen raws
      | Some fs \<Rightarrow>
          (let both = (text_value (map_of fs ''label'') \<and> text_value (map_of fs ''response''));
               resp = (case as_string (map_of fs ''response'') of Some s \<Rightarrow> s | None \<Rightarrow> [])
           in exactKeys fs [''label'', ''response'', ''tone''] loc
              @ (if \<not> both then [loc @ '' needs label and response'']
                 else err (resp \<in> set seen) (loc @ ''.response is duplicated''))
              @ err (map_of fs ''tone'' \<noteq> None \<and> \<not> one_of c (map_of fs ''tone'') [''primary'', ''neutral'', ''danger''])
                  (loc @ ''.tone is invalid'')
              @ action_errors c base (Suc i) (if both \<and> resp \<notin> set seen then resp # seen else seen) raws))"

definition human_step_errors :: "wf_context \<Rightarrow> string \<Rightarrow> fields \<Rightarrow> string list" where
  "human_step_errors c loc fs =
     (case as_record (map_of fs ''card'') of
        None \<Rightarrow> [loc @ ''.card is required'']
      | Some cd \<Rightarrow>
          (let actions = array_or_empty (map_of cd ''actions'') in
           exactKeys cd [''reason'', ''title'', ''detail'', ''actions''] (loc @ ''.card'')
           @ err (\<not> text_value (map_of cd ''title'')) (loc @ ''.card.title is required'')
           @ err (\<not> one_of c (map_of cd ''reason'') [''credentials'', ''account-link'', ''destructive'', ''payment'', ''choice''])
               (loc @ ''.card.reason is invalid'')
           @ err (actions = []) (loc @ ''.card.actions must not be empty'')
           @ action_errors c (loc @ ''.card.actions'') 0 [] actions))"

definition git_step_errors :: "wf_context \<Rightarrow> string \<Rightarrow> fields \<Rightarrow> string list" where
  "git_step_errors c loc fs =
     (let oper = map_of fs ''operation'' in
      err (\<not> one_of c oper [''open-pr'', ''update-branch'']) (loc @ ''.operation is invalid in P1'')
      @ (if map_of fs ''parameters'' = None then []
         else case as_record (map_of fs ''parameters'') of
           None \<Rightarrow> [loc @ ''.parameters must be an object'']
         | Some ps \<Rightarrow>
             exactKeys ps [''repo'', ''number'', ''head'', ''base'', ''title'', ''body''] (loc @ ''.parameters'')
             @ err (case as_string (map_of ps ''repo'') of Some s \<Rightarrow> \<not> owner_repo s | None \<Rightarrow> True)
                 (loc @ ''.parameters.repo must be owner/repository'')
             @ err (oper = Some (JStr ''update-branch'') \<and> \<not> int_between 1 (2 ^ 53 - 1) (map_of ps ''number''))
                 (loc @ ''.parameters.number must identify a pull request'')
             @ (if oper = Some (JStr ''open-pr'')
                then concat (map (\<lambda>k. err (\<not> text_value (map_of ps k)) (loc @ ''.parameters.'' @ k @ '' is required''))
                       [''head'', ''base'', ''title'', ''body''])
                else []))
      @ concat (map (\<lambda>req. err (\<not> arr_includes (array_or_empty (map_of fs ''capabilities'')) req)
                             (loc @ '' must declare '' @ js_String (vc_num c) req))
           [Some (JStr ''network''), Some (JStr ''git-write''), oper]))"

definition step_errors :: "wf_context \<Rightarrow> string \<Rightarrow> string list \<Rightarrow> string list \<Rightarrow> fields \<Rightarrow> string list" where
  "step_errors c loc agentIds seen fs =
     (let i = map_of fs ''id''; kind = map_of fs ''kind'' in
      exactKeys fs ([''id'', ''name'', ''kind'', ''capabilities'', ''constraints''] @ specific_fields kind) loc
      @ (if \<not> is_id i then [loc @ ''.id is invalid'']
         else err (\<exists>s \<in> set seen. i = Some (JStr s)) (loc @ ''.id is duplicated''))
      @ err (\<not> text_value (map_of fs ''name'')) (loc @ ''.name is required'')
      @ err (\<not> one_of c kind [''agent'', ''gate'', ''watch'', ''human'', ''git-op'']) (loc @ ''.kind is invalid'')
      @ (case as_array (map_of fs ''capabilities'') of
           None \<Rightarrow> [loc @ ''.capabilities must be declared'']
         | Some cs \<Rightarrow> capability_errors c loc [] cs)
      @ (if map_of fs ''constraints'' = None then [] else validateConstraints c (map_of fs ''constraints'') (loc @ ''.constraints''))
      @ (if kind = Some (JStr ''agent'') then agent_step_errors loc agentIds fs
         else if kind = Some (JStr ''gate'') then gate_step_errors c loc fs
         else if kind = Some (JStr ''watch'') then err (\<not> one_of c (map_of fs ''event'') WATCH_EVENTS) (loc @ ''.event is not wired'')
         else if kind = Some (JStr ''human'') then human_step_errors c loc fs
         else if kind = Some (JStr ''git-op'') then git_step_errors c loc fs
         else []))"

fun steps_loop :: "wf_context \<Rightarrow> string list \<Rightarrow> nat \<Rightarrow> string list \<Rightarrow> json list \<Rightarrow> string list \<times> string list \<times> fields list" where
  "steps_loop c agentIds i seen [] = ([], seen, [])"
| "steps_loop c agentIds i seen (raw # raws) =
     (let loc = indexed ''workflow.steps'' i in
      case as_record (Some raw) of
        None \<Rightarrow> (let (es, ids, steps) = steps_loop c agentIds (Suc i) seen raws in ((loc @ '' is not an object'') # es, ids, steps))
      | Some fs \<Rightarrow>
          (let (es, ids, steps) = steps_loop c agentIds (Suc i) (fresh_id (map_of fs ''id'') seen) raws
           in (step_errors c loc agentIds seen fs @ es, ids, fs # steps)))"

text \<open>\<^verbatim>\<open>byId.get(key)\<close>: the map of the steps by their id, where a later step replaces an earlier one.\<close>

definition step_by_id :: "fields list \<Rightarrow> json option \<Rightarrow> fields option" where
  "step_by_id steps v = find (\<lambda>fs. same (map_of fs ''id'') v) (rev steps)"

definition evidence_errors :: "wf_context \<Rightarrow> fields list \<Rightarrow> fields \<Rightarrow> string list" where
  "evidence_errors c steps fs =
     (if map_of fs ''kind'' \<noteq> Some (JStr ''gate'') then []
      else
        (let ev = map_of fs ''evidence''; me = js_String (vc_num c) (map_of fs ''id'') in
         case step_by_id steps (field_of ev ''stepId'') of
           None \<Rightarrow> [''gate '' @ me @ '' names missing evidence step '' @ js_String (vc_num c) (field_of ev ''stepId'')]
         | Some source \<Rightarrow>
             err ((case as_string (field_of ev ''predicate'') of Some p \<Rightarrow> take 8 p = ''attempt.'' | None \<Rightarrow> False)
                  \<and> map_of source ''kind'' \<noteq> Some (JStr ''agent''))
               (''gate '' @ me @ '' requires attempt evidence from an agent step'')))"

section \<open>Edges, outcomes and the graph\<close>

definition target_exists :: "string list \<Rightarrow> json option \<Rightarrow> bool" where
  "target_exists stepIds v = (case as_string v of Some s \<Rightarrow> s \<in> set stepIds \<or> s \<in> set TERMINALS | None \<Rightarrow> False)"

definition is_step :: "string list \<Rightarrow> json option \<Rightarrow> bool" where
  "is_step stepIds v = (case as_string v of Some s \<Rightarrow> s \<in> set stepIds | None \<Rightarrow> False)"

definition edge_key :: "wf_context \<Rightarrow> fields \<Rightarrow> string" where
  "edge_key c e = js_String (vc_num c) (map_of e ''from'') @ [CHR 0x00] @ js_String (vc_num c) (map_of e ''on'')"

definition loop_errors :: "string list \<Rightarrow> string \<Rightarrow> json option \<Rightarrow> string list" where
  "loop_errors stepIds loc lp =
     (case as_record lp of
        None \<Rightarrow> [loc @ ''.loop is not an object'']
      | Some fs \<Rightarrow>
          exactKeys fs [''maxRounds'', ''exhaustedTo''] (loc @ ''.loop'')
          @ err (\<not> int_between 1 (int MAX_ROUNDS) (map_of fs ''maxRounds'')) (loc @ ''.loop.maxRounds must be between 1 and 16'')
          @ err (\<not> target_exists stepIds (map_of fs ''exhaustedTo'')) (loc @ ''.loop.exhaustedTo is invalid''))"

definition edge_errors :: "wf_context \<Rightarrow> string list \<Rightarrow> string \<Rightarrow> string list \<Rightarrow> fields \<Rightarrow> string list" where
  "edge_errors c stepIds loc seen e =
     exactKeys e [''from'', ''to'', ''on'', ''loop''] loc
     @ err (\<not> (text_value (map_of e ''from'') \<and> is_step stepIds (map_of e ''from''))) (loc @ ''.from does not name a step'')
     @ err (\<not> target_exists stepIds (map_of e ''to'')) (loc @ ''.to does not land on a step or terminal'')
     @ err (\<not> text_value (map_of e ''on'')) (loc @ ''.on is required'')
     @ err (edge_key c e \<in> set seen) (loc @ '' duplicates an outcome edge'')
     @ (if map_of e ''loop'' = None then [] else loop_errors stepIds loc (map_of e ''loop''))"

fun edges_loop :: "wf_context \<Rightarrow> string list \<Rightarrow> nat \<Rightarrow> string list \<Rightarrow> json list \<Rightarrow> string list \<times> fields list" where
  "edges_loop c stepIds i seen [] = ([], [])"
| "edges_loop c stepIds i seen (raw # raws) =
     (let loc = indexed ''workflow.edges'' i in
      case as_record (Some raw) of
        None \<Rightarrow> (let (es, edges) = edges_loop c stepIds (Suc i) seen raws in ((loc @ '' is not an object'') # es, edges))
      | Some e \<Rightarrow>
          (let (es, edges) = edges_loop c stepIds (Suc i) (edge_key c e # seen) raws
           in (edge_errors c stepIds loc seen e @ es, e # edges)))"

definition expectedOutcomes :: "fields \<Rightarrow> string list" where
  "expectedOutcomes fs =
     (let kind = map_of fs ''kind'' in
      if kind = Some (JStr ''human'') then
        List.map_filter (\<lambda>a. as_string (field_of (Some a) ''response'')) (array_or_empty (field_of (map_of fs ''card'') ''actions''))
      else if kind = Some (JStr ''gate'') \<or> kind = Some (JStr ''watch'') then [''pass'', ''fail'']
      else if kind = Some (JStr ''agent'') \<and> array_or_empty (map_of fs ''verdicts'') \<noteq> []
      then strings_of (map_of fs ''verdicts'') @ [''failure'']
      else [''success'', ''failure''])"

definition edges_from :: "fields list \<Rightarrow> json option \<Rightarrow> fields list" where
  "edges_from edges x = filter (\<lambda>e. same (map_of e ''from'') x) edges"

definition exit_errors :: "wf_context \<Rightarrow> fields list \<Rightarrow> fields \<Rightarrow> string list" where
  "exit_errors c edges fs =
     (let actual = map (\<lambda>e. map_of e ''on'') (edges_from edges (map_of fs ''id'')); me = js_String (vc_num c) (map_of fs ''id'') in
      concat (map (\<lambda>out. err (Some (JStr out) \<notin> set actual) (''step '' @ me @ '' has no '' @ out @ '' exit'')) (expectedOutcomes fs))
      @ err (map_of fs ''kind'' = Some (JStr ''agent'') \<and> array_or_empty (map_of fs ''verdicts'') \<noteq> []
             \<and> Some (JStr ''success'') \<in> set actual)
          (''step '' @ me @ '' declares verdicts and cannot also exit on success''))"

text \<open>The three graphs: edges without a loop; every edge with the exit of its loop, between steps; the same, terminals included.\<close>

definition ordinary :: "string list \<Rightarrow> fields list \<Rightarrow> json option \<Rightarrow> json option list" where
  "ordinary stepIds edges x =
     map (\<lambda>e. map_of e ''to'')
       (filter (\<lambda>e. \<not> truthy (map_of e ''loop'') \<and> is_step stepIds (map_of e ''to'')) (edges_from edges x))"

definition step_targets :: "string list \<Rightarrow> fields list \<Rightarrow> json option \<Rightarrow> json option list" where
  "step_targets stepIds edges x =
     concat (map (\<lambda>e. filter (is_step stepIds)
         [map_of e ''to'', if truthy (map_of e ''loop'') then field_of (map_of e ''loop'') ''exhaustedTo'' else None])
       (edges_from edges x))"

definition all_targets :: "fields list \<Rightarrow> json option \<Rightarrow> json option list" where
  "all_targets edges x =
     concat (map (\<lambda>e. filter truthy [map_of e ''to'', field_of (map_of e ''loop'') ''exhaustedTo'']) (edges_from edges x))"

definition is_terminal :: "json option \<Rightarrow> bool" where
  "is_terminal v = (case as_string v of Some s \<Rightarrow> s \<in> set TERMINALS | None \<Rightarrow> False)"

definition graph_errors :: "wf_context \<Rightarrow> json option \<Rightarrow> string list \<Rightarrow> fields list \<Rightarrow> fields list \<Rightarrow> string list" where
  "graph_errors c start stepIds steps edges =
     (let ids = map (\<lambda>fs. map_of fs ''id'') steps;
          keys = map (\<lambda>s. Some (JStr s)) stepIds;
          reached = (if text_value start \<and> is_step stepIds start
                     then visit_all keys (step_targets stepIds edges) [] [start] else [])
      in err (fst (find_cycle ids (ordinary stepIds edges) [] [] ids)) ''workflow contains a cycle without a bounded loop edge''
         @ concat (map (\<lambda>x. err (x \<notin> set reached) (''step '' @ js_String (vc_num c) x @ '' is unreachable from workflow.start'')) ids)
         @ map (\<lambda>x. ''step '' @ js_String (vc_num c) x @ '' has no path to a terminal state'')
             (without_terminal keys is_terminal (all_targets edges) [] ids))"

section \<open>The canvas\<close>

definition coordinate :: "json option \<Rightarrow> bool" where
  "coordinate v = (case finite_value v of Some r \<Rightarrow> \<bar>r\<bar> \<le> 1000000 | None \<Rightarrow> False)"

definition canvas_errors :: "json option \<Rightarrow> string list" where
  "canvas_errors v =
     (case as_record v of
        None \<Rightarrow> [''workflow.canvas must be an object'']
      | Some fs \<Rightarrow>
          exactKeys fs [''nodes'', ''viewport''] ''workflow.canvas''
          @ (case as_record (map_of fs ''nodes'') of
               None \<Rightarrow> [''workflow.canvas.nodes must be an object'']
             | Some nodes \<Rightarrow> concat (map (\<lambda>(k, p).
                 (case as_record (Some p) of
                    None \<Rightarrow> [''workflow.canvas.nodes.'' @ k @ '' is invalid'']
                  | Some pt \<Rightarrow> exactKeys pt [''x'', ''y''] (''workflow.canvas.nodes.'' @ k)
                      @ err (\<not> (coordinate (map_of pt ''x'') \<and> coordinate (map_of pt ''y'')))
                          (''workflow.canvas.nodes.'' @ k @ '' is invalid''))) nodes))
          @ (if map_of fs ''viewport'' = None then []
             else case as_record (map_of fs ''viewport'') of
               None \<Rightarrow> [''workflow.canvas.viewport is invalid'']
             | Some vp \<Rightarrow> exactKeys vp [''x'', ''y'', ''zoom''] ''workflow.canvas.viewport''
                 @ err (finite_value (map_of vp ''x'') = None \<or> finite_value (map_of vp ''y'') = None
                        \<or> (case finite_value (map_of vp ''zoom'') of Some z \<Rightarrow> z < 1 / 5 \<or> z > 3 | None \<Rightarrow> True))
                     ''workflow.canvas.viewport is invalid''))"

section \<open>The validator\<close>

definition top_errors :: "wf_context \<Rightarrow> fields \<Rightarrow> string list" where
  "top_errors c doc =
     exactKeys doc [''schemaVersion'', ''id'', ''version'', ''name'', ''agents'', ''triggers'', ''constraints'', ''start'', ''steps'', ''edges'', ''canvas''] ''workflow''
     @ err (map_of doc ''schemaVersion'' \<noteq> Some (JNum 1)) ''unsupported workflow schemaVersion''
     @ err (\<not> is_id (map_of doc ''id'')) ''workflow.id is invalid''
     @ err (\<not> text_upto 128 (map_of doc ''version'')) ''workflow.version is invalid''
     @ err (\<not> text_upto 256 (map_of doc ''name'')) ''workflow.name is invalid''
     @ err (\<not> is_id (map_of doc ''start'')) ''workflow.start is invalid''
     @ validateConstraints c (map_of doc ''constraints'') ''workflow.constraints''"

definition definition_errors :: "wf_context \<Rightarrow> fields \<Rightarrow> string list" where
  "definition_errors c doc =
     (let rawAgents = array_or_empty (map_of doc ''agents'');
          (agentEs, agentIds) = agents_loop c 0 [] rawAgents;
          triggers = array_or_empty (map_of doc ''triggers'');
          rawSteps = array_or_empty (map_of doc ''steps'');
          (stepEs, stepIds, steps) = steps_loop c agentIds 0 [] rawSteps;
          rawEdges = array_or_empty (map_of doc ''edges'');
          (edgeEs, edges) = edges_loop c stepIds 0 [] rawEdges
      in top_errors c doc
         @ err (map_of doc ''agents'' \<noteq> None \<and> as_array (map_of doc ''agents'') = None) ''workflow.agents must be an array''
         @ err (length rawAgents > MAX_AGENTS) ''workflow.agents must contain at most 64 blocks''
         @ agentEs
         @ err (triggers = []) ''workflow.triggers must contain at least one declaration''
         @ indexed_errors trigger_errors ''workflow.triggers'' 0 triggers
         @ err (rawSteps = [] \<or> length rawSteps > MAX_STEPS) ''workflow.steps must contain between 1 and 128 steps''
         @ stepEs
         @ err (text_value (map_of doc ''start'') \<and> \<not> is_step stepIds (map_of doc ''start'')) ''workflow.start does not name a step''
         @ concat (map (evidence_errors c steps) steps)
         @ err (rawEdges = [] \<or> length rawEdges > MAX_EDGES) ''workflow.edges must contain between 1 and 512 edges''
         @ edgeEs
         @ concat (map (exit_errors c edges) steps)
         @ graph_errors c (map_of doc ''start'') stepIds steps edges
         @ (if map_of doc ''canvas'' = None then [] else canvas_errors (map_of doc ''canvas'')))"

definition validateWorkflowDefinition :: "wf_context \<Rightarrow> json \<Rightarrow> string list + json" where
  "validateWorkflowDefinition c v =
     (case as_record (Some v) of
        None \<Rightarrow> Inl [''workflow definition is not an object'']
      | Some doc \<Rightarrow> (let errors = definition_errors c doc in if errors \<noteq> [] then Inl errors else Inr v))"

section \<open>Hash, catalog and triggers\<close>

text \<open>\<open>source\<close> is \<^verbatim>\<open>JSON.stringify(definition)\<close>.\<close>

fun hash_loop :: "nat \<Rightarrow> 32 word \<Rightarrow> 32 word \<Rightarrow> js_string \<Rightarrow> 32 word \<times> 32 word" where
  "hash_loop i left right [] = (left, right)"
| "hash_loop i left right (code # rest) =
     hash_loop (Suc i) (xor left (ucast code) * 0x01000193) (xor right (ucast code + word_of_nat i) * 0x85ebca6b) rest"

definition pad8 :: "string \<Rightarrow> string" where
  "pad8 s = replicate (8 - length s) CHR ''0'' @ s"

definition workflowDefinitionHash :: "js_string \<Rightarrow> string" where
  "workflowDefinitionHash source =
     (let (left, right) = hash_loop 0 0x811c9dc5 0x9e3779b9 source
      in pad8 (js_hex (unat left)) @ pad8 (js_hex (unat right)))"

record dir_entry =
  de_name :: string
  de_path :: string
  de_is_dir :: bool

record definition_io =
  io_readDir :: "string \<Rightarrow> string + dir_entry list"
  io_readText :: "string \<Rightarrow> string + string"
  io_redactSecrets :: "string \<Rightarrow> string"
  io_parse :: "string \<Rightarrow> json option"
  io_sort :: "dir_entry list \<Rightarrow> dir_entry list"
  io_not_found :: "string \<Rightarrow> bool"

definition ends_with :: "string \<Rightarrow> string \<Rightarrow> bool" where
  "ends_with suf s \<longleftrightarrow> length suf \<le> length s \<and> drop (length s - length suf) s = suf"

definition load_file :: "wf_context \<Rightarrow> definition_io \<Rightarrow> dir_entry \<Rightarrow> string list \<times> json list" where
  "load_file c io f =
     (case io_readText io (de_path f) of
        Inl e \<Rightarrow> ([de_name f @ '': '' @ e], [])
      | Inr source \<Rightarrow>
          (if source = [] then ([], [])
           else if io_redactSecrets io source \<noteq> source then ([de_name f @ '': definition contains a credential value''], [])
           else case io_parse io source of
             None \<Rightarrow> ([de_name f @ '': definition is not valid JSON''], [])
           | Some v \<Rightarrow>
               (case validateWorkflowDefinition c v of
                  Inl es \<Rightarrow> (map (\<lambda>e. de_name f @ '': '' @ e) es, [])
                | Inr d \<Rightarrow> ([], [d]))))"

fun load_files :: "wf_context \<Rightarrow> definition_io \<Rightarrow> dir_entry list \<Rightarrow> string list \<times> json list" where
  "load_files c io [] = ([], [])"
| "load_files c io (f # fs) =
     (let (es, ds) = load_file c io f; (es', ds') = load_files c io fs in (es @ es', ds @ ds'))"

definition catalog_key :: "wf_context \<Rightarrow> json \<Rightarrow> string" where
  "catalog_key c d = js_String (vc_num c) (field_of (Some d) ''id'') @ ''@'' @ js_String (vc_num c) (field_of (Some d) ''version'')"

fun catalog_errors :: "wf_context \<Rightarrow> string list \<Rightarrow> json list \<Rightarrow> string list" where
  "catalog_errors c seen [] = []"
| "catalog_errors c seen (d # ds) =
     err (catalog_key c d \<in> set seen) (''workflow catalog duplicates '' @ catalog_key c d) @ catalog_errors c (catalog_key c d # seen) ds"

definition workflow_files :: "definition_io \<Rightarrow> dir_entry list \<Rightarrow> dir_entry list" where
  "workflow_files io entries = io_sort io (filter (\<lambda>e. \<not> de_is_dir e \<and> ends_with ''.json'' (de_name e)) entries)"

definition loadWorkflowDefinitions :: "string \<Rightarrow> wf_context \<Rightarrow> definition_io \<Rightarrow> string list + json list" where
  "loadWorkflowDefinitions projectRoot c io =
     (let dir = normalize projectRoot @ ''/.canopy/workflows'' in
      case io_readDir io dir of
        Inl message \<Rightarrow> (if io_not_found io message then Inr [] else Inl [''could not read '' @ dir @ '': '' @ message])
      | Inr entries \<Rightarrow>
          (let (es, ds) = load_files c io (workflow_files io entries); errors = es @ catalog_errors c [] ds
           in if errors \<noteq> [] then Inl errors else Inr ds))"

section \<open>Reading a definition\<close>

definition def_steps :: "json \<Rightarrow> fields list" where
  "def_steps d = List.map_filter (\<lambda>v. as_record (Some v)) (array_or_empty (field_of (Some d) ''steps''))"

definition def_edges :: "json \<Rightarrow> fields list" where
  "def_edges d = List.map_filter (\<lambda>v. as_record (Some v)) (array_or_empty (field_of (Some d) ''edges''))"

section \<open>Accepted definitions\<close>

definition step_id :: "fields \<Rightarrow> string" where
  "step_id fs = string_or_empty (map_of fs ''id'')"

definition step_ids :: "json \<Rightarrow> string list" where
  "step_ids d = map step_id (def_steps d)"

definition edge_ok :: "string list \<Rightarrow> fields \<Rightarrow> bool" where
  "edge_ok ids e \<longleftrightarrow>
     (\<exists>f. map_of e ''from'' = Some (JStr f) \<and> f \<in> set ids)
     \<and> (\<exists>t. map_of e ''to'' = Some (JStr t) \<and> t \<in> set ids \<union> set TERMINALS)
     \<and> (\<exists>out. map_of e ''on'' = Some (JStr out) \<and> \<not> blank out)
     \<and> (map_of e ''loop'' = None
        \<or> (\<exists>lp n x. map_of e ''loop'' = Some (JObj lp) \<and> map_of lp ''maxRounds'' = Some (JNum (of_int n)) \<and> 1 \<le> n \<and> n \<le> 16
             \<and> map_of lp ''exhaustedTo'' = Some (JStr x) \<and> x \<in> set ids \<union> set TERMINALS))"

lemma as_JObj [simp]: "as_record (Some (JObj fs)) = Some fs" "as_string (Some (JStr s)) = Some s" "as_array (Some (JArr xs)) = Some xs"
  by (simp_all add: as_record_def as_string_def as_array_def)

lemma as_string_Some: "as_string v = Some s \<longleftrightarrow> v = Some (JStr s)"
  by (auto simp: as_string_def split: option.splits json.splits)

lemma as_record_Some: "as_record v = Some fs \<longleftrightarrow> v = Some (JObj fs)"
  by (auto simp: as_record_def split: option.splits json.splits)

lemma is_id_iff: "is_id v \<longleftrightarrow> (\<exists>s. v = Some (JStr s) \<and> \<not> blank s \<and> ID s)"
  by (auto simp: is_id_def as_string_Some split: option.splits)

lemma target_exists_iff: "target_exists ids v \<longleftrightarrow> (\<exists>t. v = Some (JStr t) \<and> t \<in> set ids \<union> set TERMINALS)"
  by (auto simp: target_exists_def as_string_Some split: option.splits)

lemma is_step_iff: "is_step ids v \<longleftrightarrow> (\<exists>t. v = Some (JStr t) \<and> t \<in> set ids)"
  by (auto simp: is_step_def as_string_Some split: option.splits)

lemma text_value_iff: "text_value v \<longleftrightarrow> (\<exists>s. v = Some (JStr s) \<and> \<not> blank s)"
  by (auto simp: text_value_def as_string_Some split: option.splits)

lemma integer_value_Some: "integer_value v = Some n \<longleftrightarrow> v = Some (JNum (of_int n))"
proof -
  have "quotient_of r = (n, 1) \<longleftrightarrow> r = of_int n" for r :: rat
    by (metis quotient_of_div quotient_of_int div_by_1 of_int_1)
  then show ?thesis
    by (auto simp: integer_value_def split: option.splits json.splits prod.splits if_splits)
qed

lemma integer_value_of_int [simp]: "integer_value (Some (JNum (of_int n))) = Some n"
  by (simp add: integer_value_Some)

lemma int_between_iff: "int_between lo hi v \<longleftrightarrow> (\<exists>n. v = Some (JNum (of_int n)) \<and> lo \<le> n \<and> n \<le> hi)"
  by (auto simp: int_between_def integer_value_Some split: option.splits)

lemma validate_Inr:
  "validateWorkflowDefinition c v = Inr d \<longleftrightarrow> d = v \<and> (\<exists>doc. v = JObj doc \<and> definition_errors c doc = [])"
  by (auto simp: validateWorkflowDefinition_def Let_def as_record_Some as_record_def split: option.splits json.splits if_splits)

lemma fresh_id_ok: "i = Some (JStr s) \<Longrightarrow> is_id i \<Longrightarrow> s \<notin> set seen \<Longrightarrow> fresh_id i seen = seen @ [s]"
  by (simp add: fresh_id_def as_string_def)

lemma step_errors_id:
  assumes "step_errors c loc agentIds seen fs = []"
  obtains s where "map_of fs ''id'' = Some (JStr s)" "ID s" "\<not> blank s" "s \<notin> set seen"
  using assms that by (auto simp: step_errors_def Let_def is_id_iff split: if_splits)

lemma steps_loop_Nil:
  "steps_loop c ag i seen raws = ([], ids, steps) \<Longrightarrow> distinct seen \<Longrightarrow>
     steps = List.map_filter (\<lambda>v. as_record (Some v)) raws \<and> ids = seen @ map step_id steps \<and> distinct ids
     \<and> (\<forall>fs\<in>set steps. map_of fs ''id'' = Some (JStr (step_id fs)) \<and> ID (step_id fs)
          \<and> (\<exists>loc seen'. step_errors c loc ag seen' fs = []))
     \<and> length steps = length raws"
proof (induction raws arbitrary: i seen ids steps)
  case Nil
  then show ?case by (simp add: map_filter_simps)
next
  case (Cons raw raws)
  obtain fs where fs: "as_record (Some raw) = Some fs"
    using Cons.prems(1) by (auto simp: Let_def split: option.splits prod.splits)
  obtain rest where e: "step_errors c (indexed ''workflow.steps'' i) ag seen fs = []"
    and r: "steps_loop c ag (Suc i) (fresh_id (map_of fs ''id'') seen) raws = ([], ids, rest)" and s: "steps = fs # rest"
    using Cons.prems(1) fs by (auto simp: Let_def split: prod.splits)
  obtain x where x: "map_of fs ''id'' = Some (JStr x)" "ID x" "\<not> blank x" "x \<notin> set seen"
    using e by (rule step_errors_id)
  then have f: "fresh_id (map_of fs ''id'') seen = seen @ [x]" and sx: "step_id fs = x"
    by (auto simp: fresh_id_ok is_id_iff step_id_def string_or_empty_def as_string_def)
  have "distinct (seen @ [x])" using Cons.prems(2) x(4) by simp
  note IH = Cons.IH [OF r [unfolded f] this]
  have m: "List.map_filter (\<lambda>v. as_record (Some v)) (raw # raws) = fs # rest"
    using fs IH by (simp add: map_filter_simps)
  have "map_of g ''id'' = Some (JStr (step_id g)) \<and> ID (step_id g) \<and> (\<exists>loc seen'. step_errors c loc ag seen' g = [])"
    if "g \<in> set steps" for g
  proof (cases "g = fs")
    case True
    then show ?thesis using x(1,2) sx e by blast
  next
    case False
    then show ?thesis using that s IH by auto
  qed
  moreover have "steps = List.map_filter (\<lambda>v. as_record (Some v)) (raw # raws)" using s m by metis
  moreover have "ids = seen @ map step_id steps" using IH s sx by simp
  moreover have "distinct ids" using IH by blast
  moreover have "length steps = length (raw # raws)" using IH s by (metis length_Cons)
  ultimately show ?case by blast
qed

lemma edge_errors_Nil:
  "edge_errors c ids loc seen e = [] \<Longrightarrow> edge_ok ids e \<and> edge_key c e \<notin> set seen"
  unfolding edge_errors_def edge_ok_def loop_errors_def
  by (auto simp: text_value_iff is_step_iff target_exists_iff int_between_iff MAX_ROUNDS_def as_record_Some
      split: if_splits option.splits)

lemma edges_loop_Nil:
  "edges_loop c ids i seen raws = ([], edges) \<Longrightarrow>
     edges = List.map_filter (\<lambda>v. as_record (Some v)) raws \<and> (\<forall>e\<in>set edges. edge_ok ids e)
     \<and> distinct (map (edge_key c) edges) \<and> set (map (edge_key c) edges) \<inter> set seen = {}"
proof (induction raws arbitrary: i seen edges)
  case Nil
  then show ?case by (simp add: map_filter_simps)
next
  case (Cons raw raws)
  obtain e where e: "as_record (Some raw) = Some e"
    using Cons.prems by (auto simp: Let_def split: option.splits prod.splits)
  obtain rest where ok: "edge_errors c ids (indexed ''workflow.edges'' i) seen e = []"
    and r: "edges_loop c ids (Suc i) (edge_key c e # seen) raws = ([], rest)" and s: "edges = e # rest"
    using Cons.prems e by (auto simp: Let_def split: prod.splits)
  from edge_errors_Nil [OF ok] Cons.IH [OF r] show ?case
    using s e by (auto simp: map_filter_simps)
qed

lemma accepted_parts:
  assumes "validateWorkflowDefinition c v = Inr d"
  obtains doc ag where "v = JObj doc" "d = v"
    "steps_loop c ag 0 [] (array_or_empty (map_of doc ''steps'')) = ([], step_ids d, def_steps d)"
    "edges_loop c (step_ids d) 0 [] (array_or_empty (map_of doc ''edges'')) = ([], def_edges d)"
    "is_id (map_of doc ''start'')" "is_step (step_ids d) (map_of doc ''start'')"
    "array_or_empty (map_of doc ''steps'') \<noteq> []" "length (array_or_empty (map_of doc ''steps'')) \<le> 128"
    "\<And>fs. fs \<in> set (def_steps d) \<Longrightarrow> exit_errors c (def_edges d) fs = []"
    "\<And>fs. fs \<in> set (def_steps d) \<Longrightarrow> evidence_errors c (def_steps d) fs = []"
    "graph_errors c (map_of doc ''start'') (step_ids d) (def_steps d) (def_edges d) = []"
proof -
  obtain doc where v: "v = JObj doc" and d: "d = v" and es: "definition_errors c doc = []"
    using assms by (auto simp: validate_Inr)
  obtain ages ag where ag: "agents_loop c 0 [] (array_or_empty (map_of doc ''agents'')) = (ages, ag)" by fastforce
  obtain ses ids steps where st: "steps_loop c ag 0 [] (array_or_empty (map_of doc ''steps'')) = (ses, ids, steps)"
    by (metis prod_cases3)
  obtain ees edges where ed: "edges_loop c ids 0 [] (array_or_empty (map_of doc ''edges'')) = (ees, edges)" by fastforce
  note es' = es [unfolded definition_errors_def Let_def ag st ed split_conv append_is_Nil_conv err_Nil]
  have [simp]: "ses = []" "ees = []" using es' by simp_all
  have ids: "ids = step_ids d" "steps = def_steps d"
    using steps_loop_Nil [of c ag 0 "[]" _ ids steps] st
    by (auto simp: def_steps_def step_ids_def d v field_of_def as_record_def)
  have edges: "edges = def_edges d"
    using edges_loop_Nil [of c ids 0 "[]" _ edges] ed by (auto simp: def_edges_def d v field_of_def as_record_def)
  have start: "is_id (map_of doc ''start'')" using es' by (simp add: top_errors_def)
  then have "is_step ids (map_of doc ''start'')" using es' by (auto simp: is_id_iff text_value_iff)
  then show thesis
    using that [OF v d, of ag] es' st ed start ids edges
    by (auto simp: MAX_STEPS_def not_less)
qed

subsection \<open>The graph of an accepted definition\<close>

definition e_from :: "fields \<Rightarrow> string" where "e_from e = string_or_empty (map_of e ''from'')"
definition e_on :: "fields \<Rightarrow> string" where "e_on e = string_or_empty (map_of e ''on'')"
definition e_to :: "fields \<Rightarrow> string" where "e_to e = string_or_empty (map_of e ''to'')"
definition e_exhausted :: "fields \<Rightarrow> string" where "e_exhausted e = string_or_empty (field_of (map_of e ''loop'') ''exhaustedTo'')"
definition start_of :: "json \<Rightarrow> string" where "start_of d = string_or_empty (field_of (Some d) ''start'')"

definition ordinary_edge :: "json \<Rightarrow> (string \<times> string) set" where
  "ordinary_edge d = {(e_from e, e_to e) |e. e \<in> set (def_edges d) \<and> map_of e ''loop'' = None \<and> e_to e \<in> set (step_ids d)}"

definition flow :: "json \<Rightarrow> (string \<times> string) set" where
  "flow d = {(e_from e, t) |e t. e \<in> set (def_edges d) \<and> (t = e_to e \<or> map_of e ''loop'' \<noteq> None \<and> t = e_exhausted e)}"

abbreviation node :: "string \<Rightarrow> json option" where "node s \<equiv> Some (JStr s)"

lemma string_or_empty_node [simp]: "string_or_empty (node s) = s"
  by (simp add: string_or_empty_def)

lemma same_node [simp]: "same v (node s) \<longleftrightarrow> v = node s"
  by (auto simp: same_def split: option.splits json.splits)

lemma edge_okD:
  assumes "edge_ok ids e"
  shows "map_of e ''from'' = node (e_from e)" "e_from e \<in> set ids"
    "map_of e ''to'' = node (e_to e)" "e_to e \<in> set ids \<union> set TERMINALS"
    "map_of e ''on'' = node (e_on e)" "\<not> blank (e_on e)"
    "map_of e ''loop'' = None \<or> field_of (map_of e ''loop'') ''exhaustedTo'' = node (e_exhausted e)
       \<and> e_exhausted e \<in> set ids \<union> set TERMINALS \<and> truthy (map_of e ''loop'')"
  using assms unfolding edge_ok_def
  by (auto simp: e_from_def e_to_def e_on_def e_exhausted_def field_of_def truthy_def)

lemma distinct_outcomes:
  assumes "distinct (map (edge_key c) es)" "\<forall>e\<in>set es. edge_ok ids e"
  shows "distinct (map (\<lambda>e. (e_from e, e_on e)) es)"
  using assms
proof (induction es)
  case (Cons e es)
  have key: "edge_key c g = e_from g @ [CHR 0x00] @ e_on g" if "edge_ok ids g" for g
    using edge_okD(1,5) [OF that] by (simp add: edge_key_def js_String_def)
  have "(e_from e, e_on e) \<notin> (\<lambda>e. (e_from e, e_on e)) ` set es"
  proof
    assume "(e_from e, e_on e) \<in> (\<lambda>e. (e_from e, e_on e)) ` set es"
    then obtain g where "g \<in> set es" "e_from g = e_from e" "e_on g = e_on e" by auto
    then have "edge_key c g = edge_key c e" using Cons.prems(2) key by simp
    with \<open>g \<in> set es\<close> Cons.prems(1) show False by (metis distinct.simps(2) image_eqI list.set_map list.simps(9))
  qed
  then show ?case using Cons by simp
qed simp

lemma accepted_steps:
  assumes "validateWorkflowDefinition c v = Inr d"
  shows "distinct (step_ids d)" "step_ids d \<noteq> []" "length (step_ids d) \<le> 128" "start_of d \<in> set (step_ids d)"
    "\<And>fs. fs \<in> set (def_steps d) \<Longrightarrow> map_of fs ''id'' = node (step_id fs) \<and> ID (step_id fs)"
    "\<And>fs. fs \<in> set (def_steps d) \<Longrightarrow> \<exists>loc ag seen. step_errors c loc ag seen fs = []"
proof -
  obtain doc ag where p: "v = JObj doc" "d = v"
    "steps_loop c ag 0 [] (array_or_empty (map_of doc ''steps'')) = ([], step_ids d, def_steps d)"
    "is_step (step_ids d) (map_of doc ''start'')"
    "array_or_empty (map_of doc ''steps'') \<noteq> []" "length (array_or_empty (map_of doc ''steps'')) \<le> 128"
    using assms by (rule accepted_parts)
  note s = steps_loop_Nil [OF p(3) distinct.simps(1) [THEN iffD2, OF TrueI]]
  show "distinct (step_ids d)" using s by blast
  show "length (step_ids d) \<le> 128" using s p(6) unfolding step_ids_def by (metis length_map)
  show "step_ids d \<noteq> []" using s p(5) unfolding step_ids_def by (metis length_0_conv length_map)
  show "start_of d \<in> set (step_ids d)"
    using p(1,2,4) by (auto simp: is_step_iff start_of_def field_of_def)
  show "map_of fs ''id'' = node (step_id fs) \<and> ID (step_id fs)" if "fs \<in> set (def_steps d)" for fs
    using s that by blast
  show "\<exists>loc ag seen. step_errors c loc ag seen fs = []" if "fs \<in> set (def_steps d)" for fs
    using s that by blast
qed

lemma accepted_edges:
  assumes "validateWorkflowDefinition c v = Inr d"
  shows "\<And>e. e \<in> set (def_edges d) \<Longrightarrow> edge_ok (step_ids d) e"
    "distinct (map (\<lambda>e. (e_from e, e_on e)) (def_edges d))"
    "\<And>fs out. fs \<in> set (def_steps d) \<Longrightarrow> out \<in> set (expectedOutcomes fs) \<Longrightarrow>
       \<exists>e\<in>set (def_edges d). e_from e = step_id fs \<and> e_on e = out"
proof -
  obtain doc where p: "edges_loop c (step_ids d) 0 [] (array_or_empty (map_of doc ''edges'')) = ([], def_edges d)"
    and exits: "\<forall>fs\<in>set (def_steps d). exit_errors c (def_edges d) fs = []"
    by (rule accepted_parts [OF assms]) blast
  note e = edges_loop_Nil [OF p]
  show ok: "\<And>e. e \<in> set (def_edges d) \<Longrightarrow> edge_ok (step_ids d) e" using e by blast
  show "distinct (map (\<lambda>e. (e_from e, e_on e)) (def_edges d))"
    using e distinct_outcomes [of c "def_edges d" "step_ids d"] by blast
  show "\<exists>e\<in>set (def_edges d). e_from e = step_id fs \<and> e_on e = out"
    if fs: "fs \<in> set (def_steps d)" and out: "out \<in> set (expectedOutcomes fs)" for fs out
  proof -
    have "node out \<in> set (map (\<lambda>e. map_of e ''on'') (edges_from (def_edges d) (map_of fs ''id'')))"
      using exits [rule_format, OF fs] out by (auto simp: exit_errors_def Let_def)
    then obtain g where g: "g \<in> set (def_edges d)" "map_of g ''on'' = node out" "same (map_of g ''from'') (map_of fs ''id'')"
      by (auto simp: edges_from_def)
    have "map_of fs ''id'' = node (step_id fs)" using accepted_steps(5) [OF assms fs] by blast
    with g(3) have "map_of g ''from'' = node (step_id fs)" by simp
    then have "e_from g = step_id fs" "e_on g = out" using g(2) by (simp_all add: e_from_def e_on_def)
    with g(1) show ?thesis by blast
  qed
qed

lemma acyclic_preimage:
  assumes "acyclic E" and map: "\<And>x y. (x, y) \<in> R \<Longrightarrow> (f x, f y) \<in> E"
  shows "acyclic R"
proof -
  have "(f x, f y) \<in> E\<^sup>+" if "(x, y) \<in> R\<^sup>+" for x y
    using that by induction (auto intro: map trancl_into_trancl)
  then show ?thesis using assms(1) unfolding acyclic_def by blast
qed

lemma ordinary_node:
  assumes "\<And>e. e \<in> set (def_edges d) \<Longrightarrow> edge_ok (step_ids d) e"
  shows "node b \<in> set (ordinary (step_ids d) (def_edges d) (node a)) \<longleftrightarrow> (a, b) \<in> ordinary_edge d"
proof -
  have "e \<in> set (def_edges d) \<Longrightarrow>
      map_of e ''from'' = node a \<and> \<not> truthy (map_of e ''loop'') \<and> is_step (step_ids d) (map_of e ''to'') \<and> map_of e ''to'' = node b
      \<longleftrightarrow> e_from e = a \<and> e_to e = b \<and> map_of e ''loop'' = None \<and> e_to e \<in> set (step_ids d)" for e
    using edge_okD [OF assms, of e] by (auto simp: is_step_iff truthy_def)
  then have "(\<exists>e\<in>set (def_edges d). map_of e ''from'' = node a \<and> \<not> truthy (map_of e ''loop'')
        \<and> is_step (step_ids d) (map_of e ''to'') \<and> map_of e ''to'' = node b)
      \<longleftrightarrow> (\<exists>e\<in>set (def_edges d). e_from e = a \<and> e_to e = b \<and> map_of e ''loop'' = None \<and> e_to e \<in> set (step_ids d))"
    by (rule bex_cong [OF refl])
  moreover have "node b \<in> set (ordinary (step_ids d) (def_edges d) (node a)) \<longleftrightarrow>
      (\<exists>e\<in>set (def_edges d). map_of e ''from'' = node a \<and> \<not> truthy (map_of e ''loop'')
        \<and> is_step (step_ids d) (map_of e ''to'') \<and> map_of e ''to'' = node b)"
    by (force simp: ordinary_def edges_from_def)
  moreover have "(a, b) \<in> ordinary_edge d \<longleftrightarrow>
      (\<exists>e\<in>set (def_edges d). e_from e = a \<and> e_to e = b \<and> map_of e ''loop'' = None \<and> e_to e \<in> set (step_ids d))"
    unfolding ordinary_edge_def by blast
  ultimately show ?thesis by simp
qed

lemma target_edge:
  assumes "y \<in> set (all_targets es x) \<or> y \<in> set (step_targets ids es x)"
  shows "\<exists>e\<in>set es. same (map_of e ''from'') x \<and> y \<noteq> None \<and> (y = map_of e ''to'' \<or> y = field_of (map_of e ''loop'') ''exhaustedTo'')"
proof -
  have step: "is_step ids None = False"
    by (simp add: is_step_iff)
  show ?thesis
  proof (cases "y \<in> set (all_targets es x)")
    case True
    have "\<not> truthy None" by (simp add: truthy_def)
    with True have "\<exists>e\<in>set es. same (map_of e ''from'') x \<and> truthy y \<and> (y = map_of e ''to'' \<or> y = field_of (map_of e ''loop'') ''exhaustedTo'')"
      by (auto simp: all_targets_def edges_from_def split: if_splits)
    then show ?thesis using \<open>\<not> truthy None\<close> by metis
  next
    case False
    then obtain e where e: "e \<in> set es" "same (map_of e ''from'') x" "is_step ids y"
      "y = map_of e ''to'' \<or> y = (if truthy (map_of e ''loop'') then field_of (map_of e ''loop'') ''exhaustedTo'' else None)"
      using assms by (auto simp: step_targets_def edges_from_def split: if_splits)
    have "y \<noteq> None" using e(3) step by metis
    moreover have "y = map_of e ''to'' \<or> y = field_of (map_of e ''loop'') ''exhaustedTo''"
      using e(4) \<open>y \<noteq> None\<close> by (auto split: if_splits)
    ultimately show ?thesis using e(1,2) by blast
  qed
qed

lemma targets_node:
  assumes "\<And>e. e \<in> set (def_edges d) \<Longrightarrow> edge_ok (step_ids d) e"
    and "y \<in> set (all_targets (def_edges d) (node a)) \<or> y \<in> set (step_targets (step_ids d) (def_edges d) (node a))"
  obtains b where "y = node b" "(a, b) \<in> flow d"
proof -
  obtain e where e: "e \<in> set (def_edges d)" "map_of e ''from'' = node a" "y \<noteq> None"
    "y = map_of e ''to'' \<or> y = field_of (map_of e ''loop'') ''exhaustedTo''"
    using target_edge [OF assms(2)] by auto
  note ok = edge_okD [OF assms(1) [OF e(1)]]
  show thesis
  proof (cases "y = map_of e ''to''")
    case True
    then show thesis using that [of "e_to e"] ok e(1,2) by (auto simp: flow_def)
  next
    case False
    then have y: "y = field_of (map_of e ''loop'') ''exhaustedTo''" using e(4) by simp
    moreover have "field_of None ''exhaustedTo'' = None" by (simp add: field_of_def as_record_def)
    ultimately have "map_of e ''loop'' \<noteq> None" using e(3) by metis
    then show thesis using that [of "e_exhausted e"] ok e(1,2) y by (auto simp: flow_def)
  qed
qed

lemma flow_path:
  assumes ok: "\<And>e. e \<in> set (def_edges d) \<Longrightarrow> edge_ok (step_ids d) e"
    and path: "(x, y) \<in> E\<^sup>*"
    and E: "\<And>x y. (x, y) \<in> E \<Longrightarrow> y \<in> set (all_targets (def_edges d) x) \<or> y \<in> set (step_targets (step_ids d) (def_edges d) x)"
    and x: "x = node a"
  shows "\<exists>b. y = node b \<and> (a, b) \<in> (flow d)\<^sup>*"
  using path
proof induction
  case base
  then show ?case using x by blast
next
  case (step y z)
  then obtain b where b: "y = node b" "(a, b) \<in> (flow d)\<^sup>*" by blast
  have "z \<in> set (all_targets (def_edges d) (node b)) \<or> z \<in> set (step_targets (step_ids d) (def_edges d) (node b))"
    using E [OF step.hyps(2)] b(1) by simp
  then obtain k where "z = node k" "(b, k) \<in> flow d" using targets_node [OF ok] by blast
  then show ?case using b(2) by (auto intro: rtrancl_into_rtrancl)
qed

lemma accepted_graph:
  assumes "validateWorkflowDefinition c v = Inr d"
  shows "fst (find_cycle (map node (step_ids d)) (ordinary (step_ids d) (def_edges d)) [] [] (map node (step_ids d))) = False"
    "\<And>s. s \<in> set (step_ids d) \<Longrightarrow>
       node s \<in> set (visit_all (map node (step_ids d)) (step_targets (step_ids d) (def_edges d)) [] [node (start_of d)])"
    "without_terminal (map node (step_ids d)) is_terminal (all_targets (def_edges d)) [] (map node (step_ids d)) = []"
proof -
  obtain doc where p: "v = JObj doc" "d = v" "is_id (map_of doc ''start'')" "is_step (step_ids d) (map_of doc ''start'')"
    "graph_errors c (map_of doc ''start'') (step_ids d) (def_steps d) (def_edges d) = []"
    using assms by (rule accepted_parts)
  have ids: "map (\<lambda>fs. map_of fs ''id'') (def_steps d) = map node (step_ids d)"
    using accepted_steps(5) [OF assms] by (simp add: step_ids_def)
  have st: "map_of doc ''start'' = node (start_of d)" "text_value (map_of doc ''start'')"
    using p(1-4) by (auto simp: is_id_iff text_value_iff start_of_def field_of_def)
  note g = p(5) [unfolded graph_errors_def Let_def ids append_is_Nil_conv err_Nil]
  show "fst (find_cycle (map node (step_ids d)) (ordinary (step_ids d) (def_edges d)) [] [] (map node (step_ids d))) = False"
    using g by (simp add: comp_def)
  show "node s \<in> set (visit_all (map node (step_ids d)) (step_targets (step_ids d) (def_edges d)) [] [node (start_of d)])"
    if "s \<in> set (step_ids d)" for s
    using g that p(4) st by (auto simp: comp_def)
  show "without_terminal (map node (step_ids d)) is_terminal (all_targets (def_edges d)) [] (map node (step_ids d)) = []"
    using g by (simp add: comp_def)
qed

text \<open>C20: An accepted definition is well formed: it has between one and 128 steps with distinct ids, its start and
  the ends of its edges exist, a loop has between one and 16 rounds and an exit that exists, no two edges
  leave a step on the same outcome, and every outcome a step can have has an edge.\<close>

theorem accepted_definition_is_wellformed:
  assumes "validateWorkflowDefinition c v = Inr d"
  shows "d = v \<and> distinct (step_ids d) \<and> step_ids d \<noteq> [] \<and> length (step_ids d) \<le> 128 \<and> start_of d \<in> set (step_ids d)
    \<and> (\<forall>e\<in>set (def_edges d). edge_ok (step_ids d) e)
    \<and> distinct (map (\<lambda>e. (e_from e, e_on e)) (def_edges d))
    \<and> (\<forall>fs\<in>set (def_steps d). \<forall>out\<in>set (expectedOutcomes fs). \<exists>e\<in>set (def_edges d). e_from e = step_id fs \<and> e_on e = out)"
  using accepted_steps(1-4) [OF assms] accepted_edges [OF assms] assms by (simp add: validate_Inr)

text \<open>C21: In an accepted definition every cycle crosses a loop edge, every step can be reached from the start, and from
  every step a terminal can be reached.\<close>

theorem accepted_definition_can_finish:
  assumes "validateWorkflowDefinition c v = Inr d"
  shows "acyclic (ordinary_edge d)
    \<and> (\<forall>s\<in>set (step_ids d). (start_of d, s) \<in> (flow d)\<^sup>* \<and> (\<exists>t\<in>set TERMINALS. (s, t) \<in> (flow d)\<^sup>*))"
proof (intro conjI ballI)
  let ?keys = "map node (step_ids d)"
  let ?ord = "ordinary (step_ids d) (def_edges d)"
  note ok = accepted_edges(1) [OF assms]
  have "edges_of ?keys ?ord `` set ?keys \<subseteq> set ?keys"
    by (auto simp: edges_of_def ordinary_def is_step_iff)
  then have acyc: "acyclic (edges_of ?keys ?ord)"
    using find_cycle_correct [of ?keys ?ord] accepted_graph(1) [OF assms] by blast
  show "acyclic (ordinary_edge d)"
  proof (rule acyclic_preimage [OF acyc, where f = node])
    fix a b
    assume "(a, b) \<in> ordinary_edge d"
    moreover then have "a \<in> set (step_ids d)" using edge_okD(2) [OF ok] by (auto simp: ordinary_edge_def)
    ultimately show "(node a, node b) \<in> edges_of ?keys ?ord"
      using ordinary_node [OF ok, of b a] by (simp add: edges_of_iff)
  qed
next
  fix s
  assume s: "s \<in> set (step_ids d)"
  let ?keys = "map node (step_ids d)"
  note ok = accepted_edges(1) [OF assms]
  have "(node (start_of d), node s) \<in> (edges_of ?keys (step_targets (step_ids d) (def_edges d)))\<^sup>*"
    using accepted_graph(2) [OF assms s] visit_all_correct by fastforce
  from flow_path [OF ok this _ refl] show "(start_of d, s) \<in> (flow d)\<^sup>*"
    by (auto simp: edges_of_iff)
  have "ends_from ?keys is_terminal (all_targets (def_edges d)) (node s)"
    using without_terminal_sound [OF accepted_graph(3) [OF assms]] s by (simp add: memo_true_def)
  then obtain y z where y: "(node s, y) \<in> {(a, b). b \<in> set (all_targets (def_edges d) a) \<and> b \<in> set ?keys}\<^sup>*"
    and z: "z \<in> set (all_targets (def_edges d) y)" "is_terminal z" unfolding ends_from_def by blast
  from flow_path [OF ok y _ refl] obtain b where b: "y = node b" "(s, b) \<in> (flow d)\<^sup>*" by auto
  from z(1) b(1) obtain t where t: "z = node t" "(b, t) \<in> flow d" using targets_node [OF ok] by metis
  then have "t \<in> set TERMINALS" using z(2) by (simp add: is_terminal_def)
  then show "\<exists>t\<in>set TERMINALS. (s, t) \<in> (flow d)\<^sup>*" using t(2) b(2) by (auto intro: rtrancl_into_rtrancl)
qed

subsection \<open>Concrete definitions\<close>

definition demo_context :: wf_context where
  "demo_context = \<lparr>vc_projectRoot = ''/r'', vc_componentRoots = [''/r''], vc_agentCliFor = (\<lambda>t. None), vc_num = (\<lambda>r. [])\<rparr>"

definition demo_doc :: "string \<Rightarrow> json list \<Rightarrow> json list \<Rightarrow> json" where
  "demo_doc start steps edges = JObj
     [(''schemaVersion'', JNum 1), (''id'', JStr ''w''), (''version'', JStr ''1''), (''name'', JStr ''W''),
      (''triggers'', JArr [JObj [(''kind'', JStr ''manual'')]]),
      (''constraints'', JObj [(''componentRoots'', JArr [JStr ''.'']), (''branchPatterns'', JArr [JStr ''*''])]),
      (''start'', JStr start), (''steps'', JArr steps), (''edges'', JArr edges)]"

definition demo_choice :: "string \<Rightarrow> string list \<Rightarrow> json" where
  "demo_choice i responses = JObj
     [(''id'', JStr i), (''name'', JStr i), (''kind'', JStr ''human''), (''capabilities'', JArr []),
      (''card'', JObj [(''reason'', JStr ''choice''), (''title'', JStr i),
         (''actions'', JArr (map (\<lambda>x. JObj [(''label'', JStr x), (''response'', JStr x)]) responses))])]"

definition demo_gate :: "string \<Rightarrow> string \<Rightarrow> json" where
  "demo_gate i src = JObj
     [(''id'', JStr i), (''name'', JStr i), (''kind'', JStr ''gate''), (''capabilities'', JArr []),
      (''evidence'', JObj [(''stepId'', JStr src), (''predicate'', JStr ''step.completed'')])]"

definition demo_edge :: "string \<Rightarrow> string \<Rightarrow> string \<Rightarrow> json" where
  "demo_edge f out t = JObj [(''from'', JStr f), (''on'', JStr out), (''to'', JStr t)]"

definition demo_loop :: "string \<Rightarrow> string \<Rightarrow> string \<Rightarrow> string \<Rightarrow> json" where
  "demo_loop f out t x = JObj [(''from'', JStr f), (''on'', JStr out), (''to'', JStr t),
     (''loop'', JObj [(''maxRounds'', JNum 1), (''exhaustedTo'', JStr x)])]"

definition demo_trap :: json where
  "demo_trap = demo_doc ''a'' [demo_choice ''a'' [''go'', ''stop''], demo_choice ''b'' [''retry''], demo_choice ''c'' [''restart'']]
     [demo_edge ''a'' ''go'' ''b'', demo_edge ''a'' ''stop'' ''$completed'', demo_loop ''b'' ''retry'' ''a'' ''c'',
      demo_edge ''c'' ''restart'' ''a'']"

definition demo_spin :: json where
  "demo_spin = demo_doc ''a'' [demo_gate ''a'' ''a'']
     [demo_edge ''a'' ''pass'' ''$completed'', demo_loop ''a'' ''fail'' ''a'' ''a'']"

definition demo_array_kind :: json where
  "demo_array_kind = demo_doc ''a''
     [JObj [(''id'', JStr ''a''), (''name'', JStr ''a''), (''kind'', JArr [JStr ''git-op'']), (''capabilities'', JArr [])]]
     [demo_edge ''a'' ''success'' ''$completed'', demo_edge ''a'' ''failure'' ''$failed'']"

lemma demo_spin_accepted: "validateWorkflowDefinition demo_context demo_spin = Inr demo_spin"
  by code_simp

lemma demo_array_kind_accepted: "validateWorkflowDefinition demo_context demo_array_kind = Inr demo_array_kind"
  by code_simp

theorem accepted_definition_is_wellformed_witness:
  "step_ids demo_spin = [''a''] \<and> start_of demo_spin \<in> set (step_ids demo_spin)"
proof -
  have "step_ids demo_spin = [''a'']" by code_simp
  then show ?thesis using accepted_definition_is_wellformed [OF demo_spin_accepted] by simp
qed

theorem accepted_definition_can_finish_witness:
  "acyclic (ordinary_edge demo_spin) \<and> (\<exists>t\<in>set TERMINALS. (''a'', t) \<in> (flow demo_spin)\<^sup>*)"
proof -
  have "''a'' \<in> set (step_ids demo_spin)" by code_simp
  then show ?thesis using accepted_definition_can_finish [OF demo_spin_accepted] by blast
qed

text \<open>The terminal check can refuse a definition that is in order: a step that is met while the step it loops back
  to is still being searched is remembered as having no way out, and stays so although that step has one. In
  \<open>demo_trap\<close> every step can reach \<^verbatim>\<open>$completed\<close>, every outcome has an edge and the only cycles cross a loop, and
  the validator's only objections are that \<open>b\<close> and \<open>c\<close> have no path to a terminal.\<close>

theorem terminal_check_refuses_finishable:
  "validateWorkflowDefinition demo_context demo_trap =
     Inl [''step b has no path to a terminal state'', ''step c has no path to a terminal state'']
   \<and> step_ids demo_trap = [''a'', ''b'', ''c''] \<and> {''a'', ''b'', ''c''} \<subseteq> {s. (s, ''$completed'') \<in> (flow demo_trap)\<^sup>*}"
proof (intro conjI)
  show "validateWorkflowDefinition demo_context demo_trap =
     Inl [''step b has no path to a terminal state'', ''step c has no path to a terminal state'']" by code_simp
  have edges: "(\<exists>e\<in>set (def_edges demo_trap). f = e_from e \<and> t = e_to e) \<Longrightarrow> (f, t) \<in> flow demo_trap" for f t
    unfolding flow_def by blast
  have "(''a'', ''$completed'') \<in> flow demo_trap" by (rule edges) code_simp
  then have a: "(''a'', ''$completed'') \<in> (flow demo_trap)\<^sup>*" ..
  have "(''b'', ''a'') \<in> flow demo_trap" by (rule edges) code_simp
  then have b: "(''b'', ''$completed'') \<in> (flow demo_trap)\<^sup>*" using a by (rule converse_rtrancl_into_rtrancl)
  have "(''c'', ''a'') \<in> flow demo_trap" by (rule edges) code_simp
  then have c: "(''c'', ''$completed'') \<in> (flow demo_trap)\<^sup>*" using a by (rule converse_rtrancl_into_rtrancl)
  show "step_ids demo_trap = [''a'', ''b'', ''c'']" by code_simp
  show "{''a'', ''b'', ''c''} \<subseteq> {s. (s, ''$completed'') \<in> (flow demo_trap)\<^sup>*}"
    using a b c by (simp only: insert_subset empty_subsetI mem_Collect_eq simp_thms)
qed

subsection \<open>The catalog\<close>

lemma load_file_Nil:
  assumes "load_file c io f = ([], ds)"
  shows "\<exists>src. io_readText io (de_path f) = Inr src \<and>
     (src = [] \<and> ds = [] \<or> io_redactSecrets io src = src \<and>
        (\<exists>v. io_parse io src = Some v \<and> ds = [v] \<and> validateWorkflowDefinition c v = Inr v))"
proof -
  have same: "validateWorkflowDefinition c v = Inr d \<Longrightarrow> d = v" for v d
    by (simp add: validate_Inr)
  have nonempty: "validateWorkflowDefinition c v \<noteq> Inl []" for v
    by (cases "as_record (Some v)") (simp_all add: validateWorkflowDefinition_def Let_def)
  obtain src where src: "io_readText io (de_path f) = Inr src"
    using assms by (cases "io_readText io (de_path f)") (simp_all add: load_file_def)
  show ?thesis
  proof (cases "src = []")
    case True
    then show ?thesis using assms src by (simp add: load_file_def)
  next
    case False
    then have clean: "io_redactSecrets io src = src"
      using assms src by (cases "io_redactSecrets io src = src") (simp_all add: load_file_def)
    obtain v where v: "io_parse io src = Some v"
      using assms src False clean by (cases "io_parse io src") (simp_all add: load_file_def)
    obtain d where d: "validateWorkflowDefinition c v = Inr d" "ds = [d]"
    proof (cases "validateWorkflowDefinition c v")
      case (Inl es)
      then show thesis using assms src False clean v nonempty [of v] by (simp add: load_file_def)
    next
      case (Inr d)
      then show thesis using that assms src False clean v by (simp add: load_file_def)
    qed
    have "d = v" using d(1) by (rule same)
    then show ?thesis using src clean v d by blast
  qed
qed

lemma load_files_Nil:
  "load_files c io fs = ([], ds) \<Longrightarrow>
     (\<forall>f\<in>set fs. \<exists>src. io_readText io (de_path f) = Inr src \<and>
        (src = [] \<or> io_redactSecrets io src = src \<and> (\<exists>v. io_parse io src = Some v \<and> v \<in> set ds)))
     \<and> (\<forall>d\<in>set ds. validateWorkflowDefinition c d = Inr d)"
proof (induction fs arbitrary: ds)
  case (Cons f fs)
  obtain ds1 ds2 where l: "load_file c io f = ([], ds1)" "load_files c io fs = ([], ds2)" "ds = ds1 @ ds2"
    using Cons.prems by (auto split: prod.splits)
  from load_file_Nil [OF l(1)] Cons.IH [OF l(2)] show ?case
    unfolding l(3) by fastforce
qed simp

lemma catalog_errors_Nil:
  "catalog_errors c seen ds = [] \<longleftrightarrow> distinct (map (catalog_key c) ds) \<and> set seen \<inter> set (map (catalog_key c) ds) = {}"
  by (induction ds arbitrary: seen) auto

text \<open>A catalog is loaded as one transaction: when definitions are returned, every file of the directory was read, and
  each that is not empty has no secret, parses, passes the validator and is among them; nothing else is, and no
  two definitions share id and version.\<close>

theorem catalog_is_all_or_nothing:
  assumes "loadWorkflowDefinitions p c io = Inr ds"
    and "io_readDir io (normalize p @ ''/.canopy/workflows'') = Inr entries"
  shows "(\<forall>f\<in>set (workflow_files io entries). \<exists>src. io_readText io (de_path f) = Inr src \<and>
        (src = [] \<or> io_redactSecrets io src = src \<and> (\<exists>v. io_parse io src = Some v \<and> v \<in> set ds)))
     \<and> (\<forall>d\<in>set ds. validateWorkflowDefinition c d = Inr d) \<and> distinct (map (catalog_key c) ds)"
proof -
  obtain es where l: "load_files c io (workflow_files io entries) = (es, ds)" and none: "es @ catalog_errors c [] ds = []"
    using assms by (auto simp: loadWorkflowDefinitions_def Let_def split: prod.splits if_splits)
  then show ?thesis using load_files_Nil [of c io _ ds] catalog_errors_Nil [of c "[]" ds] by simp
qed

definition demo_io :: definition_io where
  "demo_io = \<lparr>io_readDir = (\<lambda>d. Inr [\<lparr>de_name = ''w.json'', de_path = ''/r/w.json'', de_is_dir = False\<rparr>]),
     io_readText = (\<lambda>p. Inr ''text''), io_redactSecrets = (\<lambda>s. s), io_parse = (\<lambda>s. Some demo_spin),
     io_sort = (\<lambda>es. es), io_not_found = (\<lambda>m. False)\<rparr>"

theorem catalog_is_all_or_nothing_witness:
  "loadWorkflowDefinitions ''/r'' demo_context demo_io = Inr [demo_spin]
   \<and> validateWorkflowDefinition demo_context demo_spin = Inr demo_spin"
proof -
  have l: "loadWorkflowDefinitions ''/r'' demo_context demo_io = Inr [demo_spin]" by code_simp
  have "io_readDir demo_io (normalize ''/r'' @ ''/.canopy/workflows'') = Inr [\<lparr>de_name = ''w.json'', de_path = ''/r/w.json'', de_is_dir = False\<rparr>]"
    by (simp add: demo_io_def)
  from catalog_is_all_or_nothing [OF l this] l show ?thesis by simp
qed

end
