(* ===== verification/WorkflowRun.thy ===== *)
theory WorkflowRun
  imports WorkflowDefinition Failover
begin

text \<open>
  A run of a workflow: the store that owns it (\<^verbatim>\<open>src/src-tauri/src/workflow.rs\<close>, whose rows
  \<^verbatim>\<open>src/src/workflowRun.ts\<close> describes), and the executor that walks it
  (\<^verbatim>\<open>src/src/workflowExecutor.ts\<close>, with \<^verbatim>\<open>parseVerdict\<close> and the paths of \<^verbatim>\<open>src/src/workflowPrompt.ts\<close>).

  A run keeps the JSON definition it was created from, and the executor reads steps and edges out of it, as the
  code does. The store is one map of runs; each operation is one transaction. The executor's
  dependencies (the task ledger, routing, the launch of an agent, files, git, the clock) are functions of
  the launches made so far, so they may answer differently every time. The text of an agent's brief
  is not modelled.
\<close>

section \<open>The rows of a run\<close>

datatype run_status = RunRunning | RunWaiting | RunCompleted | RunFailed | RunCancelled | RunInterrupted

datatype step_status = StepPending | StepRunning | StepWaiting | StepCompleted | StepFailed | StepInterrupted

record step_row =
  sw_id :: string
  sw_kind :: string
  sw_state :: step_status
  sw_attemptIds :: "string list"
  sw_round :: int
  sw_updatedAt :: int

record edge_row =
  er_seq :: int
  er_from :: string
  er_outcome :: string
  er_target :: string
  er_takenAt :: int

record trigger =
  tr_kind :: string
  tr_eventId :: string
  tr_occurredAt :: int
  tr_payload :: fields

record run =
  rn_id :: string
  rn_projectId :: string
  rn_definition :: json
  rn_trigger :: trigger
  rn_status :: run_status
  rn_current :: "string option"
  rn_updatedAt :: int
  rn_steps :: "step_row list"
  rn_edges :: "edge_row list"

datatype wf_error =
    StoreError string
  | RunNotFound
  | StepMissing
  | LostExit string string
  | Reconcile
  | OldAttempt
  | BoundExceeded
  | NotAccepted
  | NotWaiting
  | NotHuman
  | NotAnAction
  | DepRejected string

section \<open>The store\<close>

type_synonym store = "(string \<times> run) list"

definition ascii_alnum :: "char \<Rightarrow> bool" where
  "ascii_alnum c \<longleftrightarrow> letter c \<or> (let n = of_char c :: nat in 48 \<le> n \<and> n \<le> 57)"

definition validate_id :: "string \<Rightarrow> bool" where
  "validate_id s \<longleftrightarrow> s \<noteq> [] \<and> length s \<le> 96 \<and> list_all (\<lambda>c. ascii_alnum c \<or> c = CHR ''_'' \<or> c = CHR ''-'') s"

text \<open>The store counts bytes of UTF-8, and its white space is Rust's.\<close>

definition utf8_len :: "string \<Rightarrow> nat" where
  "utf8_len s = length s + length (filter (\<lambda>c. (of_char c :: nat) \<ge> 128) s)"

definition validate_text :: "string \<Rightarrow> nat \<Rightarrow> bool" where
  "validate_text s n \<longleftrightarrow> \<not> list_all rust_space s \<and> utf8_len s \<le> n"

definition current_run :: "store \<Rightarrow> string \<Rightarrow> string \<Rightarrow> run option" where
  "current_run st rid sid =
     (case map_of st rid of
        None \<Rightarrow> None
      | Some r \<Rightarrow> (if rn_current r = Some sid \<and> rn_status r \<in> {RunRunning, RunWaiting} then Some r else None))"

definition update_row :: "string \<Rightarrow> (step_row \<Rightarrow> step_row) \<Rightarrow> step_row list \<Rightarrow> step_row list" where
  "update_row sid f rows = map (\<lambda>w. if sw_id w = sid then f w else w) rows"

definition next_seq :: "edge_row list \<Rightarrow> int" where
  "next_seq es = fold (\<lambda>e m. max (er_seq e) m) es 0 + 1"

definition attempt_taken :: "store \<Rightarrow> string \<Rightarrow> bool" where
  "attempt_taken st a \<longleftrightarrow> list_ex (\<lambda>(i, r). list_ex (\<lambda>w. a \<in> set (sw_attemptIds w)) (rn_steps r)) st"

definition recorded :: "int \<Rightarrow> string \<Rightarrow> bool \<Rightarrow> string option \<Rightarrow> run \<Rightarrow> run" where
  "recorded now sid waiting attempt r =
     r\<lparr>rn_status := (if waiting then RunWaiting else RunRunning), rn_updatedAt := now,
       rn_steps := update_row sid
         (\<lambda>w. w\<lparr>sw_attemptIds := sw_attemptIds w @ (case attempt of Some a \<Rightarrow> [a] | None \<Rightarrow> []),
                sw_state := (if waiting then StepWaiting else StepRunning), sw_updatedAt := now\<rparr>) (rn_steps r)\<rparr>"

definition store_record_step :: "int \<Rightarrow> string \<Rightarrow> string \<Rightarrow> bool \<Rightarrow> string option \<Rightarrow> store \<Rightarrow> wf_error + store \<times> run" where
  "store_record_step now rid sid waiting attempt st =
     (if \<not> validate_id rid \<or> \<not> validate_id sid \<or> (case attempt of Some a \<Rightarrow> \<not> validate_id a | None \<Rightarrow> False)
      then Inl (StoreError ''invalid id'')
      else case current_run st rid sid of
        None \<Rightarrow> Inl (StoreError ''workflow step is not the current active step'')
      | Some r \<Rightarrow>
          (if (case attempt of Some a \<Rightarrow> attempt_taken st a | None \<Rightarrow> False)
           then Inl (StoreError ''UNIQUE constraint failed'')
           else let r' = recorded now sid waiting attempt r in Inr (AList.update rid r' st, r')))"

definition terminal_status :: "string \<Rightarrow> run_status option" where
  "terminal_status t = (if t = ''$completed'' then Some RunCompleted else if t = ''$failed'' then Some RunFailed
     else if t = ''$cancelled'' then Some RunCancelled else None)"

definition advanced :: "int \<Rightarrow> string \<Rightarrow> step_status \<Rightarrow> string \<Rightarrow> string \<Rightarrow> run \<Rightarrow> run" where
  "advanced now sid settled outcome target r =
     (let rows = update_row sid (\<lambda>w. w\<lparr>sw_state := settled, sw_updatedAt := now\<rparr>) (rn_steps r);
          taken = rn_edges r @ [\<lparr>er_seq = next_seq (rn_edges r), er_from = sid, er_outcome = outcome,
            er_target = target, er_takenAt = now\<rparr>]
      in case terminal_status target of
           Some s \<Rightarrow> r\<lparr>rn_status := s, rn_current := None, rn_updatedAt := now, rn_steps := rows, rn_edges := taken\<rparr>
         | None \<Rightarrow> r\<lparr>rn_status := RunRunning, rn_current := Some target, rn_updatedAt := now,
             rn_steps := update_row target (\<lambda>w. w\<lparr>sw_state := StepRunning, sw_round := sw_round w + 1, sw_updatedAt := now\<rparr>) rows,
             rn_edges := taken\<rparr>)"

definition store_advance :: "int \<Rightarrow> string \<Rightarrow> string \<Rightarrow> step_status \<Rightarrow> string \<Rightarrow> string \<Rightarrow> store \<Rightarrow> wf_error + store \<times> run" where
  "store_advance now rid sid settled outcome target st =
     (if \<not> validate_id rid \<or> \<not> validate_id sid then Inl (StoreError ''invalid id'')
      else if \<not> validate_text outcome 128 then Inl (StoreError ''workflow outcome'')
      else if terminal_status target = None \<and> \<not> validate_id target then Inl (StoreError ''invalid workflow edge target'')
      else case current_run st rid sid of
        None \<Rightarrow> Inl (StoreError ''workflow step is not the current active step'')
      | Some r \<Rightarrow>
          (if terminal_status target = None \<and> target \<notin> sw_id ` set (rn_steps r)
           then Inl (StoreError ''workflow edge target does not exist'')
           else let r' = advanced now sid settled outcome target r in Inr (AList.update rid r' st, r')))"

definition store_resume :: "int \<Rightarrow> string \<Rightarrow> store \<Rightarrow> wf_error + store \<times> run" where
  "store_resume now rid st =
     (if \<not> validate_id rid then Inl (StoreError ''invalid id'')
      else case map_of st rid of
        None \<Rightarrow> Inl (StoreError ''workflow run not found'')
      | Some r \<Rightarrow>
          (if rn_status r \<noteq> RunInterrupted then Inl (StoreError ''only an interrupted workflow can resume'')
           else case rn_current r of
             None \<Rightarrow> Inl (StoreError ''interrupted workflow has no current step'')
           | Some cur \<Rightarrow>
               (let r' = recorded now cur False None r in Inr (AList.update rid r' st, r'))))"

definition interrupt_run :: "int \<Rightarrow> run \<Rightarrow> run" where
  "interrupt_run now r =
     (if rn_status r \<noteq> RunRunning then r
      else r\<lparr>rn_status := RunInterrupted, rn_updatedAt := now,
             rn_steps := map (\<lambda>w. if sw_state w = StepRunning \<and> rn_current r = Some (sw_id w)
                                  then w\<lparr>sw_state := StepInterrupted, sw_updatedAt := now\<rparr> else w) (rn_steps r)\<rparr>)"

definition reconcile_interrupted :: "int \<Rightarrow> store \<Rightarrow> store" where
  "reconcile_interrupted now st = map (\<lambda>(i, r). (i, interrupt_run now r)) st"

definition seed_row :: "int \<Rightarrow> string \<Rightarrow> string \<times> string \<Rightarrow> step_row" where
  "seed_row now start s = \<lparr>sw_id = fst s, sw_kind = snd s, sw_state = (if fst s = start then StepRunning else StepPending),
     sw_attemptIds = [], sw_round = 0, sw_updatedAt = now\<rparr>"

record create_input =
  ci_projectId :: string
  ci_definitionId :: string
  ci_version :: string
  ci_hash :: string
  ci_definition :: json
  ci_trigger :: trigger
  ci_start :: string
  ci_steps :: "(string \<times> string) list"

text \<open>\<open>size_d\<close> and \<open>size_t\<close> are the encoded sizes of the definition and the trigger.\<close>

definition validate_create :: "nat \<Rightarrow> nat \<Rightarrow> create_input \<Rightarrow> bool" where
  "validate_create size_d size_t i \<longleftrightarrow>
     validate_text (ci_projectId i) 256 \<and> validate_id (ci_definitionId i) \<and> validate_text (ci_version i) 128
     \<and> validate_text (ci_hash i) 128 \<and> validate_text (tr_kind (ci_trigger i)) 128 \<and> validate_id (ci_start i)
     \<and> ci_steps i \<noteq> [] \<and> length (ci_steps i) \<le> 128 \<and> size_d \<le> 262144 \<and> size_t \<le> 32768
     \<and> list_all (\<lambda>s. validate_id (fst s) \<and> validate_text (snd s) 64) (ci_steps i)
     \<and> distinct (map fst (ci_steps i)) \<and> ci_start i \<in> fst ` set (ci_steps i)"

definition store_create :: "int \<Rightarrow> string \<Rightarrow> nat \<Rightarrow> nat \<Rightarrow> create_input \<Rightarrow> store \<Rightarrow> wf_error + store \<times> run" where
  "store_create now rid size_d size_t i st =
     (if \<not> validate_create size_d size_t i then Inl (StoreError ''workflow run'')
      else let r = \<lparr>rn_id = rid, rn_projectId = ci_projectId i, rn_definition = ci_definition i, rn_trigger = ci_trigger i,
                    rn_status = RunRunning, rn_current = Some (ci_start i), rn_updatedAt = now,
                    rn_steps = map (seed_row now (ci_start i)) (ci_steps i), rn_edges = []\<rparr>
           in Inr (AList.update rid r st, r))"

section \<open>Reading the definition of a run\<close>

definition step_named :: "json \<Rightarrow> string \<Rightarrow> fields option" where
  "step_named d sid = find (\<lambda>fs. map_of fs ''id'' = Some (JStr sid)) (def_steps d)"

definition edgeFor :: "json \<Rightarrow> string \<Rightarrow> string \<Rightarrow> fields option" where
  "edgeFor d sid outcome =
     find (\<lambda>e. map_of e ''from'' = Some (JStr sid) \<and> map_of e ''on'' = Some (JStr outcome)) (def_edges d)"

definition traversals :: "run \<Rightarrow> fields \<Rightarrow> nat" where
  "traversals r e =
     length (filter (\<lambda>t. map_of e ''from'' = Some (JStr (er_from t)) \<and> map_of e ''on'' = Some (JStr (er_outcome t))
                       \<and> map_of e ''to'' = Some (JStr (er_target t))) (rn_edges r))"

definition edgeTarget :: "run \<Rightarrow> fields \<Rightarrow> string" where
  "edgeTarget r e =
     (let lp = map_of e ''loop'' in
      if \<not> truthy lp then string_or_empty (map_of e ''to'')
      else if (case finite_value (field_of lp ''maxRounds'') of Some m \<Rightarrow> of_nat (traversals r e) < m | None \<Rightarrow> False)
           then string_or_empty (map_of e ''to'') else string_or_empty (field_of lp ''exhaustedTo''))"

section \<open>The executor's dependencies\<close>

datatype attempt_state = AReserved | ALaunching | ARunning | AWaiting | ACompleted | AFailed | ABlocked | AInterrupted | ACancelled

text \<open>What the executor reads of a task: the round in its metadata, and its attempts.\<close>

record task_evidence =
  te_round :: "int option"
  te_attempts :: "(string \<times> attempt_state) list"

record route_plan =
  rp_cli :: string
  rp_profileId :: string
  rp_candidates :: "route_candidate list"
  rp_taskClass :: task_class

record agent_launch =
  al_stepId :: string
  al_attemptId :: string
  al_round :: int
  al_cli :: string

record agent_result =
  ag_ok :: bool
  ag_failureText :: "js_string option"

record wf_deps =
  wd_now :: "nat \<Rightarrow> int"
  wd_evidence :: "agent_launch list \<Rightarrow> string \<Rightarrow> task_evidence option"
  wd_routeFor :: "fields \<Rightarrow> selected_route option \<Rightarrow> route_plan"
  wd_reserve :: "nat \<Rightarrow> string + string"
  wd_launch :: "agent_launch list \<Rightarrow> agent_launch \<Rightarrow> string + agent_result"
  wd_readVerdict :: "agent_launch list \<Rightarrow> string \<Rightarrow> string option"
  wd_parse :: "string \<Rightarrow> json option"
  wd_runGitOp :: "agent_launch list \<Rightarrow> fields \<Rightarrow> string + bool"

text \<open>The executor's world: the store, the launches so far, and how many times the clock and the ledger were used.\<close>

record world =
  w_store :: store
  w_launches :: "agent_launch list"
  w_ticks :: nat
  w_reserved :: nat

definition commit :: "world \<Rightarrow> wf_error + store \<times> run \<Rightarrow> wf_error + world \<times> run" where
  "commit w res = (case res of Inl e \<Rightarrow> Inl e | Inr (st, r) \<Rightarrow> Inr (w\<lparr>w_store := st, w_ticks := Suc (w_ticks w)\<rparr>, r))"

definition now_of :: "wf_deps \<Rightarrow> world \<Rightarrow> int" where
  "now_of dp w = wd_now dp (w_ticks w)"

section \<open>Steps\<close>

definition advance :: "wf_deps \<Rightarrow> world \<Rightarrow> run \<Rightarrow> string \<Rightarrow> string \<Rightarrow> wf_error + world \<times> run" where
  "advance dp w r sid outcome =
     (case edgeFor (rn_definition r) sid outcome of
        None \<Rightarrow> Inl (LostExit outcome sid)
      | Some e \<Rightarrow>
          commit w (store_advance (now_of dp w) (rn_id r) sid
            (if outcome = ''failure'' \<or> outcome = ''fail'' then StepFailed else StepCompleted) outcome (edgeTarget r e) (w_store w)))"

definition workflowRunDir :: "string \<Rightarrow> string \<Rightarrow> string" where
  "workflowRunDir worktree rid =
     rev (dropWhile (\<lambda>c. c = CHR ''/'' \<or> c = CHR 0x5C) (rev worktree)) @ ''/'' @ ''.canopy/workflow-runs'' @ ''/'' @ rid"

definition verdictPath :: "string \<Rightarrow> string \<Rightarrow> int \<Rightarrow> string" where
  "verdictPath dir sid rnd = dir @ ''/verdicts/'' @ sid @ ''.r'' @ dec (nat rnd) @ ''.json''"

definition parseVerdict :: "wf_deps \<Rightarrow> string option \<Rightarrow> string list \<Rightarrow> string option" where
  "parseVerdict dp source verdicts =
     (case source of
        None \<Rightarrow> None
      | Some s \<Rightarrow>
          (if s = [] then None
           else case wd_parse dp s of
             None \<Rightarrow> None
           | Some v \<Rightarrow>
               (let verdict = trim_str (string_or_empty (field_of (Some v) ''verdict''))
                in if verdict \<in> set verdicts then Some verdict else None)))"

definition step_verdicts :: "fields \<Rightarrow> string list" where
  "step_verdicts fs = strings_of (map_of fs ''verdicts'')"

definition completedOutcome :: "wf_deps \<Rightarrow> world \<Rightarrow> fields \<Rightarrow> string \<Rightarrow> string" where
  "completedOutcome dp w fs path =
     (if step_verdicts fs = [] then ''success''
      else case parseVerdict dp (wd_readVerdict dp (w_launches w) path) (step_verdicts fs) of
        Some v \<Rightarrow> v | None \<Rightarrow> ''failure'')"

definition step_row_of :: "run \<Rightarrow> string \<Rightarrow> step_row option" where
  "step_row_of r sid = find (\<lambda>s. sw_id s = sid) (rn_steps r)"

definition evaluateWorkflowGate :: "fields \<Rightarrow> run \<Rightarrow> task_evidence option \<Rightarrow> bool" where
  "evaluateWorkflowGate fs r evidence =
     (let ev = map_of fs ''evidence''; predicate = field_of ev ''predicate'' in
      case step_row_of r (string_or_empty (field_of ev ''stepId'')) of
        None \<Rightarrow> False
      | Some source \<Rightarrow>
          (if predicate = Some (JStr ''step.completed'') then sw_state source = StepCompleted
           else if sw_attemptIds source = [] \<or> last (sw_attemptIds source) = [] then False
           else case evidence of
             None \<Rightarrow> False
           | Some t \<Rightarrow>
               (let state = map_of (te_attempts t) (last (sw_attemptIds source))
                in if predicate = Some (JStr ''attempt.completed'') then state = Some ACompleted else state = Some AFailed)))"

definition attemptCap_of :: "fields \<Rightarrow> int" where
  "attemptCap_of fs = (case integer_value (map_of fs ''attemptCap'') of Some n \<Rightarrow> n | None \<Rightarrow> 3)"

definition failover_of :: "route_plan \<Rightarrow> js_string option \<Rightarrow> attempt_outcome list \<Rightarrow> int \<Rightarrow> int \<Rightarrow> failover_input" where
  "failover_of plan failureText history used cap =
     \<lparr>fo_agent = Some (rp_cli plan),
      fo_text = (case failureText of Some t \<Rightarrow> t | None \<Rightarrow> js ''workflow agent attempt failed''),
      fo_history = history, fo_cli = rp_cli plan, fo_profileId = rp_profileId plan, fo_candidates = rp_candidates plan,
      fo_task = rp_taskClass plan, fo_attemptsUsed = used, fo_attemptCap = cap\<rparr>"

definition selected_of :: "failover_action \<Rightarrow> selected_route option" where
  "selected_of a = (case a of SwitchRoute to reason n \<Rightarrow> Some to | _ \<Rightarrow> None)"

definition is_stop :: "failover_action \<Rightarrow> bool" where
  "is_stop a = (case a of StopRun reason n \<Rightarrow> True | _ \<Rightarrow> False)"

text \<open>\<open>reserve\<close> is the reservation of an attempt in the task ledger followed by \<^verbatim>\<open>recordStep\<close>.\<close>

definition reserve :: "wf_deps \<Rightarrow> world \<Rightarrow> run \<Rightarrow> string \<Rightarrow> wf_error + world \<times> run \<times> string" where
  "reserve dp w r sid =
     (case wd_reserve dp (w_reserved w) of
        Inl e \<Rightarrow> Inl (DepRejected e)
      | Inr a \<Rightarrow>
          (let w1 = w\<lparr>w_reserved := Suc (w_reserved w)\<rparr> in
           case commit w1 (store_record_step (now_of dp w1) (rn_id r) sid False (Some a) (w_store w1)) of
             Inl e \<Rightarrow> Inl e
           | Inr (w', r') \<Rightarrow> Inr (w', r', a)))"

function attempt_loop :: "wf_deps \<Rightarrow> fields \<Rightarrow> string \<Rightarrow> string \<Rightarrow> int \<Rightarrow> int \<Rightarrow> int \<Rightarrow> route_plan \<Rightarrow> attempt_outcome list \<Rightarrow> string
    \<Rightarrow> world \<Rightarrow> run \<Rightarrow> wf_error + world \<times> run" where
  "attempt_loop dp fs sid path rnd cap used plan history attempt w r =
     (if used > cap then advance dp w r sid ''failure''
      else
        let l = \<lparr>al_stepId = sid, al_attemptId = attempt, al_round = rnd, al_cli = rp_cli plan\<rparr>;
            w1 = w\<lparr>w_launches := w_launches w @ [l]\<rparr>
        in case wd_launch dp (w_launches w) l of
          Inl e \<Rightarrow> Inl (DepRejected e)
        | Inr result \<Rightarrow>
            (if ag_ok result then advance dp w1 r sid (completedOutcome dp w1 fs path)
             else
               let (action, verdict) = failoverDecision (failover_of plan (ag_failureText result) history used cap)
               in if is_stop action then advance dp w1 r sid ''failure''
                  else case reserve dp w1 r sid of
                    Inl e \<Rightarrow> Inl e
                  | Inr (w2, r2, a2) \<Rightarrow>
                      attempt_loop dp fs sid path rnd cap (used + 1) (wd_routeFor dp fs (selected_of action))
                        (history @ [\<lparr>ao_route = route_key (rp_cli plan) (rp_profileId plan), ao_verdict = verdict\<rparr>]) a2 w2 r2))"
  by pat_completeness auto
termination
  by (relation "measure (\<lambda>(dp, fs, sid, path, rnd, cap, used, rest). nat (cap + 1 - used))") auto

declare attempt_loop.simps [simp del]

text \<open>What \<^verbatim>\<open>executeAgent\<close> makes of the last attempt of the step: settle with it, refuse, or start a new one.\<close>

datatype resume_choice = SettleAttempt | Refuse wf_error | StartFresh

definition resume_choice :: "wf_deps \<Rightarrow> world \<Rightarrow> step_row option \<Rightarrow> resume_choice" where
  "resume_choice dp w prev =
     (case prev of
        None \<Rightarrow> StartFresh
      | Some p \<Rightarrow>
          (if sw_attemptIds p = [] \<or> last (sw_attemptIds p) = [] then StartFresh
           else
             let evidence = wd_evidence dp (w_launches w) (last (sw_attemptIds p));
                 rd = (case evidence of Some t \<Rightarrow> te_round t | None \<Rightarrow> None)
             in if rd = Some (sw_round p) \<or> rd = None \<and> sw_round p = 0 then
                  (case (case evidence of Some t \<Rightarrow> map_of (te_attempts t) (last (sw_attemptIds p)) | None \<Rightarrow> None) of
                     Some ACompleted \<Rightarrow> SettleAttempt
                   | Some AFailed \<Rightarrow> StartFresh
                   | Some ACancelled \<Rightarrow> StartFresh
                   | _ \<Rightarrow> Refuse Reconcile)
                else if rd = None then Refuse OldAttempt else StartFresh))"

definition executeAgent :: "wf_deps \<Rightarrow> string \<Rightarrow> fields \<Rightarrow> string \<Rightarrow> world \<Rightarrow> run \<Rightarrow> wf_error + world \<times> run" where
  "executeAgent dp worktree fs sid w r =
     (let prev = step_row_of r sid;
          rnd = (case prev of Some p \<Rightarrow> sw_round p | None \<Rightarrow> 0);
          path = verdictPath (workflowRunDir worktree (rn_id r)) sid rnd
      in case resume_choice dp w prev of
           SettleAttempt \<Rightarrow> advance dp w r sid (completedOutcome dp w fs path)
         | Refuse e \<Rightarrow> Inl e
         | StartFresh \<Rightarrow>
             (case reserve dp w r sid of
                Inl e \<Rightarrow> Inl e
              | Inr (w1, r1, a) \<Rightarrow>
                  attempt_loop dp fs sid path rnd (attemptCap_of fs) 1 (wd_routeFor dp fs None) [] a w1 r1))"

section \<open>Runs\<close>

datatype execution = Settled | InterruptedRun | WaitingHuman | WaitingEvent

definition settled_status :: "run_status \<Rightarrow> bool" where
  "settled_status s \<longleftrightarrow> s \<in> {RunCompleted, RunFailed, RunCancelled}"

definition gate_evidence :: "wf_deps \<Rightarrow> world \<Rightarrow> run \<Rightarrow> fields \<Rightarrow> task_evidence option" where
  "gate_evidence dp w r fs =
     (case step_row_of r (string_or_empty (field_of (map_of fs ''evidence'') ''stepId'')) of
        None \<Rightarrow> None
      | Some s \<Rightarrow> (if sw_attemptIds s = [] \<or> last (sw_attemptIds s) = [] then None
                   else wd_evidence dp (w_launches w) (last (sw_attemptIds s))))"

fun transitions :: "nat \<Rightarrow> wf_deps \<Rightarrow> string \<Rightarrow> world \<Rightarrow> run \<Rightarrow> wf_error + world \<times> run \<times> execution" where
  "transitions 0 dp worktree w r = Inl BoundExceeded"
| "transitions (Suc n) dp worktree w r =
     (if settled_status (rn_status r) then Inr (w, r, Settled)
      else case rn_current r of
        None \<Rightarrow> Inl StepMissing
      | Some sid \<Rightarrow>
          (case step_named (rn_definition r) sid of
             None \<Rightarrow> Inl StepMissing
           | Some fs \<Rightarrow>
               (let kind = map_of fs ''kind'';
                    next = (\<lambda>res. case res of Inl e \<Rightarrow> Inl e | Inr (w', r') \<Rightarrow> transitions n dp worktree w' r');
                    wait = (\<lambda>why. case commit w (store_record_step (now_of dp w) (rn_id r) sid True None (w_store w)) of
                              Inl e \<Rightarrow> Inl e | Inr (w', r') \<Rightarrow> Inr (w', r', why))
                in if kind = Some (JStr ''agent'') then next (executeAgent dp worktree fs sid w r)
                   else if kind = Some (JStr ''gate'') then
                     next (advance dp w r sid (if evaluateWorkflowGate fs r (gate_evidence dp w r fs) then ''pass'' else ''fail''))
                   else if kind = Some (JStr ''human'') then wait WaitingHuman
                   else if kind = Some (JStr ''watch'') then wait WaitingEvent
                   else case wd_runGitOp dp (w_launches w) fs of
                     Inl e \<Rightarrow> Inl (DepRejected e)
                   | Inr ok \<Rightarrow> next (advance dp w r sid (if ok then ''success'' else ''failure'')))))"

definition continueWorkflow :: "wf_deps \<Rightarrow> string \<Rightarrow> string \<Rightarrow> world \<Rightarrow> wf_error + world \<times> run \<times> execution" where
  "continueWorkflow dp worktree rid w =
     (case map_of (w_store w) rid of
        None \<Rightarrow> Inl RunNotFound
      | Some r \<Rightarrow> (if rn_status r = RunInterrupted then Inr (w, r, InterruptedRun) else transitions 512 dp worktree w r))"

definition mentions_of :: "fields \<Rightarrow> string list" where
  "mentions_of t = strings_of (map_of t ''mentions'')"

definition comment_event :: "string \<Rightarrow> bool" where
  "comment_event kind \<longleftrightarrow> kind = ''pr.comment'' \<or> kind = ''issue.comment''"

definition trigger_accepts :: "trigger \<Rightarrow> fields \<Rightarrow> bool" where
  "trigger_accepts ev t \<longleftrightarrow>
     map_of t ''kind'' = Some (JStr (tr_kind ev))
     \<and> (truthy (map_of t ''repo'') \<longrightarrow> map_of t ''repo'' = Some (JStr (string_or_empty (map_of (tr_payload ev) ''repo''))))
     \<and> (if \<not> comment_event (tr_kind ev) then mentions_of t = []
        else list_all (\<lambda>m. sublist m (string_or_empty (map_of (tr_payload ev) ''body''))) (mentions_of t))"

definition workflowAcceptsTrigger :: "json \<Rightarrow> trigger \<Rightarrow> bool" where
  "workflowAcceptsTrigger d ev =
     list_ex (trigger_accepts ev) (List.map_filter (\<lambda>v. as_record (Some v)) (array_or_empty (field_of (Some d) ''triggers'')))"

text \<open>\<open>rid\<close> is the identifier the store draws, \<open>src\<close> the printed definition.\<close>

definition startWorkflow :: "wf_deps \<Rightarrow> string \<Rightarrow> string \<Rightarrow> json \<Rightarrow> js_string \<Rightarrow> (json \<Rightarrow> nat) \<Rightarrow> (trigger \<Rightarrow> nat) \<Rightarrow> string \<Rightarrow> trigger
    \<Rightarrow> world \<Rightarrow> wf_error + world \<times> run \<times> execution" where
  "startWorkflow dp projectId worktree d src size_d size_t rid ev w =
     (if \<not> workflowAcceptsTrigger d ev then Inl NotAccepted
      else case commit w (store_create (now_of dp w) rid (size_d d) (size_t ev)
             \<lparr>ci_projectId = projectId, ci_definitionId = string_or_empty (field_of (Some d) ''id''),
              ci_version = string_or_empty (field_of (Some d) ''version''), ci_hash = workflowDefinitionHash src,
              ci_definition = d, ci_trigger = ev, ci_start = string_or_empty (field_of (Some d) ''start''),
              ci_steps = map (\<lambda>fs. (string_or_empty (map_of fs ''id''), string_or_empty (map_of fs ''kind''))) (def_steps d)\<rparr>
             (w_store w)) of
        Inl e \<Rightarrow> Inl e
      | Inr (w', r) \<Rightarrow> continueWorkflow dp worktree (rn_id r) w')"

definition card_responses :: "fields \<Rightarrow> string list" where
  "card_responses fs =
     List.map_filter (\<lambda>a. as_string (field_of (Some a) ''response'')) (array_or_empty (field_of (map_of fs ''card'') ''actions''))"

definition answerWorkflowHuman :: "wf_deps \<Rightarrow> string \<Rightarrow> string \<Rightarrow> string \<Rightarrow> world \<Rightarrow> wf_error + world \<times> run \<times> execution" where
  "answerWorkflowHuman dp worktree rid response w =
     (case map_of (w_store w) rid of
        None \<Rightarrow> Inl NotWaiting
      | Some r \<Rightarrow>
          (case rn_current r of
             None \<Rightarrow> Inl NotWaiting
           | Some sid \<Rightarrow>
               (case step_named (rn_definition r) sid of
                  None \<Rightarrow> Inl NotHuman
                | Some fs \<Rightarrow>
                    (if map_of fs ''kind'' \<noteq> Some (JStr ''human'') then Inl NotHuman
                     else if response \<notin> set (card_responses fs) then Inl NotAnAction
                     else case advance dp w r sid response of
                       Inl e \<Rightarrow> Inl e
                     | Inr (w', r') \<Rightarrow> continueWorkflow dp worktree (rn_id r') w'))))"

definition same_resource :: "(rat \<Rightarrow> string) \<Rightarrow> trigger \<Rightarrow> trigger \<Rightarrow> bool" where
  "same_resource num a b \<longleftrightarrow>
     list_all (\<lambda>k. map_of (tr_payload a) k \<noteq> None \<and> map_of (tr_payload a) k \<noteq> Some JNull
                \<and> js_String num (map_of (tr_payload a) k) = js_String num (map_of (tr_payload b) k))
       (if take 6 (tr_kind b) = ''issue.'' then [''source'', ''repo'', ''issueId''] else [''repo'', ''prNumber''])"

text \<open>\<open>None\<close> is the \<^verbatim>\<open>null\<close> of an event that is not for this run.\<close>

definition deliverWorkflowEvent :: "wf_deps \<Rightarrow> (rat \<Rightarrow> string) \<Rightarrow> string \<Rightarrow> string \<Rightarrow> string \<Rightarrow> trigger \<Rightarrow> world
    \<Rightarrow> (wf_error + world \<times> run \<times> execution) option" where
  "deliverWorkflowEvent dp num projectId worktree rid ev w =
     (case map_of (w_store w) rid of
        None \<Rightarrow> None
      | Some r \<Rightarrow>
          (if rn_status r \<noteq> RunWaiting \<or> rn_projectId r \<noteq> projectId then None
           else case rn_current r of
             None \<Rightarrow> None
           | Some sid \<Rightarrow>
               (case (step_named (rn_definition r) sid, step_row_of r sid) of
                  (Some fs, Some rw) \<Rightarrow>
                    (if map_of fs ''kind'' \<noteq> Some (JStr ''watch'') \<or> map_of fs ''event'' \<noteq> Some (JStr (tr_kind ev))
                        \<or> tr_occurredAt ev \<le> sw_updatedAt rw \<or> tr_eventId ev = tr_eventId (rn_trigger r)
                        \<or> \<not> same_resource num (rn_trigger r) ev
                     then None
                     else Some (case advance dp w r sid ''pass'' of
                       Inl e \<Rightarrow> Inl e
                     | Inr (w', r') \<Rightarrow> continueWorkflow dp worktree (rn_id r') w'))
                | _ \<Rightarrow> None)))"

section \<open>The steps of a run\<close>

text \<open>
  Everything that happens to a run in the store: an advance along an edge of its definition, a recorded attempt or wait,
  a resume, and the interruption of a restart. The executor does nothing else to it (\<open>transitions_steps\<close>).
\<close>

inductive run_step :: "run \<Rightarrow> run \<Rightarrow> bool" where
  rs_advance: "rn_status r \<in> {RunRunning, RunWaiting} \<Longrightarrow> rn_current r = Some sid \<Longrightarrow> edgeFor (rn_definition r) sid out = Some e
     \<Longrightarrow> run_step r (advanced now sid settled out (edgeTarget r e) r)"
| rs_record: "rn_status r \<in> {RunRunning, RunWaiting, RunInterrupted} \<Longrightarrow> rn_current r = Some sid
     \<Longrightarrow> run_step r (recorded now sid waiting attempt r)"
| rs_interrupt: "run_step r (interrupt_run now r)"

definition synced :: "world \<Rightarrow> run \<Rightarrow> bool" where
  "synced w r \<longleftrightarrow> map_of (w_store w) (rn_id r) = Some r"

lemma advanced_simps [simp]:
  "rn_id (advanced now sid st out t r) = rn_id r" "rn_definition (advanced now sid st out t r) = rn_definition r"
  "rn_edges (advanced now sid st out t r) = rn_edges r @ [\<lparr>er_seq = next_seq (rn_edges r), er_from = sid, er_outcome = out,
     er_target = t, er_takenAt = now\<rparr>]"
  "rn_current (advanced now sid st out t r) = (if terminal_status t = None then Some t else None)"
  by (simp_all add: advanced_def Let_def split: option.split)

lemma recorded_simps [simp]:
  "rn_id (recorded now sid b a r) = rn_id r" "rn_definition (recorded now sid b a r) = rn_definition r"
  "rn_edges (recorded now sid b a r) = rn_edges r" "rn_current (recorded now sid b a r) = rn_current r"
  by (simp_all add: recorded_def)

lemma interrupt_simps [simp]:
  "rn_id (interrupt_run now r) = rn_id r" "rn_definition (interrupt_run now r) = rn_definition r"
  "rn_edges (interrupt_run now r) = rn_edges r" "rn_current (interrupt_run now r) = rn_current r"
  by (simp_all add: interrupt_run_def)

lemma update_row_ids [simp]:
  assumes "\<And>w. sw_id (f w) = sw_id w"
  shows "map sw_id (update_row sid f rows) = map sw_id rows"
  using assms by (simp add: update_row_def)

lemma rows_kept [simp]:
  "map sw_id (rn_steps (advanced now sid st out t r)) = map sw_id (rn_steps r)"
  "map sw_id (rn_steps (recorded now sid b a r)) = map sw_id (rn_steps r)"
  "map sw_id (rn_steps (interrupt_run now r)) = map sw_id (rn_steps r)"
  by (auto simp: advanced_def recorded_def interrupt_run_def Let_def comp_def split: option.split)

lemma current_run_Some:
  "current_run st rid sid = Some r \<longleftrightarrow> map_of st rid = Some r \<and> rn_current r = Some sid \<and> rn_status r \<in> {RunRunning, RunWaiting}"
  by (auto simp: current_run_def split: option.splits if_splits)

lemma synced_update: "rn_id r' = rn_id r \<Longrightarrow> synced (w\<lparr>w_store := AList.update (rn_id r) r' st, w_ticks := k\<rparr>) r'"
  by (simp add: synced_def map_of_alist_update)

lemma store_advance_Inr:
  assumes "store_advance now rid sid settled out t st = Inr (st', r')"
  obtains r where "current_run st rid sid = Some r" "r' = advanced now sid settled out t r" "st' = AList.update rid r' st"
    "validate_text out 128"
  using assms by (auto simp: store_advance_def Let_def split: if_splits option.splits)

lemma store_record_Inr:
  assumes "store_record_step now rid sid waiting a st = Inr (st', r')"
  obtains r where "current_run st rid sid = Some r" "r' = recorded now sid waiting a r" "st' = AList.update rid r' st"
  using assms by (auto simp: store_record_step_def Let_def split: if_splits option.splits)

lemma advance_Inr:
  assumes "advance dp w r sid out = Inr (w', r')" and sy: "synced w r"
  obtains e settled where "edgeFor (rn_definition r) sid out = Some e" "rn_current r = Some sid" "rn_status r \<in> {RunRunning, RunWaiting}"
    "r' = advanced (now_of dp w) sid settled out (edgeTarget r e) r" "synced w' r'" "w_launches w' = w_launches w"
proof -
  obtain e where e: "edgeFor (rn_definition r) sid out = Some e"
    using assms(1) by (cases "edgeFor (rn_definition r) sid out") (simp_all add: advance_def)
  let ?settled = "if out = ''failure'' \<or> out = ''fail'' then StepFailed else StepCompleted"
  obtain st where s: "store_advance (now_of dp w) (rn_id r) sid ?settled out (edgeTarget r e) (w_store w) = Inr (st, r')"
    and w': "w' = w\<lparr>w_store := st, w_ticks := Suc (w_ticks w)\<rparr>"
    using assms(1) e by (auto simp: advance_def commit_def split: sum.splits)
  from s obtain r0 where r0: "current_run (w_store w) (rn_id r) sid = Some r0"
    "r' = advanced (now_of dp w) sid ?settled out (edgeTarget r e) r0" "st = AList.update (rn_id r) r' (w_store w)"
    by (rule store_advance_Inr)
  then have "r0 = r" using sy by (auto simp: current_run_Some synced_def)
  then show thesis
    using that [OF e _ _ _ _ _, of ?settled] r0 w' synced_update [of r' r] by (auto simp: current_run_Some)
qed

lemma advance_step:
  assumes "advance dp w r sid out = Inr (w', r')" "synced w r"
  shows "run_step r r' \<and> synced w' r' \<and> w_launches w' = w_launches w \<and> length (rn_edges r') = Suc (length (rn_edges r))"
proof -
  obtain e settled where "edgeFor (rn_definition r) sid out = Some e" "rn_current r = Some sid" "rn_status r \<in> {RunRunning, RunWaiting}"
    "r' = advanced (now_of dp w) sid settled out (edgeTarget r e) r" "synced w' r'" "w_launches w' = w_launches w"
    using assms by (rule advance_Inr)
  then show ?thesis using rs_advance [of r sid out e] by simp
qed

lemma record_step:
  assumes "commit w (store_record_step now (rn_id r) sid waiting a (w_store w)) = Inr (w', r')" "synced w r"
  shows "run_step r r' \<and> synced w' r' \<and> r' = recorded now sid waiting a r \<and> w_launches w' = w_launches w \<and> rn_current r = Some sid"
proof -
  obtain st where s: "store_record_step now (rn_id r) sid waiting a (w_store w) = Inr (st, r')"
    and w': "w' = w\<lparr>w_store := st, w_ticks := Suc (w_ticks w)\<rparr>"
    using assms(1) by (auto simp: commit_def split: sum.splits)
  from s obtain r0 where r0: "current_run (w_store w) (rn_id r) sid = Some r0" "r' = recorded now sid waiting a r0"
    "st = AList.update (rn_id r) r' (w_store w)"
    by (rule store_record_Inr)
  then have "r0 = r" using assms(2) by (auto simp: current_run_Some synced_def)
  then show ?thesis
    using r0 w' rs_record [of r sid now waiting a] synced_update [of r' r] by (auto simp: current_run_Some)
qed

lemma reserve_step:
  assumes "reserve dp w r sid = Inr (w', r', a)" "synced w r"
  shows "run_step r r' \<and> synced w' r' \<and> r' = recorded (now_of dp (w\<lparr>w_reserved := Suc (w_reserved w)\<rparr>)) sid False (Some a) r
    \<and> w_launches w' = w_launches w \<and> rn_current r = Some sid"
proof -
  let ?w = "w\<lparr>w_reserved := Suc (w_reserved w)\<rparr>"
  have "commit ?w (store_record_step (now_of dp ?w) (rn_id r) sid False (Some a) (w_store ?w)) = Inr (w', r')"
    using assms(1) by (auto simp: reserve_def Let_def split: sum.splits prod.splits)
  moreover have "synced ?w r" using assms(2) by (simp add: synced_def)
  ultimately show ?thesis using record_step [of ?w] by fastforce
qed

lemma synced_launches [simp]: "synced (w\<lparr>w_launches := ls\<rparr>) r \<longleftrightarrow> synced w r"
  by (simp add: synced_def)

text \<open>The cases of one turn of the attempt loop.\<close>

lemma attempt_loop_cases:
  assumes "attempt_loop dp fs sid path rnd cap used plan history attempt w r = res"
  obtains (over) "used > cap" "res = advance dp w r sid ''failure''"
  | (rejected) e where "used \<le> cap" "res = Inl (DepRejected e)"
  | (ok) result :: agent_result where "used \<le> cap" "wd_launch dp (w_launches w) \<lparr>al_stepId = sid, al_attemptId = attempt, al_round = rnd, al_cli = rp_cli plan\<rparr> = Inr result"
      "ag_ok result"
      "res = (let w1 = w\<lparr>w_launches := w_launches w @ [\<lparr>al_stepId = sid, al_attemptId = attempt, al_round = rnd, al_cli = rp_cli plan\<rparr>]\<rparr>
              in advance dp w1 r sid (completedOutcome dp w1 fs path))"
  | (stop) result :: agent_result where "used \<le> cap" "\<not> ag_ok result"
      "is_stop (fst (failoverDecision (failover_of plan (ag_failureText result) history used cap)))"
      "res = advance dp (w\<lparr>w_launches := w_launches w @ [\<lparr>al_stepId = sid, al_attemptId = attempt, al_round = rnd, al_cli = rp_cli plan\<rparr>]\<rparr>)
               r sid ''failure''"
  | (unreserved) e where "used \<le> cap" "res = Inl e"
      "reserve dp (w\<lparr>w_launches := w_launches w @ [\<lparr>al_stepId = sid, al_attemptId = attempt, al_round = rnd, al_cli = rp_cli plan\<rparr>]\<rparr>)
               r sid = Inl e"
  | (again) result :: agent_result and plan' history' w2 r2 a2 where "used \<le> cap" "\<not> ag_ok result"
      "\<not> is_stop (fst (failoverDecision (failover_of plan (ag_failureText result) history used cap)))"
      "reserve dp (w\<lparr>w_launches := w_launches w @ [\<lparr>al_stepId = sid, al_attemptId = attempt, al_round = rnd, al_cli = rp_cli plan\<rparr>]\<rparr>)
               r sid = Inr (w2, r2, a2)"
      "res = attempt_loop dp fs sid path rnd cap (used + 1) plan' history' a2 w2 r2"
proof -
  let ?l = "\<lparr>al_stepId = sid, al_attemptId = attempt, al_round = rnd, al_cli = rp_cli plan\<rparr>"
  let ?w1 = "w\<lparr>w_launches := w_launches w @ [?l]\<rparr>"
  note res = assms [unfolded attempt_loop.simps [of dp fs sid path rnd cap used plan history attempt w r] Let_def, symmetric]
  show thesis
  proof (cases "used > cap")
    case True
    then show thesis using over res by simp
  next
    case u: False
    show thesis
    proof (cases "wd_launch dp (w_launches w) ?l")
      case (Inl e)
      then show thesis using rejected res u by simp
    next
      case l: (Inr result)
      show thesis
      proof (cases "ag_ok result")
        case True
        then show thesis using ok [of result] res u l by (simp add: Let_def)
      next
        case nok: False
        obtain action verdict where d: "failoverDecision (failover_of plan (ag_failureText result) history used cap) = (action, verdict)"
          by fastforce
        show thesis
        proof (cases "is_stop action")
          case True
          then show thesis using stop [of result] res u l nok d by simp
        next
          case False
          then show thesis
            using unreserved again [of result] res u l nok d
            by (cases "reserve dp ?w1 r sid") (auto split: prod.splits)
        qed
      qed
    qed
  qed
qed

lemma attempt_loop_steps:
  "attempt_loop dp fs sid path rnd cap used plan history attempt w r = Inr (w', r') \<Longrightarrow> synced w r \<Longrightarrow>
     run_step\<^sup>*\<^sup>* r r' \<and> synced w' r' \<and> length (rn_edges r') = Suc (length (rn_edges r))"
proof (induction "nat (cap + 1 - used)" arbitrary: used plan history attempt w r)
  case 0
  then have "used > cap" by simp
  then show ?case using 0 advance_step [of dp w r sid "''failure''" w' r'] by (simp add: attempt_loop.simps r_into_rtranclp)
next
  case (Suc n)
  from Suc.prems(1) show ?case
  proof (cases rule: attempt_loop_cases)
    case over
    then show ?thesis using advance_step Suc.prems(2) by (metis r_into_rtranclp)
  next
    case (ok result)
    then show ?thesis using advance_step Suc.prems(2) synced_launches unfolding Let_def by (metis r_into_rtranclp)
  next
    case (stop result)
    then show ?thesis using advance_step Suc.prems(2) synced_launches by (metis r_into_rtranclp)
  next
    case (again result plan' history' w2 r2 a2)
    have s: "run_step r r2" "synced w2 r2" "rn_edges r2 = rn_edges r"
      using reserve_step [OF again(4)] Suc.prems(2) by auto
    have "n = nat (cap + 1 - (used + 1))" using Suc.hyps(2) by simp
    from Suc.hyps(1) [OF this again(5) [symmetric] s(2)] s show ?thesis
      by (auto intro: converse_rtranclp_into_rtranclp)
  qed simp_all
qed

lemma executeAgent_steps:
  assumes "executeAgent dp worktree fs sid w r = Inr (w', r')" "synced w r"
  shows "run_step\<^sup>*\<^sup>* r r' \<and> synced w' r' \<and> length (rn_edges r') = Suc (length (rn_edges r))"
proof -
  let ?rnd = "case step_row_of r sid of Some p \<Rightarrow> sw_round p | None \<Rightarrow> 0"
  let ?path = "verdictPath (workflowRunDir worktree (rn_id r)) sid ?rnd"
  show ?thesis
  proof (cases "resume_choice dp w (step_row_of r sid)")
    case SettleAttempt
    then have "advance dp w r sid (completedOutcome dp w fs ?path) = Inr (w', r')"
      using assms(1) by (simp add: executeAgent_def Let_def)
    from advance_step [OF this assms(2)] show ?thesis by blast
  next
    case (Refuse e)
    then show ?thesis using assms(1) by (simp add: executeAgent_def Let_def)
  next
    case StartFresh
    then obtain w1 r1 a where v: "reserve dp w r sid = Inr (w1, r1, a)"
      and l: "attempt_loop dp fs sid ?path ?rnd (attemptCap_of fs) 1 (wd_routeFor dp fs None) [] a w1 r1 = Inr (w', r')"
      using assms(1) by (auto simp: executeAgent_def Let_def split: sum.splits)
    have s: "run_step r r1" "synced w1 r1" "rn_edges r1 = rn_edges r"
      using reserve_step [OF v assms(2)] by auto
    from attempt_loop_steps [OF l s(2)] s show ?thesis
      by (auto intro: converse_rtranclp_into_rtranclp)
  qed
qed

text \<open>One turn of \<open>transitions\<close>: a step that advances the run by one edge, or an end.\<close>

definition turn :: "wf_deps \<Rightarrow> string \<Rightarrow> world \<Rightarrow> run \<Rightarrow> string \<Rightarrow> fields \<Rightarrow> wf_error + world \<times> run" where
  "turn dp worktree w r sid fs =
     (if map_of fs ''kind'' = Some (JStr ''agent'') then executeAgent dp worktree fs sid w r
      else if map_of fs ''kind'' = Some (JStr ''gate'') then
        advance dp w r sid (if evaluateWorkflowGate fs r (gate_evidence dp w r fs) then ''pass'' else ''fail'')
      else case wd_runGitOp dp (w_launches w) fs of
             Inl e \<Rightarrow> Inl (DepRejected e)
           | Inr ok \<Rightarrow> advance dp w r sid (if ok then ''success'' else ''failure''))"

definition waits :: "fields \<Rightarrow> bool" where
  "waits fs \<longleftrightarrow> map_of fs ''kind'' = Some (JStr ''human'') \<or> map_of fs ''kind'' = Some (JStr ''watch'')"

lemma transitions_cases:
  assumes "transitions (Suc n) dp worktree w r = res"
  obtains (settled) "settled_status (rn_status r)" "res = Inr (w, r, Settled)"
  | (missing) "\<not> settled_status (rn_status r)" "rn_current r = None \<or> (\<exists>sid. rn_current r = Some sid \<and> step_named (rn_definition r) sid = None)"
      "res = Inl StepMissing"
  | (waiting) sid fs why where "\<not> settled_status (rn_status r)" "rn_current r = Some sid" "step_named (rn_definition r) sid = Some fs" "waits fs"
      "res = (case commit w (store_record_step (now_of dp w) (rn_id r) sid True None (w_store w)) of
                Inl e \<Rightarrow> Inl e | Inr (w', r') \<Rightarrow> Inr (w', r', why))"
  | (failed) sid fs e where "\<not> settled_status (rn_status r)" "rn_current r = Some sid" "step_named (rn_definition r) sid = Some fs" "\<not> waits fs"
      "turn dp worktree w r sid fs = Inl e" "res = Inl e"
  | (moved) sid fs w' r' where "\<not> settled_status (rn_status r)" "rn_current r = Some sid" "step_named (rn_definition r) sid = Some fs" "\<not> waits fs"
      "turn dp worktree w r sid fs = Inr (w', r')" "res = transitions n dp worktree w' r'"
proof (cases "settled_status (rn_status r)")
  case True
  then show thesis using settled assms by simp
next
  case ns: False
  show thesis
  proof (cases "rn_current r")
    case None
    then show thesis using missing ns assms by simp
  next
    case cur: (Some sid)
    show thesis
    proof (cases "step_named (rn_definition r) sid")
      case None
      then show thesis using missing ns cur assms by simp
    next
      case fs: (Some fs)
      note res = assms [unfolded transitions.simps, simplified ns cur fs if_False option.case Let_def]
      show thesis
      proof (cases "waits fs")
        case True
        then show thesis using waiting [OF ns cur fs True] res by (auto simp: waits_def)
      next
        case False
        have t: "res = (case turn dp worktree w r sid fs of Inl e \<Rightarrow> Inl e | Inr (w', r') \<Rightarrow> transitions n dp worktree w' r')"
        proof (cases "map_of fs ''kind'' = Some (JStr ''agent'') \<or> map_of fs ''kind'' = Some (JStr ''gate'')")
          case True
          then show ?thesis using res by (elim disjE) (simp_all add: turn_def)
        next
          case other: False
          show ?thesis
            using res other False by (cases "wd_runGitOp dp (w_launches w) fs") (simp_all add: turn_def waits_def)
        qed
        show thesis
        proof (cases "turn dp worktree w r sid fs")
          case (Inl e)
          then show thesis using failed [OF ns cur fs False] t by simp
        next
          case (Inr p)
          then show thesis using moved [OF ns cur fs False] t by (cases p) simp
        qed
      qed
    qed
  qed
qed

lemma turn_steps:
  assumes "turn dp worktree w r sid fs = Inr (w', r')" "synced w r"
  shows "run_step\<^sup>*\<^sup>* r r' \<and> synced w' r' \<and> length (rn_edges r') = Suc (length (rn_edges r))"
  using assms executeAgent_steps [OF _ assms(2)] advance_step [OF _ assms(2)]
  by (auto simp: turn_def split: if_splits sum.splits intro: r_into_rtranclp)

lemma wait_steps:
  assumes "(case commit w (store_record_step now (rn_id r) sid True None (w_store w)) of
              Inl e \<Rightarrow> Inl e | Inr (w', r') \<Rightarrow> Inr (w', r', why)) = Inr (w', r', x)" "synced w r"
  shows "run_step r r' \<and> synced w' r'"
  using assms record_step [of w now r sid True None w' r'] by (auto split: sum.splits)

lemma transitions_steps:
  "transitions n dp worktree w r = Inr (w', r', x) \<Longrightarrow> synced w r \<Longrightarrow> run_step\<^sup>*\<^sup>* r r' \<and> synced w' r'"
proof (induction n arbitrary: w r)
  case (Suc n)
  from Suc.prems(1) show ?case
  proof (cases rule: transitions_cases)
    case settled
    then show ?thesis using Suc.prems(2) by simp
  next
    case (waiting sid fs why)
    then show ?thesis using wait_steps [OF waiting(5) [symmetric] Suc.prems(2)] by (simp add: r_into_rtranclp)
  next
    case (moved sid fs w2 r2)
    from turn_steps [OF moved(5) Suc.prems(2)] have "run_step\<^sup>*\<^sup>* r r2" "synced w2 r2" by auto
    with Suc.IH [OF moved(6) [symmetric]] show ?thesis by (auto intro: rtranclp_trans)
  qed simp_all
qed simp

text \<open>The transition bound is hit only after as many advances.\<close>

lemma advance_Inl: "advance dp w r sid out = Inl e \<Longrightarrow> (\<exists>o' s'. e = LostExit o' s') \<or> (\<exists>m. e = StoreError m)"
  by (auto simp: advance_def commit_def store_advance_def Let_def split: option.splits sum.splits if_splits)

lemma reserve_Inl: "reserve dp w r sid = Inl e \<Longrightarrow> (\<exists>m. e = DepRejected m) \<or> (\<exists>m. e = StoreError m)"
  by (auto simp: reserve_def commit_def store_record_step_def Let_def split: option.splits sum.splits if_splits)

lemma attempt_loop_Inl:
  "attempt_loop dp fs sid path rnd cap used plan history attempt w r = Inl e \<Longrightarrow>
     (\<exists>o' s'. e = LostExit o' s') \<or> (\<exists>m. e = StoreError m) \<or> (\<exists>m. e = DepRejected m)"
proof (induction "nat (cap + 1 - used)" arbitrary: used plan history attempt w r)
  case 0
  then have "used > cap" by simp
  then show ?case using 0 advance_Inl [of dp w r sid "''failure''" e] by (simp add: attempt_loop.simps) blast
next
  case (Suc n)
  from Suc.prems show ?case
  proof (cases rule: attempt_loop_cases)
    case (again result plan' history' w2 r2 a2)
    have "n = nat (cap + 1 - (used + 1))" using Suc.hyps(2) by simp
    from Suc.hyps(1) [OF this again(5) [symmetric]] show ?thesis .
  next
    case over
    then show ?thesis using advance_Inl by metis
  next
    case (ok result)
    then show ?thesis using advance_Inl unfolding Let_def by metis
  next
    case (stop result)
    then show ?thesis using advance_Inl by metis
  next
    case (unreserved e')
    then show ?thesis using reserve_Inl by (metis sum.inject(1))
  qed simp_all
qed

lemma executeAgent_Inl:
  assumes "executeAgent dp worktree fs sid w r = Inl e"
  shows "(\<exists>o' s'. e = LostExit o' s') \<or> (\<exists>m. e = StoreError m) \<or> (\<exists>m. e = DepRejected m) \<or> e = Reconcile \<or> e = OldAttempt"
proof -
  have "resume_choice dp w p = Refuse e' \<Longrightarrow> e' = Reconcile \<or> e' = OldAttempt" for p e'
    by (auto simp: resume_choice_def Let_def split: option.splits if_splits attempt_state.splits)
  then show ?thesis
    using assms advance_Inl reserve_Inl attempt_loop_Inl
    by (auto simp: executeAgent_def Let_def split: resume_choice.splits sum.splits) metis+
qed

lemma turn_Inl:
  "turn dp worktree w r sid fs = Inl e \<Longrightarrow> e \<noteq> BoundExceeded"
  using executeAgent_Inl advance_Inl by (fastforce simp: turn_def split: if_splits sum.splits)

lemma transitions_bound:
  "transitions n dp worktree w r = Inl BoundExceeded \<Longrightarrow> synced w r \<Longrightarrow>
     \<exists>r'. run_step\<^sup>*\<^sup>* r r' \<and> length (rn_edges r') = length (rn_edges r) + n"
proof (induction n arbitrary: w r)
  case 0
  then show ?case by auto
next
  case (Suc n)
  from Suc.prems(1) show ?case
  proof (cases rule: transitions_cases)
    case (waiting sid fs why)
    then show ?thesis by (auto simp: commit_def store_record_step_def Let_def split: sum.splits if_splits option.splits)
  next
    case (failed sid fs e)
    then show ?thesis using turn_Inl by blast
  next
    case (moved sid fs w2 r2)
    from turn_steps [OF moved(5) Suc.prems(2)]
    have t: "run_step\<^sup>*\<^sup>* r r2" "synced w2 r2" "length (rn_edges r2) = Suc (length (rn_edges r))" by auto
    from Suc.IH [OF moved(6) [symmetric] t(2)] t show ?thesis by (auto intro: rtranclp_trans)
  qed simp_all
qed

end
