(* ===== verification/WorkflowSafety.thy ===== *)
theory WorkflowSafety
  imports WorkflowRun
begin

text \<open>
  What holds of every run of an accepted workflow, whatever the executor's dependencies answer and however
  often the application restarts: the run is always at a step of its definition, loops end, a continuation
  never misses a step or a run, attempts are launched once and only when the previous one is known to have ended.
  At the end stand the runs on which the validator and the executor disagree.
\<close>

section \<open>What holds of every run of an accepted definition\<close>

definition max_rounds :: "fields \<Rightarrow> nat" where
  "max_rounds e = (case integer_value (field_of (map_of e ''loop'') ''maxRounds'') of Some n \<Rightarrow> nat n | None \<Rightarrow> 0)"

text \<open>A loop edge whose exit is not the step it loops back to.\<close>

definition bounded_loop :: "fields \<Rightarrow> bool" where
  "bounded_loop e \<longleftrightarrow> map_of e ''loop'' \<noteq> None \<and> e_to e \<noteq> e_exhausted e"

definition fresh_run :: "json \<Rightarrow> run \<Rightarrow> bool" where
  "fresh_run d r \<longleftrightarrow> rn_definition r = d \<and> map sw_id (rn_steps r) = step_ids d \<and> rn_current r = Some (start_of d)
     \<and> rn_status r = RunRunning \<and> rn_edges r = []"

definition run_ok :: "json \<Rightarrow> run \<Rightarrow> bool" where
  "run_ok d r \<longleftrightarrow> rn_definition r = d \<and> map sw_id (rn_steps r) = step_ids d
     \<and> (case rn_current r of Some s \<Rightarrow> s \<in> set (step_ids d) | None \<Rightarrow> settled_status (rn_status r))
     \<and> (\<forall>e\<in>set (def_edges d). bounded_loop e \<longrightarrow> traversals r e \<le> max_rounds e)"

lemma edgeFor_Some:
  assumes "edgeFor d sid out = Some e"
  shows "e \<in> set (def_edges d)" "e_from e = sid" "e_on e = out"
  using assms by (auto simp: edgeFor_def find_Some_iff e_from_def e_on_def dest: nth_mem)

lemma traversals_eq:
  assumes "edge_ok ids e"
  shows "traversals r e = length (filter (\<lambda>t. er_from t = e_from e \<and> er_outcome t = e_on e \<and> er_target t = e_to e) (rn_edges r))"
proof -
  note e = edge_okD(1,3,5) [OF assms]
  have "(\<lambda>t. map_of e ''from'' = node (er_from t) \<and> map_of e ''on'' = node (er_outcome t) \<and> map_of e ''to'' = node (er_target t))
      = (\<lambda>t. er_from t = e_from e \<and> er_outcome t = e_on e \<and> er_target t = e_to e)"
    using e by auto
  then show ?thesis unfolding traversals_def by (rule arg_cong [where f = "\<lambda>p. length (filter p (rn_edges r))"])
qed

lemma traversals_advanced:
  assumes "edge_ok ids e"
  shows "traversals (advanced now sid st out t r) e = traversals r e + (if sid = e_from e \<and> out = e_on e \<and> t = e_to e then 1 else 0)"
  by (simp add: traversals_eq [OF assms])

lemma traversals_same [simp]:
  "traversals (recorded now sid b a r) = traversals r" "traversals (interrupt_run now r) = traversals r"
  by (simp_all add: traversals_def fun_eq_iff)

lemma edgeTarget_eq:
  assumes "edge_ok ids e"
  shows "edgeTarget r e = (if map_of e ''loop'' = None then e_to e
           else if traversals r e < max_rounds e then e_to e else e_exhausted e)"
proof (cases "map_of e ''loop''")
  case None
  then show ?thesis by (simp add: edgeTarget_def truthy_def e_to_def)
next
  case (Some lp)
  then obtain fs n where l: "map_of e ''loop'' = Some (JObj fs)" "map_of fs ''maxRounds'' = Some (JNum (of_int n))" "1 \<le> n"
    using assms unfolding edge_ok_def by auto
  have "(rat_of_nat k < rat_of_int n) = (k < nat n)" for k
    using l(3) by (metis nat_less_iff of_int_less_iff of_int_of_nat_eq of_nat_0_le_iff zless_nat_eq_int_zless)
  then show ?thesis
    using l by (simp add: edgeTarget_def truthy_def field_of_def finite_value_def max_rounds_def e_to_def e_exhausted_def Let_def)
qed

lemma edgeTarget_exists:
  assumes "edge_ok ids e"
  shows "edgeTarget r e \<in> set ids \<union> set TERMINALS"
  using edge_okD(4,7) [OF assms] by (auto simp: edgeTarget_eq [OF assms])

lemma terminal_status_None: "terminal_status t = None \<longleftrightarrow> t \<notin> set TERMINALS"
  by (simp add: terminal_status_def TERMINALS_def)

lemma advanced_status:
  "t \<in> set TERMINALS \<Longrightarrow> settled_status (rn_status (advanced now sid st out t r))"
  by (auto simp: advanced_def Let_def terminal_status_def TERMINALS_def settled_status_def)

lemma same_outcome_same_edge:
  assumes "validateWorkflowDefinition c v = Inr d" "e \<in> set (def_edges d)" "e' \<in> set (def_edges d)"
    and "e_from e = e_from e'" "e_on e = e_on e'"
  shows "e = e'"
  using accepted_edges(2) [OF assms(1)] assms(2-5) by (auto simp: distinct_map dest: inj_onD)

lemma rounds_kept:
  assumes v: "validateWorkflowDefinition c v = Inr d" and r: "rn_definition r = d" and e0: "edgeFor d sid out = Some e0"
    and le: "\<forall>e\<in>set (def_edges d). bounded_loop e \<longrightarrow> traversals r e \<le> max_rounds e"
    and e: "e \<in> set (def_edges d)" "bounded_loop e"
  shows "traversals (advanced now sid st out (edgeTarget r e0) r) e \<le> max_rounds e"
proof -
  note ok = accepted_edges(1) [OF v]
  note f = edgeFor_Some [OF e0]
  show ?thesis
  proof (cases "sid = e_from e \<and> out = e_on e \<and> edgeTarget r e0 = e_to e")
    case True
    then have "e0 = e" using same_outcome_same_edge [OF v f(1) e(1)] f by simp
    then have "traversals r e < max_rounds e"
      using True e(2) edgeTarget_eq [OF ok [OF e(1)], of r] by (auto simp: bounded_loop_def split: if_splits)
    then show ?thesis using True by (simp add: traversals_advanced [OF ok [OF e(1)]])
  next
    case False
    then have "traversals (advanced now sid st out (edgeTarget r e0) r) e = traversals r e"
      by (simp only: traversals_advanced [OF ok [OF e(1)]] if_False add_0_right)
    then show ?thesis using le e by simp
  qed
qed

lemma run_step_ok:
  assumes v: "validateWorkflowDefinition c v = Inr d" and step: "run_step r r'" and ok: "run_ok d r"
  shows "run_ok d r'"
  using step
proof cases
  case (rs_advance sid out e now settled)
  note f = edgeFor_Some [OF rs_advance(4)]
  have d: "rn_definition r = d" using ok by (simp add: run_ok_def)
  then have e: "edge_ok (step_ids d) e" using f accepted_edges(1) [OF v] by blast
  have t: "edgeTarget r e \<in> set (step_ids d) \<or> edgeTarget r e \<in> set TERMINALS"
    using edgeTarget_exists [OF e, of r] by blast
  have "\<forall>g\<in>set (def_edges d). bounded_loop g \<longrightarrow> traversals r' g \<le> max_rounds g"
    using rounds_kept [OF v d] rs_advance(4) ok unfolding rs_advance(1) d by (auto simp: run_ok_def)
  moreover have "rn_definition r' = d" "map sw_id (rn_steps r') = step_ids d"
    using ok unfolding rs_advance(1) by (simp_all add: run_ok_def)
  moreover have "case rn_current r' of Some s \<Rightarrow> s \<in> set (step_ids d) | None \<Rightarrow> settled_status (rn_status r')"
    using t advanced_status unfolding rs_advance(1) by (auto simp: terminal_status_None)
  ultimately show ?thesis by (simp add: run_ok_def)
next
  case (rs_record sid now waiting attempt)
  then show ?thesis using ok by (simp add: run_ok_def)
next
  case (rs_interrupt now)
  have "settled_status (rn_status r) \<Longrightarrow> settled_status (rn_status r')"
    unfolding rs_interrupt by (auto simp: interrupt_run_def settled_status_def)
  then show ?thesis using ok unfolding rs_interrupt by (auto simp: run_ok_def split: option.splits)
qed

lemma fresh_run_ok:
  assumes "validateWorkflowDefinition c v = Inr d" "fresh_run d r"
  shows "run_ok d r"
  using assms accepted_steps(4) [OF assms(1)] by (simp add: run_ok_def fresh_run_def traversals_def)

lemma reachable_run_ok:
  assumes "validateWorkflowDefinition c v = Inr d" "fresh_run d r0" "run_step\<^sup>*\<^sup>* r0 r"
  shows "run_ok d r"
  using assms(3,2) by induction (auto intro: fresh_run_ok run_step_ok assms(1))

subsection \<open>How long a run can be\<close>

text \<open>The graph a run is left with when every loop is exhausted.\<close>

definition exit_edge :: "json \<Rightarrow> (string \<times> string) set" where
  "exit_edge d = {(e_from e, t) |e t. e \<in> set (def_edges d) \<and> t = (if map_of e ''loop'' = None then e_to e else e_exhausted e)
     \<and> t \<in> set (step_ids d)}"

definition loop_budget :: "json \<Rightarrow> nat" where
  "loop_budget d = sum_list (map max_rounds (filter bounded_loop (def_edges d)))"

definition loopbacks :: "json \<Rightarrow> run \<Rightarrow> nat" where
  "loopbacks d r = sum_list (map (traversals r) (filter bounded_loop (def_edges d)))"

definition height :: "json \<Rightarrow> string \<Rightarrow> nat" where
  "height d s = card {b \<in> set (step_ids d). (s, b) \<in> (exit_edge d)\<^sup>+}"

definition potential :: "json \<Rightarrow> string option \<Rightarrow> nat" where
  "potential d cur = (case cur of None \<Rightarrow> 0 | Some s \<Rightarrow> Suc (height d s))"

lemma height_less:
  assumes "acyclic (exit_edge d)" "(a, b) \<in> exit_edge d"
  shows "height d b < height d a"
  unfolding height_def
proof (rule psubset_card_mono)
  have "b \<in> set (step_ids d)" using assms(2) by (auto simp: exit_edge_def)
  moreover have "(b, b) \<notin> (exit_edge d)\<^sup>+" using assms(1) by (simp add: acyclic_def)
  ultimately show "{k \<in> set (step_ids d). (b, k) \<in> (exit_edge d)\<^sup>+} \<subset> {k \<in> set (step_ids d). (a, k) \<in> (exit_edge d)\<^sup>+}"
    using assms(2) by (auto intro: trancl_into_trancl2)
qed simp

lemma height_bound:
  assumes "acyclic (exit_edge d)" "s \<in> set (step_ids d)"
  shows "height d s < length (step_ids d)"
proof -
  have "{b \<in> set (step_ids d). (s, b) \<in> (exit_edge d)\<^sup>+} \<subset> set (step_ids d)"
    using assms by (auto simp: acyclic_def)
  then have "height d s < card (set (step_ids d))"
    unfolding height_def by (rule psubset_card_mono [rotated]) simp
  then show ?thesis using card_length [of "step_ids d"] by linarith
qed

lemma sum_list_bump:
  fixes f g :: "'a \<Rightarrow> nat"
  assumes "\<And>x. x \<in> set xs \<Longrightarrow> f x \<le> g x"
  shows "sum_list (map f xs) \<le> sum_list (map g xs)"
    "x \<in> set xs \<Longrightarrow> Suc (f x) \<le> g x \<Longrightarrow> Suc (sum_list (map f xs)) \<le> sum_list (map g xs)"
proof -
  show le: "sum_list (map f xs) \<le> sum_list (map g xs)"
    using assms by (rule sum_list_mono)
  show "x \<in> set xs \<Longrightarrow> Suc (f x) \<le> g x \<Longrightarrow> Suc (sum_list (map f xs)) \<le> sum_list (map g xs)"
    using assms
  proof (induction xs)
    case (Cons y ys)
    have "sum_list (map f ys) \<le> sum_list (map g ys)" using Cons.prems(3) by (intro sum_list_mono) simp
    then show ?case using Cons by (fastforce simp: add_mono)
  qed simp
qed

definition length_ok :: "json \<Rightarrow> run \<Rightarrow> bool" where
  "length_ok d r \<longleftrightarrow> length (rn_edges r) + potential d (rn_current r) \<le> Suc (loopbacks d r) * length (step_ids d)"

lemma run_step_length:
  assumes v: "validateWorkflowDefinition c v = Inr d" and acyc: "acyclic (exit_edge d)"
    and step: "run_step r r'" and ok: "run_ok d r" and len: "length_ok d r"
  shows "length_ok d r'"
  using step
proof cases
  case (rs_advance sid out e now settled)
  note f = edgeFor_Some [OF rs_advance(4)]
  have d: "rn_definition r = d" using ok by (simp add: run_ok_def)
  have oks: "\<And>g. g \<in> set (def_edges d) \<Longrightarrow> edge_ok (step_ids d) g" by (rule accepted_edges(1) [OF v])
  have e: "e \<in> set (def_edges d)" "edge_ok (step_ids d) e" using f d oks by auto
  let ?t = "edgeTarget r e" and ?n = "length (step_ids d)"
  have mono: "traversals r g \<le> traversals r' g" if "g \<in> set (def_edges d)" for g
    unfolding rs_advance(1) using traversals_advanced [OF oks [OF that]] by simp
  then have lb: "loopbacks d r \<le> loopbacks d r'"
    unfolding loopbacks_def by (intro sum_list_bump(1)) simp
  have l: "length (rn_edges r') = Suc (length (rn_edges r))" unfolding rs_advance(1) by simp
  have p: "potential d (rn_current r) = Suc (height d sid)" using rs_advance(3) by (simp add: potential_def)
  have cur: "rn_current r' = (if ?t \<in> set TERMINALS then None else Some ?t)"
    unfolding rs_advance(1) by (simp add: terminal_status_None)
  have old: "length (rn_edges r) + Suc (height d sid) \<le> Suc (loopbacks d r) * ?n"
    using len p by (simp add: length_ok_def)
  have grow: "Suc (loopbacks d r) * ?n \<le> Suc (loopbacks d r') * ?n" using lb by (simp add: mult_le_mono1)
  consider "?t \<in> set TERMINALS" | "?t \<notin> set TERMINALS" "(sid, ?t) \<in> exit_edge d"
    | "?t \<notin> set TERMINALS" "(sid, ?t) \<notin> exit_edge d" by blast
  then show ?thesis
  proof cases
    case 1
    then have "potential d (rn_current r') = 0" using cur by (simp add: potential_def)
    then show ?thesis unfolding length_ok_def using old grow l by linarith
  next
    case 2
    then have "potential d (rn_current r') = Suc (height d ?t)" using cur by (simp add: potential_def)
    then show ?thesis unfolding length_ok_def using height_less [OF acyc 2(2)] old grow l by linarith
  next
    case 3
    then have t: "?t \<in> set (step_ids d)" using edgeTarget_exists [OF e(2), of r] by blast
    have "map_of e ''loop'' \<noteq> None \<and> ?t = e_to e \<and> ?t \<noteq> e_exhausted e"
      using 3(2) t e(1) f(2) edgeTarget_eq [OF e(2), of r] by (auto simp: exit_edge_def split: if_splits)
    then have b: "bounded_loop e" "?t = e_to e" by (auto simp: bounded_loop_def)
    have "Suc (traversals r e) \<le> traversals r' e"
      unfolding rs_advance(1) using traversals_advanced [OF e(2)] f(2,3) b(2) by simp
    then have "Suc (loopbacks d r) \<le> loopbacks d r'"
      unfolding loopbacks_def using e(1) b(1) mono by (intro sum_list_bump(2) [where x = e]) auto
    then have "Suc (loopbacks d r) * ?n + ?n \<le> Suc (loopbacks d r') * ?n"
      using mult_le_mono1 [of "Suc (Suc (loopbacks d r))" "Suc (loopbacks d r')" ?n] by simp
    moreover have "Suc (height d ?t) \<le> ?n" using height_bound [OF acyc t] by simp
    moreover have "potential d (rn_current r') = Suc (height d ?t)" using cur 3(1) by (simp add: potential_def)
    ultimately show ?thesis unfolding length_ok_def using old l by linarith
  qed
next
  case (rs_record sid now waiting attempt)
  then show ?thesis using len by (simp add: length_ok_def loopbacks_def)
next
  case (rs_interrupt now)
  then show ?thesis using len by (simp add: length_ok_def loopbacks_def)
qed

lemma reachable_length:
  assumes v: "validateWorkflowDefinition c v = Inr d" and acyc: "acyclic (exit_edge d)"
    and fresh: "fresh_run d r0" and reach: "run_step\<^sup>*\<^sup>* r0 r"
  shows "length (rn_edges r) \<le> Suc (loop_budget d) * length (step_ids d)"
proof -
  have "length_ok d r \<and> run_ok d r" using reach
  proof induction
    case base
    have "start_of d \<in> set (step_ids d)" by (rule accepted_steps(4) [OF v])
    then show ?case
      using fresh fresh_run_ok [OF v fresh] height_bound [OF acyc, of "start_of d"]
      by (simp add: length_ok_def fresh_run_def potential_def Suc_le_eq)
  next
    case (step r r')
    then show ?case using run_step_length [OF v acyc] run_step_ok [OF v] by blast
  qed
  then have "length (rn_edges r) \<le> Suc (loopbacks d r) * length (step_ids d)" and ok: "run_ok d r"
    by (auto simp: length_ok_def)
  moreover have "loopbacks d r \<le> loop_budget d"
    unfolding loopbacks_def loop_budget_def using ok by (intro sum_list_bump(1)) (simp add: run_ok_def)
  ultimately show ?thesis by (meson Suc_le_mono le_trans mult_le_mono1)
qed

subsection \<open>No accepted run gets stuck\<close>

lemma ID_chars:
  assumes "ID s"
  shows "s \<noteq> []" "length s \<le> 64" "\<forall>c\<in>set s. lower_alnum c \<or> c = CHR ''_'' \<or> c = CHR ''-''" "lower_alnum (hd s)"
  using assms by (auto simp: ID_def list_all_iff split: list.splits)

lemma lower_alnum_plain: "lower_alnum c \<or> c = CHR ''_'' \<or> c = CHR ''-'' \<Longrightarrow> (of_char c :: nat) < 128"
  by (auto simp: lower_alnum_def Let_def)

lemma ID_validate_id: "ID s \<Longrightarrow> validate_id s"
  using ID_chars [of s]
  by (auto simp: validate_id_def list_all_iff ascii_alnum_def letter_def lower_alnum_def Let_def)

lemma ID_validate_text: "ID s \<Longrightarrow> validate_text s 128"
proof -
  assume s: "ID s"
  have "filter (\<lambda>c. (of_char c :: nat) \<ge> 128) s = []"
    using ID_chars(3) [OF s] lower_alnum_plain by (fastforce simp: filter_empty_conv not_le)
  moreover have "\<not> rust_space (hd s)"
    using ID_chars(4) [OF s] by (auto simp: rust_space_def lower_alnum_def Let_def)
  ultimately show ?thesis
    using ID_chars(1,2) [OF s] by (auto simp: validate_text_def utf8_len_def list_all_iff)
qed

lemma outcome_texts: "validate_text ''success'' 128" "validate_text ''failure'' 128" "validate_text ''pass'' 128" "validate_text ''fail'' 128"
  by code_simp+

lemma step_named_Some:
  assumes "step_named d sid = Some fs"
  shows "fs \<in> set (def_steps d)" "map_of fs ''id'' = node sid" "step_id fs = sid"
  using assms by (auto simp: step_named_def find_Some_iff step_id_def dest: nth_mem)

lemma step_named_exists:
  assumes "validateWorkflowDefinition c v = Inr d" "sid \<in> set (step_ids d)"
  shows "step_named d sid \<noteq> None"
proof -
  obtain fs where "fs \<in> set (def_steps d)" "step_id fs = sid" using assms(2) by (auto simp: step_ids_def)
  then have "fs \<in> set (def_steps d) \<and> map_of fs ''id'' = node sid" using accepted_steps(5) [OF assms(1)] by blast
  then show ?thesis unfolding step_named_def find_None_iff by blast
qed

lemma outcome_has_edge:
  assumes v: "validateWorkflowDefinition c v = Inr d" and fs: "step_named d sid = Some fs" and out: "out \<in> set (expectedOutcomes fs)"
  obtains e where "edgeFor d sid out = Some e"
proof -
  obtain e where e: "e \<in> set (def_edges d)" "e_from e = sid" "e_on e = out"
    using accepted_edges(3) [OF v step_named_Some(1) [OF fs] out] step_named_Some(3) [OF fs] by auto
  then have "map_of e ''from'' = node sid \<and> map_of e ''on'' = node out"
    using edge_okD(1,5) [OF accepted_edges(1) [OF v e(1)]] by simp
  then have "edgeFor d sid out \<noteq> None" using e(1) by (auto simp: edgeFor_def find_None_iff)
  then show thesis using that by blast
qed

lemma advance_total:
  assumes v: "validateWorkflowDefinition c v = Inr d" and ok: "run_ok d r" and sy: "synced w r" and rid: "validate_id (rn_id r)"
    and cur: "rn_current r = Some sid" and st: "rn_status r \<in> {RunRunning, RunWaiting}"
    and fs: "step_named d sid = Some fs" and out: "out \<in> set (expectedOutcomes fs)" "validate_text out 128"
  shows "\<exists>w' r'. advance dp w r sid out = Inr (w', r')"
proof -
  have d: "rn_definition r = d" using ok by (simp add: run_ok_def)
  obtain e where e: "edgeFor d sid out = Some e" using v fs out(1) by (rule outcome_has_edge)
  have eok: "edge_ok (step_ids d) e" using accepted_edges(1) [OF v edgeFor_Some(1) [OF e]] .
  have sid: "validate_id sid"
    using accepted_steps(5) [OF v step_named_Some(1) [OF fs]] step_named_Some(3) [OF fs] ID_validate_id by auto
  have ids: "validate_id s" if "s \<in> set (step_ids d)" for s
    using that accepted_steps(5) [OF v] ID_validate_id by (auto simp: step_ids_def)
  have t: "edgeTarget r e \<in> set (step_ids d) \<or> terminal_status (edgeTarget r e) \<noteq> None"
    using edgeTarget_exists [OF eok, of r] terminal_status_None by blast
  have rows: "sw_id ` set (rn_steps r) = set (step_ids d)"
    using ok by (metis list.set_map run_ok_def)
  have c: "current_run (w_store w) (rn_id r) sid = Some r"
    using sy cur st by (simp add: current_run_Some synced_def)
  show ?thesis
    using t ids by (auto simp: advance_def d e commit_def store_advance_def rid sid out(2) c rows Let_def)
qed

lemma verdict_errors_Nil: "verdict_errors loc seen vs = [] \<Longrightarrow> x \<in> set vs \<Longrightarrow> ID x"
  by (induction vs arbitrary: seen) (auto split: if_splits)

lemma agent_verdicts:
  assumes v: "validateWorkflowDefinition c v = Inr d" and fs: "fs \<in> set (def_steps d)" "map_of fs ''kind'' = Some (JStr ''agent'')"
  shows "(step_verdicts fs = [] \<and> array_or_empty (map_of fs ''verdicts'') = []
          \<or> step_verdicts fs \<noteq> [] \<and> array_or_empty (map_of fs ''verdicts'') \<noteq> [] \<and> (\<forall>x\<in>set (step_verdicts fs). ID x))
    \<and> 1 \<le> attemptCap_of fs \<and> attemptCap_of fs \<le> 8"
proof -
  obtain loc ag seen where "step_errors c loc ag seen fs = []" using accepted_steps(6) [OF v fs(1)] by blast
  then have a: "agent_step_errors loc ag fs = []" using fs(2) by (simp add: step_errors_def Let_def)
  have cap: "map_of fs ''attemptCap'' = None \<or> int_between 1 8 (map_of fs ''attemptCap'')"
    and vs: "map_of fs ''verdicts'' = None \<or> strings_of (map_of fs ''verdicts'') \<noteq> [] \<and> verdict_errors loc [] (strings_of (map_of fs ''verdicts'')) = []"
    using a by (auto simp: agent_step_errors_def Let_def split: if_splits)
  have "strings_of (map_of fs ''verdicts'') \<noteq> [] \<Longrightarrow> array_or_empty (map_of fs ''verdicts'') \<noteq> []"
    by (auto simp: strings_of_def map_filter_simps)
  moreover have "strings_of None = []" "array_or_empty None = []"
    by (simp_all add: strings_of_def array_or_empty_def as_array_def map_filter_simps)
  moreover have "integer_value None = None" by (simp add: integer_value_def)
  ultimately show ?thesis
    using cap vs verdict_errors_Nil by (fastforce simp: step_verdicts_def attemptCap_of_def int_between_iff)
qed

lemma completedOutcome_cases:
  "completedOutcome dp w fs path = (if step_verdicts fs = [] then ''success'' else ''failure'')
   \<or> step_verdicts fs \<noteq> [] \<and> completedOutcome dp w fs path \<in> set (step_verdicts fs)"
  by (auto simp: completedOutcome_def parseVerdict_def Let_def split: option.splits if_splits)

lemma agent_outcomes:
  assumes v: "validateWorkflowDefinition c v = Inr d" and fs: "fs \<in> set (def_steps d)" "map_of fs ''kind'' = Some (JStr ''agent'')"
  shows "completedOutcome dp w fs path \<in> set (expectedOutcomes fs)" "validate_text (completedOutcome dp w fs path) 128"
    "''failure'' \<in> set (expectedOutcomes fs)"
proof -
  note a = agent_verdicts [OF v fs, THEN conjunct1]
  have ex: "expectedOutcomes fs = (if array_or_empty (map_of fs ''verdicts'') \<noteq> [] then step_verdicts fs @ [''failure''] else [''success'', ''failure''])"
    using fs(2) by (simp add: expectedOutcomes_def Let_def step_verdicts_def)
  show "''failure'' \<in> set (expectedOutcomes fs)" by (simp add: ex)
  show "completedOutcome dp w fs path \<in> set (expectedOutcomes fs)"
    using completedOutcome_cases [of dp w fs path] a by (auto simp: ex split: if_splits)
  show "validate_text (completedOutcome dp w fs path) 128"
    using completedOutcome_cases [of dp w fs path] a outcome_texts ID_validate_text by (metis (full_types))
qed

definition active :: "run \<Rightarrow> bool" where
  "active r \<longleftrightarrow> rn_status r = RunRunning \<or> rn_status r = RunWaiting"

definition dep_error :: "wf_error \<Rightarrow> bool" where
  "dep_error e \<longleftrightarrow> (\<exists>m. e = DepRejected m) \<or> e = StoreError ''UNIQUE constraint failed''"

lemma reserve_error:
  assumes "reserve dp w r sid = Inl e" "synced w r" "active r" "rn_current r = Some sid" "validate_id (rn_id r)" "validate_id sid"
    and "\<And>n a. wd_reserve dp n = Inr a \<Longrightarrow> validate_id a"
  shows "dep_error e"
proof (cases "wd_reserve dp (w_reserved w)")
  case (Inl m)
  then have "e = DepRejected m" using assms(1) by (simp add: reserve_def)
  then show ?thesis by (simp add: dep_error_def)
next
  case (Inr a)
  have "current_run (w_store w) (rn_id r) sid = Some r"
    using assms(2-4) by (auto simp: current_run_Some synced_def active_def)
  then show ?thesis
    using assms(1,5,6) assms(7) [OF Inr] Inr
    by (auto simp: reserve_def commit_def store_record_step_def Let_def dep_error_def split: if_splits)
qed

lemma recorded_ok:
  assumes "validateWorkflowDefinition c v = Inr d" "run_ok d r" "active r" "rn_current r = Some sid"
  shows "run_ok d (recorded now sid False a r) \<and> active (recorded now sid False a r) \<and> rn_current (recorded now sid False a r) = Some sid"
  using run_step_ok [OF assms(1) rs_record [of r sid now False a] assms(2)] assms(3,4)
  by (auto simp: active_def recorded_def)

lemma attempt_loop_error:
  assumes v: "validateWorkflowDefinition c v = Inr d" and fs: "step_named d sid = Some fs" "map_of fs ''kind'' = Some (JStr ''agent'')"
    and rsv: "\<And>n a. wd_reserve dp n = Inr a \<Longrightarrow> validate_id a"
  shows "attempt_loop dp fs sid path rnd cap used plan history attempt w r = Inl e \<Longrightarrow> run_ok d r \<Longrightarrow> synced w r \<Longrightarrow> active r
     \<Longrightarrow> rn_current r = Some sid \<Longrightarrow> validate_id (rn_id r) \<Longrightarrow> dep_error e"
proof (induction "nat (cap + 1 - used)" arbitrary: used plan history attempt w r)
  case 0
  then have "used > cap" by simp
  moreover have "\<exists>w' r'. advance dp w r sid ''failure'' = Inr (w', r')"
    using 0 agent_outcomes(3) [OF v step_named_Some(1) [OF fs(1)] fs(2)]
    by (intro advance_total [OF v 0(3,4,7,6) _ fs(1)]) (auto simp: active_def outcome_texts)
  ultimately show ?case using 0 by (auto simp: attempt_loop.simps)
next
  case (Suc n)
  note fs' = step_named_Some(1) [OF fs(1)]
  have adv: "advance dp (w\<lparr>w_launches := ls\<rparr>) r sid out \<noteq> Inl e'"
    if "out \<in> set (expectedOutcomes fs)" "validate_text out 128" for ls out e'
    using advance_total [OF v Suc.prems(2) _ Suc.prems(6,5) _ fs(1) that, of "w\<lparr>w_launches := ls\<rparr>" dp] Suc.prems(3,4)
    by (auto simp: active_def)
  have sid: "validate_id sid"
    using accepted_steps(5) [OF v fs'] step_named_Some(3) [OF fs(1)] ID_validate_id by auto
  from Suc.prems(1) show ?case
  proof (cases rule: attempt_loop_cases)
    case over
    have "used \<le> cap" using Suc.hyps(2) by simp
    then show ?thesis using over by simp
  next
    case (rejected m)
    then show ?thesis by (simp add: dep_error_def)
  next
    case (ok result)
    then show ?thesis using adv agent_outcomes(1,2) [OF v fs' fs(2)] unfolding Let_def by metis
  next
    case (stop result)
    then show ?thesis using adv agent_outcomes(3) [OF v fs' fs(2)] outcome_texts(2) by metis
  next
    case (unreserved e')
    then show ?thesis
      using reserve_error [OF unreserved(3) _ Suc.prems(4,5,6) sid rsv] Suc.prems(3) by simp
  next
    case (again result plan' history' w2 r2 a2)
    have "synced (w\<lparr>w_launches := w_launches w @ [\<lparr>al_stepId = sid, al_attemptId = attempt, al_round = rnd, al_cli = rp_cli plan\<rparr>]\<rparr>) r"
      using Suc.prems(3) by simp
    note s = reserve_step [OF again(4) this]
    have n: "n = nat (cap + 1 - (used + 1))" using Suc.hyps(2) by simp
    have k: "run_ok d r2" "active r2" "rn_current r2 = Some sid" "rn_id r2 = rn_id r"
      using s recorded_ok [OF v Suc.prems(2,4,5)] by auto
    have sy: "synced w2 r2" using s by blast
    have rid: "validate_id (rn_id r2)" using k(4) Suc.prems(6) by simp
    from Suc.hyps(1) [OF n again(5) [symmetric] k(1) sy k(2,3) rid] show ?thesis .
  qed
qed

definition run_error :: "wf_error \<Rightarrow> bool" where
  "run_error e \<longleftrightarrow> dep_error e \<or> e = Reconcile \<or> e = OldAttempt \<or> e = BoundExceeded"

lemma turn_error:
  assumes v: "validateWorkflowDefinition c v = Inr d" and fs: "step_named d sid = Some fs" "\<not> waits fs"
    and rsv: "\<And>n a. wd_reserve dp n = Inr a \<Longrightarrow> validate_id a"
    and r: "run_ok d r" "synced w r" "active r" "rn_current r = Some sid" "validate_id (rn_id r)"
    and e: "turn dp worktree w r sid fs = Inl e"
  shows "run_error e"
proof -
  note fs' = step_named_Some(1) [OF fs(1)]
  have adv: "advance dp w r sid out \<noteq> Inl e'"
    if "out \<in> set (expectedOutcomes fs)" "validate_text out 128" for out e'
    using advance_total [OF v r(1,2,5,4) _ fs(1) that, of dp] r(3) by (auto simp: active_def)
  have sid: "validate_id sid"
    using accepted_steps(5) [OF v fs'] step_named_Some(3) [OF fs(1)] ID_validate_id by auto
  consider (agent) "map_of fs ''kind'' = Some (JStr ''agent'')" | (gate) "map_of fs ''kind'' = Some (JStr ''gate'')"
    | (other) "map_of fs ''kind'' \<noteq> Some (JStr ''agent'')" "map_of fs ''kind'' \<noteq> Some (JStr ''gate'')" by blast
  then show ?thesis
  proof cases
    case agent
    then have x: "executeAgent dp worktree fs sid w r = Inl e" using e by (simp add: turn_def)
    have ref: "resume_choice dp w p = Refuse e' \<Longrightarrow> e' = Reconcile \<or> e' = OldAttempt" for p e'
      by (auto simp: resume_choice_def Let_def split: option.splits if_splits attempt_state.splits)
    let ?rnd = "case step_row_of r sid of Some p \<Rightarrow> sw_round p | None \<Rightarrow> 0"
    let ?path = "verdictPath (workflowRunDir worktree (rn_id r)) sid ?rnd"
    show ?thesis
    proof (cases "resume_choice dp w (step_row_of r sid)")
      case SettleAttempt
      then have "advance dp w r sid (completedOutcome dp w fs ?path) = Inl e" using x by (simp add: executeAgent_def Let_def)
      then show ?thesis using adv agent_outcomes(1,2) [OF v fs' agent] by blast
    next
      case (Refuse e')
      then show ?thesis using x ref by (auto simp: executeAgent_def Let_def run_error_def)
    next
      case StartFresh
      show ?thesis
      proof (cases "reserve dp w r sid")
        case (Inl e')
        then have "e' = e" using x StartFresh by (simp add: executeAgent_def Let_def)
        then show ?thesis using reserve_error [OF Inl r(2,3,4,5) sid rsv] by (simp add: run_error_def)
      next
        case (Inr p)
        then obtain w1 r1 a where p: "reserve dp w r sid = Inr (w1, r1, a)" by (cases p) auto
        then have l: "attempt_loop dp fs sid ?path ?rnd (attemptCap_of fs) 1 (wd_routeFor dp fs None) [] a w1 r1 = Inl e"
          using x StartFresh by (simp add: executeAgent_def Let_def)
        note s = reserve_step [OF p r(2)]
        have k: "run_ok d r1" "active r1" "rn_current r1 = Some sid" "rn_id r1 = rn_id r"
          using s recorded_ok [OF v r(1,3,4)] by auto
        have sy: "synced w1 r1" using s by blast
        have rid: "validate_id (rn_id r1)" using k(4) r(5) by simp
        from attempt_loop_error [OF v fs(1) agent rsv l k(1) sy k(2,3) rid]
        show ?thesis by (simp add: run_error_def)
      qed
    qed
  next
    case gate
    then have "''pass'' \<in> set (expectedOutcomes fs)" "''fail'' \<in> set (expectedOutcomes fs)"
      by (simp_all add: expectedOutcomes_def)
    then show ?thesis using adv e gate outcome_texts by (auto simp: turn_def split: if_splits)
  next
    case other
    then have "expectedOutcomes fs = [''success'', ''failure'']"
      using fs(2) by (simp add: expectedOutcomes_def waits_def Let_def)
    then show ?thesis
      using adv e other outcome_texts by (auto simp: turn_def run_error_def dep_error_def split: sum.splits if_splits)
  qed
qed

lemma advance_active:
  assumes "advance dp w r sid out = Inr (w', r')" "synced w r"
  shows "active r' \<or> settled_status (rn_status r')"
proof -
  obtain e settled where "r' = advanced (now_of dp w) sid settled out (edgeTarget r e) r"
    using assms by (rule advance_Inr)
  then show ?thesis
    by (auto simp: active_def settled_status_def advanced_def terminal_status_def Let_def split: option.splits if_splits)
qed

lemma attempt_loop_active:
  "attempt_loop dp fs sid path rnd cap used plan history attempt w r = Inr (w', r') \<Longrightarrow> synced w r \<Longrightarrow>
     active r' \<or> settled_status (rn_status r')"
proof (induction "nat (cap + 1 - used)" arbitrary: used plan history attempt w r)
  case 0
  then have "used > cap" by simp
  then show ?case using 0 advance_active [of dp w r sid "''failure''" w' r'] by (simp add: attempt_loop.simps)
next
  case (Suc n)
  from Suc.prems(1) show ?case
  proof (cases rule: attempt_loop_cases)
    case over
    then show ?thesis using advance_active Suc.prems(2) by metis
  next
    case (ok result)
    then show ?thesis using advance_active Suc.prems(2) synced_launches unfolding Let_def by metis
  next
    case (stop result)
    then show ?thesis using advance_active Suc.prems(2) synced_launches by metis
  next
    case (again result plan' history' w2 r2 a2)
    have "synced w2 r2" using reserve_step [OF again(4)] Suc.prems(2) by auto
    moreover have "n = nat (cap + 1 - (used + 1))" using Suc.hyps(2) by simp
    ultimately show ?thesis using Suc.hyps(1) again(5) by metis
  qed simp_all
qed

lemma turn_active:
  assumes "turn dp worktree w r sid fs = Inr (w', r')" "synced w r"
  shows "active r' \<or> settled_status (rn_status r')"
proof -
  have "executeAgent dp worktree fs sid w r = Inr (w', r') \<Longrightarrow> ?thesis"
  proof -
    assume x: "executeAgent dp worktree fs sid w r = Inr (w', r')"
    let ?rnd = "case step_row_of r sid of Some p \<Rightarrow> sw_round p | None \<Rightarrow> 0"
    let ?path = "verdictPath (workflowRunDir worktree (rn_id r)) sid ?rnd"
    show ?thesis
    proof (cases "resume_choice dp w (step_row_of r sid)")
      case SettleAttempt
      then have "advance dp w r sid (completedOutcome dp w fs ?path) = Inr (w', r')" using x by (simp add: executeAgent_def Let_def)
      then show ?thesis using advance_active assms(2) by blast
    next
      case (Refuse e)
      then show ?thesis using x by (simp add: executeAgent_def Let_def)
    next
      case StartFresh
      then obtain w1 r1 a where v: "reserve dp w r sid = Inr (w1, r1, a)"
        and l: "attempt_loop dp fs sid ?path ?rnd (attemptCap_of fs) 1 (wd_routeFor dp fs None) [] a w1 r1 = Inr (w', r')"
        using x by (auto simp: executeAgent_def Let_def split: sum.splits)
      have "synced w1 r1" using reserve_step [OF v assms(2)] by blast
      then show ?thesis using attempt_loop_active [OF l] by blast
    qed
  qed
  moreover have "advance dp w r sid out = Inr (w', r') \<Longrightarrow> ?thesis" for out
    using advance_active assms(2) by blast
  ultimately show ?thesis using assms(1) by (auto simp: turn_def split: if_splits sum.splits)
qed

lemma run_steps_ok:
  assumes "validateWorkflowDefinition c v = Inr d" "run_step\<^sup>*\<^sup>* r r'" "run_ok d r"
  shows "run_ok d r' \<and> rn_id r' = rn_id r"
  using assms(2,3)
proof induction
  case (step r1 r2)
  moreover have "rn_id r2 = rn_id r1" using step(2) by cases simp_all
  ultimately show ?case using run_step_ok [OF assms(1) step(2)] by simp
qed simp

lemma transitions_error:
  assumes v: "validateWorkflowDefinition c v = Inr d" and rsv: "\<And>n a. wd_reserve dp n = Inr a \<Longrightarrow> validate_id a"
  shows "transitions n dp worktree w r = Inl e \<Longrightarrow> run_ok d r \<Longrightarrow> synced w r \<Longrightarrow> validate_id (rn_id r)
     \<Longrightarrow> active r \<or> settled_status (rn_status r) \<Longrightarrow> run_error e"
proof (induction n arbitrary: w r)
  case 0
  then show ?case by (simp add: run_error_def)
next
  case (Suc n)
  have d: "rn_definition r = d" using Suc.prems(2) by (simp add: run_ok_def)
  from Suc.prems(1) show ?case
  proof (cases rule: transitions_cases)
    case missing
    have "rn_current r \<noteq> None" using missing(1) Suc.prems(2) by (auto simp: run_ok_def split: option.splits)
    then obtain sid where sid: "rn_current r = Some sid" by blast
    then have "sid \<in> set (step_ids d)" using Suc.prems(2) by (simp add: run_ok_def)
    then have "step_named (rn_definition r) sid \<noteq> None" using step_named_exists [OF v, of sid] d by simp
    then show ?thesis using missing(2) sid by simp
  next
    case (waiting sid fs why)
    have sid: "validate_id sid"
      using waiting(3) d accepted_steps(5) [OF v step_named_Some(1)] step_named_Some(3) ID_validate_id by metis
    have "current_run (w_store w) (rn_id r) sid = Some r"
      using Suc.prems(3,5) waiting(1,2) by (auto simp: current_run_Some synced_def active_def)
    then show ?thesis
      using waiting(5) Suc.prems(4) sid by (simp add: commit_def store_record_step_def Let_def)
  next
    case (failed sid fs e')
    then have "active r" using Suc.prems(5) by blast
    then show ?thesis
      using turn_error [OF v failed(3) [unfolded d] failed(4) rsv Suc.prems(2,3) _ failed(2) Suc.prems(4) failed(5)] failed(6) by simp
  next
    case (moved sid fs w2 r2)
    from turn_steps [OF moved(5) Suc.prems(3)] have t: "run_step\<^sup>*\<^sup>* r r2" "synced w2 r2" by auto
    note k = run_steps_ok [OF v t(1) Suc.prems(2)]
    show ?thesis
      using Suc.IH [OF moved(6) [symmetric] k [THEN conjunct1] t(2)] k Suc.prems(4) turn_active [OF moved(5) Suc.prems(3)] by simp
  qed simp_all
qed

text \<open>C18: A run of an accepted definition does not get stuck: from any state it can reach, continuing it never fails for
  want of a step or an exit, nor because the store refuses an advance. All that can stop it is a dependency
  that fails, an attempt id the ledger hands out twice, an attempt that has to be reconciled, or the bound on transitions.\<close>

theorem accepted_run_never_stuck:
  assumes "validateWorkflowDefinition c v = Inr d" "fresh_run d r0" "run_step\<^sup>*\<^sup>* r0 r" "validate_id (rn_id r)"
    and "map_of (w_store w) (rn_id r) = Some r" and "\<forall>n a. wd_reserve dp n = Inr a \<longrightarrow> validate_id a"
    and "continueWorkflow dp worktree (rn_id r) w = Inl e"
  shows "(\<exists>m. e = DepRejected m) \<or> e = StoreError ''UNIQUE constraint failed'' \<or> e = Reconcile \<or> e = OldAttempt \<or> e = BoundExceeded"
proof -
  have "run_ok d r" using assms(1-3) by (rule reachable_run_ok)
  moreover have "synced w r" using assms(5) by (simp add: synced_def)
  moreover have t: "transitions 512 dp worktree w r = Inl e" "rn_status r \<noteq> RunInterrupted"
    using assms(5,7) by (auto simp: continueWorkflow_def split: if_splits)
  moreover have "active r \<or> settled_status (rn_status r)"
    using t(2) by (cases "rn_status r") (simp_all add: active_def settled_status_def)
  moreover have "wd_reserve dp n = Inr a \<Longrightarrow> validate_id a" for n a using assms(6) by blast
  ultimately have "run_error e" using transitions_error [OF assms(1)] assms(4) by blast
  then show ?thesis by (auto simp: run_error_def dep_error_def)
qed


text \<open>C16: A run whose loop exits lead out of the loops is finite: if the definition is accepted and has no cycle left once every
  loop is exhausted, a run takes at most (rounds + 1) * steps edges, and continuing it settles, waits or reports an
  error of its dependencies before the bound on transitions, provided that this many edges is below it.\<close>

theorem exhausting_run_is_bounded:
  assumes "validateWorkflowDefinition c v = Inr d" "acyclic (exit_edge d)" "fresh_run d r0" "run_step\<^sup>*\<^sup>* r0 r"
    and "map_of (w_store w) (rn_id r) = Some r" "Suc (loop_budget d) * length (step_ids d) < 512"
  shows "length (rn_edges r) \<le> Suc (loop_budget d) * length (step_ids d)
    \<and> continueWorkflow dp worktree (rn_id r) w \<noteq> Inl BoundExceeded"
proof
  show "length (rn_edges r) \<le> Suc (loop_budget d) * length (step_ids d)" using assms(1-4) by (rule reachable_length)
  show "continueWorkflow dp worktree (rn_id r) w \<noteq> Inl BoundExceeded"
  proof
    assume "continueWorkflow dp worktree (rn_id r) w = Inl BoundExceeded"
    then have "transitions 512 dp worktree w r = Inl BoundExceeded"
      using assms(5) by (auto simp: continueWorkflow_def split: if_splits)
    then obtain r' where r': "run_step\<^sup>*\<^sup>* r r'" "length (rn_edges r') = length (rn_edges r) + 512"
      using transitions_bound assms(5) unfolding synced_def by blast
    have "run_step\<^sup>*\<^sup>* r0 r'" using assms(4) r'(1) by (rule rtranclp_trans)
    from reachable_length [OF assms(1-3) this] r'(2) assms(6) show False by linarith
  qed
qed

section \<open>Attempts\<close>

definition attempts_of :: "run \<Rightarrow> string \<Rightarrow> string list" where
  "attempts_of r sid = (case step_row_of r sid of Some p \<Rightarrow> sw_attemptIds p | None \<Rightarrow> [])"

lemma find_update_row:
  assumes "\<And>w. sw_id (f w) = sw_id w"
  shows "find (\<lambda>s. sw_id s = sid) (update_row x f rows) = map_option (\<lambda>w. if sw_id w = x then f w else w) (find (\<lambda>s. sw_id s = sid) rows)"
  using assms by (induction rows) (auto simp: update_row_def)

lemma attempts_advanced [simp]: "attempts_of (advanced now s st out t r) sid = attempts_of r sid"
  by (auto simp: attempts_of_def step_row_of_def advanced_def Let_def find_update_row option.map_comp comp_def
      split: option.splits)

lemma attempts_recorded:
  assumes "step_row_of r sid \<noteq> None"
  shows "attempts_of (recorded now sid b (Some a) r) sid = attempts_of r sid @ [a]"
    "step_row_of (recorded now sid b (Some a) r) sid \<noteq> None"
proof -
  obtain p where p: "find (\<lambda>s. sw_id s = sid) (rn_steps r) = Some p"
    using assms by (auto simp: step_row_of_def)
  then have "sw_id p = sid" unfolding find_Some_iff by blast
  then show "attempts_of (recorded now sid b (Some a) r) sid = attempts_of r sid @ [a]"
    "step_row_of (recorded now sid b (Some a) r) sid \<noteq> None"
    using p by (simp_all add: attempts_of_def step_row_of_def recorded_def find_update_row)
qed

lemma row_advanced: "step_row_of (advanced now s st out t r) sid \<noteq> None \<longleftrightarrow> step_row_of r sid \<noteq> None"
  by (auto simp: step_row_of_def advanced_def Let_def find_update_row split: option.splits)

lemma failover_stops_at_cap: "fo_attemptsUsed i \<ge> fo_attemptCap i \<Longrightarrow> is_stop (fst (failoverDecision i))"
  by (simp add: failoverDecision_def Let_def is_stop_def)

lemma attempt_loop_launches:
  "attempt_loop dp fs sid path rnd cap used plan history attempt w r = Inr (w', r') \<Longrightarrow> used \<le> cap \<Longrightarrow> synced w r \<Longrightarrow>
     step_row_of r sid \<noteq> None \<Longrightarrow>
     \<exists>l ls. w_launches w' = w_launches w @ l # ls \<and> al_attemptId l = attempt \<and> length (l # ls) \<le> nat (cap + 1 - used)
        \<and> (\<forall>x\<in>set (l # ls). al_stepId x = sid \<and> al_round x = rnd)
        \<and> attempts_of r' sid = attempts_of r sid @ map al_attemptId ls"
proof (induction "nat (cap + 1 - used)" arbitrary: used plan history attempt w r)
  case (Suc n)
  let ?l = "\<lparr>al_stepId = sid, al_attemptId = attempt, al_round = rnd, al_cli = rp_cli plan\<rparr>"
  have one: ?case if a: "advance dp (w\<lparr>w_launches := w_launches w @ [?l]\<rparr>) r sid out = Inr (w', r')" for out
  proof -
    have sy: "synced (w\<lparr>w_launches := w_launches w @ [?l]\<rparr>) r" using Suc.prems(3) by simp
    obtain e settled where x: "r' = advanced (now_of dp (w\<lparr>w_launches := w_launches w @ [?l]\<rparr>)) sid settled out (edgeTarget r e) r"
      "w_launches w' = w_launches (w\<lparr>w_launches := w_launches w @ [?l]\<rparr>)"
      using a sy by (rule advance_Inr)
    then show ?thesis using Suc.prems(2) by (intro exI [of _ ?l] exI [of _ "[]"]) simp
  qed
  from Suc.prems(1) show ?case
  proof (cases rule: attempt_loop_cases)
    case over
    then show ?thesis using Suc.prems(2) by simp
  next
    case (ok result)
    then show ?thesis using one unfolding Let_def by metis
  next
    case (stop result)
    then show ?thesis using one by metis
  next
    case (again result plan' history' w2 r2 a2)
    have "synced (w\<lparr>w_launches := w_launches w @ [?l]\<rparr>) r" using Suc.prems(3) by simp
    note s = reserve_step [OF again(4) this]
    have used: "used + 1 \<le> cap"
    proof (rule ccontr)
      assume "\<not> used + 1 \<le> cap"
      then have "is_stop (fst (failoverDecision (failover_of plan (ag_failureText result) history used cap)))"
        by (intro failover_stops_at_cap) (simp add: failover_of_def)
      then show False using again(3) by blast
    qed
    obtain t where r2: "r2 = recorded t sid False (Some a2) r" using s by blast
    have sy2: "synced w2 r2" using s by blast
    have n: "n = nat (cap + 1 - (used + 1))" using Suc.hyps(2) by simp
    have row: "step_row_of r2 sid \<noteq> None" unfolding r2 by (rule attempts_recorded(2) [OF Suc.prems(4)])
    obtain l ls where ih: "w_launches w' = w_launches w2 @ l # ls" "al_attemptId l = a2" "length (l # ls) \<le> nat (cap + 1 - (used + 1))"
      "\<forall>x\<in>set (l # ls). al_stepId x = sid \<and> al_round x = rnd" "attempts_of r' sid = attempts_of r2 sid @ map al_attemptId ls"
      using Suc.hyps(1) [OF n again(5) [symmetric] used sy2 row] by blast
    have "w_launches w2 = w_launches w @ [?l]" using s by simp
    then show ?thesis
      using ih used attempts_recorded(1) [OF Suc.prems(4), of t False a2] r2
      by (intro exI [of _ ?l] exI [of _ "l # ls"]) simp
  qed simp_all
qed simp


text \<open>Uncertain work is never started again: a step that has an attempt launches an agent only if the ledger knows the last
  one and it failed or was cancelled in this round, or belongs to another round.\<close>

theorem relaunch_needs_settled_attempt:
  assumes "executeAgent dp worktree fs sid w r = Inr (w', r')" "map_of (w_store w) (rn_id r) = Some r"
    and "step_row_of r sid = Some p" "sw_attemptIds p \<noteq> []" "last (sw_attemptIds p) \<noteq> []"
    and "w_launches w' \<noteq> w_launches w"
  shows "\<exists>t. wd_evidence dp (w_launches w) (last (sw_attemptIds p)) = Some t
    \<and> (map_of (te_attempts t) (last (sw_attemptIds p)) = Some AFailed \<or> map_of (te_attempts t) (last (sw_attemptIds p)) = Some ACancelled
       \<or> (\<exists>k. te_round t = Some k \<and> k \<noteq> sw_round p))"
proof -
  have sy: "synced w r" using assms(2) by (simp add: synced_def)
  let ?path = "verdictPath (workflowRunDir worktree (rn_id r)) sid (sw_round p)"
  have "resume_choice dp w (Some p) = StartFresh"
  proof (cases "resume_choice dp w (Some p)")
    case SettleAttempt
    then have a: "advance dp w r sid (completedOutcome dp w fs ?path) = Inr (w', r')"
      using assms(1,3) by (simp add: executeAgent_def Let_def)
    then show ?thesis using advance_step [OF a sy] assms(6) by simp
  next
    case (Refuse e)
    then show ?thesis using assms(1,3) by (simp add: executeAgent_def Let_def)
  qed
  then show ?thesis
    using assms(4,5) by (auto simp: resume_choice_def Let_def split: option.splits if_splits attempt_state.splits)
qed

section \<open>Concrete runs\<close>

definition demo_agent :: "string \<Rightarrow> json" where
  "demo_agent i = JObj [(''id'', JStr i), (''name'', JStr i), (''kind'', JStr ''agent''), (''capabilities'', JArr [JStr ''workspace-read'']),
     (''prompt'', JStr ''Do it.'')]"

definition demo_work :: json where
  "demo_work = demo_doc ''a'' [demo_agent ''a'']
     [demo_edge ''a'' ''success'' ''$completed'', demo_loop ''a'' ''failure'' ''a'' ''$failed'']"

definition demo_manual :: trigger where
  "demo_manual = \<lparr>tr_kind = ''manual'', tr_eventId = ''e'', tr_occurredAt = 0, tr_payload = []\<rparr>"

definition demo_run :: "json \<Rightarrow> run" where
  "demo_run d = \<lparr>rn_id = ''r1'', rn_projectId = ''p'', rn_definition = d, rn_trigger = demo_manual, rn_status = RunRunning,
     rn_current = Some ''a'', rn_updatedAt = 0,
     rn_steps = [\<lparr>sw_id = ''a'', sw_kind = ''x'', sw_state = StepRunning, sw_attemptIds = [], sw_round = 0, sw_updatedAt = 0\<rparr>], rn_edges = []\<rparr>"

definition demo_world :: "json \<Rightarrow> world" where
  "demo_world d = \<lparr>w_store = [(''r1'', demo_run d)], w_launches = [], w_ticks = 0, w_reserved = 0\<rparr>"

text \<open>Every launch succeeds.\<close>

definition demo_deps :: wf_deps where
  "demo_deps = \<lparr>wd_now = (\<lambda>n. int n), wd_evidence = (\<lambda>ls a. Some \<lparr>te_round = Some 0, te_attempts = [(''t0'', AFailed)]\<rparr>),
     wd_routeFor = (\<lambda>fs s. \<lparr>rp_cli = ''claude'', rp_profileId = ''d'', rp_candidates = [], rp_taskClass = TBuild\<rparr>),
     wd_reserve = (\<lambda>n. Inr (if n = 0 then ''t0'' else ''t1'')),
     wd_launch = (\<lambda>ls l. Inr \<lparr>ag_ok = True, ag_failureText = None\<rparr>),
     wd_readVerdict = (\<lambda>ls p. None), wd_parse = (\<lambda>s. None), wd_runGitOp = (\<lambda>ls fs. Inr True)\<rparr>"

definition demo_broken :: wf_deps where
  "demo_broken = demo_deps\<lparr>wd_launch := (\<lambda>ls l. Inl ''offline'')\<rparr>"

lemma demo_work_accepted: "validateWorkflowDefinition demo_context demo_work = Inr demo_work"
  by code_simp

lemma demo_work_fresh: "fresh_run demo_work (demo_run demo_work)"
proof -
  have "step_ids demo_work = [''a''] \<and> start_of demo_work = ''a''" by code_simp
  then show ?thesis by (simp add: fresh_run_def demo_run_def)
qed

lemma demo_stored: "map_of (w_store (demo_world d)) (rn_id (demo_run d)) = Some (demo_run d)" "rn_id (demo_run d) = ''r1''"
  by (simp_all add: demo_world_def demo_run_def)

lemma demo_broken_stops: "continueWorkflow demo_broken ''/r'' ''r1'' (demo_world demo_work) = Inl (DepRejected ''offline'')"
  by code_simp

theorem accepted_run_never_stuck_witness:
  "\<exists>e. continueWorkflow demo_broken ''/r'' ''r1'' (demo_world demo_work) = Inl e \<and> e \<noteq> StepMissing \<and> (\<exists>m. e = DepRejected m)"
proof -
  have rid: "validate_id ''r1''" by code_simp
  have t: "validate_id ''t0''" "validate_id ''t1''" by code_simp+
  have "\<forall>n a. wd_reserve demo_broken n = Inr a \<longrightarrow> validate_id a"
    using t by (simp add: demo_broken_def demo_deps_def)
  from accepted_run_never_stuck [OF demo_work_accepted demo_work_fresh rtranclp.rtrancl_refl
      rid [folded demo_stored(2) [of demo_work]] demo_stored(1) this demo_broken_stops [folded demo_stored(2) [of demo_work]]]
  show ?thesis using demo_broken_stops by auto
qed


lemma demo_work_exits: "exit_edge demo_work = {}"
proof -
  have "list_all (\<lambda>e. (if map_of e ''loop'' = None then e_to e else e_exhausted e) \<notin> set (step_ids demo_work)) (def_edges demo_work)"
    by code_simp
  then show ?thesis unfolding exit_edge_def list_all_iff by blast
qed

theorem exhausting_run_is_bounded_witness:
  "length (rn_edges (demo_run demo_work)) \<le> 2
   \<and> continueWorkflow demo_deps ''/r'' ''r1'' (demo_world demo_work) \<noteq> Inl BoundExceeded"
proof -
  have n: "loop_budget demo_work = 1" "length (step_ids demo_work) = 1" by code_simp+
  have a: "acyclic (exit_edge demo_work)" by (simp add: demo_work_exits acyclic_def)
  from exhausting_run_is_bounded [OF demo_work_accepted a demo_work_fresh rtranclp.rtrancl_refl demo_stored(1), of demo_deps "''/r''"]
  show ?thesis unfolding n demo_stored(2) by simp
qed

lemma demo_execution:
  "case executeAgent demo_deps ''/r'' (the (step_named demo_work ''a'')) ''a'' (demo_world demo_work) (demo_run demo_work) of
     Inl e \<Rightarrow> False
   | Inr (w', r') \<Rightarrow> map al_attemptId (w_launches w') = [''t0''] \<and> rn_status r' = RunCompleted"
  by code_simp


text \<open>A run that crashed in its first attempt, which the ledger then settled as failed.\<close>

definition demo_crashed :: run where
  "demo_crashed = (demo_run demo_work)\<lparr>rn_steps := [\<lparr>sw_id = ''a'', sw_kind = ''agent'', sw_state = StepRunning,
     sw_attemptIds = [''t0''], sw_round = 0, sw_updatedAt = 0\<rparr>]\<rparr>"

definition demo_later :: wf_deps where
  "demo_later = demo_deps\<lparr>wd_reserve := (\<lambda>n. Inr ''t1'')\<rparr>"

lemma demo_relaunch:
  "case executeAgent demo_later ''/r'' (the (step_named demo_work ''a'')) ''a''
      (demo_world demo_work\<lparr>w_store := [(''r1'', demo_crashed)]\<rparr>) demo_crashed of
     Inl e \<Rightarrow> False | Inr (w', r') \<Rightarrow> w_launches w' \<noteq> []"
  by code_simp

theorem relaunch_needs_settled_attempt_witness:
  "\<exists>t. wd_evidence demo_later [] ''t0'' = Some t \<and> map_of (te_attempts t) ''t0'' = Some AFailed"
proof -
  let ?w = "demo_world demo_work\<lparr>w_store := [(''r1'', demo_crashed)]\<rparr>"
  let ?p = "\<lparr>sw_id = ''a'', sw_kind = ''agent'', sw_state = StepRunning, sw_attemptIds = [''t0''], sw_round = 0, sw_updatedAt = 0\<rparr>"
  obtain w' r' where x: "executeAgent demo_later ''/r'' (the (step_named demo_work ''a'')) ''a'' ?w demo_crashed = Inr (w', r')"
    and l: "w_launches w' \<noteq> []"
    using demo_relaunch by (auto split: sum.splits prod.splits)
  have st: "map_of (w_store ?w) (rn_id demo_crashed) = Some demo_crashed"
    by (simp add: demo_crashed_def demo_run_def)
  have p: "step_row_of demo_crashed ''a'' = Some ?p" by (simp add: demo_crashed_def step_row_of_def)
  have "w_launches ?w = []" by (simp add: demo_world_def)
  from relaunch_needs_settled_attempt [OF x st p, unfolded this] l show ?thesis
    by (auto simp: demo_later_def demo_deps_def)
qed

subsection \<open>Where the validator lets a run go wrong\<close>

definition demo_spin_gate :: fields where
  "demo_spin_gate = the (step_named demo_spin ''a'')"

definition demo_spin_edge :: fields where
  "demo_spin_edge = the (edgeFor demo_spin ''a'' ''fail'')"

lemma demo_spin_facts:
  "step_named demo_spin ''a'' = Some demo_spin_gate" "map_of demo_spin_gate ''kind'' = Some (JStr ''gate'')"
  "field_of (map_of demo_spin_gate ''evidence'') ''stepId'' = Some (JStr ''a'')"
  "field_of (map_of demo_spin_gate ''evidence'') ''predicate'' = Some (JStr ''step.completed'')"
  "edgeFor demo_spin ''a'' ''fail'' = Some demo_spin_edge"
  "string_or_empty (map_of demo_spin_edge ''to'') = ''a''"
  "string_or_empty (field_of (map_of demo_spin_edge ''loop'') ''exhaustedTo'') = ''a''"
  "validate_id ''a''" "validate_id ''r1''" "terminal_status ''a'' = None" "validate_text ''fail'' 128"
  by code_simp+

definition spinning :: "run \<Rightarrow> bool" where
  "spinning r \<longleftrightarrow> rn_definition r = demo_spin \<and> rn_current r = Some ''a'' \<and> rn_status r = RunRunning \<and> rn_id r = ''r1''
     \<and> (\<exists>p. rn_steps r = [p] \<and> sw_id p = ''a'' \<and> sw_state p = StepRunning)"

lemma spinning_turn:
  assumes "spinning r" "synced w r"
  obtains w' r' where "turn dp worktree w r ''a'' demo_spin_gate = Inr (w', r')" "spinning r'" "synced w' r'"
proof -
  obtain p where p: "rn_steps r = [p]" "sw_id p = ''a''" "sw_state p = StepRunning" using assms(1) by (auto simp: spinning_def)
  have r: "rn_definition r = demo_spin" "rn_current r = Some ''a''" "rn_status r = RunRunning" "rn_id r = ''r1''"
    using assms(1) by (simp_all add: spinning_def)
  have gate: "\<not> evaluateWorkflowGate demo_spin_gate r ev" for ev
    using p by (simp add: evaluateWorkflowGate_def demo_spin_facts step_row_of_def)
  have target: "edgeTarget r demo_spin_edge = ''a''"
    by (simp add: edgeTarget_def demo_spin_facts Let_def split: option.splits)
  have c: "current_run (w_store w) ''r1'' ''a'' = Some r"
    using assms(2) r by (simp add: current_run_Some synced_def)
  let ?r = "advanced (now_of dp w) ''a'' StepFailed ''fail'' ''a'' r"
  let ?w = "w\<lparr>w_store := AList.update ''r1'' ?r (w_store w), w_ticks := Suc (w_ticks w)\<rparr>"
  have "advance dp w r ''a'' ''fail'' = Inr (?w, ?r)"
    using p by (simp add: advance_def r demo_spin_facts target commit_def store_advance_def c Let_def)
  then have t: "turn dp worktree w r ''a'' demo_spin_gate = Inr (?w, ?r)"
    using gate by (simp add: turn_def demo_spin_facts)
  have "rn_status ?r = RunRunning \<and> rn_steps ?r = [p\<lparr>sw_state := StepRunning, sw_updatedAt := now_of dp w, sw_round := sw_round p + 1\<rparr>]"
    using p by (simp add: advanced_def demo_spin_facts Let_def update_row_def)
  then have "spinning ?r" using r p(2) demo_spin_facts(10) by (simp add: spinning_def)
  moreover have "synced ?w ?r" using r(4) by (simp add: synced_def map_of_alist_update)
  ultimately show thesis using that t by blast
qed

lemma empty_hash: "workflowDefinitionHash [] = ''811c9dc59e3779b9''"
  by (simp add: workflowDefinitionHash_def pad8_def js_hex_small js_hex_big hex_digit_def)

lemma spinning_forever: "spinning r \<Longrightarrow> synced w r \<Longrightarrow> transitions n dp worktree w r = Inl BoundExceeded"
proof (induction n arbitrary: r w)
  case (Suc n)
  obtain w' r' where t: "turn dp worktree w r ''a'' demo_spin_gate = Inr (w', r')" "spinning r'" "synced w' r'"
    using Suc.prems by (rule spinning_turn)
  have r: "rn_definition r = demo_spin" "rn_current r = Some ''a''" "rn_status r = RunRunning"
    using Suc.prems(1) by (simp_all add: spinning_def)
  have a: "advance dp w r ''a'' (if evaluateWorkflowGate demo_spin_gate r (gate_evidence dp w r demo_spin_gate) then ''pass'' else ''fail'') = Inr (w', r')"
    using t(1) by (simp add: turn_def demo_spin_facts)
  show ?case using Suc.IH [OF t(2,3)] a by (simp add: r settled_status_def demo_spin_facts Let_def)
qed simp

text \<open>A loop's exit may lead straight back into the loop: the validator accepts \<open>demo_spin\<close>, a gate whose failing edge loops
  to itself with an exit to itself, and however the dependencies behave a run of it never settles or waits but fails on the
  bound on transitions.\<close>

theorem accepted_loop_never_settles:
  "validateWorkflowDefinition demo_context demo_spin = Inr demo_spin
   \<and> startWorkflow dp ''p'' worktree demo_spin [] (\<lambda>d. 0) (\<lambda>t. 0) ''r1'' demo_manual w = Inl BoundExceeded"
proof
  show "validateWorkflowDefinition demo_context demo_spin = Inr demo_spin" by (rule demo_spin_accepted)
  let ?i = "\<lparr>ci_projectId = ''p'', ci_definitionId = string_or_empty (field_of (Some demo_spin) ''id''),
              ci_version = string_or_empty (field_of (Some demo_spin) ''version''), ci_hash = workflowDefinitionHash [],
              ci_definition = demo_spin, ci_trigger = demo_manual, ci_start = string_or_empty (field_of (Some demo_spin) ''start''),
              ci_steps = map (\<lambda>fs. (string_or_empty (map_of fs ''id''), string_or_empty (map_of fs ''kind''))) (def_steps demo_spin)\<rparr>"
  have acc: "workflowAcceptsTrigger demo_spin demo_manual" by code_simp
  have texts: "validate_text ''p'' 256" "validate_text ''manual'' 128" "validate_text ''gate'' 64" "validate_text ''811c9dc59e3779b9'' 128"
    "validate_id (string_or_empty (field_of (Some demo_spin) ''id''))" "validate_text (string_or_empty (field_of (Some demo_spin) ''version'')) 128"
    by code_simp+
  have start: "string_or_empty (field_of (Some demo_spin) ''start'') = ''a''" by code_simp
  have steps: "map (\<lambda>fs. (string_or_empty (map_of fs ''id''), string_or_empty (map_of fs ''kind''))) (def_steps demo_spin) = [(''a'', ''gate'')]"
    by code_simp
  have ok: "validate_create 0 0 ?i"
    using texts by (simp add: validate_create_def start steps empty_hash demo_manual_def demo_spin_facts(8))
  obtain st r where c: "store_create (now_of dp w) ''r1'' 0 0 ?i (w_store w) = Inr (st, r)"
    and st: "map_of st ''r1'' = Some r" and r: "spinning r"
    using ok by (simp add: store_create_def Let_def map_of_alist_update spinning_def start steps seed_row_def)
  let ?w = "w\<lparr>w_store := st, w_ticks := Suc (w_ticks w)\<rparr>"
  have rid: "rn_id r = ''r1''" "rn_status r = RunRunning" using r by (simp_all add: spinning_def)
  have "continueWorkflow dp worktree ''r1'' ?w = transitions 512 dp worktree ?w r"
    using st rid by (simp add: continueWorkflow_def del: transitions.simps)
  also have "\<dots> = Inl BoundExceeded"
    using r st rid by (intro spinning_forever) (simp_all add: synced_def)
  finally show "startWorkflow dp ''p'' worktree demo_spin [] (\<lambda>d. 0) (\<lambda>t. 0) ''r1'' demo_manual w = Inl BoundExceeded"
    using acc c rid by (simp add: startWorkflow_def commit_def)
qed

definition demo_array_step :: fields where
  "demo_array_step = the (step_named demo_array_kind ''a'')"

text \<open>A step's kind is checked as text, so a list that prints as a kind passes: the validator accepts a step whose kind is
  \<^verbatim>\<open>["git-op"]\<close> and which is granted nothing, and the executor, for which it is none of the four other kinds, runs it as a git operation.\<close>

theorem listed_kind_runs_as_git_op:
  "validateWorkflowDefinition demo_context demo_array_kind = Inr demo_array_kind
   \<and> step_named demo_array_kind ''a'' = Some demo_array_step \<and> map_of demo_array_step ''capabilities'' = Some (JArr [])
   \<and> transitions (Suc n) (dp\<lparr>wd_runGitOp := (\<lambda>ls fs. Inl ''called'')\<rparr>) worktree w (demo_run demo_array_kind) = Inl (DepRejected ''called'')"
proof (intro conjI)
  show "validateWorkflowDefinition demo_context demo_array_kind = Inr demo_array_kind" by (rule demo_array_kind_accepted)
  show s: "step_named demo_array_kind ''a'' = Some demo_array_step" by code_simp
  show "map_of demo_array_step ''capabilities'' = Some (JArr [])" by code_simp
  have "map_of demo_array_step ''kind'' = Some (JArr [JStr ''git-op''])" by code_simp
  then show "transitions (Suc n) (dp\<lparr>wd_runGitOp := (\<lambda>ls fs. Inl ''called'')\<rparr>) worktree w (demo_run demo_array_kind) = Inl (DepRejected ''called'')"
    by (simp add: demo_run_def settled_status_def s Let_def)
qed

section \<open>The executor refines the steps of a run\<close>

lemma run_steps_id: "run_step\<^sup>*\<^sup>* r r' \<Longrightarrow> rn_id r' = rn_id r \<and> rn_definition r' = rn_definition r"
  by (induction rule: rtranclp_induct) (auto elim: run_step.cases)

lemma continue_steps:
  assumes "synced w r" "continueWorkflow dp worktree (rn_id r) w = Inr (w', r', x)"
  shows "run_step\<^sup>*\<^sup>* r r' \<and> synced w' r'"
  using assms transitions_steps [of 512 dp worktree w r w' r' x]
  by (auto simp: continueWorkflow_def synced_def split: if_splits)

lemma advance_continue_steps:
  assumes "synced w r" "(case advance dp w r sid out of Inl e \<Rightarrow> Inl e | Inr (w', r') \<Rightarrow> continueWorkflow dp worktree (rn_id r') w') = Inr (w', r', x)"
  shows "run_step\<^sup>*\<^sup>* r r' \<and> synced w' r'"
proof -
  from assms(2) obtain w1 r1 where a: "advance dp w r sid out = Inr (w1, r1)" and c: "continueWorkflow dp worktree (rn_id r1) w1 = Inr (w', r', x)"
    by (auto split: sum.splits)
  have "run_step r r1 \<and> synced w1 r1" using advance_step [OF a assms(1)] by simp
  then show ?thesis using continue_steps [OF _ c] by (auto intro: converse_rtranclp_into_rtranclp)
qed

text \<open>The executor refines the specification of a run: whichever way a run is taken on, continued, answered by a person or
  woken by an event, what happens to it is a sequence of the steps a run may take (an advance along the edge of its definition
  for the outcome, a recorded attempt or wait, an interruption), and the run it returns is the one the store then holds under
  the same identifier and definition.\<close>

theorem executor_refines_run_steps:
  assumes "synced w r"
    and "continueWorkflow dp worktree (rn_id r) w = Inr (w', r', x) \<or> answerWorkflowHuman dp worktree (rn_id r) response w = Inr (w', r', x)
      \<or> deliverWorkflowEvent dp num projectId worktree (rn_id r) ev w = Some (Inr (w', r', x))"
  shows "run_step\<^sup>*\<^sup>* r r' \<and> map_of (w_store w') (rn_id r) = Some r' \<and> rn_id r' = rn_id r \<and> rn_definition r' = rn_definition r"
proof -
  have s: "map_of (w_store w) (rn_id r) = Some r" using assms(1) by (simp add: synced_def)
  have "run_step\<^sup>*\<^sup>* r r' \<and> synced w' r'"
    using assms(2)
  proof (elim disjE)
    assume "continueWorkflow dp worktree (rn_id r) w = Inr (w', r', x)"
    then show ?thesis by (rule continue_steps [OF assms(1)])
  next
    assume "answerWorkflowHuman dp worktree (rn_id r) response w = Inr (w', r', x)"
    then obtain sid where "(case advance dp w r sid response of Inl e \<Rightarrow> Inl e | Inr (w', r') \<Rightarrow> continueWorkflow dp worktree (rn_id r') w') = Inr (w', r', x)"
      by (auto simp: answerWorkflowHuman_def s split: option.splits if_splits)
    then show ?thesis by (rule advance_continue_steps [OF assms(1)])
  next
    assume "deliverWorkflowEvent dp num projectId worktree (rn_id r) ev w = Some (Inr (w', r', x))"
    then obtain sid where "(case advance dp w r sid ''pass'' of Inl e \<Rightarrow> Inl e | Inr (w', r') \<Rightarrow> continueWorkflow dp worktree (rn_id r') w') = Inr (w', r', x)"
      by (auto simp: deliverWorkflowEvent_def s split: option.splits if_splits)
    then show ?thesis by (rule advance_continue_steps [OF assms(1)])
  qed
  then show ?thesis using run_steps_id by (auto simp: synced_def)
qed

lemma demo_continues:
  "case continueWorkflow demo_deps ''/r'' ''r1'' (demo_world demo_work) of
     Inl e \<Rightarrow> False | Inr (w', r', x) \<Rightarrow> rn_status r' = RunCompleted"
  by code_simp

theorem executor_refines_run_steps_witness:
  "\<exists>r'. run_step\<^sup>*\<^sup>* (demo_run demo_work) r' \<and> rn_status r' = RunCompleted \<and> rn_id r' = ''r1''"
proof -
  have s: "synced (demo_world demo_work) (demo_run demo_work)" unfolding synced_def by (rule demo_stored(1))
  obtain w' r' x where c: "continueWorkflow demo_deps ''/r'' ''r1'' (demo_world demo_work) = Inr (w', r', x)" "rn_status r' = RunCompleted"
    using demo_continues by (auto split: sum.splits prod.splits)
  from executor_refines_run_steps [OF s disjI1 [OF c(1) [folded demo_stored(2) [of demo_work]]]] c(2) show ?thesis
    by (auto simp: demo_stored(2))
qed

end
