(* ===== verification/IoBudget.thy ===== *)
theory IoBudget
  imports Prelude Complex_Main
begin

text \<open>
  Admission control for work that materialises bytes, \<^verbatim>\<open>src/src/ioBudget.ts\<close>: a request waits until the limits on
  concurrent operations and on their bytes, in total and per scope, allow it, and holds a lease until its operation
  settles.

  A request is the identifier of its promise. What the promises were told is the log \<open>ib_answers\<close>; the leases
  handed out and not yet released are \<open>ib_leases\<close>, so the \<^verbatim>\<open>released\<close> flag of a lease is its absence there. An abort
  signal is a number, and \<open>ib_aborted\<close> are those that have fired. Numbers that are not finite are \<open>None\<close>.
\<close>

section \<open>State\<close>

record io_limits =
  maxConcurrent :: int
  maxConcurrentPerScope :: int
  maxActiveBytes :: int
  maxActiveBytesPerScope :: int
  maxQueued :: int
  maxQueuedBytes :: int

record io_request =
  rq_scope :: js_string
  rq_bytes :: "rat option"
  rq_signal :: "nat option"

datatype io_reason = RequestTooLarge | QueueFull | HostCritical

datatype io_answer = Granted | Refused io_reason | Aborted

record scope_use =
  su_active :: int
  su_bytes :: int

record waiter =
  wt_id :: nat
  wt_scope :: js_string
  wt_bytes :: int
  wt_signal :: "nat option"

record io_budget =
  ib_waiting :: "waiter list"
  ib_scopes :: "(js_string \<times> scope_use) list"
  ib_active :: int
  ib_activeBytes :: int
  ib_queuedBytes :: int
  ib_pressure :: int
  ib_leases :: "waiter list"
  ib_answers :: "(nat \<times> io_answer) list"
  ib_aborted :: "nat list"
  ib_next :: nat

definition positive_limit :: "rat option \<Rightarrow> int option" where
  "positive_limit v = (case v of Some r \<Rightarrow> (if r \<le> 0 then None else Some \<lfloor>r\<rfloor>) | None \<Rightarrow> None)"

definition empty_budget :: io_budget where
  "empty_budget = \<lparr>ib_waiting = [], ib_scopes = [], ib_active = 0, ib_activeBytes = 0, ib_queuedBytes = 0, ib_pressure = 0,
     ib_leases = [], ib_answers = [], ib_aborted = [], ib_next = 0\<rparr>"

definition rendererIoBudget :: io_limits where
  "rendererIoBudget = \<lparr>maxConcurrent = 8, maxConcurrentPerScope = 4, maxActiveBytes = 64 * 1024 * 1024,
     maxActiveBytesPerScope = 32 * 1024 * 1024, maxQueued = 96, maxQueuedBytes = 64 * 1024 * 1024\<rparr>"

section \<open>Operations\<close>

definition scope_of :: "io_budget \<Rightarrow> js_string \<Rightarrow> scope_use" where
  "scope_of st s = (case map_of (ib_scopes st) s of Some u \<Rightarrow> u | None \<Rightarrow> \<lparr>su_active = 0, su_bytes = 0\<rparr>)"

definition canAdmit :: "io_limits \<Rightarrow> io_budget \<Rightarrow> js_string \<Rightarrow> int \<Rightarrow> bool" where
  "canAdmit l st scope bytes \<longleftrightarrow>
     ib_active st < maxConcurrent l \<and> ib_activeBytes st + bytes \<le> maxActiveBytes l
     \<and> su_active (scope_of st scope) < maxConcurrentPerScope l
     \<and> su_bytes (scope_of st scope) + bytes \<le> maxActiveBytesPerScope l"

fun take_first :: "('a \<Rightarrow> bool) \<Rightarrow> 'a list \<Rightarrow> ('a \<times> 'a list) option" where
  "take_first P [] = None"
| "take_first P (x # xs) =
     (if P x then Some (x, xs) else case take_first P xs of None \<Rightarrow> None | Some (y, ys) \<Rightarrow> Some (y, x # ys))"

definition answer :: "nat \<Rightarrow> io_answer \<Rightarrow> io_budget \<Rightarrow> io_budget" where
  "answer i a st = st\<lparr>ib_answers := ib_answers st @ [(i, a)]\<rparr>"

definition admit :: "waiter \<Rightarrow> io_budget \<Rightarrow> io_budget" where
  "admit w st =
     (let use = scope_of st (wt_scope w)
      in answer (wt_id w) Granted
        (st\<lparr>ib_active := ib_active st + 1, ib_activeBytes := ib_activeBytes st + wt_bytes w,
            ib_scopes := AList.update (wt_scope w) \<lparr>su_active = su_active use + 1, su_bytes = su_bytes use + wt_bytes w\<rparr> (ib_scopes st),
            ib_leases := ib_leases st @ [w]\<rparr>))"

definition is_aborted :: "io_budget \<Rightarrow> waiter \<Rightarrow> bool" where
  "is_aborted st w = (case wt_signal w of Some s \<Rightarrow> s \<in> set (ib_aborted st) | None \<Rightarrow> False)"

lemma take_first_length: "take_first P xs = Some (y, ys) \<Longrightarrow> length ys < length xs"
  by (induction xs arbitrary: ys) (auto split: if_splits option.splits)

function pump_loop :: "io_limits \<Rightarrow> io_budget \<Rightarrow> io_budget" where
  "pump_loop l st =
     (if ib_active st \<ge> maxConcurrent l then st
      else case take_first (\<lambda>w. canAdmit l st (wt_scope w) (wt_bytes w)) (ib_waiting st) of
        None \<Rightarrow> st
      | Some (w, rest) \<Rightarrow>
          (let st1 = st\<lparr>ib_waiting := rest, ib_queuedBytes := ib_queuedBytes st - wt_bytes w\<rparr>
           in pump_loop l (if is_aborted st1 w then answer (wt_id w) Aborted st1 else admit w st1)))"
  by pat_completeness auto
termination
  by (relation "measure (\<lambda>(l, st). length (ib_waiting st))")
    (auto simp: answer_def admit_def Let_def dest: take_first_length)

declare pump_loop.simps [simp del]

definition pump :: "io_limits \<Rightarrow> io_budget \<Rightarrow> io_budget" where
  "pump l st = (if ib_pressure st \<ge> 2 then st else pump_loop l st)"

definition trunc :: "rat \<Rightarrow> int" where
  "trunc r = (if r < 0 then \<lceil>r\<rceil> else \<lfloor>r\<rfloor>)"

definition setHostPressure :: "io_limits \<Rightarrow> rat option \<Rightarrow> io_budget \<Rightarrow> io_budget" where
  "setHostPressure l level st =
     (let st1 = st\<lparr>ib_pressure := (case level of Some r \<Rightarrow> max 0 (min 2 (trunc r)) | None \<Rightarrow> 2)\<rparr>
      in if ib_pressure st1 < 2 then pump l st1 else st1)"

definition scope_name :: "js_string \<Rightarrow> js_string" where
  "scope_name s = (if js_trim s = [] then js ''unscoped'' else js_trim s)"

definition acquire :: "io_limits \<Rightarrow> io_request \<Rightarrow> io_budget \<Rightarrow> io_budget" where
  "acquire l rq st =
     (let i = ib_next st; st0 = st\<lparr>ib_next := Suc i\<rparr>; scope = scope_name (rq_scope rq) in
      case rq_bytes rq of
        None \<Rightarrow> answer i (Refused RequestTooLarge) st0
      | Some r \<Rightarrow>
          (let bytes = max 0 \<lfloor>r\<rfloor>; canStartNow = canAdmit l st0 scope bytes in
           if r < 0 then answer i (Refused RequestTooLarge) st0
           else if bytes > maxActiveBytes l \<or> bytes > maxActiveBytesPerScope l then answer i (Refused RequestTooLarge) st0
           else if (case rq_signal rq of Some s \<Rightarrow> s \<in> set (ib_aborted st) | None \<Rightarrow> False) then answer i Aborted st0
           else if ib_pressure st \<ge> 2 then answer i (Refused HostCritical) st0
           else if \<not> canStartNow \<and> (int (length (ib_waiting st)) \<ge> maxQueued l \<or> ib_queuedBytes st + bytes > maxQueuedBytes l)
           then answer i (Refused QueueFull) st0
           else pump l (st0\<lparr>ib_waiting := ib_waiting st @ [\<lparr>wt_id = i, wt_scope = scope, wt_bytes = bytes, wt_signal = rq_signal rq\<rparr>],
                            ib_queuedBytes := ib_queuedBytes st + bytes\<rparr>)))"

definition onAbort :: "io_limits \<Rightarrow> nat \<Rightarrow> io_budget \<Rightarrow> io_budget" where
  "onAbort l i st =
     (case take_first (\<lambda>w. wt_id w = i) (ib_waiting st) of
        None \<Rightarrow> st
      | Some (w, rest) \<Rightarrow>
          pump l (answer i Aborted (st\<lparr>ib_waiting := rest, ib_queuedBytes := ib_queuedBytes st - wt_bytes w\<rparr>)))"

text \<open>A signal fires once; it calls its listeners in the order in which they were added.\<close>

definition abort :: "io_limits \<Rightarrow> nat \<Rightarrow> io_budget \<Rightarrow> io_budget" where
  "abort l s st =
     (if s \<in> set (ib_aborted st) then st
      else fold (onAbort l) (map wt_id (filter (\<lambda>w. wt_signal w = Some s) (ib_waiting st)))
             (st\<lparr>ib_aborted := s # ib_aborted st\<rparr>))"

definition release :: "io_limits \<Rightarrow> nat \<Rightarrow> io_budget \<Rightarrow> io_budget" where
  "release l i st =
     (case take_first (\<lambda>w. wt_id w = i) (ib_leases st) of
        None \<Rightarrow> st
      | Some (w, rest) \<Rightarrow>
          pump l (st\<lparr>ib_leases := rest, ib_active := ib_active st - 1, ib_activeBytes := ib_activeBytes st - wt_bytes w,
            ib_scopes := (case map_of (ib_scopes st) (wt_scope w) of
                None \<Rightarrow> ib_scopes st
              | Some u \<Rightarrow> (if su_active u - 1 = 0 then AList.delete (wt_scope w) (ib_scopes st)
                          else AList.update (wt_scope w) \<lparr>su_active = su_active u - 1, su_bytes = su_bytes u - wt_bytes w\<rparr> (ib_scopes st)))\<rparr>))"

text \<open>\<^verbatim>\<open>run\<close>: what its caller gets once the lease is granted, and that the lease is released whatever happens. \<open>before\<close> and
  \<open>after\<close> say whether the signal had fired when the operation would start and when it settled.\<close>

definition run_result :: "bool \<Rightarrow> 'e + 'a \<Rightarrow> bool \<Rightarrow> 'e option + 'a" where
  "run_result before res after =
     (if before then Inl None
      else case res of Inl e \<Rightarrow> Inl (Some e) | Inr v \<Rightarrow> (if after then Inl None else Inr v))"

section \<open>What the budget keeps account of\<close>

lemma take_first_None: "take_first P xs = None \<longleftrightarrow> (\<forall>x\<in>set xs. \<not> P x)"
  by (induction xs) (auto split: option.splits)

lemma take_first_SomeD:
  "take_first P xs = Some (y, ys) \<Longrightarrow> P y \<and> (\<exists>a b. xs = a @ y # b \<and> ys = a @ b \<and> (\<forall>x\<in>set a. \<not> P x))"
proof (induction xs arbitrary: ys)
  case (Cons x xs)
  show ?case
  proof (cases "P x")
    case True
    then show ?thesis using Cons.prems by (intro conjI exI [of _ "[]"] exI [of _ xs]) auto
  next
    case False
    then obtain zs where z: "take_first P xs = Some (y, zs)" "ys = x # zs"
      using Cons.prems by (auto split: option.splits)
    from Cons.IH [OF z(1)] obtain a b where "P y" "xs = a @ y # b" "zs = a @ b" "\<forall>x\<in>set a. \<not> P x" by blast
    then show ?thesis using False z(2) by (intro conjI exI [of _ "x # a"] exI [of _ b]) auto
  qed
qed simp

lemma take_first_Cons_append:
  "\<forall>x\<in>set xs. \<not> P x \<Longrightarrow> P y \<Longrightarrow> take_first P (xs @ [y]) = Some (y, xs)"
  by (induction xs) auto

definition bytes_of :: "waiter list \<Rightarrow> int" where
  "bytes_of ws = sum_list (map wt_bytes ws)"

definition in_scope :: "js_string \<Rightarrow> waiter list \<Rightarrow> waiter list" where
  "in_scope s ws = filter (\<lambda>w. wt_scope w = s) ws"

definition held :: "waiter list \<Rightarrow> js_string \<Rightarrow> scope_use" where
  "held ws s = \<lparr>su_active = int (length (in_scope s ws)), su_bytes = bytes_of (in_scope s ws)\<rparr>"

lemma bytes_of_simps [simp]: "bytes_of [] = 0" "bytes_of (w # ws) = wt_bytes w + bytes_of ws" "bytes_of (a @ b) = bytes_of a + bytes_of b"
  by (simp_all add: bytes_of_def)

lemma in_scope_simps [simp]: "in_scope s [] = []" "in_scope s (w # ws) = (if wt_scope w = s then w # in_scope s ws else in_scope s ws)"
  "in_scope s (a @ b) = in_scope s a @ in_scope s b"
  by (simp_all add: in_scope_def)

lemma bytes_of_nonneg: "\<forall>w\<in>set ws. 0 \<le> wt_bytes w \<Longrightarrow> 0 \<le> bytes_of ws"
  by (induction ws) auto

definition accounted :: "io_budget \<Rightarrow> bool" where
  "accounted st \<longleftrightarrow>
     ib_active st = int (length (ib_leases st)) \<and> ib_activeBytes st = bytes_of (ib_leases st)
     \<and> ib_queuedBytes st = bytes_of (ib_waiting st)
     \<and> distinct (map fst (ib_scopes st))
     \<and> (\<forall>s. map_of (ib_scopes st) s = (if in_scope s (ib_leases st) = [] then None else Some (held (ib_leases st) s)))"

definition in_limits :: "io_limits \<Rightarrow> io_budget \<Rightarrow> bool" where
  "in_limits l st \<longleftrightarrow>
     int (length (ib_leases st)) \<le> maxConcurrent l \<and> bytes_of (ib_leases st) \<le> maxActiveBytes l
     \<and> (\<forall>s. int (length (in_scope s (ib_leases st))) \<le> maxConcurrentPerScope l
            \<and> bytes_of (in_scope s (ib_leases st)) \<le> maxActiveBytesPerScope l)"

text \<open>A request is answered once; until then it waits, and a lease is held only after it was granted.\<close>

definition tracked :: "io_limits \<Rightarrow> io_budget \<Rightarrow> bool" where
  "tracked l st \<longleftrightarrow>
     distinct (map wt_id (ib_waiting st) @ map fst (ib_answers st))
     \<and> set (map wt_id (ib_waiting st) @ map fst (ib_answers st)) = {..<ib_next st}
     \<and> distinct (map wt_id (ib_leases st)) \<and> (\<forall>w\<in>set (ib_leases st). (wt_id w, Granted) \<in> set (ib_answers st))
     \<and> (\<forall>w\<in>set (ib_waiting st @ ib_leases st). 0 \<le> wt_bytes w \<and> wt_bytes w \<le> maxActiveBytes l \<and> wt_bytes w \<le> maxActiveBytesPerScope l)"

definition sound :: "io_limits \<Rightarrow> io_budget \<Rightarrow> bool" where
  "sound l st \<longleftrightarrow> accounted st \<and> in_limits l st \<and> tracked l st"

definition quiet :: "io_limits \<Rightarrow> io_budget \<Rightarrow> bool" where
  "quiet l st \<longleftrightarrow> (\<forall>w\<in>set (ib_waiting st). \<not> canAdmit l st (wt_scope w) (wt_bytes w))"

lemma scope_of_held: "accounted st \<Longrightarrow> scope_of st s = held (ib_leases st) s"
  by (simp add: accounted_def scope_of_def held_def)

lemma canAdmit_held:
  "accounted st \<Longrightarrow> canAdmit l st s b \<longleftrightarrow>
     int (length (ib_leases st)) < maxConcurrent l \<and> bytes_of (ib_leases st) + b \<le> maxActiveBytes l
     \<and> int (length (in_scope s (ib_leases st))) < maxConcurrentPerScope l
     \<and> bytes_of (in_scope s (ib_leases st)) + b \<le> maxActiveBytesPerScope l"
  by (simp add: canAdmit_def scope_of_held) (simp add: accounted_def held_def)

lemma answer_simps [simp]:
  "ib_waiting (answer i a st) = ib_waiting st" "ib_scopes (answer i a st) = ib_scopes st" "ib_active (answer i a st) = ib_active st"
  "ib_activeBytes (answer i a st) = ib_activeBytes st" "ib_queuedBytes (answer i a st) = ib_queuedBytes st"
  "ib_pressure (answer i a st) = ib_pressure st" "ib_leases (answer i a st) = ib_leases st"
  "ib_answers (answer i a st) = ib_answers st @ [(i, a)]" "ib_aborted (answer i a st) = ib_aborted st" "ib_next (answer i a st) = ib_next st"
  by (simp_all add: answer_def)

lemma admit_simps [simp]:
  "ib_waiting (admit w st) = ib_waiting st" "ib_leases (admit w st) = ib_leases st @ [w]"
  "ib_answers (admit w st) = ib_answers st @ [(wt_id w, Granted)]" "ib_aborted (admit w st) = ib_aborted st" "ib_next (admit w st) = ib_next st"
  "ib_pressure (admit w st) = ib_pressure st" "ib_queuedBytes (admit w st) = ib_queuedBytes st"
  "ib_active (admit w st) = ib_active st + 1" "ib_activeBytes (admit w st) = ib_activeBytes st + wt_bytes w"
  by (simp_all add: admit_def Let_def)

text \<open>Taking a waiter out of the queue, to reject it or to admit it.\<close>

definition dequeued :: "waiter \<Rightarrow> waiter list \<Rightarrow> io_budget \<Rightarrow> io_budget" where
  "dequeued w rest st = st\<lparr>ib_waiting := rest, ib_queuedBytes := ib_queuedBytes st - wt_bytes w\<rparr>"

lemma dequeued_simps [simp]:
  "ib_waiting (dequeued w rest st) = rest" "ib_leases (dequeued w rest st) = ib_leases st" "ib_scopes (dequeued w rest st) = ib_scopes st"
  "ib_answers (dequeued w rest st) = ib_answers st" "ib_aborted (dequeued w rest st) = ib_aborted st" "ib_next (dequeued w rest st) = ib_next st"
  "ib_pressure (dequeued w rest st) = ib_pressure st" "ib_active (dequeued w rest st) = ib_active st"
  "ib_activeBytes (dequeued w rest st) = ib_activeBytes st" "ib_queuedBytes (dequeued w rest st) = ib_queuedBytes st - wt_bytes w"
  by (simp_all add: dequeued_def)

lemma sound_rejected:
  assumes "sound l st" "ib_waiting st = a @ w # b"
  shows "sound l (answer (wt_id w) Aborted (dequeued w (a @ b) st))"
  using assms by (auto simp: sound_def accounted_def in_limits_def tracked_def)

lemma accounted_admit:
  assumes "accounted st" "ib_waiting st = a @ w # b"
  shows "accounted (admit w (dequeued w (a @ b) st))"
proof -
  let ?st = "dequeued w (a @ b) st"
  have acc: "accounted (dequeued w (a @ b) st)" using assms by (auto simp: accounted_def)
  have h: "scope_of ?st (wt_scope w) = held (ib_leases st) (wt_scope w)" using scope_of_held [OF acc] by simp
  have s: "ib_scopes (admit w ?st) = AList.update (wt_scope w)
      \<lparr>su_active = su_active (held (ib_leases st) (wt_scope w)) + 1, su_bytes = su_bytes (held (ib_leases st) (wt_scope w)) + wt_bytes w\<rparr> (ib_scopes st)"
    unfolding admit_def Let_def h by simp
  show ?thesis
    using assms unfolding accounted_def s by (auto simp: map_of_alist_update held_def)
qed

lemma sound_admitted:
  assumes "sound l st" "ib_waiting st = a @ w # b" "canAdmit l st (wt_scope w) (wt_bytes w)"
  shows "sound l (admit w (dequeued w (a @ b) st))"
proof -
  have acc: "accounted st" using assms(1) by (simp add: sound_def)
  have fits: "int (length (ib_leases st)) < maxConcurrent l" "bytes_of (ib_leases st) + wt_bytes w \<le> maxActiveBytes l"
    "int (length (in_scope (wt_scope w) (ib_leases st))) < maxConcurrentPerScope l"
    "bytes_of (in_scope (wt_scope w) (ib_leases st)) + wt_bytes w \<le> maxActiveBytesPerScope l"
    using assms(3) by (simp_all add: canAdmit_held [OF acc])
  have "in_limits l (admit w (dequeued w (a @ b) st))"
    unfolding in_limits_def
  proof (intro conjI allI)
    have old: "int (length (in_scope s (ib_leases st))) \<le> maxConcurrentPerScope l"
      "bytes_of (in_scope s (ib_leases st)) \<le> maxActiveBytesPerScope l" for s
      using assms(1) by (simp_all add: sound_def in_limits_def)
    let ?ls = "ib_leases (admit w (dequeued w (a @ b) st))"
    show "int (length ?ls) \<le> maxConcurrent l" "bytes_of ?ls \<le> maxActiveBytes l" using fits(1,2) by simp_all
    show "int (length (in_scope s ?ls)) \<le> maxConcurrentPerScope l" for s
      using old(1) [of s] fits(3) by (cases "wt_scope w = s") auto
    show "bytes_of (in_scope s ?ls) \<le> maxActiveBytesPerScope l" for s
      using old(2) [of s] fits(4) by (cases "wt_scope w = s") auto
  qed
  moreover have "tracked l (admit w (dequeued w (a @ b) st))"
  proof -
    have "wt_id w \<notin> fst ` set (ib_answers st)" using assms(1,2) by (auto simp: sound_def tracked_def)
    moreover have "wt_id ` set (ib_leases st) \<subseteq> fst ` set (ib_answers st)"
      using assms(1) unfolding sound_def tracked_def image_subset_iff by (metis fst_conv image_eqI)
    ultimately have "wt_id w \<notin> wt_id ` set (ib_leases st)" by blast
    then show ?thesis using assms(1,2) by (auto simp: sound_def tracked_def)
  qed
  ultimately show ?thesis using accounted_admit [OF acc assms(2)] by (simp add: sound_def)
qed

lemma pump_loop_step:
  "pump_loop l st =
     (if ib_active st \<ge> maxConcurrent l then st
      else case take_first (\<lambda>w. canAdmit l st (wt_scope w) (wt_bytes w)) (ib_waiting st) of
        None \<Rightarrow> st
      | Some (w, rest) \<Rightarrow> pump_loop l (if is_aborted st w then answer (wt_id w) Aborted (dequeued w rest st) else admit w (dequeued w rest st)))"
  by (subst pump_loop.simps) (simp add: dequeued_def is_aborted_def Let_def split: option.splits prod.splits)

text \<open>What pumping leaves alone.\<close>

definition pumped :: "io_budget \<Rightarrow> io_budget \<Rightarrow> bool" where
  "pumped st st' \<longleftrightarrow>
     set (ib_waiting st') \<subseteq> set (ib_waiting st) \<and> length (ib_waiting st') \<le> length (ib_waiting st)
     \<and> bytes_of (ib_waiting st') \<le> bytes_of (ib_waiting st)
     \<and> length (ib_waiting st') + length (ib_leases st') \<le> length (ib_waiting st) + length (ib_leases st)
     \<and> ib_pressure st' = ib_pressure st \<and> ib_aborted st' = ib_aborted st \<and> ib_next st' = ib_next st"

lemma pumped_refl [simp]: "pumped st st"
  by (simp add: pumped_def)

lemma pumped_trans: "pumped a b \<Longrightarrow> pumped b c \<Longrightarrow> pumped a c"
  unfolding pumped_def by auto

lemma not_quiet_admits: "ib_active st \<ge> maxConcurrent l \<Longrightarrow> quiet l st"
  by (simp add: quiet_def canAdmit_def)

lemma pump_loop_sound:
  "sound l st \<Longrightarrow> sound l (pump_loop l st) \<and> quiet l (pump_loop l st) \<and> pumped st (pump_loop l st)"
proof (induction "length (ib_waiting st)" arbitrary: st rule: less_induct)
  case less
  show ?case
  proof (cases "ib_active st \<ge> maxConcurrent l \<or> take_first (\<lambda>w. canAdmit l st (wt_scope w) (wt_bytes w)) (ib_waiting st) = None")
    case True
    then have "pump_loop l st = st" by (subst pump_loop_step) auto
    moreover have "quiet l st" using True not_quiet_admits by (auto simp: quiet_def take_first_None)
    ultimately show ?thesis using less.prems by simp
  next
    case False
    then obtain w rest where t: "take_first (\<lambda>w. canAdmit l st (wt_scope w) (wt_bytes w)) (ib_waiting st) = Some (w, rest)" by auto
    from take_first_SomeD [OF t] obtain a b where ab: "ib_waiting st = a @ w # b" "rest = a @ b"
      and can: "canAdmit l st (wt_scope w) (wt_bytes w)" by blast
    let ?st = "if is_aborted st w then answer (wt_id w) Aborted (dequeued w rest st) else admit w (dequeued w rest st)"
    have p: "pump_loop l st = pump_loop l ?st" using False t by (subst pump_loop_step) auto
    have s: "sound l ?st"
      using sound_rejected [OF less.prems ab(1)] sound_admitted [OF less.prems ab(1) can] by (simp add: ab(2))
    have "0 \<le> wt_bytes w" using less.prems ab(1) by (simp add: sound_def tracked_def)
    then have q: "pumped st ?st" by (auto simp: pumped_def ab)
    have "length (ib_waiting ?st) < length (ib_waiting st)" by (simp add: ab)
    from less.hyps [OF this s] q show ?thesis unfolding p by (blast intro: pumped_trans)
  qed
qed

lemma pump_sound:
  "sound l st \<Longrightarrow> sound l (pump l st) \<and> (ib_pressure st < 2 \<longrightarrow> quiet l (pump l st)) \<and> pumped st (pump l st)"
  using pump_loop_sound [of l st] by (auto simp: pump_def)

text \<open>A request that can start at once is the only one that can, so it starts and the queue stays as it was.\<close>

lemma canAdmit_mono:
  assumes "accounted st" "\<not> canAdmit l st s b" "0 \<le> wt_bytes w" "ib_waiting st = x @ w # y"
  shows "\<not> canAdmit l (admit w (dequeued w (x @ y) st)) s b"
  using assms(2,3) unfolding canAdmit_held [OF assms(1)] canAdmit_held [OF accounted_admit [OF assms(1,4)]]
  by (cases "wt_scope w = s") auto

lemma pump_starts:
  assumes "sound l (st\<lparr>ib_waiting := ws @ [w], ib_queuedBytes := qb\<rparr>)" "\<forall>x\<in>set ws. \<not> canAdmit l st (wt_scope x) (wt_bytes x)"
    and "canAdmit l st (wt_scope w) (wt_bytes w)" "\<not> is_aborted st w"
  shows "ib_waiting (pump_loop l (st\<lparr>ib_waiting := ws @ [w], ib_queuedBytes := qb\<rparr>)) = ws"
proof -
  let ?st = "st\<lparr>ib_waiting := ws @ [w], ib_queuedBytes := qb\<rparr>"
  have can: "canAdmit l ?st s b = canAdmit l st s b" for s b by (simp add: canAdmit_def scope_of_def)
  have t: "take_first (\<lambda>w. canAdmit l ?st (wt_scope w) (wt_bytes w)) (ib_waiting ?st) = Some (w, ws)"
    unfolding can using assms(2,3) by (simp add: take_first_Cons_append)
  let ?st' = "admit w (dequeued w ws ?st)"
  have "pump_loop l ?st = pump_loop l ?st'"
  proof -
    have "ib_active st < maxConcurrent l" using assms(3) by (simp add: canAdmit_def)
    moreover have "is_aborted ?st w = is_aborted st w" by (cases "wt_signal w") (simp_all add: is_aborted_def)
    ultimately show ?thesis using assms(4) by (subst pump_loop_step) (simp only: t, simp)
  qed
  moreover have "pump_loop l ?st' = ?st'"
  proof -
    have acc: "accounted ?st" "0 \<le> wt_bytes w" using assms(1) by (simp_all add: sound_def tracked_def)
    have "\<not> canAdmit l ?st' (wt_scope x) (wt_bytes x)" if "x \<in> set ws" for x
      using canAdmit_mono [OF acc(1), of l "wt_scope x" "wt_bytes x" w ws "[]"] assms(2) acc(2) that by (simp add: can)
    then have "take_first (\<lambda>w. canAdmit l ?st' (wt_scope w) (wt_bytes w)) (ib_waiting ?st') = None"
      by (simp add: take_first_None)
    then show ?thesis by (subst pump_loop_step) simp
  qed
  ultimately show ?thesis by simp
qed

section \<open>Every operation keeps the account\<close>

definition settled_queue :: "io_limits \<Rightarrow> io_budget \<Rightarrow> bool" where
  "settled_queue l st \<longleftrightarrow>
     sound l st \<and> (ib_pressure st < 2 \<longrightarrow> quiet l st)
     \<and> int (length (ib_waiting st)) \<le> maxQueued l \<and> bytes_of (ib_waiting st) \<le> maxQueuedBytes l"

definition budget_ok :: "io_limits \<Rightarrow> io_budget \<Rightarrow> bool" where
  "budget_ok l st \<longleftrightarrow> settled_queue l st \<and> (\<forall>w\<in>set (ib_waiting st). \<not> is_aborted st w)"

text \<open>Pumping a state whose queue is within its limits settles it.\<close>

lemma pump_settles:
  assumes "sound l st" "int (length (ib_waiting st)) \<le> maxQueued l" "bytes_of (ib_waiting st) \<le> maxQueuedBytes l"
  shows "settled_queue l (pump l st)"
proof -
  note p = pump_sound [OF assms(1)]
  have "ib_pressure (pump l st) = ib_pressure st" using p by (simp add: pumped_def)
  moreover have "int (length (ib_waiting (pump l st))) \<le> maxQueued l" "bytes_of (ib_waiting (pump l st)) \<le> maxQueuedBytes l"
    using p assms(2,3) unfolding pumped_def by linarith+
  ultimately show ?thesis using p by (simp add: settled_queue_def)
qed

lemma still_not_aborted:
  assumes "\<forall>w\<in>set (ib_waiting st). \<not> is_aborted st w" "pumped st st'"
  shows "\<forall>w\<in>set (ib_waiting st'). \<not> is_aborted st' w"
  using assms by (auto simp: pumped_def is_aborted_def split: option.splits)

lemma budget_ok_empty: "0 \<le> maxConcurrent l \<Longrightarrow> 0 \<le> maxConcurrentPerScope l \<Longrightarrow> 0 \<le> maxActiveBytes l \<Longrightarrow> 0 \<le> maxActiveBytesPerScope l
    \<Longrightarrow> 0 \<le> maxQueued l \<Longrightarrow> 0 \<le> maxQueuedBytes l \<Longrightarrow> budget_ok l empty_budget"
  by (simp add: budget_ok_def settled_queue_def sound_def accounted_def in_limits_def tracked_def quiet_def empty_budget_def)

lemma budget_ok_setHostPressure:
  assumes "budget_ok l st" shows "budget_ok l (setHostPressure l level st)"
proof -
  let ?st = "st\<lparr>ib_pressure := (case level of Some r \<Rightarrow> max 0 (min 2 (trunc r)) | None \<Rightarrow> 2)\<rparr>"
  have s: "sound l ?st" "int (length (ib_waiting ?st)) \<le> maxQueued l" "bytes_of (ib_waiting ?st) \<le> maxQueuedBytes l"
    using assms by (simp_all add: budget_ok_def settled_queue_def sound_def accounted_def in_limits_def tracked_def)
  have n: "\<forall>w\<in>set (ib_waiting ?st). \<not> is_aborted ?st w"
    using assms by (auto simp: budget_ok_def is_aborted_def split: option.splits)
  show ?thesis
  proof (cases "ib_pressure ?st < 2")
    case True
    then have "setHostPressure l level st = pump l ?st" by (simp add: setHostPressure_def Let_def)
    moreover have "budget_ok l (pump l ?st)"
      using pump_settles [OF s] still_not_aborted [OF n] pump_sound [OF s(1)] by (simp add: budget_ok_def)
    ultimately show ?thesis by simp
  next
    case False
    then have "setHostPressure l level st = ?st" by (simp add: setHostPressure_def Let_def)
    moreover have "budget_ok l ?st" using False s n by (simp add: budget_ok_def settled_queue_def)
    ultimately show ?thesis by simp
  qed
qed

text \<open>A lease that is given back.\<close>

definition given_back :: "waiter \<Rightarrow> waiter list \<Rightarrow> io_budget \<Rightarrow> io_budget" where
  "given_back w rest st =
     st\<lparr>ib_leases := rest, ib_active := ib_active st - 1, ib_activeBytes := ib_activeBytes st - wt_bytes w,
       ib_scopes := (case map_of (ib_scopes st) (wt_scope w) of
           None \<Rightarrow> ib_scopes st
         | Some u \<Rightarrow> (if su_active u - 1 = 0 then AList.delete (wt_scope w) (ib_scopes st)
                     else AList.update (wt_scope w) \<lparr>su_active = su_active u - 1, su_bytes = su_bytes u - wt_bytes w\<rparr> (ib_scopes st)))\<rparr>"

lemma release_eq:
  "release l i st = (case take_first (\<lambda>w. wt_id w = i) (ib_leases st) of None \<Rightarrow> st | Some (w, rest) \<Rightarrow> pump l (given_back w rest st))"
  by (simp only: release_def given_back_def)

lemma given_back_simps [simp]:
  "ib_waiting (given_back w rest st) = ib_waiting st" "ib_leases (given_back w rest st) = rest"
  "ib_answers (given_back w rest st) = ib_answers st" "ib_aborted (given_back w rest st) = ib_aborted st"
  "ib_next (given_back w rest st) = ib_next st" "ib_pressure (given_back w rest st) = ib_pressure st"
  "ib_queuedBytes (given_back w rest st) = ib_queuedBytes st" "ib_active (given_back w rest st) = ib_active st - 1"
  "ib_activeBytes (given_back w rest st) = ib_activeBytes st - wt_bytes w"
  by (simp_all add: given_back_def)

lemma sound_given_back:
  assumes "sound l st" "ib_leases st = a @ w # b"
  shows "sound l (given_back w (a @ b) st)"
proof -
  have acc: "accounted st" using assms(1) by (simp add: sound_def)
  let ?s = "wt_scope w"
  have m: "map_of (ib_scopes st) ?s = Some (held (ib_leases st) ?s)"
    using acc assms(2) by (simp add: accounted_def)
  have sc: "ib_scopes (given_back w (a @ b) st) =
      (if in_scope ?s (a @ b) = [] then AList.delete ?s (ib_scopes st) else AList.update ?s (held (a @ b) ?s) (ib_scopes st))"
  proof -
    have "int (length (in_scope ?s a)) + int (length (in_scope ?s b)) = 0 \<longleftrightarrow> in_scope ?s a = [] \<and> in_scope ?s b = []"
      by (metis add.right_neutral length_0_conv of_nat_0 of_nat_0_eq_iff of_nat_add add_is_0)
    with m show ?thesis by (simp add: given_back_def held_def assms(2))
  qed
  have "accounted (given_back w (a @ b) st)"
    unfolding accounted_def
  proof (intro conjI allI)
    show "distinct (map fst (ib_scopes (given_back w (a @ b) st)))"
      using acc unfolding sc by (auto simp: accounted_def)
    show "map_of (ib_scopes (given_back w (a @ b) st)) s =
        (if in_scope s (ib_leases (given_back w (a @ b) st)) = [] then None else Some (held (ib_leases (given_back w (a @ b) st)) s))" for s
      using acc assms(2) unfolding sc accounted_def
      by (cases "s = ?s") (auto simp: map_of_alist_update map_of_alist_delete held_def)
  qed (use acc assms(2) in \<open>simp_all add: accounted_def\<close>)
  moreover have "in_limits l (given_back w (a @ b) st)"
  proof -
    have n: "0 \<le> wt_bytes w" using assms by (simp add: sound_def tracked_def)
    have old: "in_limits l st" using assms(1) by (simp add: sound_def)
    have "int (length (in_scope s (a @ b))) \<le> maxConcurrentPerScope l \<and> bytes_of (in_scope s (a @ b)) \<le> maxActiveBytesPerScope l" for s
    proof -
      have "int (length (in_scope s (a @ w # b))) \<le> maxConcurrentPerScope l" "bytes_of (in_scope s (a @ w # b)) \<le> maxActiveBytesPerScope l"
        using old unfolding in_limits_def assms(2) by blast+
      then show ?thesis using n by (cases "?s = s") simp_all
    qed
    then show ?thesis using old n by (simp add: in_limits_def assms(2))
  qed
  moreover have "tracked l (given_back w (a @ b) st)" using assms by (auto simp: sound_def tracked_def)
  ultimately show ?thesis by (simp add: sound_def)
qed

lemma budget_ok_release:
  assumes "budget_ok l st" shows "budget_ok l (release l i st)"
proof (cases "take_first (\<lambda>w. wt_id w = i) (ib_leases st)")
  case None
  then show ?thesis using assms by (simp add: release_eq)
next
  case (Some p)
  then obtain w rest where t: "take_first (\<lambda>w. wt_id w = i) (ib_leases st) = Some (w, rest)" by (cases p) auto
  from take_first_SomeD [OF t] obtain a b where ab: "ib_leases st = a @ w # b" "rest = a @ b" by blast
  have ok: "sound l st" "int (length (ib_waiting st)) \<le> maxQueued l" "bytes_of (ib_waiting st) \<le> maxQueuedBytes l"
    "\<forall>w\<in>set (ib_waiting st). \<not> is_aborted st w"
    using assms by (simp_all add: budget_ok_def settled_queue_def)
  let ?st = "given_back w (a @ b) st"
  have s: "sound l ?st" using sound_given_back [OF ok(1) ab(1)] .
  have n: "\<forall>w\<in>set (ib_waiting ?st). \<not> is_aborted ?st w" using ok(4) by (auto simp: is_aborted_def split: option.splits)
  have "release l i st = pump l ?st" using t ab(2) by (simp add: release_eq)
  moreover have "settled_queue l (pump l ?st)" using pump_settles [OF s] ok(2,3) by simp
  ultimately show ?thesis using still_not_aborted [OF n] pump_sound [OF s] by (simp add: budget_ok_def)
qed

lemma canAdmit_upd [simp]:
  "canAdmit l (st\<lparr>ib_aborted := x\<rparr>) = canAdmit l st" "canAdmit l (st\<lparr>ib_next := k\<rparr>) = canAdmit l st"
  by (intro ext, simp add: canAdmit_def scope_of_def)+

lemma canAdmit_answer [simp]: "canAdmit l (answer i a st) = canAdmit l st"
  by (intro ext) (simp add: canAdmit_def scope_of_def)

lemma onAbort_settles:
  assumes "settled_queue l st"
  shows "settled_queue l (onAbort l i st) \<and> pumped st (onAbort l i st) \<and> i \<notin> wt_id ` set (ib_waiting (onAbort l i st))"
proof (cases "take_first (\<lambda>w. wt_id w = i) (ib_waiting st)")
  case None
  then have "onAbort l i st = st" by (simp add: onAbort_def)
  moreover have "i \<notin> wt_id ` set (ib_waiting st)" using None by (auto simp: take_first_None)
  ultimately show ?thesis using assms by simp
next
  case (Some p)
  then obtain w rest where t: "take_first (\<lambda>w. wt_id w = i) (ib_waiting st) = Some (w, rest)" by (cases p) auto
  from take_first_SomeD [OF t] obtain a b where ab: "ib_waiting st = a @ w # b" "rest = a @ b" and i: "wt_id w = i" by blast
  have ok: "sound l st" "int (length (ib_waiting st)) \<le> maxQueued l" "bytes_of (ib_waiting st) \<le> maxQueuedBytes l"
    using assms by (simp_all add: settled_queue_def)
  have n: "0 \<le> wt_bytes w" and d: "i \<notin> wt_id ` set (a @ b)" using ok(1) ab(1) i by (auto simp: sound_def tracked_def)
  let ?st = "answer i Aborted (dequeued w (a @ b) st)"
  have s: "sound l ?st" using sound_rejected [OF ok(1) ab(1)] i by simp
  have e: "onAbort l i st = pump l ?st" using t ab(2) by (simp add: onAbort_def dequeued_def)
  have q: "pumped st ?st" using n by (auto simp: pumped_def ab(1))
  have "settled_queue l (pump l ?st)" using pump_settles [OF s] ok(2,3) n by (simp add: ab(1))
  moreover have "pumped st (pump l ?st)" using q pump_sound [OF s] by (blast intro: pumped_trans)
  moreover have "set (ib_waiting (pump l ?st)) \<subseteq> set (a @ b)" using pump_sound [OF s] by (simp add: pumped_def)
  ultimately show ?thesis unfolding e using d by blast
qed

lemma fold_onAbort:
  "settled_queue l st \<Longrightarrow> settled_queue l (fold (onAbort l) is st) \<and> pumped st (fold (onAbort l) is st)
     \<and> set is \<inter> wt_id ` set (ib_waiting (fold (onAbort l) is st)) = {}"
proof (induction "is" arbitrary: st)
  case (Cons i "is")
  note a = onAbort_settles [OF Cons.prems, of i]
  note b = Cons.IH [of "onAbort l i st"]
  have "set (ib_waiting (fold (onAbort l) is (onAbort l i st))) \<subseteq> set (ib_waiting (onAbort l i st))"
    using a b by (simp add: pumped_def)
  then show ?case using a b by (auto intro: pumped_trans)
qed simp

lemma budget_ok_abort:
  assumes "budget_ok l st" shows "budget_ok l (abort l s st)"
proof (cases "s \<in> set (ib_aborted st)")
  case False
  let ?st = "st\<lparr>ib_aborted := s # ib_aborted st\<rparr>"
  let ?is = "map wt_id (filter (\<lambda>w. wt_signal w = Some s) (ib_waiting st))"
  have "settled_queue l ?st"
    using assms by (simp add: budget_ok_def settled_queue_def sound_def accounted_def in_limits_def tracked_def quiet_def)
  note f = fold_onAbort [OF this, of ?is]
  let ?st' = "fold (onAbort l) ?is ?st"
  have "\<not> is_aborted ?st' w" if w: "w \<in> set (ib_waiting ?st')" for w
  proof -
    have "ib_aborted ?st' = s # ib_aborted st" "w \<in> set (ib_waiting st)" using f w by (auto simp: pumped_def)
    moreover have "wt_signal w \<noteq> Some s" using f w calculation(2) by fastforce
    moreover have "\<not> is_aborted st w" using assms calculation(2) by (simp add: budget_ok_def)
    ultimately show ?thesis by (auto simp: is_aborted_def split: option.splits)
  qed
  then show ?thesis using f False by (simp add: abort_def budget_ok_def)
qed (simp add: abort_def assms)

lemma budget_ok_answered:
  assumes "budget_ok l st" shows "budget_ok l (answer (ib_next st) a (st\<lparr>ib_next := Suc (ib_next st)\<rparr>))"
proof -
  have e: "set (map wt_id (ib_waiting st) @ map fst (ib_answers st)) = {..<ib_next st}" using assms
    by (simp add: budget_ok_def settled_queue_def sound_def tracked_def)
  then have "ib_next st \<notin> set (map wt_id (ib_waiting st) @ map fst (ib_answers st))" by simp
  with assms e show ?thesis
    by (auto simp: budget_ok_def settled_queue_def sound_def accounted_def in_limits_def tracked_def quiet_def
        is_aborted_def lessThan_Suc split: option.splits)
qed

definition enqueued :: "waiter \<Rightarrow> io_budget \<Rightarrow> io_budget" where
  "enqueued w st = st\<lparr>ib_next := Suc (ib_next st), ib_waiting := ib_waiting st @ [w], ib_queuedBytes := ib_queuedBytes st + wt_bytes w\<rparr>"

lemma sound_enqueued:
  assumes "sound l st" "wt_id w = ib_next st" "0 \<le> wt_bytes w" "wt_bytes w \<le> maxActiveBytes l" "wt_bytes w \<le> maxActiveBytesPerScope l"
  shows "sound l (enqueued w st)"
proof -
  have e: "set (map wt_id (ib_waiting st) @ map fst (ib_answers st)) = {..<ib_next st}" using assms(1)
    by (simp add: sound_def tracked_def)
  then have "ib_next st \<notin> set (map wt_id (ib_waiting st) @ map fst (ib_answers st))" by simp
  with assms e show ?thesis by (auto simp: enqueued_def sound_def accounted_def in_limits_def tracked_def lessThan_Suc)
qed

lemma budget_ok_enqueued:
  assumes "budget_ok l st" "wt_id w = ib_next st" "0 \<le> wt_bytes w" "wt_bytes w \<le> maxActiveBytes l" "wt_bytes w \<le> maxActiveBytesPerScope l"
    and "\<not> is_aborted st w" "ib_pressure st < 2"
    and fits: "canAdmit l st (wt_scope w) (wt_bytes w) \<or> int (length (ib_waiting st)) < maxQueued l \<and> ib_queuedBytes st + wt_bytes w \<le> maxQueuedBytes l"
  shows "budget_ok l (pump l (enqueued w st))"
proof -
  have ok: "sound l st" "quiet l st" "int (length (ib_waiting st)) \<le> maxQueued l" "bytes_of (ib_waiting st) \<le> maxQueuedBytes l"
    "\<forall>w\<in>set (ib_waiting st). \<not> is_aborted st w"
    using assms(1,7) by (simp_all add: budget_ok_def settled_queue_def)
  have s: "sound l (enqueued w st)" using sound_enqueued [OF ok(1) assms(2-5)] .
  have n: "\<forall>v\<in>set (ib_waiting (enqueued w st)). \<not> is_aborted (enqueued w st) v"
    using ok(5) assms(6) by (auto simp: enqueued_def is_aborted_def split: option.splits)
  have "settled_queue l (pump l (enqueued w st))"
  proof (cases "canAdmit l st (wt_scope w) (wt_bytes w)")
    case True
    let ?st0 = "st\<lparr>ib_next := Suc (ib_next st)\<rparr>"
    have e: "enqueued w st = ?st0\<lparr>ib_waiting := ib_waiting st @ [w], ib_queuedBytes := ib_queuedBytes st + wt_bytes w\<rparr>"
      by (simp add: enqueued_def)
    have can: "canAdmit l ?st0 = canAdmit l st" by (intro ext) (simp add: canAdmit_def scope_of_def)
    have na: "\<not> is_aborted ?st0 w" using assms(6) by (cases "wt_signal w") (simp_all add: is_aborted_def)
    have "\<forall>x\<in>set (ib_waiting st). \<not> canAdmit l ?st0 (wt_scope x) (wt_bytes x)" using ok(2) by (simp add: quiet_def can)
    from pump_starts [OF s [unfolded e] this _ na] True
    have "ib_waiting (pump_loop l (enqueued w st)) = ib_waiting st" by (simp add: e can)
    then have "ib_waiting (pump l (enqueued w st)) = ib_waiting st" using assms(7) by (simp add: pump_def enqueued_def)
    moreover have "sound l (pump l (enqueued w st))" "quiet l (pump l (enqueued w st))"
      using pump_sound [OF s] assms(7) by (simp_all add: enqueued_def)
    ultimately show ?thesis using ok(3,4) by (simp add: settled_queue_def)
  next
    case False
    have "ib_queuedBytes st = bytes_of (ib_waiting st)" using ok(1) by (simp add: sound_def accounted_def)
    then show ?thesis using pump_settles [OF s] fits False by (simp add: enqueued_def)
  qed
  then show ?thesis using still_not_aborted [OF n] pump_sound [OF s] by (simp add: budget_ok_def)
qed

lemma acquire_cases:
  obtains a where "acquire l rq st = answer (ib_next st) a (st\<lparr>ib_next := Suc (ib_next st)\<rparr>)" "a \<noteq> Granted"
  | w where "acquire l rq st = pump l (enqueued w st)" "wt_id w = ib_next st" "0 \<le> wt_bytes w" "wt_bytes w \<le> maxActiveBytes l"
      "wt_bytes w \<le> maxActiveBytesPerScope l" "\<not> is_aborted st w" "ib_pressure st < 2"
      "canAdmit l st (wt_scope w) (wt_bytes w) \<or> int (length (ib_waiting st)) < maxQueued l \<and> ib_queuedBytes st + wt_bytes w \<le> maxQueuedBytes l"
proof (cases "rq_bytes rq")
  case None
  then show thesis using that(1) by (simp add: acquire_def Let_def)
next
  case (Some r)
  let ?w = "\<lparr>wt_id = ib_next st, wt_scope = scope_name (rq_scope rq), wt_bytes = max 0 \<lfloor>r\<rfloor>, wt_signal = rq_signal rq\<rparr>"
  have can: "canAdmit l (st\<lparr>ib_next := Suc (ib_next st)\<rparr>) = canAdmit l st" by (intro ext) (simp add: canAdmit_def scope_of_def)
  have ab: "(case rq_signal rq of Some s \<Rightarrow> s \<in> set (ib_aborted st) | None \<Rightarrow> False) = is_aborted st ?w" by (simp add: is_aborted_def)
  have e: "acquire l rq st =
      (if r < 0 \<or> wt_bytes ?w > maxActiveBytes l \<or> wt_bytes ?w > maxActiveBytesPerScope l
       then answer (ib_next st) (Refused RequestTooLarge) (st\<lparr>ib_next := Suc (ib_next st)\<rparr>)
       else if is_aborted st ?w then answer (ib_next st) Aborted (st\<lparr>ib_next := Suc (ib_next st)\<rparr>)
       else if ib_pressure st \<ge> 2 then answer (ib_next st) (Refused HostCritical) (st\<lparr>ib_next := Suc (ib_next st)\<rparr>)
       else if \<not> canAdmit l st (wt_scope ?w) (wt_bytes ?w) \<and> (int (length (ib_waiting st)) \<ge> maxQueued l \<or> ib_queuedBytes st + wt_bytes ?w > maxQueuedBytes l)
       then answer (ib_next st) (Refused QueueFull) (st\<lparr>ib_next := Suc (ib_next st)\<rparr>)
       else pump l (enqueued ?w st))"
    using Some ab by (simp add: acquire_def Let_def can enqueued_def)
  consider (large) "r < 0 \<or> wt_bytes ?w > maxActiveBytes l \<or> wt_bytes ?w > maxActiveBytesPerScope l"
    | (gone) "\<not> (r < 0 \<or> wt_bytes ?w > maxActiveBytes l \<or> wt_bytes ?w > maxActiveBytesPerScope l)" "is_aborted st ?w"
    | (critical) "\<not> (r < 0 \<or> wt_bytes ?w > maxActiveBytes l \<or> wt_bytes ?w > maxActiveBytesPerScope l)" "\<not> is_aborted st ?w" "ib_pressure st \<ge> 2"
    | (full) "\<not> (r < 0 \<or> wt_bytes ?w > maxActiveBytes l \<or> wt_bytes ?w > maxActiveBytesPerScope l)" "\<not> is_aborted st ?w" "\<not> ib_pressure st \<ge> 2"
        "\<not> canAdmit l st (wt_scope ?w) (wt_bytes ?w) \<and> (int (length (ib_waiting st)) \<ge> maxQueued l \<or> ib_queuedBytes st + wt_bytes ?w > maxQueuedBytes l)"
    | (queued) "\<not> (r < 0 \<or> wt_bytes ?w > maxActiveBytes l \<or> wt_bytes ?w > maxActiveBytesPerScope l)" "\<not> is_aborted st ?w" "\<not> ib_pressure st \<ge> 2"
        "\<not> (\<not> canAdmit l st (wt_scope ?w) (wt_bytes ?w) \<and> (int (length (ib_waiting st)) \<ge> maxQueued l \<or> ib_queuedBytes st + wt_bytes ?w > maxQueuedBytes l))"
    by blast
  then show thesis
  proof cases
    case large
    then have "acquire l rq st = answer (ib_next st) (Refused RequestTooLarge) (st\<lparr>ib_next := Suc (ib_next st)\<rparr>)"
      unfolding e by (simp only: if_True)
    then show thesis by (rule that(1)) simp
  next
    case gone
    then have "acquire l rq st = answer (ib_next st) Aborted (st\<lparr>ib_next := Suc (ib_next st)\<rparr>)"
      unfolding e by (simp only: if_True if_False)
    then show thesis by (rule that(1)) simp
  next
    case critical
    then have "acquire l rq st = answer (ib_next st) (Refused HostCritical) (st\<lparr>ib_next := Suc (ib_next st)\<rparr>)"
      unfolding e by (simp only: if_True if_False)
    then show thesis by (rule that(1)) simp
  next
    case full
    then have "acquire l rq st = answer (ib_next st) (Refused QueueFull) (st\<lparr>ib_next := Suc (ib_next st)\<rparr>)"
      unfolding e by (simp only: if_True if_False simp_thms)
    then show thesis by (rule that(1)) simp
  next
    case queued
    then have "acquire l rq st = pump l (enqueued ?w st)" unfolding e by (simp only: if_False)
    then show thesis by (rule that(2)) (use queued in \<open>auto simp: not_le not_less\<close>)
  qed
qed

lemma budget_ok_acquire:
  assumes "budget_ok l st" shows "budget_ok l (acquire l rq st)"
proof (cases rule: acquire_cases [of l rq st])
  case (1 a)
  then show ?thesis using budget_ok_answered [OF assms] by simp
next
  case (2 w)
  then show ?thesis using budget_ok_enqueued [OF assms 2(2-8)] by simp
qed

section \<open>Every history of a budget\<close>

definition make_limits :: "rat option \<Rightarrow> rat option \<Rightarrow> rat option \<Rightarrow> rat option \<Rightarrow> rat option \<Rightarrow> rat option \<Rightarrow> io_limits option" where
  "make_limits a b c d e f =
     (case (positive_limit a, positive_limit b, positive_limit c, positive_limit d, positive_limit e, positive_limit f) of
        (Some a', Some b', Some c', Some d', Some e', Some f') \<Rightarrow>
          Some \<lparr>maxConcurrent = a', maxConcurrentPerScope = b', maxActiveBytes = c', maxActiveBytesPerScope = d', maxQueued = e', maxQueuedBytes = f'\<rparr>
      | _ \<Rightarrow> None)"

inductive io_step :: "io_limits \<Rightarrow> io_budget \<Rightarrow> io_budget \<Rightarrow> bool" for l where
  acquires: "io_step l st (acquire l rq st)"
| aborts: "io_step l st (abort l s st)"
| releases: "io_step l st (release l i st)"
| pressed: "io_step l st (setHostPressure l level st)"

lemma positive_limit_nonneg: "positive_limit v = Some n \<Longrightarrow> 0 \<le> n"
  by (auto simp: positive_limit_def split: option.splits if_splits)

lemma reachable_ok:
  assumes "make_limits a b c d e f = Some l" "(io_step l)\<^sup>*\<^sup>* empty_budget st"
  shows "budget_ok l st"
  using assms(2)
proof induction
  case base
  have "0 \<le> maxConcurrent l \<and> 0 \<le> maxConcurrentPerScope l \<and> 0 \<le> maxActiveBytes l \<and> 0 \<le> maxActiveBytesPerScope l
      \<and> 0 \<le> maxQueued l \<and> 0 \<le> maxQueuedBytes l"
    using assms(1) by (auto simp: make_limits_def dest: positive_limit_nonneg split: option.splits)
  then show ?case by (simp add: budget_ok_empty)
next
  case (step st st')
  from step.hyps(2) step.IH show ?case
    by cases (simp_all add: budget_ok_acquire budget_ok_abort budget_ok_release budget_ok_setHostPressure)
qed

text \<open>C24: Whatever is requested, aborted, released and pressed, a budget keeps its limits: the operations under way and their
  bytes, in total and in each scope, and the queue and its bytes never exceed them, the counters are exactly those of the
  leases handed out, and every request ever made either waits or has got one answer.\<close>

theorem io_budget_within_limits:
  assumes "make_limits a b c d e f = Some l" "(io_step l)\<^sup>*\<^sup>* empty_budget st"
  shows "ib_active st \<le> maxConcurrent l \<and> ib_activeBytes st \<le> maxActiveBytes l
    \<and> su_active (scope_of st s) \<le> maxConcurrentPerScope l \<and> su_bytes (scope_of st s) \<le> maxActiveBytesPerScope l
    \<and> int (length (ib_waiting st)) \<le> maxQueued l \<and> ib_queuedBytes st \<le> maxQueuedBytes l
    \<and> ib_active st = int (length (ib_leases st)) \<and> ib_activeBytes st = bytes_of (ib_leases st) \<and> scope_of st s = held (ib_leases st) s
    \<and> distinct (map wt_id (ib_waiting st) @ map fst (ib_answers st))
    \<and> set (map wt_id (ib_waiting st) @ map fst (ib_answers st)) = {..<ib_next st}"
proof -
  have ok: "budget_ok l st" using assms by (rule reachable_ok)
  then have acc: "accounted st" and lim: "in_limits l st" and tr: "tracked l st"
    and q: "int (length (ib_waiting st)) \<le> maxQueued l" "bytes_of (ib_waiting st) \<le> maxQueuedBytes l"
    by (simp_all add: budget_ok_def settled_queue_def sound_def)
  have h: "scope_of st s = held (ib_leases st) s" using acc by (rule scope_of_held)
  have "su_active (scope_of st s) \<le> maxConcurrentPerScope l" "su_bytes (scope_of st s) \<le> maxActiveBytesPerScope l"
    using lim by (simp_all add: h held_def in_limits_def)
  moreover have "ib_active st \<le> maxConcurrent l" "ib_activeBytes st \<le> maxActiveBytes l" "ib_queuedBytes st \<le> maxQueuedBytes l"
    using acc lim q(2) by (simp_all add: accounted_def in_limits_def)
  moreover have "ib_active st = int (length (ib_leases st))" "ib_activeBytes st = bytes_of (ib_leases st)"
    using acc by (simp_all add: accounted_def)
  moreover have "distinct (map wt_id (ib_waiting st) @ map fst (ib_answers st))"
    "set (map wt_id (ib_waiting st) @ map fst (ib_answers st)) = {..<ib_next st}"
    using tr unfolding tracked_def by blast+
  ultimately show ?thesis using q(1) h by blast
qed

text \<open>A lease in use is given back.\<close>

definition gives_back :: "io_limits \<Rightarrow> io_budget \<Rightarrow> io_budget \<Rightarrow> bool" where
  "gives_back l st st' \<longleftrightarrow> (\<exists>w\<in>set (ib_leases st). st' = release l (wt_id w) st)"

lemma gives_back_shrinks:
  assumes "budget_ok l st" "gives_back l st st'"
  shows "length (ib_waiting st') + length (ib_leases st') < length (ib_waiting st) + length (ib_leases st)
    \<and> ib_pressure st' = ib_pressure st \<and> ib_next st' = ib_next st"
proof -
  obtain v where v: "v \<in> set (ib_leases st)" "st' = release l (wt_id v) st" using assms(2) by (auto simp: gives_back_def)
  then obtain w rest where t: "take_first (\<lambda>w. wt_id w = wt_id v) (ib_leases st) = Some (w, rest)"
    using take_first_None [of "\<lambda>w. wt_id w = wt_id v" "ib_leases st"] by (cases "take_first (\<lambda>w. wt_id w = wt_id v) (ib_leases st)") auto
  from take_first_SomeD [OF t] obtain a b where ab: "ib_leases st = a @ w # b" "rest = a @ b" by blast
  have "sound l (given_back w (a @ b) st)" using assms(1) ab(1) by (simp add: sound_given_back budget_ok_def settled_queue_def)
  from pump_sound [OF this] show ?thesis using v(2) t ab by (simp add: release_eq pumped_def)
qed

lemma gives_back_rounds:
  assumes "budget_ok l st" "(gives_back l ^^ n) st st'"
  shows "budget_ok l st' \<and> n + length (ib_waiting st') + length (ib_leases st') \<le> length (ib_waiting st) + length (ib_leases st)
    \<and> ib_pressure st' = ib_pressure st \<and> ib_next st' = ib_next st"
  using assms(2)
proof (induction n arbitrary: st')
  case (Suc n)
  then obtain m where m: "(gives_back l ^^ n) st m" "gives_back l m st'" by auto
  note i = Suc.IH [OF m(1)]
  have "budget_ok l st'" using i m(2) by (auto simp: gives_back_def budget_ok_release)
  then show ?case using i gives_back_shrinks [OF _ m(2)] by fastforce
qed (use assms(1) in simp)

lemma idle_queue_empty:
  assumes "budget_ok l st" "ib_pressure st < 2" "ib_leases st = []" "1 \<le> maxConcurrent l" "1 \<le> maxConcurrentPerScope l"
  shows "ib_waiting st = []"
proof (rule ccontr)
  assume "ib_waiting st \<noteq> []"
  then obtain w where w: "w \<in> set (ib_waiting st)" by (cases "ib_waiting st") auto
  have "accounted st" "wt_bytes w \<le> maxActiveBytes l" "wt_bytes w \<le> maxActiveBytesPerScope l" "\<not> canAdmit l st (wt_scope w) (wt_bytes w)"
    using assms(1,2) w by (simp_all add: budget_ok_def settled_queue_def sound_def tracked_def quiet_def)
  then show False using assms(3-5) by (simp add: canAdmit_held)
qed


text \<open>The constructor's check lets a limit below one through, as zero.\<close>

lemma fractional_limit_is_zero: "positive_limit (Some (1 / 2)) = Some 0"
  by (simp add: positive_limit_def floor_eq_iff)

section \<open>A concrete budget\<close>

definition demo_limits :: io_limits where
  "demo_limits = \<lparr>maxConcurrent = 1, maxConcurrentPerScope = 1, maxActiveBytes = 4, maxActiveBytesPerScope = 4, maxQueued = 2, maxQueuedBytes = 8\<rparr>"

definition demo_request :: io_request where
  "demo_request = \<lparr>rq_scope = [], rq_bytes = Some 3, rq_signal = None\<rparr>"

definition demo_budget :: io_budget where
  "demo_budget = acquire demo_limits demo_request (acquire demo_limits demo_request empty_budget)"

lemma demo_limits_made: "make_limits (Some 1) (Some 1) (Some 4) (Some 4) (Some 2) (Some 8) = Some demo_limits"
  by (simp add: make_limits_def positive_limit_def demo_limits_def)

lemma demo_budget_reached: "(io_step demo_limits)\<^sup>*\<^sup>* empty_budget demo_budget"
  unfolding demo_budget_def by (rule rtranclp.rtrancl_into_rtrancl [OF r_into_rtranclp]) (rule acquires)+

lemma demo_budget_state:
  "length (ib_waiting demo_budget) = 1" "map wt_id (ib_leases demo_budget) = [0]" "ib_answers demo_budget = [(0, Granted)]"
  "ib_pressure demo_budget = 0"
  by code_simp+

theorem io_budget_within_limits_witness: "ib_active demo_budget = 1 \<and> ib_active demo_budget \<le> maxConcurrent demo_limits \<and> ib_queuedBytes demo_budget \<le> 8"
proof -
  have "length (ib_leases demo_budget) = 1" using demo_budget_state(2) by (cases "ib_leases demo_budget") auto
  then show ?thesis using io_budget_within_limits [OF demo_limits_made demo_budget_reached] by (simp add: demo_limits_def)
qed


end
