(* ===== verification/EditorRetention.thy ===== *)
theory EditorRetention
  imports JsText
begin

text \<open>
  Compaction of editor models, \<^verbatim>\<open>src/src/editorModelRetention.ts\<close>, with \<^verbatim>\<open>modelFor\<close> of \<^verbatim>\<open>src/src/monaco-setup.ts\<close>: the model of a file that
  no view shows is replaced by its text after a while and recreated from it when it is needed again.

  A model is a number into the editor's table of models, with its key (the URI), its text and whether it was disposed.
  \<open>er_held\<close> are the release functions handed out and not yet called. \<open>now\<close> is \<^verbatim>\<open>Date.now()\<close> and \<open>er_timer\<close> the time the timer is
  set to. An operation that disposes a model takes whether that succeeds.
\<close>

section \<open>State\<close>

definition INACTIVE_DELAY_MS :: int where "INACTIVE_DELAY_MS = 60000"
definition MAX_PENDING_MODELS :: nat where "MAX_PENDING_MODELS = 128"
definition MAX_TRACKED_OWNERS :: nat where "MAX_TRACKED_OWNERS = 256"
definition MAX_RETAINED_MODELS :: nat where "MAX_RETAINED_MODELS = 32"
definition MAX_MODEL_BYTES :: nat where "MAX_MODEL_BYTES = 16 * 1024 * 1024"
definition MAX_RETAINED_BYTES :: nat where "MAX_RETAINED_BYTES = 64 * 1024 * 1024"

record text_model =
  tm_key :: string
  tm_text :: js_string
  tm_disposed :: bool

record candidate =
  cd_model :: nat
  cd_eligibleAt :: int

record retained_model =
  rt_text :: js_string
  rt_bytes :: nat

record model_owner =
  ow_key :: string
  ow_model :: nat
  ow_active :: bool
  ow_protected :: bool

record model_lease =
  ml_count :: nat
  ml_model :: "nat option"

datatype held_lease = KeyLease string | OverflowLease

record retention_metrics =
  em_pendingModels :: nat
  em_pendingHighWater :: nat
  em_retainedModels :: nat
  em_retainedBytes :: int
  em_retainedModelsHighWater :: nat
  em_retainedBytesHighWater :: int
  em_scheduled :: nat
  em_cancelled :: nat
  em_compacted :: nat
  em_restored :: nat
  em_forgotten :: nat
  em_protectedSkipped :: nat
  em_pendingRejected :: nat
  em_admissionRejected :: nat
  em_failures :: nat
  em_trackedOwners :: nat
  em_ownerRejected :: nat
  em_activeLeases :: nat
  em_leaseRejected :: nat
  em_overflowLeases :: nat
  em_compactionDisabled :: bool

record editor_state =
  er_models :: "(nat \<times> text_model) list"
  er_candidates :: "(string \<times> candidate) list"
  er_retained :: "(string \<times> retained_model) list"
  er_owners :: "(string \<times> model_owner) list"
  er_leases :: "(string \<times> model_lease) list"
  er_held :: "(nat \<times> held_lease) list"
  er_nextHeld :: nat
  er_timer :: "int option"
  er_retainedBytes :: int
  er_disabled :: bool
  er_overflow :: nat
  er_metrics :: retention_metrics

definition emptyMetrics :: retention_metrics where
  "emptyMetrics = \<lparr>em_pendingModels = 0, em_pendingHighWater = 0, em_retainedModels = 0, em_retainedBytes = 0,
     em_retainedModelsHighWater = 0, em_retainedBytesHighWater = 0, em_scheduled = 0, em_cancelled = 0, em_compacted = 0,
     em_restored = 0, em_forgotten = 0, em_protectedSkipped = 0, em_pendingRejected = 0, em_admissionRejected = 0,
     em_failures = 0, em_trackedOwners = 0, em_ownerRejected = 0, em_activeLeases = 0, em_leaseRejected = 0,
     em_overflowLeases = 0, em_compactionDisabled = False\<rparr>"

definition empty_editor :: editor_state where
  "empty_editor = \<lparr>er_models = [], er_candidates = [], er_retained = [], er_owners = [], er_leases = [], er_held = [],
     er_nextHeld = 0, er_timer = None, er_retainedBytes = 0, er_disabled = False, er_overflow = 0, er_metrics = emptyMetrics\<rparr>"

section \<open>Sizes, gauges and the timer\<close>

definition retainedTextBytes :: "js_string \<Rightarrow> nat" where
  "retainedTextBytes t = max (utf8_bytes t) (length t * 2)"

definition bump :: "(retention_metrics \<Rightarrow> retention_metrics) \<Rightarrow> editor_state \<Rightarrow> editor_state" where
  "bump f st = st\<lparr>er_metrics := f (er_metrics st)\<rparr>"

definition syncGauges :: "editor_state \<Rightarrow> editor_state" where
  "syncGauges st = bump (\<lambda>m. m\<lparr>em_pendingModels := length (er_candidates st), em_retainedModels := length (er_retained st),
       em_retainedBytes := er_retainedBytes st, em_trackedOwners := length (er_owners st), em_activeLeases := length (er_leases st),
       em_overflowLeases := er_overflow st, em_compactionDisabled := er_disabled st,
       em_pendingHighWater := max (em_pendingHighWater m) (length (er_candidates st)),
       em_retainedModelsHighWater := max (em_retainedModelsHighWater m) (length (er_retained st)),
       em_retainedBytesHighWater := max (em_retainedBytesHighWater m) (er_retainedBytes st)\<rparr>) st"

fun next_candidate :: "(string \<times> candidate) option \<Rightarrow> (string \<times> candidate) list \<Rightarrow> (string \<times> candidate) option" where
  "next_candidate best [] = best"
| "next_candidate best (e # es) =
     next_candidate (case best of None \<Rightarrow> Some e | Some b \<Rightarrow> (if cd_eligibleAt (snd e) < cd_eligibleAt (snd b) then Some e else best)) es"

definition nextCandidate :: "editor_state \<Rightarrow> (string \<times> candidate) option" where
  "nextCandidate st = next_candidate None (er_candidates st)"

definition scheduleDrain :: "int \<Rightarrow> editor_state \<Rightarrow> editor_state" where
  "scheduleDrain now st =
     st\<lparr>er_timer := (case nextCandidate st of None \<Rightarrow> None | Some (k, c) \<Rightarrow> Some (now + max 0 (cd_eligibleAt c - now)))\<rparr>"

definition cancelInactiveEditorModel :: "int \<Rightarrow> string \<Rightarrow> editor_state \<Rightarrow> editor_state" where
  "cancelInactiveEditorModel now key st =
     scheduleDrain now (syncGauges
       ((if map_of (er_candidates st) key = None then id else bump (em_cancelled_update Suc))
          (st\<lparr>er_candidates := AList.delete key (er_candidates st)\<rparr>)))"

definition is_disposed :: "editor_state \<Rightarrow> nat \<Rightarrow> bool" where
  "is_disposed st m = (case map_of (er_models st) m of None \<Rightarrow> True | Some tm \<Rightarrow> tm_disposed tm)"

definition dispose :: "nat \<Rightarrow> editor_state \<Rightarrow> editor_state" where
  "dispose m st = st\<lparr>er_models := map (\<lambda>(i, tm). (i, if i = m then tm\<lparr>tm_disposed := True\<rparr> else tm)) (er_models st)\<rparr>"

definition key_of :: "editor_state \<Rightarrow> nat \<Rightarrow> string" where
  "key_of st m = (case map_of (er_models st) m of None \<Rightarrow> [] | Some tm \<Rightarrow> tm_key tm)"

definition text_of_model :: "editor_state \<Rightarrow> nat \<Rightarrow> js_string" where
  "text_of_model st m = (case map_of (er_models st) m of None \<Rightarrow> [] | Some tm \<Rightarrow> tm_text tm)"

section \<open>Candidates\<close>

definition scheduleInactiveEditorModel :: "int \<Rightarrow> nat \<Rightarrow> bool \<Rightarrow> int option \<Rightarrow> editor_state \<Rightarrow> bool \<times> editor_state" where
  "scheduleInactiveEditorModel now m protected delayMs st =
     (let key = key_of st m in
      if er_disabled st \<or> er_overflow st > 0 then (False, st)
      else if (case map_of (er_candidates st) key of Some c \<Rightarrow> cd_model c = m | None \<Rightarrow> False) \<and> \<not> protected then (True, st)
      else
        let st1 = cancelInactiveEditorModel now key st in
        if protected then (False, bump (em_protectedSkipped_update Suc) st1)
        else if length (er_candidates st1) \<ge> MAX_PENDING_MODELS then (False, bump (em_pendingRejected_update Suc) st1)
        else (True, scheduleDrain now (syncGauges (bump (em_scheduled_update Suc)
               (st1\<lparr>er_candidates := AList.update key \<lparr>cd_model = m, cd_eligibleAt = now + (case delayMs of Some d \<Rightarrow> d | None \<Rightarrow> INACTIVE_DELAY_MS)\<rparr>
                      (er_candidates st1)\<rparr>)))))"

definition owners_of :: "editor_state \<Rightarrow> string \<Rightarrow> model_owner list" where
  "owners_of st key = filter (\<lambda>ow. ow_key ow = key) (map snd (er_owners st))"

definition reconcileOwnedKey :: "int \<Rightarrow> string \<Rightarrow> editor_state \<Rightarrow> editor_state" where
  "reconcileOwnedKey now key st =
     (if er_disabled st \<or> er_overflow st > 0 then cancelInactiveEditorModel now key st
      else if (case map_of (er_leases st) key of Some l \<Rightarrow> ml_count l > 0 | None \<Rightarrow> False) then cancelInactiveEditorModel now key st
      else case owners_of st key of
        [] \<Rightarrow> cancelInactiveEditorModel now key st
      | ow # ows \<Rightarrow>
          (if list_ex (\<lambda>w. ow_active w \<or> ow_protected w) (ow # ows) then cancelInactiveEditorModel now key st
           else if is_disposed st (ow_model ow) then st
           else snd (scheduleInactiveEditorModel now (ow_model ow) False None st)))"

text \<open>The timer fires: one model at most is compacted. \<open>ok\<close> is whether its \<^verbatim>\<open>dispose\<close> succeeds.\<close>

definition drainOne :: "int \<Rightarrow> bool \<Rightarrow> editor_state \<Rightarrow> editor_state" where
  "drainOne now ok st =
     (let st0 = st\<lparr>er_timer := None\<rparr> in
      case nextCandidate st0 of
        None \<Rightarrow> st0
      | Some (path, c) \<Rightarrow>
          (if cd_eligibleAt c - now > 0 then scheduleDrain now st0
           else
             let st1 = st0\<lparr>er_candidates := AList.delete path (er_candidates st0)\<rparr> in
             if is_disposed st1 (cd_model c) then scheduleDrain now (syncGauges st1)
             else
               let text = text_of_model st1 (cd_model c); bytes = retainedTextBytes text; previous = map_of (er_retained st1) path;
                   nextBytes = er_retainedBytes st1 - (case previous of Some p \<Rightarrow> int (rt_bytes p) | None \<Rightarrow> 0) + int bytes
               in scheduleDrain now (syncGauges
                    (if bytes > MAX_MODEL_BYTES \<or> previous = None \<and> length (er_retained st1) \<ge> MAX_RETAINED_MODELS
                        \<or> nextBytes > int MAX_RETAINED_BYTES
                     then bump (em_admissionRejected_update Suc) st1
                     else if ok then
                       bump (em_compacted_update Suc) (dispose (cd_model c)
                         (st1\<lparr>er_retained := AList.update path \<lparr>rt_text = text, rt_bytes = bytes\<rparr> (er_retained st1), er_retainedBytes := nextBytes\<rparr>))
                     else bump (em_failures_update Suc) st1))))"

definition shedInactiveEditorModels :: "int \<Rightarrow> editor_state \<Rightarrow> nat \<times> editor_state" where
  "shedInactiveEditorModels now st =
     (if er_disabled st \<or> er_overflow st > 0 then (0, st)
      else let st1 = scheduleDrain now (st\<lparr>er_candidates := map (\<lambda>(k, c). (k, c\<lparr>cd_eligibleAt := now\<rparr>)) (er_candidates st)\<rparr>)
           in (length (er_candidates st1), st1))"

section \<open>Owners and leases\<close>

definition refreshEditorModelInstance :: "int \<Rightarrow> nat \<Rightarrow> editor_state \<Rightarrow> editor_state" where
  "refreshEditorModelInstance now m st =
     (let key = key_of st m;
          hasOwner = (owners_of st key \<noteq> []);
          st1 = st\<lparr>er_owners := map (\<lambda>(i, ow). (i, if ow_key ow = key then ow\<lparr>ow_model := m\<rparr> else ow)) (er_owners st),
                   er_leases := (case map_of (er_leases st) key of None \<Rightarrow> er_leases st
                                 | Some l \<Rightarrow> AList.update key (l\<lparr>ml_model := Some m\<rparr>) (er_leases st))\<rparr>
      in if hasOwner \<or> map_of (er_leases st) key \<noteq> None then reconcileOwnedKey now key st1 else st1)"

text \<open>The identifier returned stands for the release function.\<close>

definition leaseEditorModel :: "int \<Rightarrow> string \<Rightarrow> editor_state \<Rightarrow> nat \<times> editor_state" where
  "leaseEditorModel now key st =
     (let i = er_nextHeld st; st0 = st\<lparr>er_nextHeld := Suc i\<rparr> in
      if map_of (er_leases st) key = None \<and> length (er_leases st) \<ge> MAX_PENDING_MODELS then
        (i, fold (cancelInactiveEditorModel now) (map fst (er_candidates st))
              (bump (em_leaseRejected_update Suc) (st0\<lparr>er_overflow := Suc (er_overflow st), er_held := (i, OverflowLease) # er_held st\<rparr>)))
      else
        (i, syncGauges (cancelInactiveEditorModel now key
              (st0\<lparr>er_leases := AList.update key
                     (case map_of (er_leases st) key of Some l \<Rightarrow> l\<lparr>ml_count := Suc (ml_count l)\<rparr> | None \<Rightarrow> \<lparr>ml_count = 1, ml_model = None\<rparr>)
                     (er_leases st), er_held := (i, KeyLease key) # er_held st\<rparr>))))"

definition releaseKeyLease :: "int \<Rightarrow> string \<Rightarrow> editor_state \<Rightarrow> editor_state" where
  "releaseKeyLease now key st =
     (case map_of (er_leases st) key of
        None \<Rightarrow> st
      | Some l \<Rightarrow>
          (if ml_count l - 1 > 0 then st\<lparr>er_leases := AList.update key (l\<lparr>ml_count := ml_count l - 1\<rparr>) (er_leases st)\<rparr>
           else
             let st1 = st\<lparr>er_leases := AList.delete key (er_leases st)\<rparr> in
             syncGauges
               (if owners_of st1 key \<noteq> [] then reconcileOwnedKey now key st1
                else case ml_model l of
                  None \<Rightarrow> st1
                | Some m \<Rightarrow> (if is_disposed st1 m then st1 else dispose m st1))))"

definition releaseLease :: "int \<Rightarrow> nat \<Rightarrow> editor_state \<Rightarrow> editor_state" where
  "releaseLease now i st =
     (let st0 = st\<lparr>er_held := AList.delete i (er_held st)\<rparr> in
      case map_of (er_held st) i of
        None \<Rightarrow> st
      | Some (KeyLease key) \<Rightarrow> releaseKeyLease now key st0
      | Some OverflowLease \<Rightarrow>
          (let st1 = st0\<lparr>er_overflow := er_overflow st - 1\<rparr>
           in if er_overflow st1 = 0 \<and> \<not> er_disabled st1
              then fold (\<lambda>ow. reconcileOwnedKey now (ow_key ow)) (map snd (er_owners st1)) st1 else st1))"

definition updateEditorModelOwner :: "int \<Rightarrow> string \<Rightarrow> nat \<Rightarrow> bool \<Rightarrow> bool \<Rightarrow> editor_state \<Rightarrow> bool \<times> editor_state" where
  "updateEditorModelOwner now ownerId m active protected st =
     (let previous = map_of (er_owners st) ownerId; key = key_of st m in
      if previous = None \<and> length (er_owners st) \<ge> MAX_TRACKED_OWNERS then
        (False, fold (cancelInactiveEditorModel now) (map fst (er_candidates st))
                  (bump (em_ownerRejected_update Suc) (st\<lparr>er_disabled := True\<rparr>)))
      else
        let st1 = st\<lparr>er_owners := AList.update ownerId \<lparr>ow_key = key, ow_model = m, ow_active = active, ow_protected = protected\<rparr> (er_owners st)\<rparr>;
            st2 = (case previous of Some p \<Rightarrow> (if ow_key p \<noteq> key then reconcileOwnedKey now (ow_key p) st1 else st1) | None \<Rightarrow> st1)
        in (True, syncGauges (reconcileOwnedKey now key st2)))"

definition hasEditorModelOwner :: "editor_state \<Rightarrow> string \<Rightarrow> bool" where
  "hasEditorModelOwner st key \<longleftrightarrow> owners_of st key \<noteq> []"

definition removeEditorModelOwner :: "int \<Rightarrow> string \<Rightarrow> editor_state \<Rightarrow> editor_state" where
  "removeEditorModelOwner now ownerId st =
     (case map_of (er_owners st) ownerId of
        None \<Rightarrow> st
      | Some p \<Rightarrow> syncGauges (reconcileOwnedKey now (ow_key p) (st\<lparr>er_owners := AList.delete ownerId (er_owners st)\<rparr>)))"

text \<open>Dropping the text kept for a key, counted by \<open>f\<close>.\<close>

definition drop_retained :: "(retention_metrics \<Rightarrow> retention_metrics) \<Rightarrow> string \<Rightarrow> editor_state \<Rightarrow> editor_state" where
  "drop_retained f key st =
     (case map_of (er_retained st) key of
        None \<Rightarrow> st
      | Some e \<Rightarrow> bump f (st\<lparr>er_retained := AList.delete key (er_retained st), er_retainedBytes := er_retainedBytes st - int (rt_bytes e)\<rparr>))"

definition closeEditorModelOwner :: "int \<Rightarrow> bool \<Rightarrow> string \<Rightarrow> string \<Rightarrow> nat option \<Rightarrow> editor_state \<Rightarrow> editor_state" where
  "closeEditorModelOwner now ok ownerId key fallback st =
     (let matched = (case map_of (er_owners st) ownerId of Some p \<Rightarrow> (if ow_key p = key then Some p else None) | None \<Rightarrow> None);
          st1 = (if matched = None then st else st\<lparr>er_owners := AList.delete ownerId (er_owners st)\<rparr>);
          st2 = cancelInactiveEditorModel now key st1
      in if owners_of st2 key \<noteq> [] then syncGauges (reconcileOwnedKey now key st2)
         else
           let st3 = drop_retained (em_forgotten_update Suc) key st2;
               live = (case fallback of
                   Some m \<Rightarrow> (if is_disposed st3 m then None else Some m) | None \<Rightarrow> None);
               live' = (case live of Some m \<Rightarrow> Some m
                   | None \<Rightarrow> (case matched of Some p \<Rightarrow> (if is_disposed st3 (ow_model p) then None else Some (ow_model p)) | None \<Rightarrow> None))
           in syncGauges
                (case live' of
                   None \<Rightarrow> st3
                 | Some m \<Rightarrow>
                     (case map_of (er_leases st3) key of
                        Some l \<Rightarrow> st3\<lparr>er_leases := AList.update key (l\<lparr>ml_model := Some m\<rparr>) (er_leases st3)\<rparr>
                      | None \<Rightarrow> (if ok then dispose m st3 else bump (em_failures_update Suc) st3))))"

definition retainedEditorModelText :: "editor_state \<Rightarrow> string \<Rightarrow> js_string option" where
  "retainedEditorModelText st key = map_option rt_text (map_of (er_retained st) key)"

definition acknowledgeEditorModelRestore :: "string \<Rightarrow> editor_state \<Rightarrow> editor_state" where
  "acknowledgeEditorModelRestore key st =
     (if map_of (er_retained st) key = None then st else syncGauges (drop_retained (em_restored_update Suc) key st))"

definition forgetEditorModel :: "int \<Rightarrow> string \<Rightarrow> editor_state \<Rightarrow> editor_state" where
  "forgetEditorModel now key st =
     (let st1 = cancelInactiveEditorModel now key st;
          st2 = st1\<lparr>er_owners := filter (\<lambda>(i, ow). ow_key ow \<noteq> key) (er_owners st1)\<rparr>
      in syncGauges (drop_retained (em_forgotten_update Suc) key st2))"

section \<open>The editor\<close>

definition live_model :: "editor_state \<Rightarrow> string \<Rightarrow> nat option" where
  "live_model st key = map_option fst (find (\<lambda>(i, tm). tm_key tm = key \<and> \<not> tm_disposed tm) (er_models st))"

definition modelFor :: "int \<Rightarrow> string \<Rightarrow> js_string \<Rightarrow> editor_state \<Rightarrow> nat \<times> editor_state" where
  "modelFor now key content st =
     (case live_model st key of
        Some m \<Rightarrow> (m, refreshEditorModelInstance now m st)
      | None \<Rightarrow>
          (let m = length (er_models st); retained = retainedEditorModelText st key;
               st1 = st\<lparr>er_models := (m, \<lparr>tm_key = key, tm_text = (case retained of Some t \<Rightarrow> t | None \<Rightarrow> content), tm_disposed = False\<rparr>) # er_models st\<rparr>;
               st2 = (if retained = None then st1 else acknowledgeEditorModelRestore key st1)
           in (m, refreshEditorModelInstance now m st2)))"

text \<open>The user, or a collaborator, edits a live model.\<close>

definition edit_model :: "nat \<Rightarrow> js_string \<Rightarrow> editor_state \<Rightarrow> editor_state" where
  "edit_model m t st = st\<lparr>er_models := map (\<lambda>(i, tm). (i, if i = m \<and> \<not> tm_disposed tm then tm\<lparr>tm_text := t\<rparr> else tm)) (er_models st)\<rparr>"

end
