(* ===== verification/EditorSafety.thy ===== *)
theory EditorSafety
  imports EditorRetention "HOL-Library.Code_Target_Nat"
begin

text \<open>
  What the compaction of editor models promises: \<open>retention_ok\<close>, the invariant of its tables, and its preservation by every
  operation of \<open>EditorRetention\<close>; then the histories of the editor (\<open>editor_reaches\<close>) and the properties that follow.
\<close>

section \<open>What the bookkeeping leaves alone\<close>

definition same_frame :: "editor_state \<Rightarrow> editor_state \<Rightarrow> bool" where
  "same_frame st st' \<longleftrightarrow>
     er_models st' = er_models st \<and> er_retained st' = er_retained st \<and> er_owners st' = er_owners st \<and> er_leases st' = er_leases st
     \<and> er_held st' = er_held st \<and> er_nextHeld st' = er_nextHeld st \<and> er_retainedBytes st' = er_retainedBytes st
     \<and> er_disabled st' = er_disabled st \<and> er_overflow st' = er_overflow st"

lemma same_frame_refl [simp]: "same_frame st st"
  by (simp add: same_frame_def)

lemma same_frame_trans: "same_frame a b \<Longrightarrow> same_frame b c \<Longrightarrow> same_frame a c"
  by (simp add: same_frame_def)

lemma frame_basic [simp]:
  "same_frame st (bump f st)" "same_frame st (syncGauges st)" "same_frame st (scheduleDrain now st)" "same_frame st (cancelInactiveEditorModel now k st)"
  by (simp_all add: same_frame_def bump_def syncGauges_def scheduleDrain_def cancelInactiveEditorModel_def)

lemma candidates_basic [simp]:
  "er_candidates (bump f st) = er_candidates st" "er_candidates (syncGauges st) = er_candidates st"
  "er_candidates (scheduleDrain now st) = er_candidates st"
  "er_candidates (cancelInactiveEditorModel now k st) = AList.delete k (er_candidates st)"
  by (simp_all add: bump_def syncGauges_def scheduleDrain_def cancelInactiveEditorModel_def)

lemma frame_candidates_update [simp]: "same_frame st (st\<lparr>er_candidates := cs\<rparr>)"
  by (simp add: same_frame_def)

lemma frame_schedule [simp]: "same_frame st (snd (scheduleInactiveEditorModel now m p d st))"
proof -
  let ?c = "cancelInactiveEditorModel now (key_of st m) st"
  have "same_frame st ?c" "same_frame ?c (?c\<lparr>er_candidates := cs\<rparr>)" for cs by simp_all
  then have "same_frame st (?c\<lparr>er_candidates := cs\<rparr>)" for cs by (rule same_frame_trans)
  then show ?thesis
    by (auto simp: scheduleInactiveEditorModel_def Let_def intro: same_frame_trans [OF _ frame_basic(1)] same_frame_trans [OF _ frame_basic(2)]
        same_frame_trans [OF _ frame_basic(3)])
qed

lemma frame_reconcile [simp]: "same_frame st (reconcileOwnedKey now k st)"
  by (simp add: reconcileOwnedKey_def split: list.split)

lemma frame_fold: "(\<And>x st. same_frame st (f x st)) \<Longrightarrow> same_frame st (fold f xs st)"
  by (induction xs arbitrary: st) (auto intro: same_frame_trans)

lemmas frame_simps [simp] =
  frame_basic(1) [unfolded same_frame_def] frame_basic(2) [unfolded same_frame_def] frame_basic(3) [unfolded same_frame_def]
  frame_basic(4) [unfolded same_frame_def] frame_schedule [unfolded same_frame_def] frame_reconcile [unfolded same_frame_def]
  frame_fold [of "cancelInactiveEditorModel now" for now, OF frame_basic(4), unfolded same_frame_def]
  frame_fold [of "\<lambda>ow. reconcileOwnedKey now (ow_key ow)" for now, OF frame_reconcile, unfolded same_frame_def]

section \<open>When a key may be compacted\<close>

definition safe_key :: "editor_state \<Rightarrow> string \<Rightarrow> bool" where
  "safe_key st k \<longleftrightarrow>
     \<not> er_disabled st \<and> er_overflow st = 0 \<and> map_of (er_leases st) k = None
     \<and> owners_of st k \<noteq> [] \<and> (\<forall>ow\<in>set (owners_of st k). \<not> ow_active ow \<and> \<not> ow_protected ow)"

definition cands :: "editor_state \<Rightarrow> string set" where
  "cands st = fst ` set (er_candidates st)"

definition known :: "editor_state \<Rightarrow> nat \<Rightarrow> bool" where
  "known st m \<longleftrightarrow> m \<in> fst ` set (er_models st)"

definition cand_inv :: "editor_state \<Rightarrow> bool" where
  "cand_inv st \<longleftrightarrow>
     distinct (map fst (er_candidates st)) \<and> length (er_candidates st) \<le> MAX_PENDING_MODELS
     \<and> (\<forall>(k, c)\<in>set (er_candidates st). key_of st (cd_model c) = k \<and> known st (cd_model c))"

lemma cand_inv_basic [simp]:
  "cand_inv (bump f st) = cand_inv st" "cand_inv (syncGauges st) = cand_inv st" "cand_inv (scheduleDrain now st) = cand_inv st"
  by (simp_all add: cand_inv_def key_of_def known_def)

text \<open>Models, owners and leases.\<close>

definition tables_inv :: "editor_state \<Rightarrow> bool" where
  "tables_inv st \<longleftrightarrow>
     map fst (er_models st) = rev [0..<length (er_models st)]
     \<and> distinct (map fst (er_owners st)) \<and> length (er_owners st) \<le> MAX_TRACKED_OWNERS
     \<and> (\<forall>(i, ow)\<in>set (er_owners st). key_of st (ow_model ow) = ow_key ow \<and> known st (ow_model ow))
     \<and> distinct (map fst (er_leases st)) \<and> length (er_leases st) \<le> MAX_PENDING_MODELS
     \<and> (\<forall>(k, l)\<in>set (er_leases st). ml_count l \<ge> 1)"

definition retained_inv :: "editor_state \<Rightarrow> bool" where
  "retained_inv st \<longleftrightarrow>
     distinct (map fst (er_retained st)) \<and> length (er_retained st) \<le> MAX_RETAINED_MODELS
     \<and> (\<forall>(k, e)\<in>set (er_retained st). rt_bytes e = retainedTextBytes (rt_text e) \<and> rt_bytes e \<le> MAX_MODEL_BYTES)
     \<and> er_retainedBytes st = (\<Sum>(k, e)\<leftarrow>er_retained st. int (rt_bytes e)) \<and> er_retainedBytes st \<le> int MAX_RETAINED_BYTES"

lemma safe_key_frame: "same_frame st st' \<Longrightarrow> safe_key st' k = safe_key st k"
  by (simp add: same_frame_def safe_key_def owners_of_def)

lemma inv_frame: "same_frame st st' \<Longrightarrow> tables_inv st' = tables_inv st" "same_frame st st' \<Longrightarrow> retained_inv st' = retained_inv st"
  by (simp_all add: same_frame_def tables_inv_def retained_inv_def key_of_def known_def)

lemma key_of_frame: "same_frame st st' \<Longrightarrow> key_of st' m = key_of st m"
  by (simp add: same_frame_def key_of_def)

lemma cancel_cands [simp]: "cands (cancelInactiveEditorModel now k st) = cands st - {k}"
  by (simp add: cands_def)

lemma cancel_cand_inv: "cand_inv st \<Longrightarrow> cand_inv (cancelInactiveEditorModel now k st)"
  using length_alist_delete [of k "er_candidates st"]
  by (auto simp: cand_inv_def set_alist_delete key_of_def known_def intro: order_trans)

lemma schedule_cands:
  assumes "cand_inv st" "known st m"
  shows "cand_inv (snd (scheduleInactiveEditorModel now m p d st))
    \<and> cands (snd (scheduleInactiveEditorModel now m p d st)) \<subseteq> insert (key_of st m) (cands st)"
proof -
  let ?k = "key_of st m"
  let ?c = "cancelInactiveEditorModel now ?k st"
  have c: "cand_inv ?c" using assms(1) by (rule cancel_cand_inv)
  have new: "cand_inv (?c\<lparr>er_candidates := AList.update ?k \<lparr>cd_model = m, cd_eligibleAt = t\<rparr> (er_candidates ?c)\<rparr>)"
    if "length (er_candidates ?c) < MAX_PENDING_MODELS" for t
  proof -
    let ?cs = "AList.update ?k \<lparr>cd_model = m, cd_eligibleAt = t\<rparr> (er_candidates ?c)"
    have "set ?cs \<subseteq> insert (?k, \<lparr>cd_model = m, cd_eligibleAt = t\<rparr>) (set (er_candidates ?c))" by (rule set_alist_update)
    moreover have "length ?cs \<le> MAX_PENDING_MODELS" using that by (simp add: length_alist_update)
    moreover have "key_of (?c\<lparr>er_candidates := ?cs\<rparr>) = key_of st" "known (?c\<lparr>er_candidates := ?cs\<rparr>) = known st"
      "key_of ?c = key_of st" "known ?c = known st"
      by (intro ext, simp add: key_of_def known_def)+
    ultimately show ?thesis using c assms(2) unfolding cand_inv_def by (auto simp: distinct_update)
  qed
  show ?thesis
    using assms c new
    by (auto simp: scheduleInactiveEditorModel_def Let_def cands_def set_alist_delete not_le dest!: subsetD [OF set_alist_update] split: option.splits)
qed

lemma owners_of_set: "ow \<in> set (owners_of st k) \<longleftrightarrow> ow_key ow = k \<and> (\<exists>i. (i, ow) \<in> set (er_owners st))"
  by (force simp: owners_of_def)

lemma reconcile_cands:
  assumes "cand_inv st" "tables_inv st"
  shows "cand_inv (reconcileOwnedKey now k st) \<and> cands (reconcileOwnedKey now k st) \<subseteq> insert k (cands st)
    \<and> (k \<in> cands (reconcileOwnedKey now k st) \<longrightarrow> safe_key st k)"
proof -
  have lease: "map_of (er_leases st) k = None" if "\<not> (case map_of (er_leases st) k of Some l \<Rightarrow> ml_count l > 0 | None \<Rightarrow> False)"
  proof (cases "map_of (er_leases st) k")
    case (Some l)
    then have "(k, l) \<in> set (er_leases st)" by (rule map_of_SomeD)
    then have "ml_count l \<ge> 1" using assms(2) by (auto simp: tables_inv_def)
    then show ?thesis using that Some by simp
  qed
  consider (cancelled) "reconcileOwnedKey now k st = cancelInactiveEditorModel now k st"
    | (kept) ow ows where "safe_key st k" "owners_of st k = ow # ows"
        "reconcileOwnedKey now k st = (if is_disposed st (ow_model ow) then st else snd (scheduleInactiveEditorModel now (ow_model ow) False None st))"
  proof (cases "er_disabled st \<or> er_overflow st > 0 \<or> (case map_of (er_leases st) k of Some l \<Rightarrow> ml_count l > 0 | None \<Rightarrow> False)
      \<or> list_ex (\<lambda>w. ow_active w \<or> ow_protected w) (owners_of st k) \<or> owners_of st k = []")
    case True
    then show thesis by (intro that(1)) (auto simp: reconcileOwnedKey_def split: list.split)
  next
    case False
    then obtain ow ows where o: "owners_of st k = ow # ows" by (cases "owners_of st k") auto
    have "safe_key st k" using False lease by (auto simp: safe_key_def list_ex_iff)
    then show thesis using o False by (intro that(2) [of ow ows]) (auto simp: reconcileOwnedKey_def)
  qed
  then show ?thesis
  proof cases
    case cancelled
    then show ?thesis using cancel_cand_inv [OF assms(1)] by auto
  next
    case (kept ow ows)
    have "ow \<in> set (owners_of st k)" by (simp add: kept(2))
    then have "key_of st (ow_model ow) = k" "known st (ow_model ow)"
      using assms(2) by (auto simp: owners_of_set tables_inv_def)
    then show ?thesis using kept schedule_cands [OF assms(1), of "ow_model ow" now False None] assms(1) by auto
  qed
qed

text \<open>The invariant, up to the keys of \<open>K\<close>, whose candidates an operation still has to reconsider.\<close>

definition ok_but :: "string set \<Rightarrow> editor_state \<Rightarrow> bool" where
  "ok_but K st \<longleftrightarrow> tables_inv st \<and> retained_inv st \<and> cand_inv st \<and> (\<forall>k\<in>cands st - K. safe_key st k)"

abbreviation retention_ok :: "editor_state \<Rightarrow> bool" where
  "retention_ok \<equiv> ok_but {}"

lemma ok_but_mono: "ok_but K st \<Longrightarrow> K \<subseteq> L \<Longrightarrow> ok_but L st"
  by (auto simp: ok_but_def)

lemma ok_but_basic [simp]: "ok_but K (bump f st) = ok_but K st" "ok_but K (syncGauges st) = ok_but K st" "ok_but K (scheduleDrain now st) = ok_but K st"
  by (simp_all add: ok_but_def cands_def inv_frame [OF frame_basic(1)] inv_frame [OF frame_basic(2)] inv_frame [OF frame_basic(3)]
      safe_key_frame [OF frame_basic(1)] safe_key_frame [OF frame_basic(2)] safe_key_frame [OF frame_basic(3)])

lemma ok_but_cancel: "ok_but (insert k K) st \<Longrightarrow> ok_but K (cancelInactiveEditorModel now k st)"
  using cancel_cand_inv by (auto simp: ok_but_def inv_frame [OF frame_basic(4)] safe_key_frame [OF frame_basic(4)])

lemma ok_but_reconcile: "ok_but (insert k K) st \<Longrightarrow> ok_but K (reconcileOwnedKey now k st)"
  using reconcile_cands [of st now k]
  by (auto simp: ok_but_def inv_frame [OF frame_reconcile] safe_key_frame [OF frame_reconcile])

lemma ok_but_fold_cancel: "ok_but (set ks \<union> K) st \<Longrightarrow> ok_but K (fold (cancelInactiveEditorModel now) ks st)"
proof (induction ks arbitrary: st)
  case (Cons k ks)
  have "ok_but (set ks \<union> K) (cancelInactiveEditorModel now k st)" using Cons.prems by (intro ok_but_cancel) simp
  then show ?case using Cons.IH by simp
qed simp

lemma ok_but_fold_reconcile: "ok_but K st \<Longrightarrow> ok_but K (fold (\<lambda>ow. reconcileOwnedKey now (ow_key ow)) ows st)"
proof (induction ows arbitrary: st)
  case (Cons ow ows)
  have "ok_but K (reconcileOwnedKey now (ow_key ow) st)" using Cons.prems by (intro ok_but_reconcile) (auto intro: ok_but_mono)
  then show ?case using Cons.IH by simp
qed simp

text \<open>A change of the tables that leaves the keys outside \<open>K\<close> as safe as they were.\<close>

lemma ok_but_change:
  assumes "retention_ok st" "tables_inv st'" "retained_inv st'" "er_candidates st' = er_candidates st"
    and "\<And>m. known st m \<Longrightarrow> key_of st' m = key_of st m \<and> known st' m"
    and "\<And>k. k \<notin> K \<Longrightarrow> safe_key st k \<Longrightarrow> safe_key st' k"
  shows "ok_but K st'"
proof -
  have "cand_inv st'" using assms(1,4,5) by (fastforce simp: ok_but_def cand_inv_def)
  then show ?thesis using assms by (auto simp: ok_but_def cands_def)
qed

section \<open>Every operation keeps the invariant\<close>

lemma sum_list_update:
  "distinct (map fst xs) \<Longrightarrow> (\<Sum>(k, e)\<leftarrow>AList.update k v xs. f e)
     = (\<Sum>(k, e)\<leftarrow>xs. f e) - (case map_of xs k of Some p \<Rightarrow> f p | None \<Rightarrow> 0) + (f v :: int)"
proof (induction xs)
  case (Cons a xs)
  obtain q e where a: "a = (q, e)" by (cases a)
  show ?case using Cons by (cases "q = k") (auto simp: a)
qed simp

lemma sum_list_delete:
  "distinct (map fst xs) \<Longrightarrow> (\<Sum>(k, e)\<leftarrow>AList.delete k xs. f e)
     = (\<Sum>(k, e)\<leftarrow>xs. f e) - (case map_of xs k of Some p \<Rightarrow> f p | None \<Rightarrow> (0 :: int))"
proof (induction xs)
  case (Cons a xs)
  obtain q e where a: "a = (q, e)" by (cases a)
  show ?case
  proof (cases "q = k")
    case True
    have "map_of xs k = None" using Cons.prems True by (simp add: a map_of_eq_None_iff)
    then show ?thesis using True by (simp add: a delete_absent)
  qed (use Cons in \<open>simp add: a\<close>)
qed simp

lemma retained_inv_drop: "retained_inv st \<Longrightarrow> retained_inv (drop_retained f k st)"
proof (cases "map_of (er_retained st) k")
  case (Some e)
  assume i: "retained_inv st"
  have d: "distinct (map fst (er_retained st))" using i by (simp add: retained_inv_def)
  have "length (AList.delete k (er_retained st)) \<le> MAX_RETAINED_MODELS"
    using i length_alist_delete [of k "er_retained st"] by (simp add: retained_inv_def)
  then show ?thesis
    using i sum_list_delete [OF d, of "\<lambda>e. int (rt_bytes e)" k] Some
    by (auto simp: drop_retained_def retained_inv_def bump_def set_alist_delete)
qed (simp add: drop_retained_def)

lemma drop_simps [simp]:
  "er_models (drop_retained f k st) = er_models st" "er_candidates (drop_retained f k st) = er_candidates st"
  "er_owners (drop_retained f k st) = er_owners st" "er_leases (drop_retained f k st) = er_leases st"
  "er_disabled (drop_retained f k st) = er_disabled st" "er_overflow (drop_retained f k st) = er_overflow st"
  by (simp_all add: drop_retained_def bump_def split: option.splits)

lemma ok_but_drop: "ok_but K st \<Longrightarrow> ok_but K (drop_retained f k st)"
  using retained_inv_drop [of st f k] by (auto simp: ok_but_def tables_inv_def cand_inv_def key_of_def known_def cands_def safe_key_def owners_of_def)

lemma dispose_simps [simp]:
  "er_candidates (dispose m st) = er_candidates st" "er_retained (dispose m st) = er_retained st" "er_owners (dispose m st) = er_owners st"
  "er_leases (dispose m st) = er_leases st" "er_disabled (dispose m st) = er_disabled st" "er_overflow (dispose m st) = er_overflow st"
  "er_retainedBytes (dispose m st) = er_retainedBytes st" "map fst (er_models (dispose m st)) = map fst (er_models st)"
  "length (er_models (dispose m st)) = length (er_models st)"
  by (simp_all add: dispose_def case_prod_beta comp_def)

lemma map_of_dispose: "map_of (er_models (dispose m st)) i
    = map_option (\<lambda>tm. if i = m then tm\<lparr>tm_disposed := True\<rparr> else tm) (map_of (er_models st) i)"
proof -
  have "map_of (map (\<lambda>(i, tm). (i, if i = m then tm\<lparr>tm_disposed := True\<rparr> else tm)) xs) i
      = map_option (\<lambda>tm. if i = m then tm\<lparr>tm_disposed := True\<rparr> else tm) (map_of xs i)" for xs
    by (induction xs) auto
  then show ?thesis by (simp add: dispose_def)
qed

lemma key_of_dispose [simp]: "key_of (dispose m st) i = key_of st i"
  by (simp add: key_of_def map_of_dispose split: option.split)

lemma known_dispose [simp]: "known (dispose m st) i = known st i"
  by (metis dispose_simps(8) known_def list.set_map)

lemma ok_but_dispose: "ok_but K st \<Longrightarrow> ok_but K (dispose m st)"
  by (auto simp: ok_but_def tables_inv_def retained_inv_def cand_inv_def cands_def safe_key_def owners_of_def)

lemma next_candidate_mem: "next_candidate best es = Some e \<Longrightarrow> best = Some e \<or> e \<in> set es"
  by (induction best es rule: next_candidate.induct) (auto split: option.splits if_splits)

lemma nextCandidate_mem: "nextCandidate st = Some (k, c) \<Longrightarrow> (k, c) \<in> set (er_candidates st)"
  using next_candidate_mem [of None] by (auto simp: nextCandidate_def)

lemma ok_but_timer [simp]: "ok_but K (st\<lparr>er_timer := t\<rparr>) = ok_but K st"
  by (simp add: ok_but_def tables_inv_def retained_inv_def cand_inv_def cands_def safe_key_def owners_of_def key_of_def known_def)

lemma ok_but_held [simp]: "ok_but K (st\<lparr>er_held := h\<rparr>) = ok_but K st" "ok_but K (st\<lparr>er_nextHeld := n\<rparr>) = ok_but K st"
  by (simp_all add: ok_but_def tables_inv_def retained_inv_def cand_inv_def cands_def safe_key_def owners_of_def key_of_def known_def)

lemma ok_but_delete: "ok_but (insert k K) st \<Longrightarrow> ok_but K (st\<lparr>er_candidates := AList.delete k (er_candidates st)\<rparr>)"
  using ok_but_cancel [of k K st 0] by (simp add: cancelInactiveEditorModel_def split: if_splits)

lemma ok_but_retain:
  assumes "ok_but K st" "bytes = retainedTextBytes t" "bytes \<le> MAX_MODEL_BYTES"
    and "map_of (er_retained st) k \<noteq> None \<or> length (er_retained st) < MAX_RETAINED_MODELS"
    and "nb = er_retainedBytes st - (case map_of (er_retained st) k of Some p \<Rightarrow> int (rt_bytes p) | None \<Rightarrow> 0) + int bytes" "nb \<le> int MAX_RETAINED_BYTES"
  shows "ok_but K (st\<lparr>er_retained := AList.update k \<lparr>rt_text = t, rt_bytes = bytes\<rparr> (er_retained st), er_retainedBytes := nb\<rparr>)"
proof -
  let ?r = "AList.update k \<lparr>rt_text = t, rt_bytes = bytes\<rparr> (er_retained st)"
  have d: "distinct (map fst (er_retained st))" using assms(1) by (simp add: ok_but_def retained_inv_def)
  have "length ?r \<le> MAX_RETAINED_MODELS"
    using assms(1,4) unfolding length_alist_update by (auto simp: ok_but_def retained_inv_def map_of_eq_None_iff)
  moreover have "rt_bytes e = retainedTextBytes (rt_text e) \<and> rt_bytes e \<le> MAX_MODEL_BYTES" if "(q, e) \<in> set ?r" for q e
    using subsetD [OF set_alist_update that] assms(1-3) by (auto simp: ok_but_def retained_inv_def)
  moreover have "distinct (map fst ?r)" using d by (rule distinct_update)
  moreover have "(\<Sum>(k, e)\<leftarrow>?r. int (rt_bytes e)) = nb"
    using assms(1,5) sum_list_update [OF d, of "\<lambda>e. int (rt_bytes e)" k "\<lparr>rt_text = t, rt_bytes = bytes\<rparr>"]
    by (simp add: ok_but_def retained_inv_def)
  ultimately have "retained_inv (st\<lparr>er_retained := ?r, er_retainedBytes := nb\<rparr>)"
    using assms(6) by (auto simp: retained_inv_def)
  then show ?thesis using assms(1) by (simp add: ok_but_def tables_inv_def cand_inv_def cands_def safe_key_def owners_of_def key_of_def known_def)
qed

lemma drainOne_cases:
  obtains (idle) "drainOne now ok st = st\<lparr>er_timer := None\<rparr>"
  | (early) "drainOne now ok st = scheduleDrain now (st\<lparr>er_timer := None\<rparr>)"
  | (dropped) f path c where "nextCandidate st = Some (path, c)" "f = id \<or> f = em_admissionRejected_update Suc \<or> f = em_failures_update Suc"
      "drainOne now ok st = scheduleDrain now (syncGauges (bump f (st\<lparr>er_timer := None, er_candidates := AList.delete path (er_candidates st)\<rparr>)))"
  | (compacted) path c bytes nb where "nextCandidate st = Some (path, c)" "ok" "\<not> is_disposed st (cd_model c)" "cd_eligibleAt c \<le> now"
      "bytes = retainedTextBytes (text_of_model st (cd_model c))" "bytes \<le> MAX_MODEL_BYTES"
      "map_of (er_retained st) path \<noteq> None \<or> length (er_retained st) < MAX_RETAINED_MODELS"
      "nb = er_retainedBytes st - (case map_of (er_retained st) path of Some p \<Rightarrow> int (rt_bytes p) | None \<Rightarrow> 0) + int bytes" "nb \<le> int MAX_RETAINED_BYTES"
      "drainOne now ok st = scheduleDrain now (syncGauges (bump (em_compacted_update Suc) (dispose (cd_model c)
         (st\<lparr>er_timer := None, er_candidates := AList.delete path (er_candidates st),
            er_retained := AList.update path \<lparr>rt_text = text_of_model st (cd_model c), rt_bytes = bytes\<rparr> (er_retained st), er_retainedBytes := nb\<rparr>))))"
proof (cases "nextCandidate st")
  case None
  then show thesis by (intro that(1)) (simp add: drainOne_def nextCandidate_def Let_def)
next
  case (Some p)
  obtain path c where p: "nextCandidate st = Some (path, c)" using Some by (cases p) auto
  have p0: "nextCandidate (st\<lparr>er_timer := None\<rparr>) = Some (path, c)" using p by (simp add: nextCandidate_def)
  let ?st1 = "st\<lparr>er_timer := None, er_candidates := AList.delete path (er_candidates st)\<rparr>"
  have same: "is_disposed ?st1 m = is_disposed st m" "text_of_model ?st1 m = text_of_model st m" for m
    by (simp_all add: is_disposed_def text_of_model_def)
  have id: "bump id ?st1 = ?st1" by (simp add: bump_def)
  let ?bytes = "retainedTextBytes (text_of_model st (cd_model c))"
  let ?nb = "er_retainedBytes st - (case map_of (er_retained st) path of Some p \<Rightarrow> int (rt_bytes p) | None \<Rightarrow> 0) + int ?bytes"
  consider "cd_eligibleAt c - now > 0" | "cd_eligibleAt c \<le> now" "is_disposed st (cd_model c)"
    | "cd_eligibleAt c \<le> now" "\<not> is_disposed st (cd_model c)"
      "?bytes > MAX_MODEL_BYTES \<or> map_of (er_retained st) path = None \<and> length (er_retained st) \<ge> MAX_RETAINED_MODELS \<or> ?nb > int MAX_RETAINED_BYTES"
    | "cd_eligibleAt c \<le> now" "\<not> is_disposed st (cd_model c)"
      "\<not> (?bytes > MAX_MODEL_BYTES \<or> map_of (er_retained st) path = None \<and> length (er_retained st) \<ge> MAX_RETAINED_MODELS \<or> ?nb > int MAX_RETAINED_BYTES)"
    by linarith
  then show thesis
  proof cases
    case 1
    then show ?thesis by (intro that(2)) (simp add: drainOne_def Let_def p0)
  next
    case 2
    then show ?thesis using that(3) [OF p, of id] by (simp add: drainOne_def Let_def p0 same id)
  next
    case 3
    show ?thesis
      by (rule that(3) [OF p, of "em_admissionRejected_update Suc"]) (use 3 in \<open>simp_all add: drainOne_def Let_def p0 same\<close>)
  next
    case 4
    show ?thesis
    proof (cases ok)
      case True
      have bounds: "?bytes \<le> MAX_MODEL_BYTES" "?nb \<le> int MAX_RETAINED_BYTES"
        "map_of (er_retained st) path \<noteq> None \<or> length (er_retained st) < MAX_RETAINED_MODELS" using 4(3) by linarith+
      show ?thesis
        by (rule that(4) [OF p True 4(2,1) refl bounds(1,3) refl bounds(2)]) (use 4 True in \<open>auto simp: drainOne_def Let_def p0 same\<close>)
    next
      case False
      show ?thesis
        by (rule that(3) [OF p, of "em_failures_update Suc"]) (use 4 False in \<open>auto simp: drainOne_def Let_def p0 same\<close>)
    qed
  qed
qed

lemma ok_drainOne:
  assumes "retention_ok st" shows "retention_ok (drainOne now ok st)"
proof (cases rule: drainOne_cases [of now ok st])
  case (dropped f path c)
  have "ok_but {path} (st\<lparr>er_timer := None\<rparr>)" using ok_but_mono [OF assms, of "{path}"] by simp
  then show ?thesis unfolding dropped(3) using ok_but_delete [of path "{}" "st\<lparr>er_timer := None\<rparr>"] by simp
next
  case (compacted path c bytes nb)
  let ?st1 = "st\<lparr>er_timer := None, er_candidates := AList.delete path (er_candidates st)\<rparr>"
  have "ok_but {path} (st\<lparr>er_timer := None\<rparr>)" using ok_but_mono [OF assms, of "{path}"] by simp
  then have "retention_ok ?st1" using ok_but_delete [of path "{}" "st\<lparr>er_timer := None\<rparr>"] by simp
  from ok_but_retain [OF this compacted(5,6), of path nb] compacted(7,8,9)
  have "retention_ok (?st1\<lparr>er_retained := AList.update path \<lparr>rt_text = text_of_model st (cd_model c), rt_bytes = bytes\<rparr> (er_retained ?st1), er_retainedBytes := nb\<rparr>)"
    by simp
  from ok_but_dispose [OF this, of "cd_model c"] show ?thesis unfolding compacted(10) by simp
qed (use assms in simp_all)

lemma ok_shed: "retention_ok st \<Longrightarrow> retention_ok (snd (shedInactiveEditorModels now st))"
proof -
  assume ok: "retention_ok st"
  let ?cs = "map (\<lambda>(k, c). (k, c\<lparr>cd_eligibleAt := now\<rparr>)) (er_candidates st)"
  have k: "map fst ?cs = map fst (er_candidates st)" by (simp add: case_prod_beta comp_def)
  have "fst ` set ?cs = fst ` set (er_candidates st)" by force
  then have "cands (st\<lparr>er_candidates := ?cs\<rparr>) = cands st" by (simp add: cands_def)
  moreover have "cand_inv (st\<lparr>er_candidates := ?cs\<rparr>)"
  proof -
    have "key_of (st\<lparr>er_candidates := ?cs\<rparr>) = key_of st" "known (st\<lparr>er_candidates := ?cs\<rparr>) = known st"
      by (intro ext, simp add: key_of_def known_def)+
    moreover have "distinct (map fst ?cs)" using ok unfolding k by (simp add: ok_but_def cand_inv_def)
    ultimately show ?thesis using ok by (auto simp: ok_but_def cand_inv_def)
  qed
  ultimately have "retention_ok (st\<lparr>er_candidates := ?cs\<rparr>)"
    using ok by (simp add: ok_but_def inv_frame [OF frame_candidates_update] safe_key_frame [OF frame_candidates_update])
  then show ?thesis using ok by (simp add: shedInactiveEditorModels_def Let_def)
qed

text \<open>Any change of owners, leases, the disabling flag and the overflow count.\<close>

lemma ok_but_tables:
  assumes "retention_ok st" "tables_inv st'" "er_models st' = er_models st" "er_retained st' = er_retained st"
    and "er_retainedBytes st' = er_retainedBytes st" "er_candidates st' = er_candidates st"
    and "\<And>k. k \<notin> K \<Longrightarrow> safe_key st k \<Longrightarrow> safe_key st' k"
  shows "ok_but K st'"
proof (rule ok_but_change [OF assms(1,2)])
  show "retained_inv st'" using assms(1,4,5) by (simp add: ok_but_def retained_inv_def)
  show "key_of st' m = key_of st m \<and> known st' m" if "known st m" for m using that assms(3) by (simp add: key_of_def known_def)
qed (use assms(6,7) in simp_all)

lemma tables_same: "tables_inv st \<Longrightarrow> er_models st' = er_models st \<Longrightarrow> er_owners st' = er_owners st \<Longrightarrow> er_leases st' = er_leases st \<Longrightarrow> tables_inv st'"
  by (simp add: tables_inv_def key_of_def known_def)

lemma tables_owners:
  assumes "tables_inv st" "er_models st' = er_models st" "er_leases st' = er_leases st" "distinct (map fst (er_owners st'))"
    and "length (er_owners st') \<le> MAX_TRACKED_OWNERS"
    and "\<And>i ow. (i, ow) \<in> set (er_owners st') \<Longrightarrow> key_of st (ow_model ow) = ow_key ow \<and> known st (ow_model ow)"
  shows "tables_inv st'"
  using assms by (auto simp: tables_inv_def key_of_def known_def)

lemma tables_leases:
  assumes "tables_inv st" "er_models st' = er_models st" "er_owners st' = er_owners st" "distinct (map fst (er_leases st'))"
    and "length (er_leases st') \<le> MAX_PENDING_MODELS" "\<And>k l. (k, l) \<in> set (er_leases st') \<Longrightarrow> ml_count l \<ge> 1"
  shows "tables_inv st'"
  using assms by (auto simp: tables_inv_def key_of_def known_def)

lemma lease_pos: "tables_inv st \<Longrightarrow> map_of (er_leases st) k = Some l \<Longrightarrow> ml_count l \<ge> 1"
  by (drule map_of_SomeD) (auto simp: tables_inv_def)

lemma tables_lease_update:
  assumes "tables_inv st" "er_models st' = er_models st" "er_owners st' = er_owners st"
    and "er_leases st' = AList.update k l (er_leases st)" "ml_count l \<ge> 1" "map_of (er_leases st) k \<noteq> None \<or> length (er_leases st) < MAX_PENDING_MODELS"
  shows "tables_inv st'"
proof (rule tables_leases [OF assms(1-3)])
  show "distinct (map fst (er_leases st'))" using assms(1,4) by (simp add: tables_inv_def distinct_update)
  show "length (er_leases st') \<le> MAX_PENDING_MODELS"
    using assms(1,6) unfolding assms(4) length_alist_update by (auto simp: tables_inv_def map_of_eq_None_iff)
  show "ml_count l' \<ge> 1" if "(k', l') \<in> set (er_leases st')" for k' l'
    using subsetD [OF set_alist_update that [unfolded assms(4)]] assms(1,5) by (auto simp: tables_inv_def)
qed

lemma ok_refresh:
  assumes "retention_ok st" "known st m" shows "retention_ok (refreshEditorModelInstance now m st)"
proof -
  let ?key = "key_of st m"
  let ?ows = "map (\<lambda>(i, ow). (i, if ow_key ow = ?key then ow\<lparr>ow_model := m\<rparr> else ow)) (er_owners st)"
  let ?st0 = "st\<lparr>er_owners := ?ows\<rparr>"
  let ?st1 = "st\<lparr>er_owners := ?ows, er_leases := (case map_of (er_leases st) ?key of None \<Rightarrow> er_leases st
                                 | Some l \<Rightarrow> AList.update ?key (l\<lparr>ml_model := Some m\<rparr>) (er_leases st))\<rparr>"
  have t: "tables_inv st" using assms(1) by (simp add: ok_but_def)
  have "tables_inv ?st0"
  proof (rule tables_owners [OF t])
    show "distinct (map fst (er_owners ?st0))" "length (er_owners ?st0) \<le> MAX_TRACKED_OWNERS"
      using t by (simp_all add: tables_inv_def case_prod_beta comp_def)
  qed (use t assms(2) in \<open>auto simp: tables_inv_def\<close>)
  moreover have "tables_inv ?st1" if "map_of (er_leases st) ?key = Some l" for l
    by (rule tables_lease_update [OF \<open>tables_inv ?st0\<close>, of _ ?key "l\<lparr>ml_model := Some m\<rparr>"]) (use that lease_pos [OF t that] in simp_all)
  ultimately have t1: "tables_inv ?st1" by (cases "map_of (er_leases st) ?key") simp_all
  have "owners_of ?st1 k = map (\<lambda>ow. if ow_key ow = ?key then ow\<lparr>ow_model := m\<rparr> else ow) (owners_of st k)" for k
  proof -
    have "filter (\<lambda>ow. ow_key ow = k) (map snd (map (\<lambda>(i, ow). (i, if ow_key ow = q then ow\<lparr>ow_model := m\<rparr> else ow)) xs))
      = map (\<lambda>ow. if ow_key ow = q then ow\<lparr>ow_model := m\<rparr> else ow) (filter (\<lambda>ow. ow_key ow = k) (map snd xs))" for q and xs :: "(string \<times> model_owner) list"
    proof (induction xs)
      case (Cons x xs)
      obtain i ow where x: "x = (i, ow)" by (cases x)
      show ?case using Cons.IH by (cases "ow_key ow = q") (auto simp: x)
    qed simp
    then show ?thesis by (simp add: owners_of_def)
  qed
  then have "safe_key st k \<Longrightarrow> safe_key ?st1 k" for k
    by (auto simp: safe_key_def map_of_alist_update split: option.splits)
  then have "ok_but {?key} ?st1" by (intro ok_but_tables [OF assms(1) t1]) simp_all
  moreover have "retention_ok ?st1" if "\<not> (owners_of st ?key \<noteq> [] \<or> map_of (er_leases st) ?key \<noteq> None)"
    using calculation that \<open>\<And>k. safe_key st k \<Longrightarrow> safe_key ?st1 k\<close> by (intro ok_but_tables [OF assms(1) t1]) simp_all
  ultimately show ?thesis
    using ok_but_reconcile [of ?key "{}" ?st1 now] unfolding refreshEditorModelInstance_def Let_def by (auto split: if_splits)
qed

lemma ok_but_cands: "ok_but UNIV st \<Longrightarrow> ok_but (fst ` set (er_candidates st)) st"
  by (simp add: ok_but_def cands_def)

lemma ok_lease:
  assumes "retention_ok st" shows "retention_ok (snd (leaseEditorModel now key st))"
proof (cases "map_of (er_leases st) key = None \<and> length (er_leases st) \<ge> MAX_PENDING_MODELS")
  case True
  let ?st0 = "st\<lparr>er_nextHeld := Suc (er_nextHeld st), er_overflow := Suc (er_overflow st), er_held := (er_nextHeld st, OverflowLease) # er_held st\<rparr>"
  have "ok_but UNIV ?st0"
    by (rule ok_but_tables [OF assms]) (use assms in \<open>simp_all add: ok_but_def tables_same [of st]\<close>)
  then have "ok_but (set (map fst (er_candidates st)) \<union> {}) (bump (em_leaseRejected_update Suc) ?st0)"
    using ok_but_cands [of ?st0] by simp
  then have "retention_ok (fold (cancelInactiveEditorModel now) (map fst (er_candidates st)) (bump (em_leaseRejected_update Suc) ?st0))"
    by (rule ok_but_fold_cancel)
  then show ?thesis using True by (simp add: leaseEditorModel_def Let_def)
next
  case False
  let ?l = "case map_of (er_leases st) key of Some l \<Rightarrow> l\<lparr>ml_count := Suc (ml_count l)\<rparr> | None \<Rightarrow> \<lparr>ml_count = 1, ml_model = None\<rparr>"
  let ?st1 = "st\<lparr>er_nextHeld := Suc (er_nextHeld st), er_leases := AList.update key ?l (er_leases st), er_held := (er_nextHeld st, KeyLease key) # er_held st\<rparr>"
  have t: "tables_inv st" using assms by (simp add: ok_but_def)
  have "tables_inv ?st1"
    by (rule tables_lease_update [OF t, of _ key ?l]) (use False in \<open>auto simp: not_le split: option.split\<close>)
  then have "ok_but {key} ?st1"
    by (rule ok_but_tables [OF assms]) (auto simp: safe_key_def owners_of_def map_of_alist_update)
  then have "retention_ok (cancelInactiveEditorModel now key ?st1)" by (rule ok_but_cancel)
  moreover have "leaseEditorModel now key st = (er_nextHeld st, syncGauges (cancelInactiveEditorModel now key ?st1))"
    using False by (auto simp: leaseEditorModel_def Let_def)
  ultimately show ?thesis by simp
qed

lemma tables_lease_delete:
  assumes "tables_inv st" shows "tables_inv (st\<lparr>er_leases := AList.delete k (er_leases st)\<rparr>)"
  by (rule tables_leases [OF assms]) (use assms length_alist_delete [of k "er_leases st"] in \<open>auto simp: tables_inv_def set_alist_delete\<close>)

lemma ok_releaseKey:
  assumes "retention_ok st" shows "retention_ok (releaseKeyLease now key st)"
proof (cases "map_of (er_leases st) key")
  case None
  then show ?thesis using assms by (simp add: releaseKeyLease_def)
next
  case (Some l)
  have t: "tables_inv st" using assms by (simp add: ok_but_def)
  show ?thesis
  proof (cases "ml_count l - 1 > 0")
    case True
    let ?st1 = "st\<lparr>er_leases := AList.update key (l\<lparr>ml_count := ml_count l - 1\<rparr>) (er_leases st)\<rparr>"
    have "tables_inv ?st1"
      by (rule tables_lease_update [OF t, of _ key "l\<lparr>ml_count := ml_count l - 1\<rparr>"]) (use Some True in auto)
    then have "ok_but {} ?st1"
      by (rule ok_but_tables [OF assms]) (auto simp: safe_key_def owners_of_def map_of_alist_update Some split: if_splits)
    then show ?thesis using Some True by (simp add: releaseKeyLease_def)
  next
    case False
    let ?st1 = "st\<lparr>er_leases := AList.delete key (er_leases st)\<rparr>"
    have ok1: "retention_ok ?st1"
      by (rule ok_but_tables [OF assms tables_lease_delete [OF t]]) (simp_all add: safe_key_def owners_of_def map_of_alist_delete)
    have "releaseKeyLease now key st = syncGauges
        (if owners_of ?st1 key \<noteq> [] then reconcileOwnedKey now key ?st1
         else case ml_model l of None \<Rightarrow> ?st1 | Some m \<Rightarrow> (if is_disposed ?st1 m then ?st1 else dispose m ?st1))"
      using Some False by (simp only: releaseKeyLease_def Let_def option.case if_False)
    then show ?thesis using ok1 ok_but_reconcile [of key "{}" ?st1 now] ok_but_mono [OF ok1, of "{key}"]
      by (auto intro: ok_but_dispose split: option.split)
  qed
qed

lemma ok_releaseLease:
  assumes "retention_ok st" shows "retention_ok (releaseLease now i st)"
proof (cases "map_of (er_held st) i")
  case None
  then show ?thesis using assms by (simp add: releaseLease_def)
next
  case (Some h)
  let ?st0 = "st\<lparr>er_held := AList.delete i (er_held st)\<rparr>"
  have ok0: "retention_ok ?st0" using assms by simp
  show ?thesis
  proof (cases h)
    case (KeyLease key)
    then show ?thesis using Some ok_releaseKey [OF ok0] by (simp add: releaseLease_def Let_def)
  next
    case OverflowLease
    let ?st1 = "?st0\<lparr>er_overflow := er_overflow st - 1\<rparr>"
    have ok1: "retention_ok ?st1"
      by (rule ok_but_tables [OF ok0]) (use ok0 in \<open>simp_all add: safe_key_def owners_of_def ok_but_def tables_same [of ?st0]\<close>)
    have "releaseLease now i st = (if er_overflow ?st1 = 0 \<and> \<not> er_disabled ?st1
        then fold (\<lambda>ow. reconcileOwnedKey now (ow_key ow)) (map snd (er_owners ?st1)) ?st1 else ?st1)"
      by (simp only: releaseLease_def Let_def Some OverflowLease option.case held_lease.case)
    then show ?thesis using ok1 ok_but_fold_reconcile [OF ok1, of now "map snd (er_owners ?st1)"] by (simp only: split: if_split) blast
  qed
qed

text \<open>Owners whose change concerns only the keys of \<open>K\<close>.\<close>

lemma ok_owners:
  assumes "retention_ok st" "tables_inv (st\<lparr>er_owners := os\<rparr>)"
    and "\<And>k. k \<notin> K \<Longrightarrow> set (owners_of (st\<lparr>er_owners := os\<rparr>) k) = set (owners_of st k)"
  shows "ok_but K (st\<lparr>er_owners := os\<rparr>)"
proof (rule ok_but_tables [OF assms(1,2)])
  fix k assume "k \<notin> K" "safe_key st k"
  then show "safe_key (st\<lparr>er_owners := os\<rparr>) k" using assms(3) [of k] by (auto simp: safe_key_def simp flip: set_empty)
qed simp_all

lemma ok_updateOwner:
  assumes "retention_ok st" "known st m"
  shows "retention_ok (snd (updateEditorModelOwner now ownerId m active protected st))"
proof (cases "map_of (er_owners st) ownerId = None \<and> length (er_owners st) \<ge> MAX_TRACKED_OWNERS")
  case True
  let ?st1 = "bump (em_ownerRejected_update Suc) (st\<lparr>er_disabled := True\<rparr>)"
  have "ok_but UNIV (st\<lparr>er_disabled := True\<rparr>)"
    by (rule ok_but_tables [OF assms(1)]) (use assms(1) in \<open>simp_all add: ok_but_def tables_same [of st]\<close>)
  then have "ok_but (set (map fst (er_candidates st)) \<union> {}) ?st1" using ok_but_cands [of "st\<lparr>er_disabled := True\<rparr>"] by simp
  then have "retention_ok (fold (cancelInactiveEditorModel now) (map fst (er_candidates st)) ?st1)" by (rule ok_but_fold_cancel)
  then show ?thesis using True by (simp add: updateEditorModelOwner_def Let_def)
next
  case False
  let ?key = "key_of st m"
  let ?ow = "\<lparr>ow_key = ?key, ow_model = m, ow_active = active, ow_protected = protected\<rparr>"
  let ?os = "AList.update ownerId ?ow (er_owners st)"
  let ?st1 = "st\<lparr>er_owners := ?os\<rparr>"
  let ?K = "insert ?key (case map_of (er_owners st) ownerId of Some p \<Rightarrow> {ow_key p} | None \<Rightarrow> {})"
  have t: "tables_inv st" using assms(1) by (simp add: ok_but_def)
  have "tables_inv ?st1"
  proof (rule tables_owners [OF t])
    show "distinct (map fst (er_owners ?st1))" using t by (simp add: tables_inv_def distinct_update)
    show "length (er_owners ?st1) \<le> MAX_TRACKED_OWNERS"
      using t False by (auto simp: length_alist_update tables_inv_def map_of_eq_None_iff)
    show "key_of st (ow_model ow) = ow_key ow \<and> known st (ow_model ow)" if "(i, ow) \<in> set (er_owners ?st1)" for i ow
      using that subsetD [OF set_alist_update, of "(i, ow)" ownerId ?ow "er_owners st"] t assms(2) by (auto simp: tables_inv_def)
  qed simp_all
  moreover have "set (owners_of ?st1 k) = set (owners_of st k)" if "k \<notin> ?K" for k
  proof -
    have d: "distinct (map fst (er_owners st))" "distinct (map fst ?os)" using t by (simp_all add: tables_inv_def distinct_update)
    have mem: "(i, ow) \<in> set xs \<longleftrightarrow> map_of xs i = Some ow" if "distinct (map fst xs)" for i ow and xs :: "(string \<times> model_owner) list"
      using that by (simp add: map_of_eq_Some_iff)
    have a: "ow_key ow = k \<and> map_of ?os i = Some ow \<longleftrightarrow> ow_key ow = k \<and> map_of (er_owners st) i = Some ow" for i ow
      using that by (cases "i = ownerId") (auto simp: map_of_alist_update split: option.splits)
    have b: "ow \<in> set (owners_of ?st1 k) \<longleftrightarrow> (\<exists>i. ow_key ow = k \<and> map_of ?os i = Some ow)" for ow
      using mem [OF d(2)] by (simp add: owners_of_set)
    have c: "ow \<in> set (owners_of st k) \<longleftrightarrow> (\<exists>i. ow_key ow = k \<and> map_of (er_owners st) i = Some ow)" for ow
      using mem [OF d(1)] by (simp add: owners_of_set)
    show ?thesis by (rule set_eqI) (simp only: a b c)
  qed
  ultimately have ok1: "ok_but ?K ?st1" by (rule ok_owners [OF assms(1)])
  let ?st2 = "case map_of (er_owners st) ownerId of Some p \<Rightarrow> (if ow_key p \<noteq> ?key then reconcileOwnedKey now (ow_key p) ?st1 else ?st1) | None \<Rightarrow> ?st1"
  have "ok_but {?key} ?st2"
    using ok1 ok_but_reconcile [of _ "{?key}" ?st1 now] by (auto simp: insert_commute split: option.split)
  then have "retention_ok (syncGauges (reconcileOwnedKey now ?key ?st2))" using ok_but_reconcile by simp
  moreover have "updateEditorModelOwner now ownerId m active protected st = (True, syncGauges (reconcileOwnedKey now ?key ?st2))"
    using False by (auto simp: updateEditorModelOwner_def Let_def)
  ultimately show ?thesis by simp
qed

lemma ok_owner_delete:
  assumes "retention_ok st" "map_of (er_owners st) ownerId = Some p"
  shows "ok_but {ow_key p} (st\<lparr>er_owners := AList.delete ownerId (er_owners st)\<rparr>)"
proof (rule ok_owners [OF assms(1)])
  have t: "tables_inv st" using assms(1) by (simp add: ok_but_def)
  show "tables_inv (st\<lparr>er_owners := AList.delete ownerId (er_owners st)\<rparr>)"
    by (rule tables_owners [OF t]) (use t length_alist_delete [of ownerId "er_owners st"] in \<open>auto simp: tables_inv_def set_alist_delete\<close>)
  have "(ownerId, ow) \<in> set (er_owners st) \<Longrightarrow> ow = p" for ow using t assms(2) by (auto simp: tables_inv_def)
  then show "set (owners_of (st\<lparr>er_owners := AList.delete ownerId (er_owners st)\<rparr>) k) = set (owners_of st k)" if "k \<notin> {ow_key p}" for k
    using that by (force simp: owners_of_set set_alist_delete)
qed

lemma ok_but_gone: "ok_but {k} st \<Longrightarrow> k \<notin> cands st \<Longrightarrow> retention_ok st"
  by (auto simp: ok_but_def)

lemma ok_lease_model:
  assumes "retention_ok st" "map_of (er_leases st) k = Some l"
  shows "retention_ok (st\<lparr>er_leases := AList.update k (l\<lparr>ml_model := m\<rparr>) (er_leases st)\<rparr>)"
proof -
  have t: "tables_inv st" using assms(1) by (simp add: ok_but_def)
  have "tables_inv (st\<lparr>er_leases := AList.update k (l\<lparr>ml_model := m\<rparr>) (er_leases st)\<rparr>)"
    by (rule tables_lease_update [OF t, of _ k "l\<lparr>ml_model := m\<rparr>"]) (use assms(2) lease_pos [OF t assms(2)] in simp_all)
  then show ?thesis
    by (rule ok_but_tables [OF assms(1)]) (use assms(2) in \<open>auto simp: safe_key_def owners_of_def map_of_alist_update\<close>)
qed

lemma close_cases:
  obtains (shared) st1 where "closeEditorModelOwner now ok i k fb st = syncGauges (reconcileOwnedKey now k (cancelInactiveEditorModel now k st1))"
      "st1 = st \<or> (\<exists>p. map_of (er_owners st) i = Some p \<and> ow_key p = k \<and> st1 = st\<lparr>er_owners := AList.delete i (er_owners st)\<rparr>)"
      "owners_of st1 k \<noteq> []"
  | (last) st1 st3 where
      "st1 = st \<or> (\<exists>p. map_of (er_owners st) i = Some p \<and> ow_key p = k \<and> st1 = st\<lparr>er_owners := AList.delete i (er_owners st)\<rparr>)"
      "st3 = drop_retained (em_forgotten_update Suc) k (cancelInactiveEditorModel now k st1)" "owners_of st1 k = []"
      "closeEditorModelOwner now ok i k fb st = syncGauges st3
       \<or> closeEditorModelOwner now ok i k fb st = syncGauges (bump (em_failures_update Suc) st3)
       \<or> (\<exists>m. (fb = Some m \<or> (\<exists>p. map_of (er_owners st) i = Some p \<and> ow_key p = k \<and> ow_model p = m)) \<and> \<not> is_disposed st3 m
            \<and> (map_of (er_leases st3) k = None \<and> closeEditorModelOwner now ok i k fb st = syncGauges (dispose m st3)
               \<or> (\<exists>l. map_of (er_leases st3) k = Some l \<and> closeEditorModelOwner now ok i k fb st
                    = syncGauges (st3\<lparr>er_leases := AList.update k (l\<lparr>ml_model := Some m\<rparr>) (er_leases st3)\<rparr>))))"
proof -
  let ?matched = "case map_of (er_owners st) i of Some p \<Rightarrow> (if ow_key p = k then Some p else None) | None \<Rightarrow> None"
  let ?st1 = "if ?matched = None then st else st\<lparr>er_owners := AList.delete i (er_owners st)\<rparr>"
  let ?st2 = "cancelInactiveEditorModel now k ?st1"
  let ?st3 = "drop_retained (em_forgotten_update Suc) k ?st2"
  let ?live = "case fb of Some m \<Rightarrow> (if is_disposed ?st3 m then None else Some m) | None \<Rightarrow> None"
  let ?live' = "case ?live of Some m \<Rightarrow> Some m
      | None \<Rightarrow> (case ?matched of Some p \<Rightarrow> (if is_disposed ?st3 (ow_model p) then None else Some (ow_model p)) | None \<Rightarrow> None)"
  have e: "closeEditorModelOwner now ok i k fb st = (if owners_of ?st2 k \<noteq> [] then syncGauges (reconcileOwnedKey now k ?st2)
      else syncGauges (case ?live' of None \<Rightarrow> ?st3
         | Some m \<Rightarrow> (case map_of (er_leases ?st3) k of Some l \<Rightarrow> ?st3\<lparr>er_leases := AList.update k (l\<lparr>ml_model := Some m\<rparr>) (er_leases ?st3)\<rparr>
                     | None \<Rightarrow> (if ok then dispose m ?st3 else bump (em_failures_update Suc) ?st3))))"
    unfolding closeEditorModelOwner_def Let_def ..
  have s1: "?st1 = st \<or> (\<exists>p. map_of (er_owners st) i = Some p \<and> ow_key p = k \<and> ?st1 = st\<lparr>er_owners := AList.delete i (er_owners st)\<rparr>)"
    by (cases "map_of (er_owners st) i") auto
  have o2: "owners_of ?st2 k = owners_of ?st1 k" by (simp add: owners_of_def)
  show thesis
  proof (cases "owners_of ?st1 k = []")
    case False
    show ?thesis by (rule that(1) [of ?st1, OF _ s1 False]) (unfold e o2, simp add: False)
  next
    case True
    have c: "closeEditorModelOwner now ok i k fb st = syncGauges (case ?live' of None \<Rightarrow> ?st3
         | Some m \<Rightarrow> (case map_of (er_leases ?st3) k of Some l \<Rightarrow> ?st3\<lparr>er_leases := AList.update k (l\<lparr>ml_model := Some m\<rparr>) (er_leases ?st3)\<rparr>
                     | None \<Rightarrow> (if ok then dispose m ?st3 else bump (em_failures_update Suc) ?st3)))"
      unfolding e o2 by (simp only: True simp_thms if_False)
    show ?thesis
    proof (rule that(2) [of ?st1 ?st3, OF s1 refl True], cases ?live')
      case None
      then show "closeEditorModelOwner now ok i k fb st = syncGauges ?st3
       \<or> closeEditorModelOwner now ok i k fb st = syncGauges (bump (em_failures_update Suc) ?st3)
       \<or> (\<exists>m. (fb = Some m \<or> (\<exists>p. map_of (er_owners st) i = Some p \<and> ow_key p = k \<and> ow_model p = m)) \<and> \<not> is_disposed ?st3 m
            \<and> (map_of (er_leases ?st3) k = None \<and> closeEditorModelOwner now ok i k fb st = syncGauges (dispose m ?st3)
               \<or> (\<exists>l. map_of (er_leases ?st3) k = Some l \<and> closeEditorModelOwner now ok i k fb st
                    = syncGauges (?st3\<lparr>er_leases := AList.update k (l\<lparr>ml_model := Some m\<rparr>) (er_leases ?st3)\<rparr>))))"
        unfolding c by simp
    next
      case (Some m)
      have m: "(fb = Some m \<or> (\<exists>p. map_of (er_owners st) i = Some p \<and> ow_key p = k \<and> ow_model p = m)) \<and> \<not> is_disposed ?st3 m"
        using Some by (auto split: option.splits if_splits)
      show "closeEditorModelOwner now ok i k fb st = syncGauges ?st3
       \<or> closeEditorModelOwner now ok i k fb st = syncGauges (bump (em_failures_update Suc) ?st3)
       \<or> (\<exists>m. (fb = Some m \<or> (\<exists>p. map_of (er_owners st) i = Some p \<and> ow_key p = k \<and> ow_model p = m)) \<and> \<not> is_disposed ?st3 m
            \<and> (map_of (er_leases ?st3) k = None \<and> closeEditorModelOwner now ok i k fb st = syncGauges (dispose m ?st3)
               \<or> (\<exists>l. map_of (er_leases ?st3) k = Some l \<and> closeEditorModelOwner now ok i k fb st
                    = syncGauges (?st3\<lparr>er_leases := AList.update k (l\<lparr>ml_model := Some m\<rparr>) (er_leases ?st3)\<rparr>))))"
        using m unfolding c Some by (cases "map_of (er_leases ?st3) k"; cases ok) (simp only: option.case if_True if_False, blast)+
    qed
  qed
qed

lemma ok_close_start:
  assumes "retention_ok st"
    and "st1 = st \<or> (\<exists>p. map_of (er_owners st) i = Some p \<and> ow_key p = k \<and> st1 = st\<lparr>er_owners := AList.delete i (er_owners st)\<rparr>)"
  shows "retention_ok (cancelInactiveEditorModel now k st1)"
proof (rule ok_but_cancel)
  show "ok_but {k} st1" using assms(2) ok_owner_delete [OF assms(1)] ok_but_mono [OF assms(1), of "{k}"] by auto
qed

lemma ok_close:
  assumes "retention_ok st" shows "retention_ok (closeEditorModelOwner now ok i k fb st)"
proof (cases rule: close_cases [of now ok i k fb st])
  case (shared st1)
  have "ok_but {k} (cancelInactiveEditorModel now k st1)" using ok_but_mono [OF ok_close_start [OF assms shared(2)]] by simp
  then show ?thesis unfolding shared(1) using ok_but_reconcile by simp
next
  case (last st1 st3)
  have "retention_ok st3" unfolding last(2) using ok_close_start [OF assms last(1)] by (rule ok_but_drop)
  then show ?thesis using last(4) ok_but_dispose ok_lease_model [of st3 k] by auto
qed

lemma ok_forget:
  assumes "retention_ok st" shows "retention_ok (forgetEditorModel now k st)"
proof -
  let ?st1 = "cancelInactiveEditorModel now k st"
  let ?os = "filter (\<lambda>(i, ow). ow_key ow \<noteq> k) (er_owners ?st1)"
  have ok1: "retention_ok ?st1" using ok_but_mono [OF assms] by (intro ok_but_cancel) simp
  then have t: "tables_inv ?st1" by (simp add: ok_but_def)
  have "tables_inv (?st1\<lparr>er_owners := ?os\<rparr>)"
  proof (rule tables_owners [OF t])
    show "distinct (map fst (er_owners (?st1\<lparr>er_owners := ?os\<rparr>)))" using t by (simp add: tables_inv_def distinct_map_filter)
    show "length (er_owners (?st1\<lparr>er_owners := ?os\<rparr>)) \<le> MAX_TRACKED_OWNERS"
    proof -
      have "length (er_owners ?st1) \<le> MAX_TRACKED_OWNERS" using t unfolding tables_inv_def by blast
      then have "length ?os \<le> MAX_TRACKED_OWNERS" by (rule order_trans [OF length_filter_le])
      then show ?thesis by simp
    qed
  qed (use t in \<open>auto simp: tables_inv_def\<close>)
  then have "ok_but {k} (?st1\<lparr>er_owners := ?os\<rparr>)" by (rule ok_owners [OF ok1]) (auto simp: owners_of_set)
  moreover have "k \<notin> cands (?st1\<lparr>er_owners := ?os\<rparr>)" by (simp add: cands_def)
  ultimately have "retention_ok (?st1\<lparr>er_owners := ?os\<rparr>)" by (rule ok_but_gone)
  then show ?thesis unfolding forgetEditorModel_def Let_def by (simp add: ok_but_drop)
qed

lemma ok_remove: "retention_ok st \<Longrightarrow> retention_ok (removeEditorModelOwner now i st)"
  using ok_owner_delete [of st i] ok_but_reconcile by (simp add: removeEditorModelOwner_def split: option.split)

lemma ok_ack: "retention_ok st \<Longrightarrow> retention_ok (acknowledgeEditorModelRestore k st)"
  by (simp add: acknowledgeEditorModelRestore_def ok_but_drop)

definition added_model :: "string \<Rightarrow> js_string \<Rightarrow> editor_state \<Rightarrow> editor_state" where
  "added_model k t st = st\<lparr>er_models := (length (er_models st), \<lparr>tm_key = k, tm_text = t, tm_disposed = False\<rparr>) # er_models st\<rparr>"

lemma added_simps [simp]:
  "er_candidates (added_model k t st) = er_candidates st" "er_retained (added_model k t st) = er_retained st"
  "er_owners (added_model k t st) = er_owners st" "er_leases (added_model k t st) = er_leases st"
  "er_retainedBytes (added_model k t st) = er_retainedBytes st" "er_disabled (added_model k t st) = er_disabled st"
  "er_overflow (added_model k t st) = er_overflow st"
  "er_models (added_model k t st) = (length (er_models st), \<lparr>tm_key = k, tm_text = t, tm_disposed = False\<rparr>) # er_models st"
  by (simp_all add: added_model_def)

lemma known_less: "tables_inv st \<Longrightarrow> known st m \<longleftrightarrow> m < length (er_models st)"
proof -
  assume "tables_inv st"
  then have "set (map fst (er_models st)) = {..<length (er_models st)}" by (simp only: tables_inv_def set_rev set_upt) auto
  then show ?thesis by (auto simp: known_def)
qed

lemma ok_added: "retention_ok st \<Longrightarrow> retention_ok (added_model k t st)"
proof -
  assume ok: "retention_ok st"
  then have t: "tables_inv st" by (simp add: ok_but_def)
  have key: "key_of (added_model k t st) m = key_of st m" "known (added_model k t st) m" if "known st m" for m
    using that known_less [OF t, of m] by (simp_all add: key_of_def known_def)
  have "tables_inv (added_model k t st)"
    using t key unfolding tables_inv_def by (auto simp: tables_inv_def)
  then show ?thesis
    by (rule ok_but_change [OF ok]) (use ok key in \<open>simp_all add: ok_but_def retained_inv_def safe_key_def owners_of_def\<close>)
qed

lemma live_modelD: "live_model st k = Some m \<Longrightarrow> \<exists>tm. (m, tm) \<in> set (er_models st) \<and> tm_key tm = k \<and> \<not> tm_disposed tm"
  by (auto simp: live_model_def find_Some_iff) (metis nth_mem)

lemma modelFor_new:
  "live_model st k = None \<Longrightarrow> modelFor now k c st =
     (length (er_models st), refreshEditorModelInstance now (length (er_models st))
        (acknowledgeEditorModelRestore k (added_model k (case retainedEditorModelText st k of Some t \<Rightarrow> t | None \<Rightarrow> c) st)))"
  by (simp add: modelFor_def Let_def added_model_def retainedEditorModelText_def acknowledgeEditorModelRestore_def)

lemma ack_models [simp]: "er_models (acknowledgeEditorModelRestore k st) = er_models st"
  by (simp add: acknowledgeEditorModelRestore_def)

lemma ok_modelFor:
  assumes "retention_ok st" shows "retention_ok (snd (modelFor now k c st))"
proof (cases "live_model st k")
  case None
  let ?st = "acknowledgeEditorModelRestore k (added_model k (case retainedEditorModelText st k of Some t \<Rightarrow> t | None \<Rightarrow> c) st)"
  have "known ?st (length (er_models st))" by (simp add: known_def)
  with ok_refresh [OF ok_ack [OF ok_added [OF assms]]] show ?thesis unfolding modelFor_new [OF None] by simp
next
  case (Some m)
  then have "known st m" using live_modelD [OF Some] by (force simp: known_def)
  then show ?thesis using Some ok_refresh [OF assms] by (simp add: modelFor_def)
qed

lemma map_of_edit: "map_of (er_models (edit_model m t st)) i
    = map_option (\<lambda>tm. if i = m \<and> \<not> tm_disposed tm then tm\<lparr>tm_text := t\<rparr> else tm) (map_of (er_models st) i)"
proof -
  have "map_of (map (\<lambda>(i, tm). (i, if i = m \<and> \<not> tm_disposed tm then tm\<lparr>tm_text := t\<rparr> else tm)) xs) i
      = map_option (\<lambda>tm. if i = m \<and> \<not> tm_disposed tm then tm\<lparr>tm_text := t\<rparr> else tm) (map_of xs i)" for xs
    by (induction xs) auto
  then show ?thesis by (simp add: edit_model_def)
qed

lemma edit_simps [simp]:
  "er_candidates (edit_model m t st) = er_candidates st" "er_retained (edit_model m t st) = er_retained st" "er_owners (edit_model m t st) = er_owners st"
  "er_leases (edit_model m t st) = er_leases st" "er_disabled (edit_model m t st) = er_disabled st" "er_overflow (edit_model m t st) = er_overflow st"
  "er_retainedBytes (edit_model m t st) = er_retainedBytes st" "map fst (er_models (edit_model m t st)) = map fst (er_models st)"
  "length (er_models (edit_model m t st)) = length (er_models st)" "key_of (edit_model m t st) = key_of st" "known (edit_model m t st) = known st"
proof -
  show f: "map fst (er_models (edit_model m t st)) = map fst (er_models st)" by (simp add: edit_model_def case_prod_beta comp_def)
  show "known (edit_model m t st) = known st" by (intro ext) (metis f known_def list.set_map)
  show "key_of (edit_model m t st) = key_of st" by (intro ext) (simp add: key_of_def map_of_edit split: option.split)
qed (simp_all add: edit_model_def)

lemma ok_edit: "retention_ok st \<Longrightarrow> retention_ok (edit_model m t st)"
  by (simp add: ok_but_def tables_inv_def retained_inv_def cand_inv_def cands_def safe_key_def owners_of_def)

section \<open>Every history of the editor\<close>

datatype editor_op =
    OpenFile int string js_string
  | Edit nat js_string
  | ShowModel int string nat bool bool
  | Unmount int string
  | CloseFile int bool string string "nat option"
  | Lease int string
  | ReleaseLease int nat
  | TimerFires int bool
  | Shed int
  | Forget int string

fun apply_op :: "editor_op \<Rightarrow> editor_state \<Rightarrow> editor_state" where
  "apply_op (OpenFile now k c) st = snd (modelFor now k c st)"
| "apply_op (Edit m t) st = edit_model m t st"
| "apply_op (ShowModel now i m a p) st = snd (updateEditorModelOwner now i m a p st)"
| "apply_op (Unmount now i) st = removeEditorModelOwner now i st"
| "apply_op (CloseFile now ok i k fb) st = closeEditorModelOwner now ok i k fb st"
| "apply_op (Lease now k) st = snd (leaseEditorModel now k st)"
| "apply_op (ReleaseLease now i) st = releaseLease now i st"
| "apply_op (TimerFires now ok) st = drainOne now ok st"
| "apply_op (Shed now) st = snd (shedInactiveEditorModels now st)"
| "apply_op (Forget now k) st = forgetEditorModel now k st"

text \<open>The views pass the models the editor gave them: one that is live, and one of the file that is closed.\<close>

fun allowed :: "editor_op \<Rightarrow> editor_state \<Rightarrow> bool" where
  "allowed (ShowModel now i m a p) st = (\<not> is_disposed st m)"
| "allowed (CloseFile now ok i k fb) st = (case fb of Some m \<Rightarrow> known st m \<and> key_of st m = k | None \<Rightarrow> True)"
| "allowed op st = True"

inductive editor_reaches :: "editor_state \<Rightarrow> bool" where
  starts: "editor_reaches empty_editor"
| continues: "editor_reaches st \<Longrightarrow> allowed op st \<Longrightarrow> editor_reaches (apply_op op st)"

lemma not_disposed_known: "\<not> is_disposed st m \<Longrightarrow> known st m"
  by (force simp: is_disposed_def known_def split: option.splits dest: map_of_SomeD)

lemma ok_apply: "retention_ok st \<Longrightarrow> allowed op st \<Longrightarrow> retention_ok (apply_op op st)"
  by (cases op) (simp_all add: ok_modelFor ok_edit ok_updateOwner not_disposed_known ok_remove ok_close ok_lease ok_releaseLease ok_drainOne ok_shed ok_forget)

lemma ok_empty: "retention_ok empty_editor"
  by (simp add: ok_but_def tables_inv_def retained_inv_def cand_inv_def cands_def empty_editor_def)

lemma reaches_ok: "editor_reaches st \<Longrightarrow> retention_ok st"
  by (induction rule: editor_reaches.induct) (simp_all add: ok_empty ok_apply)

text \<open>Compaction never takes a model from under anyone: when the timer fires and disposes a model, then its file has a
  tracked owner, every one of them is inactive and none protected, nobody holds a lease on it, no lease or owner went untracked,
  its delay has passed, and its text, exactly as it stands, is what is kept for it.\<close>

theorem compaction_takes_only_idle_models:
  assumes "editor_reaches st" "\<not> is_disposed st m" "is_disposed (drainOne now ok st) m"
  shows "owners_of st (key_of st m) \<noteq> [] \<and> (\<forall>ow\<in>set (owners_of st (key_of st m)). \<not> ow_active ow \<and> \<not> ow_protected ow)
    \<and> map_of (er_leases st) (key_of st m) = None \<and> er_overflow st = 0 \<and> \<not> er_disabled st
    \<and> (\<exists>c. (key_of st m, c) \<in> set (er_candidates st) \<and> cd_model c = m \<and> cd_eligibleAt c \<le> now)
    \<and> retainedEditorModelText (drainOne now ok st) (key_of st m) = Some (text_of_model st m)"
proof -
  have ok: "retention_ok st" using assms(1) by (rule reaches_ok)
  have same: "is_disposed st' m = is_disposed st m" if "er_models st' = er_models st" for st' using that by (simp add: is_disposed_def)
  show ?thesis
  proof (cases rule: drainOne_cases [of now ok st])
    case (compacted path c bytes nb)
    let ?st1 = "st\<lparr>er_timer := None, er_candidates := AList.delete path (er_candidates st),
        er_retained := AList.update path \<lparr>rt_text = text_of_model st (cd_model c), rt_bytes = bytes\<rparr> (er_retained st), er_retainedBytes := nb\<rparr>"
    have mem: "(path, c) \<in> set (er_candidates st)" using compacted(1) by (rule nextCandidate_mem)
    have "is_disposed (dispose (cd_model c) ?st1) m" using assms(3) unfolding compacted(10) by (simp add: is_disposed_def)
    then have m: "m = cd_model c" using assms(2) by (auto simp: is_disposed_def map_of_dispose split: option.splits if_splits)
    have k: "key_of st m = path" using ok mem by (auto simp: ok_but_def cand_inv_def m)
    have "safe_key st path" using ok mem by (force simp: ok_but_def cands_def)
    moreover have "retainedEditorModelText (drainOne now ok st) path = Some (text_of_model st m)"
      unfolding compacted(10) by (simp add: retainedEditorModelText_def map_of_alist_update m)
    ultimately show ?thesis using mem compacted(4) m unfolding k safe_key_def by blast
  next
    case idle
    then show ?thesis using assms(2,3) same [of "drainOne now ok st"] by simp
  next
    case early
    then show ?thesis using assms(2,3) same [of "drainOne now ok st"] by simp
  next
    case (dropped f path c)
    then show ?thesis using assms(2,3) same [of "drainOne now ok st"] by simp
  qed
qed

text \<open>The memory kept for compacted models is bounded: at most 32 texts of at most 16 MB each and 64 MB together, counted
  exactly, and the tables of candidates, owners and leases have at most 128, 256 and 128 entries.\<close>

theorem retention_is_bounded:
  assumes "editor_reaches st"
  shows "length (er_retained st) \<le> 32 \<and> er_retainedBytes st = (\<Sum>(k, e)\<leftarrow>er_retained st. int (retainedTextBytes (rt_text e)))
    \<and> er_retainedBytes st \<le> 64 * 1024 * 1024 \<and> (\<forall>(k, e)\<in>set (er_retained st). retainedTextBytes (rt_text e) \<le> 16 * 1024 * 1024)
    \<and> length (er_candidates st) \<le> 128 \<and> length (er_owners st) \<le> 256 \<and> length (er_leases st) \<le> 128"
proof -
  have ok: "retained_inv st" "tables_inv st" "cand_inv st" using reaches_ok [OF assms] by (simp_all add: ok_but_def)
  have "map (\<lambda>(k, e). int (rt_bytes e)) (er_retained st) = map (\<lambda>(k, e). int (retainedTextBytes (rt_text e))) (er_retained st)"
    using ok(1) by (auto simp: retained_inv_def)
  moreover have "er_retainedBytes st = (\<Sum>(k, e)\<leftarrow>er_retained st. int (rt_bytes e))" using ok(1) by (simp add: retained_inv_def)
  ultimately have "er_retainedBytes st = (\<Sum>(k, e)\<leftarrow>er_retained st. int (retainedTextBytes (rt_text e)))" by (simp only:)
  moreover have "\<forall>(k, e)\<in>set (er_retained st). retainedTextBytes (rt_text e) \<le> 16 * 1024 * 1024"
    using ok(1) by (fastforce simp: retained_inv_def MAX_MODEL_BYTES_def)
  ultimately show ?thesis
    using ok by (simp add: retained_inv_def tables_inv_def cand_inv_def MAX_RETAINED_MODELS_def MAX_RETAINED_BYTES_def
        MAX_PENDING_MODELS_def MAX_TRACKED_OWNERS_def)
qed

section \<open>The text of a file\<close>

definition file_text :: "editor_state \<Rightarrow> string \<Rightarrow> js_string option" where
  "file_text st k = (case live_model st k of Some m \<Rightarrow> Some (text_of_model st m) | None \<Rightarrow> retainedEditorModelText st k)"

text \<open>Two more invariants: a key has one live model, and the model of a lease is one of its key.\<close>

definition one_model :: "editor_state \<Rightarrow> bool" where
  "one_model st \<longleftrightarrow> (\<forall>m m'. \<not> is_disposed st m \<and> \<not> is_disposed st m' \<and> key_of st m = key_of st m' \<longrightarrow> m = m')"

definition lease_keys :: "editor_state \<Rightarrow> bool" where
  "lease_keys st \<longleftrightarrow> (\<forall>(k, l)\<in>set (er_leases st). \<forall>m. ml_model l = Some m \<longrightarrow> known st m \<and> key_of st m = k)"

text \<open>What an operation does to the models and to the texts kept: it disposes at most one model, of a key of \<open>K\<close>, and leaves the
  texts of the other keys.\<close>

definition touches :: "string set \<Rightarrow> editor_state \<Rightarrow> editor_state \<Rightarrow> bool" where
  "touches K st st' \<longleftrightarrow>
     (er_models st' = er_models st \<or> (\<exists>m. known st m \<and> key_of st m \<in> K \<and> er_models st' = er_models (dispose m st)))
     \<and> (\<forall>k. k \<notin> K \<longrightarrow> map_of (er_retained st') k = map_of (er_retained st) k)"

lemma touches_same: "er_models st' = er_models st \<Longrightarrow> er_retained st' = er_retained st \<Longrightarrow> touches K st st'"
  by (simp add: touches_def)

lemma is_disposed_models: "er_models st' = er_models st \<Longrightarrow> is_disposed st' m = is_disposed st m"
  "er_models st' = er_models st \<Longrightarrow> key_of st' m = key_of st m" "er_models st' = er_models st \<Longrightarrow> known st' m = known st m"
  "er_models st' = er_models st \<Longrightarrow> live_model st' k = live_model st k" "er_models st' = er_models st \<Longrightarrow> text_of_model st' m = text_of_model st m"
  by (simp_all add: is_disposed_def key_of_def known_def live_model_def text_of_model_def)

lemma is_disposed_dispose: "is_disposed (dispose m st) i \<longleftrightarrow> i = m \<or> is_disposed st i"
  by (auto simp: is_disposed_def map_of_dispose split: option.splits)

lemma text_dispose [simp]: "text_of_model (dispose m st) i = text_of_model st i"
  by (auto simp: text_of_model_def map_of_dispose split: option.splits)

lemma map_of_models: "tables_inv st \<Longrightarrow> (i, tm) \<in> set (er_models st) \<longleftrightarrow> map_of (er_models st) i = Some tm"
proof -
  assume t: "tables_inv st"
  have "distinct (map fst (er_models st))" using t by (simp only: tables_inv_def distinct_rev distinct_upt)
  then show ?thesis by (simp add: map_of_eq_Some_iff)
qed

lemma live_model_iff:
  assumes "tables_inv st" "one_model st"
  shows "live_model st k = Some m \<longleftrightarrow> \<not> is_disposed st m \<and> key_of st m = k"
proof
  assume "live_model st k = Some m"
  then show "\<not> is_disposed st m \<and> key_of st m = k"
    using live_modelD map_of_models [OF assms(1)] by (fastforce simp: is_disposed_def key_of_def)
next
  assume m: "\<not> is_disposed st m \<and> key_of st m = k"
  then obtain tm where "(m, tm) \<in> set (er_models st)" "tm_key tm = k" "\<not> tm_disposed tm"
    by (auto simp: is_disposed_def key_of_def split: option.splits dest: map_of_SomeD)
  then obtain m' where m': "live_model st k = Some m'" by (cases "live_model st k") (force simp: live_model_def find_None_iff)+
  then have "\<not> is_disposed st m' \<and> key_of st m' = k"
    using live_modelD map_of_models [OF assms(1)] by (fastforce simp: is_disposed_def key_of_def)
  then have "m' = m" using m assms(2) by (simp add: one_model_def)
  with m' show "live_model st k = Some m" by simp
qed

lemma live_model_dispose:
  assumes "tables_inv st" "key_of st m \<noteq> k"
  shows "live_model (dispose m st) k = live_model st k"
proof -
  have f: "find (\<lambda>(i, tm). tm_key tm = k \<and> \<not> tm_disposed tm) (map (\<lambda>(i, tm). (i, if i = m then tm\<lparr>tm_disposed := True\<rparr> else tm)) xs)
      = find (\<lambda>(i, tm). tm_key tm = k \<and> \<not> tm_disposed tm) xs" if "\<forall>(i, tm)\<in>set xs. i = m \<longrightarrow> tm_key tm \<noteq> k" for xs
    using that
  proof (induction xs)
    case (Cons x xs)
    then show ?case by (cases x; cases "fst x = m") simp_all
  qed simp
  have "\<forall>(i, tm)\<in>set (er_models st). i = m \<longrightarrow> tm_key tm \<noteq> k"
  proof (intro ballI, clarify)
    fix tm assume "(m, tm) \<in> set (er_models st)" "k = tm_key tm"
    then show False using assms(2) by (simp add: map_of_models [OF assms(1)] key_of_def)
  qed
  from f [OF this] show ?thesis unfolding live_model_def dispose_def by simp
qed

lemma touches_text:
  assumes "tables_inv st" "touches K st st'" "k \<notin> K"
  shows "file_text st' k = file_text st k"
proof -
  have r: "retainedEditorModelText st' k = retainedEditorModelText st k" using assms by (simp add: touches_def retainedEditorModelText_def)
  consider (same) "er_models st' = er_models st" | (gone) m where "key_of st m \<noteq> k" "er_models st' = er_models (dispose m st)"
    using assms(2,3) unfolding touches_def by metis
  then show ?thesis
  proof cases
    case same
    then show ?thesis using is_disposed_models(4,5) [OF same] by (simp add: file_text_def r split: option.split)
  next
    case gone
    then show ?thesis
      using is_disposed_models(4,5) [OF gone(2)] live_model_dispose [OF assms(1) gone(1)] by (simp add: file_text_def r split: option.split)
  qed
qed

lemma touches_one: "touches K st st' \<Longrightarrow> one_model st \<Longrightarrow> one_model st'"
proof -
  assume a: "touches K st st'" "one_model st"
  then consider "er_models st' = er_models st" | m where "er_models st' = er_models (dispose m st)"
    by (auto simp: touches_def)
  then show "one_model st'"
  proof cases
    case 1
    then show ?thesis using a(2) by (simp add: one_model_def is_disposed_models [OF 1])
  next
    case (2 m)
    show ?thesis using a(2) by (simp add: one_model_def is_disposed_models [OF 2] is_disposed_dispose)
  qed
qed

lemma touches_keys: "touches K st st' \<Longrightarrow> key_of st' m = key_of st m \<and> known st' m = known st m"
  unfolding touches_def using is_disposed_models(2,3) key_of_dispose known_dispose by metis

definition lease_step :: "editor_state \<Rightarrow> editor_state \<Rightarrow> bool" where
  "lease_step st st' \<longleftrightarrow> (\<forall>k l m. (k, l) \<in> set (er_leases st') \<and> ml_model l = Some m \<longrightarrow>
     (\<exists>l0. (k, l0) \<in> set (er_leases st) \<and> ml_model l0 = Some m) \<or> known st m \<and> key_of st m = k)"

lemma lease_step_same: "er_leases st' = er_leases st \<Longrightarrow> lease_step st st'"
  by (auto simp: lease_step_def)

lemma lease_step_delete: "er_leases st' = AList.delete k (er_leases st) \<Longrightarrow> lease_step st st'"
  by (auto simp: lease_step_def set_alist_delete)

lemma lease_step_update:
  assumes "er_leases st' = AList.update k l (er_leases st)"
    and "\<And>m. ml_model l = Some m \<Longrightarrow> (\<exists>l0. map_of (er_leases st) k = Some l0 \<and> ml_model l0 = Some m) \<or> known st m \<and> key_of st m = k"
  shows "lease_step st st'"
  unfolding lease_step_def
proof (intro allI impI, elim conjE)
  fix q l' m assume a: "(q, l') \<in> set (er_leases st')" "ml_model l' = Some m"
  then have "(q, l') \<in> set (er_leases st) \<or> q = k \<and> l' = l" using subsetD [OF set_alist_update a(1) [unfolded assms(1)]] by auto
  then show "(\<exists>l0. (q, l0) \<in> set (er_leases st) \<and> ml_model l0 = Some m) \<or> known st m \<and> key_of st m = q"
    using a(2) assms(2) by (auto dest: map_of_SomeD)
qed

lemma lease_keys_step:
  assumes "lease_keys st" "lease_step st st'" "\<And>m. known st m \<Longrightarrow> key_of st' m = key_of st m \<and> known st' m"
  shows "lease_keys st'"
  unfolding lease_keys_def
proof (clarify, intro conjI)
  fix k l m assume "(k, l) \<in> set (er_leases st')" "ml_model l = Some m"
  then have "(\<exists>l0. (k, l0) \<in> set (er_leases st) \<and> ml_model l0 = Some m) \<or> known st m \<and> key_of st m = k"
    using assms(2) by (simp add: lease_step_def)
  then have "known st m \<and> key_of st m = k" using assms(1) by (fastforce simp: lease_keys_def)
  then show "known st' m" "key_of st' m = k" using assms(3) by auto
qed

lemma touches_mono: "touches K st st' \<Longrightarrow> K \<subseteq> L \<Longrightarrow> touches L st st'"
  unfolding touches_def by blast

section \<open>What each operation touches\<close>

lemma map_of_drop: "map_of (er_retained (drop_retained f k st)) q = (if q = k then (case map_of (er_retained st) k of None \<Rightarrow> None | Some e \<Rightarrow> None)
    else map_of (er_retained st) q)"
  by (simp add: drop_retained_def bump_def map_of_alist_delete split: option.split)

lemma update_touches:
  "touches {} st (snd (updateEditorModelOwner now i m a p st)) \<and> lease_step st (snd (updateEditorModelOwner now i m a p st))"
  by (rule conjI; rule touches_same lease_step_same) (simp_all add: updateEditorModelOwner_def Let_def split: option.split)

lemma remove_touches: "touches {} st (removeEditorModelOwner now i st) \<and> lease_step st (removeEditorModelOwner now i st)"
  by (rule conjI; rule touches_same lease_step_same) (simp_all add: removeEditorModelOwner_def split: option.split)

lemma shed_touches: "touches {} st (snd (shedInactiveEditorModels now st)) \<and> lease_step st (snd (shedInactiveEditorModels now st))"
  by (rule conjI; rule touches_same lease_step_same) (simp_all add: shedInactiveEditorModels_def Let_def)

lemma lease_touches: "touches {} st (snd (leaseEditorModel now k st)) \<and> lease_step st (snd (leaseEditorModel now k st))"
proof
  show "touches {} st (snd (leaseEditorModel now k st))" by (rule touches_same) (simp_all add: leaseEditorModel_def Let_def)
  show "lease_step st (snd (leaseEditorModel now k st))"
  proof (cases "map_of (er_leases st) k = None \<and> length (er_leases st) \<ge> MAX_PENDING_MODELS")
    case True
    then show ?thesis by (intro lease_step_same) (simp add: leaseEditorModel_def Let_def)
  next
    case False
    let ?l = "case map_of (er_leases st) k of Some l \<Rightarrow> l\<lparr>ml_count := Suc (ml_count l)\<rparr> | None \<Rightarrow> \<lparr>ml_count = 1, ml_model = None\<rparr>"
    show ?thesis
      by (rule lease_step_update [of _ k ?l]) (use False in \<open>auto simp: leaseEditorModel_def Let_def split: option.splits\<close>)
  qed
qed

lemma forget_touches: "touches {k} st (forgetEditorModel now k st) \<and> lease_step st (forgetEditorModel now k st)"
proof
  show "touches {k} st (forgetEditorModel now k st)" by (simp add: touches_def forgetEditorModel_def Let_def map_of_drop)
  show "lease_step st (forgetEditorModel now k st)" by (rule lease_step_same) (simp add: forgetEditorModel_def Let_def)
qed

lemma releaseKey_touches:
  assumes "lease_keys st"
  shows "touches (if owners_of st k = [] then {k} else {}) st (releaseKeyLease now k st) \<and> lease_step st (releaseKeyLease now k st)"
proof (cases "map_of (er_leases st) k")
  case None
  then show ?thesis by (auto simp: releaseKeyLease_def intro: touches_same lease_step_same)
next
  case (Some l)
  show ?thesis
  proof (cases "ml_count l - 1 > 0")
    case True
    have "lease_step st (releaseKeyLease now k st)"
      by (rule lease_step_update [of _ k "l\<lparr>ml_count := ml_count l - 1\<rparr>"]) (use True Some in \<open>simp_all add: releaseKeyLease_def\<close>)
    then show ?thesis using True Some by (simp add: releaseKeyLease_def touches_same)
  next
    case False
    let ?st1 = "st\<lparr>er_leases := AList.delete k (er_leases st)\<rparr>"
    have e: "releaseKeyLease now k st = syncGauges
        (if owners_of ?st1 k \<noteq> [] then reconcileOwnedKey now k ?st1
         else case ml_model l of None \<Rightarrow> ?st1 | Some m \<Rightarrow> (if is_disposed ?st1 m then ?st1 else dispose m ?st1))"
      using Some False by (simp only: releaseKeyLease_def Let_def option.case if_False)
    have o: "owners_of ?st1 k = owners_of st k" by (simp add: owners_of_def)
    have "lease_step st (releaseKeyLease now k st)"
      by (rule lease_step_delete [of _ k]) (simp add: e split: option.split)
    moreover have "known st m \<and> key_of st m = k" if "ml_model l = Some m" for m
      using assms that map_of_SomeD [OF Some] by (fastforce simp: lease_keys_def)
    then have "touches (if owners_of st k = [] then {k} else {}) st (releaseKeyLease now k st)"
      unfolding e o by (cases "ml_model l") (auto simp: touches_def dispose_def)
    ultimately show ?thesis by simp
  qed
qed

lemma release_touches:
  assumes "lease_keys st" "\<And>k. map_of (er_held st) i = Some (KeyLease k) \<Longrightarrow> owners_of st k = [] \<Longrightarrow> k \<in> K"
  shows "touches K st (releaseLease now i st) \<and> lease_step st (releaseLease now i st)"
proof (cases "map_of (er_held st) i")
  case None
  then show ?thesis by (simp add: releaseLease_def touches_same lease_step_same)
next
  case (Some h)
  let ?st0 = "st\<lparr>er_held := AList.delete i (er_held st)\<rparr>"
  show ?thesis
  proof (cases h)
    case (KeyLease k)
    have "lease_keys ?st0" using assms(1) by (simp add: lease_keys_def known_def key_of_def)
    from releaseKey_touches [OF this, of k now]
    have "touches (if owners_of st k = [] then {k} else {}) st (releaseKeyLease now k ?st0)" "lease_step st (releaseKeyLease now k ?st0)"
      by (simp_all add: touches_def lease_step_def owners_of_def known_def key_of_def dispose_def)
    have "(if owners_of st k = [] then {k} else {}) \<subseteq> K" using assms(2) [of k] Some KeyLease by auto
    with \<open>touches _ st _\<close> have "touches K st (releaseKeyLease now k ?st0)" by (rule touches_mono)
    then show ?thesis using Some KeyLease \<open>lease_step st (releaseKeyLease now k ?st0)\<close> by (simp add: releaseLease_def Let_def)
  next
    case OverflowLease
    then show ?thesis using Some by (intro conjI touches_same lease_step_same) (simp_all add: releaseLease_def Let_def)
  qed
qed

lemma close_touches:
  assumes "tables_inv st" "case fb of Some m \<Rightarrow> known st m \<and> key_of st m = k | None \<Rightarrow> True"
  shows "touches (if list_all (\<lambda>(j, ow). j = i \<or> ow_key ow \<noteq> k) (er_owners st) then {k} else {}) st (closeEditorModelOwner now ok i k fb st)
    \<and> lease_step st (closeEditorModelOwner now ok i k fb st)"
proof (cases rule: close_cases [of now ok i k fb st])
  case (shared st1)
  have "er_models st1 = er_models st" "er_retained st1 = er_retained st" "er_leases st1 = er_leases st" using shared(2) by auto
  then show ?thesis unfolding shared(1) by (intro conjI touches_same lease_step_same) simp_all
next
  case (last st1 st3)
  have frame: "er_models st3 = er_models st" "er_leases st3 = er_leases st" "\<And>q. q \<noteq> k \<Longrightarrow> map_of (er_retained st3) q = map_of (er_retained st) q"
    using last(1) unfolding last(2) by (auto simp: map_of_drop)
  have "list_all (\<lambda>(j, ow). j = i \<or> ow_key ow \<noteq> k) (er_owners st)"
    unfolding list_all_iff
  proof clarify
    fix j ow assume a: "(j, ow) \<in> set (er_owners st)" "j \<noteq> i" "k = ow_key ow"
    then have "(j, ow) \<in> set (er_owners st1)" using last(1) by (auto simp: set_alist_delete)
    then have "ow \<in> set (owners_of st1 k)" using a(3) by (auto simp: owners_of_set)
    then show False using last(3) by simp
  qed
  then have K: "(if list_all (\<lambda>(j, ow). j = i \<or> ow_key ow \<noteq> k) (er_owners st) then {k} else {}) = {k}" by simp
  have k: "known st m \<and> key_of st m = k" if "fb = Some m \<or> (\<exists>p. map_of (er_owners st) i = Some p \<and> ow_key p = k \<and> ow_model p = m)" for m
    using that
  proof
    assume "\<exists>p. map_of (er_owners st) i = Some p \<and> ow_key p = k \<and> ow_model p = m"
    then show ?thesis using assms(1) by (auto simp: tables_inv_def dest: map_of_SomeD)
  qed (use assms(2) in simp)
  have d: "er_models (dispose m st3) = er_models (dispose m st)" for m by (simp add: dispose_def frame)
  from last(4) consider (quiet) "er_models (closeEditorModelOwner now ok i k fb st) = er_models st3"
      "er_leases (closeEditorModelOwner now ok i k fb st) = er_leases st3" "er_retained (closeEditorModelOwner now ok i k fb st) = er_retained st3"
    | (gone) m where "fb = Some m \<or> (\<exists>p. map_of (er_owners st) i = Some p \<and> ow_key p = k \<and> ow_model p = m)"
      "closeEditorModelOwner now ok i k fb st = syncGauges (dispose m st3)"
    | (leased) m l where "fb = Some m \<or> (\<exists>p. map_of (er_owners st) i = Some p \<and> ow_key p = k \<and> ow_model p = m)"
      "closeEditorModelOwner now ok i k fb st = syncGauges (st3\<lparr>er_leases := AList.update k (l\<lparr>ml_model := Some m\<rparr>) (er_leases st3)\<rparr>)"
    by (elim disjE) (simp, simp, blast)
  then have "touches {k} st (closeEditorModelOwner now ok i k fb st) \<and> lease_step st (closeEditorModelOwner now ok i k fb st)" (is ?main)
  proof cases
    case quiet
    then show ?main by (simp add: touches_def lease_step_def frame) blast
  next
    case (leased m l)
    have "lease_step st (closeEditorModelOwner now ok i k fb st)"
      by (rule lease_step_update [of _ k "l\<lparr>ml_model := Some m\<rparr>"]) (use k [OF leased(1)] in \<open>simp_all add: leased(2) frame\<close>)
    then show ?main by (simp add: touches_def leased(2) frame)
  next
    case (gone m)
    have "lease_step st (closeEditorModelOwner now ok i k fb st)" by (rule lease_step_same) (simp add: gone(2) frame)
    moreover have "er_models (closeEditorModelOwner now ok i k fb st) = er_models (dispose m st)" by (simp add: gone(2) d)
    ultimately show ?main using k [OF gone(1)] by (auto simp: touches_def gone(2) frame)
  qed
  then show ?thesis unfolding K .
qed

text \<open>When the timer fires, the text of a file moves from its model to the table at most.\<close>

lemma drain_touches:
  assumes "cand_inv st"
  shows "(\<exists>k. touches {k} st (drainOne now ok st)) \<and> lease_step st (drainOne now ok st)"
proof (cases rule: drainOne_cases [of now ok st])
  case (compacted path c bytes nb)
  have "(path, c) \<in> set (er_candidates st)" using compacted(1) by (rule nextCandidate_mem)
  then have "known st (cd_model c) \<and> key_of st (cd_model c) = path" using assms by (auto simp: cand_inv_def)
  moreover have "er_models (drainOne now ok st) = er_models (dispose (cd_model c) st)" by (simp add: compacted(10) dispose_def)
  moreover have "q \<noteq> path \<Longrightarrow> map_of (er_retained (drainOne now ok st)) q = map_of (er_retained st) q" for q
    by (simp add: compacted(10) map_of_alist_update)
  moreover have "er_leases (drainOne now ok st) = er_leases st" by (simp add: compacted(10))
  ultimately show ?thesis by (auto simp: touches_def intro: lease_step_same)
qed (simp_all add: touches_def lease_step_def, auto)

lemma drain_text:
  assumes "cand_inv st" "tables_inv st" "one_model st"
  shows "file_text (drainOne now ok st) k = file_text st k"
proof (cases rule: drainOne_cases [of now ok st])
  case (compacted path c bytes nb)
  let ?st' = "drainOne now ok st"
  have "(path, c) \<in> set (er_candidates st)" using compacted(1) by (rule nextCandidate_mem)
  then have c: "known st (cd_model c) \<and> key_of st (cd_model c) = path" using assms(1) by (auto simp: cand_inv_def)
  have m: "er_models ?st' = er_models (dispose (cd_model c) st)" by (simp add: compacted(10) dispose_def)
  have r: "map_of (er_retained ?st') q = (if q = path then Some \<lparr>rt_text = text_of_model st (cd_model c), rt_bytes = bytes\<rparr> else map_of (er_retained st) q)" for q
    by (simp add: compacted(10) map_of_alist_update)
  show ?thesis
  proof (cases "k = path")
    case False
    have "touches {path} st ?st'" using c m r by (auto simp: touches_def)
    then show ?thesis using touches_text [OF assms(2)] False by simp
  next
    case True
    have live: "live_model st k = Some (cd_model c)" using c compacted(3) live_model_iff [OF assms(2,3)] True by simp
    have "tables_inv (dispose (cd_model c) st)" using assms(2) by (simp add: tables_inv_def)
    moreover have "one_model (dispose (cd_model c) st)" using assms(3) by (simp add: one_model_def is_disposed_dispose)
    ultimately have "live_model ?st' k \<noteq> Some m" for m
      unfolding is_disposed_models(4) [OF m] live_model_iff
      using assms(3) c compacted(3) True by (auto simp: live_model_iff is_disposed_dispose one_model_def)
    then have "live_model ?st' k = None" by (cases "live_model ?st' k") auto
    then show ?thesis using r [of k] live True by (simp add: file_text_def retainedEditorModelText_def)
  qed
qed (auto intro!: touches_text [OF assms(2), of "{}"] simp: touches_def)

section \<open>No text is lost\<close>

definition text_inv :: "editor_state \<Rightarrow> bool" where
  "text_inv st \<longleftrightarrow> retention_ok st \<and> one_model st \<and> lease_keys st"

lemma text_inv_parts: "text_inv st \<Longrightarrow> tables_inv st" "text_inv st \<Longrightarrow> cand_inv st" "text_inv st \<Longrightarrow> one_model st" "text_inv st \<Longrightarrow> lease_keys st"
  by (simp_all add: text_inv_def ok_but_def)

lemma text_inv_step:
  assumes "text_inv st" "retention_ok st'" "touches K st st'" "lease_step st st'"
  shows "text_inv st'"
  using assms(1,2) touches_one [OF assms(3)] lease_keys_step [OF _ assms(4)] touches_keys [OF assms(3)]
  by (simp add: text_inv_def)

text \<open>Refreshing the references to a live model.\<close>

lemma refresh_same [simp]:
  "er_models (refreshEditorModelInstance now m st) = er_models st" "er_retained (refreshEditorModelInstance now m st) = er_retained st"
  by (simp_all add: refreshEditorModelInstance_def Let_def)

lemma refresh_leases: "known st m \<Longrightarrow> lease_step st (refreshEditorModelInstance now m st)"
proof (cases "map_of (er_leases st) (key_of st m)")
  case None
  then show ?thesis by (intro lease_step_same) (simp add: refreshEditorModelInstance_def Let_def)
next
  case (Some l)
  assume "known st m"
  then show ?thesis using Some
    by (intro lease_step_update [of _ "key_of st m" "l\<lparr>ml_model := Some m\<rparr>"]) (simp_all add: refreshEditorModelInstance_def Let_def)
qed

text \<open>Opening a file.\<close>

lemma added_facts:
  assumes "tables_inv st"
  shows "known st m \<Longrightarrow> key_of (added_model k t st) m = key_of st m \<and> known (added_model k t st) m"
    and "key_of (added_model k t st) (length (er_models st)) = k" "text_of_model (added_model k t st) (length (er_models st)) = t"
    and "is_disposed (added_model k t st) m \<longleftrightarrow> m \<noteq> length (er_models st) \<and> is_disposed st m"
    and "live_model (added_model k t st) q = (if q = k then Some (length (er_models st)) else live_model st q)"
    and "q \<noteq> k \<Longrightarrow> live_model st q = Some m \<Longrightarrow> text_of_model (added_model k t st) m = text_of_model st m"
proof -
  have new: "\<not> known st (length (er_models st))" using known_less [OF assms] by simp
  show "known st m \<Longrightarrow> key_of (added_model k t st) m = key_of st m \<and> known (added_model k t st) m"
    using known_less [OF assms, of m] by (simp add: key_of_def known_def)
  show "is_disposed (added_model k t st) m \<longleftrightarrow> m \<noteq> length (er_models st) \<and> is_disposed st m"
    by (simp add: is_disposed_def)
  show "text_of_model (added_model k t st) m = text_of_model st m" if "live_model st q = Some m"
  proof -
    have "known st m" using live_modelD [OF that] by (force simp: known_def)
    then show ?thesis using known_less [OF assms, of m] by (simp add: text_of_model_def)
  qed
qed (simp_all add: key_of_def text_of_model_def live_model_def)

lemma ack_same: "q \<noteq> k \<Longrightarrow> map_of (er_retained (acknowledgeEditorModelRestore k st)) q = map_of (er_retained st) q"
  "er_leases (acknowledgeEditorModelRestore k st) = er_leases st"
  by (simp_all add: acknowledgeEditorModelRestore_def map_of_drop)

lemma open_new:
  assumes "text_inv st" "live_model st k = None"
  shows "text_inv (snd (modelFor now k c st)) \<and>
    (\<forall>q. file_text (snd (modelFor now k c st)) q
       = (if q = k then Some (case file_text st k of Some t \<Rightarrow> t | None \<Rightarrow> c) else file_text st q))
    \<and> \<not> is_disposed (snd (modelFor now k c st)) (fst (modelFor now k c st))
    \<and> key_of (snd (modelFor now k c st)) (fst (modelFor now k c st)) = k"
proof -
  let ?t = "case retainedEditorModelText st k of Some t \<Rightarrow> t | None \<Rightarrow> c"
  let ?m = "length (er_models st)"
  let ?st1 = "added_model k ?t st"
  let ?st2 = "acknowledgeEditorModelRestore k ?st1"
  let ?st' = "refreshEditorModelInstance now ?m ?st2"
  have e: "modelFor now k c st = (?m, ?st')" using modelFor_new [OF assms(2)] by simp
  have t: "tables_inv st" "one_model st" using assms(1) by (rule text_inv_parts)+
  note f = added_facts [OF t(1)]
  have same: "er_models ?st' = er_models ?st1" by simp
  have gone: "\<not> is_disposed st m \<Longrightarrow> key_of st m \<noteq> k" for m using live_model_iff [OF t, of k m] assms(2) by auto
  have "one_model ?st1"
    unfolding one_model_def
  proof (intro allI impI, elim conjE)
    fix m m' assume a: "\<not> is_disposed ?st1 m" "\<not> is_disposed ?st1 m'" "key_of ?st1 m = key_of ?st1 m'"
    have "m = ?m \<or> \<not> is_disposed st m \<and> key_of ?st1 m = key_of st m" "m' = ?m \<or> \<not> is_disposed st m' \<and> key_of ?st1 m' = key_of st m'"
      using a(1,2) f(1) not_disposed_known by (auto simp: f(4))
    then show "m = m'" using a(3) t(2) by (auto simp: one_model_def f(2) dest: gone)
  qed
  then have one: "one_model ?st'"
    by (simp add: one_model_def is_disposed_models [OF same])
  have "lease_keys ?st1" by (rule lease_keys_step [OF text_inv_parts(4) [OF assms(1)] lease_step_same]) (simp_all add: f(1))
  then have "lease_keys ?st2"
    by (rule lease_keys_step) (simp_all add: lease_step_same ack_same key_of_def known_def)
  then have "lease_keys ?st'"
  proof (rule lease_keys_step)
    show "lease_step ?st2 ?st'" by (rule refresh_leases) (simp add: known_def)
  qed (simp add: key_of_def known_def)
  moreover have "retention_ok ?st'" using assms(1) ok_modelFor [of st now k c] unfolding e by (simp add: text_inv_def)
  ultimately have "text_inv ?st'" using one by (simp add: text_inv_def)
  moreover have "file_text ?st' q = (if q = k then Some (case file_text st k of Some t \<Rightarrow> t | None \<Rightarrow> c) else file_text st q)" for q
  proof (cases "q = k")
    case True
    then show ?thesis by (simp add: file_text_def is_disposed_models(4,5) [OF same] f(3,5) assms(2))
  next
    case False
    have "retainedEditorModelText ?st' q = retainedEditorModelText st q" using False by (simp add: retainedEditorModelText_def ack_same)
    moreover have "live_model ?st' q = live_model st q" using False by (simp add: is_disposed_models(4) [OF same] f(5))
    moreover have "live_model st q = Some m \<Longrightarrow> text_of_model ?st' m = text_of_model st m" for m
      using f(6) [OF False] by (simp add: is_disposed_models(5) [OF same])
    ultimately show ?thesis using False by (simp add: file_text_def split: option.split)
  qed
  moreover have "\<not> is_disposed ?st' ?m" "key_of ?st' ?m = k" by (simp_all add: is_disposed_models [OF same] f(2,4))
  ultimately show ?thesis unfolding e by simp
qed

lemma open_live:
  assumes "text_inv st" "live_model st k = Some m"
  shows "text_inv (snd (modelFor now k c st)) \<and> fst (modelFor now k c st) = m
    \<and> (\<forall>q. file_text (snd (modelFor now k c st)) q = file_text st q) \<and> \<not> is_disposed st m \<and> key_of st m = k
    \<and> er_models (snd (modelFor now k c st)) = er_models st"
proof -
  let ?st' = "refreshEditorModelInstance now m st"
  have e: "modelFor now k c st = (m, ?st')" using assms(2) by (simp add: modelFor_def)
  have t: "tables_inv st" "one_model st" using assms(1) by (rule text_inv_parts)+
  have m: "\<not> is_disposed st m \<and> key_of st m = k" using assms(2) live_model_iff [OF t] by simp
  have "touches {} st ?st'" by (rule touches_same) simp_all
  moreover have "lease_step st ?st'" using m not_disposed_known by (intro refresh_leases) simp
  moreover have "retention_ok ?st'" using assms(1) ok_modelFor [of st now k c] unfolding e by (simp add: text_inv_def)
  ultimately show ?thesis using text_inv_step [OF assms(1)] touches_text [OF t(1)] m unfolding e by simp
qed


lemma edit_touches:
  assumes "tables_inv st"
  shows "is_disposed (edit_model m t st) i = is_disposed st i" "live_model (edit_model m t st) k = live_model st k"
    and "i \<noteq> m \<Longrightarrow> text_of_model (edit_model m t st) i = text_of_model st i"
proof -
  have "map_option fst (find (\<lambda>(i, tm). tm_key tm = k \<and> \<not> tm_disposed tm)
        (map (\<lambda>(i, tm). (i, if i = m \<and> \<not> tm_disposed tm then tm\<lparr>tm_text := t\<rparr> else tm)) xs))
      = map_option fst (find (\<lambda>(i, tm). tm_key tm = k \<and> \<not> tm_disposed tm) xs)" for xs
  proof (induction xs)
    case (Cons x xs)
    then show ?case by (cases x; cases "fst x = m \<and> \<not> tm_disposed (snd x)") auto
  qed simp
  then show "live_model (edit_model m t st) k = live_model st k" by (simp add: live_model_def edit_model_def)
qed (simp_all add: is_disposed_def text_of_model_def map_of_edit split: option.split)

lemma edit_text:
  assumes "text_inv st" "key_of st m \<noteq> k"
  shows "file_text (edit_model m t st) k = file_text st k"
proof -
  have s: "tables_inv st" "one_model st" using assms(1) by (rule text_inv_parts)+
  have "live_model st k = Some i \<Longrightarrow> i \<noteq> m" for i using live_model_iff [OF s, of k i] assms(2) by auto
  then show ?thesis using edit_touches [OF s(1)] by (simp add: file_text_def retainedEditorModelText_def split: option.split)
qed

lemma edit_text_inv: "text_inv st \<Longrightarrow> text_inv (edit_model m t st)"
  using edit_touches(1) text_inv_parts(1) by (simp add: text_inv_def ok_edit one_model_def lease_keys_def)

text \<open>The operations that may end or change the text of a file: an edit of its model, the close of its last tab, \<^verbatim>\<open>forget\<close>, and the
  release of a lease when no tab owns it.\<close>

fun ends_text :: "editor_op \<Rightarrow> editor_state \<Rightarrow> string \<Rightarrow> bool" where
  "ends_text (Edit m t) st k = (key_of st m = k)"
| "ends_text (CloseFile now ok i q fb) st k = (q = k \<and> list_all (\<lambda>(j, ow). j = i \<or> ow_key ow \<noteq> k) (er_owners st))"
| "ends_text (Forget now q) st k = (q = k)"
| "ends_text (ReleaseLease now i) st k = (map_of (er_held st) i = Some (KeyLease k) \<and> owners_of st k = [])"
| "ends_text op st k = False"

lemma apply_touches:
  assumes "text_inv st" "allowed op st"
  shows "text_inv (apply_op op st) \<and> (\<forall>k t. \<not> ends_text op st k \<and> file_text st k = Some t \<longrightarrow> file_text (apply_op op st) k = Some t)"
proof -
  have i: "tables_inv st" "cand_inv st" "one_model st" "lease_keys st" using assms(1) by (rule text_inv_parts)+
  have r: "retention_ok (apply_op op st)" using assms ok_apply by (simp add: text_inv_def)
  have step: ?thesis if "touches K st (apply_op op st) \<and> lease_step st (apply_op op st)" "\<And>k. k \<in> K \<Longrightarrow> ends_text op st k" for K
  proof -
    have t: "touches K st (apply_op op st)" and l: "lease_step st (apply_op op st)" using that(1) by simp_all
    have "file_text (apply_op op st) k = file_text st k" if "\<not> ends_text op st k" for k
      using touches_text [OF i(1) t, of k] that \<open>\<And>k. k \<in> K \<Longrightarrow> ends_text op st k\<close> by auto
    then show ?thesis using text_inv_step [OF assms(1) r t l] by simp
  qed
  show ?thesis
  proof (cases op)
    case (OpenFile now k c)
    then show ?thesis
      using open_new [OF assms(1), of k now c] open_live [OF assms(1), of k _ now c] by (cases "live_model st k") auto
  next
    case (Edit m t)
    then show ?thesis using edit_text [OF assms(1)] edit_text_inv [OF assms(1)] by auto
  next
    case (ShowModel now j m a p)
    show ?thesis by (rule step [of "{}"]) (simp_all add: ShowModel update_touches)
  next
    case (Unmount now j)
    show ?thesis by (rule step [of "{}"]) (simp_all add: Unmount remove_touches)
  next
    case (CloseFile now ok j q fb)
    show ?thesis
      by (rule step, unfold CloseFile apply_op.simps, rule close_touches [OF i(1)]) (use assms(2) CloseFile in \<open>auto split: if_splits option.splits\<close>)
  next
    case (Lease now k)
    show ?thesis by (rule step [of "{}"]) (simp_all add: Lease lease_touches)
  next
    case (ReleaseLease now j)
    show ?thesis
      by (rule step [of "{k. ends_text op st k}"], unfold ReleaseLease apply_op.simps, rule release_touches [OF i(4)]) simp_all
  next
    case (TimerFires now ok)
    obtain k where "touches {k} st (apply_op op st)" "lease_step st (apply_op op st)" using drain_touches [OF i(2)] TimerFires by fastforce
    then have "text_inv (apply_op op st)" by (rule text_inv_step [OF assms(1) r])
    then show ?thesis using drain_text [OF i(2,1,3)] by (simp add: TimerFires)
  next
    case (Shed now)
    show ?thesis by (rule step [of "{}"]) (simp_all add: Shed shed_touches)
  next
    case (Forget now k)
    show ?thesis by (rule step [of "{k}"]) (simp_all add: Forget forget_touches)
  qed
qed

lemma reaches_text_inv: "editor_reaches st \<Longrightarrow> text_inv st"
proof (induction rule: editor_reaches.induct)
  case starts
  then show ?case using ok_empty by (simp add: text_inv_def one_model_def lease_keys_def is_disposed_def empty_editor_def)
next
  case (continues st op)
  then show ?case using apply_touches by blast
qed

text \<open>No text is lost. Whatever happens to the editor, the text of a file, be it in its live model or kept after
  compaction, stays what it is until it is edited, the last tab that owns it closes, it is forgotten, or a lease is released
  on a file no tracked tab owns; in particular compaction, a failed disposal and a restore never change it.\<close>

theorem no_text_is_lost:
  assumes "editor_reaches st" "allowed op st" "\<not> ends_text op st k" "file_text st k = Some t"
  shows "file_text (apply_op op st) k = Some t"
  using apply_touches [OF reaches_text_inv [OF assms(1)] assms(2)] assms(3,4) by blast

text \<open>A compacted file comes back as it was: opening a file yields a live model of that file with the text the editor had
  for it, live or kept, and only for a file it had no text of the content given; the text is then the one the editor has for
  the file.\<close>

theorem reopening_restores_the_text:
  assumes "editor_reaches st"
  shows "\<exists>m st'. modelFor now k c st = (m, st') \<and> \<not> is_disposed st' m \<and> key_of st' m = k
    \<and> text_of_model st' m = (case file_text st k of Some t \<Rightarrow> t | None \<Rightarrow> c) \<and> file_text st' k = Some (text_of_model st' m)"
proof -
  let ?m = "fst (modelFor now k c st)" and ?st' = "snd (modelFor now k c st)"
  have i: "text_inv st" using assms by (rule reaches_text_inv)
  have o: "text_inv ?st' \<and> \<not> is_disposed ?st' ?m \<and> key_of ?st' ?m = k \<and> file_text ?st' k = Some (case file_text st k of Some t \<Rightarrow> t | None \<Rightarrow> c)"
  proof (cases "live_model st k")
    case None
    then show ?thesis using open_new [OF i None, of now c] by simp
  next
    case (Some m)
    have l: "text_inv ?st' \<and> ?m = m \<and> (\<forall>q. file_text ?st' q = file_text st q) \<and> \<not> is_disposed st m \<and> key_of st m = k
        \<and> er_models ?st' = er_models st" by (rule open_live [OF i Some])
    then have "is_disposed ?st' m = is_disposed st m" "key_of ?st' m = key_of st m" by (simp_all add: is_disposed_def key_of_def)
    then show ?thesis using l by (simp add: file_text_def Some)
  qed
  then have "live_model ?st' k = Some ?m" using o live_model_iff [OF text_inv_parts(1) text_inv_parts(3), of ?st' k ?m] by blast
  then have "text_of_model ?st' ?m = (case file_text st k of Some t \<Rightarrow> t | None \<Rightarrow> c)" using o by (simp add: file_text_def)
  then show ?thesis using o by (intro exI [of _ ?m] exI [of _ ?st']) simp
qed

section \<open>A short session, and an owner too many\<close>

definition demo_open :: editor_state where
  "demo_open = apply_op (OpenFile 0 ''a'' [104, 105]) empty_editor"

definition demo_hidden :: editor_state where
  "demo_hidden = apply_op (ShowModel 0 ''t'' 0 False False) demo_open"

lemma demo_open_reached: "editor_reaches demo_open"
  unfolding demo_open_def by (rule editor_reaches.continues [OF editor_reaches.starts]) simp

lemma demo_hidden_reached: "editor_reaches demo_hidden"
  unfolding demo_hidden_def
  by (rule editor_reaches.continues [OF demo_open_reached]) code_simp

theorem compaction_takes_only_idle_models_witness:
  "owners_of demo_hidden ''a'' \<noteq> [] \<and> er_leases demo_hidden = [] 
    \<and> retainedEditorModelText (drainOne 60000 True demo_hidden) ''a'' = Some [104, 105]"
proof -
  have k: "key_of demo_hidden 0 = ''a''" "text_of_model demo_hidden 0 = [104, 105]" "er_leases demo_hidden = []"
    by code_simp+
  have d: "\<not> is_disposed demo_hidden 0" "is_disposed (drainOne 60000 True demo_hidden) 0"
    by code_simp+
  show ?thesis using compaction_takes_only_idle_models [OF demo_hidden_reached d] k by simp
qed

theorem retention_is_bounded_witness:
  "length (er_retained demo_hidden) \<le> 32 \<and> length (er_candidates demo_hidden) \<le> 128"
  using retention_is_bounded [OF demo_hidden_reached] by simp

theorem no_text_is_lost_witness:
  "file_text (apply_op (TimerFires 60000 True) demo_hidden) ''a'' = Some [104, 105]"
  by (rule no_text_is_lost [OF demo_hidden_reached]) code_simp+

lemma demo_compacted_reached: "editor_reaches (apply_op (TimerFires 60000 True) demo_hidden)"
  by (rule editor_reaches.continues [OF demo_hidden_reached]) simp

theorem reopening_restores_the_text_witness:
  "\<exists>m st'. modelFor 70000 ''a'' [] (apply_op (TimerFires 60000 True) demo_hidden) = (m, st') \<and> text_of_model st' m = [104, 105]"
proof -
  have "file_text (apply_op (TimerFires 60000 True) demo_hidden) ''a'' = Some [104, 105]"
    by code_simp
  then show ?thesis using reopening_restores_the_text [OF demo_compacted_reached, of 70000 "''a''" "[]"] by (metis option.simps(5))
qed

text \<open>When 256 owners are tracked, the next view is not, and its model has no owner: the release of a lease, by which an agent
  worked on the file, disposes the model the view shows.\<close>

definition full_open :: editor_state where
  "full_open = apply_op (OpenFile 0 ''b'' []) (apply_op (OpenFile 0 ''a'' []) empty_editor)"

fun full_owners :: "nat \<Rightarrow> editor_state" where
  "full_owners 0 = full_open"
| "full_owners (Suc n) = apply_op (ShowModel 0 (replicate n CHR ''x'') 0 True False) (full_owners n)"

lemma full_open_facts: "key_of full_open 0 = ''a''" "key_of full_open 1 = ''b''" "\<not> is_disposed full_open 0" "\<not> is_disposed full_open 1"
  "live_model full_open ''b'' = Some 1" "er_leases full_open = []" "er_held full_open = []" "er_nextHeld full_open = 0" "er_owners full_open = []"
  by code_simp+

lemma full_owners_facts:
  "n \<le> 256 \<Longrightarrow> editor_reaches (full_owners n) \<and> er_models (full_owners n) = er_models full_open \<and> er_leases (full_owners n) = []
    \<and> er_held (full_owners n) = [] \<and> er_nextHeld (full_owners n) = 0 \<and> length (er_owners (full_owners n)) = n
    \<and> (\<forall>(i, ow)\<in>set (er_owners (full_owners n)). length i < n \<and> set i \<subseteq> {CHR ''x''} \<and> ow_key ow = ''a'')"
proof (induction n)
  case 0
  have "editor_reaches full_open"
    unfolding full_open_def by (intro editor_reaches.continues editor_reaches.starts) simp_all
  then show ?case by (simp add: full_open_facts)
next
  case (Suc n)
  let ?st = "full_owners n"
  have IH: "editor_reaches ?st" "er_models ?st = er_models full_open" "er_leases ?st = []" "er_held ?st = []" "er_nextHeld ?st = 0"
    "length (er_owners ?st) = n" "\<forall>(i, ow)\<in>set (er_owners ?st). length i < n \<and> set i \<subseteq> {CHR ''x''} \<and> ow_key ow = ''a''"
    using Suc by simp_all
  let ?ow = "\<lparr>ow_key = ''a'', ow_model = 0, ow_active = True, ow_protected = False\<rparr>"
  have new: "map_of (er_owners ?st) (replicate n CHR ''x'') = None"
    using IH(7) by (force simp: map_of_eq_None_iff)
  have m: "key_of ?st 0 = ''a''" "\<not> is_disposed ?st 0"
    using full_open_facts(1,3) by (simp_all add: is_disposed_models(1,2) [OF IH(2)])
  have "full_owners (Suc n) = syncGauges (reconcileOwnedKey 0 ''a'' (?st\<lparr>er_owners := er_owners ?st @ [(replicate n CHR ''x'', ?ow)]\<rparr>))"
    using Suc.prems IH(6) new m(1) by (simp add: updateEditorModelOwner_def MAX_TRACKED_OWNERS_def update_new Let_def)
  moreover have "editor_reaches (full_owners (Suc n))"
    unfolding full_owners.simps by (rule editor_reaches.continues [OF IH(1)]) (simp add: m(2))
  ultimately show ?case using IH by (auto simp: less_Suc_eq)
qed

lemma untracked_view_loses_its_model:
  "\<exists>st m. editor_reaches st \<and> \<not> is_disposed st m
    \<and> (let st1 = snd (updateEditorModelOwner 0 ''tab'' m True True st); (i, st2) = leaseEditorModel 0 (key_of st m) st1;
           (m', st3) = modelFor 0 (key_of st m) [] st2
       in m' = m \<and> is_disposed (releaseLease 0 i st3) m)"
proof -
  let ?st = "full_owners 256"
  have f: "editor_reaches ?st" "er_models ?st = er_models full_open" "er_leases ?st = []" "er_held ?st = []" "er_nextHeld ?st = 0"
    "length (er_owners ?st) = 256" "\<forall>(i, ow)\<in>set (er_owners ?st). set i \<subseteq> {CHR ''x''} \<and> ow_key ow = ''a''"
    using full_owners_facts [of 256] by auto
  have m: "key_of ?st 1 = ''b''" "\<not> is_disposed ?st 1"
    using full_open_facts(2,4) by (simp_all add: is_disposed_models(1,2) [OF f(2)])
  have new: "map_of (er_owners ?st) ''tab'' = None" using f(7) by (force simp: map_of_eq_None_iff)
  have none: "owners_of st' ''b'' = []" if "er_owners st' = er_owners ?st" for st'
    using f(7) by (force simp: owners_of_def that filter_empty_conv)
  define st1 where "st1 = snd (updateEditorModelOwner 0 ''tab'' 1 True True ?st)"
  have s1: "er_models st1 = er_models full_open" "er_leases st1 = []" "er_nextHeld st1 = 0" "er_owners st1 = er_owners ?st"
    using f new by (simp_all add: st1_def updateEditorModelOwner_def Let_def MAX_TRACKED_OWNERS_def)
  obtain i st2 where l: "leaseEditorModel 0 ''b'' st1 = (i, st2)" by fastforce
  have s2: "i = 0" "er_models st2 = er_models full_open" "er_leases st2 = [(''b'', \<lparr>ml_count = 1, ml_model = None\<rparr>)]"
    "map_of (er_held st2) 0 = Some (KeyLease ''b'')" "er_owners st2 = er_owners ?st"
    using l s1 by (auto simp: leaseEditorModel_def Let_def MAX_PENDING_MODELS_def)
  define st3 where "st3 = refreshEditorModelInstance 0 1 st2"
  have live: "live_model st2 ''b'' = Some 1" "key_of st2 1 = ''b''" "\<not> is_disposed st2 1"
    using full_open_facts(2,4,5) by (simp_all add: is_disposed_models(1,2,4) [OF s2(2)])
  have o: "modelFor 0 ''b'' [] st2 = (1, st3)" by (simp add: modelFor_def live(1) st3_def)
  have "map (\<lambda>(i, ow). (i, if ow_key ow = ''b'' then ow\<lparr>ow_model := m\<rparr> else ow)) (er_owners ?st) = er_owners ?st" for m
    using f(7) by (intro map_idI) auto
  then have s3: "er_models st3 = er_models full_open" "er_leases st3 = [(''b'', \<lparr>ml_count = 1, ml_model = Some 1\<rparr>)]"
    "map_of (er_held st3) 0 = Some (KeyLease ''b'')" "er_owners st3 = er_owners ?st"
    using s2 live(2) by (simp_all add: st3_def refreshEditorModelInstance_def Let_def)
  have nd: "\<not> is_disposed st 1" if "er_models st = er_models full_open" for st
    using full_open_facts(4) by (simp add: is_disposed_models(1) [OF that])
  have sg: "is_disposed (syncGauges s) x = is_disposed s x" for s x by (simp add: is_disposed_def)
  have "is_disposed (releaseLease 0 0 st3) 1"
    using s3 none nd by (simp add: releaseLease_def releaseKeyLease_def Let_def sg is_disposed_dispose)
  then show ?thesis using f(1) m l o s2(1) unfolding st1_def by (intro exI [of _ ?st] exI [of _ 1]) simp
qed

end
