(* ===== verification/MemoryStore.thy ===== *)
theory MemoryStore
  imports WorkflowJson
begin

text \<open>
  Team memory, its store: the append-only ledger of \<^verbatim>\<open>src/src/ledger.ts\<close> and \<^verbatim>\<open>src/src-tauri/src/ledger.rs\<close> (append, the
  folding of supersede chains, queries, status changes) and the memory entries of \<^verbatim>\<open>src/src/memoryLedger.ts\<close> kept in it.

  The ledger of one repository is the list of its entries, oldest first. The identifier an append draws and the time are
  arguments; \<open>line_len\<close> is the length of an entry's line of JSON. Status strings other than those of memory are \<open>OtherStatus\<close>.
\<close>

section \<open>Entries\<close>

datatype ledger_kind = KPlan | KReceipt | KMemory | KAwareness | KHandoff | KRule | KSpend | KReview | KOutcome

datatype author_kind = ByAgent | ByHuman | ByBrain | ByWorkspace

record ledger_author =
  au_kind :: author_kind
  au_name :: string
  au_sessionId :: "string option"
  au_cli :: "string option"
  au_ptyId :: "nat option"

datatype mem_type = Decision | Constraint | Convention | Fact

datatype mem_scope = Personal | ProjectScope | TeamScope

datatype mem_status = Proposed | Quarantined | Approved | Rejected | Expired | Superseded | OtherStatus string

datatype mem_source = FromBrain | FromAgent | FromHuman

record mem_provenance =
  pv_sessionId :: "string option"
  pv_cli :: "string option"
  pv_turnId :: "string option"
  pv_files :: "string list"
  pv_prompt :: "string option"

record memory_data =
  md_memoryId :: string
  md_type :: mem_type
  md_text :: string
  md_why :: string
  md_confidence :: rat
  md_createdAt :: int
  md_source :: mem_source
  md_provenance :: mem_provenance
  md_untrusted :: "string list option"
  md_contradicts :: "string list option"
  md_supersedes :: "string list option"
  md_checkedAt :: "int option"
  md_supersededBy :: "string option"
  md_reconfirmedAt :: "int option"
  md_editedAt :: "int option"
  md_consolidatedFrom :: "string list option"
  md_retired :: bool
  md_retiredReason :: "string option"

record lease_data =
  ls_key :: string
  ls_owner :: string

datatype entry_data = MemoryData memory_data | LeaseData lease_data | OtherData

record ledger_entry =
  le_id :: string
  le_kind :: ledger_kind
  le_ts :: int
  le_author :: ledger_author
  le_scope :: mem_scope
  le_subject :: "js_string option"
  le_ref :: "(string \<times> string) option"
  le_data :: entry_data
  le_expires :: "int option"
  le_supersedes :: "string option"
  le_status :: "mem_status option"

section \<open>The store\<close>

datatype ledger_error = NoAuthorName | EntryTooLong | ChainLoops | NoSuchEntry | MemoryGone | BadMemory

definition ENTRY_MAX :: nat where "ENTRY_MAX = 256 * 1024"
definition DEFAULT_LIMIT :: nat where "DEFAULT_LIMIT = 200"
definition MAX_LIMIT :: nat where "MAX_LIMIT = 5000"

definition append_in :: "(ledger_entry \<Rightarrow> nat) \<Rightarrow> int \<Rightarrow> string \<Rightarrow> ledger_entry \<Rightarrow> ledger_entry list
    \<Rightarrow> ledger_error + ledger_entry \<times> ledger_entry list" where
  "append_in line_len now fresh e led =
     (if list_all rust_space (au_name (le_author e)) then Inl NoAuthorName
      else
        let e1 = e\<lparr>le_ts := (if le_ts e = 0 then now else le_ts e)\<rparr>;
            e2 = e1\<lparr>le_id := (if le_id e1 = [] then fresh else le_id e1)\<rparr>
        in if line_len e2 > ENTRY_MAX then Inl EntryTooLong else Inr (e2, led @ [e2]))"

text \<open>\<^verbatim>\<open>fold\<close>: every entry another one supersedes is dropped.\<close>

definition superseded_ids :: "ledger_entry list \<Rightarrow> string list" where
  "superseded_ids led = List.map_filter le_supersedes led"

definition fold_chains :: "ledger_entry list \<Rightarrow> ledger_entry list" where
  "fold_chains led = filter (\<lambda>e. le_id e \<notin> set (superseded_ids led)) led"

record ledger_query =
  lq_kinds :: "ledger_kind list option"
  lq_refKind :: "string option"
  lq_refId :: "string option"
  lq_sinceTs :: "int option"
  lq_limit :: "nat option"

definition in_date :: "int \<Rightarrow> ledger_entry \<Rightarrow> bool" where
  "in_date now e = (case le_expires e of None \<Rightarrow> True | Some t \<Rightarrow> t > now)"

definition query_matches :: "int \<Rightarrow> ledger_query \<Rightarrow> ledger_entry \<Rightarrow> bool" where
  "query_matches now q e \<longleftrightarrow>
     in_date now e
     \<and> (case lq_kinds q of None \<Rightarrow> True | Some ks \<Rightarrow> ks = [] \<or> le_kind e \<in> set ks)
     \<and> (case lq_sinceTs q of None \<Rightarrow> True | Some s \<Rightarrow> le_ts e \<ge> s)
     \<and> (case lq_refKind q of None \<Rightarrow> True | Some k \<Rightarrow> (case le_ref e of Some r \<Rightarrow> fst r = k | None \<Rightarrow> False))
     \<and> (case lq_refId q of None \<Rightarrow> True | Some i \<Rightarrow> (case le_ref e of Some r \<Rightarrow> snd r = i | None \<Rightarrow> False))"

definition query_in :: "int \<Rightarrow> ledger_query \<Rightarrow> ledger_entry list \<Rightarrow> ledger_entry list" where
  "query_in now q led =
     take (max 1 (min MAX_LIMIT (case lq_limit q of Some n \<Rightarrow> n | None \<Rightarrow> DEFAULT_LIMIT)))
       (sort_key (\<lambda>e. - le_ts e) (rev (filter (query_matches now q) (fold_chains led))))"

text \<open>The successors of an entry; of two, the later in the file is followed. \<open>n\<close> is the number of hops left.\<close>

definition successor_of :: "ledger_entry list \<Rightarrow> string \<Rightarrow> string option" where
  "successor_of led = map_of (rev (List.map_filter (\<lambda>e. map_option (\<lambda>s. (s, le_id e)) (le_supersedes e)) led))"

fun chain_head :: "nat \<Rightarrow> (string \<Rightarrow> string option) \<Rightarrow> string \<Rightarrow> string option" where
  "chain_head n succ h =
     (case succ h of None \<Rightarrow> Some h | Some h' \<Rightarrow> (case n of 0 \<Rightarrow> None | Suc n' \<Rightarrow> chain_head n' succ h'))"

declare chain_head.simps [simp del]

definition update_status_in :: "(ledger_entry \<Rightarrow> nat) \<Rightarrow> int \<Rightarrow> string \<Rightarrow> string \<Rightarrow> mem_status \<Rightarrow> ledger_entry list
    \<Rightarrow> ledger_error + ledger_entry \<times> ledger_entry list" where
  "update_status_in line_len now fresh i status led =
     (case chain_head (length led) (successor_of led) i of
        None \<Rightarrow> Inl ChainLoops
      | Some h \<Rightarrow>
          (case find (\<lambda>e. le_id e = h) (rev led) of
             None \<Rightarrow> Inl NoSuchEntry
           | Some e \<Rightarrow> append_in line_len now fresh
               (e\<lparr>le_id := [], le_ts := 0, le_supersedes := Some (le_id e), le_status := Some status\<rparr>) led))"

section \<open>Memory entries\<close>

definition memory_of :: "ledger_entry \<Rightarrow> memory_data option" where
  "memory_of e = (case le_data e of MemoryData d \<Rightarrow> Some d | _ \<Rightarrow> None)"

definition memoryStatus :: "ledger_entry \<Rightarrow> mem_status" where
  "memoryStatus e = (case le_status e of Some s \<Rightarrow> s | None \<Rightarrow> Proposed)"

definition servedToAgents :: "int \<Rightarrow> ledger_entry \<Rightarrow> bool" where
  "servedToAgents now e \<longleftrightarrow> memoryStatus e = Approved \<and> in_date now e"

definition needsReview :: "ledger_entry \<Rightarrow> bool" where
  "needsReview e \<longleftrightarrow> memoryStatus e = Proposed \<or> memoryStatus e = Quarantined"

definition DAY_MS :: int where "DAY_MS = 24 * 60 * 60 * 1000"

definition RECONFIRM_WINDOW_MS :: int where "RECONFIRM_WINDOW_MS = 14 * DAY_MS"

definition TOMBSTONE_MS :: int where "TOMBSTONE_MS = 30 * DAY_MS"

definition nearExpiry :: "int \<Rightarrow> ledger_entry \<Rightarrow> bool" where
  "nearExpiry now e \<longleftrightarrow> memoryStatus e = Approved \<and> (case le_expires e of Some t \<Rightarrow> t - now < RECONFIRM_WINDOW_MS | None \<Rightarrow> False)"

record memory_settings =
  ms_autoExtract :: bool
  ms_factExpiryDays :: int
  ms_decisionExpiryDays :: int
  ms_skipUntrusted :: bool

definition expiryFor :: "memory_settings \<Rightarrow> mem_type \<Rightarrow> int \<Rightarrow> int" where
  "expiryFor s t start = start + (if t = Fact then ms_factExpiryDays s else ms_decisionExpiryDays s) * DAY_MS"

definition tombstoneUntil :: "int \<Rightarrow> int" where
  "tombstoneUntil now = now + TOMBSTONE_MS"

text \<open>One row for each memory, the newest.\<close>

fun first_of_each :: "string list \<Rightarrow> ledger_entry list \<Rightarrow> ledger_entry list" where
  "first_of_each seen [] = []"
| "first_of_each seen (e # es) =
     (case memory_of e of
        None \<Rightarrow> first_of_each seen es
      | Some d \<Rightarrow>
          (if md_memoryId d = [] \<or> md_memoryId d \<in> set seen then first_of_each seen es
           else e # first_of_each (md_memoryId d # seen) es))"

definition memory_query :: ledger_query where
  "memory_query = \<lparr>lq_kinds = Some [KMemory], lq_refKind = None, lq_refId = None, lq_sinceTs = None, lq_limit = Some 5000\<rparr>"

definition listMemories :: "int \<Rightarrow> ledger_entry list \<Rightarrow> ledger_entry list" where
  "listMemories now led = first_of_each [] (query_in now memory_query led)"

definition has_id :: "string \<Rightarrow> ledger_entry \<Rightarrow> bool" where
  "has_id i e = (case memory_of e of Some d \<Rightarrow> md_memoryId d = i | None \<Rightarrow> False)"

definition head_of :: "int \<Rightarrow> string \<Rightarrow> ledger_entry list \<Rightarrow> ledger_entry option" where
  "head_of now i led = find (has_id i) (listMemories now led)"

end
