(* ===== verification/MemoryRules.thy ===== *)
theory MemoryRules
  imports MemoryStore "HOL-Library.Code_Target_Nat"
begin

text \<open>
  Team memory, the rules the brain's answers are held to (\<^verbatim>\<open>validateExtraction\<close>, \<^verbatim>\<open>validateConsolidation\<close>,
  \<^verbatim>\<open>validateContradiction\<close>), the prefilter of contradictions, the untrusted-content rule and the generated section of an
  instruction file, all of \<^verbatim>\<open>src/src/memoryLedger.ts\<close>, and the proposals of agents in
  \<^verbatim>\<open>src/crates/canopy-core/src/memory.rs\<close>.

  \<open>num\<close> prints a number, for \<^verbatim>\<open>Number\<close> of an array.
\<close>

section \<open>The language's numbers\<close>

text \<open>\<^verbatim>\<open>Number(s)\<close> of a string; \<open>None\<close> when it is not finite.\<close>

definition digit_of :: "nat \<Rightarrow> char \<Rightarrow> nat option" where
  "digit_of base c =
     (let n = of_char c :: nat;
          d = (if 48 \<le> n \<and> n \<le> 57 then n - 48 else if 97 \<le> n \<and> n \<le> 102 then n - 87 else if 65 \<le> n \<and> n \<le> 70 then n - 55 else 99)
      in if d < base then Some d else None)"

fun digits_of :: "nat \<Rightarrow> string \<Rightarrow> nat \<Rightarrow> nat option" where
  "digits_of base [] acc = Some acc"
| "digits_of base (c # cs) acc = (case digit_of base c of None \<Rightarrow> None | Some d \<Rightarrow> digits_of base cs (acc * base + d))"

definition is_digit :: "char \<Rightarrow> bool" where
  "is_digit c \<longleftrightarrow> digit_of 10 c \<noteq> None"

definition sign_of :: "string \<Rightarrow> int \<times> string" where
  "sign_of s = (case s of [] \<Rightarrow> (1, []) | c # cs \<Rightarrow> (if c = CHR ''-'' then (-1, cs) else if c = CHR ''+'' then (1, cs) else (1, s)))"

definition exponent_of :: "string \<Rightarrow> int option" where
  "exponent_of s =
     (case s of
        [] \<Rightarrow> Some 0
      | c # cs \<Rightarrow>
          (if c = CHR ''e'' \<or> c = CHR ''E'' then
             (let (sg, ds) = sign_of cs in if ds = [] then None else map_option (\<lambda>n. sg * int n) (digits_of 10 ds 0))
           else None))"

definition decimal_of :: "string \<Rightarrow> rat option" where
  "decimal_of s =
     (let (sg, r) = sign_of s;
          whole = takeWhile is_digit r; r1 = dropWhile is_digit r;
          (frac, r2) = (case r1 of c # cs \<Rightarrow> (if c = CHR ''.'' then (takeWhile is_digit cs, dropWhile is_digit cs) else ([], r1)) | [] \<Rightarrow> ([], []))
      in if whole = [] \<and> frac = [] then None
         else case (digits_of 10 (whole @ frac) 0, exponent_of r2) of
           (Some n, Some e) \<Rightarrow>
             (let k = e - int (length frac)
              in Some (of_int sg * of_nat n * (if k \<ge> 0 then 10 ^ nat k else inverse (10 ^ nat (- k)))))
         | _ \<Rightarrow> None)"

definition finite_double :: "rat \<Rightarrow> bool" where
  "finite_double r \<longleftrightarrow> \<bar>r\<bar> < 2 ^ 1024 - 2 ^ 970"

definition number_of_string :: "string \<Rightarrow> rat option" where
  "number_of_string s0 =
     (let s = trim_str s0; p = take 2 s; ds = drop 2 s;
          base = (if p = ''0x'' \<or> p = ''0X'' then 16 else if p = ''0o'' \<or> p = ''0O'' then 8 else if p = ''0b'' \<or> p = ''0B'' then 2 else 10)
      in if s = [] then Some 0
         else if base \<noteq> 10 then (if ds = [] then None else map_option of_nat (digits_of base ds 0))
         else case decimal_of s of Some r \<Rightarrow> (if finite_double r then Some r else None) | None \<Rightarrow> None)"

definition js_Number :: "(rat \<Rightarrow> string) \<Rightarrow> json option \<Rightarrow> rat option" where
  "js_Number num v =
     (case v of
        None \<Rightarrow> None
      | Some JNull \<Rightarrow> Some 0
      | Some (JBool b) \<Rightarrow> Some (if b then 1 else 0)
      | Some (JNum r) \<Rightarrow> Some r
      | Some (JInfinity neg) \<Rightarrow> None
      | Some (JStr s) \<Rightarrow> number_of_string s
      | Some (JArr xs) \<Rightarrow> number_of_string (to_str num (JArr xs))
      | Some (JObj fs) \<Rightarrow> None)"

section \<open>What the brain may answer\<close>

record extracted =
  ex_type :: mem_type
  ex_text :: string
  ex_why :: string
  ex_scope :: mem_scope
  ex_confidence :: rat

definition MEMORY_TYPES :: "(string \<times> mem_type) list" where
  "MEMORY_TYPES = [(''decision'', Decision), (''constraint'', Constraint), (''convention'', Convention), (''fact'', Fact)]"

definition MEMORY_SCOPES :: "(string \<times> mem_scope) list" where
  "MEMORY_SCOPES = [(''personal'', Personal), (''project'', ProjectScope), (''team'', TeamScope)]"

definition type_of :: "json option \<Rightarrow> mem_type option" where
  "type_of v = (case as_string v of Some s \<Rightarrow> map_of MEMORY_TYPES s | None \<Rightarrow> None)"

definition scope_or_project :: "json option \<Rightarrow> mem_scope" where
  "scope_or_project v =
     (case as_string v of Some s \<Rightarrow> (case map_of MEMORY_SCOPES s of Some x \<Rightarrow> x | None \<Rightarrow> ProjectScope) | None \<Rightarrow> ProjectScope)"

text \<open>\<^verbatim>\<open>Array.isArray(v) ? v : v?.entries\<close>; an entry that is an array has no fields, and is dropped.\<close>

definition entries_list :: "json option \<Rightarrow> json list option" where
  "entries_list v = (case v of Some (JArr xs) \<Rightarrow> Some xs | _ \<Rightarrow> as_array (field_of v ''entries''))"

definition extract_one :: "(rat \<Rightarrow> string) \<Rightarrow> json \<Rightarrow> extracted option" where
  "extract_one num raw =
     (case as_record (Some raw) of
        None \<Rightarrow> None
      | Some r \<Rightarrow>
          (let text = trim_str (string_or_empty (map_of r ''text'')) in
           case type_of (map_of r ''type'') of
             None \<Rightarrow> None
           | Some t \<Rightarrow>
               (if length text < 8 \<or> length text > 600 then None
                else Some \<lparr>ex_type = t, ex_text = text, ex_why = take 600 (trim_str (string_or_empty (map_of r ''why''))),
                       ex_scope = scope_or_project (map_of r ''scope''),
                       ex_confidence = (case js_Number num (map_of r ''confidence'') of Some c \<Rightarrow> min 1 (max 0 c) | None \<Rightarrow> 1 / 2)\<rparr>)))"

definition validateExtraction :: "(rat \<Rightarrow> string) \<Rightarrow> json option \<Rightarrow> extracted list option" where
  "validateExtraction num v = map_option (\<lambda>xs. take 3 (List.map_filter (extract_one num) xs)) (entries_list v)"

record consolidation_merge =
  cm_ids :: "string list"
  cm_type :: mem_type
  cm_text :: string
  cm_why :: string
  cm_scope :: mem_scope

record consolidation_drop =
  cd_id :: string
  cd_reason :: string

text \<open>\<^verbatim>\<open>[...new Set(xs)]\<close>\<close>

definition uniq :: "'a list \<Rightarrow> 'a list" where
  "uniq xs = rev (remdups (rev xs))"

definition strings_in :: "json option \<Rightarrow> string list" where
  "strings_in v = (case as_array v of Some xs \<Rightarrow> List.map_filter (\<lambda>x. as_string (Some x)) xs | None \<Rightarrow> [])"

fun merges_loop :: "string list \<Rightarrow> json list \<Rightarrow> string list \<times> consolidation_merge list \<Rightarrow> string list \<times> consolidation_merge list" where
  "merges_loop offered [] (used, merges) = (used, merges)"
| "merges_loop offered (raw # rest) (used, merges) =
     merges_loop offered rest
       (case as_record (Some raw) of
          None \<Rightarrow> (used, merges)
        | Some m \<Rightarrow>
            (let ids = uniq (filter (\<lambda>i. i \<in> set offered \<and> i \<notin> set used) (strings_in (map_of m ''ids'')));
                 text = trim_str (string_or_empty (map_of m ''text''))
             in if length merges \<ge> 20 then (used, merges)
                else case type_of (map_of m ''type'') of
                  None \<Rightarrow> (used, merges)
                | Some t \<Rightarrow>
                    (if length ids < 2 \<or> length text < 8 \<or> length text > 600 then (used, merges)
                     else (used @ ids, merges @ [\<lparr>cm_ids = ids, cm_type = t, cm_text = text,
                             cm_why = take 600 (trim_str (string_or_empty (map_of m ''why''))), cm_scope = scope_or_project (map_of m ''scope'')\<rparr>]))))"

fun drops_loop :: "string list \<Rightarrow> json list \<Rightarrow> string list \<Rightarrow> consolidation_drop list" where
  "drops_loop offered [] used = []"
| "drops_loop offered (raw # rest) used =
     (let i = string_or_empty (field_of (Some raw) ''id''); reason = trim_str (string_or_empty (field_of (Some raw) ''reason'')) in
      if i \<notin> set offered \<or> i \<in> set used then drops_loop offered rest used
      else \<lparr>cd_id = i, cd_reason = (if reason = [] then ''not durable'' else take 120 reason)\<rparr> # drops_loop offered rest (i # used))"

definition validateConsolidation :: "json option \<Rightarrow> string list \<Rightarrow> (consolidation_merge list \<times> consolidation_drop list) option" where
  "validateConsolidation v offered =
     (if (case v of Some (JObj _) \<Rightarrow> as_array (field_of v ''merges'') = None \<and> as_array (field_of v ''drops'') = None | _ \<Rightarrow> True) then None
      else
        let (used, merges) = merges_loop offered (array_or_empty (field_of v ''merges'')) ([], [])
        in Some (merges, drops_loop offered (array_or_empty (field_of v ''drops'')) used))"

text \<open>An array is an object without the two keys.\<close>

definition validateContradiction :: "json option \<Rightarrow> string list \<Rightarrow> (string list \<times> string list) option" where
  "validateContradiction v offered =
     (case as_record v of
        None \<Rightarrow> None
      | Some r \<Rightarrow>
          (if map_of r ''contradicts'' = None \<and> map_of r ''supersedes'' = None then None
           else Some (uniq (filter (\<lambda>i. i \<in> set offered) (strings_in (map_of r ''contradicts''))),
                      uniq (filter (\<lambda>i. i \<in> set offered) (strings_in (map_of r ''supersedes''))))))"

section \<open>Words and topics\<close>

definition ascii_lower :: "string \<Rightarrow> string" where
  "ascii_lower s = map (\<lambda>c. let n = of_char c :: nat in if 65 \<le> n \<and> n \<le> 90 then char_of (n + 32) else c) s"

definition lower_digit :: "char \<Rightarrow> bool" where
  "lower_digit c \<longleftrightarrow> (let n = of_char c :: nat in 97 \<le> n \<and> n \<le> 122 \<or> 48 \<le> n \<and> n \<le> 57)"

text \<open>The runs of characters that satisfy \<open>P\<close>; \<open>cur\<close> is the one under way, reversed.\<close>

fun runs_of :: "(char \<Rightarrow> bool) \<Rightarrow> string \<Rightarrow> string \<Rightarrow> string list" where
  "runs_of P [] cur = (if cur = [] then [] else [rev cur])"
| "runs_of P (c # cs) cur =
     (if P c then runs_of P cs (c # cur) else (if cur = [] then [] else [rev cur]) @ runs_of P cs [])"

definition STOP :: "string list" where
  "STOP = runs_of (\<lambda>c. c \<noteq> CHR '' '') ''the a an and or but of to in on for with by at from as is are was were be been it its this that these those we our you your they their not no use uses used using should must always never all any each when then than into over under via per can will would'' []"

definition topic_words :: "string \<Rightarrow> string list" where
  "topic_words text =
     uniq (filter (\<lambda>w. length w \<ge> 3 \<and> w \<notin> set STOP) (runs_of (\<lambda>c. lower_digit c \<or> c = CHR ''_'') (ascii_lower text) []))"

definition contentKey :: "string \<Rightarrow> string" where
  "contentKey text = join_with '' '' (runs_of lower_digit (ascii_lower text) [])"

definition shared_words :: "string list \<Rightarrow> memory_data \<Rightarrow> nat" where
  "shared_words mine d = length (filter (\<lambda>w. w \<in> set mine) (topic_words (md_text d @ '' '' @ md_why d)))"

definition overlapCandidates :: "string \<Rightarrow> nat \<Rightarrow> nat \<Rightarrow> ledger_entry list \<Rightarrow> ledger_entry list" where
  "overlapCandidates text minShared maxn existing =
     (let shared = (\<lambda>e. case memory_of e of Some d \<Rightarrow> shared_words (topic_words text) d | None \<Rightarrow> 0)
      in take maxn (sort_key (\<lambda>e. - int (shared e)) (filter (\<lambda>e. shared e \<ge> minShared) (filter (\<lambda>e. memoryStatus e = Approved) existing))))"

section \<open>Untrusted content\<close>

text \<open>The expressions of the rule, matched by hand: \<open>search P prev s\<close> is whether \<open>P\<close> holds of some suffix and the character before it.\<close>

fun search :: "(char option \<Rightarrow> string \<Rightarrow> bool) \<Rightarrow> char option \<Rightarrow> string \<Rightarrow> bool" where
  "search P prev [] = P prev []"
| "search P prev (c # cs) = (P prev (c # cs) \<or> search P (Some c) cs)"

definition word_char :: "char \<Rightarrow> bool" where
  "word_char c \<longleftrightarrow> (let n = of_char c :: nat in 97 \<le> n \<and> n \<le> 122 \<or> 65 \<le> n \<and> n \<le> 90 \<or> 48 \<le> n \<and> n \<le> 57 \<or> n = 95)"

definition word_edge :: "char option \<Rightarrow> bool" where
  "word_edge c = (case c of None \<Rightarrow> True | Some x \<Rightarrow> \<not> word_char x)"

definition first_char :: "string \<Rightarrow> char option" where
  "first_char s = (case s of [] \<Rightarrow> None | c # cs \<Rightarrow> Some c)"

definition after_prefix :: "string \<Rightarrow> string \<Rightarrow> string option" where
  "after_prefix p s = (if take (length p) s = p then Some (drop (length p) s) else None)"

definition after_spaces :: "string \<Rightarrow> string option" where
  "after_spaces s = (case s of c # cs \<Rightarrow> (if char_space c then Some (dropWhile char_space cs) else None) | [] \<Rightarrow> None)"

definition after_word :: "string \<Rightarrow> string list \<Rightarrow> string option list" where
  "after_word s ws = map (\<lambda>w. after_prefix w s) ws"

text \<open>\<^verbatim>\<open>/\bgh\s+(issue|pr)\s+(view|list|diff|checks)\b/\<close>, \<^verbatim>\<open>/\bgh\s+api\b[^|;&]*(comments|issues|pulls)/\<close> and \<^verbatim>\<open>/\b(curl|wget)\b/\<close>\<close>

definition reads_issues :: "char option \<Rightarrow> string \<Rightarrow> bool" where
  "reads_issues prev s \<longleftrightarrow>
     word_edge prev \<and>
     (case Option.bind (after_prefix ''gh'' s) after_spaces of
        None \<Rightarrow> False
      | Some r \<Rightarrow>
          list_ex (\<lambda>a. case Option.bind a after_spaces of
                None \<Rightarrow> False
              | Some r2 \<Rightarrow> list_ex (\<lambda>b. case b of None \<Rightarrow> False | Some r3 \<Rightarrow> word_edge (first_char r3))
                  (after_word r2 [''view'', ''list'', ''diff'', ''checks'']))
            (after_word r [''issue'', ''pr'']))"

definition reads_api :: "char option \<Rightarrow> string \<Rightarrow> bool" where
  "reads_api prev s \<longleftrightarrow>
     word_edge prev \<and>
     (case Option.bind (Option.bind (after_prefix ''gh'' s) after_spaces) (after_prefix ''api'') of
        None \<Rightarrow> False
      | Some r \<Rightarrow>
          word_edge (first_char r)
          \<and> list_ex (\<lambda>w. sublist w (takeWhile (\<lambda>c. c \<notin> {CHR ''|'', CHR '';'', CHR ''&''}) r)) [''comments'', ''issues'', ''pulls''])"

definition fetches :: "char option \<Rightarrow> string \<Rightarrow> bool" where
  "fetches prev s \<longleftrightarrow>
     word_edge prev \<and> list_ex (\<lambda>a. case a of None \<Rightarrow> False | Some r \<Rightarrow> word_edge (first_char r)) (after_word s [''curl'', ''wget''])"

text \<open>The part after the last \<^verbatim>\<open>__\<close>.\<close>

fun after_last_bars :: "string \<Rightarrow> string" where
  "after_last_bars [] = []"
| "after_last_bars (c # cs) =
     (if sublist ''__'' cs then after_last_bars cs else case after_prefix ''__'' (c # cs) of Some r \<Rightarrow> r | None \<Rightarrow> c # cs)"

definition tool_name :: "string \<Rightarrow> string" where
  "tool_name tool = (if sublist ''__'' tool then after_last_bars tool else tool)"

definition untrustedReason :: "string \<Rightarrow> string option \<Rightarrow> string option" where
  "untrustedReason tool command =
     (let name = tool_name tool; lower = ascii_lower tool in
      if name \<in> {''WebFetch'', ''web_fetch'', ''fetch''} then Some ''read a web page''
      else if name \<in> {''WebSearch'', ''web_search''} then Some ''searched the web''
      else if take 15 name = ''canopy_browser_'' \<or> list_ex (\<lambda>w. sublist w lower) [''browser'', ''playwright'', ''puppeteer'', ''chrome'']
      then Some ''used a browser''
      else if name = ''canopy_tickets'' then Some ''read tickets from a tracker''
      else if name = ''canopy_reviews'' \<or> name = ''canopy_pr_details'' then Some ''read pull request comments''
      else case command of
        None \<Rightarrow> None
      | Some c \<Rightarrow>
          (if search reads_issues None c \<or> search reads_api None c then Some ''read issues or pull request comments''
           else if search fetches None c then Some ''fetched from the network'' else None))"

section \<open>Proposals of agents\<close>

record proposal =
  pr_kind :: string
  pr_text :: string
  pr_why :: string
  pr_scope :: "string option"
  pr_files :: "string list"
  pr_by :: "string option"

record valid_proposal =
  vp_type :: mem_type
  vp_text :: string
  vp_why :: string
  vp_scope :: mem_scope
  vp_files :: "string list"
  vp_by :: string
  vp_subject :: string
  vp_expires :: int

definition rust_trim :: "string \<Rightarrow> string" where
  "rust_trim s = rev (dropWhile rust_space (rev (dropWhile rust_space s)))"

definition validate_proposal :: "int \<Rightarrow> proposal \<Rightarrow> valid_proposal option" where
  "validate_proposal now p =
     (let text = rust_trim (pr_text p) in
      case map_of MEMORY_TYPES (rust_trim (pr_kind p)) of
        None \<Rightarrow> None
      | Some t \<Rightarrow>
          (if length text < 8 \<or> length text > 600 then None
           else case map_of MEMORY_SCOPES (case pr_scope p of Some s \<Rightarrow> s | None \<Rightarrow> ''project'') of
             None \<Rightarrow> None
           | Some sc \<Rightarrow>
               Some \<lparr>vp_type = t, vp_text = text, vp_why = take 600 (rust_trim (pr_why p)), vp_scope = sc, vp_files = take 50 (pr_files p),
                 vp_by = (case pr_by p of Some b \<Rightarrow> (if rust_trim b = [] then ''agent'' else rust_trim b) | None \<Rightarrow> ''agent''),
                 vp_subject = take 120 text, vp_expires = now + (if t = Fact then 90 else 180) * DAY_MS\<rparr>))"

section \<open>The section of an instruction file\<close>

definition MEMORY_SECTION_START :: js_string where
  "MEMORY_SECTION_START = js ''<!-- canopy:memory:start '' @ [0x2014] @ js '' generated from approved team memory; edit in Canopy's Memory panel -->''"

definition MEMORY_SECTION_END :: js_string where
  "MEMORY_SECTION_END = js ''<!-- canopy:memory:end -->''"

definition SECTION_MAX :: nat where "SECTION_MAX = 12"

text \<open>\<^verbatim>\<open>s.replace(/\s+/g, " ")\<close>\<close>

fun squeeze_spaces :: "bool \<Rightarrow> string \<Rightarrow> string" where
  "squeeze_spaces b [] = []"
| "squeeze_spaces b (c # cs) =
     (if char_space c then (if b then squeeze_spaces True cs else CHR '' '' # squeeze_spaces True cs)
      else c # squeeze_spaces False cs)"

definition TYPE_HEADING :: "mem_type \<Rightarrow> string" where
  "TYPE_HEADING t = (case t of Decision \<Rightarrow> ''Decisions'' | Constraint \<Rightarrow> ''Constraints'' | Convention \<Rightarrow> ''Conventions'' | Fact \<Rightarrow> ''Facts'')"

definition memory_line :: "memory_data \<Rightarrow> string" where
  "memory_line d =
     ''- '' @ squeeze_spaces False (md_text d) @ (if md_why d = [] then [] else '' ('' @ squeeze_spaces False (md_why d) @ '')'')"

definition section_picks :: "int \<Rightarrow> ledger_entry list \<Rightarrow> memory_data list" where
  "section_picks now es =
     take SECTION_MAX (sort_key (\<lambda>d. - md_confidence d) (sort_key (\<lambda>d. - md_createdAt d)
       (List.map_filter memory_of (filter (\<lambda>e. servedToAgents now e \<and> le_scope e \<noteq> Personal) es))))"

definition section_group :: "memory_data list \<Rightarrow> mem_type \<Rightarrow> string list" where
  "section_group pick t =
     (let rows = filter (\<lambda>d. md_type d = t) pick
      in if rows = [] then [] else [''**'' @ TYPE_HEADING t @ ''**''] @ map memory_line rows @ [[]])"

definition section_lines :: "memory_data list \<Rightarrow> string list" where
  "section_lines pick =
     [''## Team memory'', []] @ (if pick = [] then [''_No approved team memory yet._''] else [])
     @ concat (map (section_group pick) [Decision, Constraint, Convention, Fact])
     @ [''For anything else, call `canopy_memory` with what you are about to decide.'']"

fun js_join :: "js_string \<Rightarrow> js_string list \<Rightarrow> js_string" where
  "js_join sep [] = []"
| "js_join sep [x] = x"
| "js_join sep (x # y # ys) = x @ sep @ js_join sep (y # ys)"

definition renderMemorySection :: "int \<Rightarrow> ledger_entry list \<Rightarrow> js_string" where
  "renderMemorySection now es =
     js_join [10] ([MEMORY_SECTION_START] @ map js (section_lines (section_picks now es)) @ [MEMORY_SECTION_END])"

fun index_of :: "'a list \<Rightarrow> 'a list \<Rightarrow> nat option" where
  "index_of p [] = (if p = [] then Some 0 else None)"
| "index_of p (c # cs) = (if take (length p) (c # cs) = p then Some 0 else map_option Suc (index_of p cs))"

definition ends_with :: "'a list \<Rightarrow> 'a list \<Rightarrow> bool" where
  "ends_with p s \<longleftrightarrow> length p \<le> length s \<and> drop (length s - length p) s = p"

definition appended_section :: "js_string \<Rightarrow> js_string \<Rightarrow> js_string" where
  "appended_section content new =
     content @ (if content = [] then [] else if ends_with [10, 10] content then [] else if ends_with [10] content then [10] else [10, 10]) @ new @ [10]"

definition spliceMemorySection :: "js_string \<Rightarrow> js_string \<Rightarrow> js_string" where
  "spliceMemorySection content new =
     (case (index_of (take 22 MEMORY_SECTION_START) content, index_of MEMORY_SECTION_END content) of
        (Some start, Some stop) \<Rightarrow>
          (if stop > start then take start content @ new @ drop (stop + length MEMORY_SECTION_END) content
           else appended_section content new)
      | _ \<Rightarrow> appended_section content new)"

section \<open>What survives the rules\<close>

lemma uniq_simps [simp]: "set (uniq xs) = set xs" "distinct (uniq xs)"
  by (simp_all add: uniq_def)

definition well_formed_memory :: "extracted \<Rightarrow> bool" where
  "well_formed_memory m \<longleftrightarrow>
     8 \<le> length (ex_text m) \<and> length (ex_text m) \<le> 600 \<and> length (ex_why m) \<le> 600 \<and> 0 \<le> ex_confidence m \<and> ex_confidence m \<le> 1"

lemma extract_one_typed: "extract_one num raw = Some m \<Longrightarrow> well_formed_memory m"
  by (auto simp: extract_one_def well_formed_memory_def Let_def split: option.splits if_splits)

lemma map_filter_set: "x \<in> set (List.map_filter f xs) \<longleftrightarrow> (\<exists>y\<in>set xs. f y = Some x)"
  by (force simp: List.map_filter_def)


definition well_formed_merge :: "string list \<Rightarrow> consolidation_merge \<Rightarrow> bool" where
  "well_formed_merge offered m \<longleftrightarrow>
     2 \<le> length (cm_ids m) \<and> set (cm_ids m) \<subseteq> set offered \<and> 8 \<le> length (cm_text m) \<and> length (cm_text m) \<le> 600 \<and> length (cm_why m) \<le> 600"

definition merges_ok :: "string list \<Rightarrow> string list \<times> consolidation_merge list \<Rightarrow> bool" where
  "merges_ok offered p \<longleftrightarrow>
     fst p = concat (map cm_ids (snd p)) \<and> distinct (fst p) \<and> length (snd p) \<le> 20 \<and> list_all (well_formed_merge offered) (snd p)"

lemma merges_loop_ok: "merges_ok offered p \<Longrightarrow> merges_ok offered (merges_loop offered xs p)"
proof (induction xs arbitrary: p)
  case Nil
  then show ?case by (cases p) simp
next
  case (Cons raw rest)
  obtain used merges where p: "p = (used, merges)" by (cases p)
  show ?case
    unfolding p merges_loop.simps
    by (rule Cons.IH, use Cons.prems in \<open>auto simp: p merges_ok_def well_formed_merge_def Let_def split: option.split\<close>)
qed

lemma drops_loop_ok:
  "distinct (map cd_id (drops_loop offered xs used)) \<and> set (map cd_id (drops_loop offered xs used)) \<subseteq> set offered - set used"
proof (induction xs arbitrary: used)
  case (Cons raw rest)
  let ?i = "string_or_empty (field_of (Some raw) ''id'')"
  show ?case
  proof (cases "?i \<notin> set offered \<or> ?i \<in> set used")
    case True
    then show ?thesis using Cons.IH [of used] by (simp add: Let_def)
  next
    case False
    have "?i \<notin> cd_id ` set (drops_loop offered rest (?i # used))" using Cons.IH [of "?i # used"] by auto
    then show ?thesis using Cons.IH [of "?i # used"] False by (auto simp: Let_def)
  qed
qed simp

text \<open>Tidying touches only what the brain was shown, and each of it once: in the plan taken from any answer every merge has
  two or more of the offered proposals, no proposal is in two merges, in a merge and a drop, or dropped twice, and there are
  at most twenty merges with texts of 8 to 600 characters.\<close>

theorem plan_touches_offered_once:
  assumes "validateConsolidation v offered = Some (merges, drops)"
  shows "distinct (concat (map cm_ids merges) @ map cd_id drops)
    \<and> set (concat (map cm_ids merges) @ map cd_id drops) \<subseteq> set offered \<and> length merges \<le> 20 \<and> list_all (well_formed_merge offered) merges"
proof -
  obtain used where u: "merges_loop offered (array_or_empty (field_of v ''merges'')) ([], []) = (used, merges)"
    and d: "drops = drops_loop offered (array_or_empty (field_of v ''drops'')) used"
    using assms by (auto simp: validateConsolidation_def split: if_splits prod.splits)
  have "merges_ok offered ([], [])" by (simp add: merges_ok_def)
  then have m: "merges_ok offered (used, merges)"
    using merges_loop_ok [of offered "([], [])" "array_or_empty (field_of v ''merges'')"] unfolding u by blast
  then have used: "used = concat (map cm_ids merges)" by (simp add: merges_ok_def)
  have "set used \<subseteq> set offered" using m by (auto simp: merges_ok_def well_formed_merge_def list_all_iff)
  then have "set (concat (map cm_ids merges)) \<subseteq> set offered" by (simp only: used)
  moreover have "distinct used" using m unfolding merges_ok_def fst_conv by blast
  then have "distinct (concat (map cm_ids merges))" by (simp only: used)
  moreover have "length merges \<le> 20 \<and> list_all (well_formed_merge offered) merges" using m by (simp add: merges_ok_def)
  moreover have "set (map cd_id drops) \<inter> set (concat (map cm_ids merges)) = {}" "distinct (map cd_id drops)" "set (map cd_id drops) \<subseteq> set offered"
    using drops_loop_ok [of offered "array_or_empty (field_of v ''drops'')" used] unfolding d used by auto
  ultimately show ?thesis by (auto simp only: distinct_append set_append Un_subset_iff)
qed

theorem plan_touches_offered_once_witness:
  "(case validateConsolidation (Some (JObj [(''merges'', JArr [JObj [(''ids'', JArr [JStr ''a'', JStr ''b'', JStr ''a'']), (''type'', JStr ''fact''),
        (''text'', JStr ''12345678'')]]), (''drops'', JArr [JObj [(''id'', JStr ''a'')], JObj [(''id'', JStr ''c'')]])])) [''a'', ''b'', ''c''] of
      Some (merges, drops) \<Rightarrow> concat (map cm_ids merges) @ map cd_id drops | None \<Rightarrow> []) = [''a'', ''b'', ''c'']
   \<and> distinct [''a'', ''b'', ''c'']"
proof -
  let ?v = "Some (JObj [(''merges'', JArr [JObj [(''ids'', JArr [JStr ''a'', JStr ''b'', JStr ''a'']), (''type'', JStr ''fact''),
        (''text'', JStr ''12345678'')]]), (''drops'', JArr [JObj [(''id'', JStr ''a'')], JObj [(''id'', JStr ''c'')]])])"
  have run: "(case validateConsolidation ?v [''a'', ''b'', ''c''] of Some (merges, drops) \<Rightarrow> concat (map cm_ids merges) @ map cd_id drops | None \<Rightarrow> [])
      = [''a'', ''b'', ''c'']" by code_simp
  from run obtain merges drops where "validateConsolidation ?v [''a'', ''b'', ''c''] = Some (merges, drops)"
    and e: "concat (map cm_ids merges) @ map cd_id drops = [''a'', ''b'', ''c'']" by (auto split: option.splits)
  from plan_touches_offered_once [OF this(1)] show ?thesis using e run by simp
qed

end
