(* ===== verification/MemoryJobs.thy ===== *)
theory MemoryJobs
  imports MemoryRules "HOL-Library.List_Lexorder" "HOL-Library.Char_ord"
begin

text \<open>
  Team memory, what runs over the store: the operations of the Memory panel (\<^verbatim>\<open>src/src/memoryLedger.ts\<close>), the lease
  (\<^verbatim>\<open>src/src/memoryLease.ts\<close>), the tidying of the queue (\<^verbatim>\<open>src/src/memoryConsolidate.ts\<close>), extraction and the review of
  proposals (\<^verbatim>\<open>src/src/memoryExtract.ts\<close>), the proposals of agents (\<^verbatim>\<open>src/src-tauri/src/memory_tool.rs\<close>) and those pulled
  from a cloud workspace (\<^verbatim>\<open>src/src/remoteExecution/memorySync.ts\<close>).
\<close>

section \<open>Jobs\<close>

text \<open>
  An asynchronous function is a job: what it does next when the call it awaits returns. A call of the ledger, of the brain,
  of the clock or of the random generator is where other jobs may run. \<open>None\<close> is a call that threw.
\<close>

datatype 'r job =
    Return 'r
  | Query ledger_query "ledger_entry list option \<Rightarrow> 'r job"
  | Append ledger_entry "ledger_entry option \<Rightarrow> 'r job"
  | Ask "json option \<Rightarrow> 'r job"
  | Clock "int \<Rightarrow> 'r job"
  | Random "string \<Rightarrow> 'r job"

primrec and_then :: "'a job \<Rightarrow> ('a \<Rightarrow> 'b job) \<Rightarrow> 'b job" where
  "and_then (Return x) f = f x"
| "and_then (Query q k) f = Query q (\<lambda>r. and_then (k r) f)"
| "and_then (Append e k) f = Append e (\<lambda>r. and_then (k r) f)"
| "and_then (Ask k) f = Ask (\<lambda>r. and_then (k r) f)"
| "and_then (Clock k) f = Clock (\<lambda>r. and_then (k r) f)"
| "and_then (Random k) f = Random (\<lambda>r. and_then (k r) f)"

definition and_try :: "'a option job \<Rightarrow> ('a \<Rightarrow> 'b option job) \<Rightarrow> 'b option job" where
  "and_try j f = and_then j (\<lambda>r. case r of None \<Rightarrow> Return None | Some x \<Rightarrow> f x)"

section \<open>Reading and writing\<close>

definition list_memories :: "ledger_entry list option job" where
  "list_memories = Query memory_query (\<lambda>r. Return (map_option (first_of_each []) r))"

text \<open>\<^verbatim>\<open>clip\<close>, with the ellipsis\<close>

definition clip :: "string \<Rightarrow> nat \<Rightarrow> js_string" where
  "clip s n = (if length s > n then js (take n s) @ [0x2026] else js s)"

record new_memory = extracted +
  nm_source :: mem_source
  nm_provenance :: mem_provenance
  nm_untrusted :: "string list"
  nm_verdict :: "(string list \<times> string list) option"
  nm_consolidatedFrom :: "string list"
  nm_author :: ledger_author

definition list_or_none :: "'a list \<Rightarrow> 'a list option" where
  "list_or_none xs = (if xs = [] then None else Some xs)"

text \<open>An empty string counts as none.\<close>

definition truthy :: "string option \<Rightarrow> string option" where
  "truthy x = (if x = Some [] then None else x)"

definition new_memory_entry :: "memory_settings \<Rightarrow> int \<Rightarrow> string \<Rightarrow> new_memory \<Rightarrow> ledger_entry" where
  "new_memory_entry s now i m =
     (let data = \<lparr>md_memoryId = i, md_type = ex_type m, md_text = ex_text m, md_why = ex_why m, md_confidence = ex_confidence m,
            md_createdAt = now, md_source = nm_source m, md_provenance = nm_provenance m, md_untrusted = list_or_none (nm_untrusted m),
            md_contradicts = map_option fst (nm_verdict m), md_supersedes = map_option snd (nm_verdict m),
            md_checkedAt = map_option (\<lambda>_. now) (nm_verdict m), md_supersededBy = None, md_reconfirmedAt = None, md_editedAt = None,
            md_consolidatedFrom = list_or_none (nm_consolidatedFrom m), md_retired = False, md_retiredReason = None\<rparr>
      in \<lparr>le_id = [], le_kind = KMemory, le_ts = 0, le_author = nm_author m, le_scope = ex_scope m, le_subject = Some (clip (ex_text m) 120),
          le_ref = map_option (\<lambda>sid. (''session'', sid)) (truthy (pv_sessionId (nm_provenance m))),
          le_data = MemoryData data, le_expires = Some (expiryFor s (ex_type m) now), le_supersedes = None,
          le_status = Some (if nm_untrusted m \<noteq> [] then Quarantined else Proposed)\<rparr>)"

definition append_memory :: "memory_settings \<Rightarrow> new_memory \<Rightarrow> ledger_entry option job" where
  "append_memory s m = Clock (\<lambda>now. Random (\<lambda>i. Append (new_memory_entry s now i m) Return))"

text \<open>\<^verbatim>\<open>Partial<MemoryData>\<close>; \<open>None\<close> is a key the patch does not have.\<close>

record data_patch =
  dp_text :: "string option"
  dp_why :: "string option"
  dp_type :: "mem_type option"
  dp_untrusted :: "string list option"
  dp_provenance :: "mem_provenance option"
  dp_contradicts :: "string list option"
  dp_supersedes :: "string list option"
  dp_checkedAt :: "int option"
  dp_supersededBy :: "string option"
  dp_reconfirmedAt :: "int option"
  dp_editedAt :: "int option"
  dp_retired :: bool
  dp_retiredReason :: "string option"

record memory_patch =
  mp_data :: data_patch
  mp_status :: "mem_status option"
  mp_scope :: "mem_scope option"
  mp_expires :: "int option"

definition no_data :: data_patch where
  "no_data = \<lparr>dp_text = None, dp_why = None, dp_type = None, dp_untrusted = None, dp_provenance = None, dp_contradicts = None,
     dp_supersedes = None, dp_checkedAt = None, dp_supersededBy = None, dp_reconfirmedAt = None, dp_editedAt = None, dp_retired = False,
     dp_retiredReason = None\<rparr>"

definition no_patch :: memory_patch where
  "no_patch = \<lparr>mp_data = no_data, mp_status = None, mp_scope = None, mp_expires = None\<rparr>"

definition given :: "'a option \<Rightarrow> 'a \<Rightarrow> 'a" where
  "given new old = (case new of None \<Rightarrow> old | Some x \<Rightarrow> x)"

definition given_some :: "'a option \<Rightarrow> 'a option \<Rightarrow> 'a option" where
  "given_some new old = (case new of None \<Rightarrow> old | Some x \<Rightarrow> Some x)"

definition patched :: "data_patch \<Rightarrow> memory_data \<Rightarrow> memory_data" where
  "patched p d = d\<lparr>md_text := given (dp_text p) (md_text d), md_why := given (dp_why p) (md_why d), md_type := given (dp_type p) (md_type d),
     md_untrusted := given_some (dp_untrusted p) (md_untrusted d), md_provenance := given (dp_provenance p) (md_provenance d),
     md_contradicts := given_some (dp_contradicts p) (md_contradicts d), md_supersedes := given_some (dp_supersedes p) (md_supersedes d),
     md_checkedAt := given_some (dp_checkedAt p) (md_checkedAt d), md_supersededBy := given_some (dp_supersededBy p) (md_supersededBy d),
     md_reconfirmedAt := given_some (dp_reconfirmedAt p) (md_reconfirmedAt d), md_editedAt := given_some (dp_editedAt p) (md_editedAt d),
     md_retired := (dp_retired p \<or> md_retired d), md_retiredReason := given_some (dp_retiredReason p) (md_retiredReason d)\<rparr>"

definition revised :: "memory_patch \<Rightarrow> ledger_entry \<Rightarrow> ledger_entry" where
  "revised p h =
     h\<lparr>le_id := [], le_ts := 0, le_supersedes := Some (le_id h),
       le_data := (case memory_of h of Some d \<Rightarrow> MemoryData (patched (mp_data p) d) | None \<Rightarrow> le_data h),
       le_status := given_some (mp_status p) (le_status h), le_scope := given (mp_scope p) (le_scope h),
       le_expires := given_some (mp_expires p) (le_expires h),
       le_subject := (case dp_text (mp_data p) of Some (c # cs) \<Rightarrow> Some (clip (c # cs) 120) | _ \<Rightarrow> le_subject h)\<rparr>"

definition revise_memory :: "string \<Rightarrow> memory_patch \<Rightarrow> ledger_entry option job" where
  "revise_memory i p =
     and_try list_memories (\<lambda>es. case find (has_id i) es of None \<Rightarrow> Return None | Some h \<Rightarrow> Append (revised p h) Return)"

section \<open>What a person does\<close>

definition row_id :: "ledger_entry \<Rightarrow> string" where
  "row_id e = (case memory_of e of Some d \<Rightarrow> md_memoryId d | None \<Rightarrow> [])"

definition row_type :: "ledger_entry \<Rightarrow> mem_type" where
  "row_type e = (case memory_of e of Some d \<Rightarrow> md_type d | None \<Rightarrow> Decision)"

definition approveMemory :: "memory_settings \<Rightarrow> ledger_entry \<Rightarrow> ledger_entry option job" where
  "approveMemory s e = Clock (\<lambda>now. revise_memory (row_id e) (no_patch\<lparr>mp_status := Some Approved, mp_expires := Some (expiryFor s (row_type e) now)\<rparr>))"

definition rejectMemory :: "ledger_entry \<Rightarrow> ledger_entry option job" where
  "rejectMemory e = Clock (\<lambda>now. revise_memory (row_id e) (no_patch\<lparr>mp_status := Some Rejected, mp_expires := Some (tombstoneUntil now)\<rparr>))"

definition expireMemory :: "ledger_entry \<Rightarrow> ledger_entry option job" where
  "expireMemory e = Clock (\<lambda>now. revise_memory (row_id e) (no_patch\<lparr>mp_status := Some Expired, mp_expires := Some (tombstoneUntil now)\<rparr>))"

definition reconfirmMemory :: "memory_settings \<Rightarrow> ledger_entry \<Rightarrow> ledger_entry option job" where
  "reconfirmMemory s e = Clock (\<lambda>now. Clock (\<lambda>now'. revise_memory (row_id e)
     (no_patch\<lparr>mp_expires := Some (expiryFor s (row_type e) now), mp_data := no_data\<lparr>dp_reconfirmedAt := Some now'\<rparr>\<rparr>)))"

record memory_edit =
  ed_text :: string
  ed_why :: string
  ed_type :: mem_type
  ed_scope :: mem_scope

definition editMemory :: "ledger_entry \<Rightarrow> memory_edit \<Rightarrow> ledger_entry option job" where
  "editMemory e ed = Clock (\<lambda>now. revise_memory (row_id e)
     (no_patch\<lparr>mp_scope := Some (ed_scope ed),
        mp_data := no_data\<lparr>dp_text := Some (trim_str (ed_text ed)), dp_why := Some (trim_str (ed_why ed)), dp_type := Some (ed_type ed),
          dp_editedAt := Some now\<rparr>\<rparr>))"

definition superseded_by :: "string \<Rightarrow> int \<Rightarrow> memory_patch" where
  "superseded_by i now = no_patch\<lparr>mp_status := Some Superseded, mp_expires := Some (tombstoneUntil now), mp_data := no_data\<lparr>dp_supersededBy := Some i\<rparr>\<rparr>"

primrec retire_all :: "string \<Rightarrow> ledger_entry list \<Rightarrow> unit option job" where
  "retire_all i [] = Return (Some ())"
| "retire_all i (e # es) = and_try (Clock (\<lambda>now. revise_memory (row_id e) (superseded_by i now))) (\<lambda>_. retire_all i es)"

definition ids_or_empty :: "string list option \<Rightarrow> string list" where
  "ids_or_empty x = given x []"

definition replaced_by :: "ledger_entry \<Rightarrow> string list" where
  "replaced_by e = (case memory_of e of Some d \<Rightarrow> ids_or_empty (md_supersedes d) @ ids_or_empty (md_contradicts d) | None \<Rightarrow> [])"

definition supersedeWith :: "memory_settings \<Rightarrow> ledger_entry \<Rightarrow> ledger_entry list \<Rightarrow> unit option job" where
  "supersedeWith s e rows =
     and_try (approveMemory s e) (\<lambda>_. retire_all (row_id e) (filter (\<lambda>old. row_id old \<in> set (replaced_by e)) rows))"

definition hand_entry :: "memory_settings \<Rightarrow> string \<Rightarrow> int \<Rightarrow> string \<Rightarrow> memory_edit \<Rightarrow> ledger_entry" where
  "hand_entry s author now i m =
     \<lparr>le_id = [], le_kind = KMemory, le_ts = 0,
      le_author = \<lparr>au_kind = ByHuman, au_name = author, au_sessionId = None, au_cli = None, au_ptyId = None\<rparr>, le_scope = ed_scope m,
      le_subject = Some (clip (ed_text m) 120), le_ref = None,
      le_data = MemoryData \<lparr>md_memoryId = i, md_type = ed_type m, md_text = ed_text m, md_why = take 600 (trim_str (ed_why m)), md_confidence = 1,
        md_createdAt = now, md_source = FromHuman,
        md_provenance = \<lparr>pv_sessionId = None, pv_cli = None, pv_turnId = None, pv_files = [], pv_prompt = None\<rparr>,
        md_untrusted = None, md_contradicts = None, md_supersedes = None, md_checkedAt = None, md_supersededBy = None, md_reconfirmedAt = None,
        md_editedAt = None, md_consolidatedFrom = None, md_retired = False, md_retiredReason = None\<rparr>,
      le_expires = Some (expiryFor s (ed_type m) now), le_supersedes = None, le_status = Some Approved\<rparr>"

definition addMemoryByHand :: "memory_settings \<Rightarrow> memory_edit \<Rightarrow> string \<Rightarrow> ledger_entry option job" where
  "addMemoryByHand s m author =
     (let text = squeeze_spaces False (trim_str (ed_text m)) in
      if length text < 8 \<or> length text > 600 then Return None
      else Clock (\<lambda>now. Random (\<lambda>i. Append (hand_entry s author now i (m\<lparr>ed_text := text\<rparr>)) Return)))"

section \<open>The lease\<close>

definition lease_query :: "string \<Rightarrow> ledger_query" where
  "lease_query key = \<lparr>lq_kinds = Some [KMemory], lq_refKind = Some ''memory-lease'', lq_refId = Some key, lq_sinceTs = None, lq_limit = Some 50\<rparr>"

definition lease_entry :: "string \<Rightarrow> string \<Rightarrow> int \<Rightarrow> ledger_entry" where
  "lease_entry key owner until =
     \<lparr>le_id = [], le_kind = KMemory, le_ts = 0,
      le_author = \<lparr>au_kind = ByWorkspace, au_name = ''memory'', au_sessionId = None, au_cli = None, au_ptyId = None\<rparr>,
      le_scope = Personal, le_subject = Some (js ''Memory extraction lease''), le_ref = Some (''memory-lease'', key),
      le_data = LeaseData \<lparr>ls_key = key, ls_owner = owner\<rparr>, le_expires = Some until, le_supersedes = None, le_status = None\<rparr>"

definition lease_of :: "ledger_entry \<Rightarrow> lease_data option" where
  "lease_of e = (case le_data e of LeaseData d \<Rightarrow> Some d | _ \<Rightarrow> None)"

definition owner_of :: "ledger_entry \<Rightarrow> string" where
  "owner_of e = (case lease_of e of Some d \<Rightarrow> ls_owner d | None \<Rightarrow> [])"

definition until_of :: "ledger_entry \<Rightarrow> int" where
  "until_of e = (case le_expires e of Some t \<Rightarrow> t | None \<Rightarrow> 0)"

definition live_claims :: "string \<Rightarrow> int \<Rightarrow> ledger_entry list \<Rightarrow> ledger_entry list" where
  "live_claims key now rows =
     sort_key le_id (filter (\<lambda>e. (case lease_of e of Some d \<Rightarrow> ls_key d = key | None \<Rightarrow> False) \<and> until_of e > now) rows)"

text \<open>The two parts after a call: with the claims found first, and with those found after claiming.\<close>

definition claim_settled :: "string \<Rightarrow> string \<Rightarrow> ledger_entry list option \<Rightarrow> bool job" where
  "claim_settled key owner r =
     (case r of
        None \<Rightarrow> Return True
      | Some rows \<Rightarrow>
          Clock (\<lambda>now. case live_claims key now rows of
              first # _ \<Rightarrow> Return (owner_of first = owner)
            | [] \<Rightarrow> Return True))"

definition claim_found :: "string \<Rightarrow> int \<Rightarrow> string \<Rightarrow> int \<Rightarrow> ledger_entry list option \<Rightarrow> bool job" where
  "claim_found key ttl owner now r =
     (case r of
        None \<Rightarrow> Return True
      | Some rows \<Rightarrow>
          (case live_claims key now rows of
             holder # rest \<Rightarrow>
               (if owner_of holder \<noteq> owner then Return False
                else if 2 * (Max (set (map until_of (filter (\<lambda>e. owner_of e = owner) (holder # rest)))) - now) < ttl
                then Append (lease_entry key owner (now + ttl)) (\<lambda>_. Return True)
                else Return True)
           | [] \<Rightarrow>
               Append (lease_entry key owner (now + ttl)) (\<lambda>a. case a of
                   None \<Rightarrow> Return True
                 | Some _ \<Rightarrow> Query (lease_query key) (claim_settled key owner))))"

definition claimLease :: "string \<Rightarrow> int \<Rightarrow> string \<Rightarrow> bool job" where
  "claimLease key ttl owner = Clock (\<lambda>now. Query (lease_query key) (claim_found key ttl owner now))"

section \<open>Tidying the queue\<close>

definition BATCH :: nat where "BATCH = 60"
definition TIDY_ABOVE :: nat where "TIDY_ABOVE = 10"

record tidy_result =
  td_combined :: nat
  td_into :: nat
  td_setAside :: nat

definition untrusted_by :: "ledger_entry \<Rightarrow> string list" where
  "untrusted_by e =
     (case memory_of e of
        Some d \<Rightarrow>
          (if ids_or_empty (md_untrusted d) \<noteq> [] then ids_or_empty (md_untrusted d)
           else if memoryStatus e = Quarantined then [''read content from outside the team''] else [])
      | None \<Rightarrow> [])"

definition data_of :: "ledger_entry list \<Rightarrow> memory_data list" where
  "data_of es = List.map_filter memory_of es"

definition merged_memory :: "consolidation_merge \<Rightarrow> ledger_entry list \<Rightarrow> new_memory" where
  "merged_memory m sources =
     (let ds = data_of sources; untrusted = uniq (concat (map untrusted_by sources));
          contradicts = uniq (concat (map (ids_or_empty \<circ> md_contradicts) ds)); supersedes = uniq (concat (map (ids_or_empty \<circ> md_supersedes) ds))
      in \<lparr>ex_type = cm_type m, ex_text = cm_text m, ex_why = cm_why m, ex_scope = cm_scope m, ex_confidence = Max (set (map md_confidence ds)),
          nm_source = FromBrain,
          nm_provenance = \<lparr>pv_sessionId = None, pv_cli = None, pv_turnId = None,
            pv_files = take 50 (uniq (concat (map (pv_files \<circ> md_provenance) ds))), pv_prompt = None\<rparr>,
          nm_untrusted = untrusted,
          nm_verdict = (if contradicts \<noteq> [] \<or> supersedes \<noteq> [] then Some (contradicts, supersedes) else None),
          nm_consolidatedFrom = map row_id sources,
          nm_author = \<lparr>au_kind = ByBrain, au_name = ''memory'', au_sessionId = None, au_cli = None, au_ptyId = None\<rparr>\<rparr>)"

primrec retire_sources :: "string \<Rightarrow> ledger_entry list \<Rightarrow> unit option job" where
  "retire_sources i [] = Return (Some ())"
| "retire_sources i (e # es) =
     and_try (Clock (\<lambda>now. revise_memory (row_id e)
        (no_patch\<lparr>mp_status := Some Superseded, mp_expires := Some (tombstoneUntil now), mp_data := no_data\<lparr>dp_supersededBy := Some i, dp_retired := True\<rparr>\<rparr>)))
       (\<lambda>_. retire_sources i es)"

text \<open>\<open>by_id\<close> is the snapshot from before the brain was asked, less the proposals reviewed meanwhile.\<close>

primrec tidy_merges :: "memory_settings \<Rightarrow> ledger_entry list \<Rightarrow> consolidation_merge list \<Rightarrow> tidy_result \<Rightarrow> tidy_result option job" where
  "tidy_merges s by_id [] r = Return (Some r)"
| "tidy_merges s by_id (m # ms) r =
     (let sources = List.map_filter (\<lambda>i. find (has_id i) by_id) (cm_ids m) in
      if length sources < 2 then tidy_merges s by_id ms r
      else and_try (append_memory s (merged_memory m sources)) (\<lambda>merged.
             and_try (retire_sources (row_id merged) sources) (\<lambda>_.
               tidy_merges s by_id ms (r\<lparr>td_combined := td_combined r + length sources, td_into := Suc (td_into r)\<rparr>))))"

primrec tidy_drops :: "ledger_entry list \<Rightarrow> consolidation_drop list \<Rightarrow> tidy_result \<Rightarrow> tidy_result option job" where
  "tidy_drops by_id [] r = Return (Some r)"
| "tidy_drops by_id (d # ds) r =
     (if list_ex (has_id (cd_id d)) by_id
      then and_try (Clock (\<lambda>now. revise_memory (cd_id d)
             (no_patch\<lparr>mp_status := Some Rejected, mp_expires := Some (tombstoneUntil now),
                mp_data := no_data\<lparr>dp_retired := True, dp_retiredReason := Some (cd_reason d)\<rparr>\<rparr>)))
           (\<lambda>_. tidy_drops by_id ds (r\<lparr>td_setAside := Suc (td_setAside r)\<rparr>))
      else tidy_drops by_id ds r)"

text \<open>\<open>None\<close> when it threw, \<open>Some None\<close> for \<^verbatim>\<open>null\<close>.\<close>

definition tidyMemory :: "memory_settings \<Rightarrow> string \<Rightarrow> tidy_result option option job" where
  "tidyMemory s owner =
     and_try list_memories (\<lambda>all.
       let pending = take BATCH (rev (filter needsReview all)) in
       if length pending < 2 then Return (Some None)
       else and_then (claimLease ''memory-tidy'' (10 * 60 * 1000) owner) (\<lambda>mine.
         if \<not> mine then Return (Some None)
         else Ask (\<lambda>answer.
           case validateConsolidation answer (map row_id pending) of
             None \<Rightarrow> Return (Some None)
           | Some (merges, drops) \<Rightarrow>
               and_try list_memories (\<lambda>later.
                 let by_id = filter (\<lambda>e. row_id e \<in> set (map row_id (filter needsReview later))) pending in
                 and_try (tidy_merges s by_id merges \<lparr>td_combined = 0, td_into = 0, td_setAside = 0\<rparr>) (\<lambda>r1.
                   and_try (tidy_drops by_id drops r1) (\<lambda>r2. Return (Some (Some r2))))))))"

text \<open>\<open>seen\<close> is what \<^verbatim>\<open>lastSeen\<close> holds for the repository; the result is what it holds then.\<close>

definition maybeTidyMemory :: "memory_settings \<Rightarrow> string \<Rightarrow> string option \<Rightarrow> string option job" where
  "maybeTidyMemory s owner seen =
     and_then list_memories (\<lambda>r.
       let waiting = filter needsReview (given r []); key = join_with '' '' (sort (map row_id waiting)) in
       if length waiting \<le> TIDY_ABOVE \<or> seen = Some key then Return seen
       else and_then (tidyMemory s owner) (\<lambda>_. Return (Some key)))"

section \<open>Extraction\<close>

definition EXTRACT_WINDOW_MS :: int where "EXTRACT_WINDOW_MS = 10 * 60 * 1000"
definition CROWDED_MIN_CONFIDENCE :: rat where "CROWDED_MIN_CONFIDENCE = 3 / 4"

definition verdict_of :: "json option \<Rightarrow> ledger_entry list \<Rightarrow> (string list \<times> string list) option" where
  "verdict_of answer offered = validateContradiction answer (map row_id offered)"

definition checkContradictions :: "string \<Rightarrow> ledger_entry list \<Rightarrow> (string list \<times> string list) option job" where
  "checkContradictions text existing =
     (let candidates = overlapCandidates text 2 8 existing in
      if candidates = [] then Return None else Ask (\<lambda>answer. Return (verdict_of answer candidates)))"

text \<open>The turns of one session, taken out of its buffer.\<close>

record turn_digest =
  tg_prompt :: string
  tg_finalMessage :: string
  tg_files :: "string list"
  tg_otherChanges :: "string list"

record session_digest =
  sd_sessionId :: string
  sd_cli :: "string option"
  sd_pty :: "nat option"
  sd_turnId :: string
  sd_turns :: "turn_digest list"
  sd_untrusted :: "string list"
  sd_lastSeen :: "string option"

definition extraction_source :: "session_digest \<Rightarrow> extracted \<Rightarrow> (string list \<times> string list) option \<Rightarrow> new_memory" where
  "extraction_source d m verdict =
     \<lparr>ex_type = ex_type m, ex_text = ex_text m, ex_why = ex_why m, ex_scope = ex_scope m, ex_confidence = ex_confidence m,
      nm_source = FromBrain,
      nm_provenance = \<lparr>pv_sessionId = Some (sd_sessionId d), pv_cli = sd_cli d, pv_turnId = Some (sd_turnId d),
        pv_files = take 50 (uniq (concat (map (\<lambda>t. tg_files t @ tg_otherChanges t) (sd_turns d)))),
        pv_prompt = (let p = tg_prompt (last (sd_turns d)) in if p = [] then None else Some (take 400 p))\<rparr>,
      nm_untrusted = sd_untrusted d, nm_verdict = verdict, nm_consolidatedFrom = [],
      nm_author = \<lparr>au_kind = ByBrain, au_name = ''memory'', au_sessionId = Some (sd_sessionId d), au_cli = sd_cli d, au_ptyId = sd_pty d\<rparr>\<rparr>"

primrec append_extracted :: "memory_settings \<Rightarrow> session_digest \<Rightarrow> ledger_entry list \<Rightarrow> bool \<Rightarrow> extracted list \<Rightarrow> string list \<Rightarrow> nat \<Rightarrow> nat job" where
  "append_extracted s d existing crowded [] known added = Return added"
| "append_extracted s d existing crowded (m # ms) known added =
     (let key = contentKey (ex_text m) in
      if key = [] \<or> key \<in> set known \<or> crowded \<and> ex_confidence m < CROWDED_MIN_CONFIDENCE
      then append_extracted s d existing crowded ms known added
      else and_then (checkContradictions (ex_text m) existing) (\<lambda>verdict.
             and_then (append_memory s (extraction_source d m verdict)) (\<lambda>r.
               append_extracted s d existing crowded ms (key # known) (if r = None then added else Suc added))))"

definition told_something :: "turn_digest \<Rightarrow> bool" where
  "told_something t \<longleftrightarrow> tg_prompt t \<noteq> [] \<or> tg_finalMessage t \<noteq> [] \<or> tg_files t \<noteq> [] \<or> tg_otherChanges t \<noteq> []"

definition extract_session :: "memory_settings \<Rightarrow> (rat \<Rightarrow> string) \<Rightarrow> string \<Rightarrow> session_digest \<Rightarrow> unit job" where
  "extract_session s num owner d =
     (if sd_turns d = [] \<or> \<not> ms_autoExtract s \<or> sd_untrusted d \<noteq> [] \<and> ms_skipUntrusted s then Return ()
      else and_then (claimLease (''session:'' @ sd_sessionId d) (2 * EXTRACT_WINDOW_MS) owner) (\<lambda>mine.
        if \<not> mine \<or> \<not> list_ex told_something (sd_turns d) then Return ()
        else and_then list_memories (\<lambda>r.
          let existing = given r []; live = filter (\<lambda>e. memoryStatus e \<in> {Approved, Proposed, Quarantined}) existing in
          Ask (\<lambda>answer. case validateExtraction num answer of
              None \<Rightarrow> Return ()
            | Some ms \<Rightarrow>
                (if ms = [] then Return ()
                 else and_then (append_extracted s d existing (length (filter (\<lambda>e. memoryStatus e \<noteq> Approved) live) > TIDY_ABOVE) ms
                         (map (\<lambda>e. contentKey (md_text e)) (data_of live)) 0) (\<lambda>added.
                   if added > 0 then and_then (maybeTidyMemory s owner (sd_lastSeen d)) (\<lambda>_. Return ()) else Return ()))))))"

section \<open>Proposals of agents\<close>

definition proposal_entry :: "valid_proposal \<Rightarrow> nat option \<Rightarrow> (nat \<Rightarrow> string) \<Rightarrow> string \<Rightarrow> int \<Rightarrow> ledger_entry" where
  "proposal_entry v pty show_nat i now =
     \<lparr>le_id = [], le_kind = KMemory, le_ts = 0,
      le_author = \<lparr>au_kind = ByAgent, au_name = vp_by v, au_sessionId = None, au_cli = None, au_ptyId = pty\<rparr>,
      le_scope = vp_scope v, le_subject = Some (js (vp_subject v)), le_ref = map_option (\<lambda>n. (''pty'', show_nat n)) pty,
      le_data = MemoryData \<lparr>md_memoryId = i, md_type = vp_type v, md_text = vp_text v, md_why = vp_why v, md_confidence = 1 / 2,
        md_createdAt = now, md_source = FromAgent,
        md_provenance = \<lparr>pv_sessionId = None, pv_cli = None, pv_turnId = None, pv_files = vp_files v, pv_prompt = None\<rparr>,
        md_untrusted = None, md_contradicts = None, md_supersedes = None, md_checkedAt = None, md_supersededBy = None, md_reconfirmedAt = None,
        md_editedAt = None, md_consolidatedFrom = None, md_retired = False, md_retiredReason = None\<rparr>,
      le_expires = Some (vp_expires v), le_supersedes = None, le_status = Some Proposed\<rparr>"

definition quarantine_if_tainted :: "string option \<Rightarrow> ledger_entry \<Rightarrow> ledger_entry" where
  "quarantine_if_tainted source e =
     (case source of
        None \<Rightarrow> e
      | Some w \<Rightarrow>
          (if rust_trim w = [] then e
           else e\<lparr>le_status := Some Quarantined,
                  le_data := (case memory_of e of
                      Some d \<Rightarrow> MemoryData (d\<lparr>md_untrusted := Some [''read untrusted content ('' @ rust_trim w @ '')'']\<rparr>)
                    | None \<Rightarrow> le_data e)\<rparr>))"

definition propose :: "(nat \<Rightarrow> string) \<Rightarrow> proposal \<Rightarrow> nat option \<Rightarrow> string option \<Rightarrow> ledger_entry option job" where
  "propose show_nat p pty taint =
     Clock (\<lambda>now. case validate_proposal now p of
         None \<Rightarrow> Return None
       | Some v \<Rightarrow> Random (\<lambda>i. Append (quarantine_if_tainted taint (proposal_entry v pty show_nat i now)) Return))"

text \<open>
  What the window knows of the session of a proposal: its identifier, and what it read. The part of \<^verbatim>\<open>reviewProposal\<close>
  before its first call is \<open>review_wanted\<close>.
\<close>

definition review_wanted :: "string list \<Rightarrow> ledger_entry \<Rightarrow> bool" where
  "review_wanted reviewed e \<longleftrightarrow>
     le_kind e = KMemory \<and> au_kind (le_author e) = ByAgent
     \<and> (case memory_of e of Some d \<Rightarrow> md_memoryId d \<noteq> [] \<and> (case md_checkedAt d of None \<Rightarrow> True | Some t \<Rightarrow> t = 0) \<and> md_memoryId d \<notin> set reviewed | None \<Rightarrow> False)
     \<and> needsReview e"

definition session_of :: "ledger_author \<Rightarrow> string option \<Rightarrow> string option" where
  "session_of a by_pty = truthy (case au_sessionId a of Some i \<Rightarrow> Some i | None \<Rightarrow> (if au_ptyId a = None then None else by_pty))"

definition review_patch :: "ledger_entry \<Rightarrow> memory_data \<Rightarrow> string option \<Rightarrow> string list \<Rightarrow> (string list \<times> string list) option \<Rightarrow> int \<Rightarrow> memory_patch" where
  "review_patch e d session seen verdict now =
     no_patch\<lparr>mp_status := (if seen \<noteq> [] \<and> memoryStatus e \<noteq> Quarantined then Some Quarantined else None),
       mp_data := no_data\<lparr>dp_checkedAt := Some now, dp_contradicts := map_option fst verdict, dp_supersedes := map_option snd verdict,
         dp_untrusted := (if seen \<noteq> [] then Some (uniq (ids_or_empty (md_untrusted d) @ seen)) else None),
         dp_provenance := (if truthy (pv_sessionId (md_provenance d)) = None then map_option (\<lambda>i. (md_provenance d)\<lparr>pv_sessionId := Some i\<rparr>) session else None)\<rparr>\<rparr>"

definition reviewProposal :: "string \<Rightarrow> string option \<Rightarrow> string list \<Rightarrow> ledger_entry \<Rightarrow> unit job" where
  "reviewProposal owner by_pty read e =
     (case memory_of e of
        None \<Rightarrow> Return ()
      | Some d \<Rightarrow>
          and_then (claimLease (''proposal:'' @ md_memoryId d) EXTRACT_WINDOW_MS owner) (\<lambda>mine.
            if \<not> mine then Return ()
            else
              let session = session_of (le_author e) by_pty; seen = (if session = None then [] else read) in
              and_then list_memories (\<lambda>r.
                and_then (checkContradictions (md_text d) (given r [])) (\<lambda>verdict.
                  Clock (\<lambda>now. and_then (revise_memory (md_memoryId d) (review_patch e d session seen verdict now)) (\<lambda>_. Return ()))))))"

text \<open>A proposal queued in a cloud workspace, and taking those of this repository into the ledger.\<close>

record queued_proposal =
  qp_ptyId :: nat
  qp_by :: string
  qp_scope :: mem_scope
  qp_subject :: js_string
  qp_data :: memory_data
  qp_expires :: int

definition pulled_entry :: "(nat \<Rightarrow> string) \<Rightarrow> queued_proposal \<Rightarrow> ledger_entry" where
  "pulled_entry show_nat p =
     \<lparr>le_id = [], le_kind = KMemory, le_ts = 0,
      le_author = \<lparr>au_kind = ByAgent, au_name = (if qp_by p = [] then ''agent'' else qp_by p), au_sessionId = None, au_cli = None, au_ptyId = Some (qp_ptyId p)\<rparr>,
      le_scope = qp_scope p, le_subject = Some (qp_subject p), le_ref = Some (''pty'', show_nat (qp_ptyId p)),
      le_data = MemoryData ((qp_data p)\<lparr>md_source := FromAgent\<rparr>), le_expires = Some (qp_expires p), le_supersedes = None, le_status = Some Proposed\<rparr>"

definition known_ids :: "ledger_entry list \<Rightarrow> string list" where
  "known_ids rows = filter (\<lambda>i. i \<noteq> []) (map md_memoryId (data_of rows))"

primrec pull_proposals :: "(nat \<Rightarrow> string) \<Rightarrow> queued_proposal list \<Rightarrow> string list option \<Rightarrow> string list \<Rightarrow> nat \<Rightarrow> (string list \<times> nat) job" where
  "pull_proposals show_nat [] known taken added = Return (taken, added)"
| "pull_proposals show_nat (p # ps) known taken added =
     (let i = md_memoryId (qp_data p);
          go = (\<lambda>ids. if i \<in> set ids then pull_proposals show_nat ps (Some ids) (taken @ [i]) added
                 else Append (pulled_entry show_nat p) (\<lambda>r. case r of
                     None \<Rightarrow> pull_proposals show_nat ps (Some ids) taken added
                   | Some _ \<Rightarrow> pull_proposals show_nat ps (Some (ids @ [i])) (taken @ [i]) (Suc added)))
      in if i = [] then pull_proposals show_nat ps known taken added
         else case known of
           Some ids \<Rightarrow> go ids
         | None \<Rightarrow> Query memory_query (\<lambda>r. case r of
               None \<Rightarrow> pull_proposals show_nat ps None taken added
             | Some rows \<Rightarrow> go (known_ids rows)))"

end
