(* ===== verification/MemoryTrust.thy ===== *)
theory MemoryTrust
  imports MemoryJobs
begin

text \<open>
  Team memory, who is trusted: the jobs of all windows interleaved over one ledger, and the rule every job keeps to. A job is
  checked once, call by call (\<open>keeps\<close>), against whatever the other jobs may have added meanwhile.
\<close>

section \<open>Windows at work\<close>

text \<open>
  What people, agents and the background start, and a world in which the jobs of all windows run over one ledger. A job moves
  when the call it awaits returns, and jobs move in any order.
\<close>

datatype task =
    Approve ledger_entry
  | Reject ledger_entry
  | ExpireNow ledger_entry
  | Reconfirm ledger_entry
  | Edit ledger_entry memory_edit
  | Supersede ledger_entry "ledger_entry list"
  | WriteByHand memory_edit string
  | Propose proposal "nat option" "string option"
  | Pull "queued_proposal list"
  | Review string "string option" "string list" ledger_entry
  | Extract string session_digest
  | Tidy string "string option"

definition ended :: "'a job \<Rightarrow> unit job" where
  "ended j = and_then j (\<lambda>_. Return ())"

record printer =
  of_nat_text :: "nat \<Rightarrow> string"
  of_number_text :: "rat \<Rightarrow> string"

definition job_of :: "printer \<Rightarrow> memory_settings \<Rightarrow> task \<Rightarrow> unit job" where
  "job_of pr s t =
     (case t of
        Approve e \<Rightarrow> ended (approveMemory s e)
      | Reject e \<Rightarrow> ended (rejectMemory e)
      | ExpireNow e \<Rightarrow> ended (expireMemory e)
      | Reconfirm e \<Rightarrow> ended (reconfirmMemory s e)
      | Edit e ed \<Rightarrow> ended (editMemory e ed)
      | Supersede e rows \<Rightarrow> ended (supersedeWith s e rows)
      | WriteByHand m author \<Rightarrow> ended (addMemoryByHand s m author)
      | Propose p pty taint \<Rightarrow> ended (propose (of_nat_text pr) p pty taint)
      | Pull queue \<Rightarrow> ended (pull_proposals (of_nat_text pr) queue None [] 0)
      | Review owner by_pty read e \<Rightarrow> reviewProposal owner by_pty read e
      | Extract owner d \<Rightarrow> extract_session s (of_number_text pr) owner d
      | Tidy owner seen \<Rightarrow> ended (maybeTidyMemory s owner seen))"

datatype reply =
    Fails
  | Rows int
  | Stored int string
  | Answer "json option"
  | Time int
  | Word string

text \<open>One move of a job over the ledger; a reply that is not to its call changes nothing.\<close>

fun resume :: "(ledger_entry \<Rightarrow> nat) \<Rightarrow> reply \<Rightarrow> 'r job \<Rightarrow> ledger_entry list \<Rightarrow> 'r job \<times> ledger_entry list" where
  "resume line_len Fails (Query q k) led = (k None, led)"
| "resume line_len (Rows now) (Query q k) led = (k (Some (query_in now q led)), led)"
| "resume line_len Fails (Append e k) led = (k None, led)"
| "resume line_len (Stored now fresh) (Append e k) led =
     (case append_in line_len now fresh e led of Inl _ \<Rightarrow> (k None, led) | Inr (e', led') \<Rightarrow> (k (Some e'), led'))"
| "resume line_len (Answer v) (Ask k) led = (k v, led)"
| "resume line_len (Time t) (Clock k) led = (k t, led)"
| "resume line_len (Word w) (Random k) led = (k w, led)"
| "resume line_len r j led = (j, led)"

record world =
  wd_ledger :: "ledger_entry list"
  wd_jobs :: "unit job list"
  wd_tasks :: "task list"

datatype happening = Begin memory_settings task | Resume nat reply

definition happens :: "printer \<Rightarrow> (ledger_entry \<Rightarrow> nat) \<Rightarrow> world \<Rightarrow> happening \<Rightarrow> world" where
  "happens pr line_len w h =
     (case h of
        Begin s t \<Rightarrow> w\<lparr>wd_jobs := wd_jobs w @ [job_of pr s t], wd_tasks := wd_tasks w @ [t]\<rparr>
      | Resume i r \<Rightarrow>
          (if i < length (wd_jobs w)
           then let (j, led) = resume line_len r (wd_jobs w ! i) (wd_ledger w) in w\<lparr>wd_jobs := (wd_jobs w)[i := j], wd_ledger := led\<rparr>
           else w))"

definition no_world :: world where
  "no_world = \<lparr>wd_ledger = [], wd_jobs = [], wd_tasks = []\<rparr>"

definition history :: "printer \<Rightarrow> (ledger_entry \<Rightarrow> nat) \<Rightarrow> happening list \<Rightarrow> world" where
  "history pr line_len hs = foldl (happens pr line_len) no_world hs"

section \<open>What a person vouched for\<close>

text \<open>The texts a memory may have, and the memories that may be approved.\<close>

record known =
  kn_vouched :: "string set"
  kn_texts :: "(string \<times> string) set"

definition knows_more :: "known \<Rightarrow> known \<Rightarrow> bool" where
  "knows_more K K' \<longleftrightarrow> kn_vouched K \<subseteq> kn_vouched K' \<and> kn_texts K \<subseteq> kn_texts K'"

definition begun :: "ledger_entry \<Rightarrow> bool" where
  "begun e \<longleftrightarrow> le_supersedes e = None"

definition by_person :: "ledger_entry \<Rightarrow> bool" where
  "by_person e \<longleftrightarrow> au_kind (le_author e) = ByHuman"

text \<open>An entry in the ledger, and one a job may append.\<close>

definition entry_known :: "known \<Rightarrow> ledger_entry \<Rightarrow> bool" where
  "entry_known K e \<longleftrightarrow>
     (case memory_of e of
        None \<Rightarrow> True
      | Some d \<Rightarrow> (memoryStatus e = Approved \<longrightarrow> md_memoryId d \<in> kn_vouched K) \<and> (md_memoryId d, md_text d) \<in> kn_texts K)"

definition may_append :: "known \<Rightarrow> ledger_entry \<Rightarrow> bool" where
  "may_append K e \<longleftrightarrow>
     (case memory_of e of
        None \<Rightarrow> True
      | Some d \<Rightarrow> (memoryStatus e = Approved \<longrightarrow> md_memoryId d \<in> kn_vouched K \<or> begun e \<and> by_person e)
          \<and> (begun e \<or> (md_memoryId d, md_text d) \<in> kn_texts K))"

text \<open>A job keeps to the rule: whatever happens meanwhile and whatever its calls return, it appends only what it may.\<close>

primrec keeps :: "'r job \<Rightarrow> ('r \<Rightarrow> known \<Rightarrow> bool) \<Rightarrow> known \<Rightarrow> bool" where
  "keeps (Return x) Q K = Q x K"
| "keeps (Query q k) Q K = (\<forall>K' r. knows_more K K' \<and> (case r of None \<Rightarrow> True | Some es \<Rightarrow> list_all (entry_known K') es) \<longrightarrow> keeps (k r) Q K')"
| "keeps (Append e k) Q K = (may_append K e \<and> (\<forall>K' r. knows_more K K' \<longrightarrow> keeps (k r) Q K'))"
| "keeps (Ask k) Q K = (\<forall>K' r. knows_more K K' \<longrightarrow> keeps (k r) Q K')"
| "keeps (Clock k) Q K = (\<forall>K' r. knows_more K K' \<longrightarrow> keeps (k r) Q K')"
| "keeps (Random k) Q K = (\<forall>K' r. knows_more K K' \<longrightarrow> keeps (k r) Q K')"

lemma keeps_and_then [simp]: "keeps (and_then j f) Q K = keeps j (\<lambda>x. keeps (f x) Q) K"
  by (induction j arbitrary: K) simp_all

lemma knows_more_refl [simp]: "knows_more K K"
  by (simp add: knows_more_def)

lemma knows_more_trans: "knows_more K K' \<Longrightarrow> knows_more K' K'' \<Longrightarrow> knows_more K K''"
  by (auto simp: knows_more_def)

text \<open>A postcondition may be weakened, and a job's calls only add to what is known.\<close>

lemma keeps_mono:
  assumes "keeps j Q K" "\<And>x K'. knows_more K K' \<Longrightarrow> Q x K' \<Longrightarrow> R x K'"
  shows "keeps j R K"
  using assms
proof (induction j arbitrary: K)
  case (Return x)
  then show ?case by simp
next
  case (Query q k)
  show ?case
    by (auto intro!: Query.IH [OF rangeI] intro: Query.prems(2) knows_more_trans) (use Query.prems(1) in auto)
next
  case (Append e k)
  show ?case
    using Append.prems(1) by (auto intro!: Append.IH [OF rangeI] intro: Append.prems(2) knows_more_trans)
next
  case (Ask k)
  show ?case
    using Ask.prems(1) by (auto intro!: Ask.IH [OF rangeI] intro: Ask.prems(2) knows_more_trans)
next
  case (Clock k)
  show ?case
    using Clock.prems(1) by (auto intro!: Clock.IH [OF rangeI] intro: Clock.prems(2) knows_more_trans)
next
  case (Random k)
  show ?case
    using Random.prems(1) by (auto intro!: Random.IH [OF rangeI] intro: Random.prems(2) knows_more_trans)
qed

text \<open>A job that may start may start later.\<close>

lemma keeps_later: "keeps j Q K \<Longrightarrow> knows_more K K' \<Longrightarrow> (\<And>x L L'. Q x L \<Longrightarrow> knows_more L L' \<Longrightarrow> Q x L') \<Longrightarrow> keeps j Q K'"
proof (cases j)
  case (Append e k)
  assume "keeps j Q K" "knows_more K K'"
  moreover from this Append have "may_append K' e" by (auto simp: may_append_def knows_more_def split: option.splits)
  ultimately show ?thesis using Append by (auto intro: knows_more_trans)
qed (auto intro: knows_more_trans)

section \<open>Every job keeps to the rule\<close>

definition harmless :: "'r job \<Rightarrow> bool" where
  "harmless j \<longleftrightarrow> (\<forall>K. keeps j (\<lambda>_ _. True) K)"

named_theorems harmless_intros \<open>jobs that never need a person's word\<close>

lemma harmlessD: "harmless j \<Longrightarrow> keeps j (\<lambda>_ _. True) K"
  by (simp add: harmless_def)

lemma harmless_calls [harmless_intros]:
  "harmless (Return x)"
  "(\<And>r. harmless (k1 r)) \<Longrightarrow> harmless (Query q k1)"
  "(\<And>r. harmless (k2 r)) \<Longrightarrow> harmless (Ask k2)"
  "(\<And>r. harmless (k3 r)) \<Longrightarrow> harmless (Clock k3)"
  "(\<And>r. harmless (k4 r)) \<Longrightarrow> harmless (Random k4)"
  "(\<And>K. may_append K e) \<Longrightarrow> (\<And>r. harmless (k5 r)) \<Longrightarrow> harmless (Append e k5)"
  by (simp_all add: harmless_def)

lemma keeps_seq:
  assumes "keeps j (\<lambda>_ _. True) K" "\<And>x K'. knows_more K K' \<Longrightarrow> keeps (f x) R K'"
  shows "keeps (and_then j f) R K"
  using assms by (auto intro: keeps_mono)

lemma keeps_try:
  assumes "keeps j (\<lambda>_ _. True) K" "\<And>x K'. knows_more K K' \<Longrightarrow> keeps (f x) (\<lambda>_ _. True) K'"
  shows "keeps (and_try j f) (\<lambda>_ _. True) K"
  unfolding and_try_def by (rule keeps_seq [OF assms(1)]) (simp add: assms(2) split: option.split)

lemma harmless_seq [harmless_intros]: "harmless j \<Longrightarrow> (\<And>x. harmless (f x)) \<Longrightarrow> harmless (and_then j f)"
  by (auto simp del: keeps_and_then simp: harmless_def intro: keeps_seq)

lemma harmless_try [harmless_intros]: "harmless j \<Longrightarrow> (\<And>x. harmless (f x)) \<Longrightarrow> harmless (and_try j f)"
  by (auto simp del: keeps_and_then simp: harmless_def intro: keeps_try)

lemma harmless_list [harmless_intros]: "harmless list_memories"
  unfolding list_memories_def by (intro harmless_intros)

lemma harmless_ended [harmless_intros]: "harmless j \<Longrightarrow> harmless (ended j)"
  unfolding ended_def by (intro harmless_intros)

text \<open>Reading and revising.\<close>

lemma set_first_of_each: "set (first_of_each seen es) \<subseteq> set es"
  by (induction seen es rule: first_of_each.induct) (auto split: option.split)

lemma has_id_memory: "has_id i e \<longleftrightarrow> (\<exists>d. memory_of e = Some d \<and> md_memoryId d = i)"
  by (simp add: has_id_def split: option.split)

lemma memory_of_revised [simp]: "memory_of (revised p h) = map_option (patched (mp_data p)) (memory_of h)"
  by (simp add: revised_def memory_of_def split: option.splits entry_data.splits)

lemma revised_simps [simp]: "\<not> begun (revised p h)" "memoryStatus (revised p h) = given (mp_status p) (memoryStatus h)"
  by (simp_all add: revised_def begun_def memoryStatus_def given_def given_some_def split: option.splits)

lemma patched_simps [simp]: "md_memoryId (patched p d) = md_memoryId d" "md_text (patched p d) = given (dp_text p) (md_text d)"
  by (simp_all add: patched_def)

lemma may_append_revised:
  assumes "entry_known K h" "has_id i h" "mp_status p = Some Approved \<Longrightarrow> i \<in> kn_vouched K"
    and "\<And>t. dp_text (mp_data p) = Some t \<Longrightarrow> (i, t) \<in> kn_texts K"
  shows "may_append K (revised p h)"
  using assms by (auto simp: may_append_def entry_known_def has_id_memory given_def split: option.splits)

lemma keeps_list:
  assumes "\<And>K' es. knows_more K K' \<Longrightarrow> list_all (entry_known K') es \<Longrightarrow> keeps (f es) (\<lambda>_ _. True) K'"
  shows "keeps (and_try list_memories f) (\<lambda>_ _. True) K"
proof -
  have "list_all (entry_known K') (first_of_each [] es)" if "list_all (entry_known K') es" for K' es
    using that set_first_of_each [of "[]" es] by (auto simp: list_all_iff)
  then show ?thesis using assms by (auto simp: and_try_def list_memories_def split: option.splits)
qed

lemma keeps_revise:
  assumes "mp_status p = Some Approved \<Longrightarrow> i \<in> kn_vouched K" "\<And>t. dp_text (mp_data p) = Some t \<Longrightarrow> (i, t) \<in> kn_texts K"
  shows "keeps (revise_memory i p) (\<lambda>_ _. True) K"
  unfolding revise_memory_def
proof (rule keeps_list)
  fix K' es
  assume more: "knows_more K K'" and known: "list_all (entry_known K') es"
  have "may_append K' (revised p h)" if "find (has_id i) es = Some h" for h
  proof (rule may_append_revised)
    have "h \<in> set es \<and> has_id i h" using that by (auto simp: find_Some_iff)
    then show "entry_known K' h" "has_id i h" using known by (auto simp: list_all_iff)
  qed (use assms more in \<open>auto simp: knows_more_def\<close>)
  then show "keeps (case find (has_id i) es of None \<Rightarrow> Return None | Some h \<Rightarrow> Append (revised p h) Return) (\<lambda>_ _. True) K'"
    by (simp split: option.split)
qed

lemma harmless_revise [harmless_intros]:
  "mp_status p \<noteq> Some Approved \<Longrightarrow> dp_text (mp_data p) = None \<Longrightarrow> harmless (revise_memory i p)"
  unfolding harmless_def by (auto intro: keeps_revise)

lemma may_append_proposed:
  "begun e \<Longrightarrow> memoryStatus e \<noteq> Approved \<Longrightarrow> may_append K e"
  by (simp add: may_append_def split: option.split)

text \<open>The jobs of the background and of agents.\<close>

lemmas patch_defs = no_patch_def no_data_def superseded_by_def review_patch_def

lemma harmless_append_memory [harmless_intros]: "harmless (append_memory s m)"
  unfolding append_memory_def
  by (intro harmless_intros may_append_proposed) (simp_all add: new_memory_entry_def begun_def memoryStatus_def Let_def)

lemma harmless_if [harmless_intros]: "(b \<Longrightarrow> harmless j) \<Longrightarrow> (\<not> b \<Longrightarrow> harmless j') \<Longrightarrow> harmless (if b then j else j')"
  by simp

lemma harmless_case [harmless_intros]:
  "harmless n \<Longrightarrow> (\<And>x. harmless (f x)) \<Longrightarrow> harmless (case r of None \<Rightarrow> n | Some x \<Rightarrow> f x)"
  "(\<And>x y. harmless (g x y)) \<Longrightarrow> harmless (case p of (x, y) \<Rightarrow> g x y)"
  "harmless m \<Longrightarrow> (\<And>y ys. harmless (h y ys)) \<Longrightarrow> harmless (case l of [] \<Rightarrow> m | y # ys \<Rightarrow> h y ys)"
  by (simp_all split: option.split prod.split list.split)

lemma harmless_lease [harmless_intros]: "harmless (claimLease key ttl owner)"
proof -
  have m: "may_append K (lease_entry key owner t)" for K t by (simp add: may_append_def lease_entry_def memory_of_def)
  show ?thesis
    unfolding claimLease_def claim_found_def claim_settled_def
    by (intro harmless_intros m)
qed

lemma harmless_retire [harmless_intros]: "harmless (retire_all i es)" "harmless (retire_sources i es)"
  by (induction es) (auto intro!: harmless_intros simp: patch_defs)

lemma harmless_tidy_loops [harmless_intros]: "harmless (tidy_merges s by_id ms r)" "harmless (tidy_drops by_id ds r)"
proof -
  show "harmless (tidy_merges s by_id ms r)"
    by (induction ms arbitrary: r) (auto intro!: harmless_intros simp: Let_def)
  show "harmless (tidy_drops by_id ds r)"
    by (induction ds arbitrary: r) (auto intro!: harmless_intros simp: patch_defs)
qed

lemma harmless_tidy [harmless_intros]: "harmless (tidyMemory s owner)" "harmless (maybeTidyMemory s owner seen)"
proof -
  show tidy: "harmless (tidyMemory s owner)"
    unfolding tidyMemory_def Let_def by (intro harmless_intros)
  show "harmless (maybeTidyMemory s owner seen)"
    unfolding maybeTidyMemory_def Let_def by (intro harmless_intros tidy)
qed

lemma harmless_check [harmless_intros]: "harmless (checkContradictions text es)"
  unfolding checkContradictions_def Let_def by (intro harmless_intros)

lemma harmless_extracted [harmless_intros]: "harmless (append_extracted s d existing crowded ms known added)"
  by (induction ms arbitrary: known added) (auto intro!: harmless_intros simp: Let_def)

lemma harmless_extract [harmless_intros]: "harmless (extract_session s num owner d)"
  unfolding extract_session_def Let_def by (intro harmless_intros)

lemma harmless_review [harmless_intros]: "harmless (reviewProposal owner by_pty read e)"
  unfolding reviewProposal_def Let_def by (intro harmless_intros) (simp_all add: patch_defs split: if_split)

lemma harmless_propose [harmless_intros]: "harmless (propose show_nat p pty taint)"
proof -
  have "begun (quarantine_if_tainted t (proposal_entry v pty show_nat i now)) \<and> memoryStatus (quarantine_if_tainted t (proposal_entry v pty show_nat i now)) \<noteq> Approved"
    for t v i now by (simp add: quarantine_if_tainted_def proposal_entry_def begun_def memoryStatus_def split: option.split)
  then show ?thesis
    unfolding propose_def by (auto intro!: harmless_intros may_append_proposed split: option.split)
qed

lemma harmless_pull [harmless_intros]: "harmless (pull_proposals show_nat queue known taken added)"
proof (induction queue arbitrary: known taken added)
  case (Cons p ps)
  have "begun (pulled_entry show_nat p)" "memoryStatus (pulled_entry show_nat p) \<noteq> Approved"
    by (simp_all add: pulled_entry_def begun_def memoryStatus_def)
  then show ?case
    by (auto intro!: harmless_intros may_append_proposed Cons.IH simp: Let_def split: option.split)
qed (auto intro: harmless_intros)

section \<open>Nothing reaches an agent without a person\<close>

definition approves :: "task \<Rightarrow> string \<Rightarrow> bool" where
  "approves t i = (case t of Approve e \<Rightarrow> row_id e = i | Supersede e rows \<Rightarrow> row_id e = i | _ \<Rightarrow> False)"

definition edits :: "task \<Rightarrow> (string \<times> string) option" where
  "edits t = (case t of Edit e ed \<Rightarrow> Some (row_id e, trim_str (ed_text ed)) | _ \<Rightarrow> None)"

definition begins :: "ledger_entry \<Rightarrow> (string \<times> string) option" where
  "begins e = (if begun e then map_option (\<lambda>d. (md_memoryId d, md_text d)) (memory_of e) else None)"

definition vouched_for :: "world \<Rightarrow> string \<Rightarrow> bool" where
  "vouched_for w i \<longleftrightarrow>
     list_ex (\<lambda>t. approves t i) (wd_tasks w) \<or> list_ex (\<lambda>e. by_person e \<and> (case begins e of Some (j, _) \<Rightarrow> j = i | None \<Rightarrow> False)) (wd_ledger w)"

definition said :: "world \<Rightarrow> string \<Rightarrow> string \<Rightarrow> bool" where
  "said w i t \<longleftrightarrow> list_ex (\<lambda>e. begins e = Some (i, t)) (wd_ledger w) \<or> list_ex (\<lambda>k. edits k = Some (i, t)) (wd_tasks w)"

definition known_in :: "world \<Rightarrow> known" where
  "known_in w = \<lparr>kn_vouched = Collect (vouched_for w), kn_texts = {(i, t). said w i t}\<rparr>"

definition sound :: "world \<Rightarrow> bool" where
  "sound w \<longleftrightarrow> list_all (\<lambda>j. keeps j (\<lambda>_ _. True) (known_in w)) (wd_jobs w) \<and> list_all (entry_known (known_in w)) (wd_ledger w)"

lemma known_grows:
  assumes "set (wd_ledger w) \<subseteq> set (wd_ledger w')" "set (wd_tasks w) \<subseteq> set (wd_tasks w')"
  shows "knows_more (known_in w) (known_in w')"
  using assms by (fastforce simp: knows_more_def known_in_def vouched_for_def said_def list_ex_iff)

lemma entry_known_mono: "entry_known K e \<Longrightarrow> knows_more K K' \<Longrightarrow> entry_known K' e"
  by (auto simp: entry_known_def knows_more_def split: option.splits)

lemma keeps_True_later: "keeps j (\<lambda>_ _. True) K \<Longrightarrow> knows_more K K' \<Longrightarrow> keeps j (\<lambda>_ _. True) K'"
  by (erule keeps_later) simp_all

lemma sound_grows:
  assumes "sound w" "set (wd_ledger w) \<subseteq> set (wd_ledger w')" "set (wd_tasks w) \<subseteq> set (wd_tasks w')"
  shows "list_all (\<lambda>j. keeps j (\<lambda>_ _. True) (known_in w')) (wd_jobs w)" "list_all (entry_known (known_in w')) (wd_ledger w)"
  using assms(1) known_grows [OF assms(2,3)] entry_known_mono keeps_True_later unfolding sound_def by (fastforce simp: list_all_iff)+

text \<open>What a person starts is covered by their starting it.\<close>

lemma started_known:
  "t \<in> set (wd_tasks w) \<Longrightarrow> approves t i \<Longrightarrow> i \<in> kn_vouched (known_in w)"
  "t \<in> set (wd_tasks w) \<Longrightarrow> edits t = Some (i, x) \<Longrightarrow> (i, x) \<in> kn_texts (known_in w)"
  by (auto simp: known_in_def vouched_for_def said_def list_ex_iff)

lemma keeps_job_of:
  assumes "t \<in> set (wd_tasks w)"
  shows "keeps (job_of pr s t) (\<lambda>_ _. True) (known_in w)"
proof -
  have approve: "keeps (approveMemory s e) (\<lambda>_ _. True) K" if "row_id e \<in> kn_vouched K" for e K
    using that by (auto simp: approveMemory_def no_patch_def no_data_def knows_more_def intro!: keeps_revise)
  have edit: "keeps (editMemory e ed) (\<lambda>_ _. True) K" if "(row_id e, trim_str (ed_text ed)) \<in> kn_texts K" for e ed K
    using that by (auto simp: editMemory_def no_patch_def no_data_def knows_more_def intro!: keeps_revise)
  have hand: "harmless (addMemoryByHand s m author)" for m author
  proof -
    have "may_append K (hand_entry s author now i m')" for K now i m'
      by (simp add: may_append_def begun_def by_person_def hand_entry_def memory_of_def)
    then show ?thesis unfolding addMemoryByHand_def Let_def by (intro harmless_intros)
  qed
  show ?thesis
  proof (cases t)
    case (Approve e)
    then have "row_id e \<in> kn_vouched (known_in w)"
      by (intro started_known(1) [OF assms]) (simp add: approves_def)
    then show ?thesis by (simp add: Approve job_of_def ended_def approve keeps_seq del: keeps_and_then)
  next
    case (Supersede e rows)
    then have "row_id e \<in> kn_vouched (known_in w)"
      by (intro started_known(1) [OF assms]) (simp add: approves_def)
    then have "keeps (supersedeWith s e rows) (\<lambda>_ _. True) (known_in w)"
      unfolding supersedeWith_def by (intro keeps_try approve harmlessD harmless_retire)
    then show ?thesis by (simp add: Supersede job_of_def ended_def keeps_seq del: keeps_and_then)
  next
    case (Edit e ed)
    then have "(row_id e, trim_str (ed_text ed)) \<in> kn_texts (known_in w)"
      by (intro started_known(2) [OF assms]) (simp add: edits_def)
    then show ?thesis by (simp add: Edit job_of_def ended_def edit keeps_seq del: keeps_and_then)
  next
    case (Reject e)
    have "harmless (rejectMemory e)" unfolding rejectMemory_def by (intro harmless_intros) (simp_all add: patch_defs)
    then show ?thesis by (auto simp: Reject job_of_def intro: harmlessD harmless_ended)
  next
    case (ExpireNow e)
    have "harmless (expireMemory e)" unfolding expireMemory_def by (intro harmless_intros) (simp_all add: patch_defs)
    then show ?thesis by (auto simp: ExpireNow job_of_def intro: harmlessD harmless_ended)
  next
    case (Reconfirm e)
    have "harmless (reconfirmMemory s e)" unfolding reconfirmMemory_def by (intro harmless_intros) (simp_all add: patch_defs)
    then show ?thesis by (auto simp: Reconfirm job_of_def intro: harmlessD harmless_ended)
  qed (auto simp: job_of_def intro!: harmlessD harmless_intros hand)
qed

text \<open>What a move appends is what the job asked to append.\<close>

lemma append_in_Inr:
  assumes "append_in line_len now fresh e led = Inr (e', led')"
  shows "led' = led @ [e']" "memory_of e' = memory_of e" "memoryStatus e' = memoryStatus e" "begun e' = begun e" "by_person e' = by_person e"
  using assms by (auto simp: append_in_def Let_def memory_of_def memoryStatus_def begun_def by_person_def split: if_splits)

lemma resume_cases:
  assumes "resume line_len r j led = (j', led')"
  obtains "j' = j" "led' = led"
  | q k es where "j = Query q k" "j' = k es" "led' = led" "case es of None \<Rightarrow> True | Some xs \<Rightarrow> set xs \<subseteq> set led"
  | e k where "j = Append e k" "j' = k None" "led' = led"
  | e k e' now fresh where "j = Append e k" "j' = k (Some e')" "append_in line_len now fresh e led = Inr (e', led')"
  | k v where "j = Ask k" "j' = k v" "led' = led"
  | k t where "j = Clock k" "j' = k t" "led' = led"
  | k x where "j = Random k" "j' = k x" "led' = led"
proof -
  have "set (query_in now q led) \<subseteq> set led" for now q
    using set_take_subset by (fastforce simp: query_in_def fold_chains_def)
  then show ?thesis
    using assms that by (cases "(line_len, r, j, led)" rule: resume.cases) (auto split: sum.splits)
qed

lemma begins_iff: "begins e = Some (i, t) \<longleftrightarrow> begun e \<and> (\<exists>d. memory_of e = Some d \<and> md_memoryId d = i \<and> md_text d = t)"
  by (auto simp: begins_def)

lemma appended_known:
  assumes "may_append K e" "knows_more K (known_in w)" "memory_of e' = memory_of e" "memoryStatus e' = memoryStatus e"
    and "begun e' = begun e" "by_person e' = by_person e" "e' \<in> set (wd_ledger w)"
  shows "entry_known (known_in w) e'"
proof (cases "memory_of e")
  case (Some d)
  have "begun e \<Longrightarrow> said w (md_memoryId d) (md_text d)"
    using assms(3,5,7) Some by (auto simp: said_def list_ex_iff begins_iff)
  moreover have "begun e \<Longrightarrow> by_person e \<Longrightarrow> vouched_for w (md_memoryId d)"
    using assms(3,5,6,7) Some by (force simp: vouched_for_def list_ex_iff begins_def)
  ultimately show ?thesis
    using assms(1-4) Some by (auto simp: entry_known_def may_append_def knows_more_def known_in_def)
qed (use assms(3) in \<open>simp add: entry_known_def\<close>)

lemma sound_happens: "sound w \<Longrightarrow> sound (happens pr line_len w h)"
proof (cases h)
  case (Begin s t)
  assume "sound w"
  define w' where "w' = w\<lparr>wd_jobs := wd_jobs w @ [job_of pr s t], wd_tasks := wd_tasks w @ [t]\<rparr>"
  have "keeps (job_of pr s t) (\<lambda>_ _. True) (known_in w')" by (rule keeps_job_of) (simp add: w'_def)
  moreover have "list_all (\<lambda>j. keeps j (\<lambda>_ _. True) (known_in w')) (wd_jobs w)" "list_all (entry_known (known_in w')) (wd_ledger w)"
    using sound_grows [OF \<open>sound w\<close>, of w'] by (auto simp: w'_def)
  ultimately have "sound w'" by (simp add: sound_def) (simp add: w'_def)
  then show ?thesis by (simp add: Begin happens_def w'_def)
next
  case (Resume i r)
  assume sound: "sound w"
  show ?thesis
  proof (cases "i < length (wd_jobs w)")
    case True
    obtain j' led' where run: "resume line_len r (wd_jobs w ! i) (wd_ledger w) = (j', led')" by fastforce
    define w' where "w' = w\<lparr>wd_jobs := (wd_jobs w)[i := j'], wd_ledger := led'\<rparr>"
    have keeps: "keeps (wd_jobs w ! i) (\<lambda>_ _. True) (known_in w)" using sound True by (simp add: sound_def list_all_length)
    have known: "list_all (entry_known (known_in w)) (wd_ledger w)" using sound by (simp add: sound_def)
    have sub: "set (wd_ledger w) \<subseteq> set (wd_ledger w')" using run by (cases rule: resume_cases) (auto simp: w'_def dest: append_in_Inr(1))
    have more: "knows_more (known_in w) (known_in w')" by (rule known_grows) (use sub in \<open>auto simp: w'_def\<close>)
    have old: "list_all (entry_known (known_in w')) (wd_ledger w)"
      using known more entry_known_mono by (auto simp: list_all_iff)
    have "keeps j' (\<lambda>_ _. True) (known_in w') \<and> list_all (entry_known (known_in w')) led'"
      using run
    proof (cases rule: resume_cases)
      case (2 q k es)
      have "case es of None \<Rightarrow> True | Some xs \<Rightarrow> list_all (entry_known (known_in w')) xs"
        using 2(4) old by (cases es) (auto simp: list_all_iff)
      moreover have "keeps (k r) (\<lambda>_ _. True) K'" if "knows_more (known_in w) K'" "case r of None \<Rightarrow> True | Some xs \<Rightarrow> list_all (entry_known K') xs" for K' r
        using keeps that unfolding 2(1) by simp
      ultimately show ?thesis using more old 2(2,3) by simp
    next
      case (4 e k e' now fresh)
      have "entry_known (known_in w') e'"
        using keeps more 4(1) append_in_Inr [OF 4(3)] by (intro appended_known [of "known_in w" e]) (auto simp: w'_def)
      then show ?thesis using keeps more old 4 append_in_Inr(1) [OF 4(3)] by simp
    qed (use keeps more old keeps_True_later in auto)
    moreover have "list_all (\<lambda>j. keeps j (\<lambda>_ _. True) (known_in w')) (wd_jobs w)"
      using sound_grows(1) [OF sound sub] by (simp add: w'_def)
    ultimately have "sound w'" by (auto simp: sound_def w'_def list_all_iff dest: set_update_subset_insert [THEN subsetD])
    then show ?thesis using True by (simp add: Resume happens_def w'_def run)
  qed (use sound in \<open>simp add: Resume happens_def\<close>)
qed

lemma history_sound: "sound (history pr line_len hs)"
proof -
  have "sound (foldl (happens pr line_len) w hs)" if "sound w" for w
    using that by (induction hs arbitrary: w) (simp_all add: sound_happens)
  then show ?thesis by (simp add: history_def no_world_def sound_def)
qed

text \<open>C2: Nothing reaches an agent without a person: however the jobs of all windows interleave and whatever the brain, the
  agents and the clock do, a memory agents are told is one a person approved or wrote down, and its text is one it was
  proposed or written with, or that a person gave it in an edit.\<close>

theorem served_memory_was_vouched_for:
  assumes "e \<in> set (wd_ledger (history pr line_len hs))" "memory_of e = Some d" "servedToAgents now e"
  shows "vouched_for (history pr line_len hs) (md_memoryId d) \<and> said (history pr line_len hs) (md_memoryId d) (md_text d)"
proof -
  have "entry_known (known_in (history pr line_len hs)) e"
    using history_sound assms(1) by (simp add: sound_def list_all_iff)
  then show ?thesis using assms(2,3) by (simp add: entry_known_def servedToAgents_def known_in_def)
qed

section \<open>Runs of the windows\<close>

definition demo_settings :: memory_settings where
  "demo_settings = \<lparr>ms_autoExtract = True, ms_factExpiryDays = 90, ms_decisionExpiryDays = 180, ms_skipUntrusted = False\<rparr>"

definition demo_run :: "happening list \<Rightarrow> world" where
  "demo_run hs = history \<lparr>of_nat_text = (\<lambda>_. ''1''), of_number_text = (\<lambda>_. [])\<rparr> (\<lambda>_. 0) hs"

definition proposed_at :: "int \<Rightarrow> nat \<Rightarrow> happening list" where
  "proposed_at now n = concat (map (\<lambda>i.
     [Begin demo_settings (Propose \<lparr>pr_kind = ''fact'', pr_text = ''12345678'', pr_why = [], pr_scope = None, pr_files = [], pr_by = None\<rparr> (Some 1) None),
      Resume i (Time now), Resume i (Word (replicate (Suc i) CHR ''m'')), Resume i (Stored now (replicate (Suc i) CHR ''e''))]) [0..<n])"

definition row_of :: "happening list \<Rightarrow> nat \<Rightarrow> ledger_entry" where
  "row_of hs i = wd_ledger (demo_run hs) ! i"

definition approved_run :: "happening list" where
  "approved_run = proposed_at 1 1 @
     [Begin demo_settings (Approve (row_of (proposed_at 1 1) 0)), Resume 1 (Time 2), Resume 1 (Rows 2), Resume 1 (Stored 2 ''a'')]"

theorem served_memory_was_vouched_for_witness:
  "servedToAgents 3 (row_of approved_run 1) \<and> vouched_for (demo_run approved_run) ''m'' \<and> said (demo_run approved_run) ''m'' ''12345678''"
proof -
  have s: "servedToAgents 3 (row_of approved_run 1)" by code_simp
  have m: "map_option (\<lambda>d. (md_memoryId d, md_text d)) (memory_of (row_of approved_run 1)) = Some (''m'', ''12345678'')" by code_simp
  have "length (wd_ledger (demo_run approved_run)) = 2" by code_simp
  then have "row_of approved_run 1 \<in> set (wd_ledger (demo_run approved_run))" by (simp add: row_of_def)
  from this [unfolded demo_run_def] served_memory_was_vouched_for [OF this [unfolded demo_run_def] _ s] m s show ?thesis
    by (auto simp: demo_run_def)
qed

definition tidied_run :: "happening list" where
  "tidied_run = proposed_at 1 11 @
     [Begin demo_settings (Tidy ''w1'' None), Resume 11 (Rows 2), Resume 11 (Rows 2), Resume 11 (Time 2), Resume 11 (Rows 2), Resume 11 (Stored 2 ''l1''),
      Resume 11 (Rows 2), Resume 11 (Time 2),
      Begin demo_settings (Review ''w2'' (Some ''s'') [''read a web page''] (row_of (proposed_at 1 1) 0)), Resume 12 (Time 3), Resume 12 (Rows 3),
      Resume 12 (Stored 3 ''l2''), Resume 12 (Rows 3), Resume 12 (Time 3), Resume 12 (Rows 3), Resume 12 (Time 3), Resume 12 (Rows 3), Resume 12 (Stored 3 ''r1''),
      Resume 11 (Answer (Some (JObj [(''merges'', JArr [JObj [(''ids'', JArr [JStr ''m'', JStr ''mm'']), (''type'', JStr ''fact''), (''text'', JStr ''87654321'')]])]))),
      Resume 11 (Rows 4), Resume 11 (Time 4), Resume 11 (Word ''c''), Resume 11 (Stored 4 ''x'')]"

text \<open>Combining can launder: a proposal quarantined while the brain is asked to tidy the queue is still combined from the
  snapshot taken before, so the entry that replaces it is an ordinary proposal without the warning.\<close>

theorem tidying_launders_a_late_quarantine:
  "\<exists>hs old new d. let led = wd_ledger (demo_run hs) in
     old \<in> set (listMemories 3 (butlast led)) \<and> memoryStatus old = Quarantined
     \<and> new = last led \<and> memory_of new = Some d \<and> row_id old \<in> set (ids_or_empty (md_consolidatedFrom d))
     \<and> memoryStatus new = Proposed \<and> md_untrusted d = None"
proof -
  let ?led = "wd_ledger (demo_run tidied_run)"
  have run: "let led = ?led in
      list_ex (\<lambda>e. memoryStatus e = Quarantined \<and> row_id e = ''m'') (listMemories 3 (butlast led))
      \<and> map_option (\<lambda>d. (memoryStatus (last led), ids_or_empty (md_consolidatedFrom d), md_untrusted d)) (memory_of (last led))
        = Some (Proposed, [''m'', ''mm''], None)" by code_simp
  then obtain old where o: "old \<in> set (listMemories 3 (butlast ?led))" "memoryStatus old = Quarantined" "row_id old = ''m''"
    by (auto simp: list_ex_iff Let_def)
  from run obtain d where "memory_of (last ?led) = Some d" "memoryStatus (last ?led) = Proposed" "ids_or_empty (md_consolidatedFrom d) = [''m'', ''mm'']"
    "md_untrusted d = None" by (auto simp: Let_def)
  then show ?thesis using o by (intro exI [of _ tidied_run] exI [of _ old] exI [of _ "last ?led"] exI [of _ d]) (simp add: Let_def)
qed

text \<open>The memories copied to a cloud workspace, the newest first; one row for each, as for \<^verbatim>\<open>listMemories\<close>.\<close>

definition MAX_SYNCED :: nat where "MAX_SYNCED = 5000"

definition pushed_memories :: "int \<Rightarrow> ledger_entry list \<Rightarrow> ledger_entry list" where
  "pushed_memories now rows = take MAX_SYNCED (first_of_each [] (filter (servedToAgents now) rows))"

definition forked_run :: "happening list" where
  "forked_run = proposed_at 1 1 @
     [Begin demo_settings (Approve (row_of (proposed_at 1 1) 0)), Resume 1 (Time 2),
      Begin demo_settings (Reject (row_of (proposed_at 1 1) 0)), Resume 2 (Time 2),
      Resume 1 (Rows 2), Resume 2 (Rows 2), Resume 1 (Stored 2 ''a''), Resume 2 (Stored 3 ''b'')]"

text \<open>A memory that was rejected can still be told to agents: when two windows revise it at once, the newer revision rejecting
  it, the panel shows the rejection, but what is filtered before one row is taken for each memory is the older, approved one,
  and once the rejection's month is over the panel shows it approved again.\<close>

theorem rejected_fork_is_still_served:
  "\<exists>hs. let led = wd_ledger (demo_run hs) in
     map_option memoryStatus (head_of 4 ''m'' led) = Some Rejected
     \<and> list_ex (has_id ''m'') (pushed_memories 4 (query_in 4 memory_query led))
     \<and> (\<exists>later. map_option memoryStatus (head_of later ''m'' led) = Some Approved)"
proof -
  let ?led = "wd_ledger (demo_run forked_run)"
  have "map_option memoryStatus (head_of 4 ''m'' ?led) = Some Rejected" by code_simp
  moreover have "list_ex (has_id ''m'') (pushed_memories 4 (query_in 4 memory_query ?led))" by code_simp
  moreover have "map_option memoryStatus (head_of (31 * DAY_MS) ''m'' ?led) = Some Approved" by code_simp
  ultimately show ?thesis by (intro exI [of _ forked_run]) (auto simp: Let_def)
qed

section \<open>A revision takes effect\<close>

lemma find_first_of_each:
  "i \<noteq> [] \<Longrightarrow> i \<notin> set seen \<Longrightarrow> find (has_id i) (first_of_each seen es) = find (has_id i) es"
proof (induction seen es rule: first_of_each.induct)
  case (2 seen e es)
  then show ?case by (auto simp: has_id_def split: option.splits)
qed simp

lemma sort_key_newest:
  "(\<And>x. x \<in> set xs \<Longrightarrow> le_ts x \<le> le_ts e) \<Longrightarrow> sort_key (\<lambda>x. - le_ts x) (e # xs) = e # sort_key (\<lambda>x. - le_ts x) xs"
proof -
  assume a: "\<And>x. x \<in> set xs \<Longrightarrow> le_ts x \<le> le_ts e"
  then have "\<And>x. x \<in> set (sort_key (\<lambda>x. - le_ts x) xs) \<Longrightarrow> - le_ts e \<le> - le_ts x" by simp
  then show ?thesis by (cases "sort_key (\<lambda>x. - le_ts x) xs") (simp_all)
qed

text \<open>The ledger of memories, newest first: what a query for memories returns when there are no more than 5000.\<close>

definition memory_rows :: "int \<Rightarrow> ledger_entry list \<Rightarrow> ledger_entry list" where
  "memory_rows now led = sort_key (\<lambda>e. - le_ts e) (rev (filter (query_matches now memory_query) (fold_chains led)))"

lemma query_memories: "length (memory_rows now led) \<le> 5000 \<Longrightarrow> query_in now memory_query led = memory_rows now led"
  by (simp add: query_in_def memory_rows_def memory_query_def MAX_LIMIT_def)

lemma fold_chains_snoc:
  assumes "le_supersedes e' = Some h" "le_id e' \<noteq> h" "le_id e' \<notin> set (superseded_ids led)"
  shows "fold_chains (led @ [e']) = filter (\<lambda>e. le_id e \<noteq> h) (fold_chains led) @ [e']"
proof -
  have "superseded_ids (led @ [e']) = superseded_ids led @ [h]"
    using assms(1) by (simp add: superseded_ids_def List.map_filter_def)
  then show ?thesis using assms(2,3) by (auto simp: fold_chains_def intro: filter_cong)
qed

lemma head_of_rows:
  assumes "length (memory_rows now led) \<le> 5000"
  shows "head_of now i led = (if i = [] then None else find (has_id i) (memory_rows now led))"
proof -
  have "find (has_id []) (first_of_each seen es) = None" for seen es
    by (induction seen es rule: first_of_each.induct) (auto simp: has_id_def split: option.splits)
  then show ?thesis by (simp add: head_of_def listMemories_def query_memories [OF assms] find_first_of_each)
qed

lemma length_memory_rows: "length (memory_rows now led) \<le> length led"
  by (simp add: memory_rows_def fold_chains_def)

lemma set_memory_rows: "set (memory_rows now led) \<subseteq> {e \<in> set led. query_matches now memory_query e}"
  by (auto simp: memory_rows_def fold_chains_def)

lemma find_filter_other: "(\<And>e. e \<in> set es \<Longrightarrow> \<not> P e \<Longrightarrow> \<not> Q e) \<Longrightarrow> find Q (filter P es) = find Q es"
  by (induction es) auto

lemma rows_after_revision:
  assumes "le_supersedes e' = Some h" "le_id e' \<noteq> h" "le_id e' \<notin> set (superseded_ids led)"
    and "query_matches now memory_query e'" "\<And>e. e \<in> set led \<Longrightarrow> le_ts e \<le> le_ts e'"
  shows "memory_rows now (led @ [e']) = e' # filter (\<lambda>e. le_id e \<noteq> h) (memory_rows now led)"
proof -
  let ?m = "query_matches now memory_query"
  have "memory_rows now (led @ [e']) = sort_key (\<lambda>e. - le_ts e) (e' # rev (filter ?m (filter (\<lambda>e. le_id e \<noteq> h) (fold_chains led))))"
    using assms(4) by (simp add: memory_rows_def fold_chains_snoc [OF assms(1-3)])
  also have "\<dots> = e' # sort_key (\<lambda>e. - le_ts e) (rev (filter ?m (filter (\<lambda>e. le_id e \<noteq> h) (fold_chains led))))"
    using assms(5) by (intro sort_key_newest) (auto simp: fold_chains_def)
  also have "filter ?m (filter (\<lambda>e. le_id e \<noteq> h) (fold_chains led)) = filter (\<lambda>e. le_id e \<noteq> h) (filter ?m (fold_chains led))"
    by (simp add: conj_commute)
  finally show ?thesis by (simp add: memory_rows_def filter_sort rev_filter)
qed

text \<open>A revision takes effect: when a window that revised a memory is not raced by another one, the next listing shows the
  revised entry as that memory's head, with the patch applied, and every other memory as before.\<close>

theorem revision_takes_effect:
  assumes "head_of now i led = Some h" "append_in line_len now fresh (revised p h) led = Inr (e', led')"
    and "fresh \<noteq> []" "fresh \<notin> set (map le_id led)" "fresh \<notin> set (superseded_ids led)" "distinct (map le_id led)"
    and "list_all (\<lambda>e. le_ts e \<le> now) led" "in_date now (revised p h)" "length led < 5000"
  shows "head_of now i led' = Some e' \<and> memoryStatus e' = given (mp_status p) (memoryStatus h)
    \<and> memory_of e' = map_option (patched (mp_data p)) (memory_of h) \<and> (\<forall>j. j = i \<or> head_of now j led' = head_of now j led)"
proof -
  have e': "e' = (revised p h)\<lparr>le_ts := now, le_id := fresh\<rparr>" and led': "led' = led @ [e']"
    using assms(2) by (auto simp: append_in_def Let_def revised_def split: if_splits)
  have few: "length (memory_rows now led) \<le> 5000" "length (memory_rows now led') \<le> 5000"
    using length_memory_rows [of now led] length_memory_rows [of now led'] assms(9) by (simp_all add: led')
  have i: "i \<noteq> []" "find (has_id i) (memory_rows now led) = Some h"
    using assms(1) unfolding head_of_rows [OF few(1)] by (simp_all split: if_splits)
  from i(2) have "h \<in> set (memory_rows now led) \<and> has_id i h" unfolding find_Some_iff by (metis nth_mem)
  then have h: "h \<in> set led" "query_matches now memory_query h" "has_id i h"
    using set_memory_rows [of now led] by auto
  have m: "memory_of e' = map_option (patched (mp_data p)) (memory_of h)" and st: "memoryStatus e' = given (mp_status p) (memoryStatus h)"
    unfolding e' by (simp_all add: memory_of_def memoryStatus_def revised_def given_def given_some_def split: option.splits entry_data.splits)
  have "query_matches now memory_query e'"
    using h(2) assms(8) by (simp add: e' query_matches_def memory_query_def in_date_def revised_def)
  moreover have "le_ts e \<le> le_ts e'" if "e \<in> set led" for e using assms(7) that by (auto simp: e' list_all_iff)
  moreover have "le_supersedes e' = Some (le_id h)" "le_id e' \<noteq> le_id h" "le_id e' \<notin> set (superseded_ids led)"
    using h(1) assms(4,5) by (auto simp: e' revised_def)
  ultimately have rows: "memory_rows now led' = e' # filter (\<lambda>e. le_id e \<noteq> le_id h) (memory_rows now led)"
    unfolding led' by (intro rows_after_revision)
  have mine: "has_id j e' \<longleftrightarrow> j = i" for j using h(3) by (auto simp: has_id_memory m)
  have "find (has_id j) (filter (\<lambda>e. le_id e \<noteq> le_id h) (memory_rows now led)) = find (has_id j) (memory_rows now led)" if "j \<noteq> i" for j
  proof (rule find_filter_other)
    fix e assume "e \<in> set (memory_rows now led)" "\<not> le_id e \<noteq> le_id h"
    then have "e = h" using set_memory_rows [of now led] h(1) assms(6) by (auto simp: distinct_map inj_on_def)
    then show "\<not> has_id j e" using h(3) that by (auto simp: has_id_memory)
  qed
  then show ?thesis using i m st by (auto simp: head_of_rows [OF few(1)] head_of_rows [OF few(2)] rows mine)
qed

theorem revision_takes_effect_witness:
  "map_option memoryStatus (head_of 5 ''m'' (wd_ledger (demo_run (proposed_at 1 2)) @
      [(revised (no_patch\<lparr>mp_status := Some Rejected\<rparr>) (row_of (proposed_at 1 2) 0))\<lparr>le_ts := 5, le_id := ''z''\<rparr>])) = Some Rejected"
proof -
  let ?led = "wd_ledger (demo_run (proposed_at 1 2))"
  let ?h = "row_of (proposed_at 1 2) 0"
  let ?p = "no_patch\<lparr>mp_status := Some Rejected\<rparr>"
  let ?e = "(revised ?p ?h)\<lparr>le_ts := 5, le_id := ''z''\<rparr>"
  have "head_of 5 ''m'' ?led = Some ?h" by code_simp
  moreover have "append_in (\<lambda>_. 0) 5 ''z'' (revised ?p ?h) ?led = Inr (?e, ?led @ [?e])" by code_simp
  moreover have "''z'' \<noteq> []" "''z'' \<notin> set (map le_id ?led)" "''z'' \<notin> set (superseded_ids ?led)" "distinct (map le_id ?led)"
    "list_all (\<lambda>e. le_ts e \<le> 5) ?led" "in_date 5 (revised ?p ?h)" "length ?led < 5000" by code_simp+
  ultimately have "head_of 5 ''m'' (?led @ [?e]) = Some ?e \<and> memoryStatus ?e = given (mp_status ?p) (memoryStatus ?h)"
    using revision_takes_effect by blast
  moreover have "given (mp_status ?p) (memoryStatus ?h) = Rejected" by code_simp
  ultimately show ?thesis by simp
qed

end
