(* ===== verification/MemoryLease.thy ===== *)
theory MemoryLease
  imports MemoryTrust
begin

text \<open>
  Team memory, the lease: windows that run \<^verbatim>\<open>claimLease\<close> (\<^verbatim>\<open>src/src/memoryLease.ts\<close>) for one key, their calls interleaved.
  \<open>where_at\<close> lists the points a window can be at and what it then knows of the ledger; it is the invariant of every step.
\<close>

section \<open>One window holds the lease\<close>

text \<open>
  Windows that claim one key, each event a claim begun or a call that returned. \<open>orderly\<close> is an event of a run that keeps to
  three conditions: no call fails, identifiers are drawn in the order of the appends, and the clocks stay within one term that
  begins at \<open>t0\<close>.
\<close>

record arena =
  ar_ledger :: "ledger_entry list"
  ar_claims :: "(string \<times> bool job) list"

datatype claim_event = Claim string | Answered nat reply

definition no_claims :: arena where
  "no_claims = \<lparr>ar_ledger = [], ar_claims = []\<rparr>"

definition claim_step :: "(ledger_entry \<Rightarrow> nat) \<Rightarrow> string \<Rightarrow> int \<Rightarrow> arena \<Rightarrow> claim_event \<Rightarrow> arena" where
  "claim_step line_len key ttl a ev =
     (case ev of
        Claim owner \<Rightarrow> a\<lparr>ar_claims := ar_claims a @ [(owner, claimLease key ttl owner)]\<rparr>
      | Answered i r \<Rightarrow>
          (if i < length (ar_claims a)
           then let (owner, j) = ar_claims a ! i; (j', led) = resume line_len r j (ar_ledger a)
                in a\<lparr>ar_claims := (ar_claims a)[i := (owner, j')], ar_ledger := led\<rparr>
           else a))"

definition orderly :: "int \<Rightarrow> int \<Rightarrow> arena \<Rightarrow> claim_event \<Rightarrow> bool" where
  "orderly t0 ttl a ev =
     (case ev of
        Claim owner \<Rightarrow> True
      | Answered i r \<Rightarrow>
          (case r of
             Fails \<Rightarrow> False
           | Rows now \<Rightarrow> t0 \<le> now \<and> now < t0 + ttl \<and> length (ar_ledger a) \<le> 50
           | Time now \<Rightarrow> t0 \<le> now \<and> now < t0 + ttl
           | Stored now fresh \<Rightarrow> fresh \<noteq> [] \<and> list_all (\<lambda>e. le_id e < fresh) (ar_ledger a)
           | _ \<Rightarrow> True))"

fun claim_run :: "(ledger_entry \<Rightarrow> nat) \<Rightarrow> string \<Rightarrow> int \<Rightarrow> arena \<Rightarrow> claim_event list \<Rightarrow> arena" where
  "claim_run line_len key ttl a [] = a"
| "claim_run line_len key ttl a (ev # evs) = claim_run line_len key ttl (claim_step line_len key ttl a ev) evs"

fun orderly_run :: "(ledger_entry \<Rightarrow> nat) \<Rightarrow> string \<Rightarrow> int \<Rightarrow> int \<Rightarrow> arena \<Rightarrow> claim_event list \<Rightarrow> bool" where
  "orderly_run line_len key t0 ttl a [] = True"
| "orderly_run line_len key t0 ttl a (ev # evs) =
     (orderly t0 ttl a ev \<and> orderly_run line_len key t0 ttl (claim_step line_len key ttl a ev) evs)"

text \<open>The claims in the ledger, and where a window can be.\<close>

definition claim_entry :: "string \<Rightarrow> ledger_entry \<Rightarrow> bool" where
  "claim_entry key e \<longleftrightarrow> le_kind e = KMemory \<and> le_supersedes e = None \<and> le_ref e = Some (''memory-lease'', key)
     \<and> (case lease_of e of Some d \<Rightarrow> ls_key d = key | None \<Rightarrow> False)"

definition claims_ok :: "string \<Rightarrow> int \<Rightarrow> ledger_entry list \<Rightarrow> bool" where
  "claims_ok key stop led \<longleftrightarrow> list_all (claim_entry key) led \<and> list_all (\<lambda>e. stop \<le> until_of e) led \<and> sorted_wrt (\<lambda>x y. le_id x < le_id y) led"

definition leads :: "ledger_entry list \<Rightarrow> string \<Rightarrow> bool" where
  "leads led owner \<longleftrightarrow> led \<noteq> [] \<and> owner_of (hd led) = owner"

inductive where_at :: "string \<Rightarrow> int \<Rightarrow> int \<Rightarrow> string \<Rightarrow> ledger_entry list \<Rightarrow> bool job \<Rightarrow> bool" for key t0 ttl owner led where
  starts: "where_at key t0 ttl owner led (claimLease key ttl owner)"
| looks: "t0 \<le> now \<Longrightarrow> now < t0 + ttl \<Longrightarrow> where_at key t0 ttl owner led (Query (lease_query key) (claim_found key ttl owner now))"
| claims: "t0 + ttl \<le> t \<Longrightarrow> where_at key t0 ttl owner led (Append (lease_entry key owner t)
     (\<lambda>a. case a of None \<Rightarrow> Return True | Some _ \<Rightarrow> Query (lease_query key) (claim_settled key owner)))"
| renews: "t0 + ttl \<le> t \<Longrightarrow> leads led owner \<Longrightarrow> where_at key t0 ttl owner led (Append (lease_entry key owner t) (\<lambda>_. Return True))"
| checks: "led \<noteq> [] \<Longrightarrow> where_at key t0 ttl owner led (Query (lease_query key) (claim_settled key owner))"
| settles: "set rows \<subseteq> set led \<Longrightarrow> hd led \<in> set rows \<Longrightarrow> led \<noteq> [] \<Longrightarrow> where_at key t0 ttl owner led (claim_settled key owner (Some rows))"
| refused: "where_at key t0 ttl owner led (Return False)"
| holds: "leads led owner \<Longrightarrow> where_at key t0 ttl owner led (Return True)"

lemma where_at_mono: "where_at key t0 ttl owner led j \<Longrightarrow> where_at key t0 ttl owner (led @ ext) j"
proof (induction rule: where_at.induct)
  case (settles rows)
  then show ?case by (intro where_at.settles) auto
qed (auto intro: where_at.intros simp: leads_def)

text \<open>What a query finds, and who is first in it.\<close>

lemma lease_query_all:
  assumes "claims_ok key stop led" "now < stop" "length led \<le> 50"
  shows "set (query_in now (lease_query key) led) = set led"
proof -
  have e: "le_supersedes e = None \<and> query_matches now (lease_query key) e" if "e \<in> set led" for e
  proof -
    have "claim_entry key e" "until_of e > now" using assms(1,2) that by (auto simp: claims_ok_def list_all_iff)
    then show ?thesis by (auto simp: claim_entry_def query_matches_def lease_query_def in_date_def until_of_def split: option.splits)
  qed
  then have "superseded_ids led = []" by (induction led) (auto simp: superseded_ids_def List.map_filter_def)
  then have "fold_chains led = led" by (simp add: fold_chains_def)
  moreover have "filter (query_matches now (lease_query key)) led = led" using e by simp
  ultimately show ?thesis using assms(3) by (simp add: query_in_def lease_query_def MAX_LIMIT_def)
qed

lemma live_claims_first:
  assumes "claims_ok key stop led" "now < stop" "set rows \<subseteq> set led" "hd led \<in> set rows" "led \<noteq> []"
  shows "\<exists>rest. live_claims key now rows = hd led # rest"
proof -
  have "claim_entry key e \<and> now < until_of e" if "e \<in> set rows" for e
    using assms(1-3) that by (fastforce simp: claims_ok_def list_all_iff)
  then have live: "filter (\<lambda>e. (case lease_of e of Some d \<Rightarrow> ls_key d = key | None \<Rightarrow> False) \<and> until_of e > now) rows = rows"
    by (auto simp: claim_entry_def filter_id_conv)
  obtain l ls where led: "led = l # ls" using assms(5) by (cases led) auto
  have first: "le_id l < le_id x \<or> x = l" if "x \<in> set rows" for x
    using assms(1,3) that by (auto simp: claims_ok_def led)
  let ?s = "sort_key le_id rows"
  have "?s \<noteq> []" using assms(4) by (metis set_sort empty_iff empty_set)
  then obtain y ys where y: "?s = y # ys" by (cases ?s) auto
  then have mem: "y \<in> set rows" using set_sort [of le_id rows] by (metis list.set_intros(1))
  have "l \<in> set (y # ys)" using assms(4) set_sort [of le_id rows] by (simp add: led y)
  moreover have "sorted (map le_id (y # ys))" using sorted_sort_key [of le_id rows] by (simp add: y)
  ultimately have "le_id y \<le> le_id l" by auto
  then have "y = l" using first [OF mem] by auto
  then show ?thesis using y live by (simp add: live_claims_def led)
qed

text \<open>What an answer to one window's call leaves.\<close>

lemma stored_claim:
  assumes "claims_ok key stop led" "list_all (\<lambda>e. le_id e < fresh) led" "\<forall>e. line_len e \<le> ENTRY_MAX" "fresh \<noteq> []" "stop \<le> t"
  obtains e' where "append_in line_len now fresh (lease_entry key owner t) led = Inr (e', led @ [e'])" "claims_ok key stop (led @ [e'])" "owner_of e' = owner"
proof -
  define e' where "e' = (lease_entry key owner t)\<lparr>le_ts := now, le_id := fresh\<rparr>"
  have "\<not> list_all rust_space ''memory''" by code_simp
  then have "append_in line_len now fresh (lease_entry key owner t) led = Inr (e', led @ [e'])"
    using assms(3) by (simp add: append_in_def e'_def Let_def linorder_not_less lease_entry_def)
  moreover have "claims_ok key stop (led @ [e'])"
    using assms(1,2,5) by (auto simp: claims_ok_def sorted_wrt_append list_all_iff e'_def claim_entry_def lease_entry_def lease_of_def until_of_def)
  moreover have "owner_of e' = owner" by (simp add: e'_def owner_of_def lease_of_def lease_entry_def)
  ultimately show ?thesis using that by blast
qed

lemma where_at_found:
  assumes "claims_ok key (t0 + ttl) led" "t0 \<le> now" "now < t0 + ttl" "set rows = set led"
  shows "where_at key t0 ttl owner led (claim_found key ttl owner now (Some rows))"
proof (cases "led = []")
  case True
  then have "live_claims key now rows = []" using assms(4) by (simp add: live_claims_def)
  then show ?thesis using assms(2) by (auto simp: claim_found_def intro: where_at.claims)
next
  case False
  then obtain rest where "live_claims key now rows = hd led # rest"
    using live_claims_first [OF assms(1,3), of rows] assms(4) by auto
  then show ?thesis using False assms(2) by (auto simp: claim_found_def leads_def intro: where_at.intros)
qed

lemma where_at_resume:
  assumes "where_at key t0 ttl owner led j" "claims_ok key (t0 + ttl) led" "\<forall>e. line_len e \<le> ENTRY_MAX"
    and "orderly t0 ttl a (Answered i r)" "ar_ledger a = led" "resume line_len r j led = (j', led')"
  shows "where_at key t0 ttl owner led' j' \<and> claims_ok key (t0 + ttl) led' \<and> (\<exists>ext. led' = led @ ext)"
proof (cases "j' = j \<and> led' = led")
  case True
  then show ?thesis using assms(1,2) by auto
next
  case moved: False
  show ?thesis
    using assms(1)
  proof cases
    case starts
    then show ?thesis using assms(2,4,6) moved by (cases r) (auto simp: claimLease_def orderly_def intro: where_at.looks)
  next
    case (looks now)
    show ?thesis
    proof (cases r)
      case (Rows t)
      then have "set (query_in t (lease_query key) led) = set led"
        using lease_query_all [OF assms(2)] assms(4,5) by (auto simp: orderly_def)
      then show ?thesis using where_at_found [OF assms(2) looks(2,3)] assms(2,6) looks(1) Rows by auto
    qed (use assms(4,6) moved looks(1) in \<open>auto simp: orderly_def\<close>)
  next
    case (claims t)
    show ?thesis
    proof (cases r)
      case (Stored n fresh)
      obtain e' where "append_in line_len n fresh (lease_entry key owner t) led = Inr (e', led @ [e'])" "claims_ok key (t0 + ttl) (led @ [e'])"
        using stored_claim [OF assms(2) _ assms(3) _ claims(2), of fresh n owner] assms(4,5) Stored by (auto simp: orderly_def)
      then show ?thesis using assms(6) claims(1) Stored by (auto intro: where_at.checks)
    qed (use assms(4,6) moved claims(1) in \<open>auto simp: orderly_def\<close>)
  next
    case (renews t)
    show ?thesis
    proof (cases r)
      case (Stored n fresh)
      obtain e' where "append_in line_len n fresh (lease_entry key owner t) led = Inr (e', led @ [e'])" "claims_ok key (t0 + ttl) (led @ [e'])"
        using stored_claim [OF assms(2) _ assms(3) _ renews(2), of fresh n owner] assms(4,5) Stored by (auto simp: orderly_def)
      then show ?thesis using assms(6) renews(1,3) Stored by (auto simp: leads_def intro: where_at.holds)
    qed (use assms(4,6) moved renews(1) in \<open>auto simp: orderly_def\<close>)
  next
    case checks
    show ?thesis
    proof (cases r)
      case (Rows t)
      then have "set (query_in t (lease_query key) led) = set led"
        using lease_query_all [OF assms(2)] assms(4,5) by (auto simp: orderly_def)
      then have "where_at key t0 ttl owner led (claim_settled key owner (Some (query_in t (lease_query key) led)))"
        using checks(2) by (intro where_at.settles) auto
      then show ?thesis using assms(2,6) checks Rows by auto
    qed (use assms(4,6) moved checks(1) in \<open>auto simp: orderly_def\<close>)
  next
    case (settles rows)
    show ?thesis
    proof (cases r)
      case (Time t)
      then obtain rest where "live_claims key t rows = hd led # rest"
        using live_claims_first [OF assms(2) _ settles(2-4), of t] assms(4) by (auto simp: orderly_def)
      moreover have "where_at key t0 ttl owner led (Return (owner_of (hd led) = owner))"
        using settles(4) by (cases "owner_of (hd led) = owner") (auto simp: leads_def intro: where_at.intros)
      ultimately show ?thesis using assms(2,6) settles Time by (auto simp: claim_settled_def)
    qed (use assms(4,6) moved settles(1) in \<open>auto simp: claim_settled_def orderly_def\<close>)
  next
    case refused
    then show ?thesis using assms(6) moved by (cases r) auto
  next
    case holds
    then show ?thesis using assms(6) moved by (cases r) auto
  qed
qed

definition all_placed :: "string \<Rightarrow> int \<Rightarrow> int \<Rightarrow> arena \<Rightarrow> bool" where
  "all_placed key t0 ttl a \<longleftrightarrow> claims_ok key (t0 + ttl) (ar_ledger a)
     \<and> list_all (\<lambda>c. where_at key t0 ttl (fst c) (ar_ledger a) (snd c)) (ar_claims a)"

lemma all_placed_step:
  assumes "all_placed key t0 ttl a" "orderly t0 ttl a ev" "\<forall>e. line_len e \<le> ENTRY_MAX"
  shows "all_placed key t0 ttl (claim_step line_len key ttl a ev)"
proof (cases ev)
  case (Claim owner)
  then show ?thesis using assms(1) by (auto simp: claim_step_def all_placed_def intro: where_at.starts)
next
  case (Answered i r)
  show ?thesis
  proof (cases "i < length (ar_claims a)")
    case True
    obtain owner j where c: "ar_claims a ! i = (owner, j)" by fastforce
    obtain j' led' where run: "resume line_len r j (ar_ledger a) = (j', led')" by fastforce
    have "where_at key t0 ttl owner (ar_ledger a) j" using assms(1) True c by (auto simp: all_placed_def list_all_length)
    then have at: "where_at key t0 ttl owner led' j' \<and> claims_ok key (t0 + ttl) led' \<and> (\<exists>ext. led' = ar_ledger a @ ext)"
      using assms run by (intro where_at_resume) (auto simp: Answered all_placed_def)
    then have "list_all (\<lambda>c. where_at key t0 ttl (fst c) led' (snd c)) (ar_claims a)"
      using assms(1) where_at_mono by (fastforce simp: all_placed_def list_all_iff)
    then have "list_all (\<lambda>c. where_at key t0 ttl (fst c) led' (snd c)) ((ar_claims a)[i := (owner, j')])"
      using at by (auto simp: list_all_iff dest: set_update_subset_insert [THEN subsetD])
    then show ?thesis using at True by (simp add: Answered claim_step_def c run all_placed_def)
  qed (use assms(1) in \<open>simp add: Answered claim_step_def\<close>)
qed

lemma all_placed_run:
  "orderly_run line_len key t0 ttl a evs \<Longrightarrow> all_placed key t0 ttl a \<Longrightarrow> \<forall>e. line_len e \<le> ENTRY_MAX
   \<Longrightarrow> all_placed key t0 ttl (claim_run line_len key ttl a evs)"
  by (induction evs arbitrary: a) (auto intro: all_placed_step)


definition told_yes :: "(string \<times> bool job) list \<Rightarrow> string list" where
  "told_yes cs = map fst (filter (\<lambda>c. case snd c of Return b \<Rightarrow> b | _ \<Rightarrow> False) cs)"

definition raced_claims :: "string \<Rightarrow> string \<Rightarrow> claim_event list" where
  "raced_claims i1 i2 =
     [Claim ''w1'', Claim ''w2'', Answered 0 (Time 0), Answered 1 (Time 0), Answered 0 (Rows 0), Answered 1 (Rows 0),
      Answered 0 (Stored 0 i1), Answered 0 (Rows 0), Answered 0 (Time 0), Answered 1 (Stored 0 i2), Answered 1 (Rows 0), Answered 1 (Time 0)]"

lemma told_yes_iff: "o' \<in> set (told_yes cs) \<longleftrightarrow> (o', Return True) \<in> set cs"
proof -
  have "(case j of Return b \<Rightarrow> b | _ \<Rightarrow> False) \<longleftrightarrow> j = Return True" for j by (cases j) auto
  then show ?thesis by (force simp: told_yes_def)
qed


text \<open>C96: Two windows can hold one lease: identifiers of one millisecond are in random order, so the second claim may sort before
  the first, whose window has already been told that it holds the lease.\<close>

theorem lease_race_within_a_millisecond:
  "\<exists>evs. told_yes (ar_claims (claim_run (\<lambda>_. 0) ''k'' 10 no_claims evs)) = [''w1'', ''w2'']"
proof -
  have "told_yes (ar_claims (claim_run (\<lambda>_. 0) ''k'' 10 no_claims (raced_claims ''1-b'' ''1-a''))) = [''w1'', ''w2'']" by code_simp
  then show ?thesis by blast
qed

end
