(* ===== verification/Spec2Isabelle.thy ===== *)
theory Spec2Isabelle
  imports MeshExamples PlanStore TerminalAttach CollabNetwork CollabManager AgentLife Failover TerminalGroups WorkflowSafety IoBudget EditorSafety MemoryText MemoryLease
begin

text \<open>
  A verification development of Canopy, a desktop application in which people and coding agents work on the same
  projects. This theory imports all others; it holds this overview. Paths are those of the repository.

  \<^bold>\<open>The parts and how they interact.\<close>
  People and agents edit files in the application's editor. A file can be shared: its owner and its guests exchange operations
  over a relay, and each end transforms what it receives. Agents run in terminals; hooks and the terminal report what an agent
  does, and the agent lifecycle says what it is doing and whether its session may be reclaimed. When an agent fails, the
  failover classifies the failure and picks another route. A workflow runs agents step by step through a graph, its state kept
  by a store in the native process. What the team learns is kept as memory in a ledger that all windows share, and reaches agents
  only after a person approved it. An agent can hand a job to another workspace, machine or person over an encrypted channel, which
  proves who sent it. The editor compacts models nobody looks at, and reading is admitted by a budget.

  \<^bold>\<open>Theories.\<close>
  \<^item> \<open>Prelude\<close>: results of code that may throw, strings as UTF-16 code units, slices, insertion-ordered maps, generic lemmas.
    \<open>JsText\<close>: what several parts do to strings (one line, clipping, splitting and joining, case, the length in UTF-8).
  \<^item> \<open>CollabOt\<close>: operations on a document, \<^verbatim>\<open>src/src/collab-ot.ts\<close> (builder, apply, transform, carets, hashes, editor changes).
    \<open>ConcurrentOps\<close> is the interface the sessions use, a locale with the diamond law; \<open>CollabOt\<close> interprets it.
  \<^item> \<open>CollabSession\<close>, \<open>CollabLink\<close>, \<open>CollabNetwork\<close>: \<^verbatim>\<open>OwnerSession\<close> and \<^verbatim>\<open>GuestSession\<close> of \<^verbatim>\<open>src/src/collab.ts\<close>, one guest's
    two channels, and a whole document with any number of members and queues between every two of them. The state is the record
    of each end and the frames under way; a step is an edit, an offer, a cursor, or the delivery of one frame.
  \<^item> \<open>CollabManager\<close>: \<^verbatim>\<open>CollabManager\<close> of \<^verbatim>\<open>src/src/collab.ts\<close>, the table of sessions, offers, shared projects and access lists.
  \<^item> \<open>AgentLife\<close>: \<^verbatim>\<open>src/shared/agentLife\<close> with its two manifests (\<^verbatim>\<open>fidelity.json\<close>, \<^verbatim>\<open>policy.json\<close>): the ladder from evidence to a
    verdict, the attention reducer, and the binding of sessions to terminals.
  \<^item> \<open>Failover\<close>: \<^verbatim>\<open>src/src/failureClassifier.ts\<close>, \<^verbatim>\<open>fleetState.ts\<close>, \<^verbatim>\<open>modelRouting.ts\<close>, \<^verbatim>\<open>vibeFailover.ts\<close>.
  \<^item> \<open>TerminalGroups\<close>: \<^verbatim>\<open>src/src/terminalGroups.ts\<close>, the split tree of a group of terminals and its layout.
    \<open>TerminalAttach\<close>: \<^verbatim>\<open>src/src/terminalAttachmentQueue.ts\<close>, the queue of terminals and the consumers that own them.
  \<^item> \<open>PlanDraft\<close>, \<open>PlanGate\<close>, \<open>PlanStore\<close>: \<^verbatim>\<open>src/src/plans\<close>. The answer of the brain, the hot spots, the gate and the brief
    (\<^verbatim>\<open>plan.ts\<close>, \<^verbatim>\<open>hotspots.ts\<close>); one window's dispatches as a state machine over its waiting calls (\<^verbatim>\<open>planGate.ts\<close>); the
    chains of plans in the ledger and the runs that carry them out (\<^verbatim>\<open>planStore.ts\<close>).
  \<^item> \<open>JobScope\<close>, \<open>MeshJobs\<close>: which checkout a job from another machine belongs in (\<^verbatim>\<open>src/src/jobScope.ts\<close>, the remotes of
    \<^verbatim>\<open>gitLinks.ts\<close>, the checks of \<^verbatim>\<open>teamMessaging/jobSchema.ts\<close>), and one window's jobs as a state machine over the events of the
    team channel, the requests of agents, the user's decisions and the calls that return (\<^verbatim>\<open>src/src/meshJobs.ts\<close>).
    \<open>MeshSafety\<close> and \<open>MeshReports\<close> hold its properties, \<open>MeshExamples\<close> a window evaluated. The locale \<open>bystander\<close> is what
    the operations that only tell something share; the invariants of jobs, reports and retries each interpret it.
  \<^item> \<open>WorkflowJson\<close>, \<open>WorkflowDefinition\<close>: JSON values and the validator of \<^verbatim>\<open>src/src/workflowDefinition.ts\<close>.
    \<open>WorkflowRun\<close>, \<open>WorkflowSafety\<close>: the store of runs (\<^verbatim>\<open>src/src-tauri/src/workflow.rs\<close>) and the executor
    (\<^verbatim>\<open>src/src/workflowExecutor.ts\<close>, \<^verbatim>\<open>workflowRun.ts\<close>), and what holds of every run, restarts included.
  \<^item> \<open>IoBudget\<close>: \<^verbatim>\<open>src/src/ioBudget.ts\<close>. \<open>EditorRetention\<close>, \<open>EditorSafety\<close>: \<^verbatim>\<open>src/src/editorModelRetention.ts\<close> and the models of
    \<^verbatim>\<open>src/src/monaco-setup.ts\<close>.
  \<^item> \<open>MemoryStore\<close>, \<open>MemoryRules\<close>, \<open>MemoryJobs\<close>: the ledger (\<^verbatim>\<open>src/src-tauri/src/ledger.rs\<close>), the rules for what the brain and agents
    propose, and the operations and background jobs over it (\<^verbatim>\<open>src/src/memoryLedger.ts\<close>, \<^verbatim>\<open>memoryLease.ts\<close>,
    \<^verbatim>\<open>memoryConsolidate.ts\<close>, \<^verbatim>\<open>memoryExtract.ts\<close>, \<^verbatim>\<open>remoteExecution/memorySync.ts\<close>). \<open>MemoryText\<close> is the generated section of an
    instruction file, \<open>MemoryTrust\<close> all jobs interleaved, \<open>MemoryLease\<close> the lease among windows.

  \<^bold>\<open>How the code is modelled.\<close>
  A class or interface is a record, a union of literals a datatype, a \<^verbatim>\<open>Map\<close> an association list in insertion order, a throw or an
  early return a branch of a sum or an option. Handlers take the state and return it with the frames, calls and answers they
  produced. What the code asks of its environment (editor buffer, agent registry, task ledger, clock, random bytes, the brain) is an
  argument or an answer to a call, and the theorems hold for every such answer unless a hypothesis names its documented
  behaviour. Asynchronous functions are either steps of a state machine, one for each stretch between two awaits (the sessions,
  the editor, the budget), or jobs whose calls return one at a time, in any order among jobs (\<open>MemoryJobs.job\<close>).

  \<^bold>\<open>What the lemmas show.\<close>
  \<^item> Convergence: transform closes the diamond, every network state keeps the relation between the owner's history and each
    guest, and a document at rest is the same everywhere; no handler reports a desynchronisation. Who may receive a document's
    text, and that frames open, change or reveal nothing else. The theories also hold the two runs in which this fails: an edit
    made during a resynchronisation, and a file tree nobody asked for.
  \<^item> Verdicts: each verdict stands on its evidence, a session is reclaimed only on proof, blocks survive every input that is not
    the agent's own; a failover switches only to a usable route and stops as specified.
  \<^item> Workflows: what the validator accepts is well-formed and can finish, runs refine a specification of steps, rounds of loops and
    attempts are bounded, and agents are launched once for each recorded attempt.
  \<^item> Resources: the editor loses no text by compaction and keeps bounded tables; the budget keeps its limits and serves everyone.
  \<^item> Layout: panes tile the surface, and the preview of a drop is the pane that results.
  \<^item> Terminals: the queue implements a specification of who has a terminal, loses none, and offers none to two views.
  \<^item> Plans: each dispatch is launched once, dropped or still waiting, whatever fails; an agent starts for one of four reasons only;
    a brief names its plan; one window never forks a plan, two windows can.
  \<^item> Mesh jobs: the agent of a job from elsewhere starts only where the job's repository or the user allows; each job that arrives
    is accounted for, and one that waits outlives the window; only where a job went may report on it; a retry is sent once; a job
    to the user's other machine comes back with its summary.
  \<^item> Memory: nothing reaches an agent that a person did not approve or write; a revision takes effect; the brain's answers are
    typed and touch only what was offered; the lease excludes within a term; and the runs in which tidying, forks, the lease and
    the generated section do not do what their comments say.

  \<^bold>\<open>Bounds, fuel and numbers.\<close>
  A run's continuation is bounded by the code's own 512 transitions. Loops of the code are structural recursion or have a
  measure; there is no other fuel, except the number of entries of the ledger for the walk along a chain, which the code bounds
  the same way. Counters, lengths and times are \<open>int\<close> or \<open>nat\<close> (the code's stay below 2^53); hashes are words of 32 bits, text that is
  measured in UTF-16 units a list of 16-bit words; ratios, scores and confidences are rationals instead of doubles.

  \<^bold>\<open>Not modelled.\<close>
  The React components and the views, the Rust processes other than the workflow store and the ledger (terminals, git, the file
  system, the relay, the MCP server), the remote workspaces and their packages, the portal, build scripts and documentation:
  their core is input and output, or they only call the parts above. Within the modelled files: presentation (tooltips, colours
  of carets), prompts, timers and subscriptions of team memory and of plans, and ranking of retrieved memories. Of the program's
  own logic also left out: the buffering of turns before extraction, hibernation and wake-up of sessions, the listing
  of where a job can go, tab groups and the rollback of turns.
\<close>

end
